(* ===== verification/Prelude.thy ===== *)
theory Prelude
  imports Main "HOL-Library.Word"
begin

text \<open>
  Shared vocabulary of the development: the error codes of the interpreter
  (\<^verbatim>\<open>src/types.inl\<close>, \<^verbatim>\<open>enum struct Error\<close>), the outcome of a routine that may raise an
  error or fail to return, the widths of the machine integers the sources use, and the
  generic lemmas on words, alignment and lists that the component theories share.
\<close>

unbundle bit_operations_syntax

section \<open>Errors and outcomes\<close>

datatype (plugins only: code) error =
    NoError | AssertFailed | DictFull | DictStackOverflow | DictStackUnderflow | DivByZero
  | ErrStackOverflow | ExecStackOverflow | FileOpenError | FilenameExists | FilenameNotFound
  | IOReadError | IOSeekError | IOWriteError | IndexCheck | InternalError | InvalidAccess
  | InvalidExit | InvalidFormatString | InvalidName | InvalidRestore | InvalidStop
  | InvalidStream | InvalidStreamAccess | InvalidThrow | LimitCheck | NumericalINF
  | NumericalNaN | NumericalOverflow | OpStackOverflow | OpStackUnderflow | RangeCheck
  | ReadOnly | ScanDuplicateArgId | ScanInputFail | ScanMatchFail | ScanTypeFail
  | ScanTypeMismatch | SetFilePositionRequired | SyntaxError | TypeCheck | Undefined
  | UndefinedCase | UndefinedResult | UnmatchedMark | Unsupported | VMFull
  | InvalidImageFile | SnapShotError | Fail | Protocol | Match | Require | Ensure
  | ExecutionLimit | UnhandledCapture | EffectNotHandled | AboveBarrier | UserError
  | TimeLimit | StackEffect | DictConflict

text \<open>
  A routine either returns a value, raises a Trix error (\<^verbatim>\<open>error(...)\<close> never returns to its
  caller), or, where it follows pointers in a loop, may not return at all; \<open>Fault\<close> stands for an
  access outside an object or a signed overflow, which C++ leaves undefined.
\<close>

datatype 'a outcome = Value 'a | Raise error | Diverge | Fault

fun bind_outcome :: "'a outcome \<Rightarrow> ('a \<Rightarrow> 'b outcome) \<Rightarrow> 'b outcome" where
  "bind_outcome (Value x) f = f x"
| "bind_outcome (Raise e) f = Raise e"
| "bind_outcome Diverge f = Diverge"
| "bind_outcome Fault f = Fault"

definition from_walk :: "'a option \<Rightarrow> 'a outcome" where
  "from_walk r = (case r of None \<Rightarrow> Diverge | Some x \<Rightarrow> Value x)"

lemma from_walk_simps [simp]: "from_walk None = Diverge" "from_walk (Some x) = Value x"
  by (simp_all add: from_walk_def)

lemma bind_outcome_Value_iff:
  "bind_outcome m f = Value y \<longleftrightarrow> (\<exists>x. m = Value x \<and> f x = Value y)"
  by (cases m) auto

lemma bind_outcome_cong [fundef_cong]:
  assumes "m = m'" and "\<And>x. m' = Value x \<Longrightarrow> f x = f' x"
  shows "bind_outcome m f = bind_outcome m' f'"
  using assms by (cases m') auto

section \<open>Machine integers\<close>

type_synonym u8 = "8 word"
type_synonym u32 = "32 word"
type_synonym u64 = "64 word"
type_synonym u128 = "128 word"

text \<open>The value ranges of \<^verbatim>\<open>integer_t\<close> (int32) and \<^verbatim>\<open>vm_size_t\<close> (uint32).\<close>

definition int32_min :: int where "int32_min = - (2 ^ 31)"
definition int32_max :: int where "int32_max = 2 ^ 31 - 1"
definition in_int32 :: "int \<Rightarrow> bool" where
  "in_int32 x \<longleftrightarrow> int32_min \<le> x \<and> x \<le> int32_max"
definition vm_size_max :: nat where "vm_size_max = 2 ^ 32 - 1"

definition wrap_int32 :: "int \<Rightarrow> int" where
  "wrap_int32 x = (x + 2 ^ 31) mod 2 ^ 32 - 2 ^ 31"

lemmas int32_defs = int32_min_def int32_max_def in_int32_def

lemma wrap_int32_id: "in_int32 x \<Longrightarrow> wrap_int32 x = x"
  by (simp add: wrap_int32_def int32_defs)

lemma wrap_int32_range: "in_int32 (wrap_int32 x)"
  using pos_mod_bound [of "2 ^ 32" "x + 2 ^ 31"] pos_mod_sign [of "2 ^ 32" "x + 2 ^ 31"]
  by (simp add: wrap_int32_def int32_defs)

text \<open>Signed 32-bit addition and checked access to an array by a signed index.\<close>

definition add32 :: "int \<Rightarrow> int \<Rightarrow> int outcome" where
  "add32 x y = (if in_int32 (x + y) then Value (x + y) else Fault)"

definition get_at :: "'a list \<Rightarrow> int \<Rightarrow> 'a outcome" where
  "get_at xs i = (if 0 \<le> i \<and> nat i < length xs then Value (xs ! nat i) else Fault)"

definition put_at :: "'a list \<Rightarrow> int \<Rightarrow> 'a \<Rightarrow> 'a list outcome" where
  "put_at xs i v = (if 0 \<le> i \<and> nat i < length xs then Value (xs[nat i := v]) else Fault)"

lemma add32_Value: "in_int32 (x + y) \<Longrightarrow> add32 x y = Value (x + y)"
  by (simp add: add32_def)

lemma get_at_Value: "0 \<le> i \<Longrightarrow> i < int (length xs) \<Longrightarrow> get_at xs i = Value (xs ! nat i)"
  by (simp add: get_at_def nat_less_iff)

lemma put_at_Value: "0 \<le> i \<Longrightarrow> i < int (length xs) \<Longrightarrow> put_at xs i v = Value (xs[nat i := v])"
  by (simp add: put_at_def nat_less_iff)

text \<open>\<^verbatim>\<open>memmove\<close> and \<^verbatim>\<open>memset\<close> inside one buffer, as the replacement of a slice.\<close>

definition put_slice :: "'a list \<Rightarrow> nat \<Rightarrow> 'a list \<Rightarrow> 'a list" where
  "put_slice xs off ys = take off xs @ ys @ drop (off + length ys) xs"

definition mem_move :: "'a list \<Rightarrow> nat \<Rightarrow> nat \<Rightarrow> nat \<Rightarrow> 'a list" where
  "mem_move xs dst src n = put_slice xs dst (take n (drop src xs))"

definition mem_set :: "'a list \<Rightarrow> nat \<Rightarrow> 'a \<Rightarrow> nat \<Rightarrow> 'a list" where
  "mem_set xs off v n = put_slice xs off (replicate n v)"

lemma length_put_slice [simp]: "off + length ys \<le> length xs \<Longrightarrow> length (put_slice xs off ys) = length xs"
  by (simp add: put_slice_def)

lemma nth_put_slice:
  "off + length ys \<le> length xs \<Longrightarrow> i < length xs \<Longrightarrow> put_slice xs off ys ! i =
     (if off \<le> i \<and> i < off + length ys then ys ! (i - off) else xs ! i)"
  by (auto simp: put_slice_def nth_append)

lemma length_mem_set [simp]: "off + n \<le> length xs \<Longrightarrow> length (mem_set xs off v n) = length xs"
  by (simp add: mem_set_def)

lemma length_mem_move [simp]:
  "dst + n \<le> length xs \<Longrightarrow> src + n \<le> length xs \<Longrightarrow> length (mem_move xs dst src n) = length xs"
  by (simp add: mem_move_def)

lemma nth_mem_set:
  "off + n \<le> length xs \<Longrightarrow> i < length xs \<Longrightarrow>
     mem_set xs off v n ! i = (if off \<le> i \<and> i < off + n then v else xs ! i)"
  by (auto simp: mem_set_def nth_put_slice)

lemma nth_mem_move:
  "dst + n \<le> length xs \<Longrightarrow> src + n \<le> length xs \<Longrightarrow> i < length xs \<Longrightarrow> mem_move xs dst src n ! i =
     (if dst \<le> i \<and> i < dst + n then xs ! (src + (i - dst)) else xs ! i)"
  by (auto simp: mem_move_def nth_put_slice)

section \<open>Alignment\<close>

definition align_up :: "nat \<Rightarrow> nat \<Rightarrow> nat" where
  "align_up al p = ((p + (al - 1)) div al) * al"

definition align_down :: "nat \<Rightarrow> int \<Rightarrow> int" where
  "align_down al p = (p div int al) * int al"

lemma align_up_ge: "0 < al \<Longrightarrow> p \<le> align_up al p"
proof -
  assume al: "0 < al"
  have "p + (al - 1) = (p + (al - 1)) div al * al + (p + (al - 1)) mod al"
    by simp
  moreover have "(p + (al - 1)) mod al < al" using al by simp
  ultimately show ?thesis unfolding align_up_def using al by linarith
qed

lemma align_up_dvd: "al dvd align_up al p"
  by (simp add: align_up_def)

lemma align_up_less: "0 < al \<Longrightarrow> align_up al p < p + al"
proof -
  assume al: "0 < al"
  have "(p + (al - 1)) div al * al \<le> p + (al - 1)"
    by (rule div_times_less_eq_dividend)
  with al show ?thesis unfolding align_up_def by linarith
qed

lemma align_down_le: "0 < al \<Longrightarrow> align_down al p \<le> p"
  by (simp add: align_down_def)
    (metis (no_types) add_le_same_cancel1 div_mult_mod_eq le_add_same_cancel1 of_nat_0_less_iff
      pos_mod_sign)

lemma align_down_dvd: "int al dvd align_down al p"
  by (simp add: align_down_def)

lemma align_down_id: "int al dvd p \<Longrightarrow> align_down al p = p"
  by (auto simp: align_down_def dvd_def)

end
