(* ===== verification/Gvm_Heap.thy ===== *)
theory Gvm_Heap
  imports Vm_Heap
begin

text \<open>
  The allocator of the global region, \<^verbatim>\<open>src/gvm_heap.inl\<close>: blocks with a 16-byte header and a
  4-byte tail tag that tile the region from \<^verbatim>\<open>m_vm_global\<close> to \<^verbatim>\<open>m_vm_limit\<close>, four LIFO fastbins
  for the sizes 32 to 56, and a doubly linked general free list sorted by offset. This theory
  holds the state and the operations; \<open>Gvm_Links\<close> and \<open>Gvm_Correct\<close> hold the proofs.

  The bytes of the region are modelled by three stores: \<open>headers\<close> (the \<^verbatim>\<open>GvmBlock\<close> at a block
  offset), \<open>tails\<close> (the \<^verbatim>\<open>uint32_t\<close> boundary tag at a byte offset) and \<open>flinks\<close> (the
  \<^verbatim>\<open>GvmFreeLinks\<close> overlaid on a payload). Entries left behind inside a merged block stay in the
  stores, as the stale bytes stay in memory. Offsets and sizes are \<^typ>\<open>nat\<close>; the size
  computation of \<open>gvm_alloc_impl\<close> is done modulo \<^term>\<open>(2::nat) ^ 32\<close> as in the code. The
  collector that an exhausted allocation calls (\<^verbatim>\<open>vm_global_gc\<close>) is the argument \<open>gc\<close>. The
  debugger-only stress and poison hooks are left out.
\<close>

section \<open>Block layout\<close>

record gvm_block =
  m_size :: nat
  m_kind :: u8
  m_mark_gen :: nat
  m_obj_count :: nat
  m_next_in_work :: nat
  m_magic :: nat

record free_links =
  prev_free :: nat
  next_free :: nat

definition GvmMagic :: nat where "GvmMagic = 0xDEADC0DE"
definition GvmFreeFlag :: u8 where "GvmFreeFlag = 0x80"
definition ChunkKind_GcScratch :: u8 where "ChunkKind_GcScratch = 29"
definition ChunkKind_Free :: u8 where "ChunkKind_Free = 0xFF"

definition GvmBlockAlignment :: nat where "GvmBlockAlignment = 8"
definition GvmHeaderSize :: nat where "GvmHeaderSize = 16"
definition GvmTailTagSize :: nat where "GvmTailTagSize = 4"
definition GvmMinPayloadSize :: nat where "GvmMinPayloadSize = 8"
definition GvmMinBlockSize :: nat where "GvmMinBlockSize = 32"
definition GvmFastBinCount :: nat where "GvmFastBinCount = 4"
definition GvmFastBinThreshold :: nat where "GvmFastBinThreshold = 64"
definition GcScratchTotalEntries :: nat where "GcScratchTotalEntries = 1024"

lemmas gvm_consts =
  GvmMagic_def GvmFreeFlag_def ChunkKind_GcScratch_def ChunkKind_Free_def GvmBlockAlignment_def
  GvmHeaderSize_def GvmTailTagSize_def GvmMinPayloadSize_def GvmMinBlockSize_def
  GvmFastBinCount_def GvmFastBinThreshold_def GcScratchTotalEntries_def nulloffset_def

definition gvm_kind_is_free :: "u8 \<Rightarrow> bool" where
  "gvm_kind_is_free kind \<longleftrightarrow> kind AND GvmFreeFlag \<noteq> 0"

record gvm = vm_heap +
  headers :: "nat \<Rightarrow> gvm_block"
  tails :: "nat \<Rightarrow> nat"
  flinks :: "nat \<Rightarrow> free_links"
  m_gvm_free_head :: nat
  m_gvm_fastbins :: "nat \<Rightarrow> nat"
  m_gvm_free_block_count :: nat
  m_gvm_user_block_count :: nat
  m_gc_scratch_offset :: nat
  m_gc_current_gen :: nat
  m_in_gc :: bool
  m_gc_work_head :: nat
  m_gc_marked_count :: nat
  m_gc_run_count :: nat
  m_gc_last_reclaimed_bytes :: nat

definition gc_init_mark_for_alloc :: "gvm \<Rightarrow> nat" where
  "gc_init_mark_for_alloc s = m_gc_current_gen s"

section \<open>Header accessors\<close>

definition gvm_block_at :: "nat \<Rightarrow> nat" where
  "gvm_block_at payload_offset = payload_offset - GvmHeaderSize"

definition gvm_set_obj_count :: "gvm \<Rightarrow> nat \<Rightarrow> nat \<Rightarrow> gvm" where
  "gvm_set_obj_count s payload count =
     s\<lparr>headers := (headers s)(gvm_block_at payload :=
        (headers s (gvm_block_at payload))\<lparr>m_obj_count := count\<rparr>)\<rparr>"

definition gvm_get_obj_count :: "gvm \<Rightarrow> nat \<Rightarrow> nat" where
  "gvm_get_obj_count s payload = m_obj_count (headers s (gvm_block_at payload))"

definition gvm_get_mark_gen :: "gvm \<Rightarrow> nat \<Rightarrow> nat" where
  "gvm_get_mark_gen s payload = m_mark_gen (headers s (gvm_block_at payload))"

definition gvm_set_mark_gen :: "gvm \<Rightarrow> nat \<Rightarrow> nat \<Rightarrow> gvm" where
  "gvm_set_mark_gen s payload gen =
     s\<lparr>headers := (headers s)(gvm_block_at payload :=
        (headers s (gvm_block_at payload))\<lparr>m_mark_gen := gen\<rparr>)\<rparr>"

definition gvm_get_kind :: "gvm \<Rightarrow> nat \<Rightarrow> u8" where
  "gvm_get_kind s payload =
     (let raw = m_kind (headers s (gvm_block_at payload))
      in if raw AND GvmFreeFlag \<noteq> 0 then ChunkKind_Free else raw)"

definition gvm_get_freed_kind :: "gvm \<Rightarrow> nat \<Rightarrow> u8" where
  "gvm_get_freed_kind s payload = m_kind (headers s (gvm_block_at payload)) AND NOT GvmFreeFlag"

definition gvm_block_is_free :: "gvm \<Rightarrow> nat \<Rightarrow> bool" where
  "gvm_block_is_free s payload \<longleftrightarrow> m_kind (headers s (gvm_block_at payload)) AND GvmFreeFlag \<noteq> 0"

definition gvm_get_block_size :: "gvm \<Rightarrow> nat \<Rightarrow> nat" where
  "gvm_get_block_size s payload = m_size (headers s (gvm_block_at payload))"

definition gvm_get_payload_size :: "nat \<Rightarrow> nat" where
  "gvm_get_payload_size block_size = block_size - GvmHeaderSize - GvmTailTagSize"

definition gvm_block_extends_to :: "gvm \<Rightarrow> nat \<Rightarrow> nat" where
  "gvm_block_extends_to s payload = (payload - GvmHeaderSize) + gvm_get_block_size s payload"

definition gvm_write_tail_tag :: "gvm \<Rightarrow> nat \<Rightarrow> nat \<Rightarrow> gvm" where
  "gvm_write_tail_tag s block_offset block_size =
     s\<lparr>tails := (tails s)(block_offset + block_size - GvmTailTagSize := block_size)\<rparr>"

section \<open>The general free list\<close>

definition links_of :: "(nat \<Rightarrow> free_links) \<Rightarrow> nat \<Rightarrow> free_links" where
  "links_of L block_offset = L (block_offset + GvmHeaderSize)"

definition put_links :: "(nat \<Rightarrow> free_links) \<Rightarrow> nat \<Rightarrow> free_links \<Rightarrow> nat \<Rightarrow> free_links" where
  "put_links L block_offset v = L(block_offset + GvmHeaderSize := v)"

definition put_next :: "(nat \<Rightarrow> free_links) \<Rightarrow> nat \<Rightarrow> nat \<Rightarrow> nat \<Rightarrow> free_links" where
  "put_next L block_offset v = put_links L block_offset ((links_of L block_offset)\<lparr>next_free := v\<rparr>)"

definition put_prev :: "(nat \<Rightarrow> free_links) \<Rightarrow> nat \<Rightarrow> nat \<Rightarrow> nat \<Rightarrow> free_links" where
  "put_prev L block_offset v = put_links L block_offset ((links_of L block_offset)\<lparr>prev_free := v\<rparr>)"

text \<open>The insertion walk: the last node below \<open>block_offset\<close> and the first one not below it.\<close>

partial_function (option) free_list_slot ::
  "(nat \<Rightarrow> free_links) \<Rightarrow> nat \<Rightarrow> nat \<Rightarrow> nat \<Rightarrow> (nat \<times> nat) option" where
  "free_list_slot L block_offset prev_off cur =
     (if cur \<noteq> nulloffset \<and> cur < block_offset
      then free_list_slot L block_offset cur (next_free (links_of L cur))
      else Some (prev_off, cur))"

definition gvm_free_list_insert :: "gvm \<Rightarrow> nat \<Rightarrow> gvm outcome" where
  "gvm_free_list_insert s block_offset =
     bind_outcome (from_walk (free_list_slot (flinks s) block_offset nulloffset (m_gvm_free_head s)))
       (\<lambda>(prev_off, cur).
          let L1 = put_links (flinks s) block_offset \<lparr>prev_free = prev_off, next_free = cur\<rparr>;
              L2 = (if prev_off = nulloffset then L1 else put_next L1 prev_off block_offset);
              L3 = (if cur \<noteq> nulloffset then put_prev L2 cur block_offset else L2)
          in Value (s\<lparr>m_gvm_free_block_count := m_gvm_free_block_count s + 1,
                      flinks := L3,
                      m_gvm_free_head :=
                        (if prev_off = nulloffset then block_offset else m_gvm_free_head s)\<rparr>))"

definition links_unlink :: "(nat \<Rightarrow> free_links) \<Rightarrow> nat \<Rightarrow> nat \<Rightarrow> free_links" where
  "links_unlink L block_offset =
     (let prev_off = prev_free (links_of L block_offset);
          next_off = next_free (links_of L block_offset);
          L1 = (if prev_off = nulloffset then L else put_next L prev_off next_off);
          L2 = (if next_off \<noteq> nulloffset then put_prev L1 next_off prev_off else L1)
      in put_links L2 block_offset \<lparr>prev_free = nulloffset, next_free = nulloffset\<rparr>)"

definition gvm_free_list_remove :: "gvm \<Rightarrow> nat \<Rightarrow> gvm" where
  "gvm_free_list_remove s block_offset =
     s\<lparr>m_gvm_free_block_count := m_gvm_free_block_count s - 1,
       flinks := links_unlink (flinks s) block_offset,
       m_gvm_free_head :=
         (if prev_free (links_of (flinks s) block_offset) = nulloffset
          then next_free (links_of (flinks s) block_offset) else m_gvm_free_head s)\<rparr>"

section \<open>The fastbins\<close>

definition gvm_bin_class_for_size :: "nat \<Rightarrow> nat" where
  "gvm_bin_class_for_size sz = (sz - GvmMinBlockSize) div GvmBlockAlignment"

definition gvm_fastbin_insert :: "gvm \<Rightarrow> nat \<Rightarrow> nat \<Rightarrow> gvm" where
  "gvm_fastbin_insert s block_offset bin_class =
     (let head_off = m_gvm_fastbins s bin_class;
          L1 = put_links (flinks s) block_offset \<lparr>prev_free = nulloffset, next_free = head_off\<rparr>;
          L2 = (if head_off \<noteq> nulloffset then put_prev L1 head_off block_offset else L1)
      in s\<lparr>m_gvm_free_block_count := m_gvm_free_block_count s + 1,
           flinks := L2,
           m_gvm_fastbins := (m_gvm_fastbins s)(bin_class := block_offset)\<rparr>)"

definition gvm_fastbin_unlink :: "gvm \<Rightarrow> nat \<Rightarrow> nat \<Rightarrow> gvm" where
  "gvm_fastbin_unlink s block_offset bin_class =
     s\<lparr>m_gvm_free_block_count := m_gvm_free_block_count s - 1,
       flinks := links_unlink (flinks s) block_offset,
       m_gvm_fastbins :=
         (if prev_free (links_of (flinks s) block_offset) = nulloffset
          then (m_gvm_fastbins s)(bin_class := next_free (links_of (flinks s) block_offset))
          else m_gvm_fastbins s)\<rparr>"

section \<open>Routing by size\<close>

definition gvm_free_insert_anywhere :: "gvm \<Rightarrow> nat \<Rightarrow> nat \<Rightarrow> gvm outcome" where
  "gvm_free_insert_anywhere s block_offset block_size =
     (if block_size < GvmFastBinThreshold
      then Value (gvm_fastbin_insert s block_offset (gvm_bin_class_for_size block_size))
      else gvm_free_list_insert s block_offset)"

definition gvm_free_unlink_anywhere :: "gvm \<Rightarrow> nat \<Rightarrow> nat \<Rightarrow> gvm" where
  "gvm_free_unlink_anywhere s block_offset block_size =
     (if block_size < GvmFastBinThreshold
      then gvm_fastbin_unlink s block_offset (gvm_bin_class_for_size block_size)
      else gvm_free_list_remove s block_offset)"

section \<open>Allocation\<close>

text \<open>The live header every allocation path stamps (\<^verbatim>\<open>gvm_reissue_free_block\<close> keeps the size).\<close>

definition live_header :: "gvm \<Rightarrow> nat \<Rightarrow> u8 \<Rightarrow> gvm_block" where
  "live_header s sz kind =
     \<lparr>m_size = sz, m_kind = kind, m_mark_gen = gc_init_mark_for_alloc s, m_obj_count = 0,
      m_next_in_work = nulloffset, m_magic = GvmMagic\<rparr>"

definition free_header :: "nat \<Rightarrow> u8 \<Rightarrow> gvm_block" where
  "free_header sz kind =
     \<lparr>m_size = sz, m_kind = kind, m_mark_gen = 0, m_obj_count = 0,
      m_next_in_work = nulloffset, m_magic = GvmMagic\<rparr>"

definition gvm_reissue_free_block :: "gvm \<Rightarrow> nat \<Rightarrow> u8 \<Rightarrow> nat \<times> gvm" where
  "gvm_reissue_free_block s block_off kind =
     (block_off + GvmHeaderSize,
      s\<lparr>headers := (headers s)(block_off := live_header s (m_size (headers s block_off)) kind)\<rparr>)"

text \<open>The rounded block size of a request, in 32-bit arithmetic.\<close>

definition gvm_total_size :: "nat \<Rightarrow> nat outcome" where
  "gvm_total_size payload_size =
     (let kSlack = GvmHeaderSize + GvmTailTagSize + (GvmBlockAlignment - 1)
      in if payload_size > vm_size_max - kSlack then Raise LimitCheck
         else let effective_payload =
                    (if payload_size > GvmMinPayloadSize then payload_size else GvmMinPayloadSize);
                  raw_total = (GvmHeaderSize + effective_payload + GvmTailTagSize) mod 2 ^ 32;
                  total_size = ((raw_total + (GvmBlockAlignment - 1)) mod 2 ^ 32)
                                 div GvmBlockAlignment * GvmBlockAlignment
              in Value (if total_size < GvmMinBlockSize then GvmMinBlockSize else total_size))"

text \<open>First fit along the general list; \<open>nulloffset\<close> when no block is large enough.\<close>

partial_function (option) first_fit :: "gvm \<Rightarrow> nat \<Rightarrow> nat \<Rightarrow> nat option" where
  "first_fit s total_size cur =
     (if cur = nulloffset then Some nulloffset
      else if m_size (headers s cur) \<ge> total_size then Some cur
      else first_fit s total_size (next_free (links_of (flinks s) cur)))"

definition gvm_take_from_list :: "gvm \<Rightarrow> nat \<Rightarrow> nat \<Rightarrow> u8 \<Rightarrow> (nat \<times> gvm) outcome" where
  "gvm_take_from_list s cur total_size kind =
     (let s1 = gvm_free_list_remove s cur; curr_size = m_size (headers s cur)
      in if curr_size \<ge> total_size + GvmMinBlockSize
         then let remainder_offset = cur + total_size;
                  remainder_size = curr_size - total_size;
                  s2 = gvm_write_tail_tag
                         (s1\<lparr>headers := (headers s1)(cur := live_header s1 total_size kind)\<rparr>)
                         cur total_size;
                  s3 = gvm_write_tail_tag
                         (s2\<lparr>headers := (headers s2)(remainder_offset :=
                               free_header remainder_size ChunkKind_Free)\<rparr>)
                         remainder_offset remainder_size
              in bind_outcome (gvm_free_insert_anywhere s3 remainder_offset remainder_size)
                   (\<lambda>s4. Value (cur + GvmHeaderSize, s4))
         else Value (cur + GvmHeaderSize,
                s1\<lparr>headers := (headers s1)(cur := live_header s1 curr_size kind)\<rparr>))"

text \<open>One pass over the fastbins and the general list; \<open>None\<close> when neither has a block.\<close>

definition gvm_search_free :: "gvm \<Rightarrow> nat \<Rightarrow> u8 \<Rightarrow> (nat \<times> gvm) option outcome" where
  "gvm_search_free s total_size kind =
     (let bin_class = gvm_bin_class_for_size total_size;
          head_off = m_gvm_fastbins s bin_class;
          next_bin = bin_class + 1;
          next_head_off = m_gvm_fastbins s next_bin
      in if total_size < GvmFastBinThreshold \<and> head_off \<noteq> nulloffset
         then Value (Some (gvm_reissue_free_block (gvm_fastbin_unlink s head_off bin_class)
                head_off kind))
         else if total_size < GvmFastBinThreshold \<and> next_bin < GvmFastBinCount \<and>
                 next_head_off \<noteq> nulloffset
         then Value (Some (gvm_reissue_free_block (gvm_fastbin_unlink s next_head_off next_bin)
                next_head_off kind))
         else bind_outcome (from_walk (first_fit s total_size (m_gvm_free_head s)))
                (\<lambda>cur. if cur = nulloffset then Value None
                        else bind_outcome (gvm_take_from_list s cur total_size kind)
                               (\<lambda>r. Value (Some r))))"

definition gvm_bump :: "gvm \<Rightarrow> nat \<Rightarrow> u8 \<Rightarrow> (nat \<times> gvm) outcome" where
  "gvm_bump s total_size kind =
     bind_outcome (vm_alloc_global_ptr s 4 total_size)
       (\<lambda>(block_offset, s1).
          Value (block_offset + GvmHeaderSize,
            gvm_write_tail_tag
              (s1\<lparr>headers := (headers s1)(block_offset := live_header s1 total_size kind)\<rparr>)
              block_offset total_size))"

definition gvm_bump_fits :: "gvm \<Rightarrow> nat \<Rightarrow> bool" where
  "gvm_bump_fits s total_size \<longleftrightarrow>
     align_down 4 (int (m_vm_global s) - int total_size) \<ge> int (m_vm_ptr s)"

definition gvm_alloc_impl :: "(gvm \<Rightarrow> gvm outcome) \<Rightarrow> gvm \<Rightarrow> nat \<Rightarrow> u8 \<Rightarrow> (nat \<times> gvm) outcome" where
  "gvm_alloc_impl gc s payload_size kind =
     bind_outcome (gvm_total_size payload_size) (\<lambda>total_size.
     bind_outcome (gvm_search_free s total_size kind) (\<lambda>found.
       case found of
         Some r \<Rightarrow> Value r
       | None \<Rightarrow>
           if gvm_bump_fits s total_size \<or> m_in_gc s then gvm_bump s total_size kind
           else bind_outcome (gc s) (\<lambda>s1.
                bind_outcome (gvm_search_free s1 total_size kind) (\<lambda>found1.
                  case found1 of
                    Some r \<Rightarrow> Value r
                  | None \<Rightarrow> gvm_bump s1 total_size kind))))"

text \<open>
  The public entry points with the lifecycle of the GC scratch block. \<open>ensure_gc_scratch\<close>
  allocates \<open>GcScratchTotalEntries\<close> offsets of 4 bytes under the kind \<open>GcScratch\<close>, for which
  \<^verbatim>\<open>gvm_alloc\<close> skips the hook and the user-block counter.
\<close>

definition ensure_gc_scratch :: "(gvm \<Rightarrow> gvm outcome) \<Rightarrow> gvm \<Rightarrow> gvm outcome" where
  "ensure_gc_scratch gc s =
     (if m_gc_scratch_offset s = nulloffset
      then bind_outcome (gvm_alloc_impl gc s (GcScratchTotalEntries * 4) ChunkKind_GcScratch)
             (\<lambda>(off, s1). Value (s1\<lparr>m_gc_scratch_offset := off\<rparr>))
      else Value s)"

definition gvm_alloc :: "(gvm \<Rightarrow> gvm outcome) \<Rightarrow> gvm \<Rightarrow> nat \<Rightarrow> u8 \<Rightarrow> (nat \<times> gvm) outcome" where
  "gvm_alloc gc s payload_size kind =
     (if kind \<noteq> ChunkKind_GcScratch
      then bind_outcome (ensure_gc_scratch gc s) (\<lambda>s1.
           bind_outcome (gvm_alloc_impl gc s1 payload_size kind) (\<lambda>(off, s2).
             Value (off, s2\<lparr>m_gvm_user_block_count := m_gvm_user_block_count s2 + 1\<rparr>)))
      else gvm_alloc_impl gc s payload_size kind)"

definition gvm_alloc_n ::
  "(gvm \<Rightarrow> gvm outcome) \<Rightarrow> gvm \<Rightarrow> nat \<Rightarrow> nat \<Rightarrow> u8 \<Rightarrow> (nat \<times> gvm) outcome" where
  "gvm_alloc_n gc s sz count kind =
     (if count > vm_size_max div sz then Raise LimitCheck else gvm_alloc gc s (count * sz) kind)"

section \<open>Deallocation\<close>

text \<open>Forward coalescing: the merged size after absorbing a free upper neighbour.\<close>

definition gvm_coalesce_next :: "gvm \<Rightarrow> nat \<Rightarrow> nat \<Rightarrow> nat \<times> gvm" where
  "gvm_coalesce_next s block_offset block_size =
     (let next_offset = block_offset + block_size
      in if next_offset < m_vm_limit s \<and> gvm_kind_is_free (m_kind (headers s next_offset))
         then (block_size + m_size (headers s next_offset),
               gvm_free_unlink_anywhere s next_offset (m_size (headers s next_offset)))
         else (block_size, s))"

text \<open>
  Backward coalescing through the tail tag of the lower neighbour: the start, the size and the
  kind byte of the merged block.
\<close>

definition gvm_coalesce_prev :: "gvm \<Rightarrow> nat \<Rightarrow> nat \<Rightarrow> u8 \<Rightarrow> nat \<times> nat \<times> u8 \<times> gvm" where
  "gvm_coalesce_prev s block_offset block_size orig_kind =
     (if block_offset > m_vm_global s
      then let prev_size = tails s (block_offset - GvmTailTagSize);
               prev_offset = block_offset - prev_size
           in if prev_size \<noteq> 0 \<and> GvmBlockAlignment dvd prev_size \<and>
                 prev_size \<le> block_offset - m_vm_global s \<and>
                 m_magic (headers s prev_offset) = GvmMagic \<and>
                 gvm_kind_is_free (m_kind (headers s prev_offset))
              then (prev_offset, block_size + prev_size, m_kind (headers s prev_offset),
                    gvm_free_unlink_anywhere s prev_offset prev_size)
              else (block_offset, block_size, orig_kind, s)
      else (block_offset, block_size, orig_kind, s))"

definition gvm_free_impl :: "gvm \<Rightarrow> nat \<Rightarrow> gvm outcome" where
  "gvm_free_impl s payload_offset =
     (let block_offset = payload_offset - GvmHeaderSize;
          orig_kind = m_kind (headers s block_offset)
      in if gvm_kind_is_free orig_kind then Raise InternalError
         else let (size1, s1) = gvm_coalesce_next s block_offset (m_size (headers s block_offset));
                  (off2, size2, kind2, s2) = gvm_coalesce_prev s1 block_offset size1 orig_kind
              in if off2 = m_vm_global s2
                 then Value (s2\<lparr>m_vm_global := m_vm_global s2 + size2\<rparr>)
                 else gvm_free_insert_anywhere
                        (gvm_write_tail_tag
                           (s2\<lparr>headers := (headers s2)(off2 :=
                                 free_header size2 (kind2 OR GvmFreeFlag))\<rparr>)
                           off2 size2)
                        off2 size2)"

definition gvm_free :: "gvm \<Rightarrow> nat \<Rightarrow> gvm outcome" where
  "gvm_free s payload_offset =
     (let kind = m_kind (headers s (payload_offset - GvmHeaderSize))
      in bind_outcome (gvm_free_impl s payload_offset) (\<lambda>s1.
           if kind \<noteq> ChunkKind_GcScratch
           then let s2 = s1\<lparr>m_gvm_user_block_count := m_gvm_user_block_count s1 - 1\<rparr>
                in if m_gvm_user_block_count s2 = 0 \<and> m_gc_scratch_offset s2 \<noteq> nulloffset
                   then gvm_free_impl (s2\<lparr>m_gc_scratch_offset := nulloffset\<rparr>)
                          (m_gc_scratch_offset s2)
                   else Value s2
           else Value s1))"

section \<open>Walking the heap\<close>

record gvm_visit =
  v_payload_offset :: nat
  v_kind :: u8
  v_payload_size :: nat
  v_total_size :: nat
  v_is_free :: bool

definition visit_of :: "gvm \<Rightarrow> nat \<Rightarrow> gvm_visit" where
  "visit_of s cursor =
     \<lparr>v_payload_offset = cursor + GvmHeaderSize, v_kind = m_kind (headers s cursor),
      v_payload_size = gvm_get_payload_size (m_size (headers s cursor)),
      v_total_size = m_size (headers s cursor),
      v_is_free = gvm_kind_is_free (m_kind (headers s cursor))\<rparr>"

text \<open>
  \<^verbatim>\<open>gvm_for_each\<close> as the list of the visits it makes, in order. The header check refuses a
  zero size, so the cursor always advances.
\<close>

function gvm_for_each_from :: "gvm \<Rightarrow> nat \<Rightarrow> gvm_visit list outcome" where
  "gvm_for_each_from s cursor =
     (if cursor < m_vm_limit s
      then let block_size = m_size (headers s cursor)
           in if block_size = 0 \<or> \<not> GvmBlockAlignment dvd block_size \<or>
                 cursor + block_size > m_vm_limit s then Raise InternalError
              else if m_magic (headers s cursor) \<noteq> GvmMagic then Raise InternalError
              else bind_outcome (gvm_for_each_from s (cursor + block_size))
                     (\<lambda>vs. Value (visit_of s cursor # vs))
      else Value [])"
  by pat_completeness auto
termination
  by (relation "measure (\<lambda>(s, cursor). m_vm_limit s - cursor)") auto

declare gvm_for_each_from.simps [simp del]

definition gvm_for_each :: "gvm \<Rightarrow> gvm_visit list outcome" where
  "gvm_for_each s = gvm_for_each_from s (m_vm_global s)"

text \<open>The backward search for the block that owns an interior offset.\<close>

definition gvm_owner_at :: "gvm \<Rightarrow> nat \<Rightarrow> u8 \<Rightarrow> nat \<Rightarrow> bool" where
  "gvm_owner_at s off expected_kind candidate \<longleftrightarrow>
     (let block_offset = candidate - GvmHeaderSize; h = headers s block_offset;
          block_size = m_size h
      in block_size > 0 \<and> GvmBlockAlignment dvd block_size \<and>
         block_offset + block_size \<le> m_vm_limit s \<and> off < block_offset + block_size \<and>
         m_kind h = expected_kind \<and> m_magic h = GvmMagic \<and>
         tails s (block_offset + block_size - GvmTailTagSize) = block_size)"

function gvm_owner_scan :: "gvm \<Rightarrow> nat \<Rightarrow> u8 \<Rightarrow> nat \<Rightarrow> nat" where
  "gvm_owner_scan s off expected_kind candidate =
     (if candidate \<ge> m_vm_global s + GvmHeaderSize
      then if gvm_owner_at s off expected_kind candidate then candidate
           else if candidate < GvmBlockAlignment then nulloffset
           else gvm_owner_scan s off expected_kind (candidate - GvmBlockAlignment)
      else nulloffset)"
  by pat_completeness auto
termination
  by (relation "measure (\<lambda>(s, off, k, candidate). candidate)") (auto simp: gvm_consts)

declare gvm_owner_scan.simps [simp del]

definition gvm_find_owning_payload :: "gvm \<Rightarrow> nat \<Rightarrow> u8 \<Rightarrow> nat" where
  "gvm_find_owning_payload s off expected_kind =
     (if off < m_vm_global s + GvmHeaderSize \<or> off \<ge> m_vm_limit s then nulloffset
      else gvm_owner_scan s off expected_kind (off div GvmBlockAlignment * GvmBlockAlignment))"

end
