(* ===== verification/Gvm_Links.thy ===== *)
theory Gvm_Links
  imports Gvm_Heap
begin

text \<open>
  Doubly linked lists in the free-link store of the global allocator: a relational abstraction
  from the links to the list of block offsets, and the effect of the pointer updates of
  \<^verbatim>\<open>src/gvm_heap.inl\<close> (push at the head, splice into a sorted list, unlink) on that list. Both
  the fastbins and the general free list rest on these lemmas.
\<close>

lemma links_of_put_links [simp]:
  "links_of (put_links L u v) x = (if x = u then v else links_of L x)"
  by (simp add: links_of_def put_links_def)

lemma links_of_put_next [simp]:
  "links_of (put_next L u v) x = (if x = u then (links_of L u)\<lparr>next_free := v\<rparr> else links_of L x)"
  by (simp add: put_next_def)

lemma links_of_put_prev [simp]:
  "links_of (put_prev L u v) x = (if x = u then (links_of L u)\<lparr>prev_free := v\<rparr> else links_of L x)"
  by (simp add: put_prev_def)

text \<open>
  \<open>dllseg L p x as q y\<close>: from \<open>x\<close>, whose predecessor is \<open>p\<close>, the next-links visit exactly the
  nodes \<open>as\<close> and end at \<open>y\<close>, the last node visited (or \<open>p\<close>) being \<open>q\<close>; the prev-links agree.
\<close>

primrec dllseg ::
  "(nat \<Rightarrow> free_links) \<Rightarrow> nat \<Rightarrow> nat \<Rightarrow> nat list \<Rightarrow> nat \<Rightarrow> nat \<Rightarrow> bool" where
  "dllseg L p x [] q y \<longleftrightarrow> p = q \<and> x = y"
| "dllseg L p x (a # as) q y \<longleftrightarrow>
     x = a \<and> a \<noteq> nulloffset \<and> prev_free (links_of L a) = p \<and>
     dllseg L a (next_free (links_of L a)) as q y"

definition dlist :: "(nat \<Rightarrow> free_links) \<Rightarrow> nat \<Rightarrow> nat list \<Rightarrow> bool" where
  "dlist L h as \<longleftrightarrow> (\<exists>q. dllseg L nulloffset h as q nulloffset)"

lemma dllseg_append:
  "dllseg L p x (as @ bs) q y \<longleftrightarrow> (\<exists>r z. dllseg L p x as r z \<and> dllseg L r z bs q y)"
  by (induction as arbitrary: p x) auto

lemma dllseg_last: "dllseg L p x as q y \<Longrightarrow> q = (if as = [] then p else last as)"
  by (induction as arbitrary: p x) (auto split: if_splits)

lemma dllseg_nonnull: "dllseg L p x as q y \<Longrightarrow> a \<in> set as \<Longrightarrow> a \<noteq> nulloffset"
  by (induction as arbitrary: p x) auto

lemma dllseg_cong:
  "(\<And>a. a \<in> set as \<Longrightarrow> links_of L' a = links_of L a) \<Longrightarrow>
     dllseg L' p x as q y = dllseg L p x as q y"
  by (induction as arbitrary: p x) auto

lemma dllseg_frame [simp]:
  "u \<notin> set as \<Longrightarrow> dllseg (put_links L u v) p x as q y = dllseg L p x as q y"
  "u \<notin> set as \<Longrightarrow> dllseg (put_next L u w) p x as q y = dllseg L p x as q y"
  "u \<notin> set as \<Longrightarrow> dllseg (put_prev L u w) p x as q y = dllseg L p x as q y"
  by (rule dllseg_cong; auto)+

lemma dlist_cong:
  "(\<And>a. a \<in> set as \<Longrightarrow> links_of L' a = links_of L a) \<Longrightarrow> dlist L' h as = dlist L h as"
  by (simp add: dlist_def dllseg_cong [of as L' L])

lemma dlist_disjoint:
  assumes "\<And>u. u \<notin> S \<Longrightarrow> links_of L' u = links_of L u" and "set as \<inter> S = {}"
  shows "dlist L' h as = dlist L h as"
  using assms by (intro dlist_cong) blast

lemma dlist_Nil [simp]: "dlist L h [] \<longleftrightarrow> h = nulloffset"
  by (auto simp: dlist_def)

lemma dlist_nonnull: "dlist L h as \<Longrightarrow> a \<in> set as \<Longrightarrow> a \<noteq> nulloffset"
  unfolding dlist_def by (blast dest: dllseg_nonnull)

lemma dlist_head_null: "dlist L h as \<Longrightarrow> h = nulloffset \<longleftrightarrow> as = []"
  by (cases as) (auto simp: dlist_def)

lemma dlist_head: "dlist L h (a # as) \<Longrightarrow> h = a"
  by (auto simp: dlist_def)

lemma dlist_head_Cons: "dlist L h as \<Longrightarrow> h \<noteq> nulloffset \<Longrightarrow> \<exists>bs. as = h # bs"
  by (cases as) (auto simp: dlist_def)

text \<open>The three segments around a node, and the cell pointing at the first one.\<close>

lemma dllseg_set_next_last:
  assumes "dllseg L p x (as @ [r]) r z" and "r \<notin> set as"
  shows "dllseg (put_next L r w) p x (as @ [r]) r w"
  using assms by (fastforce simp: dllseg_append)

lemma dllseg_set_prev_head:
  assumes "dllseg L r b (b # bs) q y" and "b \<notin> set bs"
  shows "dllseg (put_prev L b w) w b (b # bs) q y"
  using assms by simp

text \<open>
  Joining two segments: the last node of \<open>as\<close> (or the head cell) is redirected to \<open>z\<close>, the head
  of \<open>bs\<close> back to the last node of \<open>as\<close>.
\<close>

definition seg_head :: "nat list \<Rightarrow> nat \<Rightarrow> nat" where
  "seg_head bs y = (case bs of [] \<Rightarrow> y | b # _ \<Rightarrow> b)"

definition seg_last :: "nat \<Rightarrow> nat list \<Rightarrow> nat" where
  "seg_last p as = (if as = [] then p else last as)"

lemma seg_head_simps [simp]: "seg_head [] y = y" "seg_head (b # bs) y = b"
  by (simp_all add: seg_head_def)

lemma seg_last_simps [simp]: "seg_last p [] = p" "seg_last p (as @ [r]) = r"
  by (simp_all add: seg_last_def)

lemma dllseg_head: "dllseg L p x as q y \<Longrightarrow> x = seg_head as y"
  by (cases as) auto

lemma dllseg_seg_last: "dllseg L p x as q y \<Longrightarrow> q = seg_last p as"
  using dllseg_last by (auto simp: seg_last_def)

lemma dllseg_redirect_left:
  assumes "dllseg L nulloffset h as r z" and "distinct as"
  shows "dllseg (if r = nulloffset then L else put_next L r w) nulloffset
           (if r = nulloffset then w else h) as r w"
proof (cases as rule: rev_cases)
  case Nil
  with assms show ?thesis by simp
next
  case (snoc bs c)
  with assms(1) have "r = c" using dllseg_seg_last by fastforce
  moreover from assms(1) snoc have "c \<noteq> nulloffset" using dllseg_nonnull by fastforce
  ultimately show ?thesis
    using assms snoc dllseg_set_next_last [of L nulloffset h bs c z w] by auto
qed

lemma dllseg_redirect_right:
  assumes "dllseg L r z bs q nulloffset" and "distinct bs"
  shows "dllseg (if z \<noteq> nulloffset then put_prev L z w else L) w z bs (seg_last w bs) nulloffset"
proof (cases bs)
  case Nil
  with assms show ?thesis by simp
next
  case (Cons b cs)
  with assms have b: "z = b" "b \<noteq> nulloffset" "b \<notin> set cs" by auto
  have q: "q = seg_last w bs" using dllseg_seg_last [OF assms(1)] Cons by (simp add: seg_last_def)
  show ?thesis using dllseg_set_prev_head [of L r b cs q nulloffset w] assms Cons b q by simp
qed

lemma redirect_frame:
  "r \<noteq> u \<Longrightarrow> links_of (if r = nulloffset then L else put_next L r w) u = links_of L u"
  "z \<noteq> u \<Longrightarrow> links_of (if z \<noteq> nulloffset then put_prev L z w else L) u = links_of L u"
  by auto

lemma dlist_splice:
  assumes A: "dllseg L nulloffset h as r z0" and B: "dllseg L r0 z bs q nulloffset"
    and d: "distinct (as @ bs)"
  shows "dlist (if z \<noteq> nulloffset
                then put_prev (if r = nulloffset then L else put_next L r z) z r
                else (if r = nulloffset then L else put_next L r z))
           (if r = nulloffset then z else h) (as @ bs)"
proof -
  let ?L1 = "if r = nulloffset then L else put_next L r z"
  let ?L2 = "if z \<noteq> nulloffset then put_prev ?L1 z r else ?L1"
  have r: "r \<in> set as \<or> r = nulloffset"
    using dllseg_seg_last [OF A] by (cases as rule: rev_cases) auto
  have z: "z \<in> set bs \<or> z = nulloffset" using dllseg_head [OF B] by (cases bs) auto
  have nn: "nulloffset \<notin> set as" "nulloffset \<notin> set bs"
    using dllseg_nonnull [OF A] dllseg_nonnull [OF B] by blast+
  have A1: "dllseg ?L1 nulloffset (if r = nulloffset then z else h) as r z"
    using dllseg_redirect_left [OF A] d by simp
  have A2: "dllseg ?L2 nulloffset (if r = nulloffset then z else h) as r z"
    by (rule dllseg_cong [THEN iffD2, OF _ A1]) (use z d nn in \<open>auto simp del: dllseg_frame\<close>)
  have B1: "dllseg ?L1 r0 z bs q nulloffset"
    by (rule dllseg_cong [THEN iffD2, OF _ B]) (use r d nn in auto)
  have B2: "dllseg ?L2 r z bs (seg_last r bs) nulloffset"
    using dllseg_redirect_right [OF B1] d by simp
  show ?thesis unfolding dlist_def dllseg_append using A2 B2 by blast
qed

lemma dlist_unlink:
  assumes D: "dlist L h (as @ a # bs)" and d: "distinct (as @ a # bs)"
  shows "dlist (links_unlink L a)
           (if prev_free (links_of L a) = nulloffset then next_free (links_of L a) else h) (as @ bs)"
    and "u \<notin> set (as @ a # bs) \<Longrightarrow> links_of (links_unlink L a) u = links_of L u"
    and "prev_free (links_of L a) = nulloffset \<longleftrightarrow> as = []"
proof -
  obtain r q z where A: "dllseg L nulloffset h as r a" and p: "prev_free (links_of L a) = r"
    and z: "next_free (links_of L a) = z" and B: "dllseg L a z bs q nulloffset"
    using D by (auto simp: dlist_def dllseg_append)
  let ?L1 = "if r = nulloffset then L else put_next L r z"
  let ?L2 = "if z \<noteq> nulloffset then put_prev ?L1 z r else ?L1"
  have eq: "links_unlink L a = put_links ?L2 a \<lparr>prev_free = nulloffset, next_free = nulloffset\<rparr>"
    by (simp add: links_unlink_def p z Let_def)
  have S: "dlist ?L2 (if r = nulloffset then z else h) (as @ bs)"
    using dlist_splice [OF A B] d by simp
  show "dlist (links_unlink L a)
          (if prev_free (links_of L a) = nulloffset then next_free (links_of L a) else h) (as @ bs)"
    unfolding eq p z by (rule dlist_cong [THEN iffD2, OF _ S]) (use d in auto)
  have r: "r \<in> set as \<or> r = nulloffset" "r = nulloffset \<longleftrightarrow> as = []"
    using dllseg_seg_last [OF A] dllseg_nonnull [OF A]
    by (cases as rule: rev_cases; fastforce)+
  have zb: "z \<in> set bs \<or> z = nulloffset" using dllseg_head [OF B] by (cases bs) auto
  show "prev_free (links_of L a) = nulloffset \<longleftrightarrow> as = []" using p r by simp
  show "links_of (links_unlink L a) u = links_of L u" if "u \<notin> set (as @ a # bs)"
    unfolding eq using that r(1) zb by auto
qed

lemma dlist_push:
  assumes D: "dlist L h as" and a: "a \<notin> set as" "a \<noteq> nulloffset" and d: "distinct as"
  defines "L1 \<equiv> put_links L a \<lparr>prev_free = nulloffset, next_free = h\<rparr>"
  shows "dlist (if h \<noteq> nulloffset then put_prev L1 h a else L1) a (a # as)"
proof -
  obtain q where "dllseg L nulloffset h as q nulloffset" using D by (auto simp: dlist_def)
  then have "dllseg L1 nulloffset h as q nulloffset" using a by (simp add: L1_def)
  from dllseg_redirect_right [OF this d, of a]
  have "dllseg (if h \<noteq> nulloffset then put_prev L1 h a else L1) a h as (seg_last a as) nulloffset" .
  moreover have "h \<noteq> a" using dlist_head_Cons [OF D] a by (cases "h = nulloffset") auto
  ultimately show ?thesis using a by (auto simp: dlist_def L1_def)
qed

text \<open>The insertion walk stops at the split of the sorted list around the new offset.\<close>

lemma free_list_slot_walk:
  assumes "dllseg L p c as q nulloffset" and "sorted_wrt (<) as"
  shows "free_list_slot L b p c =
     Some (seg_last p (takeWhile (\<lambda>x. x < b) as), seg_head (dropWhile (\<lambda>x. x < b) as) nulloffset)"
  using assms
proof (induction as arbitrary: p c)
  case Nil
  then show ?case by (simp add: free_list_slot.simps)
next
  case (Cons a as)
  then have c: "c = a" "a \<noteq> nulloffset" by auto
  show ?case
  proof (cases "a < b")
    case True
    have "free_list_slot L b p c = free_list_slot L b a (next_free (links_of L a))"
      using c True by (subst free_list_slot.simps) simp
    also have "\<dots> = Some (seg_last a (takeWhile (\<lambda>x. x < b) as),
         seg_head (dropWhile (\<lambda>x. x < b) as) nulloffset)"
      using Cons by simp
    finally show ?thesis using True by (simp add: seg_last_def)
  next
    case False
    with c show ?thesis by (subst free_list_slot.simps) simp
  qed
qed

lemma dlist_insert:
  assumes D: "dlist L h (as @ bs)" and d: "distinct (as @ bs)"
    and a: "a \<notin> set (as @ bs)" "a \<noteq> nulloffset"
  defines "p \<equiv> seg_last nulloffset as" and "c \<equiv> seg_head bs nulloffset"
  defines "L1 \<equiv> put_links L a \<lparr>prev_free = p, next_free = c\<rparr>"
  defines "L2 \<equiv> if p = nulloffset then L1 else put_next L1 p a"
  defines "L3 \<equiv> if c \<noteq> nulloffset then put_prev L2 c a else L2"
  shows "dlist L3 (if p = nulloffset then a else h) (as @ a # bs)"
    and "u \<notin> set (as @ a # bs) \<Longrightarrow> links_of L3 u = links_of L u"
proof -
  obtain q r z where A: "dllseg L nulloffset h as r z" and B: "dllseg L r z bs q nulloffset"
    using D by (auto simp: dlist_def dllseg_append)
  have r: "r = p" and z: "z = c"
    using dllseg_seg_last [OF A] dllseg_head [OF B] by (simp_all add: p_def c_def)
  have nn: "nulloffset \<notin> set as" "nulloffset \<notin> set bs"
    using dllseg_nonnull [OF A] dllseg_nonnull [OF B] by blast+
  have pin: "p \<in> set as \<or> p = nulloffset" unfolding p_def by (simp add: seg_last_def)
  have cin: "c \<in> set bs \<or> c = nulloffset" unfolding c_def by (cases bs) auto
  have A1: "dllseg L1 nulloffset h as p c" using A a r z by (simp add: L1_def)
  have A2: "dllseg L2 nulloffset (if p = nulloffset then a else h) as p a"
    unfolding L2_def using dllseg_redirect_left [OF A1] d by simp
  have A3: "dllseg L3 nulloffset (if p = nulloffset then a else h) as p a"
    by (rule dllseg_cong [THEN iffD2, OF _ A2]) (use cin d nn in \<open>auto simp: L3_def\<close>)
  have B1: "dllseg L1 p c bs q nulloffset" using B a r z by (simp add: L1_def)
  have B2: "dllseg L2 p c bs q nulloffset"
    by (rule dllseg_cong [THEN iffD2, OF _ B1]) (use pin d nn in \<open>auto simp: L2_def\<close>)
  have B3: "dllseg L3 a c bs (seg_last a bs) nulloffset"
    unfolding L3_def using dllseg_redirect_right [OF B2] d by simp
  have "links_of L3 a = \<lparr>prev_free = p, next_free = c\<rparr>"
    using pin cin a by (auto simp: L3_def L2_def L1_def)
  with A3 B3 a show "dlist L3 (if p = nulloffset then a else h) (as @ a # bs)"
    by (auto simp: dlist_def dllseg_append)
  show "links_of L3 u = links_of L u" if "u \<notin> set (as @ a # bs)"
    using that pin cin by (auto simp: L3_def L2_def L1_def)
qed

end
