(* ===== verification/Gvm_Inv.thy ===== *)
theory Gvm_Inv
  imports Gvm_Links
begin

text \<open>
  The invariant of the global heap and the lemmas on its parts: the blocks tile the region
  between \<^verbatim>\<open>m_vm_global\<close> and \<^verbatim>\<open>m_vm_limit\<close>, carry the magic number and a matching tail tag, no
  two neighbours are both free and the lowest block is live, and the fastbins and the general
  list together hold exactly the free blocks, each in the structure its size routes it to.
\<close>

section \<open>Tilings\<close>

primrec tiles :: "(nat \<Rightarrow> gvm_block) \<Rightarrow> nat \<Rightarrow> nat list \<Rightarrow> nat \<Rightarrow> bool" where
  "tiles H a [] b \<longleftrightarrow> a = b"
| "tiles H a (x # xs) b \<longleftrightarrow>
     x = a \<and> 32 \<le> m_size (H a) \<and> 8 dvd m_size (H a) \<and> tiles H (a + m_size (H a)) xs b"

lemma tiles_append: "tiles H a (xs @ ys) b \<longleftrightarrow> (\<exists>c. tiles H a xs c \<and> tiles H c ys b)"
  by (induction xs arbitrary: a) auto

lemma tiles_cong:
  "(\<And>x. x \<in> set xs \<Longrightarrow> m_size (H' x) = m_size (H x)) \<Longrightarrow> tiles H' a xs b = tiles H a xs b"
proof (induction xs arbitrary: a)
  case (Cons x xs)
  then show ?case by (cases "x = a") auto
qed simp

lemma tiles_le: "tiles H a xs b \<Longrightarrow> a \<le> b"
  by (induction xs arbitrary: a) force+

lemma tiles_mem:
  "tiles H a xs b \<Longrightarrow> x \<in> set xs \<Longrightarrow>
     a \<le> x \<and> x + m_size (H x) \<le> b \<and> 32 \<le> m_size (H x) \<and> 8 dvd m_size (H x)"
proof (induction xs arbitrary: a)
  case (Cons y xs)
  then show ?case using tiles_le by (cases "x = y") force+
qed simp

lemma tiles_sorted: "tiles H a xs b \<Longrightarrow> sorted_wrt (<) xs"
proof (induction xs arbitrary: a)
  case (Cons y xs)
  then have "\<forall>x\<in>set xs. y < x" using tiles_mem by force
  with Cons show ?case by auto
qed simp

lemma strict_distinct: "sorted_wrt (<) xs \<Longrightarrow> distinct (xs :: nat list)"
  by (induction xs) auto

lemma tiles_distinct: "tiles H a xs b \<Longrightarrow> distinct xs"
  by (rule strict_distinct) (rule tiles_sorted)

lemma tiles_start_dvd: "tiles H a xs b \<Longrightarrow> 8 dvd b \<Longrightarrow> 8 dvd a"
proof (induction xs arbitrary: a)
  case (Cons y xs)
  then have "8 dvd a + m_size (H a)" "8 dvd m_size (H a)" by auto
  then show ?case using dvd_add_left_iff by blast
qed simp

lemma tiles_dvd: "tiles H a xs b \<Longrightarrow> 8 dvd b \<Longrightarrow> x \<in> set xs \<Longrightarrow> 8 dvd x"
proof (induction xs arbitrary: a)
  case (Cons y xs)
  then show ?case using tiles_start_dvd [of H a "y # xs" b] by auto
qed simp

lemma tiles_disjoint:
  assumes "tiles H a xs b" "x \<in> set xs" "y \<in> set xs" "x < y"
  shows "x + m_size (H x) \<le> y"
proof -
  obtain ys zs where xs: "xs = ys @ x # zs" using assms(2) by (auto simp: in_set_conv_decomp)
  with assms(1) have ys: "\<forall>u\<in>set ys. u < x" and z: "tiles H (x + m_size (H x)) zs b"
    using tiles_sorted [OF assms(1)] by (auto simp: sorted_wrt_append tiles_append)
  with assms xs have "y \<in> set zs" by auto
  with z show ?thesis using tiles_mem by blast
qed

lemma tiles_split_at:
  assumes "tiles H a (ys @ x # zs) b"
  shows "tiles H a ys x" "tiles H (x + m_size (H x)) zs b"
  using assms by (auto simp: tiles_append)

lemma tiles_empty_iff: "tiles H a xs b \<Longrightarrow> xs = [] \<longleftrightarrow> a = b"
  using tiles_le by (cases xs) force+

lemma tiles_hd: "tiles H a xs b \<Longrightarrow> xs \<noteq> [] \<Longrightarrow> hd xs = a"
  by (cases xs) auto

lemma tiles_last:
  "tiles H a xs b \<Longrightarrow> xs \<noteq> [] \<Longrightarrow> last xs + m_size (H (last xs)) = b"
  by (induction xs rule: rev_induct) (auto simp: tiles_append)

section \<open>Maximal coalescing\<close>

text \<open>\<open>coalesced f p xs\<close>: no two free blocks are neighbours, \<open>p\<close> being the state before the first.\<close>

primrec coalesced :: "(nat \<Rightarrow> bool) \<Rightarrow> bool \<Rightarrow> nat list \<Rightarrow> bool" where
  "coalesced f p [] \<longleftrightarrow> True"
| "coalesced f p (x # xs) \<longleftrightarrow> \<not> (p \<and> f x) \<and> coalesced f (f x) xs"

lemma coalesced_append:
  "coalesced f p (xs @ ys) \<longleftrightarrow>
     coalesced f p xs \<and> coalesced f (if xs = [] then p else f (last xs)) ys"
  by (induction xs arbitrary: p) auto

lemma coalesced_cong:
  "(\<And>x. x \<in> set xs \<Longrightarrow> f' x = f x) \<Longrightarrow> coalesced f' p xs = coalesced f p xs"
  by (induction xs arbitrary: p) auto

lemma coalesced_mono:
  assumes "coalesced f p xs" and "\<And>x. x \<in> set xs \<Longrightarrow> f' x \<Longrightarrow> f x" and "p' \<Longrightarrow> p"
  shows "coalesced f' p' xs"
  using assms
proof (induction xs arbitrary: p p')
  case (Cons x xs)
  then have "coalesced f' (f' x) xs" by auto
  with Cons show ?case by auto
qed simp

section \<open>Free structures\<close>

abbreviation blk_size :: "gvm \<Rightarrow> nat \<Rightarrow> nat" where
  "blk_size s x \<equiv> m_size (headers s x)"

abbreviation blk_free :: "gvm \<Rightarrow> nat \<Rightarrow> bool" where
  "blk_free s x \<equiv> gvm_kind_is_free (m_kind (headers s x))"

text \<open>
  \<open>free_struct s F fl bs\<close>: the general list is \<open>fl\<close>, bin \<open>b\<close> is \<open>bs b\<close>, and together they hold
  exactly the blocks \<open>F\<close>.
\<close>

definition free_struct :: "gvm \<Rightarrow> nat set \<Rightarrow> nat list \<Rightarrow> (nat \<Rightarrow> nat list) \<Rightarrow> bool" where
  "free_struct s F fl bs \<longleftrightarrow>
     finite F \<and> (\<forall>x\<in>F. x \<noteq> nulloffset \<and> 32 \<le> blk_size s x \<and> 8 dvd blk_size s x) \<and>
     dlist (flinks s) (m_gvm_free_head s) fl \<and> sorted_wrt (<) fl \<and>
     set fl = {x\<in>F. 64 \<le> blk_size s x} \<and>
     (\<forall>b<4. dlist (flinks s) (m_gvm_fastbins s b) (bs b) \<and> distinct (bs b) \<and>
        set (bs b) = {x\<in>F. blk_size s x = 32 + 8 * b}) \<and>
     m_gvm_free_block_count s = card F"

definition free_lists :: "gvm \<Rightarrow> nat set \<Rightarrow> bool" where
  "free_lists s F \<longleftrightarrow> (\<exists>fl bs. free_struct s F fl bs)"

text \<open>States that differ in the free structures only.\<close>

definition list_frame :: "gvm \<Rightarrow> gvm \<Rightarrow> bool" where
  "list_frame s s' \<longleftrightarrow>
     headers s' = headers s \<and> tails s' = tails s \<and> m_vm_ptr s' = m_vm_ptr s \<and>
     m_vm_temp_ptr s' = m_vm_temp_ptr s \<and> m_vm_global s' = m_vm_global s \<and>
     m_vm_limit s' = m_vm_limit s \<and> m_vm_alloc_active s' = m_vm_alloc_active s \<and>
     m_gvm_user_block_count s' = m_gvm_user_block_count s \<and>
     m_gc_scratch_offset s' = m_gc_scratch_offset s \<and> m_gc_current_gen s' = m_gc_current_gen s \<and>
     m_in_gc s' = m_in_gc s \<and> m_gc_work_head s' = m_gc_work_head s \<and>
     m_gc_marked_count s' = m_gc_marked_count s"

lemma list_frame_refl [simp]: "list_frame s s"
  by (simp add: list_frame_def)

lemma list_frame_ops:
  "list_frame s (gvm_fastbin_insert s x b)" "list_frame s (gvm_fastbin_unlink s x b)"
  "list_frame s (gvm_free_list_remove s x)"
  by (simp_all add: list_frame_def gvm_fastbin_insert_def gvm_fastbin_unlink_def
      gvm_free_list_remove_def Let_def)

lemma bin_class:
  assumes "32 \<le> n" "n < 64" "8 dvd (n::nat)"
  shows "gvm_bin_class_for_size n < 4" "32 + 8 * gvm_bin_class_for_size n = n"
  using assms by (auto simp: gvm_bin_class_for_size_def gvm_consts)

lemma bin_class_unique: "b < 4 \<Longrightarrow> gvm_bin_class_for_size (32 + 8 * b) = b"
  by (simp add: gvm_bin_class_for_size_def gvm_consts)

text \<open>Unlinking and inserting, for either structure.\<close>

lemma free_struct_bin_unlink:
  assumes S: "free_struct s F fl bs" and x: "x \<in> F" and b: "b < 4" "blk_size s x = 32 + 8 * b"
  shows "free_lists (gvm_fastbin_unlink s x b) (F - {x})"
proof -
  let ?s = "gvm_fastbin_unlink s x b"
  have xb: "x \<in> set (bs b)" using S x b by (auto simp: free_struct_def)
  then obtain as cs where sp: "bs b = as @ x # cs" by (auto simp: in_set_conv_decomp)
  have D: "dlist (flinks s) (m_gvm_fastbins s b) (as @ x # cs)" "distinct (as @ x # cs)"
    using S b unfolding sp [symmetric] by (simp_all add: free_struct_def)
  note U = dlist_unlink [OF D]
  have other: "dlist (links_unlink (flinks s) x) h ys = dlist (flinks s) h ys"
    if "set ys \<inter> set (bs b) = {}" for h ys
    by (rule dlist_disjoint [where S = "set (as @ x # cs)", OF U(2)]) (use that sp in auto)
  have fl: "set fl \<inter> set (bs b) = {}" using S b by (auto simp: free_struct_def)
  have bs: "set (bs c) \<inter> set (bs b) = {}" if "c < 4" "c \<noteq> b" for c
    using S b that by (auto simp: free_struct_def)
  have head: "m_gvm_fastbins ?s b = (if prev_free (links_of (flinks s) x) = nulloffset
      then next_free (links_of (flinks s) x) else m_gvm_fastbins s b)"
    and heads: "c \<noteq> b \<Longrightarrow> m_gvm_fastbins ?s c = m_gvm_fastbins s c" for c
    by (auto simp: gvm_fastbin_unlink_def)
  have "free_struct ?s (F - {x}) fl (bs(b := as @ cs))"
    unfolding free_struct_def
  proof (intro conjI allI impI)
    show "dlist (flinks ?s) (m_gvm_fastbins ?s c) ((bs(b := as @ cs)) c)" if "c < 4" for c
      using that S U(1) head heads [of c] other [of "bs c"] bs [of c]
      by (cases "c = b") (auto simp: free_struct_def gvm_fastbin_unlink_def)
    show "dlist (flinks ?s) (m_gvm_free_head ?s) fl"
      using S other [of fl] fl by (simp add: free_struct_def gvm_fastbin_unlink_def)
    show "distinct ((bs(b := as @ cs)) c)" if "c < 4" for c
      using that S D by (auto simp: free_struct_def)
    show "set ((bs(b := as @ cs)) c) = {y \<in> F - {x}. blk_size ?s y = 32 + 8 * c}" if "c < 4" for c
    proof (cases "c = b")
      case True
      have "set (bs b) = {y \<in> F. blk_size s y = 32 + 8 * b}" using S b by (simp add: free_struct_def)
      then have "set (as @ cs) = {y \<in> F. blk_size s y = 32 + 8 * b} - {x}"
        using sp D(2) by auto
      with True show ?thesis by (auto simp: gvm_fastbin_unlink_def)
    next
      case False
      with that S b show ?thesis by (auto simp: free_struct_def gvm_fastbin_unlink_def)
    qed
    show "m_gvm_free_block_count ?s = card (F - {x})"
      using S x by (simp add: free_struct_def gvm_fastbin_unlink_def)
  qed (use S b in \<open>auto simp: free_struct_def gvm_fastbin_unlink_def\<close>)
  then show ?thesis by (auto simp: free_lists_def)
qed

lemma free_struct_list_unlink:
  assumes S: "free_struct s F fl bs" and x: "x \<in> F" "64 \<le> blk_size s x"
  shows "free_lists (gvm_free_list_remove s x) (F - {x})"
proof -
  let ?s = "gvm_free_list_remove s x"
  have "x \<in> set fl" using S x by (auto simp: free_struct_def)
  then obtain as cs where sp: "fl = as @ x # cs" by (auto simp: in_set_conv_decomp)
  have D: "dlist (flinks s) (m_gvm_free_head s) (as @ x # cs)" "distinct (as @ x # cs)"
    using S strict_distinct unfolding sp [symmetric] by (simp_all add: free_struct_def)
  note U = dlist_unlink [OF D]
  have bs: "set (bs c) \<inter> set fl = {}" if "c < 4" for c
    using S that by (auto simp: free_struct_def)
  have "free_struct ?s (F - {x}) (as @ cs) bs"
    unfolding free_struct_def
  proof (intro conjI allI impI)
    show "dlist (flinks ?s) (m_gvm_fastbins ?s c) (bs c)" if "c < 4" for c
    proof -
      have "dlist (flinks s) (m_gvm_fastbins s c) (bs c)" "set (bs c) \<inter> set (as @ x # cs) = {}"
        using S that bs [OF that] unfolding sp [symmetric] by (simp_all add: free_struct_def)
      then have "dlist (links_unlink (flinks s) x) (m_gvm_fastbins s c) (bs c)"
        using dlist_disjoint [where S = "set (as @ x # cs)", OF U(2)] by simp
      then show ?thesis by (simp add: gvm_free_list_remove_def)
    qed
    show "dlist (flinks ?s) (m_gvm_free_head ?s) (as @ cs)"
      using U(1) by (simp add: gvm_free_list_remove_def)
    have "set fl = {y \<in> F. 64 \<le> blk_size s y}" using S by (simp add: free_struct_def)
    then have "set (as @ cs) = {y \<in> F. 64 \<le> blk_size s y} - {x}"
      using sp D(2) by auto
    then show "set (as @ cs) = {y \<in> F - {x}. 64 \<le> blk_size ?s y}"
      by (auto simp: gvm_free_list_remove_def)
    show "set (bs c) = {y \<in> F - {x}. blk_size ?s y = 32 + 8 * c}" if "c < 4" for c
      using that S x by (auto simp: free_struct_def gvm_free_list_remove_def)
    show "m_gvm_free_block_count ?s = card (F - {x})"
      using S x by (simp add: free_struct_def gvm_free_list_remove_def)
    show "sorted_wrt (<) (as @ cs)" using S sp by (auto simp: free_struct_def sorted_wrt_append)
  qed (use S in \<open>auto simp: free_struct_def gvm_free_list_remove_def\<close>)
  then show ?thesis by (auto simp: free_lists_def)
qed

lemma free_struct_bin_insert:
  assumes S: "free_struct s F fl bs" and x: "x \<notin> F" "x \<noteq> nulloffset"
    and b: "b < 4" "blk_size s x = 32 + 8 * b"
  shows "free_lists (gvm_fastbin_insert s x b) (insert x F)"
proof -
  let ?s = "gvm_fastbin_insert s x b"
  define h where "h = m_gvm_fastbins s b"
  define L1 where "L1 = put_links (flinks s) x \<lparr>prev_free = nulloffset, next_free = h\<rparr>"
  define L2 where "L2 = (if h \<noteq> nulloffset then put_prev L1 h x else L1)"
  have s': "?s = s\<lparr>m_gvm_free_block_count := m_gvm_free_block_count s + 1, flinks := L2,
      m_gvm_fastbins := (m_gvm_fastbins s)(b := x)\<rparr>"
    by (simp add: gvm_fastbin_insert_def h_def L1_def L2_def Let_def)
  have D: "dlist (flinks s) h (bs b)" "distinct (bs b)" and sb: "set (bs b) \<subseteq> F"
    using S b by (auto simp: free_struct_def h_def)
  have new: "dlist L2 x (x # bs b)"
    unfolding L2_def L1_def by (rule dlist_push [OF D(1)]) (use sb x D in auto)
  have h: "h \<in> set (bs b) \<or> h = nulloffset" using dlist_head_Cons [OF D(1)] by auto
  have other: "dlist L2 g ys = dlist (flinks s) g ys" if "set ys \<inter> insert x (set (bs b)) = {}" for g ys
    by (rule dlist_disjoint [where S = "insert x (set (bs b))"]) (use that h in \<open>auto simp: L2_def L1_def\<close>)
  have fl: "set fl \<inter> insert x (set (bs b)) = {}" using S b x by (auto simp: free_struct_def)
  have bs: "set (bs c) \<inter> insert x (set (bs b)) = {}" if "c < 4" "c \<noteq> b" for c
    using S b x that by (auto simp: free_struct_def)
  have "free_struct ?s (insert x F) fl (bs(b := x # bs b))"
    unfolding free_struct_def s'
  proof (intro conjI allI impI, goal_cases)
    case (3)
    then show ?case using S other [OF fl] by (simp add: free_struct_def)
  next
    case (6 c)
    then show ?case using S new other [of "bs c"] bs [of c]
      by (cases "c = b") (auto simp: free_struct_def)
  next
    case (7 c)
    then show ?case using S sb x by (auto simp: free_struct_def)
  qed (use S b x in \<open>auto simp: free_struct_def\<close>)
  then show ?thesis by (auto simp: free_lists_def)
qed

lemma sorted_insert_split:
  fixes x :: nat
  assumes "sorted_wrt (<) fl" "x \<notin> set fl"
  shows "sorted_wrt (<) (takeWhile (\<lambda>y. y < x) fl @ x # dropWhile (\<lambda>y. y < x) fl)"
  using assms
proof (induction fl)
  case (Cons a fl)
  then show ?case by (cases "a < x") (auto dest: set_takeWhileD set_dropWhileD)
qed simp

lemma free_struct_list_insert:
  assumes S: "free_struct s F fl bs" and x: "x \<notin> F" "x \<noteq> nulloffset"
    and n: "64 \<le> blk_size s x" "8 dvd blk_size s x"
  shows "\<exists>s'. gvm_free_list_insert s x = Value s' \<and> free_lists s' (insert x F) \<and> list_frame s s'"
proof -
  define as where "as = takeWhile (\<lambda>y. y < x) fl"
  define cs where "cs = dropWhile (\<lambda>y. y < x) fl"
  have sp: "fl = as @ cs" by (simp add: as_def cs_def)
  define p where "p = seg_last nulloffset as"
  define c where "c = seg_head cs nulloffset"
  define L1 where "L1 = put_links (flinks s) x \<lparr>prev_free = p, next_free = c\<rparr>"
  define L2 where "L2 = (if p = nulloffset then L1 else put_next L1 p x)"
  define L3 where "L3 = (if c \<noteq> nulloffset then put_prev L2 c x else L2)"
  define s' where "s' = s\<lparr>m_gvm_free_block_count := m_gvm_free_block_count s + 1, flinks := L3,
      m_gvm_free_head := (if p = nulloffset then x else m_gvm_free_head s)\<rparr>"
  have D: "dlist (flinks s) (m_gvm_free_head s) fl" "sorted_wrt (<) fl" "distinct fl"
    and xf: "x \<notin> set fl"
    using S x strict_distinct by (auto simp: free_struct_def)
  obtain q where "dllseg (flinks s) nulloffset (m_gvm_free_head s) fl q nulloffset"
    using D by (auto simp: dlist_def)
  then have walk: "free_list_slot (flinks s) x nulloffset (m_gvm_free_head s) = Some (p, c)"
    using free_list_slot_walk D(2) by (simp add: p_def c_def as_def cs_def)
  have run: "gvm_free_list_insert s x = Value s'"
    by (simp add: gvm_free_list_insert_def walk s'_def L3_def L2_def L1_def Let_def)
  have d: "distinct (as @ cs)" "x \<notin> set (as @ cs)"
    "dlist (flinks s) (m_gvm_free_head s) (as @ cs)"
    using D xf by (simp_all flip: sp)
  note I = dlist_insert [OF d(3,1,2) x(2), folded p_def c_def, folded L1_def, folded L2_def,
      folded L3_def]
  have bs: "dlist L3 (m_gvm_fastbins s b) (bs b)" if "b < 4" for b
  proof -
    have "dlist (flinks s) (m_gvm_fastbins s b) (bs b)" "set (bs b) \<inter> insert x (set fl) = {}"
      using S that x by (auto simp: free_struct_def)
    then show ?thesis
      using dlist_disjoint [where S = "set (as @ x # cs)", OF I(2)] sp by simp
  qed
  have "free_struct s' (insert x F) (as @ x # cs) bs"
    unfolding free_struct_def
  proof (intro conjI allI impI, goal_cases)
    case 3
    then show ?case using I(1) by (simp add: s'_def)
  next
    case 4
    then show ?case using sorted_insert_split [OF D(2) xf] by (simp add: as_def cs_def)
  next
    case 5
    have "set (as @ x # cs) = insert x (set fl)" by (simp add: sp)
    then show ?case using S n by (auto simp: free_struct_def s'_def)
  next
    case (6 b)
    then show ?case using bs by (simp add: s'_def)
  qed (use S n x in \<open>auto simp: free_struct_def s'_def\<close>)
  moreover have "list_frame s s'" by (simp add: list_frame_def s'_def)
  ultimately show ?thesis using run by (auto simp: free_lists_def)
qed

section \<open>Routing\<close>

lemma free_lists_insert:
  assumes S: "free_lists s F" and x: "x \<notin> F" "x \<noteq> nulloffset"
    and n: "blk_size s x = n" "32 \<le> n" "8 dvd n"
  shows "\<exists>s'. gvm_free_insert_anywhere s x n = Value s' \<and> free_lists s' (insert x F) \<and> list_frame s s'"
proof -
  obtain fl bs where S': "free_struct s F fl bs" using S by (auto simp: free_lists_def)
  show ?thesis
  proof (cases "n < 64")
    case True
    then show ?thesis
      using free_struct_bin_insert [OF S' x] bin_class [of n] n list_frame_ops
      by (auto simp: gvm_free_insert_anywhere_def gvm_consts)
  next
    case False
    then show ?thesis using free_struct_list_insert [OF S' x] n
      by (auto simp: gvm_free_insert_anywhere_def gvm_consts)
  qed
qed

lemma free_lists_unlink:
  assumes S: "free_lists s F" and x: "x \<in> F" and n: "blk_size s x = n"
  shows "free_lists (gvm_free_unlink_anywhere s x n) (F - {x})"
    and "list_frame s (gvm_free_unlink_anywhere s x n)"
proof -
  obtain fl bs where S': "free_struct s F fl bs" using S by (auto simp: free_lists_def)
  then have "32 \<le> n" "8 dvd n" using x n by (auto simp: free_struct_def)
  then show "free_lists (gvm_free_unlink_anywhere s x n) (F - {x})"
    using free_struct_bin_unlink [OF S' x] free_struct_list_unlink [OF S' x] bin_class [of n] n
    by (auto simp: gvm_free_unlink_anywhere_def gvm_consts)
  show "list_frame s (gvm_free_unlink_anywhere s x n)"
    by (simp add: gvm_free_unlink_anywhere_def list_frame_ops)
qed

lemma free_lists_cong:
  assumes "free_lists s F" and "\<And>x. x \<in> F \<Longrightarrow> blk_size s' x = blk_size s x"
    and "flinks s' = flinks s" "m_gvm_free_head s' = m_gvm_free_head s"
    "m_gvm_fastbins s' = m_gvm_fastbins s" "m_gvm_free_block_count s' = m_gvm_free_block_count s"
  shows "free_lists s' F"
proof -
  have sets: "{x\<in>F. P (blk_size s' x)} = {x\<in>F. P (blk_size s x)}" for P using assms(2) by auto
  have "free_struct s F fl bs \<Longrightarrow> free_struct s' F fl bs" for fl bs
    using assms(2-) sets [of "\<lambda>n. 64 \<le> n"] sets [of "\<lambda>n. n = 32 + 8 * b" for b]
    by (auto simp: free_struct_def)
  then show ?thesis using assms(1) by (auto simp: free_lists_def)
qed

text \<open>The heads of the bins and a first-fit walk name members of the free set.\<close>

lemma free_lists_bin_head:
  assumes "free_lists s F" "b < 4" "m_gvm_fastbins s b \<noteq> nulloffset"
  shows "m_gvm_fastbins s b \<in> F" "blk_size s (m_gvm_fastbins s b) = 32 + 8 * b"
proof -
  obtain fl bs where S: "free_struct s F fl bs" using assms by (auto simp: free_lists_def)
  then have "\<exists>cs. bs b = m_gvm_fastbins s b # cs"
    using assms dlist_head_Cons by (auto simp: free_struct_def)
  then have "m_gvm_fastbins s b \<in> set (bs b)" by auto
  with S assms show "m_gvm_fastbins s b \<in> F" "blk_size s (m_gvm_fastbins s b) = 32 + 8 * b"
    by (auto simp: free_struct_def)
qed

lemma first_fit_walk:
  assumes "dllseg (flinks s) p c as q nulloffset"
  shows "first_fit s n c = Some (case filter (\<lambda>x. n \<le> blk_size s x) as of [] \<Rightarrow> nulloffset | x # _ \<Rightarrow> x)"
  using assms
proof (induction as arbitrary: p c)
  case Nil
  then show ?case by (simp add: first_fit.simps)
next
  case (Cons a as)
  show ?case using Cons.prems Cons.IH [of a "next_free (links_of (flinks s) a)"]
    by (subst first_fit.simps) auto
qed

lemma free_lists_first_fit:
  assumes "free_lists s F"
  obtains x where "first_fit s n (m_gvm_free_head s) = Some x"
    and "x = nulloffset \<Longrightarrow> \<forall>y\<in>F. 64 \<le> blk_size s y \<longrightarrow> blk_size s y < n"
    and "x \<noteq> nulloffset \<Longrightarrow> x \<in> F \<and> n \<le> blk_size s x \<and> 64 \<le> blk_size s x"
proof -
  obtain fl bs where S: "free_struct s F fl bs" using assms by (auto simp: free_lists_def)
  then obtain q where D: "dllseg (flinks s) nulloffset (m_gvm_free_head s) fl q nulloffset"
    by (auto simp: free_struct_def dlist_def)
  let ?c = "filter (\<lambda>x. n \<le> blk_size s x) fl"
  have mem: "set ?c = {x\<in>F. 64 \<le> blk_size s x \<and> n \<le> blk_size s x}" and nn: "\<forall>x\<in>F. x \<noteq> nulloffset"
    using S by (auto simp: free_struct_def)
  show ?thesis
  proof (cases ?c)
    case Nil
    then show ?thesis using that [of nulloffset] first_fit_walk [OF D, of n] mem by force
  next
    case (Cons x xs)
    then have "x \<in> F" "n \<le> blk_size s x" "64 \<le> blk_size s x" using mem by auto
    then show ?thesis using that [of x] first_fit_walk [OF D, of n] Cons nn by auto
  qed
qed

end
