(* ===== verification/Gvm_Correct.thy ===== *)
theory Gvm_Correct
  imports Gvm_Inv
begin

text \<open>
  Correctness of the global allocator of \<^verbatim>\<open>src/gvm_heap.inl\<close>: the heap invariant, the
  transitions of the block sequence the operations make (reissue, split, bump, merge, give
  back), and the refinement of the abstract heap, a finite map from the payload offset of a
  live block to its size and kind.
\<close>

section \<open>Segments of well-formed blocks\<close>

definition seg :: "(nat \<Rightarrow> gvm_block) \<Rightarrow> (nat \<Rightarrow> nat) \<Rightarrow> nat \<Rightarrow> nat list \<Rightarrow> nat \<Rightarrow> bool" where
  "seg H T a xs b \<longleftrightarrow> tiles H a xs b \<and>
     (\<forall>x\<in>set xs. m_magic (H x) = GvmMagic \<and> T (x + m_size (H x) - 4) = m_size (H x))"

lemma seg_append: "seg H T a (xs @ ys) b \<longleftrightarrow> (\<exists>c. seg H T a xs c \<and> seg H T c ys b)"
  by (auto simp: seg_def tiles_append)

lemma seg_Nil [simp]: "seg H T a [] b \<longleftrightarrow> a = b"
  by (simp add: seg_def)

lemma seg_Cons:
  "seg H T a (x # xs) b \<longleftrightarrow> x = a \<and> 32 \<le> m_size (H a) \<and> 8 dvd m_size (H a) \<and>
     m_magic (H a) = GvmMagic \<and> T (a + m_size (H a) - 4) = m_size (H a) \<and>
     seg H T (a + m_size (H a)) xs b"
  by (auto simp: seg_def)

lemma seg_cong:
  assumes "\<And>x. x \<in> set xs \<Longrightarrow> m_size (H' x) = m_size (H x) \<and> m_magic (H' x) = m_magic (H x)"
    and "\<And>x. x \<in> set xs \<Longrightarrow> T' (x + m_size (H x) - 4) = T (x + m_size (H x) - 4)"
  shows "seg H' T' a xs b = seg H T a xs b"
  using assms tiles_cong [of xs H' H a b] by (auto simp: seg_def)

text \<open>Writing one block's header and tail tag leaves the segments on either side of it alone.\<close>

lemma seg_write:
  assumes S: "seg H T a xs b" and n: "32 \<le> n" and off: "b \<le> off \<or> off + n \<le> a"
  shows "seg (H(off := h)) (T(off + n - 4 := v)) a xs b"
proof (rule seg_cong [THEN iffD2, OF _ _ S])
  fix x assume "x \<in> set xs"
  then have x: "a \<le> x" "x + m_size (H x) \<le> b" "32 \<le> m_size (H x)"
    using S tiles_mem by (auto simp: seg_def)
  then show "m_size ((H(off := h)) x) = m_size (H x) \<and> m_magic ((H(off := h)) x) = m_magic (H x)"
    "(T(off + n - 4 := v)) (x + m_size (H x) - 4) = T (x + m_size (H x) - 4)"
    using n off by auto
qed

lemma seg_header:
  assumes "seg H T a xs b" and "x \<in> set xs \<Longrightarrow> m_size h = m_size (H x) \<and> m_magic h = GvmMagic"
  shows "seg (H(x := h)) T a xs b"
  by (rule seg_cong [THEN iffD2, OF _ _ assms(1)]) (use assms in \<open>auto simp: seg_def\<close>)

section \<open>The invariant\<close>

definition heap_inv :: "gvm \<Rightarrow> nat list \<Rightarrow> bool" where
  "heap_inv s xs \<longleftrightarrow>
     vm_layout s \<and> 0 < m_vm_ptr s \<and> 8 dvd m_vm_limit s \<and> m_vm_limit s \<le> vm_size_max \<and>
     seg (headers s) (tails s) (m_vm_global s) xs (m_vm_limit s) \<and>
     free_lists s {x\<in>set xs. blk_free s x} \<and> coalesced (blk_free s) True xs"

definition heap_ok :: "gvm \<Rightarrow> bool" where
  "heap_ok s \<longleftrightarrow> (\<exists>xs. heap_inv s xs)"

text \<open>What the transitions keep of the VM pointers.\<close>

definition vm_frame :: "gvm \<Rightarrow> gvm \<Rightarrow> bool" where
  "vm_frame s s' \<longleftrightarrow> m_vm_ptr s' = m_vm_ptr s \<and> m_vm_temp_ptr s' = m_vm_temp_ptr s \<and>
     m_vm_global s' = m_vm_global s \<and> m_vm_limit s' = m_vm_limit s \<and>
     m_vm_alloc_active s' = m_vm_alloc_active s"

lemma heap_inv_frame:
  assumes "heap_inv s xs" "vm_frame s s'"
    and "seg (headers s') (tails s') (m_vm_global s) xs' (m_vm_limit s)"
    and "free_lists s' {x\<in>set xs'. blk_free s' x}" "coalesced (blk_free s') True xs'"
  shows "heap_inv s' xs'"
  using assms by (auto simp: heap_inv_def vm_frame_def vm_layout_def split: option.splits)

lemma heap_inv_pos: "heap_inv s xs \<Longrightarrow> x \<in> set xs \<Longrightarrow> nulloffset < x"
  using tiles_mem [of "headers s" "m_vm_global s" xs "m_vm_limit s" x]
  by (fastforce simp: heap_inv_def vm_layout_def seg_def nulloffset_def)

lemma heap_inv_mem:
  assumes "heap_inv s xs" "x \<in> set xs"
  shows "m_vm_global s \<le> x" "x + blk_size s x \<le> m_vm_limit s" "32 \<le> blk_size s x"
    "8 dvd blk_size s x" "8 dvd x" "m_magic (headers s x) = GvmMagic"
    "tails s (x + blk_size s x - 4) = blk_size s x"
  using assms tiles_mem tiles_dvd by (auto simp: heap_inv_def seg_def)

lemma heap_inv_distinct: "heap_inv s xs \<Longrightarrow> distinct xs"
  unfolding heap_inv_def seg_def by (elim conjE) (rule tiles_distinct)

section \<open>Transitions\<close>

text \<open>A free block is reissued whole under a live kind.\<close>

lemma reissue_inv:
  assumes I: "heap_inv s xs" and x: "x \<in> set xs" "blk_free s x"
    and F: "free_lists s1 ({y\<in>set xs. blk_free s y} - {x})" "list_frame s s1"
    and h: "m_size h = blk_size s x" "m_magic h = GvmMagic" "\<not> gvm_kind_is_free (m_kind h)"
  shows "heap_inv (s1\<lparr>headers := (headers s1)(x := h)\<rparr>) xs"
proof (rule heap_inv_frame [OF I])
  let ?s = "s1\<lparr>headers := (headers s1)(x := h)\<rparr>"
  have [simp]: "headers s1 = headers s" "tails s1 = tails s" using F(2) by (simp_all add: list_frame_def)
  show "vm_frame s ?s" using F(2) by (simp add: vm_frame_def list_frame_def)
  show "seg (headers ?s) (tails ?s) (m_vm_global s) xs (m_vm_limit s)"
    using I h by (auto simp: heap_inv_def intro!: seg_header)
  have "{y\<in>set xs. blk_free ?s y} = {y\<in>set xs. blk_free s y} - {x}" using h by auto
  then show "free_lists ?s {y\<in>set xs. blk_free ?s y}"
    using free_lists_cong [OF F(1), of ?s] by auto
  show "coalesced (blk_free ?s) True xs"
    using I h by (auto simp: heap_inv_def elim!: coalesced_mono)
qed

text \<open>A live block is put below the heap.\<close>

lemma bump_inv:
  assumes I: "heap_inv s xs" and n: "32 \<le> n" "8 dvd n" and g: "m_vm_global s = g + n"
    and L: "vm_layout s1" "m_vm_ptr s1 = m_vm_ptr s" "m_vm_limit s1 = m_vm_limit s"
      "m_vm_global s1 = g"
    and s1: "headers s1 = (headers s)(g := h)" "tails s1 = (tails s)(g + n - 4 := n)"
      "flinks s1 = flinks s" "m_gvm_free_head s1 = m_gvm_free_head s"
      "m_gvm_fastbins s1 = m_gvm_fastbins s"
      "m_gvm_free_block_count s1 = m_gvm_free_block_count s"
    and h: "m_size h = n" "m_magic h = GvmMagic" "\<not> gvm_kind_is_free (m_kind h)"
  shows "heap_inv s1 (g # xs)"
proof -
  have S: "seg (headers s) (tails s) (g + n) xs (m_vm_limit s)" using I g by (simp add: heap_inv_def)
  have gx: "\<forall>x\<in>set xs. x \<noteq> g"
    using heap_inv_mem(1) [OF I] g n by force
  have free: "blk_free s1 y = blk_free s y" if "y \<in> set xs" for y using that gx s1 by auto
  have "{y\<in>set (g # xs). blk_free s1 y} = {y\<in>set xs. blk_free s y}" using h s1 free gx by auto
  moreover have "free_lists s1 {y\<in>set xs. blk_free s y}"
    by (rule free_lists_cong [of s]) (use I s1 gx in \<open>auto simp: heap_inv_def\<close>)
  moreover have "seg (headers s1) (tails s1) g (g # xs) (m_vm_limit s)"
    using seg_write [OF S n(1), of g h n] s1 h n by (simp add: seg_Cons)
  moreover have "coalesced (blk_free s1) False xs"
    using I free by (auto simp: heap_inv_def elim!: coalesced_mono)
  ultimately show ?thesis using I L h s1 by (simp add: heap_inv_def)
qed

text \<open>The blocks on either side of a run of blocks, which the rewriting of the run keeps.\<close>

lemma heap_inv_around:
  assumes I: "heap_inv s (ys @ ms @ zs)" and m: "seg (headers s) (tails s) m ms (m + n)" "ms \<noteq> []"
  shows "seg (headers s) (tails s) (m_vm_global s) ys m"
    and "seg (headers s) (tails s) (m + n) zs (m_vm_limit s)"
    and "set ys \<inter> {m..<m + n} = {}" "set zs \<inter> {m..<m + n} = {}" "nulloffset < m"
proof -
  obtain a b where A: "seg (headers s) (tails s) (m_vm_global s) ys a"
    "seg (headers s) (tails s) a ms b" "seg (headers s) (tails s) b zs (m_vm_limit s)"
    using I by (auto simp: heap_inv_def seg_append)
  have [simp]: "a = m" using A(2) m by (cases ms) (auto simp: seg_Cons)
  have "tiles (headers s) m ms b" "tiles (headers s) m ms (m + n)" using A(2) m by (simp_all add: seg_def)
  then have "b = m + n" using tiles_last [of _ m ms] m(2) by metis
  with A show Y: "seg (headers s) (tails s) (m_vm_global s) ys m"
    and Z: "seg (headers s) (tails s) (m + n) zs (m_vm_limit s)" by simp_all
  show "set ys \<inter> {m..<m + n} = {}" using Y tiles_mem by (fastforce simp: seg_def)
  show "set zs \<inter> {m..<m + n} = {}" using Z tiles_mem by (fastforce simp: seg_def)
  show "nulloffset < m" using heap_inv_pos [OF I, of m] m by (cases ms) (auto simp: seg_Cons)
qed

lemma split_inv:
  assumes I: "heap_inv s (ys @ x # zs)" and x: "blk_free s x"
    and n: "blk_size s x = n + k" "32 \<le> n" "8 dvd n" "32 \<le> k" "8 dvd k"
    and F: "free_lists s1 ({y\<in>set (ys @ x # zs). blk_free s y} - {x})" "list_frame s s1"
    and h: "m_size h = n" "m_magic h = GvmMagic" "\<not> gvm_kind_is_free (m_kind h)"
    and s2: "s2 = s1\<lparr>headers := (headers s)(x := h, x + n := free_header k ChunkKind_Free),
      tails := (tails s)(x + n - 4 := n, x + n + k - 4 := k)\<rparr>"
  shows "\<exists>s3. gvm_free_insert_anywhere s2 (x + n) k = Value s3 \<and>
    heap_inv s3 (ys @ x # (x + n) # zs) \<and> list_frame s2 s3"
proof -
  have m: "seg (headers s) (tails s) x [x] (x + (n + k))"
    using I n by (auto simp: heap_inv_def seg_append seg_Cons)
  note A = heap_inv_around [OF _ m, of ys zs, simplified, OF I]
  have [simp]: "gvm_kind_is_free ChunkKind_Free" by (simp add: gvm_kind_is_free_def gvm_consts)
  have free2: "blk_free s2 y = blk_free s y" if "y \<in> set ys \<or> y \<in> set zs" for y
    using that A(3,4) n by (auto simp: s2)
  have d: "distinct (ys @ x # zs)" using heap_inv_distinct [OF I] .
  let ?F = "{y\<in>set (ys @ zs). blk_free s y}"
  have F': "{y\<in>set (ys @ x # zs). blk_free s y} - {x} = ?F" using d by auto
  have "free_lists s2 ?F"
    by (rule free_lists_cong [OF F(1) [unfolded F']])
      (use F(2) A(3,4) n in \<open>auto simp: s2 list_frame_def\<close>)
  moreover have "x + n \<notin> ?F" using A(3,4) n by auto
  ultimately obtain s3 where s3: "gvm_free_insert_anywhere s2 (x + n) k = Value s3"
    "free_lists s3 (insert (x + n) ?F)" "list_frame s2 s3"
    using free_lists_insert [of s2 ?F "x + n" k] n A(5) by (auto simp: s2 free_header_def)
  have H: "headers s3 = headers s2" "tails s3 = tails s2" using s3(3) by (simp_all add: list_frame_def)
  have "heap_inv s3 (ys @ x # (x + n) # zs)"
  proof (rule heap_inv_frame [OF I])
    show "vm_frame s s3" using F(2) s3(3) by (simp add: vm_frame_def list_frame_def s2)
    have Y: "seg (headers s2) (tails s2) (m_vm_global s) ys x"
      using seg_write [OF seg_write [OF A(1) n(2), of x h n] n(4), of "x + n"] by (simp add: s2)
    have Z: "seg (headers s2) (tails s2) (x + (n + k)) zs (m_vm_limit s)"
      using seg_write [OF seg_write [OF A(2) n(2), of x h n] n(4), of "x + n"]
      by (simp add: s2 add.assoc)
    show "seg (headers s3) (tails s3) (m_vm_global s) (ys @ x # (x + n) # zs) (m_vm_limit s)"
      unfolding H seg_append using Y Z n h by (auto simp: seg_Cons s2 free_header_def add.assoc)
    have "{y\<in>set (ys @ x # (x + n) # zs). blk_free s3 y} = insert (x + n) ?F"
      unfolding H using free2 h n A(3) d by (auto simp: s2 free_header_def)
    then show "free_lists s3 {y\<in>set (ys @ x # (x + n) # zs). blk_free s3 y}" using s3 by simp
    have c: "coalesced (blk_free s) True ys" "coalesced (blk_free s) True zs"
      using I x by (auto simp: heap_inv_def coalesced_append split: if_splits)
    have "coalesced (blk_free s2) True ys" "coalesced (blk_free s2) True zs"
      using c free2 coalesced_cong [of ys "blk_free s2"] coalesced_cong [of zs "blk_free s2"] by auto
    then show "coalesced (blk_free s3) True (ys @ x # (x + n) # zs)"
      unfolding H using h n by (simp add: coalesced_append s2 free_header_def)
  qed
  with s3 show ?thesis by blast
qed

text \<open>A run of blocks becomes one free block, or is given back when it lies at the bottom.\<close>

lemma merge_inv:
  assumes I: "heap_inv s (ys @ ms @ zs)" and m: "seg (headers s) (tails s) m ms (m + n)" "ms \<noteq> []"
    and n: "32 \<le> n" "8 dvd n"
    and F: "free_lists s1 {y\<in>set (ys @ zs). blk_free s y}" "list_frame s s1"
    and k: "gvm_kind_is_free kind"
    and nb: "ys \<noteq> []" "\<not> blk_free s (last ys)" "coalesced (blk_free s) True zs"
    and s2: "s2 = s1\<lparr>headers := (headers s)(m := free_header n kind),
      tails := (tails s)(m + n - 4 := n)\<rparr>"
  shows "\<exists>s3. gvm_free_insert_anywhere s2 m n = Value s3 \<and> heap_inv s3 (ys @ m # zs) \<and> list_frame s2 s3"
proof -
  note A = heap_inv_around [OF I m]
  have free2: "blk_free s2 y = blk_free s y" if "y \<in> set ys \<or> y \<in> set zs" for y
    using that A(3,4) n by (auto simp: s2)
  let ?F = "{y\<in>set (ys @ zs). blk_free s y}"
  have mF: "m \<notin> ?F" using A(3,4) n by auto
  have "free_lists s2 ?F"
    by (rule free_lists_cong [OF F(1)]) (use F(2) mF in \<open>auto simp: s2 list_frame_def\<close>)
  then obtain s3 where s3: "gvm_free_insert_anywhere s2 m n = Value s3"
    "free_lists s3 (insert m ?F)" "list_frame s2 s3"
    using free_lists_insert [of s2 ?F m n] n A(5) mF by (auto simp: s2 free_header_def)
  have H: "headers s3 = headers s2" "tails s3 = tails s2" using s3(3) by (simp_all add: list_frame_def)
  have "heap_inv s3 (ys @ m # zs)"
  proof (rule heap_inv_frame [OF I])
    show "vm_frame s s3" using F(2) s3(3) by (simp add: vm_frame_def list_frame_def s2)
    show "seg (headers s3) (tails s3) (m_vm_global s) (ys @ m # zs) (m_vm_limit s)"
      unfolding H seg_append
      using seg_write [OF A(1) n(1), of m "free_header n kind" n]
        seg_write [OF A(2) n(1), of m "free_header n kind" n] n
      by (auto simp: seg_Cons s2 free_header_def)
    have "{y\<in>set (ys @ m # zs). blk_free s3 y} = insert m ?F"
      unfolding H using free2 k by (auto simp: s2 free_header_def)
    then show "free_lists s3 {y\<in>set (ys @ m # zs). blk_free s3 y}" using s3 by simp
    have "coalesced (blk_free s) True ys" using I by (simp add: heap_inv_def coalesced_append)
    then have "coalesced (blk_free s2) True ys" "coalesced (blk_free s2) True zs"
      "\<not> blk_free s2 (last ys)"
      using nb free2 coalesced_cong [of ys "blk_free s2"] coalesced_cong [of zs "blk_free s2"] by auto
    then show "coalesced (blk_free s3) True (ys @ m # zs)"
      unfolding H using nb k by (simp add: coalesced_append s2 free_header_def)
  qed
  with s3 show ?thesis by blast
qed

lemma giveback_inv:
  assumes I: "heap_inv s (ms @ zs)" and m: "seg (headers s) (tails s) m ms (m + n)" "ms \<noteq> []"
    and F: "free_lists s1 {y\<in>set zs. blk_free s y}" "list_frame s s1"
    and nb: "coalesced (blk_free s) True zs"
  shows "heap_inv (s1\<lparr>m_vm_global := m_vm_global s1 + n\<rparr>) zs"
proof -
  have I': "heap_inv s ([] @ ms @ zs)" using I by simp
  note A = heap_inv_around [OF I' m]
  have m': "m_vm_global s = m" using A(1) by simp
  have "seg (headers s) (tails s) (m_vm_global s + n) zs (m_vm_limit s)" using A(2) m' by simp
  moreover from this have "m_vm_global s + n \<le> m_vm_limit s" using tiles_le by (auto simp: seg_def)
  moreover have "free_lists (s1\<lparr>m_vm_global := m_vm_global s1 + n\<rparr>) {y\<in>set zs. blk_free s y}"
    by (rule free_lists_cong [OF F(1)]) simp_all
  ultimately show ?thesis
    using I F(2) nb by (auto simp: heap_inv_def vm_layout_def list_frame_def split: option.splits)
qed

section \<open>The abstract heap\<close>

text \<open>The live blocks a heap walk reports: payload offset to total block size and kind.\<close>

definition gvm_live :: "gvm \<Rightarrow> nat \<Rightarrow> (nat \<times> u8) option" where
  "gvm_live s =
     (case gvm_for_each s of
        Value vs \<Rightarrow> map_of (map (\<lambda>v. (v_payload_offset v, v_total_size v, v_kind v))
          (filter (\<lambda>v. \<not> v_is_free v) vs))
      | _ \<Rightarrow> Map.empty)"

lemma for_each_from_seg:
  "seg (headers s) (tails s) a xs (m_vm_limit s) \<Longrightarrow>
     gvm_for_each_from s a = Value (map (visit_of s) xs)"
proof (induction xs arbitrary: a)
  case Nil
  then show ?case by (simp add: gvm_for_each_from.simps)
next
  case (Cons x xs)
  then have "a + m_size (headers s a) \<le> m_vm_limit s" using tiles_le by (auto simp: seg_def)
  with Cons show ?case
    by (subst gvm_for_each_from.simps) (auto simp: seg_Cons gvm_consts Let_def)
qed

lemma for_each_inv: "heap_inv s xs \<Longrightarrow> gvm_for_each s = Value (map (visit_of s) xs)"
  by (simp add: heap_inv_def gvm_for_each_def for_each_from_seg)

lemma map_of_payloads:
  "map_of (map (\<lambda>x. (x + c, f x)) ys) p = (if c \<le> p \<and> p - c \<in> set ys then Some (f (p - c)) else None)"
  for c :: nat
  by (induction ys) auto

lemma gvm_live_inv:
  assumes "heap_inv s xs"
  shows "gvm_live s = (\<lambda>p. if 16 \<le> p \<and> p - 16 \<in> set xs \<and> \<not> blk_free s (p - 16)
     then Some (blk_size s (p - 16), m_kind (headers s (p - 16))) else None)"
proof -
  have "map (\<lambda>v. (v_payload_offset v, v_total_size v, v_kind v))
      (filter (\<lambda>v. \<not> v_is_free v) (map (visit_of s) xs)) =
    map (\<lambda>x. (x + 16, blk_size s x, m_kind (headers s x))) (filter (\<lambda>x. \<not> blk_free s x) xs)"
    by (induction xs) (auto simp: visit_of_def gvm_consts)
  then show ?thesis
    using map_of_payloads [of 16 "\<lambda>x. (blk_size s x, m_kind (headers s x))"]
    by (auto simp: gvm_live_def for_each_inv [OF assms] fun_eq_iff)
qed

text \<open>The effect of a transition on the abstract heap.\<close>

lemma gvm_live_alloc:
  assumes I: "heap_inv s xs" "heap_inv s' xs'"
    and h: "m_size (headers s' x) = n" "m_kind (headers s' x) = kind" "\<not> gvm_kind_is_free kind"
    and x: "x \<in> set xs'" "x \<in> set xs \<Longrightarrow> blk_free s x"
    and same: "\<And>y. y \<noteq> x \<Longrightarrow> y \<in> set xs' \<and> \<not> blk_free s' y \<longleftrightarrow> y \<in> set xs \<and> \<not> blk_free s y"
      "\<And>y. y \<noteq> x \<Longrightarrow> y \<in> set xs \<Longrightarrow> \<not> blk_free s y \<Longrightarrow> headers s' y = headers s y"
  shows "gvm_live s' = (gvm_live s)(x + 16 \<mapsto> (n, kind))" and "gvm_live s (x + 16) = None"
    and "\<forall>q. gvm_live s q \<noteq> None \<longrightarrow> headers s' (q - 16) = headers s (q - 16)"
proof -
  show "\<forall>q. gvm_live s q \<noteq> None \<longrightarrow> headers s' (q - 16) = headers s (q - 16)"
  proof (intro allI impI)
    fix q assume "gvm_live s q \<noteq> None"
    then have "q - 16 \<in> set xs" "\<not> blk_free s (q - 16)"
      by (auto simp: gvm_live_inv [OF I(1)] split: if_splits)
    then show "headers s' (q - 16) = headers s (q - 16)" using same(2) [of "q - 16"] x(2) by fast
  qed
  show "gvm_live s (x + 16) = None" using x by (auto simp: gvm_live_inv [OF I(1)])
  show "gvm_live s' = (gvm_live s)(x + 16 \<mapsto> (n, kind))"
  proof
    fix p
    show "gvm_live s' p = ((gvm_live s)(x + 16 \<mapsto> (n, kind))) p"
    proof (cases "p = x + 16")
      case True
      then show ?thesis using h x by (simp add: gvm_live_inv [OF I(2)])
    next
      case False
      then have "16 \<le> p \<Longrightarrow> p - 16 \<noteq> x" by auto
      with False show ?thesis using same [of "p - 16"]
        by (auto simp: gvm_live_inv [OF I(1)] gvm_live_inv [OF I(2)])
    qed
  qed
qed

lemma gvm_live_free:
  assumes I: "heap_inv s xs" "heap_inv s' xs'"
    and x: "x \<in> set xs' \<Longrightarrow> blk_free s' x"
    and same: "\<And>y. y \<noteq> x \<Longrightarrow> y \<in> set xs' \<and> \<not> blk_free s' y \<longleftrightarrow> y \<in> set xs \<and> \<not> blk_free s y"
      "\<And>y. y \<noteq> x \<Longrightarrow> y \<in> set xs \<Longrightarrow> \<not> blk_free s y \<Longrightarrow> headers s' y = headers s y"
  shows "gvm_live s' = (gvm_live s)(x + 16 := None)"
proof
  fix p
  show "gvm_live s' p = ((gvm_live s)(x + 16 := None)) p"
  proof (cases "p = x + 16")
    case True
    then show ?thesis using x by (auto simp: gvm_live_inv [OF I(2)])
  next
    case False
    then have "16 \<le> p \<Longrightarrow> p - 16 \<noteq> x" by auto
    with False show ?thesis using same [of "p - 16"]
      by (auto simp: gvm_live_inv [OF I(1)] gvm_live_inv [OF I(2)])
  qed
qed

section \<open>Block sizes\<close>

lemma gvm_total_size_value:
  assumes "payload_size \<le> vm_size_max - 27"
  defines "raw \<equiv> max payload_size 8 + 20"
  shows "gvm_total_size payload_size = Value (align_up 8 raw)"
    and "32 \<le> align_up 8 raw" "8 dvd align_up 8 raw" "payload_size + 20 \<le> align_up 8 raw"
    "align_up 8 raw < raw + 8"
proof -
  have b: "raw + 7 < 2 ^ 32" using assms by (auto simp: vm_size_max_def)
  have ge: "raw \<le> align_up 8 raw" "align_up 8 raw < raw + 8" "8 dvd align_up 8 raw"
    by (simp_all add: align_up_ge align_up_less align_up_dvd)
  moreover have "28 \<le> raw" by (simp add: raw_def)
  ultimately show B: "32 \<le> align_up 8 raw" "8 dvd align_up 8 raw" "payload_size + 20 \<le> align_up 8 raw"
    "align_up 8 raw < raw + 8"
    by (auto simp: raw_def elim!: dvdE)
  have "16 + (if 8 < payload_size then payload_size else 8) + 4 = raw" by (auto simp: raw_def)
  moreover have "(raw mod 2 ^ 32 + 7) mod 2 ^ 32 div 8 * 8 = align_up 8 raw"
    using b by (simp add: align_up_def)
  ultimately show "gvm_total_size payload_size = Value (align_up 8 raw)"
    using assms(1) B(1) unfolding gvm_total_size_def gvm_consts Let_def by simp
qed

lemma gvm_total_size_raise:
  "payload_size > vm_size_max - 27 \<Longrightarrow> gvm_total_size payload_size = Raise LimitCheck"
  by (simp add: gvm_total_size_def gvm_consts Let_def)

end
