(* ===== verification/Gvm_Alloc.thy ===== *)
theory Gvm_Alloc
  imports Gvm_Correct
begin

text \<open>
  The allocation and deallocation paths of \<^verbatim>\<open>src/gvm_heap.inl\<close> against the abstract heap: an
  allocation adds one fresh, aligned entry of at least the requested size, a free removes
  exactly the entry it is given, and both keep the heap invariant; no path diverges.
\<close>

section \<open>Contracts\<close>

text \<open>The fields that no allocator path below the public entry points touches.\<close>

definition gc_frame :: "gvm \<Rightarrow> gvm \<Rightarrow> bool" where
  "gc_frame s s' \<longleftrightarrow> m_vm_ptr s' = m_vm_ptr s \<and> m_vm_limit s' = m_vm_limit s \<and>
     m_vm_alloc_active s' = m_vm_alloc_active s \<and>
     m_gvm_user_block_count s' = m_gvm_user_block_count s \<and>
     m_gc_scratch_offset s' = m_gc_scratch_offset s \<and> m_gc_current_gen s' = m_gc_current_gen s \<and>
     m_in_gc s' = m_in_gc s \<and> m_gc_work_head s' = m_gc_work_head s \<and>
     m_gc_marked_count s' = m_gc_marked_count s"

definition alloc_post :: "gvm \<Rightarrow> nat \<Rightarrow> u8 \<Rightarrow> nat \<Rightarrow> gvm \<Rightarrow> bool" where
  "alloc_post s total_size kind p s' \<longleftrightarrow>
     heap_ok s' \<and> gc_frame s s' \<and> 8 dvd p \<and> gvm_live s p = None \<and>
     (\<forall>q. gvm_live s q \<noteq> None \<longrightarrow> headers s' (q - 16) = headers s (q - 16)) \<and>
     (\<exists>n. total_size \<le> n \<and> gvm_live s' = (gvm_live s)(p \<mapsto> (n, kind)) \<and>
        headers s' (p - 16) = live_header s n kind)"

lemma list_frame_gc: "list_frame s s' \<Longrightarrow> gc_frame s s'"
  by (simp add: list_frame_def gc_frame_def)

section \<open>Reissuing and splitting\<close>

lemma live_header_simps [simp]:
  "m_size (live_header s n k) = n" "m_kind (live_header s n k) = k"
  "m_magic (live_header s n k) = GvmMagic"
  by (simp_all add: live_header_def)

lemma live_header_frame: "gc_frame s s1 \<Longrightarrow> live_header s1 n k = live_header s n k"
  by (simp add: live_header_def gc_init_mark_for_alloc_def gc_frame_def)

lemma free_header_simps [simp]:
  "m_size (free_header n k) = n" "m_kind (free_header n k) = k"
  "m_magic (free_header n k) = GvmMagic"
  by (simp_all add: free_header_def)

lemma reissue_post:
  assumes I: "heap_inv s xs" and x: "x \<in> set xs" "blk_free s x"
    and n: "blk_size s x = n" "t \<le> n" and k: "\<not> gvm_kind_is_free kind"
    and s1: "s1 = gvm_free_unlink_anywhere s x n"
  shows "alloc_post s t kind (x + 16) (s1\<lparr>headers := (headers s1)(x := live_header s1 n kind)\<rparr>)"
proof -
  let ?s = "s1\<lparr>headers := (headers s1)(x := live_header s1 n kind)\<rparr>"
  have F: "free_lists s1 ({y\<in>set xs. blk_free s y} - {x})" and L: "list_frame s s1"
    using free_lists_unlink [of s "{y\<in>set xs. blk_free s y}" x n] I x n s1
    by (auto simp: heap_inv_def)
  have I': "heap_inv ?s xs" by (rule reissue_inv [OF I x F L]) (use n k in auto)
  have H: "headers s1 = headers s" using L by (simp add: list_frame_def)
  have "gvm_live ?s = (gvm_live s)(x + 16 \<mapsto> (n, kind))" "gvm_live s (x + 16) = None"
    "\<forall>q. gvm_live s q \<noteq> None \<longrightarrow> headers ?s (q - 16) = headers s (q - 16)"
    by (rule gvm_live_alloc [OF I I']; use k x H in auto)+
  moreover have "headers ?s (x + 16 - 16) = live_header s n kind"
    using live_header_frame [OF list_frame_gc [OF L]] by simp
  moreover have "gc_frame s ?s" using L by (simp add: gc_frame_def list_frame_def)
  moreover have "8 dvd x + 16" using heap_inv_mem(5) [OF I x(1)] by simp
  ultimately show ?thesis using I' n unfolding alloc_post_def heap_ok_def by blast
qed

lemma split_post:
  assumes I: "heap_inv s xs" and x: "x \<in> set xs" "blk_free s x"
    and n: "blk_size s x = t + k" "32 \<le> t" "8 dvd t" "32 \<le> k" and k: "\<not> gvm_kind_is_free kind"
    and s1: "s1 = gvm_free_unlink_anywhere s x (t + k)"
    and s2: "s2 = s1\<lparr>headers := (headers s)(x := live_header s1 t kind,
        x + t := free_header k ChunkKind_Free), tails := (tails s)(x + t - 4 := t, x + t + k - 4 := k)\<rparr>"
  shows "\<exists>s3. gvm_free_insert_anywhere s2 (x + t) k = Value s3 \<and> alloc_post s t kind (x + 16) s3"
proof -
  obtain ys zs where xs: "xs = ys @ x # zs" using x by (auto simp: in_set_conv_decomp)
  have k8: "8 dvd k" using heap_inv_mem(4) [OF I x(1)] n by (simp add: dvd_add_right_iff)
  have F: "free_lists s1 ({y\<in>set xs. blk_free s y} - {x})" and L: "list_frame s s1"
    using free_lists_unlink [of s "{y\<in>set xs. blk_free s y}" x "t + k"] I x n s1
    by (auto simp: heap_inv_def)
  have "\<exists>s3. gvm_free_insert_anywhere s2 (x + t) k = Value s3 \<and>
      heap_inv s3 (ys @ x # (x + t) # zs) \<and> list_frame s2 s3"
    by (rule split_inv [OF I [unfolded xs] x(2) n(1-4) k8 F [unfolded xs] L _ _ _ s2]) (use k in auto)
  then obtain s3 where s3: "gvm_free_insert_anywhere s2 (x + t) k = Value s3"
    "heap_inv s3 (ys @ x # (x + t) # zs)" "list_frame s2 s3" by blast
  have H: "headers s3 = headers s2" using s3 by (simp add: list_frame_def)
  have xt: "x + t \<notin> set xs"
    using tiles_disjoint [of "headers s" "m_vm_global s" xs "m_vm_limit s" x "x + t"] I x n
    by (auto simp: heap_inv_def seg_def)
  have fr: "gvm_kind_is_free ChunkKind_Free" by (simp add: gvm_kind_is_free_def gvm_consts)
  have "gvm_live s3 = (gvm_live s)(x + 16 \<mapsto> (t, kind))" "gvm_live s (x + 16) = None"
    "\<forall>q. gvm_live s q \<noteq> None \<longrightarrow> headers s3 (q - 16) = headers s (q - 16)"
    by (rule gvm_live_alloc [OF I s3(2)]; use k x H xs xt fr n in \<open>auto simp: s2\<close>)+
  moreover have "headers s3 (x + 16 - 16) = live_header s t kind"
    using live_header_frame [OF list_frame_gc [OF L]] n by (simp add: H s2)
  moreover have "gc_frame s s3" using L s3(3) by (simp add: gc_frame_def list_frame_def s2)
  moreover have "8 dvd x + 16" using heap_inv_mem(5) [OF I x(1)] by simp
  ultimately show ?thesis using s3 n unfolding alloc_post_def heap_ok_def by blast
qed

lemma take_from_list_post:
  assumes I: "heap_inv s xs" and x: "x \<in> set xs" "blk_free s x" "64 \<le> blk_size s x"
    and t: "t \<le> blk_size s x" "32 \<le> t" "8 dvd t" and k: "\<not> gvm_kind_is_free kind"
  shows "\<exists>s'. gvm_take_from_list s x t kind = Value (x + 16, s') \<and> alloc_post s t kind (x + 16) s'"
proof -
  let ?n = "blk_size s x"
  define s1 where "s1 = gvm_free_unlink_anywhere s x ?n"
  have rm: "gvm_free_list_remove s x = s1"
    using x by (simp add: s1_def gvm_free_unlink_anywhere_def gvm_consts)
  have L: "list_frame s s1"
    by (simp add: s1_def gvm_free_unlink_anywhere_def list_frame_ops)
  then have H: "headers s1 = headers s" "tails s1 = tails s" by (simp_all add: list_frame_def)
  show ?thesis
  proof (cases "?n \<ge> t + 32")
    case False
    then show ?thesis
      using reissue_post [OF I x(1,2) refl t(1) k s1_def]
      by (auto simp: gvm_take_from_list_def rm gvm_consts Let_def)
  next
    case True
    then have "?n = t + (?n - t) \<and> 32 \<le> ?n - t" by simp
    then obtain j where j: "?n = t + j" "32 \<le> j" by blast
    define s2 where "s2 = s1\<lparr>headers := (headers s)(x := live_header s1 t kind,
        x + t := free_header j ChunkKind_Free), tails := (tails s)(x + t - 4 := t, x + t + j - 4 := j)\<rparr>"
    obtain s3 where s3: "gvm_free_insert_anywhere s2 (x + t) j = Value s3"
      "alloc_post s t kind (x + 16) s3"
      using split_post [OF I x(1,2) j(1) t(2,3) j(2) k _ s2_def] s1_def j by auto
    have "gvm_take_from_list s x t kind = Value (x + 16, s3)"
      using True s3(1) j
      by (simp add: gvm_take_from_list_def rm gvm_write_tail_tag_def gvm_consts Let_def s2_def H
          ac_simps)
    with s3 show ?thesis by blast
  qed
qed

section \<open>The search and the bump path\<close>

lemma bin_reissue_post:
  assumes I: "heap_inv s xs" and b: "b < 4" "m_gvm_fastbins s b = x" "x \<noteq> nulloffset"
    and t: "t \<le> 32 + 8 * b" and k: "\<not> gvm_kind_is_free kind"
  shows "\<exists>s'. gvm_reissue_free_block (gvm_fastbin_unlink s x b) x kind = (x + 16, s') \<and>
    alloc_post s t kind (x + 16) s'"
proof -
  have x: "x \<in> set xs" "blk_free s x" and n: "blk_size s x = 32 + 8 * b"
    using free_lists_bin_head [of s "{y\<in>set xs. blk_free s y}" b] I b by (auto simp: heap_inv_def)
  have u: "gvm_fastbin_unlink s x b = gvm_free_unlink_anywhere s x (32 + 8 * b)"
    using b(1) by (simp add: gvm_free_unlink_anywhere_def bin_class_unique) (simp add: gvm_consts)
  have "headers (gvm_fastbin_unlink s x b) = headers s"
    using list_frame_ops(2) by (simp add: list_frame_def)
  then show ?thesis using reissue_post [OF I x n t k u] n
    by (simp add: gvm_reissue_free_block_def gvm_consts)
qed

lemma search_free_post:
  assumes I: "heap_inv s xs" and t: "32 \<le> t" "8 dvd t" and k: "\<not> gvm_kind_is_free kind"
  obtains (found) p s' where "gvm_search_free s t kind = Value (Some (p, s'))" "alloc_post s t kind p s'"
  | (none) "gvm_search_free s t kind = Value None"
    "\<forall>x\<in>set xs. blk_free s x \<longrightarrow> 64 \<le> blk_size s x \<longrightarrow> blk_size s x < t"
proof -
  let ?b = "gvm_bin_class_for_size t"
  have b: "t < 64 \<Longrightarrow> ?b < 4 \<and> 32 + 8 * ?b = t" using bin_class [of t] t by simp
  consider (bin) "t < 64" "m_gvm_fastbins s ?b \<noteq> nulloffset"
    | (above) "t < 64" "m_gvm_fastbins s ?b = nulloffset" "?b + 1 < 4"
        "m_gvm_fastbins s (?b + 1) \<noteq> nulloffset"
    | (walk) "\<not> (t < 64 \<and> m_gvm_fastbins s ?b \<noteq> nulloffset)"
        "\<not> (t < 64 \<and> ?b + 1 < 4 \<and> m_gvm_fastbins s (?b + 1) \<noteq> nulloffset)" by blast
  then show thesis
  proof cases
    case bin
    then obtain s' where "gvm_reissue_free_block (gvm_fastbin_unlink s (m_gvm_fastbins s ?b) ?b)
        (m_gvm_fastbins s ?b) kind = (m_gvm_fastbins s ?b + 16, s')"
      "alloc_post s t kind (m_gvm_fastbins s ?b + 16) s'"
      using bin_reissue_post [OF I, of ?b _ t kind] b k by auto
    then show thesis using found bin
      by (simp add: gvm_search_free_def Let_def GvmFastBinThreshold_def)
  next
    case above
    let ?c = "?b + 1"
    have "t \<le> 32 + 8 * ?c" using b above(1) by simp
    then obtain s' where "gvm_reissue_free_block (gvm_fastbin_unlink s (m_gvm_fastbins s ?c) ?c)
        (m_gvm_fastbins s ?c) kind = (m_gvm_fastbins s ?c + 16, s')"
      "alloc_post s t kind (m_gvm_fastbins s ?c + 16) s'"
      using bin_reissue_post [OF I, of ?c _ t kind] above k by auto
    then show thesis using found above
      by (simp add: gvm_search_free_def Let_def GvmFastBinThreshold_def GvmFastBinCount_def)
  next
    case walk
    have F: "free_lists s {y\<in>set xs. blk_free s y}" using I by (simp add: heap_inv_def)
    obtain x where x: "first_fit s t (m_gvm_free_head s) = Some x"
      "x = nulloffset \<Longrightarrow> \<forall>y\<in>{y\<in>set xs. blk_free s y}. 64 \<le> blk_size s y \<longrightarrow> blk_size s y < t"
      "x \<noteq> nulloffset \<Longrightarrow> x \<in> {y\<in>set xs. blk_free s y} \<and> t \<le> blk_size s x \<and> 64 \<le> blk_size s x"
      using free_lists_first_fit [OF F, of t] by blast
    have W: "gvm_search_free s t kind = (if x = nulloffset then Value None
        else bind_outcome (gvm_take_from_list s x t kind) (\<lambda>r. Value (Some r)))"
      using walk x(1)
      by (auto simp: gvm_search_free_def Let_def GvmFastBinThreshold_def GvmFastBinCount_def)
    show thesis
    proof (cases "x = nulloffset")
      case True
      then show thesis using none W x(2) by auto
    next
      case False
      then obtain s' where "gvm_take_from_list s x t kind = Value (x + 16, s')"
        "alloc_post s t kind (x + 16) s'"
        using take_from_list_post [OF I _ _ _ _ t k, of x] x(3) by auto
      then show thesis using found W False by simp
    qed
  qed
qed

text \<open>
  A region in which a block of \<open>n\<close> bytes cannot be placed: the gap is too small, and the free blocks that
  would be large enough are all below the fastbin threshold and more than one class above \<open>n\<close>, where
  the search does not look.
\<close>

definition gvm_exhausted :: "gvm \<Rightarrow> nat \<Rightarrow> bool" where
  "gvm_exhausted s n \<longleftrightarrow> \<not> gvm_bump_fits s n \<and>
     (\<exists>vs. gvm_for_each s = Value vs \<and> (\<forall>v\<in>set vs. v_is_free v \<longrightarrow>
        v_total_size v < n \<or> n + 8 < v_total_size v \<and> v_total_size v < GvmFastBinThreshold))"

lemma empty_bin:
  assumes "free_lists s F" "b < 4" "m_gvm_fastbins s b = nulloffset" "x \<in> F"
  shows "blk_size s x \<noteq> 32 + 8 * b"
proof
  assume x: "blk_size s x = 32 + 8 * b"
  obtain fl bs where S: "free_struct s F fl bs" using assms(1) by (auto simp: free_lists_def)
  then have "dlist (flinks s) nulloffset (bs b)" "set (bs b) = {x\<in>F. blk_size s x = 32 + 8 * b}" "\<forall>x\<in>F. x \<noteq> nulloffset"
    using assms(2,3) by (auto simp: free_struct_def)
  moreover from this have "bs b = []" by (cases "bs b") (auto simp: dlist_def)
  ultimately show False using x assms(4) by auto
qed

lemma search_none_exhausted:
  assumes I: "heap_inv s xs" and t: "32 \<le> t" "8 dvd t" and k: "\<not> gvm_kind_is_free kind"
    and none: "gvm_search_free s t kind = Value None" "\<not> gvm_bump_fits s t"
  shows "gvm_exhausted s t"
proof -
  let ?b = "gvm_bin_class_for_size t"
  have F: "free_lists s {y\<in>set xs. blk_free s y}" using I by (simp add: heap_inv_def)
  have b: "t < 64 \<Longrightarrow> ?b < 4 \<and> 32 + 8 * ?b = t" using bin_class [of t] t by simp
  have large: "\<forall>x\<in>set xs. blk_free s x \<longrightarrow> 64 \<le> blk_size s x \<longrightarrow> blk_size s x < t"
    using I t k by (cases rule: search_free_post) (use none in auto)
  have bins: "t < 64 \<Longrightarrow> m_gvm_fastbins s ?b = nulloffset \<and> (?b + 1 < 4 \<longrightarrow> m_gvm_fastbins s (?b + 1) = nulloffset)"
    using none(1) by (auto simp: gvm_search_free_def Let_def GvmFastBinThreshold_def GvmFastBinCount_def split: if_splits)
  have "blk_size s x < t \<or> t + 8 < blk_size s x \<and> blk_size s x < 64" if x: "x \<in> set xs" "blk_free s x" for x
  proof (cases "64 \<le> blk_size s x")
    case True
    then show ?thesis using large x by simp
  next
    case False
    have d: "8 dvd blk_size s x" using F x by (auto simp: free_lists_def free_struct_def)
    show ?thesis
    proof (cases "t \<le> blk_size s x")
      case True
      then have t64: "t < 64" using False by simp
      have "blk_size s x \<noteq> t" using empty_bin [OF F, of ?b x] b [OF t64] bins [OF t64] x by auto
      moreover have "blk_size s x \<noteq> t + 8"
        using empty_bin [OF F, of "?b + 1" x] b [OF t64] bins [OF t64] x False by auto
      ultimately show ?thesis using True False d t(2) by (auto elim!: dvdE)
    qed simp
  qed
  then show ?thesis using none(2) for_each_inv [OF I]
    by (simp add: gvm_exhausted_def visit_of_def GvmFastBinThreshold_def)
qed

lemma bump_post:
  assumes I: "heap_inv s xs" and t: "32 \<le> t" "8 dvd t" and k: "\<not> gvm_kind_is_free kind"
    and a: "m_vm_alloc_active s = None"
  shows "if gvm_bump_fits s t
    then \<exists>p s'. gvm_bump s t kind = Value (p, s') \<and> alloc_post s t kind p s'
    else gvm_bump s t kind = Raise VMFull"
proof -
  have g8: "8 dvd m_vm_global s"
    using I tiles_start_dvd by (auto simp: heap_inv_def seg_def)
  have al: "align_down 4 (int (m_vm_global s) - int t) = int (m_vm_global s) - int t"
  proof (rule align_down_id)
    have "(8::int) dvd int (m_vm_global s)" "(8::int) dvd int t"
      using g8 t by (metis of_nat_dvd_iff of_nat_numeral)+
    then have "(8::int) dvd int (m_vm_global s) - int t" by simp
    then show "int 4 dvd int (m_vm_global s) - int t" by (rule dvd_trans [rotated]) simp
  qed
  show ?thesis
  proof (cases "gvm_bump_fits s t")
    case False
    then show ?thesis using a
      by (simp add: gvm_bump_fits_def gvm_bump_def vm_alloc_global_ptr_def Let_def)
  next
    case True
    then obtain g where g: "m_vm_global s = g + t" "m_vm_ptr s \<le> g"
      using al by (intro that [of "m_vm_global s - t"]) (auto simp: gvm_bump_fits_def)
    define s0 where "s0 = (let h1 = s\<lparr>m_vm_global := g\<rparr>
      in if m_vm_temp_ptr h1 > g then h1\<lparr>m_vm_temp_ptr := g\<rparr> else h1)"
    have r0: "vm_alloc_global_ptr s 4 t = Value (g, s0)"
      using a al g by (simp add: vm_alloc_global_ptr_def s0_def Let_def)
    define s1 where "s1 = gvm_write_tail_tag
      (s0\<lparr>headers := (headers s0)(g := live_header s0 t kind)\<rparr>) g t"
    have r: "gvm_bump s t kind = Value (g + 16, s1)"
      by (simp add: gvm_bump_def r0 s1_def gvm_consts)
    have "vm_layout s0" by (rule vm_layout_alloc_global [OF _ _ r0]) (use I in \<open>auto simp: heap_inv_def\<close>)
    then have V: "vm_layout s1"
      by (auto simp: s1_def gvm_write_tail_tag_def vm_layout_def split: option.splits)
    have e: "headers s1 = (headers s)(g := live_header s0 t kind)"
      "tails s1 = (tails s)(g + t - 4 := t)"
      by (simp_all add: s1_def s0_def gvm_write_tail_tag_def Let_def gvm_consts)
    have I1: "heap_inv s1 (g # xs)"
      by (rule bump_inv [OF I t g(1) V _ _ _ e]) (use k in \<open>auto simp: s1_def s0_def Let_def gvm_write_tail_tag_def\<close>)
    have gx: "g \<notin> set xs" using heap_inv_mem(1) [OF I, of g] g t by auto
    have "gvm_live s1 = (gvm_live s)(g + 16 \<mapsto> (t, kind))" "gvm_live s (g + 16) = None"
      "\<forall>q. gvm_live s q \<noteq> None \<longrightarrow> headers s1 (q - 16) = headers s (q - 16)"
      by (rule gvm_live_alloc [OF I I1]; use k gx e in auto)+
    moreover have "headers s1 (g + 16 - 16) = live_header s t kind"
      by (simp add: e live_header_def gc_init_mark_for_alloc_def s0_def Let_def)
    moreover have "gc_frame s s1"
      by (simp add: gc_frame_def s1_def s0_def gvm_write_tail_tag_def Let_def)
    moreover have "8 dvd g + 16" using g8 g t by (simp add: dvd_add_left_iff)
    ultimately have "alloc_post s t kind (g + 16) s1"
      using I1 unfolding alloc_post_def heap_ok_def by blast
    with True r show ?thesis by auto
  qed
qed

section \<open>Allocation with a collector\<close>

text \<open>
  The invariant at the public entry points: a well-formed heap whose user-block counter counts
  the live blocks other than the scratch block, and in which a live scratch block is exactly the
  one \<^verbatim>\<open>m_gc_scratch_offset\<close> names.
\<close>

definition gvm_user_blocks :: "gvm \<Rightarrow> nat set" where
  "gvm_user_blocks s = {p. \<exists>n k. gvm_live s p = Some (n, k) \<and> k \<noteq> ChunkKind_GcScratch}"

definition gvm_ok :: "gvm \<Rightarrow> bool" where
  "gvm_ok s \<longleftrightarrow> heap_ok s \<and> m_gvm_user_block_count s = card (gvm_user_blocks s) \<and>
     (\<forall>p. m_gc_scratch_offset s = p \<and> p \<noteq> nulloffset \<longleftrightarrow>
        (\<exists>n. gvm_live s p = Some (n, ChunkKind_GcScratch)))"

text \<open>
  What the allocator relies on when it calls the collector: from a state satisfying \<open>ready\<close> the
  collector returns, keeps the invariant, leaves the streaming allocation alone, makes no scratch
  block, only removes live blocks and, unless one is under way already, leaves no garbage; and a new
  scratch block of the initial size does not make a state unready.
\<close>

definition collected :: "gvm \<Rightarrow> gvm \<Rightarrow> bool" where
  "collected s s' \<longleftrightarrow> gvm_ok s' \<and> m_vm_alloc_active s' = m_vm_alloc_active s \<and>
     m_vm_ptr s' = m_vm_ptr s \<and> m_vm_limit s' = m_vm_limit s \<and> m_in_gc s' = m_in_gc s \<and>
     (m_gc_scratch_offset s = nulloffset \<longrightarrow> m_gc_scratch_offset s' = nulloffset) \<and>
     gvm_live s' \<subseteq>\<^sub>m gvm_live s"

text \<open>The blocks a client can still reach are kept as they are, and stay reachable.\<close>

definition kept :: "(gvm \<Rightarrow> nat set) \<Rightarrow> gvm \<Rightarrow> gvm \<Rightarrow> bool" where
  "kept reach s s' \<longleftrightarrow> reach s \<subseteq> reach s' \<and> (\<forall>q\<in>reach s. gvm_live s' q = gvm_live s q)"

lemma kept_refl [simp]: "kept reach s s"
  by (simp add: kept_def)

lemma kept_trans: "kept reach s t \<Longrightarrow> kept reach t u \<Longrightarrow> kept reach s u"
  by (auto simp: kept_def)

locale gvm_collector =
  fixes gc :: "gvm \<Rightarrow> gvm outcome" and ready :: "gvm \<Rightarrow> bool" and reach :: "gvm \<Rightarrow> nat set"
  assumes gc_collects: "gvm_ok s \<Longrightarrow> ready s \<Longrightarrow>
      \<exists>s'. gc s = Value s' \<and> collected s s' \<and> ready s' \<and> kept reach s s' \<and>
        (\<not> m_in_gc s \<longrightarrow> gvm_user_blocks s' \<subseteq> reach s')"
    and ready_scratch: "ready s \<Longrightarrow> alloc_post s t ChunkKind_GcScratch p s' \<Longrightarrow> 4120 \<le> t \<Longrightarrow>
      ready (s'\<lparr>m_gc_scratch_offset := p\<rparr>) \<and> reach s \<subseteq> reach (s'\<lparr>m_gc_scratch_offset := p\<rparr>)"
    and reach_live: "q \<in> reach s \<Longrightarrow> gvm_live s q \<noteq> None"
begin

lemma alloc_impl_refines:
  assumes h: "gvm_ok s" "ready s" and a: "m_vm_alloc_active s = None"
    and n: "gvm_total_size payload_size = Value t" and k: "\<not> gvm_kind_is_free kind"
  obtains (ok) s0 p s' where "gvm_alloc_impl gc s payload_size kind = Value (p, s')"
      "s0 = s \<or> gc s = Value s0 \<and> collected s s0 \<and> ready s0 \<and> kept reach s s0" "alloc_post s0 t kind p s'"
  | (full) s0 where "gvm_alloc_impl gc s payload_size kind = Raise VMFull"
      "if m_in_gc s then s0 = s
       else gc s = Value s0 \<and> collected s s0 \<and> kept reach s s0 \<and> gvm_user_blocks s0 \<subseteq> reach s0"
      "gvm_exhausted s0 t"
proof -
  have p: "payload_size \<le> vm_size_max - 27"
    using n gvm_total_size_raise [of payload_size] by fastforce
  have t: "32 \<le> t" "8 dvd t" using gvm_total_size_value [OF p] n by simp_all
  obtain xs where I: "heap_inv s xs" using h by (auto simp: gvm_ok_def heap_ok_def)
  from I t k show thesis
  proof (cases rule: search_free_post)
    case (found p s')
    then show thesis using ok [of p s' s] n by (simp add: gvm_alloc_impl_def)
  next
    case none
    note A = bump_post [OF I t k a]
    show thesis
    proof (cases "gvm_bump_fits s t \<or> m_in_gc s")
      case True
      then show thesis using A none n ok [of _ _ s] full [of s] search_none_exhausted [OF I t k]
        by (cases "gvm_bump_fits s t") (auto simp: gvm_alloc_impl_def)
    next
      case False
      obtain s0 where g: "gc s = Value s0" "collected s s0" "ready s0" "kept reach s s0" "gvm_user_blocks s0 \<subseteq> reach s0"
        using gc_collects [OF h] False by blast
      then obtain ys where I0: "heap_inv s0 ys" and a0: "m_vm_alloc_active s0 = None"
        using a by (auto simp: collected_def gvm_ok_def heap_ok_def)
      have run: "gvm_alloc_impl gc s payload_size kind =
          bind_outcome (gvm_search_free s0 t kind) (\<lambda>found1.
            case found1 of Some r \<Rightarrow> Value r | None \<Rightarrow> gvm_bump s0 t kind)"
        using False none g n by (simp add: gvm_alloc_impl_def)
      from I0 t k show thesis
      proof (cases rule: search_free_post)
        case (found p s')
        then show thesis using ok [of p s' s0] run g by simp
      next
        case none
        then show thesis using ok [of _ _ s0] full [of s0] run g bump_post [OF I0 t k a0] search_none_exhausted [OF I0 t k]
            False
          by (cases "gvm_bump_fits s0 t") auto
      qed
    qed
  qed
qed

end

end
