(* ===== verification/Gvm_Free.thy ===== *)
theory Gvm_Free
  imports Gvm_Alloc
begin

text \<open>
  Deallocation in \<^verbatim>\<open>src/gvm_heap.inl\<close>: the two coalescing steps find exactly the free
  neighbours, the merged block goes back to the free structures or to the gap below the heap,
  and the abstract heap loses exactly the entry that was freed. The theory ends with the public
  \<open>gvm_free\<close> and its scratch-block bookkeeping.
\<close>

section \<open>Coalescing\<close>

lemma kind_or_free [simp]: "gvm_kind_is_free (k OR GvmFreeFlag)"
proof -
  have "(k OR GvmFreeFlag) AND GvmFreeFlag = GvmFreeFlag" by (rule word_ao_absorbs)
  moreover have "GvmFreeFlag \<noteq> 0" by (simp add: GvmFreeFlag_def)
  ultimately show ?thesis by (simp add: gvm_kind_is_free_def)
qed

lemma seg_span: "seg H T a xs b \<Longrightarrow> xs \<noteq> [] \<Longrightarrow> \<exists>n. b = a + n \<and> 32 \<le> n \<and> 8 dvd n"
proof (induction xs arbitrary: a)
  case (Cons x xs)
  show ?case
  proof (cases "xs = []")
    case True
    then show ?thesis using Cons.prems by (auto simp: seg_Cons)
  next
    case False
    then obtain n where "b = a + m_size (H a) + n" "32 \<le> n" "8 dvd n"
      using Cons by (auto simp: seg_Cons)
    then show ?thesis using Cons.prems
      by (intro exI [of _ "m_size (H a) + n"]) (simp add: seg_Cons)
  qed
qed simp

lemma coalesce_next_run:
  assumes I: "heap_inv s (us @ x # vs)" and x: "\<not> blk_free s x"
  obtains ns zs n s1 where "vs = ns @ zs" "gvm_coalesce_next s x (blk_size s x) = (n, s1)"
    "\<forall>y\<in>set ns. blk_free s y" "coalesced (blk_free s) True zs"
    "seg (headers s) (tails s) x (x # ns) (x + n)"
    "free_lists s1 ({y\<in>set (us @ x # vs). blk_free s y} - set ns)" "list_frame s s1"
proof -
  let ?F = "{y\<in>set (us @ x # vs). blk_free s y}"
  have S: "seg (headers s) (tails s) x (x # vs) (m_vm_limit s)"
    using I by (auto simp: heap_inv_def seg_append seg_Cons)
  have c: "coalesced (blk_free s) False vs" using I x by (simp add: heap_inv_def coalesced_append)
  have F: "free_lists s ?F" using I by (simp add: heap_inv_def)
  show thesis
  proof (cases "vs \<noteq> [] \<and> blk_free s (hd vs)")
    case False
    have "gvm_coalesce_next s x (blk_size s x) = (blk_size s x, s)"
      using S False by (cases vs) (auto simp: gvm_coalesce_next_def seg_Cons Let_def)
    moreover have "coalesced (blk_free s) True vs" using c False by (cases vs) auto
    ultimately show thesis using that [of "[]" vs "blk_size s x" s] S F by (simp add: seg_Cons)
  next
    case True
    then obtain v zs where vs: "vs = v # zs" and v: "blk_free s v" by (cases vs) auto
    from S vs have ve: "v = x + blk_size s x" and lim: "v < m_vm_limit s"
      using tiles_mem [of "headers s" x "x # vs" "m_vm_limit s" v] by (auto simp: seg_def)
    let ?s1 = "gvm_free_unlink_anywhere s v (blk_size s v)"
    have "gvm_coalesce_next s x (blk_size s x) = (blk_size s x + blk_size s v, ?s1)"
      using v lim by (simp add: gvm_coalesce_next_def ve Let_def)
    moreover have "coalesced (blk_free s) True zs" using c vs v by simp
    moreover have "seg (headers s) (tails s) x [x, v] (x + (blk_size s x + blk_size s v))"
      using S vs by (simp add: seg_Cons add.assoc)
    ultimately show thesis
      using that [of "[v]" zs "blk_size s x + blk_size s v" ?s1] vs v
        free_lists_unlink [OF F, of v "blk_size s v"] by simp
  qed
qed

lemma coalesce_prev_run:
  assumes I: "heap_inv s (us @ x # vs)" and F: "free_lists s1 F" "list_frame s s1"
    and us: "\<And>y. y \<in> set us \<Longrightarrow> blk_free s y \<Longrightarrow> y \<in> F"
  obtains ys ps m n kind s2 where "us = ys @ ps" "gvm_coalesce_prev s1 x n1 k = (m, n, kind, s2)"
    "\<forall>y\<in>set ps. blk_free s y" "ys = [] \<or> \<not> blk_free s (last ys)" "m + n = x + n1"
    "seg (headers s) (tails s) m ps x" "free_lists s2 (F - set ps)" "list_frame s s2"
proof -
  have H: "headers s1 = headers s" "tails s1 = tails s" "m_vm_global s1 = m_vm_global s"
    using F(2) by (simp_all add: list_frame_def)
  have S: "seg (headers s) (tails s) (m_vm_global s) us x"
    using I by (auto simp: heap_inv_def seg_append seg_Cons)
  show thesis
  proof (cases us rule: rev_cases)
    case Nil
    then have "gvm_coalesce_prev s1 x n1 k = (x, n1, k, s1)"
      using S by (simp add: gvm_coalesce_prev_def H)
    then show thesis using that [of "[]" "[]" x n1 k s1] Nil F by simp
  next
    case (snoc ys p)
    let ?n = "blk_size s p"
    have P: "seg (headers s) (tails s) p [p] x" "x = p + ?n" "m_vm_global s \<le> p" "32 \<le> ?n" "8 dvd ?n"
      "m_magic (headers s p) = GvmMagic" "tails s (x - 4) = ?n"
      using S snoc tiles_le [of "headers s" "m_vm_global s" ys p]
      by (auto simp: seg_append seg_Cons) (auto simp: seg_def)
    have run: "gvm_coalesce_prev s1 x n1 k =
        (if blk_free s p then (p, n1 + ?n, m_kind (headers s p), gvm_free_unlink_anywhere s1 p ?n)
         else (x, n1, k, s1))"
    proof -
      have "?n \<le> x - m_vm_global s" "x - ?n = p" "x > m_vm_global s" "?n \<noteq> 0" using P by auto
      with P(5-) show ?thesis by (simp add: gvm_coalesce_prev_def H gvm_consts Let_def)
    qed
    show thesis
    proof (cases "blk_free s p")
      case False
      then show thesis using that [of us "[]" x n1 k s1] run snoc F by simp
    next
      case True
      have c: "ys = [] \<or> \<not> blk_free s (last ys)"
        using I snoc True by (auto simp: heap_inv_def coalesced_append split: if_splits)
      let ?s2 = "gvm_free_unlink_anywhere s1 p ?n"
      have "list_frame s ?s2" using free_lists_unlink(2) [OF F(1), of p ?n] us [of p] snoc True F(2) H
        by (simp add: list_frame_def)
      moreover have "free_lists ?s2 (F - {p})"
        using free_lists_unlink(1) [OF F(1), of p ?n] us [of p] snoc True H by simp
      ultimately show thesis
        using that [of ys "[p]" p "n1 + ?n" "m_kind (headers s p)" ?s2] run snoc True P(1,2) c by simp
    qed
  qed
qed

section \<open>Freeing one block\<close>

definition free_post :: "gvm \<Rightarrow> nat \<Rightarrow> gvm \<Rightarrow> bool" where
  "free_post s p s' \<longleftrightarrow> heap_ok s' \<and> gc_frame s s' \<and> gvm_live s' = (gvm_live s)(p := None) \<and>
     (\<forall>q. q \<noteq> p \<longrightarrow> gvm_live s q \<noteq> None \<longrightarrow> headers s' (q - 16) = headers s (q - 16)) \<and>
     m_vm_global s \<le> m_vm_global s' \<and> m_vm_temp_ptr s' = m_vm_temp_ptr s"

lemma free_post_inv:
  assumes I: "heap_inv s (ys @ ps @ x # ns @ zs)" "heap_inv s' (ys @ ms @ zs)"
    and f: "\<forall>y\<in>set (ps @ ns). blk_free s y" "\<forall>y\<in>set ms. blk_free s' y"
      "\<forall>y\<in>set ms. y = x \<or> y \<in> set ps"
    and h: "\<And>y. y \<notin> set ms \<Longrightarrow> headers s' y = headers s y"
    and g: "gc_frame s s'" "m_vm_global s \<le> m_vm_global s'" "m_vm_temp_ptr s' = m_vm_temp_ptr s"
  shows "free_post s (x + 16) s'"
proof -
  have d: "distinct (ys @ ps @ x # ns @ zs)" "distinct (ys @ ms @ zs)"
    using heap_inv_distinct [OF I(1)] heap_inv_distinct [OF I(2)] by blast+
  have same: "headers s' y = headers s y"
    if "y \<noteq> x" "y \<in> set (ys @ ps @ x # ns @ zs)" "\<not> blk_free s y" for y
    using that f h by auto
  have live: "y \<in> set (ys @ ms @ zs) \<and> \<not> blk_free s' y \<longleftrightarrow>
      y \<in> set (ys @ ps @ x # ns @ zs) \<and> \<not> blk_free s y" if "y \<noteq> x" for y
  proof (cases "y \<in> set ms")
    case True
    with f that have "y \<in> set ps" "blk_free s' y" by auto
    with f d True show ?thesis by auto
  next
    case False
    then show ?thesis using h [of y] f that by auto
  qed
  have "gvm_live s' = (gvm_live s)(x + 16 := None)"
    by (rule gvm_live_free [OF I]) (use live same f d in auto)
  moreover have "headers s' (q - 16) = headers s (q - 16)"
    if "q \<noteq> x + 16" "gvm_live s q \<noteq> None" for q
    using that same [of "q - 16"] by (auto simp: gvm_live_inv [OF I(1)] split: if_splits)
  ultimately show ?thesis using I g by (auto simp: free_post_def heap_ok_def)
qed

lemma free_impl_run:
  assumes I: "heap_inv s xs" and x: "x \<in> set xs" "\<not> blk_free s x"
  shows "\<exists>s'. gvm_free_impl s (x + 16) = Value s' \<and> free_post s (x + 16) s'"
proof -
  obtain us vs where xs: "xs = us @ x # vs" using x by (auto simp: in_set_conv_decomp)
  note I' = I [unfolded xs]
  obtain ns zs n1 s1 where N: "vs = ns @ zs" "gvm_coalesce_next s x (blk_size s x) = (n1, s1)"
    "\<forall>y\<in>set ns. blk_free s y" "coalesced (blk_free s) True zs"
    "seg (headers s) (tails s) x (x # ns) (x + n1)"
    "free_lists s1 ({y\<in>set (us @ x # vs). blk_free s y} - set ns)" "list_frame s s1"
    by (rule coalesce_next_run [OF I' x(2)])
  have d: "distinct (us @ x # vs)" using heap_inv_distinct [OF I'] .
  obtain ys ps m n kind s2 where P: "us = ys @ ps"
    "gvm_coalesce_prev s1 x n1 (m_kind (headers s x)) = (m, n, kind, s2)"
    "\<forall>y\<in>set ps. blk_free s y" "ys = [] \<or> \<not> blk_free s (last ys)" "m + n = x + n1"
    "seg (headers s) (tails s) m ps x"
    "free_lists s2 ({y\<in>set (us @ x # vs). blk_free s y} - set ns - set ps)" "list_frame s s2"
    by (rule coalesce_prev_run [OF I' N(6,7), of n1 "m_kind (headers s x)"]) (use d N in auto)
  let ?ms = "ps @ x # ns"
  have I2: "heap_inv s (ys @ ?ms @ zs)" using I' P(1) N(1) by simp
  have M: "seg (headers s) (tails s) m ?ms (m + n)"
    unfolding seg_append P(5) using P(6) N(5) by blast
  have n: "32 \<le> n" "8 dvd n" using seg_span [OF M] by auto
  have F: "free_lists s2 {y\<in>set (ys @ zs). blk_free s y}"
  proof -
    have "{y\<in>set (us @ x # vs). blk_free s y} - set ns - set ps = {y\<in>set (ys @ zs). blk_free s y}"
      using d x N(1) P(1) by auto
    then show ?thesis using P(7) by simp
  qed
  have H: "headers s2 = headers s" "tails s2 = tails s" "m_vm_global s2 = m_vm_global s"
    using P(8) by (simp_all add: list_frame_def)
  note A = heap_inv_around [OF I2 M]
  have bottom: "m = m_vm_global s \<longleftrightarrow> ys = []"
    using A(1) tiles_empty_iff by (fastforce simp: seg_def)
  have run: "gvm_free_impl s (x + 16) =
    (if ys = [] then Value (s2\<lparr>m_vm_global := m_vm_global s2 + n\<rparr>)
     else gvm_free_insert_anywhere
       (s2\<lparr>headers := (headers s)(m := free_header n (kind OR GvmFreeFlag)),
           tails := (tails s)(m + n - 4 := n)\<rparr>) m n)"
    using x N(2) P(2) bottom
    by (simp add: gvm_free_impl_def gvm_write_tail_tag_def H Let_def gvm_consts)
  show ?thesis
  proof (cases "ys = []")
    case True
    let ?s = "s2\<lparr>m_vm_global := m_vm_global s2 + n\<rparr>"
    have "heap_inv ?s zs"
      by (rule giveback_inv [OF _ M _ _ P(8) N(4)]) (use I2 True F in auto)
    then have "free_post s (x + 16) ?s"
      by (intro free_post_inv [of s ys ps x ns zs _ "[]"])
        (use True I2 P(3,8) N(3) H in \<open>auto simp: gc_frame_def list_frame_def\<close>)
    with run True show ?thesis by simp
  next
    case False
    obtain s3 where s3: "gvm_free_insert_anywhere
       (s2\<lparr>headers := (headers s)(m := free_header n (kind OR GvmFreeFlag)),
           tails := (tails s)(m + n - 4 := n)\<rparr>) m n = Value s3"
      "heap_inv s3 (ys @ m # zs)"
      "list_frame (s2\<lparr>headers := (headers s)(m := free_header n (kind OR GvmFreeFlag)),
           tails := (tails s)(m + n - 4 := n)\<rparr>) s3"
      using merge_inv [OF I2 M _ n F P(8) kind_or_free False _ N(4) refl] False P(4) by auto
    have mx: "m = x \<or> m \<in> set ps" using P(6) by (cases ps) (auto simp: seg_Cons)
    have "free_post s (x + 16) s3"
      by (rule free_post_inv [of s ys ps x ns zs _ "[m]"])
        (use I2 s3 P(3,8) N(3) H mx in \<open>auto simp: gc_frame_def list_frame_def\<close>)
    with run False s3 show ?thesis by simp
  qed
qed

end
