(* ===== verification/Gvm_Public.thy ===== *)
theory Gvm_Public
  imports Gvm_Free
begin

text \<open>
  The public entry points \<^verbatim>\<open>gvm_alloc\<close>, \<^verbatim>\<open>gvm_alloc_n\<close> and \<^verbatim>\<open>gvm_free\<close> of \<^verbatim>\<open>src/gvm_heap.inl\<close>
  with the life cycle of the GC scratch block: the user-block counter stays exact, and freeing
  the last user block empties the region. Allocation is proved against the contract
  \<open>gvm_collector\<close> of the collector it may call.
\<close>

section \<open>The abstract heap is finite\<close>

lemma gvm_live_SomeE:
  assumes "heap_inv s xs" "gvm_live s p = Some (n, k)"
  obtains x where "x \<in> set xs" "p = x + 16" "\<not> blk_free s x" "n = blk_size s x"
    "k = m_kind (headers s x)"
  using assms that [of "p - 16"] by (auto simp: gvm_live_inv [OF assms(1)] split: if_splits)

lemma finite_live: "heap_ok s \<Longrightarrow> finite {p. gvm_live s p \<noteq> None}"
proof -
  assume "heap_ok s"
  then obtain xs where "heap_inv s xs" by (auto simp: heap_ok_def)
  then have "{p. gvm_live s p \<noteq> None} \<subseteq> (\<lambda>x. x + 16) ` set xs" by (auto elim!: gvm_live_SomeE)
  then show ?thesis using finite_subset by blast
qed

lemma finite_user_blocks: "heap_ok s \<Longrightarrow> finite (gvm_user_blocks s)"
  by (rule finite_subset [OF _ finite_live]) (auto simp: gvm_user_blocks_def)

lemma live_nonnull: "heap_ok s \<Longrightarrow> gvm_live s nulloffset = None"
  by (auto simp: heap_ok_def gvm_live_inv nulloffset_def)

text \<open>An empty abstract heap means an idle region: the whole of it is back in the gap.\<close>

lemma no_live_idle:
  assumes "heap_inv s xs" "gvm_live s = Map.empty"
  shows "xs = []" "m_vm_global s = m_vm_limit s"
proof -
  show "xs = []"
  proof (rule ccontr)
    assume "xs \<noteq> []"
    then obtain x ys where xs: "xs = x # ys" by (cases xs) auto
    then have "\<not> blk_free s x" using assms(1) by (simp add: heap_inv_def)
    then have "gvm_live s (x + 16) \<noteq> None" using xs by (simp add: gvm_live_inv [OF assms(1)])
    then show False using assms(2) by simp
  qed
  then show "m_vm_global s = m_vm_limit s" using assms(1) by (simp add: heap_inv_def)
qed

section \<open>Freeing\<close>

text \<open>What a sweep may rely on across a call of \<open>gvm_free\<close>.\<close>

definition gvm_free_post :: "gvm \<Rightarrow> nat \<Rightarrow> gvm \<Rightarrow> bool" where
  "gvm_free_post s p s' \<longleftrightarrow> gvm_ok s' \<and>
     gvm_live s' = (if gvm_user_blocks s = {p} then Map.empty else (gvm_live s)(p := None)) \<and>
     (\<forall>q. gvm_live s' q \<noteq> None \<longrightarrow> headers s' (q - 16) = headers s (q - 16)) \<and>
     m_vm_ptr s' = m_vm_ptr s \<and> m_vm_limit s' = m_vm_limit s \<and> m_vm_temp_ptr s' = m_vm_temp_ptr s \<and>
     m_vm_global s \<le> m_vm_global s' \<and> m_vm_alloc_active s' = m_vm_alloc_active s \<and>
     m_gc_current_gen s' = m_gc_current_gen s \<and> m_in_gc s' = m_in_gc s \<and>
     m_gc_work_head s' = m_gc_work_head s \<and> m_gc_marked_count s' = m_gc_marked_count s \<and>
     (m_gc_scratch_offset s = nulloffset \<longrightarrow> m_gc_scratch_offset s' = nulloffset)"

lemma free_impl_live:
  assumes h: "heap_ok s" and p: "gvm_live s p = Some (n, k)"
  shows "m_kind (headers s (p - 16)) = k"
    and "\<exists>s'. gvm_free_impl s p = Value s' \<and> free_post s p s'"
proof -
  obtain xs where I: "heap_inv s xs" using h by (auto simp: heap_ok_def)
  then obtain x where x: "x \<in> set xs" "p = x + 16" "\<not> blk_free s x" "k = m_kind (headers s x)"
    using p by (blast elim: gvm_live_SomeE)
  then show "m_kind (headers s (p - 16)) = k" by simp
  show "\<exists>s'. gvm_free_impl s p = Value s' \<and> free_post s p s'"
    using free_impl_run [OF I x(1,3)] x(2) by simp
qed

text \<open>
  The invariant and the abstract heap depend on the sizes, kinds and magic numbers of the
  headers, on the tail tags, the free structures and the VM pointers, and on nothing else: not
  on marks, queue links or counters.
\<close>

definition same_heap :: "gvm \<Rightarrow> gvm \<Rightarrow> bool" where
  "same_heap s s' \<longleftrightarrow>
     (\<forall>x. m_size (headers s' x) = m_size (headers s x) \<and> m_kind (headers s' x) = m_kind (headers s x) \<and>
        m_magic (headers s' x) = m_magic (headers s x)) \<and>
     tails s' = tails s \<and> flinks s' = flinks s \<and> m_gvm_free_head s' = m_gvm_free_head s \<and>
     m_gvm_fastbins s' = m_gvm_fastbins s \<and> m_gvm_free_block_count s' = m_gvm_free_block_count s \<and>
     vm_frame s s'"

lemma same_heap_sym: "same_heap s s' \<Longrightarrow> same_heap s' s"
  by (simp add: same_heap_def vm_frame_def)

lemma same_heap_inv:
  assumes "same_heap s s'" "heap_inv s xs"
  shows "heap_inv s' xs"
proof (rule heap_inv_frame [OF assms(2)])
  have e: "blk_free s' x = blk_free s x" for x using assms(1) by (simp add: same_heap_def)
  show "vm_frame s s'" using assms(1) by (simp add: same_heap_def)
  show "seg (headers s') (tails s') (m_vm_global s) xs (m_vm_limit s)"
    using assms seg_cong [of xs "headers s'" "headers s" "tails s'" "tails s"]
    by (simp add: same_heap_def heap_inv_def)
  have "free_lists s {x\<in>set xs. blk_free s x}" using assms(2) by (simp add: heap_inv_def)
  then show "free_lists s' {x\<in>set xs. blk_free s' x}"
    unfolding e by (rule free_lists_cong) (use assms(1) in \<open>simp_all add: same_heap_def\<close>)
  show "coalesced (blk_free s') True xs" 
    using assms(2) coalesced_cong [of xs "blk_free s'", OF e] by (simp add: heap_inv_def)
qed

lemma same_heap_ok: "same_heap s s' \<Longrightarrow> heap_ok s' = heap_ok s"
  using same_heap_inv same_heap_sym unfolding heap_ok_def by blast

lemma same_heap_live:
  assumes "same_heap s s'" "heap_ok s"
  shows "gvm_live s' = gvm_live s"
proof -
  obtain xs where I: "heap_inv s xs" using assms(2) by (auto simp: heap_ok_def)
  from gvm_live_inv [OF I] gvm_live_inv [OF same_heap_inv [OF assms(1) I]] assms(1)
  show ?thesis by (simp add: same_heap_def fun_eq_iff)
qed

lemma same_heap_counters [simp]:
  "same_heap s (s\<lparr>m_gvm_user_block_count := c\<rparr>)" "same_heap s (s\<lparr>m_gc_scratch_offset := p\<rparr>)"
  "same_heap s (s\<lparr>m_in_gc := b\<rparr>)" "same_heap s (s\<lparr>m_gc_work_head := p\<rparr>)"
  "same_heap s (s\<lparr>m_gc_marked_count := c\<rparr>)" "same_heap s (s\<lparr>m_gc_current_gen := c\<rparr>)"
  by (simp_all add: same_heap_def vm_frame_def)

lemmas counters_ok [simp] = same_heap_counters [THEN same_heap_ok]
lemmas counters_live [simp] = same_heap_counters [THEN same_heap_live]

text \<open>Changes of the abstract heap as changes of the set of user blocks.\<close>

lemma user_blocks_remove:
  "gvm_live s' = (gvm_live s)(p := None) \<Longrightarrow> gvm_user_blocks s' = gvm_user_blocks s - {p}"
  by (auto simp: gvm_user_blocks_def)

lemma user_blocks_add:
  "gvm_live s' = (gvm_live s)(p \<mapsto> (n, k)) \<Longrightarrow> gvm_live s p = None \<Longrightarrow> gvm_user_blocks s' =
     (if k = ChunkKind_GcScratch then gvm_user_blocks s else insert p (gvm_user_blocks s))"
  by (auto simp: gvm_user_blocks_def)

lemma user_blocks_same: "gvm_live s' = gvm_live s \<Longrightarrow> gvm_user_blocks s' = gvm_user_blocks s"
  by (simp add: gvm_user_blocks_def)

lemma gvm_free_run:
  assumes ok: "gvm_ok s" and p: "gvm_live s p = Some (n, k)" "k \<noteq> ChunkKind_GcScratch"
  shows "\<exists>s'. gvm_free s p = Value s' \<and> gvm_free_post s p s'"
proof -
  have h: "heap_ok s" and c: "m_gvm_user_block_count s = card (gvm_user_blocks s)"
    and sc: "\<And>q. m_gc_scratch_offset s = q \<and> q \<noteq> nulloffset \<longleftrightarrow>
        (\<exists>n. gvm_live s q = Some (n, ChunkKind_GcScratch))"
    using ok by (simp_all add: gvm_ok_def)
  have kind: "m_kind (headers s (p - 16)) = k" by (rule free_impl_live(1) [OF h p(1)])
  obtain s1 where s1: "gvm_free_impl s p = Value s1" "free_post s p s1"
    using free_impl_live(2) [OF h p(1)] by blast
  have L1: "gvm_live s1 = (gvm_live s)(p := None)" and h1: "heap_ok s1" and g1: "gc_frame s s1"
    using s1(2) by (simp_all add: free_post_def)
  have U: "gvm_user_blocks s1 = gvm_user_blocks s - {p}" by (rule user_blocks_remove [OF L1])
  have pU: "p \<in> gvm_user_blocks s" using p by (auto simp: gvm_user_blocks_def)
  have fin: "finite (gvm_user_blocks s)" using h by (rule finite_user_blocks)
  define s2 where "s2 = s1\<lparr>m_gvm_user_block_count := m_gvm_user_block_count s1 - 1\<rparr>"
  have run0: "gvm_free s p =
      (if m_gvm_user_block_count s2 = 0 \<and> m_gc_scratch_offset s2 \<noteq> nulloffset
       then gvm_free_impl (s2\<lparr>m_gc_scratch_offset := nulloffset\<rparr>) (m_gc_scratch_offset s2)
       else Value s2)"
    using kind p s1(1) unfolding gvm_free_def s2_def Let_def GvmHeaderSize_def by simp
  have c2: "m_gvm_user_block_count s2 = card (gvm_user_blocks s - {p})"
    using g1 c pU fin by (simp add: s2_def gc_frame_def)
  have h2: "heap_ok s2" and L2: "gvm_live s2 = (gvm_live s)(p := None)" and scr: "m_gc_scratch_offset s2 = m_gc_scratch_offset s"
    using h1 L1 g1 by (simp_all add: s2_def gc_frame_def)
  have last: "m_gvm_user_block_count s2 = 0 \<longleftrightarrow> gvm_user_blocks s = {p}"
  proof -
    have "card (gvm_user_blocks s - {p}) = 0 \<longleftrightarrow> gvm_user_blocks s - {p} = {}" using fin by simp
    then show ?thesis using c2 pU by auto
  qed
  show ?thesis
  proof (cases "gvm_user_blocks s = {p} \<and> m_gc_scratch_offset s \<noteq> nulloffset")
    case False
    have run: "gvm_free s p = Value s2"
      using run0 last scr False by auto
    have L: "gvm_live s2 = (if gvm_user_blocks s = {p} then Map.empty else (gvm_live s)(p := None))"
    proof (cases "gvm_user_blocks s = {p}")
      case True
      then have "m_gc_scratch_offset s = nulloffset" using False by blast
      then have "gvm_live s q = None" if "q \<noteq> p" for q
        using that sc [of q] True by (cases "gvm_live s q") (auto simp: gvm_user_blocks_def)
      then show ?thesis using True L2 by (auto simp: fun_eq_iff)
    qed (simp add: L2)
    have "gvm_ok s2"
      unfolding gvm_ok_def using h2 c2 sc p
      by (auto simp: L2 user_blocks_remove [OF L2] scr)
    then have "gvm_free_post s p s2"
      unfolding gvm_free_post_def using s1(2) L scr L2
      by (auto simp: s2_def free_post_def gc_frame_def)
    with run show ?thesis by blast
  next
    case True
    let ?q = "m_gc_scratch_offset s"
    define s3 where "s3 = s2\<lparr>m_gc_scratch_offset := nulloffset\<rparr>"
    have h3: "heap_ok s3" "gvm_live s3 = (gvm_live s)(p := None)" using h2 L2 by (simp_all add: s3_def)
    obtain m where m: "gvm_live s ?q = Some (m, ChunkKind_GcScratch)" using sc [of ?q] True by auto
    then have q: "?q \<noteq> p" "gvm_live s3 ?q = Some (m, ChunkKind_GcScratch)" using p h3 by auto
    obtain s4 where s4: "gvm_free_impl s3 ?q = Value s4" "free_post s3 ?q s4"
      using free_impl_live(2) [OF h3(1) q(2)] by blast
    have run: "gvm_free s p = Value s4"
      using run0 last scr True s4(1) by (simp add: s3_def)
    have "gvm_live s4 = (gvm_live s)(p := None, ?q := None)" using s4(2) h3 by (simp add: free_post_def)
    moreover have "gvm_live s r = None" if "r \<noteq> p" "r \<noteq> ?q" for r
      using that sc [of r] True by (cases "gvm_live s r") (auto simp: gvm_user_blocks_def)
    ultimately have L4: "gvm_live s4 = Map.empty" by (auto simp: fun_eq_iff)
    have f4: "heap_ok s4" "gc_frame s3 s4" using s4(2) by (simp_all add: free_post_def)
    have "gvm_ok s4"
      unfolding gvm_ok_def using f4 c2 True L4
      by (simp add: gvm_user_blocks_def gc_frame_def s3_def)
    then have "gvm_free_post s p s4"
      unfolding gvm_free_post_def using s1(2) s4(2) True L4
      by (simp add: s3_def s2_def free_post_def gc_frame_def)
    with run show ?thesis by blast
  qed
qed

section \<open>Allocating\<close>

text \<open>
  From \<open>s\<close> to \<open>s'\<close> no user block appeared or changed; the collector may have removed some.
\<close>

definition users_shrunk :: "gvm \<Rightarrow> gvm \<Rightarrow> bool" where
  "users_shrunk s s' \<longleftrightarrow>
     (\<forall>p n k. gvm_live s' p = Some (n, k) \<longrightarrow> k \<noteq> ChunkKind_GcScratch \<longrightarrow> gvm_live s p = Some (n, k))"

lemma users_shrunk_refl [simp]: "users_shrunk s s"
  by (simp add: users_shrunk_def)

lemma users_shrunk_trans: "users_shrunk s t \<Longrightarrow> users_shrunk t u \<Longrightarrow> users_shrunk s u"
  by (simp add: users_shrunk_def)

lemma collected_shrunk: "collected s s' \<Longrightarrow> users_shrunk s s'"
  by (auto simp: collected_def users_shrunk_def map_le_def dom_def)

lemma scratch_total_size: "gvm_total_size (GcScratchTotalEntries * 4) = Value 4120"
  by (simp add: gvm_total_size_def gvm_consts vm_size_max_def Let_def)

lemma scratch_kind_live [simp]: "\<not> gvm_kind_is_free ChunkKind_GcScratch"
  by (simp add: gvm_kind_is_free_def gvm_consts)

text \<open>Installing a scratch block, and counting a user block, restores the invariant.\<close>

lemma scratch_installed:
  assumes "gvm_ok s" "m_gc_scratch_offset s = nulloffset" "alloc_post s t ChunkKind_GcScratch p s'"
  shows "gvm_ok (s'\<lparr>m_gc_scratch_offset := p\<rparr>)" "users_shrunk s (s'\<lparr>m_gc_scratch_offset := p\<rparr>)"
    "p \<noteq> nulloffset"
proof -
  obtain n where L: "gvm_live s' = (gvm_live s)(p \<mapsto> (n, ChunkKind_GcScratch))"
    and p: "gvm_live s p = None" and h: "heap_ok s'" and f: "gc_frame s s'"
    using assms(3) by (auto simp: alloc_post_def)
  show p0: "p \<noteq> nulloffset" using live_nonnull [OF h] L by auto
  have none: "gvm_live s q \<noteq> Some (m, ChunkKind_GcScratch)" for q m
    using assms(1,2) unfolding gvm_ok_def by metis
  have U: "gvm_user_blocks s' = gvm_user_blocks s" using user_blocks_add [OF L p] by simp
  have U': "gvm_user_blocks (s'\<lparr>m_gc_scratch_offset := p\<rparr>) = gvm_user_blocks s"
    using U h by (simp add: gvm_user_blocks_def)
  show "gvm_ok (s'\<lparr>m_gc_scratch_offset := p\<rparr>)"
    unfolding gvm_ok_def U' using assms(1) h f none p0 by (auto simp: gvm_ok_def gc_frame_def L)
  show "users_shrunk s (s'\<lparr>m_gc_scratch_offset := p\<rparr>)"
    using h by (auto simp: users_shrunk_def L split: if_splits)
qed

lemma user_counted:
  assumes ok: "gvm_ok s" and k: "k \<noteq> ChunkKind_GcScratch" and A: "alloc_post s t k p s'"
  shows "gvm_ok (s'\<lparr>m_gvm_user_block_count := m_gvm_user_block_count s' + 1\<rparr>)"
proof -
  obtain n where L: "gvm_live s' = (gvm_live s)(p \<mapsto> (n, k))"
    and p: "gvm_live s p = None" and h: "heap_ok s'" and f: "gc_frame s s'"
    using A by (auto simp: alloc_post_def)
  let ?s = "s'\<lparr>m_gvm_user_block_count := m_gvm_user_block_count s' + 1\<rparr>"
  have U: "gvm_user_blocks ?s = insert p (gvm_user_blocks s)"
    using user_blocks_add [OF L p] k h user_blocks_same [of ?s s'] by simp
  have "p \<notin> gvm_user_blocks s" using p by (simp add: gvm_user_blocks_def)
  moreover have "finite (gvm_user_blocks s)" using ok finite_user_blocks by (simp add: gvm_ok_def)
  ultimately show ?thesis
    unfolding gvm_ok_def U using ok h f p k by (auto simp: gvm_ok_def gc_frame_def L)
qed

context gvm_collector
begin

lemma ensure_scratch_run:
  assumes ok: "gvm_ok s" "ready s" and a: "m_vm_alloc_active s = None"
  obtains (served) s1 where "ensure_gc_scratch gc s = Value s1" "gvm_ok s1" "ready s1"
      "m_vm_alloc_active s1 = None" "m_gc_scratch_offset s1 \<noteq> nulloffset" "users_shrunk s s1" "kept reach s s1"
      "m_in_gc s1 = m_in_gc s"
  | (full) s0 where "ensure_gc_scratch gc s = Raise VMFull" "m_gc_scratch_offset s = nulloffset"
      "if m_in_gc s then s0 = s else gc s = Value s0" "users_shrunk s s0" "kept reach s s0"
      "m_in_gc s \<or> gvm_user_blocks s0 \<subseteq> reach s0" "gvm_exhausted s0 4120"
proof (cases "m_gc_scratch_offset s = nulloffset")
  case False
  then show thesis using that(1) [of s] ok a by (simp add: ensure_gc_scratch_def)
next
  case True
  from ok a scratch_total_size scratch_kind_live show thesis
  proof (cases rule: alloc_impl_refines)
    case inner: (ok s0 p s')
    from inner(2) \<open>gvm_ok s\<close> \<open>ready s\<close> a True have s0: "gvm_ok s0" "ready s0"
      "m_gc_scratch_offset s0 = nulloffset" "m_vm_alloc_active s0 = None" "users_shrunk s s0"
      "kept reach s s0" "m_in_gc s0 = m_in_gc s"
      using collected_shrunk by (auto simp: collected_def)
    let ?s1 = "s'\<lparr>m_gc_scratch_offset := p\<rparr>"
    note S = scratch_installed [OF s0(1,3) inner(3)]
    have "m_vm_alloc_active ?s1 = None" "m_in_gc ?s1 = m_in_gc s"
      using inner(3) s0(4,7) by (simp_all add: alloc_post_def gc_frame_def)
    moreover have "users_shrunk s ?s1" by (rule users_shrunk_trans [OF s0(5) S(2)])
    moreover have "kept reach s ?s1"
    proof (rule kept_trans [OF s0(6)])
      have "gvm_live ?s1 q = gvm_live s0 q" if "q \<in> reach s0" for q
        using reach_live [OF that] inner(3) by (auto simp: alloc_post_def)
      then show "kept reach s0 ?s1" using ready_scratch [OF s0(2) inner(3) order_refl] by (simp add: kept_def)
    qed
    ultimately show thesis
      using that(1) [of ?s1] inner(1) True S(1,3) ready_scratch [OF s0(2) inner(3) order_refl]
      by (simp add: ensure_gc_scratch_def)
  next
    case (full s0)
    then have "if m_in_gc s then s0 = s else gc s = Value s0" "users_shrunk s s0" "kept reach s s0"
      "m_in_gc s \<or> gvm_user_blocks s0 \<subseteq> reach s0"
      using collected_shrunk by (auto split: if_splits)
    then show thesis using that(2) [of s0] True full(1,3) by (simp add: ensure_gc_scratch_def)
  qed
qed

lemma alloc_run:
  assumes ok: "gvm_ok s" "ready s" and a: "m_vm_alloc_active s = None"
    and n: "gvm_total_size payload_size = Value t"
    and k: "\<not> gvm_kind_is_free kind" "kind \<noteq> ChunkKind_GcScratch"
  obtains (served) s0 p m s' where "gvm_alloc gc s payload_size kind = Value (p, s')" "gvm_ok s'"
      "users_shrunk s s0" "8 dvd p" "t \<le> m" "gvm_live s0 p = None"
      "gvm_live s' = (gvm_live s0)(p \<mapsto> (m, kind))" "p \<notin> reach s"
      "\<forall>q\<in>reach s. gvm_live s' q = gvm_live s q"
  | (full) s1 s0 n where "gvm_alloc gc s payload_size kind = Raise VMFull"
      "s1 = s \<and> m_gc_scratch_offset s = nulloffset \<and> n = 4120 \<or> ensure_gc_scratch gc s = Value s1 \<and> n = t"
      "if m_in_gc s then s0 = s1 else gc s1 = Value s0" "users_shrunk s s0" "kept reach s s0"
      "m_in_gc s \<or> gvm_user_blocks s0 \<subseteq> reach s0" "gvm_exhausted s0 n"
  using ok a
proof (cases rule: ensure_scratch_run)
  case (served s1)
  from served(2-4) n k(1) show thesis
  proof (cases rule: alloc_impl_refines)
    case inner: (ok s0 p s2)
    have s0: "gvm_ok s0" "users_shrunk s s0" "kept reach s s0"
      using inner(2) served(2,6,7) users_shrunk_trans collected_shrunk kept_trans
      by (auto simp: collected_def)
    have p: "p \<notin> reach s"
    proof
      assume "p \<in> reach s"
      then have "gvm_live s0 p \<noteq> None" using s0(3) reach_live [of p s] by (simp add: kept_def)
      then show False using inner(3) by (simp add: alloc_post_def)
    qed
    let ?s = "s2\<lparr>m_gvm_user_block_count := m_gvm_user_block_count s2 + 1\<rparr>"
    have "gvm_alloc gc s payload_size kind = Value (p, ?s)"
      using served(1) inner(1) k by (simp add: gvm_alloc_def)
    moreover have "gvm_ok ?s" by (rule user_counted [OF s0(1) k(2) inner(3)])
    moreover have "gvm_live ?s = gvm_live s2" using inner(3) by (simp add: alloc_post_def)
    moreover have "\<forall>q\<in>reach s. gvm_live s2 q = gvm_live s q"
      using inner(3) s0(3) p by (auto simp: alloc_post_def kept_def)
    ultimately show thesis using that(1) [of p ?s s0] s0(2) inner(3) p
      by (auto simp: alloc_post_def)
  next
    case (full s0)
    then have "if m_in_gc s then s0 = s1 else gc s1 = Value s0" "users_shrunk s s0" "kept reach s s0"
      "m_in_gc s \<or> gvm_user_blocks s0 \<subseteq> reach s0"
      using served(6-8) users_shrunk_trans collected_shrunk kept_trans by (auto split: if_splits)
    then show thesis using that(2) [of s1 t s0] full(1,3) served(1) k by (simp add: gvm_alloc_def)
  qed
next
  case (full s0)
  then show thesis using that(2) [of s 4120 s0] k by (simp add: gvm_alloc_def)
qed

end

end
