(* ===== verification/Gc.thy ===== *)
theory Gc
  imports Gvm_Public
begin

text \<open>
  The mark-sweep collector of the global region, \<^verbatim>\<open>src/gc.inl\<close>: the intrusive work queue
  threaded through the block headers, marking by a one-bit generation, the drain loop, the sweep
  through a doomed list and the driver \<^verbatim>\<open>vm_global_gc\<close>.

  The typed walkers that enumerate the references of a payload and of the roots are data here:
  \<open>refs p\<close> lists, in order, what the walker of the block at \<open>p\<close> does, \<open>roots\<close> what
  \<^verbatim>\<open>walk_all_roots\<close> and the localdict pre-pass do: \<open>Mark r\<close> hands the payload offset \<open>r\<close> to the mark
  primitive, \<open>Visit q\<close> is the visit of the local container at \<open>q\<close>, whose own references follow it in
  the list, at every visit. A container met again is not walked again in the code; marking its
  references once more changes nothing, since they carry the current generation already. This
  assumes that the earlier visit walked the same slots: the code tells containers apart by their
  offset only, so a shorter view of an array met first hides the rest of a longer one that starts at
  the same offset, and such views are outside the model. The visited array is part of it, with its
  growth in the middle of a pass; local dicts and sets, which are recorded by a link of their own,
  leave no trace there.

  The pool free lists, which the driver clears, and the profiling hooks are outside the modelled
  state; a raised error carries no state, so the catch clause of the driver (which drains the queue
  and rethrows) is the propagation of \<open>Raise\<close>.
\<close>

section \<open>The work queue\<close>

definition set_next_in_work :: "gvm \<Rightarrow> nat \<Rightarrow> nat \<Rightarrow> gvm" where
  "set_next_in_work s payload_offset v =
     s\<lparr>headers := (headers s)(payload_offset - GvmHeaderSize :=
        (headers s (payload_offset - GvmHeaderSize))\<lparr>m_next_in_work := v\<rparr>)\<rparr>"

definition gc_work_list_insert :: "gvm \<Rightarrow> nat \<Rightarrow> gvm" where
  "gc_work_list_insert s payload_offset =
     (set_next_in_work s payload_offset (m_gc_work_head s))\<lparr>m_gc_work_head := payload_offset\<rparr>"

definition gc_work_push :: "gvm \<Rightarrow> nat \<Rightarrow> gvm" where
  "gc_work_push s payload_offset =
     (let s1 = gc_work_list_insert s payload_offset
      in s1\<lparr>m_gc_marked_count := m_gc_marked_count s1 + 1\<rparr>)"

definition gc_work_pop :: "gvm \<Rightarrow> nat \<times> gvm" where
  "gc_work_pop s =
     (let payload_offset = m_gc_work_head s
      in if payload_offset = nulloffset then (nulloffset, s)
         else (payload_offset,
               set_next_in_work
                 (s\<lparr>m_gc_work_head :=
                      m_next_in_work (headers s (payload_offset - GvmHeaderSize))\<rparr>)
                 payload_offset nulloffset))"

definition gc_doomed_push :: "gvm \<Rightarrow> nat \<Rightarrow> gvm" where
  "gc_doomed_push s payload_offset = gc_work_list_insert s payload_offset"

section \<open>Marking\<close>

text \<open>
  The kinds without a walker: Long, ULong, Address, Double, Int128, UInt128, String, Name,
  HashEntry, CoroutineStacks, GcScratch, Other, Stream, Continuation, Screen.
\<close>

definition gc_leaf_kinds :: "u8 list" where
  "gc_leaf_kinds = [6, 7, 8, 9, 10, 11, 5, 1, 30, 18, ChunkKind_GcScratch, 0, 13, 21, 22]"

definition gc_kind_has_no_children :: "u8 \<Rightarrow> bool" where
  "gc_kind_has_no_children kind \<longleftrightarrow> kind \<in> set gc_leaf_kinds"

definition gc_mark_reached :: "gvm \<Rightarrow> nat \<Rightarrow> u8 \<Rightarrow> gvm" where
  "gc_mark_reached s payload_offset kind =
     (let s1 = gvm_set_mark_gen s payload_offset (m_gc_current_gen s)
      in if gc_kind_has_no_children kind
         then s1\<lparr>m_gc_marked_count := m_gc_marked_count s1 + 1\<rparr>
         else gc_work_push s1 payload_offset)"

definition mark_global_offset :: "gvm \<Rightarrow> nat \<Rightarrow> gvm outcome" where
  "mark_global_offset s payload_offset =
     (if payload_offset \<noteq> nulloffset \<and>
         payload_offset \<ge> m_vm_global s + GvmHeaderSize \<and> payload_offset < m_vm_limit s \<and>
         GvmBlockAlignment dvd payload_offset
      then let block_size = gvm_get_block_size s payload_offset
           in if block_size \<noteq> 0 \<and> GvmBlockAlignment dvd block_size \<and>
                 gvm_block_extends_to s payload_offset \<le> m_vm_limit s
              then if gvm_block_is_free s payload_offset then Raise InternalError
                   else if gvm_get_mark_gen s payload_offset \<noteq> m_gc_current_gen s
                   then Value (gc_mark_reached s payload_offset (gvm_get_kind s payload_offset))
                   else Value s
              else Value s
      else Value s)"

section \<open>Visits of local containers\<close>

text \<open>
  \<^verbatim>\<open>m_gc_local_visited\<close> with its count, as a list, and \<^verbatim>\<open>m_gc_local_visited_capacity\<close>. The array lives in
  the payload of the scratch block; copying it into a larger block leaves the list as it is.
\<close>

type_synonym local_visited = "nat list \<times> nat"

definition gc_visited_capacity_from_scratch :: "gvm \<Rightarrow> nat" where
  "gc_visited_capacity_from_scratch s =
     gvm_get_payload_size (gvm_get_block_size s (m_gc_scratch_offset s)) div 4"

definition grow_gc_local_visited ::
  "(gvm \<Rightarrow> gvm outcome) \<Rightarrow> gvm \<Rightarrow> nat \<Rightarrow> (nat \<times> gvm) outcome" where
  "grow_gc_local_visited gc s old_capacity =
     (let new_capacity = (old_capacity * 2) mod 2 ^ 32; old_scratch_off = m_gc_scratch_offset s
      in bind_outcome (gvm_alloc_n gc s 4 new_capacity ChunkKind_GcScratch) (\<lambda>(new_off, s1).
         bind_outcome (gvm_free_impl (s1\<lparr>m_gc_scratch_offset := new_off\<rparr>) old_scratch_off) (\<lambda>s2.
           Value (new_capacity, s2))))"

text \<open>
  The collector handed to the allocator here is never called: \<^verbatim>\<open>m_in_gc\<close> is set during a pass, and
  the allocator collects only when it is not.
\<close>

definition gc_try_record_local_visit ::
  "gvm \<Rightarrow> local_visited \<Rightarrow> nat \<Rightarrow> (gvm \<times> local_visited) outcome" where
  "gc_try_record_local_visit s v q =
     (case v of (visited, capacity) \<Rightarrow>
        if q \<in> set visited then Value (s, visited, capacity)
        else if length visited \<ge> capacity
        then bind_outcome (grow_gc_local_visited Value s capacity) (\<lambda>(new_capacity, s1).
               Value (s1, visited @ [q], new_capacity))
        else Value (s, visited @ [q], capacity))"

section \<open>The mark loop\<close>

datatype mark_item = Mark nat | Visit nat

primrec mark_one :: "gvm \<Rightarrow> local_visited \<Rightarrow> mark_item \<Rightarrow> (gvm \<times> local_visited) outcome" where
  "mark_one s v (Mark r) = bind_outcome (mark_global_offset s r) (\<lambda>s1. Value (s1, v))"
| "mark_one s v (Visit q) = gc_try_record_local_visit s v q"

primrec mark_items :: "gvm \<Rightarrow> local_visited \<Rightarrow> mark_item list \<Rightarrow> (gvm \<times> local_visited) outcome" where
  "mark_items s v [] = Value (s, v)"
| "mark_items s v (i # is) = bind_outcome (mark_one s v i) (\<lambda>(s1, v1). mark_items s1 v1 is)"

definition walk_block_contents ::
  "(nat \<Rightarrow> mark_item list) \<Rightarrow> gvm \<Rightarrow> local_visited \<Rightarrow> nat \<Rightarrow> (gvm \<times> local_visited) outcome" where
  "walk_block_contents refs s v payload_offset =
     (if gc_kind_has_no_children (gvm_get_kind s payload_offset) then Value (s, v)
      else mark_items s v (refs payload_offset))"

partial_function (option) gc_drain ::
  "(nat \<Rightarrow> mark_item list) \<Rightarrow> gvm \<Rightarrow> local_visited \<Rightarrow> gvm outcome option" where
  "gc_drain refs s v =
     (if m_gc_work_head s = nulloffset then Some (Value s)
      else case walk_block_contents refs (snd (gc_work_pop s)) v (fst (gc_work_pop s)) of
             Value r \<Rightarrow> gc_drain refs (fst r) (snd r)
           | Raise e \<Rightarrow> Some (Raise e)
           | Diverge \<Rightarrow> Some Diverge
           | Fault \<Rightarrow> Some Fault)"

section \<open>Sweeping\<close>

definition gc_advance_generation :: "gvm \<Rightarrow> gvm" where
  "gc_advance_generation s = s\<lparr>m_gc_current_gen := (if m_gc_current_gen s = 0 then 1 else 0)\<rparr>"

definition gc_count_live_blocks :: "gvm \<Rightarrow> nat outcome" where
  "gc_count_live_blocks s =
     bind_outcome (gvm_for_each s)
       (\<lambda>vs. Value (length (filter (\<lambda>v. \<not> v_is_free v \<and> v_kind v \<noteq> ChunkKind_GcScratch) vs)))"

definition gc_live_block_count :: "gvm \<Rightarrow> nat" where
  "gc_live_block_count s = m_gvm_user_block_count s"

text \<open>One visit of the sweep's heap walk: a doomed block is queued and its bytes counted.\<close>

definition gc_sweep_visit :: "gvm_visit \<Rightarrow> gvm \<times> nat \<Rightarrow> gvm \<times> nat" where
  "gc_sweep_visit v = (\<lambda>(s, reclaimed).
     if \<not> v_is_free v \<and> v_kind v \<noteq> ChunkKind_GcScratch \<and>
        gvm_get_mark_gen s (v_payload_offset v) \<noteq> m_gc_current_gen s
     then (gc_doomed_push s (v_payload_offset v), reclaimed + v_total_size v)
     else (s, reclaimed))"

partial_function (option) gc_free_doomed :: "gvm \<Rightarrow> gvm outcome option" where
  "gc_free_doomed s =
     (if m_gc_work_head s = nulloffset then Some (Value s)
      else case gvm_free (snd (gc_work_pop s)) (fst (gc_work_pop s)) of
             Value s1 \<Rightarrow> gc_free_doomed s1
           | Raise e \<Rightarrow> Some (Raise e)
           | Diverge \<Rightarrow> Some Diverge
           | Fault \<Rightarrow> Some Fault)"

text \<open>The nested result of a loop that may not end and a body that may raise.\<close>

definition from_loop :: "'a outcome option \<Rightarrow> 'a outcome" where
  "from_loop r = bind_outcome (from_walk r) (\<lambda>x. x)"

text \<open>The walk sees the headers as they are at its start: queueing changes only link fields.\<close>

definition gc_sweep_unmarked :: "gvm \<Rightarrow> nat \<Rightarrow> (nat \<times> gvm) outcome" where
  "gc_sweep_unmarked s expected_doomed =
     (if expected_doomed = 0 then Raise InternalError
      else bind_outcome (gvm_for_each s) (\<lambda>vs.
        let (s1, reclaimed) = fold gc_sweep_visit vs (s, 0)
        in bind_outcome (from_loop (gc_free_doomed s1)) (\<lambda>s2. Value (reclaimed, s2))))"

section \<open>The driver\<close>

definition vm_global_gc_impl ::
  "mark_item list \<Rightarrow> (nat \<Rightarrow> mark_item list) \<Rightarrow> gvm \<Rightarrow> (nat \<times> gvm) outcome" where
  "vm_global_gc_impl roots refs s =
     (let s1 = gc_advance_generation s; total_live = gc_live_block_count s1
      in if total_live = 0 then Value (0, s1)
         else if m_gc_scratch_offset s1 = nulloffset then Raise InternalError
         else bind_outcome (mark_items (s1\<lparr>m_gc_marked_count := 0\<rparr>)
                ([], gc_visited_capacity_from_scratch s1) roots) (\<lambda>(s2, v).
              bind_outcome (from_loop (gc_drain refs s2 v)) (\<lambda>s3.
                if m_gc_marked_count s3 = total_live then Value (0, s3)
                else gc_sweep_unmarked s3 (total_live - m_gc_marked_count s3))))"

definition vm_global_gc ::
  "mark_item list \<Rightarrow> (nat \<Rightarrow> mark_item list) \<Rightarrow> gvm \<Rightarrow> (nat \<times> gvm) outcome" where
  "vm_global_gc roots refs s =
     (if m_in_gc s then Value (0, s)
      else let temp_save = m_vm_temp_ptr s
           in bind_outcome (vm_global_gc_impl roots refs (s\<lparr>m_in_gc := True\<rparr>)) (\<lambda>(reclaimed, s1).
                Value (reclaimed,
                  s1\<lparr>m_vm_temp_ptr := temp_save, m_in_gc := False,
                     m_gc_run_count := m_gc_run_count s1 + 1,
                     m_gc_last_reclaimed_bytes := reclaimed\<rparr>)))"

text \<open>The call from the allocator, which ignores the byte count.\<close>

definition gc_collect :: "mark_item list \<Rightarrow> (nat \<Rightarrow> mark_item list) \<Rightarrow> gvm \<Rightarrow> gvm outcome" where
  "gc_collect roots refs s = bind_outcome (vm_global_gc roots refs s) (\<lambda>(_, s1). Value s1)"

end
