(* ===== verification/Gc_Mark.thy ===== *)
theory Gc_Mark
  imports Gc
begin

text \<open>
  The mark phase of \<^verbatim>\<open>src/gc.inl\<close>: the queue threaded through the headers, the effect of one
  mark and of one visit, and the drain loop, which ends with exactly the reachable user blocks marked
  when the visited array has room for the local containers the pass meets.
\<close>

section \<open>Queues through the headers\<close>

abbreviation hdr :: "gvm \<Rightarrow> nat \<Rightarrow> gvm_block" where
  "hdr s p \<equiv> headers s (p - 16)"

primrec chain :: "gvm \<Rightarrow> nat \<Rightarrow> nat list \<Rightarrow> bool" where
  "chain s h [] \<longleftrightarrow> h = nulloffset"
| "chain s h (p # ps) \<longleftrightarrow> h = p \<and> p \<noteq> nulloffset \<and> chain s (m_next_in_work (hdr s p)) ps"

lemma chain_cong:
  "(\<And>p. p \<in> set ps \<Longrightarrow> m_next_in_work (hdr s' p) = m_next_in_work (hdr s p)) \<Longrightarrow>
     chain s' h ps = chain s h ps"
  by (induction ps arbitrary: h) auto

text \<open>\<open>queued s U Q\<close>: the queue holds \<open>Q\<close>, and the other blocks of \<open>U\<close> are off the queue.\<close>

definition queued :: "gvm \<Rightarrow> nat set \<Rightarrow> nat list \<Rightarrow> bool" where
  "queued s U Q \<longleftrightarrow> chain s (m_gc_work_head s) Q \<and> distinct Q \<and> set Q \<subseteq> U \<and>
     (\<forall>p\<in>U - set Q. m_next_in_work (hdr s p) = nulloffset)"

text \<open>States that differ only in marks, queue links, the queue head and the mark counter.\<close>

definition gc_same :: "gvm \<Rightarrow> gvm \<Rightarrow> bool" where
  "gc_same s s' \<longleftrightarrow> same_heap s s' \<and> gc_frame s (s'\<lparr>m_gc_work_head := m_gc_work_head s,
       m_gc_marked_count := m_gc_marked_count s\<rparr>) \<and>
     m_gc_run_count s' = m_gc_run_count s"

lemma gc_same_refl [simp]: "gc_same s s"
  by (simp add: gc_same_def same_heap_def vm_frame_def gc_frame_def)

lemma gc_same_trans: "gc_same s t \<Longrightarrow> gc_same t u \<Longrightarrow> gc_same s u"
  by (simp add: gc_same_def same_heap_def vm_frame_def gc_frame_def)

lemma gc_same_gen: "gc_same s t \<Longrightarrow> m_gc_current_gen t = m_gc_current_gen s"
  by (simp add: gc_same_def gc_frame_def)

lemma gc_same_ops:
  "gc_same s (set_next_in_work s p v)" "gc_same s (gc_work_list_insert s p)"
  "gc_same s (gc_work_push s p)" "gc_same s (snd (gc_work_pop s))"
  "gc_same s (gvm_set_mark_gen s p g)" "gc_same s (gc_mark_reached s p k)"
  by (simp_all add: gc_same_def same_heap_def vm_frame_def gc_frame_def set_next_in_work_def
      gc_work_list_insert_def gc_work_push_def gc_work_pop_def gvm_set_mark_gen_def
      gc_mark_reached_def Let_def)

lemma gc_same_ok:
  assumes "gc_same s t" "heap_ok s"
  shows "heap_ok t" "gvm_live t = gvm_live s" "gvm_user_blocks t = gvm_user_blocks s"
    and "gvm_ok t = gvm_ok s"
proof -
  have H: "same_heap s t" using assms(1) by (simp add: gc_same_def)
  show h: "heap_ok t" using same_heap_ok [OF H] assms(2) by simp
  show L: "gvm_live t = gvm_live s" by (rule same_heap_live [OF H assms(2)])
  then show U: "gvm_user_blocks t = gvm_user_blocks s" by (rule user_blocks_same)
  show "gvm_ok t = gvm_ok s"
    using assms h L U by (simp add: gvm_ok_def gc_same_def gc_frame_def)
qed

lemma user_block_ge: "heap_ok s \<Longrightarrow> p \<in> gvm_user_blocks s \<Longrightarrow> 16 \<le> p"
  by (auto simp: heap_ok_def gvm_user_blocks_def elim!: gvm_live_SomeE)

lemma user_block_addr:
  assumes "heap_ok s" "p \<in> gvm_user_blocks s" "q \<in> gvm_user_blocks s"
  shows "p - 16 = q - 16 \<longleftrightarrow> p = q"
  using user_block_ge [OF assms(1)] assms(2,3) by (metis diff_diff_cancel eq_diff_iff)

text \<open>Pushing and popping.\<close>

lemma insert_queued:
  assumes Q: "queued s U Q" and p: "p \<in> U" "p \<notin> set Q" "p \<noteq> nulloffset"
    and addr: "\<And>q. q \<in> U \<Longrightarrow> q - 16 = p - 16 \<longleftrightarrow> q = p"
  shows "queued (gc_work_list_insert s p) U (p # Q)"
proof -
  let ?s = "gc_work_list_insert s p"
  have n: "m_next_in_work (hdr ?s q) = (if q = p then m_gc_work_head s else m_next_in_work (hdr s q))"
    if "q \<in> U" for q
    using addr [OF that] by (simp add: gc_work_list_insert_def set_next_in_work_def GvmHeaderSize_def)
  have "chain ?s (m_gc_work_head s) Q = chain s (m_gc_work_head s) Q"
    by (rule chain_cong) (use n p Q in \<open>auto simp: queued_def\<close>)
  moreover have "m_gc_work_head ?s = p" by (simp add: gc_work_list_insert_def)
  ultimately show ?thesis using Q p n by (auto simp: queued_def)
qed

lemma pop_queued:
  assumes Q: "queued s U (p # Q)" and addr: "\<And>q. q \<in> U \<Longrightarrow> q - 16 = p - 16 \<longleftrightarrow> q = p"
  shows "fst (gc_work_pop s) = p" "queued (snd (gc_work_pop s)) U Q"
proof -
  have h: "m_gc_work_head s = p" "p \<noteq> nulloffset" and pU: "p \<in> U" "p \<notin> set Q"
    using Q by (auto simp: queued_def)
  show "fst (gc_work_pop s) = p" using h by (simp add: gc_work_pop_def Let_def)
  let ?s = "snd (gc_work_pop s)"
  have n: "m_next_in_work (hdr ?s q) = (if q = p then nulloffset else m_next_in_work (hdr s q))"
    if "q \<in> U" for q
    using addr [OF that] h
    by (simp add: gc_work_pop_def set_next_in_work_def GvmHeaderSize_def Let_def)
  have "m_gc_work_head ?s = m_next_in_work (hdr s p)"
    using h by (simp add: gc_work_pop_def set_next_in_work_def GvmHeaderSize_def Let_def)
  moreover have "chain ?s h Q = chain s h Q" for h
    by (rule chain_cong) (use n pU Q in \<open>auto simp: queued_def\<close>)
  ultimately show "queued ?s U Q" using Q n pU by (auto simp: queued_def)
qed

lemma queued_empty: "queued s U Q \<Longrightarrow> m_gc_work_head s = nulloffset \<longleftrightarrow> Q = []"
  by (cases Q) (auto simp: queued_def)

section \<open>Reachability\<close>

inductive gc_reachable :: "gvm \<Rightarrow> mark_item list \<Rightarrow> (nat \<Rightarrow> mark_item list) \<Rightarrow> nat \<Rightarrow> bool"
  for s roots refs where
  root: "Mark r \<in> set roots \<Longrightarrow> r \<in> gvm_user_blocks s \<Longrightarrow> gc_reachable s roots refs r"
| step: "gc_reachable s roots refs p \<Longrightarrow> \<not> gc_kind_has_no_children (m_kind (hdr s p)) \<Longrightarrow>
    Mark r \<in> set (refs p) \<Longrightarrow> r \<in> gvm_user_blocks s \<Longrightarrow> gc_reachable s roots refs r"

text \<open>The offsets a list of items marks, and the local containers it visits.\<close>

definition marks :: "mark_item list \<Rightarrow> nat set" where
  "marks is = {r. Mark r \<in> set is}"

definition visits :: "mark_item list \<Rightarrow> nat set" where
  "visits is = {q. Visit q \<in> set is}"

lemma marks_simps [simp]:
  "marks [] = {}" "marks (Mark r # is) = insert r (marks is)" "marks (Visit q # is) = marks is"
  "visits [] = {}" "visits (Visit q # is) = insert q (visits is)" "visits (Mark r # is) = visits is"
  by (auto simp: marks_def visits_def)

text \<open>The local containers that a pass over the reachable blocks meets.\<close>

definition local_visits :: "gvm \<Rightarrow> mark_item list \<Rightarrow> (nat \<Rightarrow> mark_item list) \<Rightarrow> nat set" where
  "local_visits s roots refs = visits roots \<union> (\<Union>p\<in>{p. gc_reachable s roots refs p}. visits (refs p))"

text \<open>A reference is local, or names a live user block.\<close>

definition ref_ok :: "gvm \<Rightarrow> nat \<Rightarrow> bool" where
  "ref_ok s r \<longleftrightarrow> r < m_vm_ptr s \<or> r \<in> gvm_user_blocks s"

text \<open>
  \<open>marking s0 s Q M\<close>: from the state \<open>s0\<close> the marking has reached \<open>s\<close>, in which exactly the
  blocks \<open>M\<close> carry the current generation and the composite blocks \<open>Q\<close> wait to be walked.
\<close>

definition marking :: "gvm \<Rightarrow> gvm \<Rightarrow> nat list \<Rightarrow> nat set \<Rightarrow> bool" where
  "marking s0 s Q M \<longleftrightarrow> gc_same s0 s \<and> queued s (gvm_user_blocks s0) Q \<and> M \<subseteq> gvm_user_blocks s0 \<and>
     set Q \<subseteq> M \<and> (\<forall>p\<in>set Q. \<not> gc_kind_has_no_children (m_kind (hdr s0 p))) \<and>
     m_gc_marked_count s = card M \<and>
     (\<forall>p\<in>gvm_user_blocks s0. m_mark_gen (hdr s p) = m_gc_current_gen s0 \<longleftrightarrow> p \<in> M)"

section \<open>One visit\<close>

text \<open>An array with room for all containers of \<open>V\<close>, of which it holds some.\<close>

definition visiting :: "nat set \<Rightarrow> local_visited \<Rightarrow> bool" where
  "visiting V v \<longleftrightarrow> finite V \<and> card V \<le> snd v \<and> set (fst v) \<subseteq> V \<and> distinct (fst v)"

lemma visit_step:
  assumes v: "visiting V v" and q: "q \<in> V"
  shows "\<exists>v'. gc_try_record_local_visit s v q = Value (s, v') \<and> visiting V v'"
proof (cases "q \<in> set (fst v)")
  case True
  then show ?thesis using v by (auto simp: gc_try_record_local_visit_def split: prod.split)
next
  case False
  have "length (fst v) = card (set (fst v))" using v distinct_card by (fastforce simp: visiting_def)
  also have "\<dots> < card V" using v q False by (intro psubset_card_mono) (auto simp: visiting_def)
  finally have "length (fst v) < snd v" using v by (simp add: visiting_def)
  then show ?thesis using v q False
    by (auto simp: gc_try_record_local_visit_def visiting_def split: prod.split)
qed

section \<open>One mark\<close>

lemma mark_global_offset_local:
  "heap_ok s \<Longrightarrow> r < m_vm_ptr s \<Longrightarrow> mark_global_offset s r = Value s"
  by (auto simp: mark_global_offset_def heap_ok_def heap_inv_def vm_layout_def gvm_consts)

lemma mark_global_offset_user:
  assumes h: "heap_ok s" and r: "r \<in> gvm_user_blocks s"
  shows "mark_global_offset s r =
    Value (if m_mark_gen (hdr s r) = m_gc_current_gen s then s else gc_mark_reached s r (m_kind (hdr s r)))"
proof -
  obtain xs where I: "heap_inv s xs" using h by (auto simp: heap_ok_def)
  obtain n k where "gvm_live s r = Some (n, k)" using r by (auto simp: gvm_user_blocks_def)
  then obtain x where x: "x \<in> set xs" "r = x + 16" "\<not> blk_free s x" by (rule gvm_live_SomeE [OF I])
  note m = heap_inv_mem [OF I x(1)]
  have kind: "gvm_get_kind s r = m_kind (hdr s r)" "\<not> gvm_block_is_free s r"
    using x by (simp_all add: gvm_get_kind_def gvm_block_is_free_def gvm_block_at_def gvm_consts
        gvm_kind_is_free_def)
  have fit: "r \<noteq> 0" "r < m_vm_limit s" "m_vm_global s + 16 \<le> r" "8 dvd r"
    using x(2) m heap_inv_pos [OF I x(1)] by (auto simp: nulloffset_def)
  have sz: "gvm_get_block_size s r = blk_size s x" "gvm_block_extends_to s r = x + blk_size s x"
    using x(2) by (simp_all add: gvm_get_block_size_def gvm_block_extends_to_def gvm_block_at_def
        gvm_consts)
  show ?thesis unfolding mark_global_offset_def Let_def
    using fit sz kind m by (simp add: gvm_get_mark_gen_def gvm_block_at_def gvm_consts)
qed

lemma mark_reached_hdr:
  assumes "q - 16 = r - 16 \<longleftrightarrow> q = r"
  shows "m_mark_gen (hdr (gc_mark_reached s r k) q) =
      (if q = r then m_gc_current_gen s else m_mark_gen (hdr s q))"
    and "m_gc_marked_count (gc_mark_reached s r k) = m_gc_marked_count s + 1"
  using assms by (auto simp: gc_mark_reached_def gvm_set_mark_gen_def gc_work_push_def
      gc_work_list_insert_def set_next_in_work_def gvm_block_at_def GvmHeaderSize_def Let_def)

lemma queued_same_links:
  assumes "queued s U Q" "m_gc_work_head s' = m_gc_work_head s"
    "\<And>p. m_next_in_work (hdr s' p) = m_next_in_work (hdr s p)"
  shows "queued s' U Q"
  using assms chain_cong [of Q s' s] by (simp add: queued_def)

lemma mark_reached_queued:
  assumes Q: "queued s U Q" and r: "r \<in> U" "r \<notin> set Q" "r \<noteq> nulloffset"
    and addr: "\<And>q. q \<in> U \<Longrightarrow> q - 16 = r - 16 \<longleftrightarrow> q = r"
  shows "queued (gc_mark_reached s r k) U (if gc_kind_has_no_children k then Q else r # Q)"
proof -
  let ?s = "gvm_set_mark_gen s r (m_gc_current_gen s)"
  have Q1: "queued ?s U Q"
    by (rule queued_same_links [OF Q]) (simp_all add: gvm_set_mark_gen_def gvm_block_at_def GvmHeaderSize_def)
  have "queued (?s\<lparr>m_gc_marked_count := c\<rparr>) U Q" for c
    by (rule queued_same_links [OF Q1]) simp_all
  moreover have "queued ((gc_work_list_insert ?s r)\<lparr>m_gc_marked_count := c\<rparr>) U (r # Q)" for c
    by (rule queued_same_links [OF insert_queued [OF Q1 r addr]]) simp_all
  ultimately show ?thesis by (simp add: gc_mark_reached_def gc_work_push_def Let_def)
qed

lemma mark_step:
  assumes h: "heap_ok s0" and K: "marking s0 s Q M" and r: "ref_ok s0 r"
  defines "U \<equiv> gvm_user_blocks s0"
  shows "\<exists>s'. mark_global_offset s r = Value s' \<and> marking s0 s'
    ((if r \<in> U - M \<and> \<not> gc_kind_has_no_children (m_kind (hdr s0 r)) then [r] else []) @ Q) (M \<union> ({r} \<inter> U))"
proof -
  have same: "gc_same s0 s" using K by (simp add: marking_def)
  note S = gc_same_ok [OF same h]
  have gen: "m_gc_current_gen s = m_gc_current_gen s0" by (rule gc_same_gen [OF same])
  show ?thesis
  proof (cases "r \<in> U")
    case False
    then have "r < m_vm_ptr s" using r same by (simp add: ref_ok_def U_def gc_same_def gc_frame_def)
    then show ?thesis using mark_global_offset_local [OF S(1)] K False by simp
  next
    case True
    have run: "mark_global_offset s r = Value (if r \<in> M then s else gc_mark_reached s r (m_kind (hdr s r)))"
      using mark_global_offset_user [OF S(1), of r] True K gen S(3) by (simp add: marking_def U_def)
    show ?thesis
    proof (cases "r \<in> M")
      case True
      then show ?thesis using run K by (auto simp: insert_absorb marking_def U_def)
    next
      case False
      have kind: "m_kind (hdr s r) = m_kind (hdr s0 r)"
        using same by (simp add: gc_same_def same_heap_def)
      have addr: "q - 16 = r - 16 \<longleftrightarrow> q = r" if "q \<in> U" for q
        using user_block_addr [OF h] that True by (simp add: U_def)
      have r0: "r \<noteq> nulloffset" using user_block_ge [OF h] True by (fastforce simp: U_def nulloffset_def)
      let ?s = "gc_mark_reached s r (m_kind (hdr s0 r))"
      let ?Q = "if gc_kind_has_no_children (m_kind (hdr s0 r)) then Q else r # Q"
      have "queued ?s U ?Q"
        by (rule mark_reached_queued) (use K True False r0 addr in \<open>auto simp: marking_def U_def\<close>)
      moreover have "gc_same s0 ?s" using gc_same_trans [OF same] gc_same_ops by blast
      moreover have "finite M"
        using K finite_user_blocks [OF h] finite_subset by (auto simp: marking_def)
      ultimately have "marking s0 ?s ?Q (insert r M)"
        using K True False mark_reached_hdr [OF addr, of _ s "m_kind (hdr s0 r)"] gen
        by (auto simp: marking_def U_def)
      then show ?thesis using run False True kind by (simp split: if_splits)
    qed
  qed
qed

lemma mark_items_run:
  assumes h: "heap_ok s0" and "marking s0 s Q M" "\<forall>r\<in>marks is. ref_ok s0 r" "visiting V v" "visits is \<subseteq> V"
  defines "U \<equiv> gvm_user_blocks s0"
  shows "\<exists>s' v' ns. mark_items s v is = Value (s', v') \<and> visiting V v' \<and>
    marking s0 s' (ns @ Q) (M \<union> (marks is \<inter> U)) \<and>
    set ns = {p \<in> marks is \<inter> U - M. \<not> gc_kind_has_no_children (m_kind (hdr s0 p))}"
  using assms(2-5)
proof (induction "is" arbitrary: s v Q M)
  case Nil
  then show ?case by (intro exI [of _ s] exI [of _ v] exI [of _ "[]"]) simp
next
  case (Cons i "is")
  show ?case
  proof (cases i)
    case (Visit q)
    then obtain v1 where v1: "gc_try_record_local_visit s v q = Value (s, v1)" "visiting V v1"
      using visit_step [of V v q s] Cons.prems(3,4) by auto
    show ?thesis using Cons.IH [OF Cons.prems(1) _ v1(2)] Cons.prems Visit v1(1) by simp
  next
    case (Mark r)
    let ?n = "if r \<in> U - M \<and> \<not> gc_kind_has_no_children (m_kind (hdr s0 r)) then [r] else []"
    obtain s1 where s1: "mark_global_offset s r = Value s1" "marking s0 s1 (?n @ Q) (M \<union> ({r} \<inter> U))"
      using mark_step [OF h Cons.prems(1), of r] Cons.prems(2) Mark by (auto simp: U_def)
    from Cons.IH [OF this(2) _ Cons.prems(3)] Cons.prems(2,4) Mark obtain s2 v2 ns where
      s2: "mark_items s1 v is = Value (s2, v2)" "visiting V v2"
      "marking s0 s2 (ns @ ?n @ Q) (M \<union> ({r} \<inter> U) \<union> (marks is \<inter> U))"
      "set ns = {p \<in> marks is \<inter> U - (M \<union> ({r} \<inter> U)). \<not> gc_kind_has_no_children (m_kind (hdr s0 p))}"
      by auto
    have "M \<union> ({r} \<inter> U) \<union> (marks is \<inter> U) = M \<union> (marks (i # is) \<inter> U)" using Mark by auto
    with s1(1) s2 Mark show ?thesis
      by (intro exI [of _ s2] exI [of _ v2] exI [of _ "ns @ ?n"]) auto
  qed
qed

section \<open>The drain loop\<close>

text \<open>Every marked composite block is queued or has all its references marked.\<close>

definition closed_under :: "gvm \<Rightarrow> (nat \<Rightarrow> mark_item list) \<Rightarrow> nat list \<Rightarrow> nat set \<Rightarrow> bool" where
  "closed_under s0 refs Q M \<longleftrightarrow>
     (\<forall>p\<in>M - set Q. \<not> gc_kind_has_no_children (m_kind (hdr s0 p)) \<longrightarrow>
        marks (refs p) \<inter> gvm_user_blocks s0 \<subseteq> M)"

definition refs_ok :: "gvm \<Rightarrow> (nat \<Rightarrow> mark_item list) \<Rightarrow> bool" where
  "refs_ok s refs \<longleftrightarrow> (\<forall>p\<in>gvm_user_blocks s. \<not> gc_kind_has_no_children (m_kind (hdr s p)) \<longrightarrow>
     (\<forall>r\<in>marks (refs p). ref_ok s r))"

lemma walk_step:
  assumes h: "heap_ok s0" and R: "refs_ok s0 refs" and K: "marking s0 s (p # Q) M"
    and C: "closed_under s0 refs (p # Q) M" and V: "visiting V v" "visits (refs p) \<subseteq> V"
  shows "\<exists>s' v' ns. walk_block_contents refs (snd (gc_work_pop s)) v (fst (gc_work_pop s)) = Value (s', v') \<and>
    visiting V v' \<and>
    marking s0 s' (ns @ Q) (M \<union> (marks (refs p) \<inter> gvm_user_blocks s0)) \<and>
    set ns \<subseteq> marks (refs p) \<inter> gvm_user_blocks s0 - M \<and>
    closed_under s0 refs (ns @ Q) (M \<union> (marks (refs p) \<inter> gvm_user_blocks s0))"
proof -
  let ?U = "gvm_user_blocks s0" and ?t = "snd (gc_work_pop s)"
  have pU: "p \<in> ?U" "p \<in> M" "p \<notin> set Q" and pk: "\<not> gc_kind_has_no_children (m_kind (hdr s0 p))"
    and same: "gc_same s0 s"
    using K by (auto simp: marking_def queued_def)
  have "queued s ?U (p # Q)" using K by (simp add: marking_def)
  note P = pop_queued [OF this user_block_addr [OF h _ pU(1)]]
  have K1: "marking s0 ?t Q M"
  proof -
    have "m_mark_gen (headers ?t y) = m_mark_gen (headers s y)" "m_gc_marked_count ?t = m_gc_marked_count s" for y
      by (simp_all add: gc_work_pop_def set_next_in_work_def Let_def)
    moreover have "gc_same s0 ?t" using gc_same_trans [OF same] gc_same_ops by blast
    ultimately show ?thesis using K P(2) by (auto simp: marking_def)
  qed
  have live: "gvm_get_kind ?t p = m_kind (hdr s0 p)"
  proof -
    have t: "gc_same s0 ?t" using K1 by (simp add: marking_def)
    obtain xs where I: "heap_inv ?t xs" using gc_same_ok(1) [OF t h] by (auto simp: heap_ok_def)
    obtain n k where "gvm_live ?t p = Some (n, k)"
      using pU(1) gc_same_ok(2) [OF t h] by (auto simp: gvm_user_blocks_def)
    then obtain x where "p = x + 16" "\<not> blk_free ?t x" by (rule gvm_live_SomeE [OF I])
    moreover have "m_kind (hdr ?t p) = m_kind (hdr s0 p)" using t by (simp add: gc_same_def same_heap_def)
    ultimately show ?thesis
      by (simp add: gvm_get_kind_def gvm_block_at_def gvm_consts gvm_kind_is_free_def)
  qed
  have "\<forall>r\<in>marks (refs p). ref_ok s0 r" using R pU pk by (auto simp: refs_ok_def)
  from mark_items_run [OF h K1 this V] obtain s' v' ns where
    m: "mark_items ?t v (refs p) = Value (s', v')" "marking s0 s' (ns @ Q) (M \<union> (marks (refs p) \<inter> ?U))"
      "set ns = {q \<in> marks (refs p) \<inter> ?U - M. \<not> gc_kind_has_no_children (m_kind (hdr s0 q))}"
      "visiting V v'" by blast
  have "closed_under s0 refs (ns @ Q) (M \<union> (marks (refs p) \<inter> ?U))"
    using C m(3) unfolding closed_under_def by (auto; blast)
  moreover have "walk_block_contents refs ?t v (fst (gc_work_pop s)) = Value (s', v')"
    using P(1) live pk m(1) by (simp add: walk_block_contents_def)
  ultimately show ?thesis using m by blast
qed

lemma drain_run:
  assumes h: "heap_ok s0" and R: "refs_ok s0 refs"
    and V: "local_visits s0 roots refs \<subseteq> V"
  shows "marking s0 s Q M \<Longrightarrow> closed_under s0 refs Q M \<Longrightarrow> \<forall>p\<in>M. gc_reachable s0 roots refs p \<Longrightarrow>
    visiting V v \<Longrightarrow> \<exists>s' M'. gc_drain refs s v = Some (Value s') \<and> marking s0 s' [] M' \<and> closed_under s0 refs [] M' \<and>
      M \<subseteq> M' \<and> (\<forall>p\<in>M'. gc_reachable s0 roots refs p)"
proof (induction "card (gvm_user_blocks s0 - M) + length Q" arbitrary: s v Q M rule: less_induct)
  case less
  let ?U = "gvm_user_blocks s0"
  show ?case
  proof (cases Q)
    case Nil
    then have "gc_drain refs s v = Some (Value s)"
      using less.prems(1) queued_empty by (subst gc_drain.simps) (auto simp: marking_def)
    then show ?thesis using less.prems Nil by blast
  next
    case (Cons p Q0)
    let ?M = "M \<union> (marks (refs p) \<inter> ?U)"
    have "p \<in> M" using less.prems(1) Cons by (auto simp: marking_def)
    then have "visits (refs p) \<subseteq> V" using V less.prems(3) by (auto simp: local_visits_def)
    then obtain s1 v1 ns where
      w: "walk_block_contents refs (snd (gc_work_pop s)) v (fst (gc_work_pop s)) = Value (s1, v1)"
      "marking s0 s1 (ns @ Q0) ?M" "set ns \<subseteq> marks (refs p) \<inter> ?U - M" "closed_under s0 refs (ns @ Q0) ?M"
      "visiting V v1"
      using walk_step [OF h R less.prems(1,2) [unfolded Cons] less.prems(4)] by blast
    have fin: "finite ?U" by (rule finite_user_blocks [OF h])
    have "length ns = card (set ns)"
      using w(2) distinct_card by (fastforce simp: marking_def queued_def)
    also have "\<dots> \<le> card (?M - M)" by (rule card_mono) (use fin w(3) in \<open>auto intro: finite_subset\<close>)
    finally have "length ns + card (?U - ?M) \<le> card (?M - M) + card (?U - ?M)" by simp
    also have "\<dots> = card ((?M - M) \<union> (?U - ?M))"
      by (rule card_Un_disjoint [symmetric]) (use fin in \<open>auto intro: finite_subset\<close>)
    also have "(?M - M) \<union> (?U - ?M) = ?U - M" by auto
    finally have dec: "card (?U - ?M) + length (ns @ Q0) < card (?U - M) + length Q"
      using Cons by simp
    have "p \<in> M" "\<not> gc_kind_has_no_children (m_kind (hdr s0 p))"
      using less.prems(1) Cons by (auto simp: marking_def)
    then have reach: "\<forall>q\<in>?M. gc_reachable s0 roots refs q"
      using less.prems(3) by (auto simp: marks_def intro: gc_reachable.step)
    have "m_gc_work_head s \<noteq> nulloffset"
      using less.prems(1) Cons queued_empty by (auto simp: marking_def)
    then have "gc_drain refs s v = gc_drain refs s1 v1" using w(1) by (subst gc_drain.simps) simp
    with less.hyps [OF dec w(2,4) reach w(5)] show ?thesis by auto
  qed
qed

end
