(* ===== verification/Gc_Correct.thy ===== *)
theory Gc_Correct
  imports Gc_Mark
begin

text \<open>
  The sweep and the whole collection of \<^verbatim>\<open>src/gc.inl\<close>: from a quiescent heap whose references
  are sound, a collection returns, keeps exactly the reachable user blocks, reports the bytes of
  the others and leaves the heap quiescent again. The theory ends with the proof that the
  collector meets the contract the allocator relies on.
\<close>

section \<open>Collecting the doomed blocks\<close>

definition doomed :: "gvm \<Rightarrow> nat \<Rightarrow> bool" where
  "doomed s x \<longleftrightarrow> \<not> blk_free s x \<and> m_kind (headers s x) \<noteq> ChunkKind_GcScratch \<and>
     m_mark_gen (headers s x) \<noteq> m_gc_current_gen s"

lemma user_block_mem:
  assumes "heap_inv s xs"
  shows "x + 16 \<in> gvm_user_blocks s \<longleftrightarrow>
    x \<in> set xs \<and> \<not> blk_free s x \<and> m_kind (headers s x) \<noteq> ChunkKind_GcScratch"
  by (auto simp: gvm_user_blocks_def gvm_live_inv [OF assms])

lemma sweep_visit_step:
  assumes "gc_same s t" "\<And>x. m_mark_gen (headers t x) = m_mark_gen (headers s x)"
  shows "gc_sweep_visit (visit_of s x) (t, n) =
    (if doomed s x then (gc_work_list_insert t (x + 16), n + blk_size s x) else (t, n))"
  using assms gc_same_gen [OF assms(1)]
  by (simp add: gc_sweep_visit_def visit_of_def doomed_def gc_doomed_push_def gvm_get_mark_gen_def
      gvm_block_at_def GvmHeaderSize_def)

lemma insert_marks [simp]:
  "m_mark_gen (headers (gc_work_list_insert t p) x) = m_mark_gen (headers t x)"
  by (simp add: gc_work_list_insert_def set_next_in_work_def)

lemma sweep_fold:
  assumes I: "heap_inv s xs" and ys: "set ys \<subseteq> set xs" "distinct ys"
    and t: "gc_same s t" "\<And>x. m_mark_gen (headers t x) = m_mark_gen (headers s x)"
      "queued t (gvm_user_blocks s) Q" "\<forall>y\<in>set ys. y + 16 \<notin> set Q"
  shows "\<exists>t' Q'. fold gc_sweep_visit (map (visit_of s) ys) (t, n) =
      (t', n + sum_list (map (blk_size s) (filter (doomed s) ys))) \<and> gc_same s t' \<and>
    (\<forall>x. m_mark_gen (headers t' x) = m_mark_gen (headers s x)) \<and>
    queued t' (gvm_user_blocks s) Q' \<and> set Q' = set Q \<union> (\<lambda>y. y + 16) ` set (filter (doomed s) ys)"
  using ys t
proof (induction ys arbitrary: t Q n)
  case Nil
  then show ?case by auto
next
  case (Cons y ys)
  note step = sweep_visit_step [OF Cons.prems(3,4), of y n]
  show ?case
  proof (cases "doomed s y")
    case False
    then show ?thesis using Cons.IH [OF _ _ Cons.prems(3-5), of n] Cons.prems step by auto
  next
    case True
    have h: "heap_ok s" using I by (auto simp: heap_ok_def)
    have yU: "y + 16 \<in> gvm_user_blocks s"
      using True Cons.prems(1) by (simp add: user_block_mem [OF I] doomed_def)
    let ?t = "gc_work_list_insert t (y + 16)"
    have q: "queued ?t (gvm_user_blocks s) ((y + 16) # Q)"
      by (rule insert_queued)
        (use Cons.prems yU user_block_addr [OF h _ yU] in \<open>auto simp: nulloffset_def\<close>)
    have g: "gc_same s ?t" using gc_same_trans [OF Cons.prems(3)] gc_same_ops by blast
    obtain t' Q' where r: "fold gc_sweep_visit (map (visit_of s) ys) (?t, n + blk_size s y) =
        (t', n + blk_size s y + sum_list (map (blk_size s) (filter (doomed s) ys)))"
      "gc_same s t'" "\<forall>x. m_mark_gen (headers t' x) = m_mark_gen (headers s x)"
      "queued t' (gvm_user_blocks s) Q'"
      "set Q' = set ((y + 16) # Q) \<union> (\<lambda>y. y + 16) ` set (filter (doomed s) ys)"
      using Cons.IH [OF _ _ g _ q, of "n + blk_size s y"] Cons.prems by auto
    then show ?thesis using step True by (intro exI [of _ t'] exI [of _ Q']) auto
  qed
qed

section \<open>Freeing the doomed blocks\<close>

definition sweep_frame :: "gvm \<Rightarrow> gvm \<Rightarrow> bool" where
  "sweep_frame s s' \<longleftrightarrow> m_vm_ptr s' = m_vm_ptr s \<and> m_vm_limit s' = m_vm_limit s \<and>
     m_vm_temp_ptr s' = m_vm_temp_ptr s \<and> m_vm_alloc_active s' = m_vm_alloc_active s \<and>
     m_gc_current_gen s' = m_gc_current_gen s \<and> m_in_gc s' = m_in_gc s \<and>
     (m_gc_scratch_offset s = nulloffset \<longrightarrow> m_gc_scratch_offset s' = nulloffset)"

text \<open>When the last user block goes, so does the scratch block.\<close>

definition emptied :: "gvm \<Rightarrow> gvm \<Rightarrow> bool" where
  "emptied s t \<longleftrightarrow> (gvm_user_blocks s \<noteq> {} \<longrightarrow> gvm_user_blocks t = {} \<longrightarrow> gvm_live t = Map.empty)"

lemma emptied_trans:
  assumes "emptied s t" "emptied t u" "gvm_live u \<subseteq>\<^sub>m gvm_live t"
  shows "emptied s u"
proof (cases "gvm_user_blocks t = {}")
  case True
  then have "gvm_user_blocks s \<noteq> {} \<Longrightarrow> dom (gvm_live u) \<subseteq> {}"
    using assms(1) map_le_implies_dom_le [OF assms(3)] by (simp add: emptied_def)
  then show ?thesis by (simp add: emptied_def)
next
  case False
  then show ?thesis using assms(2) by (simp add: emptied_def)
qed

lemma sweep_frame_trans: "sweep_frame s t \<Longrightarrow> sweep_frame t u \<Longrightarrow> sweep_frame s u"
  by (simp add: sweep_frame_def)

lemma gc_same_sweep_frame: "gc_same s t \<Longrightarrow> sweep_frame s t"
  by (simp add: gc_same_def gc_frame_def sweep_frame_def same_heap_def vm_frame_def)

lemma free_one_doomed:
  assumes ok: "gvm_ok s" and Q: "queued s (gvm_user_blocks s) (p # Q)"
  shows "\<exists>t. gvm_free (snd (gc_work_pop s)) (fst (gc_work_pop s)) = Value t \<and> gvm_ok t \<and>
    gvm_user_blocks t = gvm_user_blocks s - {p} \<and> queued t (gvm_user_blocks t) Q \<and>
    sweep_frame s t \<and> gvm_live t \<subseteq>\<^sub>m gvm_live s \<and> emptied s t \<and>
    (gvm_user_blocks t \<noteq> {} \<longrightarrow> m_gc_scratch_offset t = m_gc_scratch_offset s) \<and>
    (\<forall>q\<in>gvm_user_blocks t. gvm_live t q = gvm_live s q \<and> hdr t q = hdr s q)"
proof -
  let ?s = "snd (gc_work_pop s)"
  have h: "heap_ok s" using ok by (simp add: gvm_ok_def)
  have same: "gc_same s ?s" by (rule gc_same_ops)
  note S = gc_same_ok [OF same h]
  have pU: "p \<in> gvm_user_blocks s" "p \<notin> set Q" using Q by (auto simp: queued_def)
  note addr = user_block_addr [OF h _ pU(1)]
  note P = pop_queued [OF Q addr]
  obtain n k where p: "gvm_live ?s p = Some (n, k)" "k \<noteq> ChunkKind_GcScratch"
    using pU S(2) by (auto simp: gvm_user_blocks_def)
  obtain t where t: "gvm_free ?s p = Value t" "gvm_free_post ?s p t"
    using gvm_free_run [OF _ p] ok S(4) by blast
  have L: "gvm_live t = (if gvm_user_blocks s = {p} then Map.empty else (gvm_live s)(p := None))"
    using t(2) S(2,3) by (simp add: gvm_free_post_def)
  have U: "gvm_user_blocks t = gvm_user_blocks s - {p}"
    using L by (auto simp: gvm_user_blocks_def)
  have hs: "hdr ?s q = hdr s q" if "q \<in> gvm_user_blocks s - {p}" for q
    using that addr [of q] Q
    by (auto simp: gc_work_pop_def set_next_in_work_def GvmHeaderSize_def queued_def Let_def)
  have ht: "hdr t q = hdr ?s q" if "q \<in> gvm_user_blocks t" for q
    using that t(2) by (auto simp: gvm_free_post_def gvm_user_blocks_def)
  have Qt: "queued t (gvm_user_blocks t) Q"
  proof -
    have QU: "q \<in> gvm_user_blocks t" if "q \<in> set Q" for q
      using that P(2) pU U by (auto simp: queued_def)
    have "chain t h Q = chain ?s h Q" for h by (rule chain_cong) (simp add: ht [OF QU])
    then show ?thesis using P(2) pU U ht t(2) by (auto simp: queued_def gvm_free_post_def)
  qed
  have "sweep_frame ?s t" using t(2) by (simp add: gvm_free_post_def sweep_frame_def)
  then have F: "sweep_frame s t" using sweep_frame_trans gc_same_sweep_frame [OF same] by blast
  have sub: "gvm_live t \<subseteq>\<^sub>m gvm_live s" using L by (auto simp: map_le_def split: if_splits)
  have "gvm_live t q = gvm_live s q \<and> hdr t q = hdr s q" if "q \<in> gvm_user_blocks t" for q
    using that L U ht [of q] hs [of q] by (auto simp: gvm_user_blocks_def split: if_splits)
  moreover have "m_gc_scratch_offset t = m_gc_scratch_offset s" if "gvm_user_blocks t \<noteq> {}"
  proof (cases "m_gc_scratch_offset s = nulloffset")
    case True
    then show ?thesis using F by (simp add: sweep_frame_def)
  next
    case False
    then obtain m where "gvm_live s (m_gc_scratch_offset s) = Some (m, ChunkKind_GcScratch)"
      using ok by (auto simp: gvm_ok_def)
    moreover from this have "m_gc_scratch_offset s \<noteq> p" using p S(2) by auto
    ultimately have "gvm_live t (m_gc_scratch_offset s) = Some (m, ChunkKind_GcScratch)"
      using that U L by auto
    then show ?thesis using t(2) by (auto simp: gvm_free_post_def gvm_ok_def)
  qed
  moreover have "emptied s t" using L U by (auto simp: emptied_def)
  ultimately show ?thesis using t P(1) U Qt F sub by (auto simp: gvm_free_post_def)
qed

lemma free_doomed_run:
  "gvm_ok s \<Longrightarrow> queued s (gvm_user_blocks s) Q \<Longrightarrow>
    \<exists>t. gc_free_doomed s = Some (Value t) \<and> gvm_ok t \<and> gvm_user_blocks t = gvm_user_blocks s - set Q \<and>
      m_gc_work_head t = nulloffset \<and> sweep_frame s t \<and> gvm_live t \<subseteq>\<^sub>m gvm_live s \<and> emptied s t \<and>
      (gvm_user_blocks t \<noteq> {} \<longrightarrow> m_gc_scratch_offset t = m_gc_scratch_offset s) \<and>
      (\<forall>q\<in>gvm_user_blocks t. gvm_live t q = gvm_live s q \<and> hdr t q = hdr s q)"
proof (induction Q arbitrary: s)
  case Nil
  then have e: "m_gc_work_head s = nulloffset" using queued_empty by blast
  then have "gc_free_doomed s = Some (Value s)" by (simp add: gc_free_doomed.simps)
  then show ?case using Nil e by (simp add: sweep_frame_def emptied_def)
next
  case (Cons p Q)
  obtain s1 where s1: "gvm_free (snd (gc_work_pop s)) (fst (gc_work_pop s)) = Value s1" "gvm_ok s1"
    "gvm_user_blocks s1 = gvm_user_blocks s - {p}" "queued s1 (gvm_user_blocks s1) Q"
    "sweep_frame s s1" "gvm_live s1 \<subseteq>\<^sub>m gvm_live s" "emptied s s1"
    "gvm_user_blocks s1 \<noteq> {} \<longrightarrow> m_gc_scratch_offset s1 = m_gc_scratch_offset s"
    "\<forall>q\<in>gvm_user_blocks s1. gvm_live s1 q = gvm_live s q \<and> hdr s1 q = hdr s q"
    using free_one_doomed [OF Cons.prems] by blast
  have "m_gc_work_head s \<noteq> nulloffset" using Cons.prems(2) queued_empty by blast
  then have run: "gc_free_doomed s = gc_free_doomed s1" using s1(1) by (subst gc_free_doomed.simps) simp
  obtain t where t: "gc_free_doomed s1 = Some (Value t)" "gvm_ok t"
    "gvm_user_blocks t = gvm_user_blocks s1 - set Q" "m_gc_work_head t = nulloffset"
    "sweep_frame s1 t" "gvm_live t \<subseteq>\<^sub>m gvm_live s1" "emptied s1 t"
    "gvm_user_blocks t \<noteq> {} \<longrightarrow> m_gc_scratch_offset t = m_gc_scratch_offset s1"
    "\<forall>q\<in>gvm_user_blocks t. gvm_live t q = gvm_live s1 q \<and> hdr t q = hdr s1 q"
    using Cons.IH [OF s1(2,4)] by blast
  have "gvm_live t \<subseteq>\<^sub>m gvm_live s" by (rule map_le_trans [OF t(6) s1(6)])
  moreover have "sweep_frame s t" by (rule sweep_frame_trans [OF s1(5) t(5)])
  moreover have "emptied s t" by (rule emptied_trans [OF s1(7) t(7,6)])
  ultimately show ?case using run t s1(3,8,9) by (intro exI [of _ t]) auto
qed

section \<open>The whole collection\<close>

text \<open>
  Between collections the queue is empty and off every block, all user blocks carry the current
  generation, and a scratch block exists when there are user blocks; the references are sound, and
  the visited array in the scratch block has an entry for every local container of a pass.
\<close>

definition gc_quiet :: "gvm \<Rightarrow> bool" where
  "gc_quiet s \<longleftrightarrow> m_gc_work_head s = nulloffset \<and> m_gc_current_gen s \<in> {0, 1} \<and>
     (\<forall>p\<in>gvm_user_blocks s. m_mark_gen (hdr s p) = m_gc_current_gen s \<and>
        m_next_in_work (hdr s p) = nulloffset) \<and>
     (gvm_user_blocks s \<noteq> {} \<longrightarrow> m_gc_scratch_offset s \<noteq> nulloffset)"

definition gc_ready :: "mark_item list \<Rightarrow> (nat \<Rightarrow> mark_item list) \<Rightarrow> gvm \<Rightarrow> bool" where
  "gc_ready roots refs s \<longleftrightarrow> gc_quiet s \<and> (\<forall>r\<in>marks roots. ref_ok s r) \<and> refs_ok s refs \<and>
     (m_gc_scratch_offset s \<noteq> nulloffset \<longrightarrow>
        card (local_visits s roots refs) \<le> gc_visited_capacity_from_scratch s)"

lemma finite_local_visits: "heap_ok s \<Longrightarrow> finite (local_visits s roots refs)"
proof -
  assume h: "heap_ok s"
  have f: "finite (visits is)" for "is"
    using finite_vimageI [of "set is" Visit] by (simp add: visits_def vimage_def inj_on_def)
  have "{p. gc_reachable s roots refs p} \<subseteq> gvm_user_blocks s"
    using gc_reachable.cases by blast
  then have "finite {p. gc_reachable s roots refs p}"
    using finite_user_blocks [OF h] finite_subset by blast
  then show ?thesis using f by (simp add: local_visits_def)
qed

text \<open>The capacity is a function of the size of the scratch block.\<close>

lemma capacity_live:
  assumes "heap_ok s" "gvm_live s (m_gc_scratch_offset s) = Some (n, k)"
  shows "gc_visited_capacity_from_scratch s = (n - 20) div 4"
proof -
  obtain xs where I: "heap_inv s xs" using assms(1) by (auto simp: heap_ok_def)
  from assms(2) obtain x where "m_gc_scratch_offset s = x + 16" "n = blk_size s x"
    by (blast elim: gvm_live_SomeE [OF I])
  then show ?thesis
    by (simp add: gc_visited_capacity_from_scratch_def gvm_get_payload_size_def gvm_get_block_size_def
        gvm_block_at_def gvm_consts)
qed

lemma capacity_kept:
  assumes "gvm_ok s" "gvm_ok t" "gvm_live t \<subseteq>\<^sub>m gvm_live s" "m_gc_scratch_offset t \<noteq> nulloffset"
  shows "m_gc_scratch_offset t = m_gc_scratch_offset s"
    "gc_visited_capacity_from_scratch t = gc_visited_capacity_from_scratch s"
proof -
  obtain n where n: "gvm_live t (m_gc_scratch_offset t) = Some (n, ChunkKind_GcScratch)"
    using assms(2,4) by (auto simp: gvm_ok_def)
  then have m: "gvm_live s (m_gc_scratch_offset t) = Some (n, ChunkKind_GcScratch)"
    using assms(3) by (auto simp: map_le_def dom_def)
  have "\<forall>p. m_gc_scratch_offset s = p \<and> p \<noteq> nulloffset \<longleftrightarrow> (\<exists>n. gvm_live s p = Some (n, ChunkKind_GcScratch))"
    using assms(1) by (simp add: gvm_ok_def)
  from spec [OF this, of "m_gc_scratch_offset t"] show e: "m_gc_scratch_offset t = m_gc_scratch_offset s"
    using m by simp
  show "gc_visited_capacity_from_scratch t = gc_visited_capacity_from_scratch s"
    using capacity_live [of t n] capacity_live [of s n] assms(1,2) n m e by (simp add: gvm_ok_def)
qed

lemma reachable_user: "gc_reachable s roots refs p \<Longrightarrow> p \<in> gvm_user_blocks s"
  by (induction rule: gc_reachable.induct)

lemma reachable_cong:
  assumes "gvm_user_blocks t = gvm_user_blocks s" "\<And>p. m_kind (hdr t p) = m_kind (hdr s p)"
  shows "gc_reachable t roots refs p = gc_reachable s roots refs p"
proof
  show "gc_reachable s roots refs p" if "gc_reachable t roots refs p"
    using that by induction (use assms in \<open>auto intro: gc_reachable.intros\<close>)
  show "gc_reachable t roots refs p" if "gc_reachable s roots refs p"
    using that by induction (use assms in \<open>auto intro: gc_reachable.intros\<close>)
qed

lemma local_visits_cong:
  assumes "gvm_user_blocks t = gvm_user_blocks s" "\<And>p. m_kind (hdr t p) = m_kind (hdr s p)"
  shows "local_visits t roots refs = local_visits s roots refs"
  by (simp add: local_visits_def reachable_cong [OF assms])

lemma closed_reachable:
  assumes "marks roots \<inter> gvm_user_blocks s \<subseteq> M" "closed_under s refs [] M"
    and "\<forall>p\<in>M. gc_reachable s roots refs p"
  shows "M = {p. gc_reachable s roots refs p}"
proof -
  have "p \<in> M" if "gc_reachable s roots refs p" for p
    using that by induction (use assms in \<open>auto simp: closed_under_def marks_def\<close>)
  then show ?thesis using assms(3) by blast
qed

text \<open>The mark phase from a quiescent heap.\<close>

lemma mark_phase:
  assumes h: "heap_ok s" and Q: "m_gc_work_head s = nulloffset" "m_gc_marked_count s = 0"
    "\<forall>p\<in>gvm_user_blocks s. m_mark_gen (hdr s p) \<noteq> m_gc_current_gen s \<and>
       m_next_in_work (hdr s p) = nulloffset"
    and R: "\<forall>r\<in>marks roots. ref_ok s r" "refs_ok s refs" and V: "card (local_visits s roots refs) \<le> c"
  shows "\<exists>s2 v s3. mark_items s ([], c) roots = Value (s2, v) \<and> gc_drain refs s2 v = Some (Value s3) \<and>
    marking s s3 [] {p. gc_reachable s roots refs p}"
proof -
  let ?U = "gvm_user_blocks s"
  have K: "marking s s [] {}" using Q by (auto simp: marking_def queued_def)
  let ?V = "local_visits s roots refs"
  have v0: "visiting ?V ([], c)" "visits roots \<subseteq> ?V"
    using V finite_local_visits [OF h] by (auto simp: visiting_def local_visits_def)
  from mark_items_run [OF h K R(1) v0] obtain s2 v ns where
    m: "mark_items s ([], c) roots = Value (s2, v)" "marking s s2 ns (marks roots \<inter> ?U)"
      "set ns = {p \<in> marks roots \<inter> ?U. \<not> gc_kind_has_no_children (m_kind (hdr s p))}"
      "visiting ?V v" by auto
  have "closed_under s refs ns (marks roots \<inter> ?U)" using m(3) by (auto simp: closed_under_def)
  moreover have "\<forall>p\<in>marks roots \<inter> ?U. gc_reachable s roots refs p" by (auto simp: marks_def intro: gc_reachable.root)
  ultimately obtain s3 M where "gc_drain refs s2 v = Some (Value s3)" "marking s s3 [] M"
    "closed_under s refs [] M" "marks roots \<inter> ?U \<subseteq> M" "\<forall>p\<in>M. gc_reachable s roots refs p"
    using drain_run [OF h R(2) subset_refl m(2) _ _ m(4)] by blast
  then show ?thesis using m(1) closed_reachable [of roots s M refs] by auto
qed

text \<open>The sweep phase after a mark phase.\<close>

lemma sweep_phase:
  assumes ok: "gvm_ok s" and K: "marking s0 s [] M" "heap_ok s0"
    and U: "gvm_user_blocks s0 = gvm_user_blocks s"
    and n: "0 < n"
  shows "\<exists>t. gc_sweep_unmarked s n =
      Value (\<Sum>p\<in>gvm_user_blocks s - M. fst (the (gvm_live s p)), t) \<and> gvm_ok t \<and>
    gvm_user_blocks t = M \<and> m_gc_work_head t = nulloffset \<and> sweep_frame s t \<and>
    gvm_live t \<subseteq>\<^sub>m gvm_live s \<and> emptied s t \<and>
    (M \<noteq> {} \<longrightarrow> m_gc_scratch_offset t = m_gc_scratch_offset s) \<and> (\<forall>q\<in>M. gvm_live t q = gvm_live s q \<and>
      m_mark_gen (hdr t q) = m_mark_gen (hdr s q) \<and> m_kind (hdr t q) = m_kind (hdr s q) \<and>
      m_next_in_work (hdr t q) = nulloffset)"
proof -
  obtain xs where I: "heap_inv s xs" using ok by (auto simp: gvm_ok_def heap_ok_def)
  have gen: "m_gc_current_gen s = m_gc_current_gen s0" using K gc_same_gen by (auto simp: marking_def)
  have Q: "queued s (gvm_user_blocks s) []" using K U by (simp add: marking_def)
  obtain t Q' where t: "fold gc_sweep_visit (map (visit_of s) xs) (s, 0) =
      (t, sum_list (map (blk_size s) (filter (doomed s) xs)))" "gc_same s t"
    "\<forall>x. m_mark_gen (headers t x) = m_mark_gen (headers s x)" "queued t (gvm_user_blocks s) Q'"
    "set Q' = (\<lambda>y. y + 16) ` set (filter (doomed s) xs)"
    using sweep_fold [OF I subset_refl heap_inv_distinct [OF I] gc_same_refl _ Q, of 0] by auto
  have D: "set Q' = gvm_user_blocks s - M"
  proof -
    have "p \<in> (\<lambda>y. y + 16) ` set (filter (doomed s) xs) \<longleftrightarrow> p \<in> gvm_user_blocks s - M" for p
    proof (cases "16 \<le> p")
      case True
      then obtain x where x: "p = x + 16" by (metis le_add_diff_inverse2)
      have "x \<in> set (filter (doomed s) xs) \<longleftrightarrow> p \<in> gvm_user_blocks s - M"
        using K(1) U gen x user_block_mem [OF I, of x] by (auto simp: marking_def doomed_def)
      then show ?thesis using x by auto
    next
      case False
      then show ?thesis using user_block_ge ok by (auto simp: gvm_ok_def)
    qed
    then show ?thesis using t(5) by blast
  qed
  have h: "heap_ok s" using ok by (simp add: gvm_ok_def)
  note S = gc_same_ok [OF t(2) h]
  have sum: "sum_list (map (blk_size s) (filter (doomed s) xs)) =
      (\<Sum>p\<in>gvm_user_blocks s - M. fst (the (gvm_live s p)))"
  proof -
    have "(\<Sum>p\<in>set Q'. fst (the (gvm_live s p))) =
        (\<Sum>x\<in>set (filter (doomed s) xs). fst (the (gvm_live s (x + 16))))"
      unfolding t(5) by (subst sum.reindex) (auto simp: inj_on_def)
    also have "\<dots> = (\<Sum>x\<in>set (filter (doomed s) xs). blk_size s x)"
      by (rule sum.cong) (auto simp: gvm_live_inv [OF I] doomed_def)
    also have "\<dots> = sum_list (map (blk_size s) (filter (doomed s) xs))"
      using heap_inv_distinct [OF I] by (simp add: sum_list_distinct_conv_sum_set)
    finally show ?thesis using D by simp
  qed
  have "queued t (gvm_user_blocks t) Q'" "gvm_ok t" using t(4) S(3,4) ok by simp_all
  then obtain u where u: "gc_free_doomed t = Some (Value u)" "gvm_ok u"
    "gvm_user_blocks u = gvm_user_blocks t - set Q'" "m_gc_work_head u = nulloffset"
    "sweep_frame t u" "gvm_live u \<subseteq>\<^sub>m gvm_live t" "emptied t u"
    "gvm_user_blocks u \<noteq> {} \<longrightarrow> m_gc_scratch_offset u = m_gc_scratch_offset t"
    "\<forall>q\<in>gvm_user_blocks u. gvm_live u q = gvm_live t q \<and> hdr u q = hdr t q"
    using free_doomed_run by blast
  have Uu: "gvm_user_blocks u = M" using u(3) S(3) D K(1) U by (auto simp: marking_def)
  have "m_next_in_work (hdr u q) = nulloffset" "m_mark_gen (hdr u q) = m_mark_gen (hdr s q)"
    "m_kind (hdr u q) = m_kind (hdr s q)" if "q \<in> M" for q
    using that u(9) Uu t(2,3,4) D K(1) U
    by (auto simp: queued_def marking_def gc_same_def same_heap_def)
  moreover have "gc_sweep_unmarked s n =
      Value (\<Sum>p\<in>gvm_user_blocks s - M. fst (the (gvm_live s p)), u)"
    using n t(1) u(1) sum for_each_inv [OF I] by (simp add: gc_sweep_unmarked_def from_loop_def)
  moreover have "sweep_frame s u" using sweep_frame_trans [OF gc_same_sweep_frame [OF t(2)] u(5)] .
  moreover have "emptied s u" using u(7) S(3) by (simp add: emptied_def)
  moreover have "m_gc_scratch_offset t = m_gc_scratch_offset s"
    using t(2) by (simp add: gc_same_def gc_frame_def)
  ultimately show ?thesis using u Uu S(2) by (intro exI [of _ u]) auto
qed

lemma gc_impl_run:
  assumes ok: "gvm_ok s" and R: "gc_ready roots refs s"
  defines "L \<equiv> {p. gc_reachable s roots refs p}"
  shows "\<exists>t. vm_global_gc_impl roots refs s =
      Value (\<Sum>p\<in>gvm_user_blocks s - L. fst (the (gvm_live s p)), t) \<and> gvm_ok t \<and> gc_quiet t \<and>
    gvm_user_blocks t = L \<and> gvm_live t \<subseteq>\<^sub>m gvm_live s \<and> emptied s t \<and>
    (\<forall>q\<in>L. gvm_live t q = gvm_live s q \<and> m_kind (hdr t q) = m_kind (hdr s q)) \<and>
    sweep_frame (s\<lparr>m_gc_current_gen := m_gc_current_gen t\<rparr>) t"
proof -
  have h: "heap_ok s" and cnt: "m_gvm_user_block_count s = card (gvm_user_blocks s)"
    using ok by (simp_all add: gvm_ok_def)
  have fin: "finite (gvm_user_blocks s)" by (rule finite_user_blocks [OF h])
  have LU: "L \<subseteq> gvm_user_blocks s" using reachable_user by (auto simp: L_def)
  let ?g = "gc_advance_generation s"
  let ?s1 = "?g\<lparr>m_gc_marked_count := 0\<rparr>"
  have e: "gvm_live ?g = gvm_live s" "gvm_live ?s1 = gvm_live s" "heap_ok ?g" "heap_ok ?s1"
    using h by (simp_all add: gc_advance_generation_def)
  have U: "gvm_user_blocks ?g = gvm_user_blocks s" "gvm_user_blocks ?s1 = gvm_user_blocks s"
    using e user_blocks_same by blast+
  have okg: "gvm_ok ?g" "gvm_ok ?s1"
    using ok e U by (simp_all add: gvm_ok_def gc_advance_generation_def)
  show ?thesis
  proof (cases "gvm_user_blocks s = {}")
    case True
    then have "L = {}" using LU by simp
    moreover have "vm_global_gc_impl roots refs s = Value (0, ?g)"
      using True cnt by (simp add: vm_global_gc_impl_def gc_live_block_count_def
          gc_advance_generation_def Let_def)
    moreover have "gc_quiet ?g" using R True U by (auto simp: gc_ready_def gc_quiet_def gc_advance_generation_def)
    ultimately show ?thesis using okg e U True
      by (intro exI [of _ ?g]) (simp add: sweep_frame_def emptied_def gc_advance_generation_def)
  next
    case False
    have Q: "m_gc_work_head ?s1 = nulloffset" "\<forall>p\<in>gvm_user_blocks ?s1.
        m_mark_gen (hdr ?s1 p) \<noteq> m_gc_current_gen ?s1 \<and> m_next_in_work (hdr ?s1 p) = nulloffset"
      using R U by (auto simp: gc_ready_def gc_quiet_def gc_advance_generation_def)
    have "\<forall>r\<in>marks roots. ref_ok ?s1 r" "refs_ok ?s1 refs"
      using R U by (auto simp: gc_ready_def ref_ok_def refs_ok_def gc_advance_generation_def)
    moreover have "card (local_visits ?s1 roots refs) \<le> gc_visited_capacity_from_scratch ?g"
    proof -
      have "local_visits ?s1 roots refs = local_visits s roots refs"
        by (rule local_visits_cong [OF U(2)]) (simp add: gc_advance_generation_def)
      moreover have "gc_visited_capacity_from_scratch ?g = gc_visited_capacity_from_scratch s"
        by (simp add: gc_visited_capacity_from_scratch_def gvm_get_block_size_def gvm_block_at_def
            gc_advance_generation_def)
      ultimately show ?thesis using R False by (simp add: gc_ready_def gc_quiet_def)
    qed
    ultimately have "\<exists>s2 v s3. mark_items ?s1 ([], gc_visited_capacity_from_scratch ?g) roots = Value (s2, v) \<and>
        gc_drain refs s2 v = Some (Value s3) \<and> marking ?s1 s3 [] {p. gc_reachable ?s1 roots refs p}"
      by (intro mark_phase [OF e(4) Q(1) _ Q(2)]) simp_all
    then obtain s2 v s3 where
      m: "mark_items ?s1 ([], gc_visited_capacity_from_scratch ?g) roots = Value (s2, v)"
        "gc_drain refs s2 v = Some (Value s3)"
        "marking ?s1 s3 [] {p. gc_reachable ?s1 roots refs p}"
      by blast
    have Leq: "{p. gc_reachable ?s1 roots refs p} = L"
      using reachable_cong [of ?s1 s] U by (auto simp: L_def gc_advance_generation_def)
    have same: "gc_same ?s1 s3" using m(3) by (simp add: marking_def)
    note S = gc_same_ok [OF same e(4)]
    have mk: "marking ?s1 s3 [] L" using m(3) Leq by simp
    have run: "vm_global_gc_impl roots refs s =
        (if m_gc_marked_count s3 = card (gvm_user_blocks s) then Value (0, s3)
         else gc_sweep_unmarked s3 (card (gvm_user_blocks s) - m_gc_marked_count s3))"
    proof -
      have "m_gc_scratch_offset ?g \<noteq> nulloffset" "m_gvm_user_block_count ?g = card (gvm_user_blocks s)"
        using R False cnt by (simp_all add: gc_ready_def gc_quiet_def gc_advance_generation_def)
      moreover have "card (gvm_user_blocks s) \<noteq> 0" using False fin by simp
      ultimately show ?thesis
        using m(1,2) unfolding vm_global_gc_impl_def Let_def gc_live_block_count_def
        by (simp add: from_loop_def)
    qed
    have cM: "m_gc_marked_count s3 = card L" using mk by (simp add: marking_def)
    have gen: "m_gc_current_gen s3 = m_gc_current_gen ?s1" by (rule gc_same_gen [OF same])
    have gen01: "m_gc_current_gen s3 \<in> {0, 1}" using gen by (simp add: gc_advance_generation_def)
    have marks: "m_mark_gen (hdr s3 p) = m_gc_current_gen s3" if "p \<in> L" for p
      using that mk U LU gen by (auto simp: marking_def)
    have fr: "sweep_frame (s\<lparr>m_gc_current_gen := m_gc_current_gen s3\<rparr>) s3"
      using gc_same_sweep_frame [OF same] by (simp add: sweep_frame_def gc_advance_generation_def)
    have kinds: "m_kind (hdr s3 q) = m_kind (hdr s q)" for q
      using same by (simp add: gc_same_def same_heap_def gc_advance_generation_def)
    show ?thesis
    proof (cases "L = gvm_user_blocks s")
      case True
      have "gc_quiet s3"
        using mk marks gen01 True U S(3) same R
        by (auto simp: gc_quiet_def marking_def queued_def gc_ready_def gc_same_def gc_frame_def
            gc_advance_generation_def)
      then show ?thesis using run cM True S okg e U fr kinds
        by (intro exI [of _ s3]) (auto simp: emptied_def)
    next
      case False
      then have lt: "card L < card (gvm_user_blocks s)" using LU fin by (simp add: psubset_card_mono psubset_eq)
      obtain t where t: "gc_sweep_unmarked s3 (card (gvm_user_blocks s) - card L) =
          Value (\<Sum>p\<in>gvm_user_blocks s3 - L. fst (the (gvm_live s3 p)), t)" "gvm_ok t"
        "gvm_user_blocks t = L" "m_gc_work_head t = nulloffset" "sweep_frame s3 t"
        "gvm_live t \<subseteq>\<^sub>m gvm_live s3" "emptied s3 t" "L \<noteq> {} \<longrightarrow> m_gc_scratch_offset t = m_gc_scratch_offset s3"
        "\<forall>q\<in>L. gvm_live t q = gvm_live s3 q \<and> m_mark_gen (hdr t q) = m_mark_gen (hdr s3 q) \<and>
          m_kind (hdr t q) = m_kind (hdr s3 q) \<and> m_next_in_work (hdr t q) = nulloffset"
        using sweep_phase [OF _ mk e(4), of "card (gvm_user_blocks s) - card L"] S(3,4) okg lt by auto
      have "m_gc_current_gen t = m_gc_current_gen s3" using t(5) by (simp add: sweep_frame_def)
      moreover from this have "gc_quiet t"
        using t(3,4,8,9) marks gen01 LU same R
        by (auto simp: gc_quiet_def gc_ready_def gc_same_def gc_frame_def gc_advance_generation_def)
      moreover have "sweep_frame (s\<lparr>m_gc_current_gen := m_gc_current_gen s3\<rparr>) t"
        by (rule sweep_frame_trans [OF fr t(5)])
      moreover have "emptied s t" using t(7) S(3) U by (simp add: emptied_def)
      ultimately show ?thesis using run cM lt t S(2,3) e U kinds
        by (intro exI [of _ t]) simp
    qed
  qed
qed

text \<open>Soundness of the references survives a collection: what is kept is closed.\<close>

lemma ready_after:
  assumes R: "gc_ready roots refs s" and t: "gc_quiet t" "m_vm_ptr t = m_vm_ptr s"
    "gvm_user_blocks t = {p. gc_reachable s roots refs p}"
    "\<forall>q\<in>gvm_user_blocks t. m_kind (hdr t q) = m_kind (hdr s q)"
    and ok: "gvm_ok s" "gvm_ok t" "gvm_live t \<subseteq>\<^sub>m gvm_live s"
  shows "gc_ready roots refs t" "gc_reachable s roots refs p \<Longrightarrow> gc_reachable t roots refs p"
proof -
  show reach: "gc_reachable t roots refs p" if "gc_reachable s roots refs p" for p
    using that
  proof induction
    case (step p r)
    then have "gc_reachable s roots refs r" by (blast intro: gc_reachable.step)
    with step t show ?case by (auto intro: gc_reachable.step)
  qed (use t in \<open>auto intro: gc_reachable.root\<close>)
  have "\<forall>r\<in>marks roots. ref_ok t r"
    using R t by (auto simp: gc_ready_def ref_ok_def marks_def intro: gc_reachable.root)
  moreover have "ref_ok t r"
    if "p \<in> gvm_user_blocks t" "\<not> gc_kind_has_no_children (m_kind (hdr t p))" "r \<in> marks (refs p)" for p r
  proof -
    have p: "gc_reachable s roots refs p" "\<not> gc_kind_has_no_children (m_kind (hdr s p))"
      using that t by auto
    then have "ref_ok s r" using R that reachable_user by (auto simp: gc_ready_def refs_ok_def)
    then show ?thesis using p that t by (auto simp: ref_ok_def marks_def intro: gc_reachable.step)
  qed
  moreover have "local_visits t roots refs = local_visits s roots refs"
    using reach reachable_user t(3) by (fastforce simp: local_visits_def)
  moreover note capacity_kept [OF ok]
  ultimately show "gc_ready roots refs t" using t R by (simp add: gc_ready_def refs_ok_def)
qed

lemma gc_quiet_cong:
  "gvm_user_blocks t = gvm_user_blocks s \<Longrightarrow> headers t = headers s \<Longrightarrow>
    m_gc_work_head t = m_gc_work_head s \<Longrightarrow> m_gc_current_gen t = m_gc_current_gen s \<Longrightarrow>
    m_gc_scratch_offset t = m_gc_scratch_offset s \<Longrightarrow> gc_quiet t = gc_quiet s"
  by (simp add: gc_quiet_def)

lemma gc_run:
  assumes ok: "gvm_ok s" and R: "gc_ready roots refs s" and g: "\<not> m_in_gc s"
  defines "L \<equiv> {p. gc_reachable s roots refs p}"
  shows "\<exists>t. vm_global_gc roots refs s =
      Value (\<Sum>p\<in>gvm_user_blocks s - L. fst (the (gvm_live s p)), t) \<and> gvm_ok t \<and>
    gc_ready roots refs t \<and> L \<subseteq> {p. gc_reachable t roots refs p} \<and> gvm_user_blocks t = L \<and> gvm_live t \<subseteq>\<^sub>m gvm_live s \<and>
    emptied s t \<and> (\<forall>q\<in>L. gvm_live t q = gvm_live s q) \<and>
    sweep_frame (s\<lparr>m_gc_current_gen := m_gc_current_gen t\<rparr>) t"
proof -
  let ?s = "s\<lparr>m_in_gc := True\<rparr>"
  have h: "heap_ok s" using ok by (simp add: gvm_ok_def)
  have e: "gvm_live ?s = gvm_live s" "heap_ok ?s" using h by simp_all
  have U: "gvm_user_blocks ?s = gvm_user_blocks s" by (rule user_blocks_same [OF e(1)])
  have ok': "gvm_ok ?s" using ok e U by (simp add: gvm_ok_def)
  have R': "gc_ready roots refs ?s"
    using R U gc_quiet_cong [of ?s s] local_visits_cong [OF U]
    by (simp add: gc_ready_def ref_ok_def refs_ok_def gc_visited_capacity_from_scratch_def
        gvm_get_block_size_def gvm_block_at_def)
  have L: "{p. gc_reachable ?s roots refs p} = L" using reachable_cong [OF U] by (simp add: L_def)
  obtain t where t: "vm_global_gc_impl roots refs ?s =
      Value (\<Sum>p\<in>gvm_user_blocks s - L. fst (the (gvm_live s p)), t)" "gvm_ok t" "gc_quiet t"
    "gvm_user_blocks t = L" "gvm_live t \<subseteq>\<^sub>m gvm_live s"  "emptied ?s t"
    "\<forall>q\<in>L. gvm_live t q = gvm_live s q \<and> m_kind (hdr t q) = m_kind (hdr s q)"
    "sweep_frame (?s\<lparr>m_gc_current_gen := m_gc_current_gen t\<rparr>) t"
    using gc_impl_run [OF ok' R'] unfolding L e U by auto
  let ?n = "\<Sum>p\<in>gvm_user_blocks s - L. fst (the (gvm_live s p))"
  let ?t = "t\<lparr>m_vm_temp_ptr := m_vm_temp_ptr s, m_in_gc := False,
      m_gc_run_count := m_gc_run_count t + 1, m_gc_last_reclaimed_bytes := ?n\<rparr>"
  have run: "vm_global_gc roots refs s = Value (?n, ?t)"
    using t(1) g by (simp add: vm_global_gc_def Let_def)
  have f: "m_vm_temp_ptr t = m_vm_temp_ptr s" using t(8) by (simp add: sweep_frame_def)
  have H: "same_heap t ?t" using f by (simp add: same_heap_def vm_frame_def)
  have ht: "heap_ok t" using t(2) by (simp add: gvm_ok_def)
  note Lt = same_heap_live [OF H ht]
  have Ut: "gvm_user_blocks ?t = L" using user_blocks_same [OF Lt] t(4) by simp
  have okt: "gvm_ok ?t" using t(2,4) Ut Lt same_heap_ok [OF H] by (simp add: gvm_ok_def)
  have q: "gc_quiet ?t" using t(3,4) Ut gc_quiet_cong [of ?t t] by simp
  have "gc_ready roots refs ?t" "gc_reachable s roots refs p \<Longrightarrow> gc_reachable ?t roots refs p" for p
    by (rule ready_after [OF R q _ _ _ ok okt]; use Ut Lt t(5,7,8) in \<open>simp add: L_def sweep_frame_def\<close>)+
  moreover have "emptied s ?t" unfolding emptied_def Ut Lt using t(4,6) U by (simp add: emptied_def)
  ultimately show ?thesis using run okt Ut Lt t(5,7,8) g
    by (intro exI [of _ ?t]) (auto simp: sweep_frame_def L_def)
qed

section \<open>The collector meets the allocator's contract\<close>

abbreviation gc_reach :: "mark_item list \<Rightarrow> (nat \<Rightarrow> mark_item list) \<Rightarrow> gvm \<Rightarrow> nat set" where
  "gc_reach roots refs s \<equiv> {p. gc_reachable s roots refs p}"

lemma collect_meets:
  assumes ok: "gvm_ok s" and R: "gc_ready roots refs s"
  shows "\<exists>t. gc_collect roots refs s = Value t \<and> collected s t \<and> gc_ready roots refs t \<and>
    kept (gc_reach roots refs) s t \<and> local_visits t roots refs = local_visits s roots refs \<and>
    (\<not> m_in_gc s \<longrightarrow> gvm_user_blocks t \<subseteq> gc_reach roots refs t)"
proof (cases "m_in_gc s")
  case True
  then show ?thesis using ok R by (simp add: gc_collect_def vm_global_gc_def collected_def)
next
  case False
  then obtain n t where t: "vm_global_gc roots refs s = Value (n, t)" "gvm_ok t"
    "gc_ready roots refs t" "gvm_live t \<subseteq>\<^sub>m gvm_live s"
    "sweep_frame (s\<lparr>m_gc_current_gen := m_gc_current_gen t\<rparr>) t"
    "gc_reach roots refs s \<subseteq> gc_reach roots refs t"
    "\<forall>q\<in>gc_reach roots refs s. gvm_live t q = gvm_live s q"
    "gvm_user_blocks t = gc_reach roots refs s"
    using gc_run [OF ok R] by blast
  moreover from this have "gc_reach roots refs t = gc_reach roots refs s" using reachable_user by blast
  ultimately have "collected s t" "kept (gc_reach roots refs) s t"
    "local_visits t roots refs = local_visits s roots refs" "gvm_user_blocks t \<subseteq> gc_reach roots refs t"
    by (simp_all add: collected_def sweep_frame_def kept_def local_visits_def)
  then show ?thesis using t by (simp add: gc_collect_def)
qed

lemma ready_scratch_alloc:
  assumes R: "gc_ready roots refs s" and A: "alloc_post s t ChunkKind_GcScratch p s'" and t: "4120 \<le> t"
    and V: "card (local_visits s roots refs) \<le> GcScratchTotalEntries"
  defines "u \<equiv> s'\<lparr>m_gc_scratch_offset := p\<rparr>"
  shows "gc_ready roots refs u" "gc_reach roots refs u = gc_reach roots refs s"
    "local_visits u roots refs = local_visits s roots refs"
proof -
  obtain n where L: "gvm_live s' = (gvm_live s)(p \<mapsto> (n, ChunkKind_GcScratch))" and n: "t \<le> n"
    and p: "gvm_live s p = None" and h: "heap_ok s'" and f: "gc_frame s s'"
    and H: "\<forall>q. gvm_live s q \<noteq> None \<longrightarrow> hdr s' q = hdr s q"
    using A by (auto simp: alloc_post_def)
  have p0: "p \<noteq> nulloffset" using live_nonnull [OF h] L by auto
  have U: "gvm_user_blocks u = gvm_user_blocks s"
    using user_blocks_add [OF L p] h user_blocks_same [of u s'] by (simp add: u_def)
  have hd: "hdr u q = hdr s q" if "q \<in> gvm_user_blocks s" for q
    using that H by (auto simp: gvm_user_blocks_def u_def)
  have "gc_reachable u roots refs q" if "gc_reachable s roots refs q" for q
    using that
  proof induction
    case (step p r)
    then show ?case using U hd [of p] reachable_user by (auto intro: gc_reachable.step)
  qed (use U in \<open>auto intro: gc_reachable.root\<close>)
  moreover have "gc_reachable s roots refs q" if "gc_reachable u roots refs q" for q
    using that
  proof induction
    case (step p r)
    then show ?case using U hd [of p] reachable_user by (auto intro: gc_reachable.step)
  qed (use U in \<open>auto intro: gc_reachable.root\<close>)
  ultimately show reach: "gc_reach roots refs u = gc_reach roots refs s" by blast
  then show lv: "local_visits u roots refs = local_visits s roots refs" by (simp add: local_visits_def)
  have "gc_visited_capacity_from_scratch u = (n - 20) div 4"
    by (rule capacity_live) (use h L in \<open>simp_all add: u_def\<close>)
  moreover have "GcScratchTotalEntries \<le> (n - 20) div 4" using n t by (simp add: GcScratchTotalEntries_def)
  ultimately have cap: "card (local_visits u roots refs) \<le> gc_visited_capacity_from_scratch u"
    using V lv by simp
  show "gc_ready roots refs u" using R f U hd p0 cap
    by (auto simp: gc_ready_def gc_quiet_def refs_ok_def ref_ok_def gc_frame_def u_def)
qed

lemma reach_is_live: "q \<in> gc_reach roots refs s \<Longrightarrow> gvm_live s q \<noteq> None"
  using reachable_user by (fastforce simp: gvm_user_blocks_def)

text \<open>A scratch block of the initial size, which an allocation may create, has to be large enough as well.\<close>

abbreviation alloc_ready :: "mark_item list \<Rightarrow> (nat \<Rightarrow> mark_item list) \<Rightarrow> gvm \<Rightarrow> bool" where
  "alloc_ready roots refs s \<equiv> gc_ready roots refs s \<and> card (local_visits s roots refs) \<le> GcScratchTotalEntries"

interpretation vm_gc: gvm_collector "gc_collect roots refs" "alloc_ready roots refs"
    "gc_reach roots refs" for roots refs
proof unfold_locales
  fix s assume s: "gvm_ok s" "alloc_ready roots refs s"
  then obtain t where "gc_collect roots refs s = Value t" "collected s t" "gc_ready roots refs t"
    "kept (gc_reach roots refs) s t" "local_visits t roots refs = local_visits s roots refs"
    "\<not> m_in_gc s \<longrightarrow> gvm_user_blocks t \<subseteq> gc_reach roots refs t"
    using collect_meets by blast
  then show "\<exists>s'. gc_collect roots refs s = Value s' \<and> collected s s' \<and> alloc_ready roots refs s' \<and>
      kept (gc_reach roots refs) s s' \<and> (\<not> m_in_gc s \<longrightarrow> gvm_user_blocks s' \<subseteq> gc_reach roots refs s')"
    using s(2) by (intro exI [of _ t]) simp
next
  fix s t p s' assume s: "alloc_ready roots refs s" "alloc_post s t ChunkKind_GcScratch p s'" "4120 \<le> t"
  note r = ready_scratch_alloc [OF conjunct1 [OF s(1)] s(2,3) conjunct2 [OF s(1)]]
  show "alloc_ready roots refs (s'\<lparr>m_gc_scratch_offset := p\<rparr>) \<and>
      gc_reach roots refs s \<subseteq> gc_reach roots refs (s'\<lparr>m_gc_scratch_offset := p\<rparr>)"
    using r s(1) by simp
next
  fix q s assume "q \<in> gc_reach roots refs s"
  then show "gvm_live s q \<noteq> None" by (rule reach_is_live)
qed

end
