(* ===== verification/Gvm_Theorems.thy ===== *)
theory Gvm_Theorems
  imports Gc_Correct
begin

text \<open>
  The theorems about the global heap as a whole: allocator and collector together, stated on the
  public operations, with the concrete heaps that witness their hypotheses.
\<close>

section \<open>Concrete heaps\<close>

text \<open>An idle region, and one with a scratch block, a single array block and an almost full gap.\<close>

definition idle_heap :: gvm where
  "idle_heap =
     \<lparr>m_vm_ptr = 64, m_vm_temp_ptr = 8192, m_vm_global = 8192, m_vm_limit = 8192,
      m_vm_alloc_active = None, headers = \<lambda>_. free_header 0 0, tails = \<lambda>_. 0,
      flinks = \<lambda>_. \<lparr>prev_free = 0, next_free = 0\<rparr>, m_gvm_free_head = 0, m_gvm_fastbins = \<lambda>_. 0,
      m_gvm_free_block_count = 0, m_gvm_user_block_count = 0, m_gc_scratch_offset = 0,
      m_gc_current_gen = 0, m_in_gc = False, m_gc_work_head = 0, m_gc_marked_count = 0,
      m_gc_run_count = 0, m_gc_last_reclaimed_bytes = 0\<rparr>"

definition one_array_heap :: gvm where
  "one_array_heap = idle_heap
     \<lparr>m_vm_ptr := 4032, m_vm_temp_ptr := 4040, m_vm_global := 4040,
      headers := (\<lambda>_. free_header 0 0)(4072 := live_header idle_heap 4120 ChunkKind_GcScratch,
        4040 := live_header idle_heap 32 4),
      tails := (\<lambda>_. 0)(8188 := 4120, 4068 := 32), m_gc_scratch_offset := 4088,
      m_gvm_user_block_count := 1\<rparr>"


lemma local_visits_leaves: "local_visits s roots (\<lambda>_. []) = visits roots"
  by (auto simp: local_visits_def)


lemma one_array_inv: "heap_inv one_array_heap [4040, 4072]"
proof -
  have live: "\<not> gvm_kind_is_free 4" by (simp add: gvm_kind_is_free_def gvm_consts)
  have F: "{x \<in> set [4040, 4072]. blk_free one_array_heap x} = {}"
    using live scratch_kind_live by (auto simp: one_array_heap_def)
  have "free_struct one_array_heap {} [] (\<lambda>_. [])"
    by (simp add: free_struct_def one_array_heap_def idle_heap_def nulloffset_def)
  then have "free_lists one_array_heap {x \<in> set [4040, 4072]. blk_free one_array_heap x}"
    unfolding F by (auto simp: free_lists_def)
  moreover have "coalesced (blk_free one_array_heap) True [4040, 4072]"
    using live scratch_kind_live by (simp add: one_array_heap_def)
  ultimately show ?thesis
    by (simp add: heap_inv_def vm_layout_def vm_size_max_def one_array_heap_def idle_heap_def seg_Cons)
qed

lemma one_array_live:
  "gvm_live one_array_heap = [4056 \<mapsto> (32, 4), 4088 \<mapsto> (4120, ChunkKind_GcScratch)]"
proof
  fix p :: nat
  have live: "\<not> gvm_kind_is_free 4" by (simp add: gvm_kind_is_free_def gvm_consts)
  have H: "headers one_array_heap 4040 = live_header idle_heap 32 4"
    "headers one_array_heap 4072 = live_header idle_heap 4120 ChunkKind_GcScratch"
    by (simp_all add: one_array_heap_def)
  consider "p = 4056" | "p = 4088" | "16 \<le> p \<longrightarrow> p - 16 \<noteq> 4040 \<and> p - 16 \<noteq> 4072" "p \<noteq> 4056" "p \<noteq> 4088"
    by force
  then show "gvm_live one_array_heap p = [4056 \<mapsto> (32, 4), 4088 \<mapsto> (4120, ChunkKind_GcScratch)] p"
    by cases (simp_all add: gvm_live_inv [OF one_array_inv] H live)
qed

lemma one_array_users: "gvm_user_blocks one_array_heap = {4056}"
  by (auto simp: gvm_user_blocks_def one_array_live ChunkKind_GcScratch_def split: if_splits)

lemma one_array_ok: "gvm_ok one_array_heap" "gc_ready roots (\<lambda>_. []) one_array_heap =
    ((\<forall>r\<in>marks roots. r < 4032 \<or> r = 4056) \<and> card (visits roots) \<le> 1025)"
proof -
  have "(\<exists>n. gvm_live one_array_heap p = Some (n, ChunkKind_GcScratch)) \<longleftrightarrow> p = 4088" for p
    by (auto simp: one_array_live ChunkKind_GcScratch_def)
  moreover have "m_gc_scratch_offset one_array_heap = 4088" "m_gvm_user_block_count one_array_heap = 1"
    by (simp_all add: one_array_heap_def)
  ultimately show ok: "gvm_ok one_array_heap"
    using one_array_inv one_array_users by (auto simp: gvm_ok_def heap_ok_def nulloffset_def)
  have "gc_visited_capacity_from_scratch one_array_heap = (4120 - 20) div 4"
    by (rule capacity_live) (use ok one_array_live in \<open>simp_all add: gvm_ok_def one_array_heap_def\<close>)
  then show "gc_ready roots (\<lambda>_. []) one_array_heap =
      ((\<forall>r\<in>marks roots. r < 4032 \<or> r = 4056) \<and> card (visits roots) \<le> 1025)"
    unfolding gc_ready_def gc_quiet_def refs_ok_def ref_ok_def one_array_users local_visits_leaves
    by (simp add: one_array_heap_def idle_heap_def live_header_def gc_init_mark_for_alloc_def nulloffset_def)
qed

section \<open>Allocation\<close>






text \<open>
  The size check of \<open>gvm_alloc_impl\<close> is exact: a request is refused with \<open>LimitCheck\<close>
  precisely when the rounded block would not fit in 32 bits, and otherwise the 32-bit
  arithmetic does not wrap: the block size is a multiple of 8, at least 32, and less than 8
  bytes above header, payload (at least 8) and tail tag.
\<close>

theorem gvm_total_size_exact:
  "gvm_total_size payload_size =
     (if payload_size + 27 > vm_size_max then Raise LimitCheck
      else Value (align_up 8 (max payload_size 8 + 20))) \<and>
   8 dvd align_up 8 (max payload_size 8 + 20) \<and> 32 \<le> align_up 8 (max payload_size 8 + 20) \<and>
   align_up 8 (max payload_size 8 + 20) < max payload_size 8 + 28"
proof -
  let ?t = "align_up 8 (max payload_size 8 + 20)"
  have "8 dvd ?t" "max payload_size 8 + 20 \<le> ?t" by (simp_all add: align_up_dvd align_up_ge)
  then have "8 dvd ?t \<and> 32 \<le> ?t" by (auto elim!: dvdE)
  moreover have "?t < max payload_size 8 + 28" using align_up_less [of 8 "max payload_size 8 + 20"] by simp
  moreover have "gvm_total_size payload_size =
      (if payload_size + 27 > vm_size_max then Raise LimitCheck else Value ?t)"
    using gvm_total_size_value(1) [of payload_size] gvm_total_size_raise [of payload_size]
    by (auto simp: vm_size_max_def)
  ultimately show ?thesis by blast
qed

section \<open>Deallocation\<close>

text \<open>
  C8. Freeing a live user block succeeds, removes exactly its entry (and, with the last user
  block, the scratch block), keeps the invariant, and leaves the header of every surviving block
  unchanged.
\<close>

theorem gvm_free_refines:
  assumes "gvm_ok s" "gvm_live s p = Some (n, k)" "k \<noteq> ChunkKind_GcScratch"
  shows "\<exists>s'. gvm_free s p = Value s' \<and> gvm_ok s' \<and>
    gvm_live s' = (if gvm_user_blocks s = {p} then Map.empty else (gvm_live s)(p := None)) \<and>
    (\<forall>q. gvm_live s' q \<noteq> None \<longrightarrow> headers s' (q - 16) = headers s (q - 16))"
  using gvm_free_run [OF assms] unfolding gvm_free_post_def by blast

theorem gvm_free_refines_witness:
  "\<exists>s'. gvm_free one_array_heap 4056 = Value s' \<and> gvm_ok s' \<and> gvm_live s' = Map.empty"
proof -
  have "gvm_live one_array_heap 4056 = Some (32, 4)" "(4::u8) \<noteq> ChunkKind_GcScratch"
    by (simp_all add: one_array_live ChunkKind_GcScratch_def)
  then show ?thesis
    using gvm_free_refines [of one_array_heap 4056 32 4] one_array_ok(1) one_array_users by auto
qed

text \<open>
  Freeing the last user block returns the region to the idle state: no block is left, the
  whole region is back in the gap, the scratch block is gone and the free structures are empty.
\<close>

theorem gvm_free_last_idle:
  assumes "gvm_ok s" "gvm_user_blocks s = {p}"
  shows "\<exists>s'. gvm_free s p = Value s' \<and> m_vm_global s' = m_vm_limit s' \<and>
    m_gc_scratch_offset s' = nulloffset \<and> m_gvm_user_block_count s' = 0 \<and>
    m_gvm_free_block_count s' = 0 \<and> gvm_for_each s' = Value []"
proof -
  have "p \<in> gvm_user_blocks s" using assms(2) by simp
  then obtain n k where p: "gvm_live s p = Some (n, k)" "k \<noteq> ChunkKind_GcScratch"
    by (auto simp: gvm_user_blocks_def)
  obtain s' where s': "gvm_free s p = Value s'" "gvm_ok s'" "gvm_live s' = Map.empty"
    using gvm_free_run [OF assms(1) p] assms(2) by (auto simp: gvm_free_post_def)
  obtain xs where I: "heap_inv s' xs" using s'(2) by (auto simp: gvm_ok_def heap_ok_def)
  note idle = no_live_idle [OF I s'(3)]
  have "m_gc_scratch_offset s' = nulloffset" "m_gvm_user_block_count s' = 0"
    using s'(2,3) by (auto simp: gvm_ok_def gvm_user_blocks_def)
  moreover have "m_gvm_free_block_count s' = 0"
    using I idle(1) by (auto simp: heap_inv_def free_lists_def free_struct_def)
  ultimately show ?thesis using s'(1) idle for_each_inv [OF I] by simp
qed

theorem gvm_free_last_idle_witness:
  "gvm_user_blocks one_array_heap = {4056} \<and>
   (\<exists>s'. gvm_free one_array_heap 4056 = Value s' \<and> gvm_for_each s' = Value [])"
  using gvm_free_last_idle [OF one_array_ok(1) one_array_users] one_array_users by auto

section \<open>The block structure\<close>

primrec walk_covers :: "nat \<Rightarrow> bool \<Rightarrow> gvm_visit list \<Rightarrow> nat \<Rightarrow> bool" where
  "walk_covers a below_free [] b \<longleftrightarrow> a = b"
| "walk_covers a below_free (v # vs) b \<longleftrightarrow>
     v_payload_offset v = a + 16 \<and> 32 \<le> v_total_size v \<and> 8 dvd v_total_size v \<and>
     v_payload_size v + 20 = v_total_size v \<and> \<not> (below_free \<and> v_is_free v) \<and>
     walk_covers (a + v_total_size v) (v_is_free v) vs b"

lemma walk_covers_seg:
  "seg (headers s) (tails s) a xs b \<Longrightarrow> coalesced (blk_free s) f xs \<Longrightarrow>
     walk_covers a f (map (visit_of s) xs) b"
  by (induction xs arbitrary: a f)
    (auto simp: seg_Cons visit_of_def gvm_consts gvm_get_payload_size_def)

text \<open>
  C10. The heap walk succeeds and its blocks tile the region exactly from \<open>m_vm_global\<close> to
  \<open>m_vm_limit\<close>, each at least 32 bytes and a multiple of 8, with no two free neighbours and a
  live block at the bottom; the free counter counts exactly the free blocks of the walk.
\<close>

theorem gvm_walk_tiles:
  assumes "gvm_ok s"
  shows "\<exists>vs. gvm_for_each s = Value vs \<and> walk_covers (m_vm_global s) True vs (m_vm_limit s) \<and>
    m_gvm_free_block_count s = length (filter v_is_free vs)"
proof -
  obtain xs where I: "heap_inv s xs" using assms by (auto simp: gvm_ok_def heap_ok_def)
  have "walk_covers (m_vm_global s) True (map (visit_of s) xs) (m_vm_limit s)"
    using I by (intro walk_covers_seg) (simp_all add: heap_inv_def)
  moreover have "m_gvm_free_block_count s = card (set (filter (blk_free s) xs))"
    using I by (auto simp: heap_inv_def free_lists_def free_struct_def)
  moreover have "filter v_is_free (map (visit_of s) xs) = map (visit_of s) (filter (blk_free s) xs)"
    by (induction xs) (simp_all add: visit_of_def)
  ultimately show ?thesis
    using for_each_inv [OF I] heap_inv_distinct [OF I] distinct_card [of "filter (blk_free s) xs"] by simp
qed

theorem gvm_walk_tiles_witness:
  "\<exists>vs. gvm_for_each one_array_heap = Value vs \<and> walk_covers 4040 True vs 8192"
  using gvm_walk_tiles [OF one_array_ok(1)] by (auto simp: one_array_heap_def idle_heap_def)

text \<open>
  Live blocks never overlap, lie inside the region and their payload is 8-aligned: no two
  clients of the heap share a byte.
\<close>

theorem gvm_live_disjoint:
  assumes "gvm_ok s" "gvm_live s p = Some (n, k)" "gvm_live s q = Some (m, l)" "p < q"
  shows "p + n \<le> q \<and> m_vm_global s + 16 \<le> p \<and> q + m \<le> m_vm_limit s + 16 \<and> 8 dvd p"
proof -
  obtain xs where I: "heap_inv s xs" using assms(1) by (auto simp: gvm_ok_def heap_ok_def)
  obtain x where x: "x \<in> set xs" "p = x + 16" "n = blk_size s x"
    using assms(2) by (blast elim: gvm_live_SomeE [OF I])
  obtain y where y: "y \<in> set xs" "q = y + 16" "m = blk_size s y"
    using assms(3) by (blast elim: gvm_live_SomeE [OF I])
  have "tiles (headers s) (m_vm_global s) xs (m_vm_limit s)" using I by (simp add: heap_inv_def seg_def)
  from tiles_disjoint [OF this x(1) y(1)] show ?thesis
    using assms(4) x y heap_inv_mem [OF I x(1)] heap_inv_mem [OF I y(1)] by auto
qed

theorem gvm_live_disjoint_witness:
  "gvm_live one_array_heap 4056 = Some (32, 4) \<and> (4056::nat) + 32 \<le> 4088"
  using gvm_live_disjoint [OF one_array_ok(1), of 4056 32 4 4088 4120 ChunkKind_GcScratch]
  by (simp add: one_array_live)

section \<open>Collection\<close>

text \<open>
  C6. A collection from a quiescent heap with sound references, in which the pass meets no more local
  containers than the visited array in the scratch block has entries, returns, keeps exactly the user
  blocks reachable from the roots, with their size and kind, frees all others and reports the
  sum of their block sizes; the heap invariant, the counters and the quiescence of the marker
  hold afterwards. Marking terminates on cyclic references too. A pass that meets more containers
  grows the scratch block, which may raise \<open>VMFull\<close> and may leave the temp pointer above the global
  region (\<open>gc_grow_breaks_layout\<close>).
\<close>

theorem vm_global_gc_exact:
  assumes "gvm_ok s" "gc_ready roots refs s" "\<not> m_in_gc s"
  shows "\<exists>t. vm_global_gc roots refs s =
      Value (\<Sum>p\<in>gvm_user_blocks s - {p. gc_reachable s roots refs p}. fst (the (gvm_live s p)), t) \<and>
    gvm_ok t \<and> gc_ready roots refs t \<and> gvm_user_blocks t = {p. gc_reachable s roots refs p} \<and>
    (\<forall>p. gc_reachable s roots refs p \<longrightarrow> gvm_live t p = gvm_live s p)"
  using gc_run [OF assms] by blast

theorem vm_global_gc_exact_witness:
  "\<exists>n t. vm_global_gc [Visit 16, Mark 4056, Visit 16] (\<lambda>_. []) one_array_heap = Value (n, t) \<and>
     gvm_live t 4056 = Some (32, 4)"
proof -
  let ?roots = "[Visit 16, Mark 4056, Visit 16]"
  have r: "gc_ready ?roots (\<lambda>_. []) one_array_heap" by (simp add: one_array_ok(2))
  have "gc_reachable one_array_heap ?roots (\<lambda>_. []) 4056"
    by (rule gc_reachable.root) (simp_all add: one_array_users)
  moreover have "\<not> m_in_gc one_array_heap" by (simp add: one_array_heap_def idle_heap_def)
  ultimately show ?thesis
    using vm_global_gc_exact [OF one_array_ok(1) r] by (auto simp: one_array_live)
qed

text \<open>
  A second collection with the same roots and references finds nothing: it reclaims zero
  bytes and keeps the same user blocks.
\<close>

theorem vm_global_gc_idempotent:
  assumes "gvm_ok s" "gc_ready roots refs s" "\<not> m_in_gc s" "vm_global_gc roots refs s = Value (n, t)"
  shows "\<exists>u. vm_global_gc roots refs t = Value (0, u) \<and> gvm_user_blocks u = gvm_user_blocks t"
proof -
  have t: "gvm_ok t" "gc_ready roots refs t" "gvm_user_blocks t \<subseteq> gc_reach roots refs t"
    "sweep_frame (s\<lparr>m_gc_current_gen := m_gc_current_gen t\<rparr>) t"
    using gc_run [OF assms(1-3)] assms(4) by auto
  have "\<not> m_in_gc t" using t(4) assms(3) by (simp add: sweep_frame_def)
  moreover have "gc_reach roots refs t = gvm_user_blocks t" using t(3) reachable_user by auto
  ultimately show ?thesis using gc_run [OF t(1,2)] by auto
qed

theorem vm_global_gc_idempotent_witness:
  "\<exists>n t u. vm_global_gc [] (\<lambda>_. []) one_array_heap = Value (n, t) \<and>
     vm_global_gc [] (\<lambda>_. []) t = Value (0, u)"
proof -
  have r: "gc_ready [] (\<lambda>_. []) one_array_heap" by (simp add: one_array_ok(2))
  have g: "\<not> m_in_gc one_array_heap" by (simp add: one_array_heap_def idle_heap_def)
  obtain n t where "vm_global_gc [] (\<lambda>_. []) one_array_heap = Value (n, t)"
    using gc_run [OF one_array_ok(1) r g] by blast
  then show ?thesis using vm_global_gc_idempotent [OF one_array_ok(1) r g] by blast
qed

text \<open>
  C16. The scratch block can be lost: when an allocation has to collect and nothing is reachable,
  the sweep frees the last user block and with it the scratch block, after \<open>ensure_gc_scratch\<close>
  has already run for this allocation. The new block is then handed out without a scratch block,
  and the next collection, if no other global allocation comes first, raises \<open>InternalError\<close>.
\<close>

theorem scratch_lost_by_collecting_alloc:
  assumes ok: "gvm_ok s" "gc_ready roots refs s" "\<not> m_in_gc s" "m_vm_alloc_active s = None"
    and n: "gvm_total_size payload_size = Value t" "m_vm_ptr s + t \<le> m_vm_limit s"
    and k: "\<not> gvm_kind_is_free kind" "kind \<noteq> ChunkKind_GcScratch"
    and full: "gvm_search_free s t kind = Value None" "\<not> gvm_bump_fits s t"
    and garbage: "gvm_user_blocks s \<noteq> {}" "\<And>p. \<not> gc_reachable s roots refs p"
  shows "\<exists>p s'. gvm_alloc (gc_collect roots refs) s payload_size kind = Value (p, s') \<and>
    m_gvm_user_block_count s' = 1 \<and> m_gc_scratch_offset s' = nulloffset \<and>
    (\<forall>roots' refs'. vm_global_gc roots' refs' s' = Raise InternalError)"
proof -
  have p27: "payload_size \<le> vm_size_max - 27"
    using n gvm_total_size_raise [of payload_size] by fastforce
  have t: "32 \<le> t" "8 dvd t" using gvm_total_size_value [OF p27] n by simp_all
  have scr: "m_gc_scratch_offset s \<noteq> nulloffset"
    using ok(2) garbage(1) by (simp add: gc_ready_def gc_quiet_def)
  have noreach: "{p. gc_reachable s roots refs p} = {}" using garbage(2) by blast
  obtain n0 u where u: "vm_global_gc roots refs s = Value (n0, u)" "gvm_ok u"
    "gvm_user_blocks u = {}" "emptied s u"
    "sweep_frame (s\<lparr>m_gc_current_gen := m_gc_current_gen u\<rparr>) u"
    using gc_run [OF ok(1-3)] unfolding noreach by blast
  have L: "gvm_live u = Map.empty" using u(3,4) garbage(1) by (simp add: emptied_def)
  obtain xs where I: "heap_inv u xs" using u(2) by (auto simp: gvm_ok_def heap_ok_def)
  note idle = no_live_idle [OF I L]
  have fr: "m_vm_limit u = m_vm_limit s" "m_vm_ptr u = m_vm_ptr s" "m_vm_alloc_active u = None"
    "m_in_gc u = False"
    using u(5) ok(3,4) by (simp_all add: sweep_frame_def)
  have fits: "gvm_bump_fits u t"
  proof -
    have "8 dvd m_vm_limit u" using I by (simp add: heap_inv_def)
    moreover have le: "t \<le> m_vm_limit u" using n(2) fr by simp
    ultimately have "8 dvd m_vm_limit u - t" using t(2) dvd_diff_nat by blast
    then have "4 dvd m_vm_limit u - t" by (rule dvd_trans [rotated]) simp
    then have "align_down 4 (int (m_vm_limit u - t)) = int (m_vm_limit u - t)"
      by (intro align_down_id of_nat_dvd_iff [THEN iffD2])
    then show ?thesis using n(2) fr idle(2) le by (simp add: gvm_bump_fits_def of_nat_diff)
  qed
  have post: "\<exists>p s2. gvm_alloc_impl (gc_collect roots refs) s payload_size kind = Value (p, s2) \<and>
      alloc_post u t kind p s2"
  proof -
    have run: "gvm_alloc_impl (gc_collect roots refs) s payload_size kind =
        bind_outcome (gvm_search_free u t kind)
          (\<lambda>found. case found of Some r \<Rightarrow> Value r | None \<Rightarrow> gvm_bump u t kind)"
      using n(1) full ok(3) u(1) by (simp add: gvm_alloc_impl_def gc_collect_def)
    from I t k(1) show ?thesis
      by (cases rule: search_free_post) (use run bump_post [OF I t k(1) fr(3)] fits in auto)
  qed
  then obtain p s2 where s2: "gvm_alloc_impl (gc_collect roots refs) s payload_size kind = Value (p, s2)"
    "alloc_post u t kind p s2" by blast
  let ?s = "s2\<lparr>m_gvm_user_block_count := m_gvm_user_block_count s2 + 1\<rparr>"
  have "gvm_alloc (gc_collect roots refs) s payload_size kind = Value (p, ?s)"
    using scr k s2(1) by (simp add: gvm_alloc_def ensure_gc_scratch_def)
  moreover have "m_gc_scratch_offset u = nulloffset" "m_gvm_user_block_count u = 0"
    using u(2,3) L by (auto simp: gvm_ok_def)
  then have c: "m_gc_scratch_offset ?s = nulloffset" "m_gvm_user_block_count ?s = 1" "\<not> m_in_gc ?s"
    using s2(2) fr(4) by (simp_all add: alloc_post_def gc_frame_def)
  moreover from c have "\<forall>roots' refs'. vm_global_gc roots' refs' ?s = Raise InternalError"
    by (simp add: vm_global_gc_def vm_global_gc_impl_def gc_live_block_count_def
        gc_advance_generation_def Let_def)
  ultimately show ?thesis by blast
qed

theorem scratch_lost_witness:
  "\<exists>p s'. gvm_alloc (gc_collect [] (\<lambda>_. [])) one_array_heap 24 4 = Value (p, s') \<and>
     m_gvm_user_block_count s' = 1 \<and> m_gc_scratch_offset s' = nulloffset \<and>
     vm_global_gc [Mark p] (\<lambda>_. []) s' = Raise InternalError"
proof -
  let ?s = one_array_heap
  have t: "gvm_total_size 24 = Value 48"
    by (simp add: gvm_total_size_def gvm_consts vm_size_max_def Let_def)
  have k: "\<not> gvm_kind_is_free 4" "(4::u8) \<noteq> ChunkKind_GcScratch"
    by (simp_all add: gvm_kind_is_free_def gvm_consts)
  have z: "m_gvm_fastbins ?s b = 0" "m_gvm_free_head ?s = 0" for b
    by (simp_all add: one_array_heap_def idle_heap_def)
  have none: "gvm_search_free ?s 48 4 = Value None"
    by (simp add: gvm_search_free_def z first_fit.simps nulloffset_def Let_def)
  have full: "\<not> gvm_bump_fits ?s 48"
    by (simp add: gvm_bump_fits_def align_down_def one_array_heap_def idle_heap_def)
  have r: "gc_ready [] (\<lambda>_. []) ?s" by (simp add: one_array_ok(2))
  have noreach: "\<not> gc_reachable ?s [] (\<lambda>_. []) p" for p
  proof
    assume "gc_reachable ?s [] (\<lambda>_. []) p"
    then show False by (cases rule: gc_reachable.cases) simp_all
  qed
  have f: "\<not> m_in_gc ?s" "m_vm_alloc_active ?s = None" "m_vm_ptr ?s + 48 \<le> m_vm_limit ?s"
    by (simp_all add: one_array_heap_def idle_heap_def)
  have "gvm_user_blocks ?s \<noteq> {}" by (simp add: one_array_users)
  from scratch_lost_by_collecting_alloc [OF one_array_ok(1) r f(1,2) t f(3) k none full this noreach]
  show ?thesis by blast
qed

end
