(* ===== verification/Gc_Scratch.thy ===== *)
theory Gc_Scratch
  imports Gvm_Theorems
begin

text \<open>
  Growing the collector's scratch block in the middle of a collection
  (\<open>grow_gc_local_visited\<close> of \<open>Gc\<close>), and what becomes of the saved temp pointer that
  \<^verbatim>\<open>vm_global_gc\<close> restores when the pass ends.
\<close>

section \<open>The end of the pass\<close>

text \<open>The end of the pass: the temp pointer saved at its start is written back.\<close>

definition gc_restore_temp :: "nat \<Rightarrow> gvm \<Rightarrow> gvm" where
  "gc_restore_temp temp_save s = s\<lparr>m_vm_temp_ptr := temp_save, m_in_gc := False\<rparr>"

section \<open>The heap survives a growth\<close>

lemma grow_served:
  assumes s: "gvm_ok s" "m_in_gc s" "m_gc_scratch_offset s \<noteq> nulloffset"
    and A: "gvm_alloc_n gc s 4 c ChunkKind_GcScratch = Value (p, s1)" "alloc_post s t ChunkKind_GcScratch p s1"
  shows "\<exists>s2. gvm_free_impl (s1\<lparr>m_gc_scratch_offset := p\<rparr>) (m_gc_scratch_offset s) = Value s2 \<and>
    gvm_ok s2 \<and> m_gc_scratch_offset s2 = p \<and> gvm_user_blocks s2 = gvm_user_blocks s \<and>
    m_vm_temp_ptr s2 = m_vm_temp_ptr s1 \<and> m_vm_global s1 \<le> m_vm_global s2"
proof -
  let ?q = "m_gc_scratch_offset s" and ?s = "s1\<lparr>m_gc_scratch_offset := p\<rparr>"
  obtain n where L: "gvm_live s1 = (gvm_live s)(p \<mapsto> (n, ChunkKind_GcScratch))"
    and p: "gvm_live s p = None" and h1: "heap_ok s1" and f: "gc_frame s s1"
    using A(2) by (auto simp: alloc_post_def)
  have sc: "\<And>q. ?q = q \<and> q \<noteq> nulloffset \<longleftrightarrow> (\<exists>n. gvm_live s q = Some (n, ChunkKind_GcScratch))"
    using s(1) by (simp add: gvm_ok_def)
  obtain m where m: "gvm_live s ?q = Some (m, ChunkKind_GcScratch)" using sc [of ?q] s(3) by auto
  then have qp: "?q \<noteq> p" using p by auto
  have "gvm_live ?s ?q = Some (m, ChunkKind_GcScratch)" using h1 L m qp by simp
  then obtain s2 where s2: "gvm_free_impl ?s ?q = Value s2" "free_post ?s ?q s2"
    using free_impl_live(2) [of ?s ?q] h1 by auto
  have L2: "gvm_live s2 = (gvm_live s)(p \<mapsto> (n, ChunkKind_GcScratch), ?q := None)"
    using s2(2) h1 L by (simp add: free_post_def)
  have U: "gvm_user_blocks s2 = gvm_user_blocks s"
    using L2 m p by (auto simp: gvm_user_blocks_def split: if_splits)
  have p0: "p \<noteq> nulloffset" using live_nonnull [OF h1] L by auto
  have "(\<exists>n. gvm_live s2 q = Some (n, ChunkKind_GcScratch)) \<longleftrightarrow> q = p" for q
    using sc [of q] s(3) qp by (auto simp: L2)
  then have "gvm_ok s2"
    unfolding gvm_ok_def U using s2(2) f s(1) p0
    by (auto simp: free_post_def gc_frame_def gvm_ok_def)
  then show ?thesis using s2 U by (auto simp: free_post_def gc_frame_def)
qed

section \<open>The restored temp pointer\<close>

lemma bump_offset:
  assumes "gvm_bump s t kind = Value (p, s1)" "0 < t"
  shows "p = m_vm_global s1 + 16" "m_vm_global s1 < m_vm_global s"
  using assms align_down_le [of 4 "int (m_vm_global s) - int t"]
  by (auto simp: gvm_bump_def vm_alloc_global_ptr_def gvm_write_tail_tag_def gvm_consts Let_def
      bind_outcome_Value_iff split: if_splits)

lemma live_above_global: "heap_ok s \<Longrightarrow> gvm_live s p = Some v \<Longrightarrow> m_vm_global s + 16 \<le> p"
proof -
  assume h: "heap_ok s" and p: "gvm_live s p = Some v"
  obtain xs where I: "heap_inv s xs" using h by (auto simp: heap_ok_def)
  obtain n k where "v = (n, k)" by (cases v)
  then obtain x where "x \<in> set xs" "p = x + 16" using p by (blast elim: gvm_live_SomeE [OF I])
  then show ?thesis using heap_inv_mem(1) [OF I] by simp
qed

text \<open>
  When growing the scratch block lowers the global region (the bump path), the heap itself
  stays well formed, but writing back the temp pointer saved at the start of the pass, when it
  was pinned at the bottom of the global region, leaves it above \<open>m_vm_global\<close>: the documented
  order of the VM pointers no longer holds, although it held before the pass.
\<close>

theorem gc_grow_breaks_layout:
  assumes s: "gvm_ok s" "m_in_gc s" "m_gc_scratch_offset s \<noteq> nulloffset"
    "m_vm_alloc_active s = None" "m_vm_temp_ptr s = m_vm_global s"
    and c: "c * 8 \<le> vm_size_max - 27"
    and t: "gvm_total_size (c * 8) = Value t"
    and bump: "gvm_search_free s t ChunkKind_GcScratch = Value None" "gvm_bump_fits s t"
  shows "vm_layout s \<and> (\<exists>s2. grow_gc_local_visited gc s c = Value (c * 2, s2) \<and> gvm_ok s2 \<and>
    \<not> vm_layout (gc_restore_temp (m_vm_temp_ptr s) s2))"
proof -
  have t32: "32 \<le> t" "8 dvd t" using gvm_total_size_value [OF c] t by simp_all
  obtain xs where I: "heap_inv s xs" using s(1) by (auto simp: gvm_ok_def heap_ok_def)
  obtain p s1 where b: "gvm_bump s t ChunkKind_GcScratch = Value (p, s1)"
    "alloc_post s t ChunkKind_GcScratch p s1"
    using bump_post [OF I t32 scratch_kind_live s(4)] bump(2) by auto
  have "gvm_alloc_impl gc s (c * 8) ChunkKind_GcScratch = Value (p, s1)"
    using t bump b(1) by (simp add: gvm_alloc_impl_def)
  moreover have c2: "\<not> c * 2 > vm_size_max div 4" "(c * 2) mod 2 ^ 32 = c * 2" "c * 2 * 4 = c * 8"
    using c by (simp_all add: vm_size_max_def)
  ultimately have A: "gvm_alloc_n gc s 4 (c * 2) ChunkKind_GcScratch = Value (p, s1)"
    unfolding gvm_alloc_n_def gvm_alloc_def by (simp add: mult.commute)
  obtain s2 where s2: "gvm_free_impl (s1\<lparr>m_gc_scratch_offset := p\<rparr>) (m_gc_scratch_offset s) = Value s2"
    "gvm_ok s2" "m_gc_scratch_offset s2 = p"
    using grow_served [OF s(1-3) A b(2)] by blast
  have run: "grow_gc_local_visited gc s c = Value (c * 2, s2)"
    using A c2 s2(1) by (simp add: grow_gc_local_visited_def Let_def)
  have p0: "p \<noteq> nulloffset" using b(2) live_nonnull by (fastforce simp: alloc_post_def)
  then obtain n where "gvm_live s2 p = Some (n, ChunkKind_GcScratch)" using s2(2,3) by (auto simp: gvm_ok_def)
  then have "m_vm_global s2 + 16 \<le> p" using live_above_global s2(2) by (auto simp: gvm_ok_def)
  then have "m_vm_global s2 < m_vm_temp_ptr s" using bump_offset [OF b(1)] t32 s(5) by simp
  then have "\<not> vm_layout (gc_restore_temp (m_vm_temp_ptr s) s2)"
    by (simp add: vm_layout_def gc_restore_temp_def)
  then show ?thesis using run s2(2) I by (auto simp: heap_inv_def)
qed

text \<open>A heap as in \<open>one_array_heap\<close>, in the middle of a pass and with room to grow.\<close>

definition growing_heap :: gvm where
  "growing_heap = idle_heap
     \<lparr>m_vm_temp_ptr := 28616, m_vm_global := 28616, m_vm_limit := 32768, m_in_gc := True,
      headers := (\<lambda>_. free_header 0 0)(28648 := live_header idle_heap 4120 ChunkKind_GcScratch,
        28616 := live_header idle_heap 32 4),
      tails := (\<lambda>_. 0)(32764 := 4120, 28644 := 32), m_gc_scratch_offset := 28664,
      m_gvm_user_block_count := 1\<rparr>"

lemma growing_inv: "heap_inv growing_heap [28616, 28648]"
proof -
  have live: "\<not> gvm_kind_is_free 4" by (simp add: gvm_kind_is_free_def gvm_consts)
  have F: "{x \<in> set [28616, 28648]. blk_free growing_heap x} = {}"
    using live scratch_kind_live by (auto simp: growing_heap_def)
  have "free_struct growing_heap {} [] (\<lambda>_. [])"
    by (simp add: free_struct_def growing_heap_def idle_heap_def nulloffset_def)
  then have "free_lists growing_heap {x \<in> set [28616, 28648]. blk_free growing_heap x}"
    unfolding F by (auto simp: free_lists_def)
  moreover have "coalesced (blk_free growing_heap) True [28616, 28648]"
    using live scratch_kind_live by (simp add: growing_heap_def)
  ultimately show ?thesis
    by (simp add: heap_inv_def vm_layout_def vm_size_max_def growing_heap_def idle_heap_def seg_Cons)
qed

lemma growing_ok: "gvm_ok growing_heap"
proof -
  have live: "\<not> gvm_kind_is_free 4" by (simp add: gvm_kind_is_free_def gvm_consts)
  have H: "headers growing_heap 28616 = live_header idle_heap 32 4"
    "headers growing_heap 28648 = live_header idle_heap 4120 ChunkKind_GcScratch"
    by (simp_all add: growing_heap_def)
  have L: "gvm_live growing_heap p = (if p = 28632 then Some (32, 4)
      else if p = 28664 then Some (4120, ChunkKind_GcScratch) else None)" for p
  proof -
    consider "p = 28632" | "p = 28664"
      | "16 \<le> p \<longrightarrow> p - 16 \<noteq> 28616 \<and> p - 16 \<noteq> 28648" "p \<noteq> 28632" "p \<noteq> 28664" by force
    then show ?thesis by cases (simp_all add: gvm_live_inv [OF growing_inv] H live)
  qed
  then have "gvm_user_blocks growing_heap = {28632}"
    by (auto simp: gvm_user_blocks_def ChunkKind_GcScratch_def split: if_splits)
  moreover have "m_gc_scratch_offset growing_heap = 28664" "m_gvm_user_block_count growing_heap = 1"
    by (simp_all add: growing_heap_def)
  ultimately show ?thesis
    using growing_inv L by (auto simp: gvm_ok_def heap_ok_def nulloffset_def ChunkKind_GcScratch_def)
qed

theorem gc_grow_breaks_layout_witness:
  "vm_layout growing_heap \<and> (\<exists>s2. grow_gc_local_visited Value growing_heap 1024 = Value (2048, s2) \<and>
     \<not> vm_layout (gc_restore_temp (m_vm_temp_ptr growing_heap) s2))"
proof -
  let ?s = growing_heap
  have f: "m_in_gc ?s" "m_gc_scratch_offset ?s \<noteq> nulloffset" "m_vm_alloc_active ?s = None"
    "m_vm_temp_ptr ?s = m_vm_global ?s"
    by (simp_all add: growing_heap_def idle_heap_def nulloffset_def)
  have c: "(1024::nat) * 8 \<le> vm_size_max - 27" by (simp add: vm_size_max_def)
  have t: "gvm_total_size (1024 * 8) = Value 8216"
    by (simp add: gvm_total_size_def gvm_consts vm_size_max_def Let_def)
  have none: "gvm_search_free ?s 8216 ChunkKind_GcScratch = Value None"
    by (simp add: gvm_search_free_def GvmFastBinThreshold_def growing_heap_def idle_heap_def
        first_fit.simps nulloffset_def Let_def)
  have fits: "gvm_bump_fits ?s 8216"
    by (simp add: gvm_bump_fits_def align_down_def growing_heap_def idle_heap_def)
  show ?thesis using gc_grow_breaks_layout [OF growing_ok f c t none fits, of Value] by auto
qed

end
