(* ===== verification/Pcg32.thy ===== *)
theory Pcg32
  imports Prelude
begin

text \<open>
  The PCG32 generator of \<^verbatim>\<open>src/pcg32.inl\<close>: the 64-bit linear congruential step with its
  permuted 32-bit output, seeding, the wider draws, and bounded draws by rejection. Seeding from
  \<^verbatim>\<open>/dev/urandom\<close> is input and is left out, as are the two floating-point draws. The rejection
  loop may in principle run forever, so it is a partial function.
\<close>

record pcg32 =
  m_state :: u64
  m_inc :: u64

definition MULTIPLIER :: u64 where "MULTIPLIER = 0x5851F42D4C957F2D"

definition next_uint32 :: "pcg32 \<Rightarrow> u32 \<times> pcg32" where
  "next_uint32 g =
     (let old_state = m_state g;
          xor_shifted = (ucast (drop_bit 27 (drop_bit 18 old_state XOR old_state)) :: u32);
          rot = unat (ucast (drop_bit 59 old_state) :: u32)
      in (word_rotr rot xor_shifted, g\<lparr>m_state := old_state * MULTIPLIER + m_inc g\<rparr>))"

definition seed :: "u64 \<Rightarrow> u64 \<Rightarrow> pcg32" where
  "seed state inc =
     (let g0 = \<lparr>m_state = 0, m_inc = push_bit 1 inc OR 1\<rparr>;
          g1 = snd (next_uint32 g0);
          g2 = g1\<lparr>m_state := m_state g1 + state\<rparr>
      in snd (next_uint32 g2))"

definition next_uint64 :: "pcg32 \<Rightarrow> u64 \<times> pcg32" where
  "next_uint64 g =
     (let (hi, g1) = next_uint32 g; (lo, g2) = next_uint32 g1
      in (push_bit 32 (ucast hi) OR ucast lo, g2))"

definition next_uint128 :: "pcg32 \<Rightarrow> u128 \<times> pcg32" where
  "next_uint128 g =
     (let (hi, g1) = next_uint64 g; (lo, g2) = next_uint64 g1
      in (push_bit 64 (ucast hi) OR ucast lo, g2))"

text \<open>The rejection loop, over any draw; the threshold is \<^verbatim>\<open>(0 - bound) % bound\<close> at the width.\<close>

partial_function (option) reject_loop ::
  "('g \<Rightarrow> 'w::len word \<times> 'g) \<Rightarrow> 'w word \<Rightarrow> 'w word \<Rightarrow> 'g \<Rightarrow> ('w word \<times> 'g) option" where
  "reject_loop draw threshold bound g =
     (if fst (draw g) \<ge> threshold then Some (fst (draw g) mod bound, snd (draw g))
      else reject_loop draw threshold bound (snd (draw g)))"

definition reject_threshold :: "'w::len word \<Rightarrow> 'w word" where
  "reject_threshold bound = (0 - bound) mod bound"

definition next_uint32_bounded :: "pcg32 \<Rightarrow> u32 \<Rightarrow> (u32 \<times> pcg32) outcome" where
  "next_uint32_bounded g bound =
     (if bound = 0 then Fault else from_walk (reject_loop next_uint32 (reject_threshold bound) bound g))"

definition next_uint64_bounded :: "pcg32 \<Rightarrow> u64 \<Rightarrow> (u64 \<times> pcg32) outcome" where
  "next_uint64_bounded g bound =
     (if bound = 0 then Fault else from_walk (reject_loop next_uint64 (reject_threshold bound) bound g))"

definition next_uint128_bounded :: "pcg32 \<Rightarrow> u128 \<Rightarrow> (u128 \<times> pcg32) outcome" where
  "next_uint128_bounded g bound =
     (if bound = 0 then Fault else from_walk (reject_loop next_uint128 (reject_threshold bound) bound g))"

definition snapshot_state :: "pcg32 \<Rightarrow> u64 \<times> u64" where
  "snapshot_state g = (m_state g, m_inc g)"

definition thaw_state :: "u64 \<times> u64 \<Rightarrow> pcg32" where
  "thaw_state p = \<lparr>m_state = fst p, m_inc = snd p\<rparr>"

section \<open>Bounded draws\<close>

lemma reject_loop_less:
  "reject_loop draw t bound g = Some r \<Longrightarrow> bound \<noteq> 0 \<longrightarrow> fst r < bound"
  by (rule reject_loop.raw_induct [where P = "\<lambda>draw t bound g r. bound \<noteq> 0 \<longrightarrow> fst r < bound", rotated])
    (auto split: if_splits simp: word_less_nat_alt unat_mod unat_gt_0)

lemma threshold_unat:
  fixes bound :: "'w::len word"
  assumes "bound \<noteq> 0"
  shows "unat (reject_threshold bound) = 2 ^ LENGTH('w) mod unat bound"
proof -
  have "unat (0 - bound) = 2 ^ LENGTH('w) - unat bound" 
    unfolding unat_sub_if_size word_size using assms by (simp add: unat_eq_zero)
  moreover have "unat bound \<le> 2 ^ LENGTH('w)" by (simp add: less_imp_le)
  ultimately show ?thesis by (simp add: reject_threshold_def unat_mod le_mod_geq)
qed

text \<open>Every run of \<open>b\<close> consecutive numbers meets each residue once.\<close>

lemma card_residue_block:
  fixes a b k :: nat
  assumes "k < b"
  shows "card {r \<in> {a..<a + b}. r mod b = k} = 1"
proof -
  have inj: "inj_on (\<lambda>r. r mod b) {a..<a + b}"
  proof (rule inj_onI)
    fix x y assume xy: "x \<in> {a..<a + b}" "y \<in> {a..<a + b}" "x mod b = y mod b"
    show "x = y"
    proof (cases x y rule: linorder_cases)
      case less
      then have "b dvd y - x" using xy mod_eq_dvd_iff_nat [of x y b] by simp
      then show ?thesis using less xy by (auto dest: dvd_imp_le)
    next
      case greater
      then have "b dvd x - y" using xy mod_eq_dvd_iff_nat [of y x b] by simp
      then show ?thesis using greater xy by (auto dest: dvd_imp_le)
    qed
  qed
  have "(\<lambda>r. r mod b) ` {a..<a + b} = {..<b}"
    by (rule card_subset_eq) (use assms card_image [OF inj] in auto)
  then obtain r where r: "r \<in> {a..<a + b}" "r mod b = k" using assms by (metis imageE lessThan_iff)
  then have "{r \<in> {a..<a + b}. r mod b = k} = {r}" using inj by (auto dest: inj_onD)
  then show ?thesis by simp
qed

lemma card_residue:
  fixes a b k q :: nat
  assumes "k < b"
  shows "card {r \<in> {a..<a + b * q}. r mod b = k} = q"
proof (induction q)
  case (Suc q)
  let ?A = "{r \<in> {a..<a + b * q}. r mod b = k}" and ?B = "{r \<in> {a + b * q..<a + b * q + b}. r mod b = k}"
  have "{r \<in> {a..<a + b * Suc q}. r mod b = k} = ?A \<union> ?B" by auto
  moreover have "card (?A \<union> ?B) = card ?A + card ?B" by (rule card_Un_disjoint) auto
  ultimately show ?case using Suc card_residue_block [OF assms, of "a + b * q"] by simp
qed simp

text \<open>
  The \<open>i\<close>-th draw from a state: the word and the state behind it.  The loop returns exactly when
  some draw reaches the threshold, and then with the first such draw.
\<close>

primrec nth_draw :: "('g \<Rightarrow> 'w \<times> 'g) \<Rightarrow> nat \<Rightarrow> 'g \<Rightarrow> 'w \<times> 'g" where
  "nth_draw draw 0 g = draw g"
| "nth_draw draw (Suc i) g = nth_draw draw i (snd (draw g))"

lemma reject_loop_first:
  assumes "\<forall>j<i. fst (nth_draw draw j g) < t" "t \<le> fst (nth_draw draw i g)"
  shows "reject_loop draw t bound g = Some (fst (nth_draw draw i g) mod bound, snd (nth_draw draw i g))"
  using assms
proof (induction i arbitrary: g)
  case 0
  then show ?case by (subst reject_loop.simps) simp
next
  case (Suc i)
  have "fst (draw g) < t" using Suc.prems(1) by auto
  moreover have "\<forall>j<i. fst (nth_draw draw j (snd (draw g))) < t" using Suc.prems(1) by auto
  ultimately show ?case using Suc.IH [of "snd (draw g)"] Suc.prems(2)
    by (subst reject_loop.simps) (simp add: linorder_not_le [symmetric])
qed

lemma reject_loop_Some:
  fixes draw :: "'g \<Rightarrow> 'w::len word \<times> 'g"
  shows "reject_loop draw t bound g = Some r \<Longrightarrow>
    \<exists>i. (\<forall>j<i. fst (nth_draw draw j g) < t) \<and> t \<le> fst (nth_draw draw i g)"
proof (rule reject_loop.raw_induct [where P = "\<lambda>draw t bound g r.
    \<exists>i. (\<forall>j<i. fst (nth_draw draw j g) < t) \<and> t \<le> fst (nth_draw draw i g)", rotated])
  fix loop and draw :: "'g \<Rightarrow> 'w word \<times> 'g" and t bound :: "'w word" and g r
  assume IH: "\<And>draw t bound g r. loop draw t bound g = Some r \<Longrightarrow>
      \<exists>i. (\<forall>j<i. fst (nth_draw draw j g) < t) \<and> t \<le> fst (nth_draw draw i g)"
    and step: "(if t \<le> fst (draw g) then Some (fst (draw g) mod bound, snd (draw g))
      else loop draw t bound (snd (draw g))) = Some r"
  show "\<exists>i. (\<forall>j<i. fst (nth_draw draw j g) < t) \<and> t \<le> fst (nth_draw draw i g)"
  proof (cases "t \<le> fst (draw g)")
    case True
    then show ?thesis by (intro exI [of _ 0]) simp
  next
    case False
    with step have "loop draw t bound (snd (draw g)) = Some r" by simp
    from IH [OF this] obtain i where "\<forall>j<i. fst (nth_draw draw j (snd (draw g))) < t"
      "t \<le> fst (nth_draw draw i (snd (draw g)))" by blast
    with False show ?thesis by (intro exI [of _ "Suc i"]) (auto simp: less_Suc_eq_0_disj)
  qed
qed

lemma reject_loop_iff:
  "reject_loop draw t bound g = Some r \<longleftrightarrow>
    (\<exists>i. (\<forall>j<i. fst (nth_draw draw j g) < t) \<and> t \<le> fst (nth_draw draw i g) \<and>
      r = (fst (nth_draw draw i g) mod bound, snd (nth_draw draw i g)))"
  (is "?l = ?r")
proof
  assume l: ?l
  from reject_loop_Some [OF this] obtain i where
    i: "\<forall>j<i. fst (nth_draw draw j g) < t" "t \<le> fst (nth_draw draw i g)" by blast
  with reject_loop_first [OF i, of bound] l show ?r by (intro exI [of _ i]) simp
qed (auto simp: reject_loop_first)

lemma nth_draw_const [simp]: "nth_draw (Pair w) i () = (w, ())"
  by (induction i) simp_all

lemma accepted_draws:
  fixes bound :: "'w::len word"
  assumes "bound \<noteq> 0" "k < bound"
  shows "card {w. reject_threshold bound \<le> w \<and> w mod bound = k} = 2 ^ LENGTH('w) div unat bound"
proof -
  let ?N = "2 ^ LENGTH('w) :: nat" and ?b = "unat bound"
  let ?S = "{r \<in> {?N mod ?b..<?N mod ?b + ?b * (?N div ?b)}. r mod ?b = unat k}"
  have t: "unat (reject_threshold bound) = ?N mod ?b" by (rule threshold_unat [OF assms(1)])
  have n: "?N mod ?b + ?b * (?N div ?b) = ?N" by simp
  have "unat ` {w. reject_threshold bound \<le> w \<and> w mod bound = k} = ?S"
  proof (rule set_eqI, rule iffI)
    fix r assume "r \<in> unat ` {w. reject_threshold bound \<le> w \<and> w mod bound = k}"
    then obtain w where w: "r = unat w" "reject_threshold bound \<le> w" "w mod bound = k" by auto
    then have "?N mod ?b \<le> r" "r < ?N" "r mod ?b = unat k"
      by (auto simp: word_le_nat_alt t simp flip: unat_mod)
    then show "r \<in> ?S" by simp
  next
    fix r assume r: "r \<in> ?S"
    then have u: "unat (of_nat r :: 'w word) = r" using n by (simp add: unat_of_nat take_bit_nat_eq_self)
    have "unat (of_nat r mod bound) = unat k" using r unfolding unat_mod u by simp
    then have "of_nat r mod bound = k" by (simp only: word_unat_eq_iff)
    then show "r \<in> unat ` {w. reject_threshold bound \<le> w \<and> w mod bound = k}"
      using r u by (intro image_eqI [of _ _ "of_nat r"]) (simp_all add: word_le_nat_alt t)
  qed
  moreover have "card ?S = ?N div ?b" by (rule card_residue) (use assms(2) in \<open>simp add: word_less_nat_alt\<close>)
  moreover have "card (unat ` {w. reject_threshold bound \<le> w \<and> w mod bound = k}) =
      card {w. reject_threshold bound \<le> w \<and> w mod bound = k}"
    by (rule card_image) (rule inj_onI, simp only: word_unat_eq_iff)
  ultimately show ?thesis by simp
qed

section \<open>Theorems\<close>

text \<open>
  C17. Bounded draws are unbiased, whatever the width, the bound and the source of raw words. The
  loop returns precisely when some draw reaches the threshold, with the first such draw reduced by
  the bound and the source just behind that draw; every earlier draw was below the threshold and is
  dropped. Of the words a draw can give, exactly \<open>2\<^sup>w div bound\<close> make the loop return \<open>k\<close> at
  once, the same number for every \<open>k\<close> below the bound.
\<close>

theorem reject_unbiased:
  fixes bound :: "'w::len word" and draw :: "'g \<Rightarrow> 'w word \<times> 'g"
  assumes "bound \<noteq> 0" "k < bound"
  shows "(\<forall>r. reject_loop draw (reject_threshold bound) bound g = Some r \<longleftrightarrow>
      (\<exists>i. (\<forall>j<i. fst (nth_draw draw j g) < reject_threshold bound) \<and>
        reject_threshold bound \<le> fst (nth_draw draw i g) \<and>
        r = (fst (nth_draw draw i g) mod bound, snd (nth_draw draw i g)))) \<and>
    card {w. reject_loop (\<lambda>_. (w, ())) (reject_threshold bound) bound () = Some (k, ())} =
      2 ^ LENGTH('w) div unat bound"
proof -
  have "{w. reject_loop (\<lambda>_. (w, ())) (reject_threshold bound) bound () = Some (k, ())} =
      {w. reject_threshold bound \<le> w \<and> w mod bound = k}"
    by (auto simp: reject_loop_iff)
  with accepted_draws [OF assms] show ?thesis by (simp add: reject_loop_iff)
qed

theorem reject_unbiased_witness:
  "reject_loop (\<lambda>n. (n, n + 1)) (reject_threshold 6) (6 :: u32) 2 = Some (4, 5) \<and>
    card {w. reject_loop (\<lambda>_. (w, ())) (reject_threshold 6) (6 :: u32) () = Some (5, ())} = 715827882"
proof -
  have t: "reject_threshold (6 :: u32) = 4" by (simp add: reject_threshold_def)
  have "reject_loop (\<lambda>n. (n, n + 1)) (reject_threshold 6) (6 :: u32) 2 = Some (4, 5)"
    by (rule reject_unbiased [of "6 :: u32" 5, THEN conjunct1, rule_format, THEN iffD2])
      (simp, simp, intro exI [of _ "Suc (Suc 0)"], simp add: t less_Suc_eq)
  moreover have "card {w. reject_loop (\<lambda>_. (w, ())) (reject_threshold 6) (6 :: u32) () = Some (5, ())} = 715827882"
    by (rule trans [OF reject_unbiased [of "6 :: u32" 5, THEN conjunct2]]) simp_all
  ultimately show ?thesis by simp
qed

definition step_back :: "pcg32 \<Rightarrow> pcg32" where
  "step_back g = g\<lparr>m_state := (m_state g - m_inc g) * 0xc097ef87329e28a5\<rparr>"

text \<open>
  The state step is a bijection of the state for every increment, with an explicit inverse,
  so no state is lost; and a seeded generator always has an odd increment, which the full period
  of the generator needs.
\<close>

theorem next_uint32_invertible:
  "step_back (snd (next_uint32 g)) = g \<and> snd (next_uint32 (step_back g)) = g \<and>
   odd (m_inc (seed state inc))"
proof -
  have M: "MULTIPLIER * 0xc097ef87329e28a5 = 1" by (simp add: MULTIPLIER_def)
  have fwd: "x * MULTIPLIER * 0xc097ef87329e28a5 = x" for x :: u64
    by (simp only: mult.assoc M mult.right_neutral)
  have bwd: "x * 0xc097ef87329e28a5 * MULTIPLIER = x" for x :: u64
  proof -
    have "x * 0xc097ef87329e28a5 * MULTIPLIER = x * (MULTIPLIER * 0xc097ef87329e28a5)"
      by (simp only: ac_simps)
    then show ?thesis by (simp only: M mult.right_neutral)
  qed
  have "odd (push_bit 1 inc OR 1 :: u64)" by (simp add: bit_0 [symmetric] bit_or_iff)
  moreover have "m_inc (seed state inc) = push_bit 1 inc OR 1" by (simp add: seed_def next_uint32_def Let_def)
  moreover have "step_back (snd (next_uint32 g)) = g"
    by (simp add: step_back_def next_uint32_def Let_def fwd)
  moreover have "snd (next_uint32 (step_back g)) = g"
    unfolding step_back_def next_uint32_def Let_def by (simp add: bwd del: left_diff_distrib_numeral)
  ultimately show ?thesis by simp
qed

lemma bounded_power_of_two_run:
  assumes "n < 32"
  shows "next_uint32_bounded g (2 ^ n) = Value (fst (next_uint32 g) mod 2 ^ n, snd (next_uint32 g))"
proof -
  have u: "unat (2 ^ n :: u32) = 2 ^ n" 
  proof -
    have "(2 ^ n :: nat) < 2 ^ 32" using assms by (intro power_strict_increasing) simp_all
    then show ?thesis using unat_of_nat [of "2 ^ n", where ?'a = 32] by simp
  qed
  have nz: "(2 ^ n :: u32) \<noteq> 0" using u by (metis power_not_zero unat_0 zero_neq_numeral)
  have "(2::nat) ^ n dvd 2 ^ LENGTH(32)" by (rule le_imp_power_dvd) (use assms in simp)
  then have "(2::nat) ^ LENGTH(32) mod 2 ^ n = 0" by (rule dvd_imp_mod_0)
  then have "unat (reject_threshold (2 ^ n :: u32)) = 0"
    using threshold_unat [OF nz] u by simp
  then have "reject_threshold (2 ^ n :: u32) = 0" by (simp add: unat_eq_zero)
  then show ?thesis using nz by (simp add: next_uint32_bounded_def reject_loop.simps)
qed

text \<open>
  For a bound that is a power of two the loop accepts the first draw, so the draw returns;
  this is the case of the random byte of the CHIP-8 kernel.
\<close>

theorem bounded_power_of_two_returns:
  assumes "n < 32"
  shows "next_uint32_bounded g (2 ^ n) = Value (fst (next_uint32 g) mod 2 ^ n, snd (next_uint32 g))"
  by (rule bounded_power_of_two_run [OF assms])

theorem bounded_power_of_two_witness:
  "\<exists>r. next_uint32_bounded (seed 42 54) (2 ^ 8) = Value r"
  using bounded_power_of_two_returns [of 8 "seed 42 54"] by simp

end
