(* ===== verification/Chip8.thy ===== *)
theory Chip8
  imports Pcg32
begin

text \<open>
  The CHIP-8 step kernel of \<^verbatim>\<open>chip8.cpp\<close>, the host program that runs bursts of CHIP-8
  instructions over buffers owned by the script: operand validation, fetch, the defer screening,
  every instruction, the burst loop and the write-back of the scalars.

  Buffers are lists of bytes of the validated length; the five of them are distinct objects. The
  scalars are 32-bit signed integers, represented by \<^typ>\<open>int\<close> with additions on values that come
  from the script checked (\<open>add32\<close>). An array slot is \<open>Some i\<close> for an Integer object and \<open>None\<close> for
  any other object. Reads and writes at computed addresses go through the checked accessors; the
  register index, a nibble, and the frame-buffer index, reduced modulo the screen, are in range
  by construction. The random byte comes from the generator of \<open>Pcg32\<close>.
\<close>

section \<open>Constants and state\<close>

definition MEM_SIZE :: int where "MEM_SIZE = 4096"
definition VREG_COUNT :: int where "VREG_COUNT = 16"
definition FB_SIZE :: int where "FB_SIZE = 8192"
definition STACK_SLOTS :: int where "STACK_SLOTS = 16"
definition STATE_SLOTS :: int where "STATE_SLOTS = 9"

definition REASON_OK :: int where "REASON_OK = 0"
definition REASON_DEFER :: int where "REASON_DEFER = 1"
definition REASON_KEYWAIT :: int where "REASON_KEYWAIT = 2"

lemmas chip8_consts = MEM_SIZE_def VREG_COUNT_def FB_SIZE_def STACK_SLOTS_def STATE_SLOTS_def
  REASON_OK_def REASON_DEFER_def REASON_KEYWAIT_def

record chip8 =
  c_mem :: "u8 list"
  c_v :: "u8 list"
  c_fb :: "u8 list"
  c_stk :: "int option list"
  c_pc :: int
  c_i :: int
  c_dt :: int
  c_sound :: int
  c_sp :: int
  c_keys :: int
  c_hi :: int
  c_dirty :: int
  c_bell :: int
  c_rng :: pcg32

definition fb_cols :: "chip8 \<Rightarrow> int" where "fb_cols s = (if c_hi s \<noteq> 0 then 128 else 64)"
definition fb_rows :: "chip8 \<Rightarrow> int" where "fb_rows s = (if c_hi s \<noteq> 0 then 64 else 32)"

section \<open>Instruction fields\<close>

definition op_n0 :: "int \<Rightarrow> int" where "op_n0 w = w div 4096 mod 16"
definition op_x :: "int \<Rightarrow> int" where "op_x w = w div 256 mod 16"
definition op_y :: "int \<Rightarrow> int" where "op_y w = w div 16 mod 16"
definition op_nyb :: "int \<Rightarrow> int" where "op_nyb w = w mod 16"
definition op_nn :: "int \<Rightarrow> int" where "op_nn w = w mod 256"
definition op_nnn :: "int \<Rightarrow> int" where "op_nnn w = w mod 4096"

definition vreg :: "chip8 \<Rightarrow> int \<Rightarrow> int" where
  "vreg s k = uint (c_v s ! nat k)"

definition set_vreg :: "chip8 \<Rightarrow> int \<Rightarrow> int \<Rightarrow> chip8" where
  "set_vreg s k w = s\<lparr>c_v := (c_v s)[nat k := word_of_int w]\<rparr>"

definition chip8_fetch :: "chip8 \<Rightarrow> int option outcome" where
  "chip8_fetch s =
     (if c_pc s < 0 then Value None
      else bind_outcome (add32 (c_pc s) 1) (\<lambda>pc1.
        if pc1 \<ge> MEM_SIZE then Value None
        else bind_outcome (get_at (c_mem s) (c_pc s)) (\<lambda>hi.
             bind_outcome (get_at (c_mem s) pc1) (\<lambda>lo.
               Value (Some (uint hi * 256 + uint lo))))))"

section \<open>Defer screening\<close>

text \<open>The range test that the sprite, BCD, store and load instructions share.\<close>

definition out_of_mem :: "int \<Rightarrow> int \<Rightarrow> bool outcome" where
  "out_of_mem i n =
     (if i < 0 then Value True else bind_outcome (add32 i n) (\<lambda>e. Value (e > MEM_SIZE)))"

definition chip8_defers :: "chip8 \<Rightarrow> int \<Rightarrow> bool outcome" where
  "chip8_defers s w =
     (let n0 = op_n0 w; nyb = op_nyb w; nn = op_nn w
      in if n0 = 0 then Value (w = 0x00FD \<or> w = 0x00FE \<or> w = 0x00FF \<or> (w = 0x00EE \<and> c_sp s \<le> 0))
         else if n0 = 2 then Value (c_sp s \<ge> STACK_SLOTS)
         else if n0 = 8 then Value (nyb > 7 \<and> nyb \<noteq> 0xE)
         else if n0 = 0xD then out_of_mem (c_i s) (if nyb = 0 \<and> c_hi s \<noteq> 0 then 32 else nyb)
         else if n0 = 0xE then Value ((nn \<noteq> 0x9E \<and> nn \<noteq> 0xA1) \<or> vreg s (op_x w) > 15)
         else if n0 = 0xF then
           (if nn \<in> {0x07, 0x0A, 0x15, 0x18, 0x1E, 0x29, 0x30} then Value False
            else if nn = 0x33 then out_of_mem (c_i s) 3
            else if nn = 0x55 \<or> nn = 0x65 then
              (if c_i s < 0 then Value True
               else bind_outcome (add32 (c_i s) (op_x w)) (\<lambda>e. out_of_mem e 1))
            else Value True)
         else Value False)"

section \<open>Screen instructions\<close>

definition scroll_right_row :: "nat \<Rightarrow> nat \<Rightarrow> u8 list \<Rightarrow> u8 list" where
  "scroll_right_row cols row buf =
     mem_set (mem_move buf (row * cols + 4) (row * cols) (cols - 4)) (row * cols) 0 4"

definition scroll_left_row :: "nat \<Rightarrow> nat \<Rightarrow> u8 list \<Rightarrow> u8 list" where
  "scroll_left_row cols row buf =
     mem_set (mem_move buf (row * cols) (row * cols + 4) (cols - 4)) (row * cols + (cols - 4)) 0 4"

definition scroll_down :: "nat \<Rightarrow> nat \<Rightarrow> nat \<Rightarrow> u8 list \<Rightarrow> u8 list" where
  "scroll_down cols rows n buf =
     (if n \<ge> rows then mem_set buf 0 0 (nat FB_SIZE)
      else if n > 0 then mem_set (mem_move buf (n * cols) 0 ((rows - n) * cols)) 0 0 (n * cols)
      else buf)"

definition chip8_exec_0 :: "int \<Rightarrow> chip8 \<Rightarrow> chip8 outcome" where
  "chip8_exec_0 w s =
     (let cols = nat (fb_cols s); rows = nat (fb_rows s)
      in if w = 0x00E0 then Value (s\<lparr>c_fb := mem_set (c_fb s) 0 0 (nat FB_SIZE), c_dirty := 1\<rparr>)
         else if w = 0x00EE then
           bind_outcome (get_at (c_stk s) (c_sp s - 1)) (\<lambda>slot.
             case slot of None \<Rightarrow> Raise TypeCheck
                        | Some p \<Rightarrow> Value (s\<lparr>c_sp := c_sp s - 1, c_pc := p\<rparr>))
         else if w = 0x00FB then
           Value (s\<lparr>c_fb := fold (scroll_right_row cols) [0..<rows] (c_fb s), c_dirty := 1\<rparr>)
         else if w = 0x00FC then
           Value (s\<lparr>c_fb := fold (scroll_left_row cols) [0..<rows] (c_fb s), c_dirty := 1\<rparr>)
         else if w div 16 = 0x00C then
           Value (s\<lparr>c_fb := scroll_down cols rows (nat (op_nyb w)) (c_fb s), c_dirty := 1\<rparr>)
         else Value s)"

section \<open>Arithmetic\<close>

definition chip8_exec_8 :: "int \<Rightarrow> chip8 \<Rightarrow> chip8" where
  "chip8_exec_8 w s =
     (let x = op_x w; vx = vreg s x; vy = vreg s (op_y w); nyb = op_nyb w
      in if nyb = 0 then set_vreg s x vy
         else if nyb = 1 then set_vreg s x (vx OR vy)
         else if nyb = 2 then set_vreg s x (vx AND vy)
         else if nyb = 3 then set_vreg s x (vx XOR vy)
         else if nyb = 4 then set_vreg (set_vreg s x (vx + vy)) 15 (if vx + vy \<ge> 0x100 then 1 else 0)
         else if nyb = 5 then set_vreg (set_vreg s x (vx - vy)) 15 (if vx \<ge> vy then 1 else 0)
         else if nyb = 6 then set_vreg (set_vreg s x (vx div 2)) 15 (if odd vx then 1 else 0)
         else if nyb = 7 then set_vreg (set_vreg s x (vy - vx)) 15 (if vy \<ge> vx then 1 else 0)
         else if nyb = 0xE then set_vreg (set_vreg s x (vx * 2)) 15 (if vx \<ge> 0x80 then 1 else 0)
         else s)"

section \<open>Sprites\<close>

definition flip_cell :: "nat \<Rightarrow> u8 list \<times> int \<Rightarrow> u8 list \<times> int" where
  "flip_cell k = (\<lambda>(buf, collision).
     (buf[k := buf ! k XOR 1], if buf ! k = 1 then 1 else collision))"

definition cell_at :: "chip8 \<Rightarrow> int \<Rightarrow> int \<Rightarrow> int \<Rightarrow> int \<Rightarrow> nat" where
  "cell_at s vx0 vy0 dx row =
     nat (((vy0 + row) mod fb_rows s) * fb_cols s + (vx0 + dx) mod fb_cols s)"

text \<open>The columns that a sprite row sets, in drawing order: one byte, or two bytes side by side.\<close>

definition row_cols8 :: "u8 \<Rightarrow> int list" where
  "row_cols8 b = concat (map (\<lambda>c. if bit b (7 - c) then [int c] else []) [0..<8])"

definition row_cols16 :: "u8 \<Rightarrow> u8 \<Rightarrow> int list" where
  "row_cols16 hi lo = concat (map (\<lambda>c. (if bit hi (7 - c) then [int c] else []) @
     (if bit lo (7 - c) then [int c + 8] else [])) [0..<8])"

text \<open>All cells to flip, row by row.\<close>

fun sprite_cells8 :: "chip8 \<Rightarrow> int \<Rightarrow> int \<Rightarrow> nat list \<Rightarrow> nat list outcome" where
  "sprite_cells8 s vx0 vy0 [] = Value []"
| "sprite_cells8 s vx0 vy0 (row # rows) =
     bind_outcome (get_at (c_mem s) (c_i s + int row)) (\<lambda>b.
     bind_outcome (sprite_cells8 s vx0 vy0 rows) (\<lambda>ks.
       Value (map (\<lambda>dx. cell_at s vx0 vy0 dx (int row)) (row_cols8 b) @ ks)))"

fun sprite_cells16 :: "chip8 \<Rightarrow> int \<Rightarrow> int \<Rightarrow> nat list \<Rightarrow> nat list outcome" where
  "sprite_cells16 s vx0 vy0 [] = Value []"
| "sprite_cells16 s vx0 vy0 (row # rows) =
     bind_outcome (get_at (c_mem s) (c_i s + int row * 2)) (\<lambda>hi.
     bind_outcome (get_at (c_mem s) (c_i s + int row * 2 + 1)) (\<lambda>lo.
     bind_outcome (sprite_cells16 s vx0 vy0 rows) (\<lambda>ks.
       Value (map (\<lambda>dx. cell_at s vx0 vy0 dx (int row)) (row_cols16 hi lo) @ ks))))"

definition chip8_exec_D :: "int \<Rightarrow> chip8 \<Rightarrow> chip8 outcome" where
  "chip8_exec_D w s =
     (let vx0 = vreg s (op_x w) mod fb_cols s; vy0 = vreg s (op_y w) mod fb_rows s;
          cells = (if op_nyb w = 0 \<and> c_hi s \<noteq> 0 then sprite_cells16 s vx0 vy0 [0..<16]
                   else sprite_cells8 s vx0 vy0 [0..<nat (op_nyb w)])
      in bind_outcome cells (\<lambda>ks.
           let (buf, collision) = fold flip_cell ks (c_fb s, 0)
           in Value ((set_vreg (s\<lparr>c_fb := buf\<rparr>) 15 collision)\<lparr>c_dirty := 1\<rparr>)))"

section \<open>Keys, timers and memory\<close>

definition chip8_exec_E :: "int \<Rightarrow> chip8 \<Rightarrow> chip8" where
  "chip8_exec_E w s =
     (let down = bit (c_keys s) (nat (vreg s (op_x w)))
      in if (op_nn w = 0x9E \<and> down) \<or> (op_nn w = 0xA1 \<and> \<not> down) then s\<lparr>c_pc := c_pc s + 2\<rparr> else s)"

definition countr_zero32 :: "int \<Rightarrow> int" where
  "countr_zero32 k = (case filter (bit k) [0..<32] of [] \<Rightarrow> 32 | i # _ \<Rightarrow> int i)"

text \<open>The remainder of C++, which takes the sign of the dividend.\<close>

definition c_rem :: "int \<Rightarrow> int \<Rightarrow> int" where
  "c_rem a b = (if 0 \<le> a then a mod b else - ((- a) mod b))"

primrec store_regs :: "chip8 \<Rightarrow> nat \<Rightarrow> u8 list outcome" where
  "store_regs s 0 = Value (c_mem s)"
| "store_regs s (Suc k) =
     bind_outcome (store_regs s k) (\<lambda>m. put_at m (c_i s + int k) (c_v s ! k))"

primrec load_regs :: "chip8 \<Rightarrow> nat \<Rightarrow> u8 list outcome" where
  "load_regs s 0 = Value (c_v s)"
| "load_regs s (Suc k) =
     bind_outcome (load_regs s k) (\<lambda>r.
     bind_outcome (get_at (c_mem s) (c_i s + int k)) (\<lambda>b. put_at r (int k) b))"

text \<open>The flag of the result is set when the instruction waits for a key.\<close>

definition chip8_exec_F :: "int \<Rightarrow> chip8 \<Rightarrow> (bool \<times> chip8) outcome" where
  "chip8_exec_F w s =
     (let x = op_x w; vx = vreg s x; nn = op_nn w
      in if nn = 0x07 then Value (False, set_vreg s x (c_dt s mod 256))
         else if nn = 0x0A then
           (if c_keys s = 0 then Value (True, s\<lparr>c_pc := c_pc s - 2\<rparr>)
            else Value (False, set_vreg s x (countr_zero32 (c_keys s))))
         else if nn = 0x15 then Value (False, s\<lparr>c_dt := vx\<rparr>)
         else if nn = 0x18 then
           Value (False, s\<lparr>c_sound := vx, c_bell := (if c_sound s = 0 \<and> vx > 0 then 1 else c_bell s)\<rparr>)
         else if nn = 0x1E then
           bind_outcome (add32 (c_i s) vx) (\<lambda>e. Value (False, s\<lparr>c_i := c_rem e 0x10000\<rparr>))
         else if nn = 0x29 then Value (False, s\<lparr>c_i := vx * 5\<rparr>)
         else if nn = 0x30 then Value (False, s\<lparr>c_i := vx * 10 + 0x50\<rparr>)
         else if nn = 0x33 then
           bind_outcome (put_at (c_mem s) (c_i s) (word_of_int (vx div 100 mod 10))) (\<lambda>m1.
           bind_outcome (put_at m1 (c_i s + 1) (word_of_int (vx div 10 mod 10))) (\<lambda>m2.
           bind_outcome (put_at m2 (c_i s + 2) (word_of_int (vx mod 10))) (\<lambda>m3.
             Value (False, s\<lparr>c_mem := m3\<rparr>))))
         else if nn = 0x55 then
           bind_outcome (store_regs s (nat x + 1)) (\<lambda>m. Value (False, s\<lparr>c_mem := m\<rparr>))
         else if nn = 0x65 then
           bind_outcome (load_regs s (nat x + 1)) (\<lambda>r. Value (False, s\<lparr>c_v := r\<rparr>))
         else Value (False, s))"

section \<open>One instruction and the burst\<close>

definition skip_if :: "bool \<Rightarrow> chip8 \<Rightarrow> chip8" where
  "skip_if b s = (if b then s\<lparr>c_pc := c_pc s + 2\<rparr> else s)"

definition chip8_exec :: "int \<Rightarrow> chip8 \<Rightarrow> (bool \<times> chip8) outcome" where
  "chip8_exec w s0 =
     (let s = s0\<lparr>c_pc := c_pc s0 + 2\<rparr>; n0 = op_n0 w; x = op_x w; y = op_y w;
          nyb = op_nyb w; nn = op_nn w; nnn = op_nnn w; go = (\<lambda>t. Value (False, t))
      in if n0 = 0 then bind_outcome (chip8_exec_0 w s) go
         else if n0 = 1 then go (s\<lparr>c_pc := nnn\<rparr>)
         else if n0 = 2 then
           bind_outcome (put_at (c_stk s) (c_sp s) (Some (c_pc s))) (\<lambda>k.
             go (s\<lparr>c_stk := k, c_sp := c_sp s + 1, c_pc := nnn\<rparr>))
         else if n0 = 3 then go (skip_if (vreg s x = nn) s)
         else if n0 = 4 then go (skip_if (vreg s x \<noteq> nn) s)
         else if n0 = 5 then go (skip_if (nyb = 0 \<and> vreg s x = vreg s y) s)
         else if n0 = 6 then go (set_vreg s x nn)
         else if n0 = 7 then go (set_vreg s x (vreg s x + nn))
         else if n0 = 8 then go (chip8_exec_8 w s)
         else if n0 = 9 then go (skip_if (nyb = 0 \<and> vreg s x \<noteq> vreg s y) s)
         else if n0 = 0xA then go (s\<lparr>c_i := nnn\<rparr>)
         else if n0 = 0xB then go (s\<lparr>c_pc := (nnn + vreg s 0) mod 0x1000\<rparr>)
         else if n0 = 0xC then
           bind_outcome (next_uint32_bounded (c_rng s) 256) (\<lambda>(r, g).
             go (set_vreg (s\<lparr>c_rng := g\<rparr>) x (uint r AND nn)))
         else if n0 = 0xD then bind_outcome (chip8_exec_D w s) go
         else if n0 = 0xE then go (chip8_exec_E w s)
         else chip8_exec_F w s)"

text \<open>\<open>left\<close> instructions remain of the budget; the loop consumes at most that many.\<close>

fun chip8_burst :: "nat \<Rightarrow> int \<Rightarrow> chip8 \<Rightarrow> (int \<times> int \<times> chip8) outcome" where
  "chip8_burst 0 consumed s = Value (consumed, REASON_OK, s)"
| "chip8_burst (Suc left) consumed s =
     bind_outcome (chip8_fetch s) (\<lambda>fetched.
       case fetched of
         None \<Rightarrow> Value (consumed, REASON_DEFER, s)
       | Some w \<Rightarrow>
           bind_outcome (chip8_defers s w) (\<lambda>defer.
             if defer then Value (consumed, REASON_DEFER, s)
             else bind_outcome (chip8_exec w s) (\<lambda>(wait, s1).
               if wait then Value (consumed + 1, REASON_KEYWAIT, s1)
               else chip8_burst left (consumed + 1) s1)))"

section \<open>The operator\<close>

datatype operand = OInteger int | OString "u8 list" bool | OArray "int option list" bool

definition chip8_validate_string :: "operand \<Rightarrow> int \<Rightarrow> u8 list outcome" where
  "chip8_validate_string ob len =
     (case ob of
        OString bs rw \<Rightarrow> if int (length bs) \<noteq> len then Raise RangeCheck
                         else if \<not> rw then Raise InvalidAccess else Value bs
      | _ \<Rightarrow> Raise TypeCheck)"

definition chip8_validate_array :: "operand \<Rightarrow> int \<Rightarrow> int option list outcome" where
  "chip8_validate_array ob len =
     (case ob of
        OArray xs rw \<Rightarrow> if int (length xs) \<noteq> len then Raise RangeCheck
                        else if \<not> rw then Raise InvalidAccess else Value xs
      | _ \<Rightarrow> Raise TypeCheck)"

definition chip8_slot_int :: "int option \<Rightarrow> int outcome" where
  "chip8_slot_int slot = (case slot of None \<Rightarrow> Raise TypeCheck | Some i \<Rightarrow> Value i)"

definition chip8_write_back :: "int option list \<Rightarrow> chip8 \<Rightarrow> int option list" where
  "chip8_write_back st s =
     st[0 := Some (c_pc s), 1 := Some (c_i s), 2 := Some (c_dt s), 3 := Some (c_sound s),
        4 := Some (c_sp s), 7 := Some (c_dirty s), 8 := Some (c_bell s)]"

text \<open>The scalars of the state array, read in slot order.\<close>

definition chip8_load_state :: "u8 list \<Rightarrow> u8 list \<Rightarrow> u8 list \<Rightarrow> int option list \<Rightarrow> int option list \<Rightarrow>
    pcg32 \<Rightarrow> chip8 outcome" where
  "chip8_load_state mem v fb stk st rng =
     bind_outcome (chip8_slot_int (st ! 0)) (\<lambda>pc.
     bind_outcome (chip8_slot_int (st ! 1)) (\<lambda>i.
     bind_outcome (chip8_slot_int (st ! 2)) (\<lambda>dt.
     bind_outcome (chip8_slot_int (st ! 3)) (\<lambda>sound.
     bind_outcome (chip8_slot_int (st ! 4)) (\<lambda>sp.
     bind_outcome (chip8_slot_int (st ! 5)) (\<lambda>keys.
     bind_outcome (chip8_slot_int (st ! 6)) (\<lambda>hi.
       Value \<lparr>c_mem = mem, c_v = v, c_fb = fb, c_stk = stk, c_pc = pc, c_i = i, c_dt = dt,
         c_sound = sound, c_sp = sp, c_keys = keys, c_hi = hi, c_dirty = 0, c_bell = 0,
         c_rng = rng\<rparr>)))))))"

text \<open>
  The operands, deepest first, after \<^verbatim>\<open>verify_operands\<close> has checked their number and types. The
  result is the two integers pushed, the state array written back and the machine.
\<close>

definition chip8_step_fast_op ::
  "operand \<Rightarrow> operand \<Rightarrow> operand \<Rightarrow> operand \<Rightarrow> operand \<Rightarrow> int \<Rightarrow> pcg32 \<Rightarrow>
     (int \<times> int \<times> int option list \<times> chip8) outcome" where
  "chip8_step_fast_op mem_ob v_ob fb_ob stack_ob state_ob budget rng =
     (if budget < 1 then Raise RangeCheck
      else bind_outcome (chip8_validate_string mem_ob MEM_SIZE) (\<lambda>mem.
           bind_outcome (chip8_validate_string v_ob VREG_COUNT) (\<lambda>v.
           bind_outcome (chip8_validate_string fb_ob FB_SIZE) (\<lambda>fb.
           bind_outcome (chip8_validate_array stack_ob STACK_SLOTS) (\<lambda>stk.
           bind_outcome (chip8_validate_array state_ob STATE_SLOTS) (\<lambda>st.
           bind_outcome (chip8_load_state mem v fb stk st rng) (\<lambda>s.
           bind_outcome (chip8_burst (nat budget) 0 s) (\<lambda>(consumed, reason, s1).
             Value (consumed, reason, chip8_write_back st s1, s1)))))))))"

end
