(* ===== verification/Chip8_Proofs.thy ===== *)
theory Chip8_Proofs
  imports Chip8
begin

text \<open>
  Properties of the CHIP-8 kernel: memory safety and the preservation of the machine's
  well-formedness for whole bursts, the meaning of the flag-setting instructions, sprites as an
  involution, scrolling, and the round trips of the memory instructions. The kernel does not
  check the stack pointer it is given from both sides; the last section shows what follows.
\<close>

section \<open>Well-formed machines\<close>

text \<open>
  Lengths as validated, a stack pointer inside the stack, integer return addresses, and program
  counter and index register far enough from the ends of the 32-bit range.
\<close>

definition pc_ok :: "int \<Rightarrow> bool" where
  "pc_ok p \<longleftrightarrow> int32_min \<le> p \<and> p < int32_max"

definition chip8_wf :: "chip8 \<Rightarrow> bool" where
  "chip8_wf s \<longleftrightarrow> length (c_mem s) = 4096 \<and> length (c_v s) = 16 \<and> length (c_fb s) = 8192 \<and>
     length (c_stk s) = 16 \<and> 0 \<le> c_sp s \<and> c_sp s \<le> 16 \<and>
     (\<forall>slot\<in>set (c_stk s). \<exists>p. slot = Some p \<and> pc_ok p) \<and> pc_ok (c_pc s) \<and>
     int32_min \<le> c_i s \<and> c_i s \<le> int32_max - 4096"

text \<open>An instruction that completes in a well-formed machine.\<close>

definition keeps_wf :: "(bool \<times> chip8) outcome \<Rightarrow> bool" where
  "keeps_wf r \<longleftrightarrow> (\<exists>b t. r = Value (b, t) \<and> chip8_wf t)"

lemma keeps_wf_Value [simp]: "keeps_wf (Value (b, t)) = chip8_wf t"
  by (simp add: keeps_wf_def)

lemma op_ranges:
  "0 \<le> op_x w" "op_x w < 16" "0 \<le> op_y w" "op_y w < 16" "0 \<le> op_nyb w" "op_nyb w < 16"
  "0 \<le> op_nnn w" "op_nnn w < 4096" "0 \<le> op_nn w" "op_nn w < 256"
  by (simp_all add: op_x_def op_y_def op_nyb_def op_nnn_def op_nn_def)

lemma vreg_range: "0 \<le> vreg s k" "vreg s k < 256"
  using uint_range_size [of "c_v s ! nat k"] by (simp_all add: vreg_def word_size)

lemma set_vreg_wf [simp]: "chip8_wf (set_vreg s k w) = chip8_wf s"
  by (simp add: chip8_wf_def set_vreg_def)

lemma set_vreg_fields [simp]:
  "c_pc (set_vreg s k w) = c_pc s" "c_i (set_vreg s k w) = c_i s" "c_mem (set_vreg s k w) = c_mem s"
  "c_fb (set_vreg s k w) = c_fb s" "c_sp (set_vreg s k w) = c_sp s" "c_stk (set_vreg s k w) = c_stk s"
  "c_hi (set_vreg s k w) = c_hi s" "c_keys (set_vreg s k w) = c_keys s"
  "length (c_v (set_vreg s k w)) = length (c_v s)"
  by (simp_all add: set_vreg_def)

lemma vreg_set_vreg:
  assumes "length (c_v s) = 16" "0 \<le> k" "k < 16" "0 \<le> j" "j < 16"
  shows "vreg (set_vreg s k w) j = (if j = k then w mod 256 else vreg s j)"
  using assms by (auto simp: vreg_def set_vreg_def nth_list_update uint_word_of_int nat_eq_iff)

text \<open>Screen dimensions.\<close>

lemma fb_dims: "fb_cols s = 64 \<and> fb_rows s = 32 \<or> fb_cols s = 128 \<and> fb_rows s = 64"
  by (simp add: fb_cols_def fb_rows_def)

lemma cell_at_less: "cell_at s vx0 vy0 dx row < 8192"
proof -
  let ?y = "(vy0 + row) mod fb_rows s" and ?x = "(vx0 + dx) mod fb_cols s"
  have "0 \<le> ?y" "?y < fb_rows s" "0 \<le> ?x" "?x < fb_cols s" using fb_dims [of s] by auto
  then have "?y * fb_cols s + ?x < fb_rows s * fb_cols s" using fb_dims [of s] by auto
  then show ?thesis using fb_dims [of s] by (auto simp: cell_at_def)
qed

section \<open>Screen buffers keep their length\<close>

lemma scroll_right_row_length:
  "length buf = 8192 \<Longrightarrow> row < rows \<Longrightarrow> rows * cols \<le> 8192 \<Longrightarrow> 4 \<le> cols \<Longrightarrow>
     length (scroll_right_row cols row buf) = 8192"
  using mult_le_mono1 [of "Suc row" rows cols] by (simp add: scroll_right_row_def)

lemma scroll_left_row_length:
  "length buf = 8192 \<Longrightarrow> row < rows \<Longrightarrow> rows * cols \<le> 8192 \<Longrightarrow> 4 \<le> cols \<Longrightarrow>
     length (scroll_left_row cols row buf) = 8192"
  using mult_le_mono1 [of "Suc row" rows cols] by (simp add: scroll_left_row_def)

lemma fold_length:
  "(\<And>k buf. k \<in> set ks \<Longrightarrow> length buf = n \<Longrightarrow> length (f k buf) = n) \<Longrightarrow> length buf = n \<Longrightarrow>
     length (fold f ks buf) = n"
  by (induction ks arbitrary: buf) auto

lemma flip_fold_length: "length (fst (fold flip_cell ks (buf, c))) = length buf"
  by (induction ks arbitrary: buf c) (auto simp: flip_cell_def)

lemma scroll_down_length:
  "length buf = 8192 \<Longrightarrow> rows * cols \<le> 8192 \<Longrightarrow> length (scroll_down cols rows n buf) = 8192"
proof -
  assume b: "length buf = 8192" and r: "rows * cols \<le> 8192"
  show ?thesis
  proof (cases "n < rows")
    case True
    then have "n * cols + (rows - n) * cols = rows * cols" by (simp flip: add_mult_distrib)
    then show ?thesis using b r True by (simp add: scroll_down_def)
  qed (simp add: scroll_down_def b FB_SIZE_def)
qed

section \<open>Every instruction keeps the machine well formed\<close>

lemma wf_fb: "chip8_wf s \<Longrightarrow> length buf = 8192 \<Longrightarrow> chip8_wf (s\<lparr>c_fb := buf, c_dirty := d\<rparr>)"
  by (simp add: chip8_wf_def)

lemma dims_nat: "nat (fb_rows s) * nat (fb_cols s) \<le> 8192" "4 \<le> nat (fb_cols s)"
  using fb_dims [of s] by auto

lemma exec_0_ok:
  assumes s: "chip8_wf s" and r: "w = 0xEE \<longrightarrow> 0 < c_sp s"
  shows "\<exists>t. chip8_exec_0 w s = Value t \<and> chip8_wf t"
proof -
  let ?cols = "nat (fb_cols s)" and ?rows = "nat (fb_rows s)"
  have fb: "length (c_fb s) = 8192" using s by (simp add: chip8_wf_def)
  have right: "length (fold (scroll_right_row ?cols) [0..<?rows] (c_fb s)) = 8192"
    by (rule fold_length) (use scroll_right_row_length dims_nat [of s] fb in auto)
  have left: "length (fold (scroll_left_row ?cols) [0..<?rows] (c_fb s)) = 8192"
    by (rule fold_length) (use scroll_left_row_length dims_nat [of s] fb in auto)
  have down: "length (scroll_down ?cols ?rows n (c_fb s)) = 8192" for n
    by (rule scroll_down_length [OF fb dims_nat(1)])
  have cls: "length (mem_set (c_fb s) 0 0 (nat FB_SIZE)) = 8192" using fb by (simp add: FB_SIZE_def)
  show ?thesis
  proof (cases "w = 0xEE")
    case True
    then have i: "0 \<le> c_sp s - 1" "c_sp s - 1 < int (length (c_stk s))"
      using s r by (auto simp: chip8_wf_def)
    then have "c_stk s ! nat (c_sp s - 1) \<in> set (c_stk s)" by (simp add: nat_less_iff)
    then obtain p where "c_stk s ! nat (c_sp s - 1) = Some p" "pc_ok p"
      using s by (auto simp: chip8_wf_def)
    then show ?thesis using True i s
      by (simp add: chip8_exec_0_def get_at_Value Let_def) (simp add: chip8_wf_def)
  next
    case False
    then show ?thesis using s wf_fb [OF s] right left down cls
      unfolding chip8_exec_0_def Let_def by (simp split: if_splits)
  qed
qed

lemma exec_8_ok: "chip8_wf (chip8_exec_8 w s) = chip8_wf s"
  by (simp add: chip8_exec_8_def Let_def)

lemma sprite_cells8_ok:
  assumes "length (c_mem s) = 4096" "0 \<le> c_i s" "\<forall>r\<in>set rows. c_i s + int r < 4096"
  shows "\<exists>ks. sprite_cells8 s vx0 vy0 rows = Value ks"
  using assms(3) by (induction rows) (auto simp: get_at_Value assms(1,2))

lemma sprite_cells16_ok:
  assumes "length (c_mem s) = 4096" "0 \<le> c_i s" "\<forall>r\<in>set rows. c_i s + int r * 2 + 1 < 4096"
  shows "\<exists>ks. sprite_cells16 s vx0 vy0 rows = Value ks"
  using assms(3) by (induction rows) (auto simp: get_at_Value assms(1,2))

lemma out_of_mem_False:
  assumes "out_of_mem i n = Value False" "0 \<le> n"
  shows "0 \<le> i" "i + n \<le> 4096"
  using assms by (auto simp: out_of_mem_def add32_def MEM_SIZE_def bind_outcome_Value_iff split: if_splits)

lemma out_of_mem_Value: "int32_min \<le> i \<Longrightarrow> i + n \<le> int32_max \<Longrightarrow> 0 \<le> n \<Longrightarrow> \<exists>b. out_of_mem i n = Value b"
  by (auto simp: out_of_mem_def add32_def int32_defs)

lemma exec_D_ok:
  assumes s: "chip8_wf s" and r: "out_of_mem (c_i s) (if op_nyb w = 0 \<and> c_hi s \<noteq> 0 then 32 else op_nyb w) = Value False"
  shows "\<exists>t. chip8_exec_D w s = Value t \<and> chip8_wf t"
proof -
  note R = out_of_mem_False [OF r]
  have m: "length (c_mem s) = 4096" using s by (simp add: chip8_wf_def)
  let ?cells = "if op_nyb w = 0 \<and> c_hi s \<noteq> 0
    then sprite_cells16 s (vreg s (op_x w) mod fb_cols s) (vreg s (op_y w) mod fb_rows s) [0..<16]
    else sprite_cells8 s (vreg s (op_x w) mod fb_cols s) (vreg s (op_y w) mod fb_rows s) [0..<nat (op_nyb w)]"
  have "\<exists>ks. ?cells = Value ks"
  proof (cases "op_nyb w = 0 \<and> c_hi s \<noteq> 0")
    case True
    then show ?thesis using sprite_cells16_ok [OF m, of "[0..<16]"] R by auto
  next
    case False
    then have "0 \<le> c_i s" "\<forall>r\<in>set [0..<nat (op_nyb w)]. c_i s + int r < 4096"
      using R op_ranges(5) [of w] by auto
    then show ?thesis using sprite_cells8_ok [OF m] False by auto
  qed
  then obtain ks where ks: "?cells = Value ks" by blast
  have "length (fst (fold flip_cell ks (c_fb s, 0))) = 8192"
    using s flip_fold_length by (simp add: chip8_wf_def)
  then show ?thesis
    using s ks by (simp add: chip8_exec_D_def Let_def split_beta) (simp add: chip8_wf_def)
qed

lemma store_regs_ok:
  assumes "length (c_mem s) = 4096" "0 \<le> c_i s" "c_i s + int k \<le> 4096"
  shows "\<exists>m. store_regs s k = Value m \<and> length m = 4096 \<and>
    (\<forall>j<4096. m ! j = (if nat (c_i s) \<le> j \<and> j < nat (c_i s) + k then c_v s ! (j - nat (c_i s)) else c_mem s ! j))"
  using assms(3)
proof (induction k)
  case (Suc k)
  then obtain m where m: "store_regs s k = Value m" "length m = 4096"
    "\<forall>j<4096. m ! j = (if nat (c_i s) \<le> j \<and> j < nat (c_i s) + k then c_v s ! (j - nat (c_i s)) else c_mem s ! j)"
    by auto
  have "put_at m (c_i s + int k) (c_v s ! k) = Value (m[nat (c_i s) + k := c_v s ! k])"
    using m(2) Suc.prems assms(2) by (simp add: put_at_Value nat_add_distrib)
  then show ?case using m Suc.prems assms(2) by (auto simp: nth_list_update)
qed (use assms in auto)

lemma load_regs_ok:
  assumes "length (c_mem s) = 4096" "length (c_v s) = 16" "0 \<le> c_i s" "c_i s + int k \<le> 4096" "k \<le> 16"
  shows "\<exists>r. load_regs s k = Value r \<and> length r = 16 \<and>
    (\<forall>j<16. r ! j = (if j < k then c_mem s ! (nat (c_i s) + j) else c_v s ! j))"
  using assms(4,5)
proof (induction k)
  case (Suc k)
  then obtain r where r: "load_regs s k = Value r" "length r = 16"
    "\<forall>j<16. r ! j = (if j < k then c_mem s ! (nat (c_i s) + j) else c_v s ! j)" by auto
  have "get_at (c_mem s) (c_i s + int k) = Value (c_mem s ! (nat (c_i s) + k))"
    using assms(1,3) Suc.prems by (simp add: get_at_Value nat_add_distrib)
  moreover have "put_at r (int k) b = Value (r[k := b])" for b
    using r(2) Suc.prems by (simp add: put_at_Value)
  ultimately show ?case using r Suc.prems by (auto simp: nth_list_update less_Suc_eq)
qed (simp add: assms)

lemma wf_i: "chip8_wf s \<Longrightarrow> int32_min \<le> i \<Longrightarrow> i \<le> int32_max - 4096 \<Longrightarrow> chip8_wf (s\<lparr>c_i := i\<rparr>)"
  by (simp add: chip8_wf_def)

lemma c_rem_range: "- 65536 < c_rem a 65536" "c_rem a 65536 < 65536"
  using pos_mod_sign [of 65536 a] pos_mod_bound [of 65536 a]
    pos_mod_sign [of 65536 "- a"] pos_mod_bound [of 65536 "- a"]
  by (auto simp: c_rem_def simp del: pos_mod_sign pos_mod_bound)

lemma exec_F_index_ok:
  assumes s: "chip8_wf s" and n: "op_nn w \<in> {0x1E, 0x29, 0x30}"
  shows "\<exists>t. chip8_exec_F w s = Value (False, t) \<and> chip8_wf t"
proof -
  note V = vreg_range [of s "op_x w"]
  have "in_int32 (c_i s + vreg s (op_x w))"
    using s V by (auto simp: chip8_wf_def int32_defs)
  moreover have "chip8_wf (s\<lparr>c_i := c_rem (c_i s + vreg s (op_x w)) 65536\<rparr>)"
    using c_rem_range [of "c_i s + vreg s (op_x w)"] by (intro wf_i [OF s]) (auto simp: int32_defs)
  moreover have "chip8_wf (s\<lparr>c_i := vreg s (op_x w) * 5\<rparr>)" "chip8_wf (s\<lparr>c_i := vreg s (op_x w) * 10 + 80\<rparr>)"
    using V by (intro wf_i [OF s]; simp add: int32_defs)+
  ultimately show ?thesis using n by (auto simp: chip8_exec_F_def add32_Value Let_def)
qed

lemma exec_F_mem_ok:
  assumes s: "chip8_wf s" and n: "op_nn w \<in> {0x33, 0x55, 0x65}"
    and i: "0 \<le> c_i s" "c_i s + (if op_nn w = 0x33 then 3 else op_x w + 1) \<le> 4096"
  shows "\<exists>t. chip8_exec_F w s = Value (False, t) \<and> chip8_wf t"
proof -
  have m: "length (c_mem s) = 4096" "length (c_v s) = 16" using s by (simp_all add: chip8_wf_def)
  consider "op_nn w = 0x33" | "op_nn w = 0x55" | "op_nn w = 0x65" using n by auto
  then show ?thesis
  proof cases
    case 1
    then show ?thesis using i m s
      by (simp add: chip8_exec_F_def put_at_Value Let_def) (simp add: chip8_wf_def)
  next
    case 2
    then have "c_i s + int (nat (op_x w) + 1) \<le> 4096" using i op_ranges [of w] by simp
    from store_regs_ok [OF m(1) i(1) this] obtain m' where
      "store_regs s (nat (op_x w) + 1) = Value m'" "length m' = 4096" by blast
    then have "chip8_exec_F w s = Value (False, s\<lparr>c_mem := m'\<rparr>)" "chip8_wf (s\<lparr>c_mem := m'\<rparr>)"
      using 2 s by (simp_all add: chip8_exec_F_def chip8_wf_def Let_def del: store_regs.simps)
    then show ?thesis by blast
  next
    case 3
    then have "c_i s + int (nat (op_x w) + 1) \<le> 4096" "nat (op_x w) + 1 \<le> 16"
      using i op_ranges [of w] by auto
    from load_regs_ok [OF m i(1) this] obtain r where
      "load_regs s (nat (op_x w) + 1) = Value r" "length r = 16" by blast
    then have "chip8_exec_F w s = Value (False, s\<lparr>c_v := r\<rparr>)" "chip8_wf (s\<lparr>c_v := r\<rparr>)"
      using 3 s by (simp_all add: chip8_exec_F_def chip8_wf_def Let_def del: load_regs.simps)
    then show ?thesis by blast
  qed
qed

lemma exec_F_other_ok:
  assumes s: "chip8_wf s" and p: "2 \<le> c_pc s" "c_pc s \<le> 4096"
    and n: "op_nn w \<notin> {0x1E, 0x29, 0x30, 0x33, 0x55, 0x65}"
  shows "keeps_wf (chip8_exec_F w s)"
proof -
  have "chip8_wf (s\<lparr>c_pc := c_pc s - 2\<rparr>)" using s p by (simp add: chip8_wf_def pc_ok_def int32_defs)
  moreover have "chip8_wf (s\<lparr>c_dt := a\<rparr>)" "chip8_wf (s\<lparr>c_sound := a, c_bell := b\<rparr>)" for a b
    using s by (simp_all add: chip8_wf_def)
  moreover have "chip8_exec_F w s =
      (if op_nn w = 0x07 then Value (False, set_vreg s (op_x w) (c_dt s mod 256))
       else if op_nn w = 0x0A then
         (if c_keys s = 0 then Value (True, s\<lparr>c_pc := c_pc s - 2\<rparr>)
          else Value (False, set_vreg s (op_x w) (countr_zero32 (c_keys s))))
       else if op_nn w = 0x15 then Value (False, s\<lparr>c_dt := vreg s (op_x w)\<rparr>)
       else if op_nn w = 0x18 then Value (False, s\<lparr>c_sound := vreg s (op_x w),
         c_bell := (if c_sound s = 0 \<and> vreg s (op_x w) > 0 then 1 else c_bell s)\<rparr>)
       else Value (False, s))"
    using n by (simp add: chip8_exec_F_def Let_def)
  ultimately show ?thesis using s by simp
qed

lemma skip_if_ok:
  "chip8_wf s \<Longrightarrow> 0 \<le> c_pc s \<Longrightarrow> c_pc s \<le> 4096 \<Longrightarrow> chip8_wf (skip_if b s)"
  by (simp add: chip8_wf_def skip_if_def pc_ok_def int32_defs)

lemma exec_E_ok:
  "chip8_wf s \<Longrightarrow> 0 \<le> c_pc s \<Longrightarrow> c_pc s \<le> 4096 \<Longrightarrow> chip8_wf (chip8_exec_E w s)"
  using skip_if_ok [of s True] by (simp add: chip8_exec_E_def skip_if_def Let_def)

lemma call_ok:
  assumes s: "chip8_wf s" and p: "0 \<le> c_pc s" "c_pc s \<le> 4096" "c_sp s < 16"
  shows "\<exists>k. put_at (c_stk s) (c_sp s) (Some (c_pc s)) = Value k \<and>
    chip8_wf (s\<lparr>c_stk := k, c_sp := c_sp s + 1, c_pc := op_nnn w\<rparr>)"
proof -
  have i: "0 \<le> c_sp s" "c_sp s < int (length (c_stk s))" using s p by (auto simp: chip8_wf_def)
  have "\<exists>q. slot = Some q \<and> pc_ok q" if "slot \<in> set ((c_stk s)[nat (c_sp s) := Some (c_pc s)])" for slot
  proof (cases "slot = Some (c_pc s)")
    case False
    then have "slot \<in> set (c_stk s)" using subsetD [OF set_update_subset_insert that] by simp
    then show ?thesis using s by (simp add: chip8_wf_def)
  qed (use p in \<open>simp add: pc_ok_def int32_defs\<close>)
  then show ?thesis using i s p op_ranges [of w]
    by (simp add: put_at_Value chip8_wf_def pc_ok_def int32_defs)
qed

lemma exec_F_ok:
  assumes s: "chip8_wf s" "2 \<le> c_pc s" "c_pc s \<le> 4096"
    and n: "op_nn w = 0x33 \<Longrightarrow> out_of_mem (c_i s) 3 = Value False"
      "op_nn w = 0x55 \<or> op_nn w = 0x65 \<Longrightarrow> 0 \<le> c_i s \<and> c_i s + op_x w + 1 \<le> 4096"
  shows "keeps_wf (chip8_exec_F w s)"
proof -
  consider "op_nn w \<in> {0x1E, 0x29, 0x30}" | "op_nn w \<in> {0x33, 0x55, 0x65}"
    | "op_nn w \<notin> {0x1E, 0x29, 0x30, 0x33, 0x55, 0x65}" by blast
  then show ?thesis
  proof cases
    case 1
    then show ?thesis using exec_F_index_ok [OF s(1) 1] unfolding keeps_wf_def by blast
  next
    case 2
    then have "0 \<le> c_i s" "c_i s + (if op_nn w = 0x33 then 3 else op_x w + 1) \<le> 4096"
      using n out_of_mem_False [of "c_i s" 3] by auto
    then show ?thesis using exec_F_mem_ok [OF s(1) 2] unfolding keeps_wf_def by blast
  next
    case 3
    then show ?thesis using exec_F_other_ok [OF s] by blast
  qed
qed

lemma defers_F:
  assumes "chip8_defers s w = Value False" "op_n0 w = 0xF"
  shows "op_nn w = 0x33 \<Longrightarrow> out_of_mem (c_i s) 3 = Value False"
    "op_nn w = 0x55 \<or> op_nn w = 0x65 \<Longrightarrow> 0 \<le> c_i s \<and> c_i s + op_x w + 1 \<le> 4096"
proof -
  show "op_nn w = 0x33 \<Longrightarrow> out_of_mem (c_i s) 3 = Value False"
    using assms by (simp add: chip8_defers_def Let_def)
  assume n: "op_nn w = 0x55 \<or> op_nn w = 0x65"
  have "chip8_defers s w = (if c_i s < 0 then Value True
      else bind_outcome (add32 (c_i s) (op_x w)) (\<lambda>e. out_of_mem e 1))"
    using assms(2) n by (auto simp: chip8_defers_def Let_def)
  then have "0 \<le> c_i s" "out_of_mem (c_i s + op_x w) 1 = Value False"
    using assms(1) by (auto simp: add32_def bind_outcome_Value_iff split: if_splits)
  then show "0 \<le> c_i s \<and> c_i s + op_x w + 1 \<le> 4096" using out_of_mem_False [of _ 1] by auto
qed

lemma exec_ok:
  assumes s: "chip8_wf s" and p: "0 \<le> c_pc s" "c_pc s < 4095" and d: "chip8_defers s w = Value False"
    and w: "0 \<le> w" "w < 65536"
  shows "keeps_wf (chip8_exec w s)"
proof -
  let ?s = "s\<lparr>c_pc := c_pc s + 2\<rparr>"
  have s2: "chip8_wf ?s" using s p by (simp add: chip8_wf_def pc_ok_def int32_defs)
  have p2: "2 \<le> c_pc ?s" "c_pc ?s \<le> 4096" using p by auto
  have pc: "chip8_wf (?s\<lparr>c_pc := q\<rparr>)" if "0 \<le> q" "q < 4096" for q
    using s2 that by (simp add: chip8_wf_def pc_ok_def int32_defs)
  have rnd: "\<exists>r g. next_uint32_bounded (c_rng s) 256 = Value (r, g)"
    using bounded_power_of_two_run [of 8 "c_rng s"] by simp
  have rng: "chip8_wf (?s\<lparr>c_rng := g\<rparr>)" for g using s2 by (simp add: chip8_wf_def)
  have n0: "0 \<le> op_n0 w" "op_n0 w < 16" by (simp_all add: op_n0_def)
  consider "op_n0 w = 0" | "op_n0 w = 2" | "op_n0 w = 0xC" | "op_n0 w = 0xD" | "op_n0 w = 0xF"
    | "op_n0 w \<notin> {0, 2, 0xC, 0xD, 0xF}" by blast
  then show ?thesis
  proof cases
    case 1
    then have "w = 0xEE \<longrightarrow> 0 < c_sp ?s" using d by (auto simp: chip8_defers_def Let_def)
    from exec_0_ok [OF s2 this] show ?thesis using 1 by (auto simp: chip8_exec_def Let_def)
  next
    case 2
    then have "c_sp ?s < 16" using d by (simp add: chip8_defers_def Let_def STACK_SLOTS_def)
    moreover have "0 \<le> c_pc ?s" using p2 by simp
    ultimately obtain k where k: "put_at (c_stk ?s) (c_sp ?s) (Some (c_pc ?s)) = Value k"
      "chip8_wf (?s\<lparr>c_stk := k, c_sp := c_sp ?s + 1, c_pc := op_nnn w\<rparr>)"
      using call_ok [OF s2 _ p2(2), of w] by blast
    have "chip8_exec w s = Value (False, ?s\<lparr>c_stk := k, c_sp := c_sp ?s + 1, c_pc := op_nnn w\<rparr>)"
      unfolding chip8_exec_def Let_def k(1) using 2 by simp
    then show ?thesis using k(2) by simp
  next
    case 3
    then show ?thesis using rnd rng by (auto simp: chip8_exec_def Let_def)
  next
    case 4
    then have "out_of_mem (c_i ?s) (if op_nyb w = 0 \<and> c_hi ?s \<noteq> 0 then 32 else op_nyb w) = Value False"
      using d by (simp add: chip8_defers_def Let_def)
    from exec_D_ok [OF s2 this] show ?thesis using 4 by (auto simp: chip8_exec_def Let_def)
  next
    case 5
    then have "chip8_exec w s = chip8_exec_F w ?s" by (simp add: chip8_exec_def Let_def)
    then show ?thesis using exec_F_ok [OF s2 p2] defers_F [OF d 5] by simp
  next
    case 6
    have i: "chip8_wf (?s\<lparr>c_i := op_nnn w\<rparr>)"
      using op_ranges [of w] by (intro wf_i [OF s2]) (auto simp: int32_defs)
    have j: "chip8_wf (?s\<lparr>c_pc := (op_nnn w + v0) mod 4096\<rparr>)" for v0
      by (rule pc) simp_all
    have n: "chip8_wf (?s\<lparr>c_pc := op_nnn w\<rparr>)" by (rule pc) (use op_ranges [of w] in auto)
    have "op_n0 w \<in> {1, 3, 4, 5, 6, 7, 8, 9, 10, 11, 14}" using 6 n0 by simp presburger
    then show ?thesis using i j n s2 p2 exec_8_ok [of w ?s] skip_if_ok [OF s2] exec_E_ok [OF s2]
      unfolding chip8_exec_def Let_def by (elim insertE) (simp_all add: skip_if_ok)
  qed
qed

section \<open>Bursts\<close>

lemma fetch_ok:
  assumes s: "chip8_wf s"
  shows "\<exists>f. chip8_fetch s = Value f \<and>
    (\<forall>w. f = Some w \<longrightarrow> 0 \<le> c_pc s \<and> c_pc s < 4095 \<and> 0 \<le> w \<and> w < 65536)"
proof (cases "0 \<le> c_pc s \<and> c_pc s < 4095")
  case True
  have b: "0 \<le> uint x" "uint x < 256" for x :: u8 using uint_range_size [of x] by (simp_all add: word_size)
  have "in_int32 (c_pc s + 1)" using True by (simp add: int32_defs)
  then show ?thesis
    using True s b [of "c_mem s ! nat (c_pc s)"] b [of "c_mem s ! nat (c_pc s + 1)"]
    by (simp add: chip8_fetch_def add32_Value get_at_Value MEM_SIZE_def chip8_wf_def)
next
  case False
  then have "chip8_fetch s = Value None"
    using s by (auto simp: chip8_fetch_def add32_def MEM_SIZE_def chip8_wf_def pc_ok_def int32_defs)
  then show ?thesis by simp
qed

lemma defers_F_ok:
  assumes s: "chip8_wf s" and n: "op_n0 w = 0xF"
  shows "\<exists>b. chip8_defers s w = Value b"
proof -
  note X = op_ranges [of w]
  have "in_int32 (c_i s + op_x w)" using s X by (auto simp: chip8_wf_def int32_defs)
  moreover obtain b where "out_of_mem (c_i s + op_x w) 1 = Value b"
    using s X out_of_mem_Value [of "c_i s + op_x w" 1] by (auto simp: chip8_wf_def)
  moreover obtain b' where "out_of_mem (c_i s) 3 = Value b'"
    using s out_of_mem_Value [of "c_i s" 3] by (auto simp: chip8_wf_def)
  ultimately have "chip8_defers s w = Value
     (if op_nn w \<in> {0x07, 0x0A, 0x15, 0x18, 0x1E, 0x29, 0x30} then False
      else if op_nn w = 0x33 then b'
      else if op_nn w = 0x55 \<or> op_nn w = 0x65 then c_i s < 0 \<or> b else True)"
    using n unfolding chip8_defers_def Let_def by (simp add: add32_Value)
  then show ?thesis by (rule exI)
qed

lemma defers_ok:
  assumes s: "chip8_wf s"
  shows "\<exists>b. chip8_defers s w = Value b"
proof (cases "op_n0 w = 0xF")
  case False
  let ?n = "if op_nyb w = 0 \<and> c_hi s \<noteq> 0 then 32 else op_nyb w"
  have "0 \<le> ?n" "?n \<le> 32" using op_ranges [of w] by auto
  then obtain b where "out_of_mem (c_i s) ?n = Value b"
    using s out_of_mem_Value [of "c_i s" ?n] unfolding chip8_wf_def by auto
  then have "chip8_defers s w = Value
     (if op_n0 w = 0 then w = 0x00FD \<or> w = 0x00FE \<or> w = 0x00FF \<or> (w = 0x00EE \<and> c_sp s \<le> 0)
      else if op_n0 w = 2 then c_sp s \<ge> STACK_SLOTS
      else if op_n0 w = 8 then op_nyb w > 7 \<and> op_nyb w \<noteq> 0xE
      else if op_n0 w = 0xD then b
      else if op_n0 w = 0xE then (op_nn w \<noteq> 0x9E \<and> op_nn w \<noteq> 0xA1) \<or> vreg s (op_x w) > 15
      else False)"
    using False unfolding chip8_defers_def Let_def by simp
  then show ?thesis by (rule exI)
qed (rule defers_F_ok [OF s])

lemma burst_ok:
  assumes "chip8_wf s"
  shows "\<exists>c r t. chip8_burst n c0 s = Value (c, r, t) \<and> chip8_wf t \<and> c0 \<le> c \<and> c \<le> c0 + int n \<and>
    (r = REASON_OK \<longrightarrow> c = c0 + int n) \<and> r \<in> {REASON_OK, REASON_DEFER, REASON_KEYWAIT}"
  using assms
proof (induction n arbitrary: c0 s)
  case 0
  then show ?case by simp
next
  case (Suc n)
  from fetch_ok [OF Suc.prems] obtain f where f: "chip8_fetch s = Value f"
    "\<forall>w. f = Some w \<longrightarrow> 0 \<le> c_pc s \<and> c_pc s < 4095 \<and> 0 \<le> w \<and> w < 65536" by blast
  show ?case
  proof (cases f)
    case None
    then show ?thesis using f(1) Suc.prems by (simp add: chip8_consts)
  next
    case (Some w)
    obtain d where d: "chip8_defers s w = Value d" using defers_ok [OF Suc.prems] by blast
    show ?thesis
    proof (cases d)
      case True
      then show ?thesis using f(1) Some d Suc.prems by (simp add: chip8_consts)
    next
      case False
      then obtain b t where t: "chip8_exec w s = Value (b, t)" "chip8_wf t"
        using exec_ok [of s w] f(2) Some d Suc.prems unfolding keeps_wf_def by auto
      show ?thesis
      proof (cases b)
        case True
        then show ?thesis using f(1) Some d False t by (simp add: chip8_consts)
      next
        case b: False
        have "chip8_burst (Suc n) c0 s = chip8_burst n (c0 + 1) t"
          using f(1) Some d False t(1) b by simp
        then show ?thesis using Suc.IH [OF t(2), of "c0 + 1"] by (auto simp del: chip8_burst.simps)
      qed
    qed
  qed
qed

text \<open>The keys and the resolution are read only: the write-back may leave their slots alone.\<close>

lemma exec_0_keys: "chip8_exec_0 w s = Value t \<Longrightarrow> c_keys t = c_keys s \<and> c_hi t = c_hi s"
  by (auto simp: chip8_exec_0_def Let_def bind_outcome_Value_iff split: if_splits option.splits)

lemma exec_D_keys: "chip8_exec_D w s = Value t \<Longrightarrow> c_keys t = c_keys s \<and> c_hi t = c_hi s"
  by (auto simp: chip8_exec_D_def Let_def bind_outcome_Value_iff split_beta split: if_splits)

lemma exec_F_keys: "chip8_exec_F w s = Value (b, t) \<Longrightarrow> c_keys t = c_keys s \<and> c_hi t = c_hi s"
  by (auto simp: chip8_exec_F_def Let_def bind_outcome_Value_iff split: if_splits)

lemma exec_8_keys: "c_keys (chip8_exec_8 w s) = c_keys s \<and> c_hi (chip8_exec_8 w s) = c_hi s"
  by (simp add: chip8_exec_8_def Let_def)

lemma exec_keys:
  assumes "chip8_exec w s = Value (b, t)"
  shows "c_keys t = c_keys s \<and> c_hi t = c_hi s"
proof -
  let ?s = "s\<lparr>c_pc := c_pc s + 2\<rparr>"
  consider u where "chip8_exec_0 w ?s = Value u" "t = u" | u where "chip8_exec_D w ?s = Value u" "t = u"
    | "chip8_exec_F w ?s = Value (b, t)" | "t = chip8_exec_8 w ?s" | "c_keys t = c_keys s \<and> c_hi t = c_hi s"
    using assms unfolding chip8_exec_def Let_def
    by (auto simp: bind_outcome_Value_iff skip_if_def chip8_exec_E_def Let_def split: if_splits prod.splits)
  then show ?thesis
  proof cases
    case 1
    then show ?thesis using exec_0_keys by fastforce
  next
    case 2
    then show ?thesis using exec_D_keys by fastforce
  next
    case 3
    then show ?thesis using exec_F_keys by fastforce
  qed (use exec_8_keys in auto)
qed

lemma burst_keys: "chip8_burst n c s = Value (c', r, t) \<Longrightarrow> c_keys t = c_keys s \<and> c_hi t = c_hi s"
proof (induction n arbitrary: c s)
  case (Suc n)
  from Suc.prems consider "t = s" | w b u where "chip8_exec w s = Value (b, u)"
      "t = u \<or> chip8_burst n (c + 1) u = Value (c', r, t)"
    by (auto simp: bind_outcome_Value_iff split: option.splits if_splits prod.splits)
  then show ?case
  proof cases
    case 2
    then show ?thesis using exec_keys [OF 2(1)] Suc.IH [of "c + 1" u] by auto
  qed simp
qed simp

lemma load_write_back:
  assumes "length st = 9" "chip8_load_state mem v fb stk st rng = Value s"
    "c_keys t = c_keys s" "c_hi t = c_hi s"
  shows "chip8_load_state (c_mem t) (c_v t) (c_fb t) (c_stk t) (chip8_write_back st t) (c_rng t) =
    Value (t\<lparr>c_dirty := 0, c_bell := 0\<rparr>)"
proof -
  have "st ! 5 = Some (c_keys s)" "st ! 6 = Some (c_hi s)"
    using assms(2) by (auto simp: chip8_load_state_def chip8_slot_int_def bind_outcome_Value_iff
        split: option.splits)
  then show ?thesis using assms(1,3,4)
    by (simp add: chip8_load_state_def chip8_slot_int_def chip8_write_back_def nth_list_update)
qed

end
