(* ===== verification/Chip8_Theorems.thy ===== *)
theory Chip8_Theorems
  imports Chip8_Proofs
begin

text \<open>
  The properties of the CHIP-8 kernel: safety of whole calls of the operator, splitting of the
  budget, the flag-setting instructions, sprites as an involution, scrolling, the memory
  instructions, and what a stack pointer outside the stack does.
\<close>

section \<open>A call of the operator\<close>

definition demo_mem :: "u8 list" where "demo_mem = 0x12 # replicate 4095 0"

definition demo_state :: "int option list" where
  "demo_state = [Some 0, Some 0, Some 0, Some 0, Some 0, Some 0, Some 0, Some 0, Some 0]"

text \<open>
  C18. A call on buffers of the right sizes whose scalars describe a well-formed machine returns:
  it never reads or writes outside a buffer and never overflows. It reports how many
  instructions it ran, all of the budget unless it stopped to defer or to wait for a key; the
  machine is well formed again, and the state array written back is the one from which the next
  call continues.
\<close>

theorem chip8_step_safe:
  assumes load: "chip8_load_state mem v fb stk st rng = Value s" and wf: "chip8_wf s"
    and st: "length st = 9" and b: "1 \<le> budget"
  shows "\<exists>c r st' t.
    chip8_step_fast_op (OString mem True) (OString v True) (OString fb True) (OArray stk True)
      (OArray st True) budget rng = Value (c, r, st', t) \<and>
    chip8_wf t \<and> 0 \<le> c \<and> c \<le> budget \<and> (r = REASON_OK \<longrightarrow> c = budget) \<and>
    r \<in> {REASON_OK, REASON_DEFER, REASON_KEYWAIT} \<and>
    chip8_load_state (c_mem t) (c_v t) (c_fb t) (c_stk t) st' (c_rng t) =
      Value (t\<lparr>c_dirty := 0, c_bell := 0\<rparr>)"
proof -
  from burst_ok [OF wf, of "nat budget" 0] obtain c r t where
    burst: "chip8_burst (nat budget) 0 s = Value (c, r, t)" and t: "chip8_wf t" "0 \<le> c"
      "c \<le> 0 + int (nat budget)" "r = REASON_OK \<longrightarrow> c = 0 + int (nat budget)"
      "r \<in> {REASON_OK, REASON_DEFER, REASON_KEYWAIT}" by blast
  have f: "c_mem s = mem" "c_v s = v" "c_fb s = fb" "c_stk s = stk"
    using load by (auto simp: chip8_load_state_def bind_outcome_Value_iff)
  have len: "int (length mem) = MEM_SIZE" "int (length v) = VREG_COUNT" "int (length fb) = FB_SIZE"
    "int (length stk) = STACK_SLOTS" "int (length st) = STATE_SLOTS"
    using wf st f by (simp_all add: chip8_wf_def chip8_consts)
  have "chip8_step_fast_op (OString mem True) (OString v True) (OString fb True) (OArray stk True)
      (OArray st True) budget rng = Value (c, r, chip8_write_back st t, t)"
    using b len load burst
    by (simp add: chip8_step_fast_op_def chip8_validate_string_def chip8_validate_array_def)
  moreover have "chip8_load_state (c_mem t) (c_v t) (c_fb t) (c_stk t) (chip8_write_back st t) (c_rng t) =
      Value (t\<lparr>c_dirty := 0, c_bell := 0\<rparr>)"
    by (rule load_write_back [OF st load]) (use burst_keys [OF burst] in auto)
  ultimately show ?thesis using t b by auto
qed

theorem chip8_step_safe_witness:
  "\<exists>c r st' t. chip8_step_fast_op (OString demo_mem True) (OString (replicate 16 0) True)
      (OString (replicate 8192 0) True) (OArray (replicate 16 (Some 0)) True)
      (OArray demo_state True) 7 (seed 1 1) = Value (c, r, st', t) \<and> chip8_wf t"
proof -
  let ?s = "\<lparr>c_mem = demo_mem, c_v = replicate 16 0, c_fb = replicate 8192 0,
    c_stk = replicate 16 (Some 0), c_pc = 0, c_i = 0, c_dt = 0, c_sound = 0, c_sp = 0, c_keys = 0,
    c_hi = 0, c_dirty = 0, c_bell = 0, c_rng = seed 1 1\<rparr>"
  have "chip8_load_state demo_mem (replicate 16 0) (replicate 8192 0) (replicate 16 (Some 0))
      demo_state (seed 1 1) = Value ?s"
    by (simp add: chip8_load_state_def chip8_slot_int_def demo_state_def)
  moreover have "chip8_wf ?s"
    by (simp add: chip8_wf_def demo_mem_def pc_ok_def int32_defs)
  ultimately show ?thesis using chip8_step_safe [of demo_mem "replicate 16 0" "replicate 8192 0"
      "replicate 16 (Some 0)" demo_state "seed 1 1" ?s 7]
    by (auto simp: demo_state_def)
qed

text \<open>
  Splitting the budget does not change the run: a burst of \<open>m + n\<close> is a burst of \<open>m\<close> followed,
  when that used up its budget, by a burst of \<open>n\<close>.
\<close>

theorem chip8_burst_split:
  "chip8_burst (m + n) c s =
     bind_outcome (chip8_burst m c s) (\<lambda>(c', r, t).
       if r = REASON_OK then chip8_burst n c' t else Value (c', r, t))"
proof (induction m arbitrary: c s)
  case (Suc m)
  have d: "REASON_DEFER \<noteq> REASON_OK" "REASON_KEYWAIT \<noteq> REASON_OK" by (simp_all add: chip8_consts)
  show ?case
  proof (cases "chip8_fetch s")
    case (Value f)
    show ?thesis
    proof (cases f)
      case (Some w)
      show ?thesis
        by (cases "chip8_defers s w"; cases "chip8_exec w s") (auto simp: Value Some d Suc.IH)
    qed (simp add: Value d)
  qed simp_all
qed (simp add: chip8_consts)

section \<open>Arithmetic with flags\<close>

text \<open>
  The flag-setting instructions write the arithmetic result modulo 256 to \<open>Vx\<close> and the flag
  (carry, not borrow, or the bit shifted out) to \<open>VF\<close>, the flag last, so that it wins when \<open>x\<close> is
  15; no other register changes.
\<close>

theorem chip8_alu_flags:
  assumes s: "length (c_v s) = 16" and w: "op_nyb w \<in> {4, 5, 6, 7, 0xE}" and k: "0 \<le> k" "k < 16"
  defines "vx \<equiv> vreg s (op_x w)" and "vy \<equiv> vreg s (op_y w)"
  shows "vreg (chip8_exec_8 w s) k =
    (if k = 15 then (if op_nyb w = 4 then (vx + vy) div 256
       else if op_nyb w = 5 then (if vy \<le> vx then 1 else 0)
       else if op_nyb w = 6 then vx mod 2
       else if op_nyb w = 7 then (if vx \<le> vy then 1 else 0)
       else vx div 128)
     else if k = op_x w then (if op_nyb w = 4 then (vx + vy) mod 256
       else if op_nyb w = 5 then (vx - vy) mod 256
       else if op_nyb w = 6 then vx div 2
       else if op_nyb w = 7 then (vy - vx) mod 256
       else vx * 2 mod 256)
     else vreg s k)"
proof -
  have v: "0 \<le> vx" "vx < 256" "0 \<le> vy" "vy < 256" by (simp_all add: vx_def vy_def vreg_range)
  have "(if vx + vy \<ge> 0x100 then 1 else 0) = (vx + vy) div 256" "(if odd vx then 1 else 0) = vx mod 2"
    "(if vx \<ge> 0x80 then 1 else 0) = vx div 128" "vx div 2 mod 256 = vx div 2"
    using v by (auto simp: odd_iff_mod_2_eq_one)
  then show ?thesis using w k s op_ranges [of w] v
    unfolding chip8_exec_8_def Let_def vx_def [symmetric] vy_def [symmetric]
    by (auto simp: vreg_set_vreg)
qed

definition demo8 :: chip8 where
  "demo8 = \<lparr>c_mem = [0x80, 0x01], c_v = [200, 100, 3, 0, 0, 0, 0, 0, 0, 0, 0, 0, 0, 0, 0, 7],
     c_fb = [0, 0, 0, 0, 0, 0, 0, 0], c_stk = replicate 16 (Some 0), c_pc = 0, c_i = 0, c_dt = 0, c_sound = 0,
     c_sp = 0, c_keys = 0, c_hi = 0, c_dirty = 0, c_bell = 0, c_rng = seed 1 1\<rparr>"

theorem chip8_alu_flags_witness:
  "vreg (chip8_exec_8 0x8014 demo8) 0 = 44 \<and> vreg (chip8_exec_8 0x8F14 demo8) 15 = 0"
  using chip8_alu_flags [where s = demo8 and w = "0x8014" and k = 0]
    chip8_alu_flags [where s = demo8 and w = "0x8F14" and k = 15]
  by (simp add: demo8_def op_nyb_def op_x_def op_y_def vreg_def)

section \<open>Sprites\<close>

lemma nth_fold_flip:
  "j < length buf \<Longrightarrow> fst (fold flip_cell ks (buf, c)) ! j =
     (if odd (count_list ks j) then buf ! j XOR 1 else buf ! j)"
  by (induction ks arbitrary: buf c) (auto simp: flip_cell_def nth_list_update xor.assoc)

lemma fold_flip_twice:
  "fst (fold flip_cell ks (fst (fold flip_cell ks (buf, c)), c')) = buf"
  by (rule nth_equalityI) (auto simp: flip_fold_length nth_fold_flip xor.assoc)

lemma sprite_cells_cong:
  assumes "c_mem t = c_mem s" "c_i t = c_i s" "c_hi t = c_hi s"
  shows "sprite_cells8 t vx0 vy0 rows = sprite_cells8 s vx0 vy0 rows"
    "sprite_cells16 t vx0 vy0 rows = sprite_cells16 s vx0 vy0 rows"
proof -
  have c: "cell_at t = cell_at s" using assms(3) by (auto simp: fun_eq_iff cell_at_def fb_cols_def fb_rows_def)
  show "sprite_cells8 t vx0 vy0 rows = sprite_cells8 s vx0 vy0 rows"
    by (induction rows) (simp_all add: assms c)
  show "sprite_cells16 t vx0 vy0 rows = sprite_cells16 s vx0 vy0 rows"
    by (induction rows) (simp_all add: assms c)
qed

text \<open>
  Drawing the same sprite twice restores the screen, as long as the position is not read from
  \<open>VF\<close>, which the first draw overwrites. No other register changes.
\<close>

theorem chip8_draw_involution:
  assumes t: "chip8_exec_D w s = Value t" and v: "length (c_v s) = 16"
    and xy: "op_x w \<noteq> 15" "op_y w \<noteq> 15"
  shows "\<exists>u. chip8_exec_D w t = Value u \<and> c_fb u = c_fb s \<and> c_dirty u = 1 \<and>
    (\<forall>k. 0 \<le> k \<and> k < 15 \<longrightarrow> vreg u k = vreg s k)"
proof -
  define cells where "cells = (\<lambda>s'. if op_nyb w = 0 \<and> c_hi s' \<noteq> 0
    then sprite_cells16 s' (vreg s' (op_x w) mod fb_cols s') (vreg s' (op_y w) mod fb_rows s') [0..<16]
    else sprite_cells8 s' (vreg s' (op_x w) mod fb_cols s') (vreg s' (op_y w) mod fb_rows s') [0..<nat (op_nyb w)])"
  have D: "chip8_exec_D w s' = bind_outcome (cells s') (\<lambda>ks.
      Value ((set_vreg (s'\<lparr>c_fb := fst (fold flip_cell ks (c_fb s', 0))\<rparr>) 15
        (snd (fold flip_cell ks (c_fb s', 0))))\<lparr>c_dirty := 1\<rparr>))" for s'
    by (simp add: chip8_exec_D_def cells_def Let_def split_beta)
  from t obtain ks where ks: "cells s = Value ks"
    and T: "t = (set_vreg (s\<lparr>c_fb := fst (fold flip_cell ks (c_fb s, 0))\<rparr>) 15
        (snd (fold flip_cell ks (c_fb s, 0))))\<lparr>c_dirty := 1\<rparr>"
    by (auto simp: D bind_outcome_Value_iff)
  have same: "c_mem t = c_mem s" "c_i t = c_i s" "c_hi t = c_hi s" "length (c_v t) = 16"
    "c_fb t = fst (fold flip_cell ks (c_fb s, 0))" by (simp_all add: T set_vreg_def v)
  have regs: "vreg t k = vreg s k" if "0 \<le> k" "k < 15" for k
    using that by (simp add: T vreg_def set_vreg_def nat_eq_iff)
  have "vreg t (op_x w) = vreg s (op_x w)" "vreg t (op_y w) = vreg s (op_y w)"
    using regs op_ranges [of w] xy by simp_all
  moreover have "fb_cols t = fb_cols s" "fb_rows t = fb_rows s"
    using same(3) by (simp_all add: fb_cols_def fb_rows_def)
  ultimately have "cells t = Value ks"
    using ks sprite_cells_cong [OF same(1-3)] by (auto simp: cells_def same split: if_splits)
  then show ?thesis using regs
    by (auto simp: D same fold_flip_twice) (simp add: vreg_def set_vreg_def nat_eq_iff)
qed

theorem chip8_draw_involution_witness:
  "\<exists>t u. chip8_exec_D 0xD331 demo8 = Value t \<and> c_fb t = [1, 0, 0, 0, 0, 0, 0, 0] \<and>
    chip8_exec_D 0xD331 t = Value u \<and> c_fb u = c_fb demo8"
proof -
  obtain t where t: "chip8_exec_D 0xD331 demo8 = Value t" "c_fb t = [1, 0, 0, 0, 0, 0, 0, 0]"
    by (simp add: demo8_def chip8_exec_D_def op_nyb_def op_x_def op_y_def vreg_def get_at_def
        row_cols8_def cell_at_def fb_cols_def fb_rows_def flip_cell_def set_vreg_def upt_rec
        bit_numeral_rec)
  show ?thesis using t chip8_draw_involution [OF t(1)]
    by (auto simp: demo8_def op_x_def op_y_def)
qed

section \<open>Scrolling\<close>

lemma nth_scroll_right_row:
  assumes "row * cols + cols \<le> length buf" "4 \<le> cols" "j < length buf"
  shows "scroll_right_row cols row buf ! j =
    (if row * cols \<le> j \<and> j < row * cols + cols then if j < row * cols + 4 then 0 else buf ! (j - 4)
     else buf ! j)"
  using assms by (auto simp: scroll_right_row_def nth_mem_set nth_mem_move intro: arg_cong [of _ _ "(!) buf"])

lemma nth_scroll_left_row:
  assumes "row * cols + cols \<le> length buf" "4 \<le> cols" "j < length buf"
  shows "scroll_left_row cols row buf ! j =
    (if row * cols \<le> j \<and> j < row * cols + cols then if row * cols + cols \<le> j + 4 then 0 else buf ! (j + 4)
     else buf ! j)"
  using assms by (auto simp: scroll_left_row_def nth_mem_set nth_mem_move intro: arg_cong [of _ _ "(!) buf"])

text \<open>The rows are disjoint, so the loop over them shifts every row of the original.\<close>

lemma row_unique:
  fixes cols :: nat
  assumes "c < cols"
  shows "k * cols \<le> r * cols + c \<and> r * cols + c < k * cols + cols \<longleftrightarrow> k = r"
proof
  assume a: "k * cols \<le> r * cols + c \<and> r * cols + c < k * cols + cols"
  then have "k * cols < Suc r * cols" "r * cols < Suc k * cols" using assms by auto
  then have "k < Suc r" "r < Suc k" by (simp_all only: mult_less_cancel2)
  then show "k = r" by simp
qed (use assms in simp)

lemma cell_in_buffer: "r < n \<Longrightarrow> c < cols \<Longrightarrow> n * cols \<le> len \<Longrightarrow> r * cols + c < (len :: nat)"
  using mult_le_mono1 [of "Suc r" n cols] by simp

lemma fold_scroll_right:
  assumes "n * cols \<le> length buf" "4 \<le> cols"
  shows "length (fold (scroll_right_row cols) [0..<n] buf) = length buf \<and>
    (\<forall>r c. c < cols \<and> r * cols + c < length buf \<longrightarrow> fold (scroll_right_row cols) [0..<n] buf ! (r * cols + c) =
      (if r < n then if c < 4 then 0 else buf ! (r * cols + c - 4) else buf ! (r * cols + c)))"
  using assms(1)
proof (induction n)
  case (Suc n)
  let ?b = "fold (scroll_right_row cols) [0..<n] buf"
  have IH: "length ?b = length buf" "\<And>r c. c < cols \<Longrightarrow> r * cols + c < length buf \<Longrightarrow> ?b ! (r * cols + c) =
      (if r < n then if c < 4 then 0 else buf ! (r * cols + c - 4) else buf ! (r * cols + c))"
    using Suc by auto
  have fit: "n * cols + cols \<le> length ?b" using Suc.prems IH(1) by simp
  have "length (scroll_right_row cols n ?b) = length buf"
    using fit IH(1) assms(2) by (simp add: scroll_right_row_def)
  moreover have "scroll_right_row cols n ?b ! (r * cols + c) =
      (if r < Suc n then if c < 4 then 0 else buf ! (r * cols + c - 4) else buf ! (r * cols + c))"
    if rc: "c < cols" "r * cols + c < length buf" for r c
  proof -
    have "?b ! (r * cols + c - 4) = buf ! (r * cols + c - 4)" if "r = n" "4 \<le> c"
      using IH(2) [of "c - 4" r] that rc by simp
    then show ?thesis
      using nth_scroll_right_row [OF fit assms(2), of "r * cols + c"] row_unique [OF rc(1), of n r] IH rc
      by (auto simp: less_Suc_eq)
  qed
  ultimately show ?case by simp
qed simp

lemma fold_scroll_left:
  assumes "n * cols \<le> length buf" "4 \<le> cols"
  shows "length (fold (scroll_left_row cols) [0..<n] buf) = length buf \<and>
    (\<forall>r c. c < cols \<and> r * cols + c < length buf \<longrightarrow> fold (scroll_left_row cols) [0..<n] buf ! (r * cols + c) =
      (if r < n then if cols \<le> c + 4 then 0 else buf ! (r * cols + c + 4) else buf ! (r * cols + c)))"
  using assms(1)
proof (induction n)
  case (Suc n)
  let ?b = "fold (scroll_left_row cols) [0..<n] buf"
  have IH: "length ?b = length buf" "\<And>r c. c < cols \<Longrightarrow> r * cols + c < length buf \<Longrightarrow> ?b ! (r * cols + c) =
      (if r < n then if cols \<le> c + 4 then 0 else buf ! (r * cols + c + 4) else buf ! (r * cols + c))"
    using Suc by auto
  have fit: "n * cols + cols \<le> length ?b" using Suc.prems IH(1) by simp
  have "length (scroll_left_row cols n ?b) = length buf"
    using fit IH(1) assms(2) by (simp add: scroll_left_row_def)
  moreover have "scroll_left_row cols n ?b ! (r * cols + c) =
      (if r < Suc n then if cols \<le> c + 4 then 0 else buf ! (r * cols + c + 4) else buf ! (r * cols + c))"
    if rc: "c < cols" "r * cols + c < length buf" for r c
  proof -
    have "?b ! (r * cols + c + 4) = buf ! (r * cols + c + 4)" if "r = n" "c + 4 < cols"
      using IH(2) [of "c + 4" r] that fit IH(1) by (simp add: add.assoc)
    then show ?thesis
      using nth_scroll_left_row [OF fit assms(2), of "r * cols + c"] row_unique [OF rc(1), of n r] IH rc
      by (auto simp: less_Suc_eq)
  qed
  ultimately show ?case by simp
qed simp

lemma nth_scroll_down:
  assumes "r < rows" "c < cols" "rows * cols \<le> length buf" "length buf = 8192"
  shows "scroll_down cols rows n buf ! (r * cols + c) =
    (if r < n then 0 else buf ! ((r - n) * cols + c))"
proof (cases "n < rows \<and> 0 < n")
  case True
  have j: "r * cols + c < length buf" by (rule cell_in_buffer [OF assms(1-3)])
  have fit: "n * cols + (rows - n) * cols = rows * cols" using True by (simp flip: add_mult_distrib)
  have lt: "r * cols + c < n * cols \<longleftrightarrow> r < n"
  proof
    assume "r < n"
    then show "r * cols + c < n * cols" by (rule cell_in_buffer [OF _ assms(2)]) simp
  qed (metis add_lessD1 mult_less_cancel2)
  have sub: "r * cols + c - n * cols = (r - n) * cols + c" if "n \<le> r"
    using that by (simp add: diff_mult_distrib)
  have up: "r * cols + c < rows * cols" by (rule cell_in_buffer [OF assms(1,2)]) simp
  show ?thesis using True j fit lt sub up assms(3)
    by (auto simp: scroll_down_def nth_mem_set nth_mem_move not_less)
next
  case False
  then show ?thesis using cell_in_buffer [OF assms(1-3)] assms
    by (auto simp: scroll_down_def nth_mem_set FB_SIZE_def)
qed

definition pixel :: "chip8 \<Rightarrow> nat \<Rightarrow> nat \<Rightarrow> u8" where
  "pixel s r c = c_fb s ! (r * nat (fb_cols s) + c)"

text \<open>
  The scroll instructions move the picture by four columns to the right or left, or by \<open>n\<close> rows
  down, and fill with blank pixels, at both resolutions: stated per pixel of the screen.
\<close>

theorem chip8_scroll_pixels:
  assumes s: "length (c_fb s) = 8192" and rc: "r < nat (fb_rows s)" "c < nat (fb_cols s)"
    and n: "n < 16"
  shows "(\<exists>t. chip8_exec_0 0xFB s = Value t \<and> pixel t r c = (if c < 4 then 0 else pixel s r (c - 4))) \<and>
    (\<exists>t. chip8_exec_0 0xFC s = Value t \<and>
      pixel t r c = (if nat (fb_cols s) \<le> c + 4 then 0 else pixel s r (c + 4))) \<and>
    (\<exists>t. chip8_exec_0 (0xC0 + int n) s = Value t \<and> pixel t r c = (if r < n then 0 else pixel s (r - n) c))"
proof -
  let ?cols = "nat (fb_cols s)" and ?rows = "nat (fb_rows s)"
  have fit: "?rows * ?cols \<le> length (c_fb s)" using dims_nat [of s] s by simp
  have j: "r * ?cols + c < length (c_fb s)" by (rule cell_in_buffer [OF rc fit])
  have cols: "fb_cols (s\<lparr>c_fb := b, c_dirty := 1\<rparr>) = fb_cols s" for b by (simp add: fb_cols_def)
  have right: "\<exists>t. chip8_exec_0 0xFB s = Value t \<and> pixel t r c = (if c < 4 then 0 else pixel s r (c - 4))"
    using fold_scroll_right [OF fit dims_nat(2)] rc j by (simp add: chip8_exec_0_def Let_def pixel_def cols)
  have left: "\<exists>t. chip8_exec_0 0xFC s = Value t \<and>
      pixel t r c = (if nat (fb_cols s) \<le> c + 4 then 0 else pixel s r (c + 4))"
    using fold_scroll_left [OF fit dims_nat(2)] rc j
    by (simp add: chip8_exec_0_def Let_def pixel_def cols add.assoc)
  have "(192 + int n) div 16 = 12" "op_nyb (192 + int n) = int n" using n unfolding op_nyb_def by presburger+
  then have down: "\<exists>t. chip8_exec_0 (0xC0 + int n) s = Value t \<and>
      pixel t r c = (if r < n then 0 else pixel s (r - n) c)"
    using nth_scroll_down [OF rc fit s, of n] n
    by (simp add: chip8_exec_0_def Let_def pixel_def cols)
  show ?thesis by (intro conjI right left down)
qed

theorem chip8_scroll_witness:
  "\<exists>t. chip8_exec_0 0xC2 (demo8\<lparr>c_fb := replicate 8192 1\<rparr>) = Value t \<and> pixel t 1 3 = 0"
  using chip8_scroll_pixels [of "demo8\<lparr>c_fb := replicate 8192 1\<rparr>" 1 3 2]
  by (simp add: fb_rows_def fb_cols_def demo8_def)

section \<open>Memory instructions\<close>

text \<open>
  Storing \<open>V0\<close> to \<open>Vx\<close> and loading them back, whatever the registers hold in between, restores
  them and leaves the other registers and the memory outside the stored range alone.
\<close>

theorem chip8_store_load:
  assumes m: "length (c_mem s) = 4096" "length (c_v s) = 16" and i: "0 \<le> c_i s" "c_i s + op_x w + 1 \<le> 4096"
    and w: "op_nn w = 0x55" "op_nn w' = 0x65" "op_x w' = op_x w" and v: "length v' = 16"
  shows "\<exists>t u. chip8_exec_F w s = Value (False, t) \<and> chip8_exec_F w' (t\<lparr>c_v := v'\<rparr>) = Value (False, u) \<and>
    c_i u = c_i s \<and>
    (\<forall>k<16. c_v u ! k = (if int k \<le> op_x w then c_v s ! k else v' ! k)) \<and>
    (\<forall>j<4096. int j < c_i s \<or> c_i s + op_x w < int j \<longrightarrow> c_mem u ! j = c_mem s ! j)"
proof -
  let ?n = "nat (op_x w) + 1"
  have n: "c_i s + int ?n \<le> 4096" "?n \<le> 16" using i op_ranges [of w] by auto
  from store_regs_ok [OF m(1) i(1) n(1)] obtain m' where m': "store_regs s ?n = Value m'" "length m' = 4096"
    "\<forall>j<4096. m' ! j = (if nat (c_i s) \<le> j \<and> j < nat (c_i s) + ?n then c_v s ! (j - nat (c_i s)) else c_mem s ! j)"
    by blast
  let ?t = "s\<lparr>c_mem := m', c_v := v'\<rparr>"
  have t: "length (c_mem ?t) = 4096" "length (c_v ?t) = 16" "0 \<le> c_i ?t" "c_i ?t + int ?n \<le> 4096"
    using m' v i n by simp_all
  from load_regs_ok [OF t n(2)] obtain r where r: "load_regs ?t ?n = Value r"
    "\<forall>j<16. r ! j = (if j < ?n then m' ! (nat (c_i s) + j) else v' ! j)" by auto
  have "chip8_exec_F w s = Value (False, s\<lparr>c_mem := m'\<rparr>)"
    using w(1) m'(1) by (simp add: chip8_exec_F_def Let_def del: store_regs.simps)
  moreover have "chip8_exec_F w' (s\<lparr>c_mem := m'\<rparr>\<lparr>c_v := v'\<rparr>) = Value (False, ?t\<lparr>c_v := r\<rparr>)"
    using w(2,3) r(1) by (simp add: chip8_exec_F_def Let_def del: load_regs.simps)
  moreover have "r ! k = (if int k \<le> op_x w then c_v s ! k else v' ! k)" if "k < 16" for k
    using that r(2) m'(3) n i op_ranges [of w] by auto
  moreover have "m' ! j = c_mem s ! j" if "j < 4096" "int j < c_i s \<or> c_i s + op_x w < int j" for j
    using that m'(3) i op_ranges [of w] by auto
  ultimately show ?thesis by simp
qed

lemma bcd_value:
  fixes v :: int
  assumes "0 \<le> v" "v < 1000"
  shows "(v div 100 mod 10) * 100 + (v div 10 mod 10) * 10 + v mod 10 = v"
proof -
  have "v div 100 = v div 10 div 10" by (simp add: zdiv_zmult2_eq [symmetric])
  moreover have "v div 100 mod 10 = v div 100" using assms by (intro mod_pos_pos_trivial) auto
  ultimately show ?thesis
    using div_mult_mod_eq [of v 10] div_mult_mod_eq [of "v div 10" 10] by linarith
qed

text \<open>
  The BCD instruction stores three decimal digits whose number is \<open>Vx\<close>, hundreds first, at \<open>I\<close>.
\<close>

theorem chip8_bcd_digits:
  assumes m: "length (c_mem s) = 4096" and i: "0 \<le> c_i s" "c_i s + 3 \<le> 4096" and w: "op_nn w = 0x33"
  shows "\<exists>t. chip8_exec_F w s = Value (False, t) \<and> length (c_mem t) = 4096 \<and>
    (let d = (\<lambda>k. uint (c_mem t ! (nat (c_i s) + k))) in
      d 0 * 100 + d 1 * 10 + d 2 = vreg s (op_x w) \<and> (\<forall>k<3. d k \<le> 9)) \<and>
    (\<forall>j<4096. int j < c_i s \<or> c_i s + 3 \<le> int j \<longrightarrow> c_mem t ! j = c_mem s ! j)"
proof -
  let ?v = "vreg s (op_x w)" and ?i = "nat (c_i s)"
  define M where "M = (c_mem s)[?i := word_of_int (?v div 100 mod 10), ?i + 1 := word_of_int (?v div 10 mod 10),
    ?i + 2 := word_of_int (?v mod 10)]"
  have n: "nat (c_i s + 1) = ?i + 1" "nat (c_i s + 2) = ?i + 2" using i by simp_all
  have t: "chip8_exec_F w s = Value (False, s\<lparr>c_mem := M\<rparr>)"
    using w i m by (simp add: chip8_exec_F_def Let_def put_at_Value n M_def)
  have u: "uint (word_of_int x :: u8) = x" if "0 \<le> x" "x < 256" for x
    using that by (simp add: uint_word_of_int)
  have small: "x mod 10 < 256" for x :: int using pos_mod_bound [of 10 x] by linarith
  have d: "uint (M ! ?i) = ?v div 100 mod 10" "uint (M ! (?i + 1)) = ?v div 10 mod 10"
    "uint (M ! (?i + 2)) = ?v mod 10"
    using i m small by (simp_all add: nth_list_update u M_def)
  have "(?v div 100 mod 10) * 100 + (?v div 10 mod 10) * 10 + ?v mod 10 = ?v"
    by (rule bcd_value) (use vreg_range [of s "op_x w"] in auto)
  then have num: "uint (M ! (?i + 0)) * 100 + uint (M ! (?i + 1)) * 10 + uint (M ! (?i + 2)) = ?v"
    by (simp only: d add_0_right)
  have nine: "x mod 10 \<le> 9" for x :: int using pos_mod_bound [of 10 x] by linarith
  have "k = 0 \<or> k = 1 \<or> k = 2" if "k < 3" for k :: nat using that by presburger
  then have "uint (M ! (?i + k)) \<le> 9" if "k < 3" for k
    using that nine d by (metis add_0_right)
  moreover have "M ! j = c_mem s ! j" if "int j < c_i s \<or> c_i s + 3 \<le> int j" for j
  proof -
    have "j \<noteq> ?i" "j \<noteq> ?i + 1" "j \<noteq> ?i + 2" using that i by linarith+
    then show ?thesis by (simp add: M_def)
  qed
  moreover have "length M = 4096" by (simp add: M_def m)
  ultimately show ?thesis using t num by (simp add: Let_def)
qed

definition demo_full :: chip8 where
  "demo_full = demo8\<lparr>c_mem := demo_mem\<rparr>"

theorem chip8_store_load_witness:
  "\<exists>t u. chip8_exec_F 0xF255 demo_full = Value (False, t) \<and>
    chip8_exec_F 0xF265 (t\<lparr>c_v := replicate 16 9\<rparr>) = Value (False, u) \<and> c_v u ! 1 = 100"
  using chip8_store_load [where s = demo_full and w = "0xF255" and w' = "0xF265" and v' = "replicate 16 9"]
  by (fastforce simp: demo_full_def demo8_def demo_mem_def op_nn_def op_x_def)

theorem chip8_bcd_witness:
  "\<exists>t. chip8_exec_F 0xF033 demo_full = Value (False, t) \<and>
    uint (c_mem t ! 0) * 100 + uint (c_mem t ! 1) * 10 + uint (c_mem t ! 2) = 200"
  using chip8_bcd_digits [where s = demo_full and w = "0xF033"]
  by (auto simp: demo_full_def demo8_def demo_mem_def op_nn_def op_x_def Let_def vreg_def)

section \<open>The stack pointer is trusted\<close>

lemma fetch_defers_burst:
  "chip8_fetch s = Value (Some w) \<Longrightarrow> chip8_defers s w = Value False \<Longrightarrow> chip8_exec w s = Fault \<Longrightarrow>
     chip8_burst (Suc n) c s = Fault"
  by simp

text \<open>
  C19. The scalar that holds the stack pointer is read from the script's array without a range
  check, and the screening tests it from one side only: a call with a negative stack pointer
  writes before the stack, and a return with one above the stack reads behind it.
\<close>

theorem chip8_sp_unchecked:
  assumes s: "chip8_fetch s = Value (Some w)" "length (c_stk s) = 16"
    and bad: "op_n0 w = 2 \<and> c_sp s < 0 \<or> w = 0xEE \<and> 16 < c_sp s"
  shows "chip8_burst (Suc n) c s = Fault"
proof (rule fetch_defers_burst [OF s(1)])
  have ret: "op_n0 0xEE = 0" by (simp add: op_n0_def)
  from bad show "chip8_defers s w = Value False"
    by (elim disjE) (simp_all add: chip8_defers_def Let_def STACK_SLOTS_def ret)
  have "\<not> nat (c_sp s - 1) < 16" if "16 < c_sp s" using that by simp
  with bad s(2) show "chip8_exec w s = Fault"
    by (elim disjE) (simp_all add: chip8_exec_def chip8_exec_0_def Let_def put_at_def get_at_def ret)
qed

theorem chip8_sp_unchecked_witness:
  "chip8_burst 1 0 (demo8\<lparr>c_mem := [0x22, 0x00], c_sp := -1\<rparr>) = Fault \<and>
   chip8_burst 1 0 (demo8\<lparr>c_mem := [0x00, 0xEE], c_sp := 17\<rparr>) = Fault"
  using chip8_sp_unchecked [where s = "demo8\<lparr>c_mem := [0x22, 0x00], c_sp := -1\<rparr>" and w = "0x2200" and n = 0]
    chip8_sp_unchecked [where s = "demo8\<lparr>c_mem := [0x00, 0xEE], c_sp := 17\<rparr>" and w = "0x00EE" and n = 0]
  by (simp add: demo8_def chip8_fetch_def add32_def int32_defs MEM_SIZE_def get_at_def op_n0_def)

end
