(* ===== verification/Tetrix.thy ===== *)
theory Tetrix
  imports Prelude
begin

text \<open>
  The native kernels of \<^verbatim>\<open>tetrix.cpp\<close>: validation of fields, rows, cells and piece shapes, and the
  six operators on them.

  Arrays live in one store of cells indexed by address, so rows may alias each other, the field
  and the shape; an array object holds its address, its length and its access. A cell pairs the
  object with its save level. An operator that writes returns the store even when it raises: the
  rows written before the error stay written.
\<close>

section \<open>Objects and validation\<close>

datatype tobj = TInteger int | TArray nat nat bool | TOther

type_synonym store = "nat \<Rightarrow> tobj \<times> nat"

definition FIELD_ROWS :: nat where "FIELD_ROWS = 20"
definition FIELD_COLS :: nat where "FIELD_COLS = 10"

lemmas field_consts = FIELD_ROWS_def FIELD_COLS_def

definition tetrix_validate_row :: "tobj \<Rightarrow> bool \<Rightarrow> nat outcome" where
  "tetrix_validate_row row require_rw =
     (case row of
        TArray a n rw \<Rightarrow> if n \<noteq> FIELD_COLS then Raise RangeCheck
                         else if require_rw \<and> \<not> rw then Raise InvalidAccess else Value a
      | _ \<Rightarrow> Raise TypeCheck)"

definition tetrix_validate_field :: "tobj \<Rightarrow> bool \<Rightarrow> nat outcome" where
  "tetrix_validate_field fld require_rw =
     (case fld of
        TArray a n rw \<Rightarrow> if n \<noteq> FIELD_ROWS then Raise RangeCheck
                         else if require_rw \<and> \<not> rw then Raise InvalidAccess else Value a
      | _ \<Rightarrow> Raise TypeCheck)"

definition tetrix_cell_int :: "tobj \<Rightarrow> int outcome" where
  "tetrix_cell_int cell = (case cell of TInteger i \<Rightarrow> Value i | _ \<Rightarrow> Raise TypeCheck)"

definition tetrix_unpack_shape_cell :: "store \<Rightarrow> nat \<Rightarrow> nat \<Rightarrow> (int \<times> int) outcome" where
  "tetrix_unpack_shape_cell st shape_data i =
     (case fst (st (shape_data + i)) of
        TArray a n _ \<Rightarrow>
          if n \<noteq> 2 then Raise RangeCheck
          else (case (fst (st a), fst (st (a + 1))) of
                  (TInteger dr, TInteger dc) \<Rightarrow> Value (dr, dc)
                | _ \<Rightarrow> Raise TypeCheck)
      | _ \<Rightarrow> Raise TypeCheck)"

definition tetrix_validate_shape :: "tobj \<Rightarrow> nat outcome" where
  "tetrix_validate_shape shape =
     (case shape of TArray a n _ \<Rightarrow> if n \<noteq> 4 then Raise RangeCheck else Value a | _ \<Rightarrow> Raise TypeCheck)"

definition tetrix_set_cell :: "nat \<Rightarrow> tobj \<Rightarrow> nat \<Rightarrow> store \<Rightarrow> store" where
  "tetrix_set_cell target v curr_save_level st = st(target := (v, curr_save_level))"

definition row_obj :: "store \<Rightarrow> nat \<Rightarrow> nat \<Rightarrow> tobj" where
  "row_obj st fld_rows r = fst (st (fld_rows + r))"

section \<open>field-copy-fast\<close>

definition copy_cells :: "nat \<Rightarrow> nat \<Rightarrow> nat \<Rightarrow> store \<Rightarrow> store" where
  "copy_cells lvl src dst st =
     fold (\<lambda>c st. tetrix_set_cell (dst + c) (fst (st (src + c))) lvl st) [0..<FIELD_COLS] st"

fun copy_rows :: "nat \<Rightarrow> nat \<Rightarrow> nat \<Rightarrow> nat list \<Rightarrow> store \<Rightarrow> unit outcome \<times> store" where
  "copy_rows lvl src_rows dst_rows [] st = (Value (), st)"
| "copy_rows lvl src_rows dst_rows (r # rs) st =
     (case tetrix_validate_row (row_obj st src_rows r) False of
        Value src_cells \<Rightarrow>
          (case tetrix_validate_row (row_obj st dst_rows r) True of
             Value dst_cells \<Rightarrow> copy_rows lvl src_rows dst_rows rs (copy_cells lvl src_cells dst_cells st)
           | x \<Rightarrow> (bind_outcome x (\<lambda>_. Value ()), st))
      | x \<Rightarrow> (bind_outcome x (\<lambda>_. Value ()), st))"

definition tetrix_field_copy_fast_op :: "nat \<Rightarrow> tobj \<Rightarrow> tobj \<Rightarrow> store \<Rightarrow> unit outcome \<times> store" where
  "tetrix_field_copy_fast_op lvl src dst st =
     (case tetrix_validate_field src False of
        Value src_rows \<Rightarrow>
          (case tetrix_validate_field dst True of
             Value dst_rows \<Rightarrow> copy_rows lvl src_rows dst_rows [0..<FIELD_ROWS] st
           | x \<Rightarrow> (bind_outcome x (\<lambda>_. Value ()), st))
      | x \<Rightarrow> (bind_outcome x (\<lambda>_. Value ()), st))"

section \<open>score-board-fast\<close>

primrec mapM :: "('a \<Rightarrow> 'b outcome) \<Rightarrow> 'a list \<Rightarrow> 'b list outcome" where
  "mapM f [] = Value []"
| "mapM f (x # xs) = bind_outcome (f x) (\<lambda>y. bind_outcome (mapM f xs) (\<lambda>ys. Value (y # ys)))"

definition read_cells :: "store \<Rightarrow> nat \<Rightarrow> int list list outcome" where
  "read_cells st fld_rows = mapM (\<lambda>r.
     bind_outcome (tetrix_validate_row (row_obj st fld_rows r) False) (\<lambda>row_data.
       mapM (\<lambda>c. tetrix_cell_int (fst (st (row_data + c)))) [0..<FIELD_COLS])) [0..<FIELD_ROWS]"

text \<open>Pass A: the height of a column, from the topmost block.\<close>

fun scan_height :: "int list list \<Rightarrow> nat \<Rightarrow> nat list \<Rightarrow> int" where
  "scan_height cells c [] = 0"
| "scan_height cells c (r # rs) =
     (if cells ! r ! c \<noteq> 0 then int FIELD_ROWS - int r else scan_height cells c rs)"

definition heights :: "int list list \<Rightarrow> int list" where
  "heights cells = map (\<lambda>c. scan_height cells c [0..<FIELD_ROWS]) [0..<FIELD_COLS]"

definition h_sum :: "int list \<Rightarrow> int" where "h_sum hs = sum_list hs"

text \<open>Pass C: empty cells below the topmost block.\<close>

definition col_holes :: "int list list \<Rightarrow> nat \<Rightarrow> int \<Rightarrow> int" where
  "col_holes cells c h =
     (if h > 0 then int (length (filter (\<lambda>r. cells ! r ! c = 0) [nat (int FIELD_ROWS - h + 1)..<FIELD_ROWS]))
      else 0)"

definition holes :: "int list list \<Rightarrow> int list \<Rightarrow> int" where
  "holes cells hs = (\<Sum>c\<leftarrow>[0..<FIELD_COLS]. col_holes cells c (hs ! c))"

text \<open>Pass D: differences of adjacent columns.\<close>

definition bumpy :: "int list \<Rightarrow> int" where
  "bumpy hs = (\<Sum>i\<leftarrow>[0..<FIELD_COLS - 1].
     let d = hs ! i - hs ! (i + 1) in if d < 0 then - d else d)"

text \<open>Pass E: depths of wells.\<close>

definition wells :: "int list \<Rightarrow> int" where
  "wells hs = (\<Sum>i\<leftarrow>[0..<FIELD_COLS].
     let h = hs ! i;
         left = (if i = 0 then int FIELD_ROWS else hs ! (i - 1));
         right = (if i = FIELD_COLS - 1 then int FIELD_ROWS else hs ! (i + 1));
         min_side = (if left < right then left else right);
         depth = min_side - h
     in if depth \<ge> 2 then depth else 0)"

text \<open>The overflow builtins: the wrapped result and whether the exact one was out of range.\<close>

definition mul_overflow :: "int \<Rightarrow> int \<Rightarrow> int \<times> bool" where
  "mul_overflow a b = (wrap_int32 (a * b), \<not> in_int32 (a * b))"

definition add_overflow :: "int \<Rightarrow> int \<Rightarrow> int \<times> bool" where
  "add_overflow a b = (wrap_int32 (a + b), \<not> in_int32 (a + b))"

definition add_term :: "int \<Rightarrow> int \<Rightarrow> int \<times> bool \<Rightarrow> int \<times> bool" where
  "add_term a b = (\<lambda>(score, ovf).
     let (tmp, o1) = mul_overflow a b; (score', o2) = add_overflow score tmp
     in (score', ovf \<or> o1 \<or> o2))"

definition combine_score :: "int \<Rightarrow> int \<Rightarrow> int \<Rightarrow> int \<Rightarrow> int \<Rightarrow> int list \<Rightarrow> int \<times> bool" where
  "combine_score lines hsum hole bump well w =
     add_term well (w ! 4) (add_term bump (w ! 3) (add_term hole (w ! 2)
       (add_term hsum (w ! 1) (mul_overflow lines (w ! 0)))))"

definition tetrix_score_board_fast_op :: "store \<Rightarrow> tobj \<Rightarrow> int \<Rightarrow> tobj \<Rightarrow> int outcome" where
  "tetrix_score_board_fast_op st fld lines weights =
     bind_outcome (tetrix_validate_field fld False) (\<lambda>fld_rows.
       case weights of
         TArray a n _ \<Rightarrow>
           if n \<noteq> 5 then Raise RangeCheck
           else bind_outcome (mapM (\<lambda>i. tetrix_cell_int (fst (st (a + i)))) [0..<5]) (\<lambda>w.
                bind_outcome (read_cells st fld_rows) (\<lambda>cells.
                  let hs = heights cells;
                      (score, ovf) = combine_score lines (h_sum hs) (holes cells hs) (bumpy hs) (wells hs) w
                  in if ovf then Raise NumericalOverflow else Value score))
       | _ \<Rightarrow> Raise TypeCheck)"

section \<open>piece-collides-fast\<close>

definition in_field :: "int \<Rightarrow> int \<Rightarrow> bool" where
  "in_field r c \<longleftrightarrow> 0 \<le> r \<and> r < int FIELD_ROWS \<and> 0 \<le> c \<and> c < int FIELD_COLS"

text \<open>The test of one cell, at 64-bit coordinates.\<close>

definition cell_hits :: "store \<Rightarrow> nat \<Rightarrow> int \<Rightarrow> int \<Rightarrow> bool outcome" where
  "cell_hits st fld_rows r c =
     (if \<not> in_field r c then Value True
      else bind_outcome (tetrix_validate_row (row_obj st fld_rows (nat r)) False) (\<lambda>row_data.
           bind_outcome (tetrix_cell_int (fst (st (row_data + nat c)))) (\<lambda>cell_val.
             Value (cell_val \<noteq> 0))))"

fun collide_loop :: "store \<Rightarrow> nat \<Rightarrow> nat \<Rightarrow> int \<Rightarrow> int \<Rightarrow> nat list \<Rightarrow> bool outcome" where
  "collide_loop st fld_rows shape_data py px [] = Value False"
| "collide_loop st fld_rows shape_data py px (i # is) =
     bind_outcome (tetrix_unpack_shape_cell st shape_data i) (\<lambda>(dr, dc).
     bind_outcome (cell_hits st fld_rows (py + dr) (px + dc)) (\<lambda>hit.
       if hit then Value True else collide_loop st fld_rows shape_data py px is))"

definition tetrix_piece_collides_fast_op :: "store \<Rightarrow> tobj \<Rightarrow> tobj \<Rightarrow> int \<Rightarrow> int \<Rightarrow> bool outcome" where
  "tetrix_piece_collides_fast_op st fld shape py px =
     bind_outcome (tetrix_validate_field fld False) (\<lambda>fld_rows.
     bind_outcome (tetrix_validate_shape shape) (\<lambda>shape_data.
       collide_loop st fld_rows shape_data py px [0..<4]))"

section \<open>piece-merge-fast\<close>

fun merge_loop :: "nat \<Rightarrow> nat \<Rightarrow> nat \<Rightarrow> int \<Rightarrow> int \<Rightarrow> int \<Rightarrow> nat list \<Rightarrow> store \<Rightarrow> unit outcome \<times> store" where
  "merge_loop lvl fld_rows shape_data color py px [] st = (Value (), st)"
| "merge_loop lvl fld_rows shape_data color py px (i # is) st =
     (case tetrix_unpack_shape_cell st shape_data i of
        Value (dr, dc) \<Rightarrow>
          (if in_field (py + dr) (px + dc)
           then (case tetrix_validate_row (row_obj st fld_rows (nat (py + dr))) True of
                   Value row_data \<Rightarrow> merge_loop lvl fld_rows shape_data color py px is
                     (tetrix_set_cell (row_data + nat (px + dc)) (TInteger color) lvl st)
                 | x \<Rightarrow> (bind_outcome x (\<lambda>_. Value ()), st))
           else merge_loop lvl fld_rows shape_data color py px is st)
      | x \<Rightarrow> (bind_outcome x (\<lambda>_. Value ()), st))"

definition tetrix_piece_merge_fast_op ::
  "nat \<Rightarrow> tobj \<Rightarrow> tobj \<Rightarrow> int \<Rightarrow> int \<Rightarrow> int \<Rightarrow> store \<Rightarrow> unit outcome \<times> store" where
  "tetrix_piece_merge_fast_op lvl fld shape color py px st =
     (case tetrix_validate_field fld True of
        Value fld_rows \<Rightarrow>
          (case tetrix_validate_shape shape of
             Value shape_data \<Rightarrow> merge_loop lvl fld_rows shape_data color py px [0..<4] st
           | x \<Rightarrow> (bind_outcome x (\<lambda>_. Value ()), st))
      | x \<Rightarrow> (bind_outcome x (\<lambda>_. Value ()), st))"

section \<open>piece-ghost-row-fast\<close>

fun hits_at :: "store \<Rightarrow> nat \<Rightarrow> (int \<times> int) list \<Rightarrow> int \<Rightarrow> int \<Rightarrow> bool outcome" where
  "hits_at st fld_rows [] row px = Value False"
| "hits_at st fld_rows ((dr, dc) # cells) row px =
     bind_outcome (cell_hits st fld_rows (row + dr) (px + dc)) (\<lambda>hit.
       if hit then Value True else hits_at st fld_rows cells row px)"

function ghost_loop :: "store \<Rightarrow> nat \<Rightarrow> (int \<times> int) list \<Rightarrow> int \<Rightarrow> int \<Rightarrow> int outcome" where
  "ghost_loop st fld_rows cells px try_row =
     (if try_row < int FIELD_ROWS
      then bind_outcome (hits_at st fld_rows cells (try_row + 1) px) (\<lambda>hit.
             if hit then Value try_row else ghost_loop st fld_rows cells px (try_row + 1))
      else Value try_row)"
  by pat_completeness auto
termination
  by (relation "measure (\<lambda>(st, fld_rows, cells, px, try_row). nat (int FIELD_ROWS - try_row))") auto

declare ghost_loop.simps [simp del]

definition tetrix_piece_ghost_row_fast_op :: "store \<Rightarrow> tobj \<Rightarrow> tobj \<Rightarrow> int \<Rightarrow> int \<Rightarrow> int outcome" where
  "tetrix_piece_ghost_row_fast_op st fld shape py_start px =
     bind_outcome (tetrix_validate_field fld False) (\<lambda>fld_rows.
     bind_outcome (tetrix_validate_shape shape) (\<lambda>shape_data.
     bind_outcome (mapM (tetrix_unpack_shape_cell st shape_data) [0..<4]) (\<lambda>cells.
       ghost_loop st fld_rows cells px py_start)))"

section \<open>field-clear-rows-fast\<close>

fun row_full :: "store \<Rightarrow> nat \<Rightarrow> nat list \<Rightarrow> bool outcome" where
  "row_full st src [] = Value True"
| "row_full st src (c # cs) =
     bind_outcome (tetrix_cell_int (fst (st (src + c)))) (\<lambda>v.
       if v = 0 then Value False else row_full st src cs)"

text \<open>
  The two-pointer scan: \<open>read\<close> and \<open>write\<close> hold the pointers plus one. The result is the number of
  rows left above the surviving ones.
\<close>

fun clear_scan :: "nat \<Rightarrow> nat list \<Rightarrow> nat \<Rightarrow> nat \<Rightarrow> store \<Rightarrow> nat outcome \<times> store" where
  "clear_scan lvl row_data 0 write st = (Value write, st)"
| "clear_scan lvl row_data (Suc read) write st =
     (case row_full st (row_data ! read) [0..<FIELD_COLS] of
        Value full \<Rightarrow>
          (if full then clear_scan lvl row_data read write st
           else clear_scan lvl row_data read (write - 1)
             (if read \<noteq> write - 1 then copy_cells lvl (row_data ! read) (row_data ! (write - 1)) st else st))
      | x \<Rightarrow> (bind_outcome x (\<lambda>_. Value 0), st))"

definition zero_row :: "nat \<Rightarrow> nat \<Rightarrow> store \<Rightarrow> store" where
  "zero_row lvl dst st = fold (\<lambda>c st. tetrix_set_cell (dst + c) (TInteger 0) lvl st) [0..<FIELD_COLS] st"

definition tetrix_field_clear_rows_fast_op :: "nat \<Rightarrow> int \<Rightarrow> tobj \<Rightarrow> store \<Rightarrow> nat outcome \<times> store" where
  "tetrix_field_clear_rows_fast_op lvl available fld st =
     (case bind_outcome (tetrix_validate_field fld True) (\<lambda>fld_rows.
             mapM (\<lambda>r. tetrix_validate_row (row_obj st fld_rows r) True) [0..<FIELD_ROWS]) of
        Value row_data \<Rightarrow>
          (case clear_scan lvl row_data FIELD_ROWS FIELD_ROWS st of
             (Value cleared, st1) \<Rightarrow>
               (if 1 > available then Raise OpStackOverflow else Value cleared,
                fold (\<lambda>i. zero_row lvl (row_data ! i)) [0..<cleared] st1)
           | (x, st1) \<Rightarrow> (x, st1))
      | x \<Rightarrow> (bind_outcome x (\<lambda>_. Value 0), st))"

end
