(* ===== verification/Tetrix_Proofs.thy ===== *)
theory Tetrix_Proofs
  imports Tetrix
begin

text \<open>
  Correctness of the tetrix kernels over separated fields: every operator is related to what it
  does to the grid of integers that the field represents, and leaves every other cell of the
  store alone.
\<close>

section \<open>Fields and grids\<close>

text \<open>
  \<open>field_at st a ra g\<close>: the array at \<open>a\<close> has twenty writable rows of ten cells at the addresses \<open>ra\<close>
  holding the integers \<open>g\<close>. \<open>separate a ra\<close>: no two cells of rows share an address and no row
  overlaps the field's own slots.
\<close>

definition field_at :: "store \<Rightarrow> nat \<Rightarrow> (nat \<Rightarrow> nat) \<Rightarrow> (nat \<Rightarrow> nat \<Rightarrow> int) \<Rightarrow> bool" where
  "field_at st a ra g \<longleftrightarrow> (\<forall>r<20. fst (st (a + r)) = TArray (ra r) 10 True) \<and>
     (\<forall>r<20. \<forall>c<10. fst (st (ra r + c)) = TInteger (g r c))"

definition separate :: "nat \<Rightarrow> (nat \<Rightarrow> nat) \<Rightarrow> bool" where
  "separate a ra \<longleftrightarrow> (\<forall>r<20. ra r + 10 \<le> a \<or> a + 20 \<le> ra r) \<and>
     (\<forall>r<20. \<forall>r'<20. r \<noteq> r' \<longrightarrow> ra r + 10 \<le> ra r' \<or> ra r' + 10 \<le> ra r)"

text \<open>The addresses of the cells.\<close>

definition in_rows :: "(nat \<Rightarrow> nat) \<Rightarrow> nat \<Rightarrow> bool" where
  "in_rows ra x \<longleftrightarrow> (\<exists>r<20. ra r \<le> x \<and> x < ra r + 10)"

definition grid_row :: "(nat \<Rightarrow> nat \<Rightarrow> int) \<Rightarrow> nat \<Rightarrow> int list" where
  "grid_row g r = map (g r) [0..<10]"

definition grid_rows :: "(nat \<Rightarrow> nat \<Rightarrow> int) \<Rightarrow> int list list" where
  "grid_rows g = map (grid_row g) [0..<20]"

lemma row_cell_unique:
  assumes "separate a ra" "r < 20" "r' < 20" "c < 10" "c' < 10" "ra r + c = ra r' + c'"
  shows "r = r' \<and> c = c'"
proof -
  have "ra r + 10 \<le> ra r' \<or> ra r' + 10 \<le> ra r" if "r \<noteq> r'"
    using assms(1-3) that by (simp add: separate_def)
  then have "r = r'" using assms(4-6) by linarith
  then show ?thesis using assms(6) by simp
qed

lemma field_at_validate:
  assumes "field_at st a ra g" "r < 20"
  shows "tetrix_validate_row (row_obj st a r) b = Value (ra r)"
  using assms by (simp add: field_at_def tetrix_validate_row_def row_obj_def FIELD_COLS_def)

lemma field_at_cell:
  "field_at st a ra g \<Longrightarrow> r < 20 \<Longrightarrow> c < 10 \<Longrightarrow> fst (st (ra r + c)) = TInteger (g r c)"
  by (simp add: field_at_def)

text \<open>Writing one cell.\<close>

lemma field_at_set_cell:
  assumes f: "field_at st a ra g" "separate a ra" and rc: "r < 20" "c < 10"
  shows "field_at (tetrix_set_cell (ra r + c) (TInteger v) lvl st) a ra (g(r := (g r)(c := v)))"
proof -
  have "ra r + 10 \<le> a \<or> a + 20 \<le> ra r" using f(2) rc by (simp add: separate_def)
  then have "a + k \<noteq> ra r + c" if "k < 20" for k using rc(2) that by linarith
  moreover have "ra k + d = ra r + c \<longleftrightarrow> k = r \<and> d = c" if "k < 20" "d < 10" for k d
    using row_cell_unique [OF f(2) that(1) rc(1) that(2) rc(2)] by blast
  ultimately show ?thesis using f(1) by (simp add: field_at_def tetrix_set_cell_def)
qed

lemma copy_cells_apply:
  assumes "src + 10 \<le> dst \<or> dst + 10 \<le> src"
  shows "copy_cells lvl src dst st x =
    (if dst \<le> x \<and> x < dst + 10 then (fst (st (src + (x - dst))), lvl) else st x)"
proof -
  have "fold (\<lambda>c st. tetrix_set_cell (dst + c) (fst (st (src + c))) lvl st) [0..<n] st x =
    (if dst \<le> x \<and> x < dst + n then (fst (st (src + (x - dst))), lvl) else st x)" if "n \<le> 10" for n x
    using that
  proof (induction n arbitrary: x)
    case (Suc n)
    let ?s = "fold (\<lambda>c st. tetrix_set_cell (dst + c) (fst (st (src + c))) lvl st) [0..<n] st"
    have IH: "?s y = (if dst \<le> y \<and> y < dst + n then (fst (st (src + (y - dst))), lvl) else st y)" for y
      using Suc by simp
    have "\<not> (dst \<le> src + n \<and> src + n < dst + n)" using assms Suc.prems by linarith
    then have "?s (src + n) = st (src + n)" by (simp only: IH if_False)
    then have "fold (\<lambda>c st. tetrix_set_cell (dst + c) (fst (st (src + c))) lvl st) [0..<Suc n] st x =
        (if x = dst + n then (fst (st (src + n)), lvl) else ?s x)"
      by (simp add: tetrix_set_cell_def)
    then show ?case by (simp only: IH) (simp add: less_Suc_eq)
  qed auto
  from this [of 10] show ?thesis by (simp add: copy_cells_def FIELD_COLS_def)
qed

lemma zero_row_apply:
  "zero_row lvl dst st x = (if dst \<le> x \<and> x < dst + 10 then (TInteger 0, lvl) else st x)"
proof -
  have "fold (\<lambda>c st. tetrix_set_cell (dst + c) (TInteger 0) lvl st) [0..<n] st x =
    (if dst \<le> x \<and> x < dst + n then (TInteger 0, lvl) else st x)" for n x
    by (induction n arbitrary: x) (auto simp: tetrix_set_cell_def less_Suc_eq)
  from this [of 10] show ?thesis by (simp add: zero_row_def FIELD_COLS_def)
qed

text \<open>Replacing a whole row.\<close>

lemma field_at_new_row:
  assumes f: "field_at st a ra g" "separate a ra" and r: "r < 20"
    and st': "\<And>x. st' x = (if ra r \<le> x \<and> x < ra r + 10 then (TInteger (h (x - ra r)), lvl) else st x)"
  shows "field_at st' a ra (g(r := h))"
proof -
  have "st' (a + k) = st (a + k)" if "k < 20" for k
  proof -
    have "ra r + 10 \<le> a \<or> a + 20 \<le> ra r" using f(2) r by (simp add: separate_def)
    then show ?thesis using that by (auto simp: st')
  qed
  moreover have "st' (ra k + c) = st (ra k + c)" if "k < 20" "c < 10" "k \<noteq> r" for k c
  proof -
    have "ra k + 10 \<le> ra r \<or> ra r + 10 \<le> ra k" using f(2) r that by (simp add: separate_def)
    then show ?thesis using that by (auto simp: st')
  qed
  moreover have "fst (st' (ra r + c)) = TInteger (h c)" if "c < 10" for c using that by (simp add: st')
  ultimately show ?thesis using f(1) by (auto simp: field_at_def)
qed

lemma field_at_copy_row:
  assumes f: "field_at st a ra g" "separate a ra" and r: "r < 20" "r' < 20" "r \<noteq> r'"
  shows "field_at (copy_cells lvl (ra r) (ra r') st) a ra (g(r' := g r))"
proof -
  have d: "ra r + 10 \<le> ra r' \<or> ra r' + 10 \<le> ra r" using f(2) r by (simp add: separate_def)
  have "fst (st (ra r + (x - ra r'))) = TInteger (g r (x - ra r'))" if "ra r' \<le> x" "x < ra r' + 10" for x
    using field_at_cell [OF f(1) r(1), of "x - ra r'"] that by simp
  then show ?thesis
    by (intro field_at_new_row [OF f r(2), where lvl = lvl]) (simp add: copy_cells_apply [OF d])
qed

lemma field_at_zero_row:
  assumes "field_at st a ra g" "separate a ra" "r < 20"
  shows "field_at (zero_row lvl (ra r) st) a ra (g(r := (\<lambda>c. 0)))"
  by (rule field_at_new_row [OF assms, where lvl = lvl]) (simp add: zero_row_apply)

section \<open>Clearing rows\<close>

definition not_full :: "int list \<Rightarrow> bool" where "not_full row \<longleftrightarrow> 0 \<in> set row"

definition clear_spec :: "int list list \<Rightarrow> nat \<times> int list list" where
  "clear_spec rows =
     (let kept = filter not_full rows; cleared = length rows - length kept
      in (cleared, replicate cleared (replicate 10 0) @ kept))"

lemma row_full_value:
  assumes "field_at st a ra g" "r < 20" "set cs \<subseteq> {..<10}"
  shows "row_full st (ra r) cs = Value (0 \<notin> g r ` set cs)"
  using assms(3)
  by (induction cs) (auto simp: field_at_cell [OF assms(1,2)] tetrix_cell_int_def)

lemma row_full_grid:
  assumes "field_at st a ra g" "r < 20"
  shows "row_full st (ra r) [0..<FIELD_COLS] = Value (\<not> not_full (grid_row g r))"
proof -
  have "set [0..<FIELD_COLS] \<subseteq> {..<10}" by (auto simp: FIELD_COLS_def)
  from row_full_value [OF assms this] show ?thesis
    by (simp add: not_full_def grid_row_def FIELD_COLS_def)
qed

text \<open>The frame: nothing outside the rows changes.\<close>

definition same_outside :: "(nat \<Rightarrow> nat) \<Rightarrow> store \<Rightarrow> store \<Rightarrow> bool" where
  "same_outside ra st st' \<longleftrightarrow> (\<forall>x. \<not> in_rows ra x \<longrightarrow> st' x = st x)"

lemma same_outside_refl: "same_outside ra st st"
  by (simp add: same_outside_def)

lemma same_outside_trans: "same_outside ra st st' \<Longrightarrow> same_outside ra st' st'' \<Longrightarrow> same_outside ra st st''"
  by (simp add: same_outside_def)

lemma same_outside_copy:
  assumes "separate a ra" "r < 20" "r' < 20" "r \<noteq> r'"
  shows "same_outside ra st (copy_cells lvl (ra r) (ra r') st)"
proof -
  have "ra r + 10 \<le> ra r' \<or> ra r' + 10 \<le> ra r" using assms by (simp add: separate_def)
  from copy_cells_apply [OF this] show ?thesis using assms(3) by (auto simp: same_outside_def in_rows_def)
qed

lemma same_outside_zero: "r < 20 \<Longrightarrow> same_outside ra st (zero_row lvl (ra r) st)"
  by (auto simp: same_outside_def in_rows_def zero_row_apply)

lemma clear_scan_grid:
  assumes "separate a ra" "\<And>i. i < 20 \<Longrightarrow> rd ! i = ra i" "field_at st a ra g" "n \<le> w" "w \<le> 20"
  shows "\<exists>st' g' k. clear_scan lvl rd n w st = (Value k, st') \<and> field_at st' a ra g' \<and>
    same_outside ra st st' \<and> k + length (filter not_full (map (grid_row g) [0..<n])) = w \<and>
    map (grid_row g') [k..<20] = filter not_full (map (grid_row g) [0..<n]) @ map (grid_row g) [w..<20]"
  using assms(3-5)
proof (induction n arbitrary: w st g)
  case 0
  then show ?case by (simp add: same_outside_refl) blast
next
  case (Suc n)
  then have n: "n < 20" and full: "row_full st (rd ! n) [0..<FIELD_COLS] = Value (\<not> not_full (grid_row g n))"
    using row_full_grid [OF Suc.prems(1)] assms(2) by auto
  show ?case
  proof (cases "not_full (grid_row g n)")
    case False
    then have "clear_scan lvl rd (Suc n) w st = clear_scan lvl rd n w st" using full by simp
    then show ?thesis using Suc.IH [OF Suc.prems(1), of w] Suc.prems False by simp
  next
    case True
    let ?st = "if n \<noteq> w - 1 then copy_cells lvl (rd ! n) (rd ! (w - 1)) st else st"
    let ?g = "g(w - 1 := g n)"
    have w: "w - 1 < 20" "n \<le> w - 1" "w - 1 \<le> 20" "w \<noteq> 0" using Suc.prems by auto
    have st: "field_at ?st a ra ?g" "same_outside ra st ?st"
      using Suc.prems(1) field_at_copy_row [OF Suc.prems(1) assms(1) n w(1)]
        same_outside_copy [OF assms(1) n w(1)] assms(2) [OF n] assms(2) [OF w(1)]
      by (auto simp: same_outside_refl)
    from Suc.IH [OF st(1) w(2,3)] obtain st' g' k where
      run: "clear_scan lvl rd n (w - 1) ?st = (Value k, st')" "field_at st' a ra g'" "same_outside ra ?st st'"
        "k + length (filter not_full (map (grid_row ?g) [0..<n])) = w - 1"
        "map (grid_row g') [k..<20] = filter not_full (map (grid_row ?g) [0..<n]) @ map (grid_row ?g) [w - 1..<20]"
      by blast
    have low: "map (grid_row ?g) [0..<n] = map (grid_row g) [0..<n]"
      using w by (auto simp: grid_row_def)
    have high: "map (grid_row ?g) [w - 1..<20] = grid_row g n # map (grid_row g) [w..<20]"
    proof -
      have "[w - 1..<20] = (w - 1) # [w..<20]" using w by (simp add: upt_rec)
      then show ?thesis using w by (auto simp: grid_row_def)
    qed
    have all: "filter not_full (map (grid_row g) [0..<Suc n]) =
        filter not_full (map (grid_row g) [0..<n]) @ [grid_row g n]" using True by simp
    have "clear_scan lvl rd (Suc n) w st = (Value k, st')" using full True run(1) by simp
    moreover have "k + length (filter not_full (map (grid_row g) [0..<Suc n])) = w"
      using run(4) w(4) unfolding all low by simp
    moreover have "map (grid_row g') [k..<20] =
        filter not_full (map (grid_row g) [0..<Suc n]) @ map (grid_row g) [w..<20]"
      using run(5) unfolding all low high by simp
    ultimately show ?thesis using run(2) same_outside_trans [OF st(2) run(3)] by blast
  qed
qed

lemma zero_rows_grid:
  assumes "separate a ra" "\<And>i. i < 20 \<Longrightarrow> rd ! i = ra i" "field_at st a ra g" "k \<le> 20"
  shows "field_at (fold (\<lambda>i. zero_row lvl (rd ! i)) [0..<k] st) a ra (\<lambda>r. if r < k then \<lambda>c. 0 else g r) \<and>
    same_outside ra st (fold (\<lambda>i. zero_row lvl (rd ! i)) [0..<k] st)"
  using assms(4)
proof (induction k)
  case (Suc k)
  let ?st = "fold (\<lambda>i. zero_row lvl (rd ! i)) [0..<k] st" and ?g = "\<lambda>r. if r < k then \<lambda>c. 0 else g r"
  have IH: "field_at ?st a ra ?g" "same_outside ra st ?st" "k < 20" using Suc by auto
  have "(\<lambda>r. if r < Suc k then \<lambda>c. 0 else g r) = ?g(k := \<lambda>c. 0)" by (auto simp: fun_eq_iff less_Suc_eq)
  then show ?case
    using field_at_zero_row [OF IH(1) assms(1) IH(3)] same_outside_trans [OF IH(2) same_outside_zero [OF IH(3)]]
      assms(2) [OF IH(3)] by simp
qed (use assms in \<open>simp add: same_outside_refl\<close>)

lemma mapM_Value: "(\<And>x. x \<in> set xs \<Longrightarrow> f x = Value (g x)) \<Longrightarrow> mapM f xs = Value (map g xs)"
  by (induction xs) auto

lemma clear_rows_grid:
  assumes sep: "separate a ra" and f: "field_at st a ra g"
  shows "\<exists>st' g'. tetrix_field_clear_rows_fast_op lvl available (TArray a 20 True) st =
      (if available < 1 then Raise OpStackOverflow else Value (fst (clear_spec (grid_rows g))), st') \<and>
    field_at st' a ra g' \<and> grid_rows g' = snd (clear_spec (grid_rows g)) \<and> same_outside ra st st'"
proof -
  let ?rd = "map ra [0..<20]" and ?kept = "filter not_full (grid_rows g)"
  have "mapM (\<lambda>r. tetrix_validate_row (row_obj st a r) True) [0..<FIELD_ROWS] = Value ?rd"
    unfolding FIELD_ROWS_def by (rule mapM_Value) (use field_at_validate [OF f] in auto)
  then have rd: "bind_outcome (tetrix_validate_field (TArray a 20 True) True) (\<lambda>fld_rows.
      mapM (\<lambda>r. tetrix_validate_row (row_obj st fld_rows r) True) [0..<FIELD_ROWS]) = Value ?rd"
    by (simp add: tetrix_validate_field_def FIELD_ROWS_def)
  have ra: "?rd ! i = ra i" if "i < 20" for i using that by simp
  obtain st1 g1 k where scan: "clear_scan lvl ?rd 20 20 st = (Value k, st1)" "field_at st1 a ra g1"
      "same_outside ra st st1" "k + length ?kept = 20" "map (grid_row g1) [k..<20] = ?kept"
    using clear_scan_grid [OF sep ra f, of 20 20 lvl] by (auto simp: grid_rows_def)
  let ?st = "fold (\<lambda>i. zero_row lvl (?rd ! i)) [0..<k] st1" and ?g = "\<lambda>r. if r < k then \<lambda>c. 0 else g1 r"
  have z: "field_at ?st a ra ?g" "same_outside ra st1 ?st"
    using zero_rows_grid [OF sep ra scan(2), of k] scan(4) by auto
  have "map (grid_row ?g) [0..<20] = map (grid_row ?g) [0..<k] @ map (grid_row ?g) [k..<20]"
    using scan(4) upt_add_eq_append [of 0 k "20 - k"] by (simp flip: map_append)
  also have "map (grid_row ?g) [0..<k] = replicate k (replicate 10 0)"
  proof -
    have "grid_row ?g r = replicate 10 0" if "r < k" for r
      using that by (simp add: grid_row_def map_replicate_const)
    then have "map (grid_row ?g) [0..<k] = map (\<lambda>_. replicate 10 0) [0..<k]" by simp
    then show ?thesis by (simp add: map_replicate_const)
  qed
  also have "map (grid_row ?g) [k..<20] = ?kept" unfolding scan(5) [symmetric] by (simp add: grid_row_def)
  finally have "grid_rows ?g = replicate k (replicate 10 0) @ ?kept" by (simp add: grid_rows_def)
  moreover have "length (grid_rows g) - length ?kept = k" using scan(4) by (simp add: grid_rows_def)
  moreover have "tetrix_field_clear_rows_fast_op lvl available (TArray a 20 True) st =
      (if available < 1 then Raise OpStackOverflow else Value k, ?st)"
    unfolding tetrix_field_clear_rows_fast_op_def rd by (simp add: FIELD_ROWS_def scan(1))
  ultimately show ?thesis using z same_outside_trans [OF scan(3) z(2)]
    by (auto simp: clear_spec_def Let_def)
qed

section \<open>Pieces\<close>

text \<open>A shape at \<open>b\<close>: four pairs of integers, the \<open>i\<close>-th stored at \<open>sa i\<close>.\<close>

definition shape_at :: "store \<Rightarrow> nat \<Rightarrow> (nat \<Rightarrow> nat) \<Rightarrow> (int \<times> int) list \<Rightarrow> bool" where
  "shape_at st b sa cs \<longleftrightarrow> length cs = 4 \<and> (\<forall>i<4. (\<exists>rw. fst (st (b + i)) = TArray (sa i) 2 rw) \<and>
     fst (st (sa i)) = TInteger (fst (cs ! i)) \<and> fst (st (sa i + 1)) = TInteger (snd (cs ! i)))"

definition shape_apart :: "(nat \<Rightarrow> nat) \<Rightarrow> nat \<Rightarrow> (nat \<Rightarrow> nat) \<Rightarrow> bool" where
  "shape_apart ra b sa \<longleftrightarrow> (\<forall>i<4. \<not> in_rows ra (b + i) \<and> \<not> in_rows ra (sa i) \<and> \<not> in_rows ra (sa i + 1))"

text \<open>The collision test on the grid.\<close>

definition blocked :: "(nat \<Rightarrow> nat \<Rightarrow> int) \<Rightarrow> int \<Rightarrow> int \<Rightarrow> bool" where
  "blocked g r c \<longleftrightarrow> \<not> in_field r c \<or> g (nat r) (nat c) \<noteq> 0"

definition collides :: "(nat \<Rightarrow> nat \<Rightarrow> int) \<Rightarrow> (int \<times> int) list \<Rightarrow> int \<Rightarrow> int \<Rightarrow> bool" where
  "collides g cs py px \<longleftrightarrow> (\<exists>(dr, dc)\<in>set cs. blocked g (py + dr) (px + dc))"

lemma unpack_shape:
  "shape_at st b sa cs \<Longrightarrow> i < 4 \<Longrightarrow> tetrix_unpack_shape_cell st b i = Value (cs ! i)"
  by (auto simp: shape_at_def tetrix_unpack_shape_cell_def)

lemma cell_hits_grid: "field_at st a ra g \<Longrightarrow> cell_hits st a r c = Value (blocked g r c)"
  using field_at_validate [of st a ra g "nat r" False] field_at_cell [of st a ra g "nat r" "nat c"]
  by (auto simp: cell_hits_def blocked_def in_field_def tetrix_cell_int_def field_consts)

lemma collide_loop_grid:
  assumes "field_at st a ra g" "shape_at st b sa cs" "set is \<subseteq> {..<4}"
  shows "collide_loop st a b py px is = Value (collides g (map ((!) cs) is) py px)"
  using assms(3)
  by (induction "is") (auto simp: unpack_shape [OF assms(2)] cell_hits_grid [OF assms(1)] collides_def
      split: prod.splits)

lemma shape_list: "shape_at st b sa cs \<Longrightarrow> map ((!) cs) [0..<4] = cs"
  by (metis map_nth shape_at_def)

lemma collides_grid:
  assumes "field_at st a ra g" "shape_at st b sa cs"
  shows "tetrix_piece_collides_fast_op st (TArray a 20 rw) (TArray b 4 rw') py px = Value (collides g cs py px)"
  using collide_loop_grid [OF assms, of "[0..<4]"] shape_list [OF assms(2)]
  by (simp add: tetrix_piece_collides_fast_op_def tetrix_validate_field_def tetrix_validate_shape_def
      FIELD_ROWS_def lessThan_atLeast0)

lemma hits_at_grid: "field_at st a ra g \<Longrightarrow> hits_at st a cs row px = Value (collides g cs row px)"
  by (induction cs) (auto simp: cell_hits_grid collides_def)

lemma ghost_loop_grid:
  assumes f: "field_at st a ra g"
  shows "\<exists>k. ghost_loop st a cs px py = Value k \<and> py \<le> k \<and> k \<le> max py 20 \<and>
    (\<forall>j. py < j \<and> j \<le> k \<longrightarrow> \<not> collides g cs j px) \<and> (20 \<le> k \<or> collides g cs (k + 1) px)"
proof (induction "nat (20 - py)" arbitrary: py)
  case 0
  then show ?case by (auto simp: ghost_loop.simps FIELD_ROWS_def)
next
  case (Suc n)
  then have py: "py < 20" "n = nat (20 - (py + 1))" by auto
  show ?case
  proof (cases "collides g cs (py + 1) px")
    case True
    then show ?thesis using py by (subst ghost_loop.simps) (auto simp: FIELD_ROWS_def hits_at_grid [OF f])
  next
    case False
    then have step: "ghost_loop st a cs px py = ghost_loop st a cs px (py + 1)"
      using py by (subst ghost_loop.simps) (simp add: FIELD_ROWS_def hits_at_grid [OF f])
    from Suc.hyps(1) [OF py(2)] obtain k where k: "ghost_loop st a cs px (py + 1) = Value k" "py + 1 \<le> k"
      "k \<le> max (py + 1) 20" "\<forall>j. py + 1 < j \<and> j \<le> k \<longrightarrow> \<not> collides g cs j px"
      "20 \<le> k \<or> collides g cs (k + 1) px" by blast
    have "\<not> collides g cs j px" if "py < j" "j \<le> k" for j
      using that k(4) False by (cases "j = py + 1") auto
    then show ?thesis using k step py by auto
  qed
qed

text \<open>Merging: the colour in the cells of the piece, the rest of the grid unchanged.\<close>

definition merged :: "(nat \<Rightarrow> nat \<Rightarrow> int) \<Rightarrow> (int \<times> int) list \<Rightarrow> int \<Rightarrow> int \<Rightarrow> int \<Rightarrow> nat \<Rightarrow> nat \<Rightarrow> int" where
  "merged g cs color py px = (\<lambda>r c. if (int r - py, int c - px) \<in> set cs then color else g r c)"

lemma shape_at_outside: "shape_at st b sa cs \<Longrightarrow> shape_apart ra b sa \<Longrightarrow> same_outside ra st st' \<Longrightarrow> shape_at st' b sa cs"
  by (auto simp: shape_at_def shape_apart_def same_outside_def)

lemma field_at_cong:
  "field_at st a ra g \<Longrightarrow> (\<And>r c. r < 20 \<Longrightarrow> c < 10 \<Longrightarrow> g r c = h r c) \<Longrightarrow> field_at st a ra h"
  by (simp add: field_at_def)

lemma merge_loop_grid:
  assumes sep: "separate a ra" and ap: "shape_apart ra b sa"
    and "field_at st a ra g" "shape_at st b sa cs" "set is \<subseteq> {..<4}"
  shows "\<exists>st'. merge_loop lvl a b color py px is st = (Value (), st') \<and>
    field_at st' a ra (merged g (map ((!) cs) is) color py px) \<and> same_outside ra st st'"
  using assms(3-5)
proof (induction "is" arbitrary: st g)
  case Nil
  then show ?case by (simp add: merged_def same_outside_refl)
next
  case (Cons i "is")
  obtain dr dc where d: "cs ! i = (dr, dc)" by (cases "cs ! i")
  have u: "tetrix_unpack_shape_cell st b i = Value (dr, dc)"
    using unpack_shape [OF Cons.prems(2)] Cons.prems(3) d by auto
  let ?r = "nat (py + dr)" and ?c = "nat (px + dc)"
  show ?case
  proof (cases "in_field (py + dr) (px + dc)")
    case False
    then have "merge_loop lvl a b color py px (i # is) st = merge_loop lvl a b color py px is st"
      using u by simp
    moreover have "merged g (map ((!) cs) is) color py px r c = merged g (map ((!) cs) (i # is)) color py px r c"
      if "r < 20" "c < 10" for r c
      using False that d by (auto simp: merged_def in_field_def field_consts)
    ultimately show ?thesis using Cons.IH [OF Cons.prems(1,2)] Cons.prems(3) field_at_cong by fastforce
  next
    case True
    then have rc: "?r < 20" "?c < 10" by (auto simp: in_field_def field_consts)
    let ?st = "tetrix_set_cell (ra ?r + ?c) (TInteger color) lvl st"
    have f: "field_at ?st a ra (g(?r := (g ?r)(?c := color)))"
      by (rule field_at_set_cell [OF Cons.prems(1) sep rc])
    have "in_rows ra (ra ?r + ?c)" unfolding in_rows_def using rc by (intro exI [of _ ?r]) simp
    then have o1: "same_outside ra st ?st" by (auto simp: same_outside_def tetrix_set_cell_def)
    have step: "merge_loop lvl a b color py px (i # is) st = merge_loop lvl a b color py px is ?st"
      using u True field_at_validate [OF Cons.prems(1) rc(1), of True] by simp
    from Cons.IH [OF f shape_at_outside [OF Cons.prems(2) ap o1]] Cons.prems(3) obtain st' where
      st': "merge_loop lvl a b color py px is ?st = (Value (), st')" "same_outside ra ?st st'"
        "field_at st' a ra (merged (g(?r := (g ?r)(?c := color))) (map ((!) cs) is) color py px)"
      by (auto simp del: fun_upd_apply)
    have "merged (g(?r := (g ?r)(?c := color))) (map ((!) cs) is) color py px =
        merged g (map ((!) cs) (i # is)) color py px"
      using True d by (auto simp: merged_def fun_eq_iff in_field_def)
    then show ?thesis using st' step same_outside_trans [OF o1 st'(2)] by auto
  qed
qed

end
