(* ===== verification/Tetrix_Theorems.thy ===== *)
theory Tetrix_Theorems
  imports Tetrix_Proofs
begin

text \<open>
  The properties of the tetrix kernels: row clearing, collision and drop, merging, and the board
  score against its definition.
\<close>

section \<open>A field to try them on\<close>

text \<open>The field array at 0, row \<open>r\<close> at \<open>100 + 10 r\<close>, a shape at 30 with its pairs from 40 on.\<close>

definition demo_store :: "(nat \<Rightarrow> nat \<Rightarrow> int) \<Rightarrow> store" where
  "demo_store g x =
     (if x < 20 then TArray (100 + 10 * x) 10 True
      else if 30 \<le> x \<and> x < 34 then TArray (40 + 2 * (x - 30)) 2 False
      else if 40 \<le> x \<and> x < 48 then TInteger (int (x - 40) mod 2)
      else if 100 \<le> x \<and> x < 300 then TInteger (g ((x - 100) div 10) ((x - 100) mod 10))
      else TOther, 0)"

definition demo_rows :: "nat \<Rightarrow> nat" where "demo_rows r = 100 + 10 * r"

definition demo_grid :: "nat \<Rightarrow> nat \<Rightarrow> int" where
  "demo_grid r c = (if r = 19 \<or> (r = 18 \<and> c = 4) then 3 else 0)"

lemma demo_field: "field_at (demo_store g) 0 demo_rows g"
proof -
  have "(10 * r + c) div 10 = r" "(10 * r + c) mod 10 = c" if "c < 10" for r c :: nat using that by auto
  then show ?thesis by (auto simp: field_at_def demo_store_def demo_rows_def)
qed

lemma demo_separate: "separate 0 demo_rows"
  by (auto simp: separate_def demo_rows_def)

lemma demo_shape: "shape_at (demo_store g) 30 (\<lambda>i. 40 + 2 * i) [(0, 1), (0, 1), (0, 1), (0, 1)]"
proof -
  have "i = 0 \<or> i = 1 \<or> i = 2 \<or> i = 3" if "i < 4" for i :: nat using that by presburger
  then show ?thesis by (fastforce simp: shape_at_def demo_store_def)
qed

lemma demo_apart: "shape_apart demo_rows 30 (\<lambda>i. 40 + 2 * i)"
  by (auto simp: shape_apart_def in_rows_def demo_rows_def)

section \<open>Rows\<close>

text \<open>
  C20. The two-pointer scan clears exactly the full rows: the surviving rows keep their order and sink
  to the bottom, blank rows fill the top, the count is the number of full rows, and no cell
  outside the field changes. Without room on the operand stack the field is cleared all
  the same and the operator raises.
\<close>

theorem tetrix_clear_rows_refines:
  assumes "separate a ra" "field_at st a ra g"
  shows "\<exists>st' g'. tetrix_field_clear_rows_fast_op lvl available (TArray a 20 True) st =
      (if available < 1 then Raise OpStackOverflow else Value (fst (clear_spec (grid_rows g))), st') \<and>
    field_at st' a ra g' \<and> grid_rows g' = snd (clear_spec (grid_rows g)) \<and> same_outside ra st st'"
  by (rule clear_rows_grid [OF assms])

theorem tetrix_clear_rows_witness:
  "fst (tetrix_field_clear_rows_fast_op 0 1 (TArray 0 20 True) (demo_store demo_grid)) = Value 1"
proof -
  have "fst (clear_spec (grid_rows demo_grid)) = 1"
    by (simp add: clear_spec_def grid_rows_def grid_row_def demo_grid_def not_full_def upt_rec)
  then show ?thesis using tetrix_clear_rows_refines [OF demo_separate demo_field [of demo_grid], of 0 1] by auto
qed

section \<open>Pieces\<close>

text \<open>
  The drop agrees with the collision operator: it returns a row from which every row on
  the way down from the start is free, and either the next row collides or the cap is reached.
\<close>

theorem tetrix_ghost_row_correct:
  assumes "field_at st a ra g" "shape_at st b sa cs"
  shows "\<exists>k. tetrix_piece_ghost_row_fast_op st (TArray a 20 rw) (TArray b 4 rw') py px = Value k \<and>
    py \<le> k \<and> k \<le> max py 20 \<and>
    (\<forall>j. py < j \<and> j \<le> k \<longrightarrow>
      tetrix_piece_collides_fast_op st (TArray a 20 rw) (TArray b 4 rw') j px = Value False) \<and>
    (20 \<le> k \<or> tetrix_piece_collides_fast_op st (TArray a 20 rw) (TArray b 4 rw') (k + 1) px = Value True)"
proof -
  have "mapM (tetrix_unpack_shape_cell st b) [0..<4] = Value (map ((!) cs) [0..<4])"
    by (rule mapM_Value) (use unpack_shape [OF assms(2)] in auto)
  then have "tetrix_piece_ghost_row_fast_op st (TArray a 20 rw) (TArray b 4 rw') py px = ghost_loop st a cs px py"
    by (simp add: tetrix_piece_ghost_row_fast_op_def tetrix_validate_field_def
        tetrix_validate_shape_def FIELD_ROWS_def shape_list [OF assms(2)] del: mapM.simps)
  then show ?thesis using ghost_loop_grid [OF assms(1), of cs px py] by (auto simp: collides_grid [OF assms])
qed

theorem tetrix_ghost_row_witness:
  "\<exists>k. tetrix_piece_ghost_row_fast_op (demo_store demo_grid) (TArray 0 20 True) (TArray 30 4 False) 0 0 = Value k
    \<and> 0 \<le> k \<and> k \<le> 20"
  using tetrix_ghost_row_correct [OF demo_field [of demo_grid] demo_shape, of True False 0 0] by auto

text \<open>
  Merging a piece colours exactly its cells inside the field and changes nothing else; merged
  with a colour, the piece then collides with itself.
\<close>

theorem tetrix_merge_correct:
  assumes sep: "separate a ra" "shape_apart ra b sa" and f: "field_at st a ra g" "shape_at st b sa cs"
  shows "\<exists>st'. tetrix_piece_merge_fast_op lvl (TArray a 20 True) (TArray b 4 rw) color py px st = (Value (), st') \<and>
    field_at st' a ra (merged g cs color py px) \<and> same_outside ra st st' \<and>
    (color \<noteq> 0 \<longrightarrow> tetrix_piece_collides_fast_op st' (TArray a 20 True) (TArray b 4 rw) py px = Value True)"
proof -
  from merge_loop_grid [OF sep f, of "[0..<4]" lvl color py px] obtain st' where
    m: "merge_loop lvl a b color py px [0..<4] st = (Value (), st')"
      "field_at st' a ra (merged g cs color py px)" "same_outside ra st st'"
    by (auto simp: shape_list [OF f(2)] lessThan_atLeast0 simp del: merge_loop.simps)
  have "cs \<noteq> []" using f(2) by (auto simp: shape_at_def)
  then obtain dr dc where dd: "(dr, dc) \<in> set cs" by (cases cs) auto
  have "collides (merged g cs color py px) cs py px" if "color \<noteq> 0"
    using that dd unfolding collides_def
    by (intro bexI [of _ "(dr, dc)"]) (auto simp: blocked_def merged_def in_field_def)
  moreover have "tetrix_piece_merge_fast_op lvl (TArray a 20 True) (TArray b 4 rw) color py px st = (Value (), st')"
    by (simp add: tetrix_piece_merge_fast_op_def tetrix_validate_field_def tetrix_validate_shape_def
        FIELD_ROWS_def m(1) del: merge_loop.simps)
  ultimately show ?thesis
    using m collides_grid [OF m(2) shape_at_outside [OF f(2) sep(2) m(3)]] by auto
qed

theorem tetrix_merge_witness:
  "\<exists>st'. tetrix_piece_merge_fast_op 0 (TArray 0 20 True) (TArray 30 4 False) 5 2 3 (demo_store demo_grid) =
      (Value (), st') \<and> fst (st' 124) = TInteger 5"
proof -
  obtain st' where m: "tetrix_piece_merge_fast_op 0 (TArray 0 20 True) (TArray 30 4 False) 5 2 3
      (demo_store demo_grid) = (Value (), st')"
    "field_at st' 0 demo_rows (merged demo_grid [(0, 1), (0, 1), (0, 1), (0, 1)] 5 2 3)"
    using tetrix_merge_correct [OF demo_separate demo_apart demo_field [of demo_grid] demo_shape, of 0 False 5 2 3]
    by blast
  have "fst (st' (demo_rows 2 + 4)) = TInteger 5"
    using field_at_cell [OF m(2), of 2 4] by (simp add: merged_def)
  then show ?thesis using m(1) by (simp add: demo_rows_def)
qed

section \<open>The board score\<close>

lemma read_cells_grid:
  assumes f: "field_at st a ra g"
  shows "read_cells st a = Value (grid_rows g)"
  unfolding read_cells_def grid_rows_def FIELD_ROWS_def
proof (rule mapM_Value)
  fix r assume "r \<in> set [0..<20]"
  then have r: "r < 20" by simp
  have "mapM (\<lambda>c. tetrix_cell_int (fst (st (ra r + c)))) [0..<10] = Value (map (g r) [0..<10])"
    by (rule mapM_Value) (simp add: field_at_cell [OF f r] tetrix_cell_int_def)
  then show "bind_outcome (tetrix_validate_row (row_obj st a r) False)
      (\<lambda>row_data. mapM (\<lambda>c. tetrix_cell_int (fst (st (row_data + c)))) [0..<FIELD_COLS]) = Value (grid_row g r)"
    by (simp add: field_at_validate [OF f r] grid_row_def FIELD_COLS_def)
qed

lemma grid_rows_nth: "r < 20 \<Longrightarrow> c < 10 \<Longrightarrow> grid_rows g ! r ! c = g r c"
  by (simp add: grid_rows_def grid_row_def)

text \<open>The topmost block of a column.\<close>

lemma scan_height_spec:
  "sorted rs \<Longrightarrow> scan_height cells c rs =
     (if \<exists>r\<in>set rs. cells ! r ! c \<noteq> 0 then 20 - int (Min {r \<in> set rs. cells ! r ! c \<noteq> 0}) else 0)"
proof (induction rs)
  case (Cons r rs)
  show ?case
  proof (cases "cells ! r ! c \<noteq> 0")
    case True
    then have "Min {x \<in> set (r # rs). cells ! x ! c \<noteq> 0} = r" using Cons.prems by (intro Min_eqI) auto
    then show ?thesis using True by (simp add: FIELD_ROWS_def)
  next
    case False
    then have "{x \<in> set (r # rs). cells ! x ! c \<noteq> 0} = {x \<in> set rs. cells ! x ! c \<noteq> 0}" by auto
    then show ?thesis using False Cons by simp
  qed
qed simp

definition top_block :: "(nat \<Rightarrow> nat \<Rightarrow> int) \<Rightarrow> nat \<Rightarrow> nat \<Rightarrow> bool" where
  "top_block g c r \<longleftrightarrow> r < 20 \<and> g r c \<noteq> 0 \<and> (\<forall>r'<r. g r' c = 0)"

definition col_height :: "(nat \<Rightarrow> nat \<Rightarrow> int) \<Rightarrow> nat \<Rightarrow> int" where
  "col_height g c = (if \<exists>r<20. g r c \<noteq> 0 then 20 - int (LEAST r. g r c \<noteq> 0) else 0)"

lemma heights_grid: "c < 10 \<Longrightarrow> heights (grid_rows g) ! c = col_height g c"
proof -
  assume c: "c < 10"
  let ?S = "{r \<in> set [0..<20]. grid_rows g ! r ! c \<noteq> 0}"
  have S: "?S = {r. r < 20 \<and> g r c \<noteq> 0}" using c by (auto simp: grid_rows_nth)
  have "Min ?S = (LEAST r. g r c \<noteq> 0)" if e: "\<exists>r<20. g r c \<noteq> 0"
  proof (rule Min_eqI)
    obtain r where r: "r < 20" "g r c \<noteq> 0" using e by blast
    then show "(LEAST r. g r c \<noteq> 0) \<in> ?S" unfolding S
      using LeastI [of "\<lambda>r. g r c \<noteq> 0" r] Least_le [of "\<lambda>r. g r c \<noteq> 0" r] by simp
    show "finite ?S" by simp
    show "(LEAST r. g r c \<noteq> 0) \<le> y" if "y \<in> ?S" for y using that unfolding S by (simp add: Least_le)
  qed
  moreover have "(\<exists>r\<in>set [0..<20]. grid_rows g ! r ! c \<noteq> 0) = (\<exists>r<20. g r c \<noteq> 0)"
    using c by (auto simp: grid_rows_nth)
  moreover have "heights (grid_rows g) ! c = scan_height (grid_rows g) c [0..<20]"
    using c by (simp add: heights_def field_consts)
  ultimately show ?thesis unfolding col_height_def
    by (simp only: scan_height_spec [OF sorted_upt]) (rule if_cong; simp)
qed

text \<open>The empty cells under a block.\<close>

definition covered :: "(nat \<Rightarrow> nat \<Rightarrow> int) \<Rightarrow> nat \<Rightarrow> nat set" where
  "covered g c = {r. r < 20 \<and> g r c = 0 \<and> (\<exists>r'<r. g r' c \<noteq> 0)}"

lemma col_holes_grid:
  assumes c: "c < 10"
  shows "col_holes (grid_rows g) c (col_height g c) = int (card (covered g c))"
proof (cases "\<exists>r<20. g r c \<noteq> 0")
  case True
  define t where "t = (LEAST r. g r c \<noteq> 0)"
  obtain r where r: "r < 20" "g r c \<noteq> 0" using True by blast
  have t: "g t c \<noteq> 0" "t < 20" "\<And>r. g r c \<noteq> 0 \<Longrightarrow> t \<le> r"
    using LeastI [of "\<lambda>r. g r c \<noteq> 0" r] Least_le [of "\<lambda>r. g r c \<noteq> 0"] r
    unfolding t_def by (auto intro: le_less_trans)
  have h: "col_height g c = 20 - int t" using True by (simp add: col_height_def t_def)
  have n: "nat (int t + 1) = Suc t" by simp
  have "covered g c = set (filter (\<lambda>r. grid_rows g ! r ! c = 0) [Suc t..<20])"
    using t c by (fastforce simp: covered_def grid_rows_nth Suc_le_eq)
  moreover have "distinct (filter (\<lambda>r. grid_rows g ! r ! c = 0) [Suc t..<20])" by simp
  ultimately have "card (covered g c) = length (filter (\<lambda>r. grid_rows g ! r ! c = 0) [Suc t..<20])"
    by (simp only: distinct_card)
  then show ?thesis using t(2) by (simp add: col_holes_def h field_consts n del: upt_Suc)
next
  case False
  then have "covered g c = {}" by (auto simp: covered_def)
  moreover have "col_height g c = 0" unfolding col_height_def by (simp only: False if_False)
  ultimately show ?thesis by (simp add: col_holes_def)
qed

text \<open>Bounds of the components.\<close>

lemma col_height_bounds: "0 \<le> col_height g c" "col_height g c \<le> 20"
proof -
  have "(LEAST r. g r c \<noteq> 0) < 20" if "r < 20" "g r c \<noteq> 0" for r
    using that Least_le [of "\<lambda>r. g r c \<noteq> 0" r] by simp
  then show "0 \<le> col_height g c" "col_height g c \<le> 20" by (auto simp: col_height_def less_imp_le)
qed

lemma sum_list_bounds:
  fixes f :: "'a \<Rightarrow> int"
  assumes "\<And>x. x \<in> set xs \<Longrightarrow> 0 \<le> f x \<and> f x \<le> b"
  shows "0 \<le> sum_list (map f xs) \<and> sum_list (map f xs) \<le> int (length xs) * b"
  using assms by (induction xs) (force simp: algebra_simps)+

lemma component_bounds:
  fixes g defines "hs \<equiv> heights (grid_rows g)"
  shows "0 \<le> h_sum hs \<and> h_sum hs \<le> 200" "0 \<le> holes (grid_rows g) hs \<and> holes (grid_rows g) hs \<le> 200"
    "0 \<le> bumpy hs \<and> bumpy hs \<le> 180" "0 \<le> wells hs \<and> wells hs \<le> 200"
proof -
  have h: "0 \<le> hs ! c" "hs ! c \<le> 20" if "c < 10" for c
    using that col_height_bounds by (simp_all add: hs_def heights_grid)
  have len: "length hs = 10" by (simp add: hs_def heights_def FIELD_COLS_def)
  have "h_sum hs = sum_list (map ((!) hs) [0..<10])" by (metis h_sum_def len map_nth)
  then show "0 \<le> h_sum hs \<and> h_sum hs \<le> 200"
    using sum_list_bounds [of "[0..<10]" "(!) hs" 20] h by simp
  have "0 \<le> col_holes (grid_rows g) c (hs ! c) \<and> col_holes (grid_rows g) c (hs ! c) \<le> 20"
    if c: "c < 10" for c
  proof -
    have "card (covered g c) \<le> card {..<20::nat}" by (rule card_mono) (auto simp: covered_def)
    then show ?thesis using col_holes_grid [OF c] c by (simp add: hs_def heights_grid)
  qed
  then show "0 \<le> holes (grid_rows g) hs \<and> holes (grid_rows g) hs \<le> 200"
    using sum_list_bounds [of "[0..<10]" "\<lambda>c. col_holes (grid_rows g) c (hs ! c)" 20]
    by (simp add: holes_def FIELD_COLS_def)
  have b: "0 \<le> (let d = hs ! i - hs ! (i + 1) in if d < 0 then - d else d) \<and>
      (let d = hs ! i - hs ! (i + 1) in if d < 0 then - d else d) \<le> 20" if "i < 9" for i
    using h [of i] h [of "i + 1"] that by (simp add: Let_def)
  show "0 \<le> bumpy hs \<and> bumpy hs \<le> 180" unfolding bumpy_def
    using sum_list_bounds [of "[0..<9]" "\<lambda>i. let d = hs ! i - hs ! (i + 1) in if d < 0 then - d else d" 20] b
    by (simp add: FIELD_COLS_def)
  define f where "f = (\<lambda>i. let h = hs ! i; left = (if i = 0 then int FIELD_ROWS else hs ! (i - 1));
         right = (if i = FIELD_COLS - 1 then int FIELD_ROWS else hs ! (i + 1));
         min_side = (if left < right then left else right); depth = min_side - h
     in if depth \<ge> 2 then depth else 0)"
  have "wells hs = sum_list (map f [0..<10])" unfolding wells_def f_def FIELD_COLS_def ..
  moreover have "0 \<le> f i \<and> f i \<le> 20" if "i < 10" for i
    using h [of i] h [of "i - 1"] h [of "i + 1"] that
    by (cases "i = 0"; cases "i = 9") (simp_all add: f_def Let_def field_consts)
  ultimately show "0 \<le> wells hs \<and> wells hs \<le> 200"
    using sum_list_bounds [of "[0..<10]" f 20] by simp
qed

lemma h_sum_grid: "h_sum (heights (grid_rows g)) = (\<Sum>c<10. col_height g c)"
proof -
  have "h_sum (heights (grid_rows g)) = (\<Sum>c\<leftarrow>[0..<10]. heights (grid_rows g) ! c)"
  proof -
    have "length (heights (grid_rows g)) = 10" by (simp add: heights_def FIELD_COLS_def)
    then show ?thesis unfolding h_sum_def by (metis map_nth)
  qed
  also have "\<dots> = (\<Sum>c\<leftarrow>[0..<10]. col_height g c)"
    by (rule arg_cong [where f = sum_list]) (simp add: heights_grid)
  finally show ?thesis by (simp add: interv_sum_list_conv_sum_set_nat lessThan_atLeast0)
qed

lemma holes_grid: "holes (grid_rows g) (heights (grid_rows g)) = (\<Sum>c<10. int (card (covered g c)))"
proof -
  have "holes (grid_rows g) (heights (grid_rows g)) = (\<Sum>c\<leftarrow>[0..<10]. int (card (covered g c)))"
    unfolding holes_def FIELD_COLS_def
    by (rule arg_cong [where f = sum_list]) (simp add: heights_grid col_holes_grid)
  then show ?thesis by (simp only: interv_sum_list_conv_sum_set_nat lessThan_atLeast0 set_upt)
qed

text \<open>The accumulation: the exact value, or the overflow flag.\<close>

lemma add_term_exact:
  "\<not> snd (add_term a b p) \<Longrightarrow> \<not> snd p \<and> fst (add_term a b p) = fst p + a * b"
  by (cases p) (auto simp: add_term_def mul_overflow_def add_overflow_def wrap_int32_id Let_def)

lemma add_term_in_range:
  "\<not> snd p \<Longrightarrow> in_int32 (a * b) \<Longrightarrow> in_int32 (fst p + a * b) \<Longrightarrow>
     \<not> snd (add_term a b p) \<and> fst (add_term a b p) = fst p + a * b"
  by (cases p) (auto simp: add_term_def mul_overflow_def add_overflow_def wrap_int32_id Let_def)

lemma combine_exact:
  assumes "\<not> snd (combine_score n h o' b e w)"
  shows "fst (combine_score n h o' b e w) = n * w ! 0 + h * w ! 1 + o' * w ! 2 + b * w ! 3 + e * w ! 4"
proof -
  let ?p0 = "mul_overflow n (w ! 0)" let ?p1 = "add_term h (w ! 1) ?p0"
  let ?p2 = "add_term o' (w ! 2) ?p1" let ?p3 = "add_term b (w ! 3) ?p2"
  note e4 = add_term_exact [OF assms [unfolded combine_score_def]]
  note e3 = add_term_exact [OF conjunct1 [OF e4]] note e2 = add_term_exact [OF conjunct1 [OF e3]]
  note e1 = add_term_exact [OF conjunct1 [OF e2]]
  have "fst ?p0 = n * w ! 0" using e1 by (simp add: mul_overflow_def wrap_int32_id)
  then show ?thesis using e1 e2 e3 e4 by (simp add: combine_score_def)
qed

lemma small_product:
  fixes x y :: int
  assumes "0 \<le> x" "x \<le> 200" "\<bar>y\<bar> \<le> 1000000"
  shows "\<bar>x * y\<bar> \<le> 200000000"
  using mult_mono [of "\<bar>x\<bar>" 200 "\<bar>y\<bar>" 1000000] assms by (simp add: abs_mult)

lemma combine_bounded:
  assumes w: "\<forall>i<5. \<bar>w ! i\<bar> \<le> 1000000" and n: "0 \<le> n" "n \<le> 200"
    and c: "0 \<le> h" "h \<le> 200" "0 \<le> o'" "o' \<le> 200" "0 \<le> b" "b \<le> 200" "0 \<le> e" "e \<le> 200"
  shows "\<not> snd (combine_score n h o' b e w)"
proof -
  note P = small_product [OF n, of "w ! 0"] small_product [OF c(1,2), of "w ! 1"]
    small_product [OF c(3,4), of "w ! 2"] small_product [OF c(5,6), of "w ! 3"] small_product [OF c(7,8), of "w ! 4"]
  have B: "\<bar>n * w ! 0\<bar> \<le> 200000000" "\<bar>h * w ! 1\<bar> \<le> 200000000" "\<bar>o' * w ! 2\<bar> \<le> 200000000"
    "\<bar>b * w ! 3\<bar> \<le> 200000000" "\<bar>e * w ! 4\<bar> \<le> 200000000" using P w by simp_all
  let ?p0 = "mul_overflow n (w ! 0)" let ?p1 = "add_term h (w ! 1) ?p0"
  let ?p2 = "add_term o' (w ! 2) ?p1" let ?p3 = "add_term b (w ! 3) ?p2"
  have r: "in_int32 x" if "\<bar>x\<bar> \<le> 2000000000" for x using that by (auto simp: int32_defs)
  have p0: "\<not> snd ?p0" "fst ?p0 = n * w ! 0" using B(1) r [of "n * w ! 0"]
    by (simp_all add: mul_overflow_def wrap_int32_id)
  have p1: "\<not> snd ?p1 \<and> fst ?p1 = fst ?p0 + h * w ! 1"
    by (rule add_term_in_range [OF p0(1)]; rule r) (use B p0 in linarith)+
  have p2: "\<not> snd ?p2 \<and> fst ?p2 = fst ?p1 + o' * w ! 2"
    by (rule add_term_in_range [OF conjunct1 [OF p1]]; rule r) (use B p0 p1 in linarith)+
  have p3: "\<not> snd ?p3 \<and> fst ?p3 = fst ?p2 + b * w ! 3"
    by (rule add_term_in_range [OF conjunct1 [OF p2]]; rule r) (use B p0 p1 p2 in linarith)+
  have "\<not> snd (add_term e (w ! 4) ?p3) \<and> fst (add_term e (w ! 4) ?p3) = fst ?p3 + e * w ! 4"
    by (rule add_term_in_range [OF conjunct1 [OF p3]]; rule r) (use B p0 p1 p2 p3 in linarith)+
  then show ?thesis by (simp add: combine_score_def)
qed

definition board_score :: "(nat \<Rightarrow> nat \<Rightarrow> int) \<Rightarrow> int \<Rightarrow> int list \<Rightarrow> int" where
  "board_score g n w = n * w ! 0 + (\<Sum>c<10. col_height g c) * w ! 1 +
     (\<Sum>c<10. int (card (covered g c))) * w ! 2 + bumpy (heights (grid_rows g)) * w ! 3 +
     wells (heights (grid_rows g)) * w ! 4"

text \<open>
  C21. The score is the weighted sum of the lines, the column heights, the covered empty cells,
  the bumpiness and the wells, computed without wrap-around: the operator returns that exact
  integer or raises \<open>NumericalOverflow\<close>, and it returns whenever the weights stay within a million.
\<close>

theorem tetrix_score_exact:
  assumes f: "field_at st a ra g" and w: "\<forall>i<5. fst (st (b + i)) = TInteger (w ! i)" "length w = 5"
  shows "tetrix_score_board_fast_op st (TArray a 20 rw) lines (TArray b 5 rw') \<in>
      {Value (board_score g lines w), Raise NumericalOverflow} \<and>
    ((\<forall>i<5. \<bar>w ! i\<bar> \<le> 1000000) \<and> 0 \<le> lines \<and> lines \<le> 200 \<longrightarrow>
      tetrix_score_board_fast_op st (TArray a 20 rw) lines (TArray b 5 rw') = Value (board_score g lines w))"
proof -
  let ?hs = "heights (grid_rows g)"
  let ?cs = "combine_score lines (h_sum ?hs) (holes (grid_rows g) ?hs) (bumpy ?hs) (wells ?hs) w"
  have "mapM (\<lambda>i. tetrix_cell_int (fst (st (b + i)))) [0..<5] = Value (map ((!) w) [0..<5])"
    by (rule mapM_Value) (use w in \<open>simp add: tetrix_cell_int_def\<close>)
  also have "map ((!) w) [0..<5] = w" using w(2) by (metis map_nth)
  finally have op: "tetrix_score_board_fast_op st (TArray a 20 rw) lines (TArray b 5 rw') =
      (if snd ?cs then Raise NumericalOverflow else Value (fst ?cs))"
    by (simp add: tetrix_score_board_fast_op_def tetrix_validate_field_def FIELD_ROWS_def
        read_cells_grid [OF f] Let_def split_beta del: mapM.simps)
  have "fst ?cs = board_score g lines w" if "\<not> snd ?cs"
    using combine_exact [OF that] by (simp add: board_score_def h_sum_grid holes_grid)
  moreover have "\<not> snd ?cs" if "\<forall>i<5. \<bar>w ! i\<bar> \<le> 1000000" "0 \<le> lines" "lines \<le> 200"
    using component_bounds [of g] by (intro combine_bounded that) auto
  ultimately show ?thesis using op by auto
qed

theorem tetrix_score_witness:
  "\<exists>s. tetrix_score_board_fast_op ((demo_store demo_grid)(50 := (TInteger 1, 0), 51 := (TInteger 2, 0),
      52 := (TInteger 3, 0), 53 := (TInteger 4, 0), 54 := (TInteger 5, 0))) (TArray 0 20 True) 4 (TArray 50 5 True) =
    Value s"
proof -
  let ?st = "(demo_store demo_grid)(50 := (TInteger 1, 0), 51 := (TInteger 2, 0), 52 := (TInteger 3, 0),
    53 := (TInteger 4, 0), 54 := (TInteger 5, 0))"
  have five: "i = 0 \<or> i = 1 \<or> i = 2 \<or> i = 3 \<or> i = 4" if "i < 5" for i :: nat using that by presburger
  have f: "field_at ?st 0 demo_rows demo_grid"
    using demo_field [of demo_grid] by (simp add: field_at_def demo_rows_def)
  have w: "\<forall>i<5. fst (?st (50 + i)) = TInteger ([1, 2, 3, 4, 5] ! i)" by (auto dest!: five)
  have b: "\<forall>i<5. \<bar>[1, 2, 3, 4, 5 :: int] ! i\<bar> \<le> 1000000" by (auto dest!: five)
  show ?thesis using tetrix_score_exact [OF f w, where lines = 4 and rw = True and rw' = True] b
    by (simp del: fun_upd_apply)
qed

end
