(* ===== verification/Host_Args.thy ===== *)
theory Host_Args
  imports Prelude
begin

text \<open>
  The argument preprocessing of the two host programs \<^verbatim>\<open>tetrix.cpp\<close> and \<^verbatim>\<open>chip8.cpp\<close>: before the
  interpreter's own option parser runs, the default script is inserted in front of the first
  argument that is meant for the script. The table of the interpreter's long options
  (\<^verbatim>\<open>src/api.inl\<close>) is here too, because the hosts keep a copy of it. Whether the default script
  exists is a parameter of the model.
\<close>

section \<open>Long options\<close>

text \<open>The options of \<^verbatim>\<open>parse_args\<close>, with whether they take a value (debugger build).\<close>

definition api_long_options :: "(string \<times> bool) list" where
  "api_long_options = [(''help'', False), (''version'', False), (''debug'', False), (''stdedit'', False),
     (''interactive'', False), (''image'', False), (''eval'', True), (''check'', False), (''stdin'', False),
     (''quiet'', False), (''no-banner'', False), (''sandbox'', False), (''resident'', False),
     (''about'', False), (''error-codes'', False), (''vm-size'', True), (''operand-depth'', True),
     (''exec-depth'', True), (''dict-depth'', True), (''error-depth'', True), (''scratch-depth'', True),
     (''save-depth'', True), (''stream-count'', True), (''stream-buffer'', True), (''stream-io'', True),
     (''name-buckets'', True), (''localdict-size'', True), (''globaldict-size'', True),
     (''eq-string'', True), (''eq-array'', True), (''eq-proc'', True), (''eq-dict'', True),
     (''eq-set'', True), (''quantum'', True), (''max-ops'', True), (''sleep-budget'', True),
     (''timeout'', True), (''no-stack-check'', False), (''module-path'', True), (''seed'', True),
     (''inspect'', False), (''inspect-on-error'', False), (''inspect-at'', True), (''no-color'', False),
     (''test-eqgen-preload'', True)]"

definition kTrixLongOptions :: "string list" where
  "kTrixLongOptions = [''--help'', ''--version'', ''--debug'', ''--stdedit'', ''--stdin'',
     ''--image'', ''--quiet'', ''--no-banner'', ''--sandbox'', ''--resident'',
     ''--about'', ''--vm-size'', ''--operand-depth'', ''--exec-depth'', ''--dict-depth'',
     ''--error-depth'', ''--save-depth'', ''--stream-count'', ''--stream-buffer'', ''--stream-io'',
     ''--name-buckets'', ''--localdict-size'', ''--eq-string'', ''--eq-array'', ''--eq-proc'',
     ''--eq-dict'', ''--quantum'', ''--max-ops'', ''--sleep-budget'', ''--test-eqgen-preload'',
     ''--interactive'', ''--scratch-depth'', ''--module-path'', ''--inspect'', ''--inspect-on-error'',
     ''--inspect-at'', ''--no-color'']"

definition kTrixBooleanLong :: "string list" where
  "kTrixBooleanLong = [''--help'', ''--version'', ''--debug'', ''--stdedit'', ''--stdin'', ''--image'',
     ''--quiet'', ''--no-banner'', ''--sandbox'', ''--resident'', ''--about'', ''--interactive'',
     ''--inspect'', ''--inspect-on-error'', ''--no-color'']"

definition is_trix_long_option :: "string \<Rightarrow> bool" where
  "is_trix_long_option arg =
     (\<exists>known\<in>set kTrixLongOptions.
        take (length known) arg = known \<and>
        (length arg = length known \<or> arg ! length known = CHR ''=''))"

text \<open>Whether the option's value is the next argument.\<close>

definition takes_next :: "string \<Rightarrow> bool" where
  "takes_next a \<longleftrightarrow> CHR ''='' \<notin> set a \<and> a \<notin> set kTrixBooleanLong"

definition starts_dash :: "string \<Rightarrow> bool" where
  "starts_dash a = (case a of c # _ \<Rightarrow> c = CHR ''-'' | [] \<Rightarrow> False)"

definition is_long :: "string \<Rightarrow> bool" where
  "is_long a \<longleftrightarrow> take 2 a = ''--''"

section \<open>The scans\<close>

datatype scan = Has_Script | Insert_At nat | No_Insertion

text \<open>\<open>i\<close> is the index of the first argument of the list.\<close>

fun tetrix_scan :: "nat \<Rightarrow> string list \<Rightarrow> scan" where
  "tetrix_scan i [] = No_Insertion"
| "tetrix_scan i (a # as) =
     (if \<not> starts_dash a \<or> a = ''--'' then Has_Script
      else if a = ''--help'' \<or> a = ''-h'' then Insert_At i
      else if \<not> is_long a then tetrix_scan (i + 1) as
      else if is_trix_long_option a then
        (if takes_next a then (case as of [] \<Rightarrow> No_Insertion | _ # as' \<Rightarrow> tetrix_scan (i + 2) as')
         else tetrix_scan (i + 1) as)
      else Insert_At i)"

text \<open>The part of a path from its last dot on.\<close>

definition from_last_dot :: "string \<Rightarrow> string option" where
  "from_last_dot a =
     (if CHR ''.'' \<in> set a then Some (CHR ''.'' # rev (takeWhile (\<lambda>c. c \<noteq> CHR ''.'') (rev a))) else None)"

fun chip8_scan :: "nat \<Rightarrow> string list \<Rightarrow> scan" where
  "chip8_scan i [] = No_Insertion"
| "chip8_scan i (a # as) =
     (if \<not> starts_dash a then (if from_last_dot a = Some ''.trx'' then Has_Script else Insert_At i)
      else if a = ''--'' then Has_Script
      else if a = ''--help'' \<or> a = ''-h'' then Insert_At i
      else if \<not> is_long a then chip8_scan (i + 1) as
      else if is_trix_long_option a then
        (if takes_next a then (case as of [] \<Rightarrow> No_Insertion | _ # as' \<Rightarrow> chip8_scan (i + 2) as')
         else chip8_scan (i + 1) as)
      else Insert_At i)"

definition rewrite_argv :: "string \<Rightarrow> bool \<Rightarrow> scan \<Rightarrow> string list \<Rightarrow> string list" where
  "rewrite_argv default_path script_exists r argv =
     (case r of
        Insert_At i \<Rightarrow> if script_exists then take i argv @ [default_path] @ drop i argv else argv
      | _ \<Rightarrow> argv)"

definition tetrix_path :: string where "tetrix_path = ''examples/tetrix.trx''"
definition chip8_path :: string where "chip8_path = ''examples/chip8.trx''"

definition tetrix_argv :: "bool \<Rightarrow> string list \<Rightarrow> string list" where
  "tetrix_argv script_exists argv =
     rewrite_argv tetrix_path script_exists (tetrix_scan 1 (drop 1 argv)) argv"

definition chip8_argv :: "bool \<Rightarrow> string list \<Rightarrow> string list" where
  "chip8_argv script_exists argv =
     rewrite_argv chip8_path script_exists (chip8_scan 1 (drop 1 argv)) argv"

section \<open>After option parsing\<close>

datatype startup_mode = Interactive | ScriptFile | OtherMode

record host_config =
  m_filename :: "string option"
  m_mode :: startup_mode
  m_stream_count :: nat

definition host_configure :: "string \<Rightarrow> bool \<Rightarrow> nat \<Rightarrow> host_config \<Rightarrow> host_config" where
  "host_configure default_path script_exists default_count cfg =
     (let cfg1 = (if m_stream_count cfg = default_count then cfg\<lparr>m_stream_count := 16\<rparr> else cfg)
      in if m_filename cfg1 = None \<and> m_mode cfg1 = Interactive \<and> script_exists
         then cfg1\<lparr>m_filename := Some default_path, m_mode := ScriptFile\<rparr> else cfg1)"

section \<open>Properties\<close>

text \<open>
  An argument list that the scan walks over completely: options of the interpreter, each followed
  by its value where it takes one.
\<close>

fun engine_only :: "string list \<Rightarrow> bool" where
  "engine_only [] = True"
| "engine_only (a # as) =
     (starts_dash a \<and> a \<noteq> ''--'' \<and> a \<noteq> ''--help'' \<and> a \<noteq> ''-h'' \<and>
      (if is_long a \<and> is_trix_long_option a \<and> takes_next a
       then (case as of [] \<Rightarrow> True | _ # as' \<Rightarrow> engine_only as')
       else (is_long a \<longrightarrow> is_trix_long_option a) \<and> engine_only as))"

definition script_flag :: "string \<Rightarrow> bool" where
  "script_flag a \<longleftrightarrow> a = ''--help'' \<or> a = ''-h'' \<or> (is_long a \<and> a \<noteq> ''--'' \<and> \<not> is_trix_long_option a)"

text \<open>What a scan from index \<open>i\<close> promises; \<open>stop\<close> tells which arguments end it with a script.\<close>

definition scan_ok :: "(string \<Rightarrow> bool) \<Rightarrow> (string \<Rightarrow> bool) \<Rightarrow> nat \<Rightarrow> string list \<Rightarrow> scan \<Rightarrow> bool" where
  "scan_ok stop ins i as r \<longleftrightarrow>
     (case r of
        No_Insertion \<Rightarrow> engine_only as
      | Has_Script \<Rightarrow> \<exists>pre a post. as = pre @ a # post \<and> engine_only pre \<and> stop a
      | Insert_At j \<Rightarrow> \<exists>pre a post. as = pre @ a # post \<and> j = i + length pre \<and> engine_only pre \<and> ins a)"

definition engine_flag :: "string \<Rightarrow> bool" where
  "engine_flag a \<longleftrightarrow> starts_dash a \<and> a \<noteq> ''--'' \<and> a \<noteq> ''--help'' \<and> a \<noteq> ''-h''"

lemma engine_only_one:
  "engine_flag a \<Longrightarrow> is_long a \<longrightarrow> is_trix_long_option a \<and> \<not> takes_next a \<Longrightarrow> engine_only pre \<Longrightarrow> engine_only (a # pre)"
  by (auto simp: engine_flag_def)

lemma engine_only_two:
  "engine_flag a \<Longrightarrow> is_long a \<Longrightarrow> is_trix_long_option a \<Longrightarrow> takes_next a \<Longrightarrow> engine_only pre \<Longrightarrow> engine_only (a # v # pre)"
  by (simp add: engine_flag_def)

declare engine_only.simps(2) [simp del]

lemma scan_ok_intros:
  "as = pre @ a # post \<Longrightarrow> engine_only pre \<Longrightarrow> stop a \<Longrightarrow> scan_ok stop ins i as Has_Script"
  "as = pre @ a # post \<Longrightarrow> engine_only pre \<Longrightarrow> ins a \<Longrightarrow> j = i + length pre \<Longrightarrow> scan_ok stop ins i as (Insert_At j)"
  unfolding scan_ok_def scan.case by blast+

lemma scan_ok_one:
  assumes a: "engine_flag a" "is_long a \<longrightarrow> is_trix_long_option a \<and> \<not> takes_next a"
    and s: "scan_ok stop ins (i + 1) as r"
  shows "scan_ok stop ins i (a # as) r"
proof (cases r)
  case Has_Script
  with s obtain pre b post where "as = pre @ b # post" "engine_only pre" "stop b" by (auto simp: scan_ok_def)
  then have "a # as = (a # pre) @ b # post" "engine_only (a # pre)" using engine_only_one [OF a] by auto
  then show ?thesis unfolding Has_Script using \<open>stop b\<close> by (rule scan_ok_intros(1))
next
  case (Insert_At j)
  with s obtain pre b post where "as = pre @ b # post" "engine_only pre" "ins b" "j = i + 1 + length pre"
    by (auto simp: scan_ok_def)
  then have "a # as = (a # pre) @ b # post" "engine_only (a # pre)" "j = i + length (a # pre)"
    using engine_only_one [OF a] by auto
  then show ?thesis unfolding Insert_At using \<open>ins b\<close> by (intro scan_ok_intros(2))
qed (use s engine_only_one [OF a] in \<open>simp add: scan_ok_def\<close>)

lemma scan_ok_two:
  assumes a: "engine_flag a" "is_long a" "is_trix_long_option a" "takes_next a"
    and s: "scan_ok stop ins (i + 2) as r"
  shows "scan_ok stop ins i (a # v # as) r"
proof (cases r)
  case Has_Script
  with s obtain pre b post where "as = pre @ b # post" "engine_only pre" "stop b" by (auto simp: scan_ok_def)
  then have "a # v # as = (a # v # pre) @ b # post" "engine_only (a # v # pre)"
    using engine_only_two [OF a] by auto
  then show ?thesis unfolding Has_Script using \<open>stop b\<close> by (rule scan_ok_intros(1))
next
  case (Insert_At j)
  with s obtain pre b post where "as = pre @ b # post" "engine_only pre" "ins b" "j = i + 2 + length pre"
    by (auto simp: scan_ok_def)
  then have "a # v # as = (a # v # pre) @ b # post" "engine_only (a # v # pre)" "j = i + length (a # v # pre)"
    using engine_only_two [OF a] by auto
  then show ?thesis unfolding Insert_At using \<open>ins b\<close> by (intro scan_ok_intros(2))
qed (use s engine_only_two [OF a] in \<open>simp add: scan_ok_def\<close>)

lemma scan_ok_here:
  "ins a \<Longrightarrow> scan_ok stop ins i (a # as) (Insert_At i)" "stop a \<Longrightarrow> scan_ok stop ins i (a # as) Has_Script"
  using scan_ok_intros(1,2) [of "a # as" "[]" a as] by simp_all

text \<open>
  The interface of a host's scan: it stops at an argument that names a script, inserts at one that
  is meant for the script, and walks over the options of the interpreter.
\<close>

locale host_scan =
  fixes scan :: "nat \<Rightarrow> string list \<Rightarrow> scan" and stop :: "string \<Rightarrow> bool" and ins :: "string \<Rightarrow> bool"
  assumes scan_nil: "scan i [] = No_Insertion"
    and scan_stop: "stop a \<Longrightarrow> scan i (a # as) = Has_Script"
    and scan_ins: "ins a \<Longrightarrow> \<not> stop a \<Longrightarrow> scan i (a # as) = Insert_At i"
    and scan_skip: "\<not> stop a \<Longrightarrow> \<not> ins a \<Longrightarrow> scan i (a # as) =
      (if is_long a \<and> takes_next a then (case as of [] \<Rightarrow> No_Insertion | _ # as' \<Rightarrow> scan (i + 2) as')
       else scan (i + 1) as)"
    and skip_flag: "\<not> stop a \<Longrightarrow> \<not> ins a \<Longrightarrow> engine_flag a \<and> (is_long a \<longrightarrow> is_trix_long_option a)"
begin

lemma scan_sound: "scan_ok stop ins i as (scan i as)"
proof (induction as arbitrary: i rule: length_induct)
  case (1 as)
  show ?case
  proof (cases as)
    case Nil
    then show ?thesis by (simp add: scan_nil scan_ok_def)
  next
    case (Cons a as')
    consider "stop a" | "ins a" "\<not> stop a" | "\<not> stop a" "\<not> ins a" by blast
    then show ?thesis
    proof cases
      case 1
      then show ?thesis using Cons by (simp add: scan_stop scan_ok_here(2))
    next
      case 2
      then show ?thesis using Cons by (simp add: scan_ins scan_ok_here(1))
    next
      case 3
      note f = skip_flag [OF 3]
      show ?thesis
      proof (cases "is_long a \<and> takes_next a")
        case True
        then show ?thesis
          using Cons f 1 scan_skip [OF 3] scan_ok_two [of a stop ins i _ "scan (i + 2) _"]
          by (cases as') (auto simp: scan_ok_def [of _ _ _ "[a]"] engine_only.simps engine_flag_def)
      next
        case False
        then show ?thesis
          using Cons f 1 scan_skip [OF 3] scan_ok_one [of a stop ins i as'] by auto
      qed
    qed
  qed
qed

lemma argv_rewritten:
  "(rewrite_argv path True (scan 1 as) (prog # as) = prog # as \<and>
      (engine_only as \<or> (\<exists>pre a post. as = pre @ a # post \<and> engine_only pre \<and> stop a))) \<or>
   (\<exists>pre a post. as = pre @ a # post \<and> engine_only pre \<and> ins a \<and>
      rewrite_argv path True (scan 1 as) (prog # as) = prog # pre @ path # a # post)"
proof (cases "scan 1 as")
  case (Insert_At j)
  then obtain pre a post where as: "as = pre @ a # post" "j = 1 + length pre" "engine_only pre" "ins a"
    using scan_sound [of 1 as] by (auto simp: scan_ok_def)
  then have "rewrite_argv path True (scan 1 as) (prog # as) = prog # pre @ path # a # post"
    using Insert_At by (simp add: rewrite_argv_def)
  then show ?thesis using as by blast
qed (use scan_sound [of 1 as] in \<open>auto simp: scan_ok_def rewrite_argv_def\<close>)

end

definition tetrix_stop :: "string \<Rightarrow> bool" where
  "tetrix_stop a \<longleftrightarrow> \<not> starts_dash a \<or> a = ''--''"

definition chip8_stop :: "string \<Rightarrow> bool" where
  "chip8_stop a \<longleftrightarrow> \<not> starts_dash a \<and> from_last_dot a = Some ''.trx'' \<or> a = ''--''"

definition chip8_ins :: "string \<Rightarrow> bool" where
  "chip8_ins a \<longleftrightarrow> script_flag a \<or> \<not> starts_dash a \<and> from_last_dot a \<noteq> Some ''.trx''"

lemma long_starts_dash: "is_long a \<Longrightarrow> starts_dash a"
  by (cases a) (auto simp: is_long_def starts_dash_def numeral_2_eq_2)

lemma help_dash: "starts_dash ''--help''" "starts_dash ''-h''" "starts_dash ''--''"
  by (simp_all add: starts_dash_def)

interpretation tetrix_host: host_scan tetrix_scan tetrix_stop script_flag
  by unfold_locales (auto simp: tetrix_stop_def script_flag_def engine_flag_def dest: long_starts_dash)

interpretation chip8_host: host_scan chip8_scan chip8_stop chip8_ins
  by unfold_locales
    (auto simp: chip8_stop_def chip8_ins_def script_flag_def engine_flag_def help_dash dest: long_starts_dash)

text \<open>
  The preprocessing of the tetrix host inserts the default script, at most once, directly in
  front of the first argument meant for the script, with nothing but options of the interpreter
  and their values before it; it leaves the command line alone when there is no such argument
  or when a script or \<open>--\<close> comes first.
\<close>

theorem tetrix_argv_insertion:
  "(tetrix_argv True (prog # as) = prog # as \<and>
      (engine_only as \<or> (\<exists>pre a post. as = pre @ a # post \<and> engine_only pre \<and> tetrix_stop a))) \<or>
   (\<exists>pre a post. as = pre @ a # post \<and> engine_only pre \<and> script_flag a \<and>
      tetrix_argv True (prog # as) = prog # pre @ tetrix_path # a # post)"
  unfolding tetrix_argv_def using tetrix_host.argv_rewritten [where path = tetrix_path] by simp

text \<open>
  The hosts' copy of the option table: every entry is an option of the interpreter, with the
  same arity, but eight options of the interpreter are missing from it and so are taken for
  script flags.
\<close>

theorem host_option_table:
  "set kTrixLongOptions \<subseteq> (\<lambda>(n, _). ''--'' @ n) ` set api_long_options \<and>
   (\<forall>(n, v)\<in>set api_long_options. ''--'' @ n \<in> set kTrixLongOptions \<longrightarrow>
      (v \<longleftrightarrow> ''--'' @ n \<notin> set kTrixBooleanLong)) \<and>
   filter (\<lambda>n. \<not> is_trix_long_option (''--'' @ n)) (map fst api_long_options) =
     [''eval'', ''check'', ''error-codes'', ''globaldict-size'', ''eq-set'', ''timeout'',
      ''no-stack-check'', ''seed'']"
  by code_simp

theorem host_option_table_witness: "''--'' @ ''vm-size'' \<notin> set kTrixBooleanLong"
  using host_option_table by (auto simp: api_long_options_def kTrixLongOptions_def)

text \<open>
  The value of the short option \<open>-e\<close> in an argument of its own is taken for the first positional
  argument: the chip8 host inserts its script between the option and the value.
\<close>

theorem chip8_eval_value_displaced:
  "chip8_scan 1 (''-e'' # code # as) = (if starts_dash code then chip8_scan 2 (code # as) else
     if from_last_dot code = Some ''.trx'' then Has_Script else Insert_At 2) \<and>
   chip8_argv True [''chip8'', ''-e'', ''1 2 add''] = [''chip8'', ''-e'', chip8_path, ''1 2 add'']"
  by (simp add: chip8_argv_def rewrite_argv_def starts_dash_def is_long_def from_last_dot_def
      numeral_2_eq_2 del: chip8_scan.simps)
    (simp add: starts_dash_def is_long_def from_last_dot_def numeral_2_eq_2)

end
