(* ===== verification/Actions.thy ===== *)
theory Actions
  imports Prelude
begin

text \<open>
  State-passing actions: an operation takes the state and returns an outcome and the state, also when it
  raises, because \<^verbatim>\<open>error()\<close> leaves what was done before.
\<close>

type_synonym ('s, 'a) action = "'s \<Rightarrow> 'a outcome \<times> 's"

definition ret :: "'a \<Rightarrow> ('s, 'a) action" where "ret x = (\<lambda>s. (Value x, s))"
definition raise :: "error \<Rightarrow> ('s, 'a) action" where "raise e = (\<lambda>s. (Raise e, s))"
definition modify :: "('s \<Rightarrow> 's) \<Rightarrow> ('s, unit) action" where "modify f = (\<lambda>s. (Value (), f s))"
definition gets :: "('s \<Rightarrow> 'a) \<Rightarrow> ('s, 'a) action" where "gets f = (\<lambda>s. (Value (f s), s))"

definition seq :: "('s, 'a) action \<Rightarrow> ('a \<Rightarrow> ('s, 'b) action) \<Rightarrow> ('s, 'b) action" where
  "seq m f = (\<lambda>s. case m s of (Value x, s1) \<Rightarrow> f x s1 | (Raise e, s1) \<Rightarrow> (Raise e, s1)
     | (Diverge, s1) \<Rightarrow> (Diverge, s1) | (Fault, s1) \<Rightarrow> (Fault, s1))"

lemma action_simps [simp]:
  "ret x s = (Value x, s)" "raise e s = (Raise e, s)" "modify f s = (Value (), f s)" "gets g s = (Value (g s), s)"
  by (simp_all add: ret_def raise_def modify_def gets_def)

lemma seq_Value [simp]: "m s = (Value x, s1) \<Longrightarrow> seq m f s = f x s1"
  by (simp add: seq_def)

lemma seq_Raise [simp]: "m s = (Raise e, s1) \<Longrightarrow> seq m f s = (Raise e, s1)"
  by (simp add: seq_def)

end
