(* ===== verification/Objects.thy ===== *)
theory Objects
  imports Prelude
begin

text \<open>
  The object representation of \<^verbatim>\<open>src/object.inl\<close>: the type tags with their names, the attribute
  table that drives the interpreter, the eight-byte object, and the conversions of integer objects
  to 32-bit values. An object's attribute byte is split into its fields; the value word, a union in
  the source, appears as an immediate value and an offset.
\<close>

section \<open>Types\<close>

datatype (plugins only: code) otype =
    TNull | TByte | TInteger | TUInteger | TLong | TULong
  | TAddress | TReal | TDouble | TBoolean | TOperator | TMark
  | TName | TArray | TPacked | TString | TStream | TDict
  | TSourceLoc | TCurry | TThunk | TSet | TTagged | TRecord
  | TCoroutine | TPipeBuffer | TCell | TContinuation | TInt128 | TUInt128
  | TOpaqueHandle | TSlotRef

text \<open>The five-bit code of a type is its position in the enumeration.\<close>

definition all_types :: "otype list" where
  "all_types = [TNull, TByte, TInteger, TUInteger, TLong, TULong, TAddress, TReal,
     TDouble, TBoolean, TOperator, TMark, TName, TArray, TPacked, TString,
     TStream, TDict, TSourceLoc, TCurry, TThunk, TSet, TTagged, TRecord,
     TCoroutine, TPipeBuffer, TCell, TContinuation, TInt128, TUInt128, TOpaqueHandle, TSlotRef]"

primrec type_code :: "otype \<Rightarrow> nat" where
  "type_code TNull = 0"
| "type_code TByte = 1"
| "type_code TInteger = 2"
| "type_code TUInteger = 3"
| "type_code TLong = 4"
| "type_code TULong = 5"
| "type_code TAddress = 6"
| "type_code TReal = 7"
| "type_code TDouble = 8"
| "type_code TBoolean = 9"
| "type_code TOperator = 10"
| "type_code TMark = 11"
| "type_code TName = 12"
| "type_code TArray = 13"
| "type_code TPacked = 14"
| "type_code TString = 15"
| "type_code TStream = 16"
| "type_code TDict = 17"
| "type_code TSourceLoc = 18"
| "type_code TCurry = 19"
| "type_code TThunk = 20"
| "type_code TSet = 21"
| "type_code TTagged = 22"
| "type_code TRecord = 23"
| "type_code TCoroutine = 24"
| "type_code TPipeBuffer = 25"
| "type_code TCell = 26"
| "type_code TContinuation = 27"
| "type_code TInt128 = 28"
| "type_code TUInt128 = 29"
| "type_code TOpaqueHandle = 30"
| "type_code TSlotRef = 31"

primrec type_sv :: "otype \<Rightarrow> string" where
  "type_sv TNull = ''null-type''"
| "type_sv TByte = ''byte-type''"
| "type_sv TInteger = ''integer-type''"
| "type_sv TUInteger = ''uinteger-type''"
| "type_sv TLong = ''long-type''"
| "type_sv TULong = ''ulong-type''"
| "type_sv TAddress = ''address-type''"
| "type_sv TReal = ''real-type''"
| "type_sv TDouble = ''double-type''"
| "type_sv TBoolean = ''boolean-type''"
| "type_sv TOperator = ''operator-type''"
| "type_sv TMark = ''mark-type''"
| "type_sv TName = ''name-type''"
| "type_sv TArray = ''array-type''"
| "type_sv TPacked = ''packed-type''"
| "type_sv TString = ''string-type''"
| "type_sv TStream = ''stream-type''"
| "type_sv TDict = ''dict-type''"
| "type_sv TSourceLoc = ''sourceloc-type''"
| "type_sv TCurry = ''curry-type''"
| "type_sv TThunk = ''thunk-type''"
| "type_sv TSet = ''set-type''"
| "type_sv TTagged = ''tagged-type''"
| "type_sv TRecord = ''record-type''"
| "type_sv TCoroutine = ''coroutine-type''"
| "type_sv TPipeBuffer = ''pipebuffer-type''"
| "type_sv TCell = ''cell-type''"
| "type_sv TContinuation = ''continuation-type''"
| "type_sv TInt128 = ''int128-type''"
| "type_sv TUInt128 = ''uint128-type''"
| "type_sv TOpaqueHandle = ''opaque-handle-type''"
| "type_sv TSlotRef = ''slotref-type''"

section \<open>Attributes\<close>

datatype (plugins only: code) attr =
    PushOpDirect | IgnoresExecute | HasObjectAccess | HasValueAccess | HasObjectLength
  | HasValueLength | UsesVM | UsesExtValue | IsSignedIntegral | IsUnsignedIntegral
  | IsFloatingPoint | IsSequence | IsCallable | IsDeepeq | IsPersistable | NeedsExecSlot

text \<open>
  The rows of the table; the row of opaque handles is taken by their kind, of which there is one
  (the screen), so that row stands for both.
\<close>

primrec sm_object_attrib :: "otype \<Rightarrow> attr list" where
  "sm_object_attrib TNull = [IsPersistable]"
| "sm_object_attrib TByte = [PushOpDirect, IgnoresExecute, IsUnsignedIntegral, IsPersistable]"
| "sm_object_attrib TInteger = [PushOpDirect, IgnoresExecute, IsSignedIntegral, IsPersistable]"
| "sm_object_attrib TUInteger = [PushOpDirect, IgnoresExecute, IsUnsignedIntegral, IsPersistable]"
| "sm_object_attrib TLong = [PushOpDirect, IgnoresExecute, UsesVM, UsesExtValue, IsSignedIntegral, IsPersistable]"
| "sm_object_attrib TULong = [PushOpDirect, IgnoresExecute, UsesVM, UsesExtValue, IsUnsignedIntegral, IsPersistable]"
| "sm_object_attrib TAddress = [PushOpDirect, IgnoresExecute, UsesVM, UsesExtValue, IsPersistable]"
| "sm_object_attrib TReal = [PushOpDirect, IgnoresExecute, IsFloatingPoint, IsPersistable]"
| "sm_object_attrib TDouble = [PushOpDirect, IgnoresExecute, UsesVM, UsesExtValue, IsFloatingPoint, IsPersistable]"
| "sm_object_attrib TBoolean = [PushOpDirect, IgnoresExecute, IsPersistable]"
| "sm_object_attrib TOperator = [IsPersistable]"
| "sm_object_attrib TMark = [PushOpDirect, IgnoresExecute, IsPersistable]"
| "sm_object_attrib TName = [HasObjectLength, UsesVM, IsPersistable, NeedsExecSlot]"
| "sm_object_attrib TArray = [PushOpDirect, HasObjectAccess, HasObjectLength, UsesVM, IsSequence, IsCallable, IsDeepeq]"
| "sm_object_attrib TPacked = [PushOpDirect, HasObjectAccess, HasObjectLength, UsesVM, IsSequence, IsCallable, IsDeepeq]"
| "sm_object_attrib TString = [HasObjectAccess, HasObjectLength, UsesVM, NeedsExecSlot]"
| "sm_object_attrib TStream = [HasObjectAccess, UsesVM, NeedsExecSlot]"
| "sm_object_attrib TDict = [PushOpDirect, IgnoresExecute, HasValueAccess, HasValueLength, UsesVM, IsDeepeq]"
| "sm_object_attrib TSourceLoc = [IgnoresExecute, IsPersistable]"
| "sm_object_attrib TCurry = [PushOpDirect, UsesVM, IsCallable, IsDeepeq]"
| "sm_object_attrib TThunk = [PushOpDirect, UsesVM, IsDeepeq]"
| "sm_object_attrib TSet = [PushOpDirect, IgnoresExecute, HasValueAccess, HasValueLength, UsesVM, IsDeepeq]"
| "sm_object_attrib TTagged = [PushOpDirect, IgnoresExecute, UsesVM, IsDeepeq]"
| "sm_object_attrib TRecord = [PushOpDirect, IgnoresExecute, HasObjectLength, UsesVM, IsDeepeq]"
| "sm_object_attrib TCoroutine = [PushOpDirect, IgnoresExecute, UsesVM]"
| "sm_object_attrib TPipeBuffer = [PushOpDirect, IgnoresExecute, UsesVM]"
| "sm_object_attrib TCell = [PushOpDirect, IgnoresExecute, UsesVM]"
| "sm_object_attrib TContinuation = [PushOpDirect, UsesVM, IsCallable]"
| "sm_object_attrib TInt128 = [PushOpDirect, IgnoresExecute, UsesVM, IsSignedIntegral, IsPersistable]"
| "sm_object_attrib TUInt128 = [PushOpDirect, IgnoresExecute, UsesVM, IsUnsignedIntegral, IsPersistable]"
| "sm_object_attrib TOpaqueHandle = [PushOpDirect, IgnoresExecute, UsesVM]"
| "sm_object_attrib TSlotRef = []"

section \<open>Objects\<close>

record object =
  o_type :: otype
  o_executable :: bool
  o_readwrite :: bool
  o_special :: bool
  m_object_save_level :: nat
  m_extvalue_save_level :: nat
  m_length :: nat
  m_immediate :: int
  m_offset :: nat

definition has_attr :: "attr \<Rightarrow> object \<Rightarrow> bool" where
  "has_attr a ob \<longleftrightarrow> a \<in> set (sm_object_attrib (o_type ob))"

definition ignores_execute :: "object \<Rightarrow> bool" where "ignores_execute ob \<longleftrightarrow> has_attr IgnoresExecute ob"
definition has_object_access :: "object \<Rightarrow> bool" where "has_object_access ob \<longleftrightarrow> has_attr HasObjectAccess ob"
definition uses_vm :: "object \<Rightarrow> bool" where "uses_vm ob \<longleftrightarrow> has_attr UsesVM ob"
definition uses_extvalue :: "object \<Rightarrow> bool" where "uses_extvalue ob \<longleftrightarrow> has_attr UsesExtValue ob"
definition pushop_direct :: "object \<Rightarrow> bool" where "pushop_direct ob \<longleftrightarrow> has_attr PushOpDirect ob"
definition needs_exec_slot :: "object \<Rightarrow> bool" where "needs_exec_slot ob \<longleftrightarrow> has_attr NeedsExecSlot ob"
definition is_floating_point :: "object \<Rightarrow> bool" where
  "is_floating_point ob \<longleftrightarrow> has_attr IsFloatingPoint ob"
definition is_signed_number :: "object \<Rightarrow> bool" where
  "is_signed_number ob \<longleftrightarrow> has_attr IsSignedIntegral ob \<or> has_attr IsFloatingPoint ob"
definition is_integral :: "object \<Rightarrow> bool" where
  "is_integral ob \<longleftrightarrow> has_attr IsSignedIntegral ob \<or> has_attr IsUnsignedIntegral ob"
definition is_number :: "object \<Rightarrow> bool" where
  "is_number ob \<longleftrightarrow> is_integral ob \<or> is_floating_point ob"
definition is_persistable :: "object \<Rightarrow> bool" where
  "is_persistable ob \<longleftrightarrow> has_attr IsPersistable ob"

definition uses_widevalue :: "object \<Rightarrow> bool" where
  "uses_widevalue ob \<longleftrightarrow> o_type ob = TInt128 \<or> o_type ob = TUInt128"

definition uses_heap_cell :: "object \<Rightarrow> bool" where
  "uses_heap_cell ob \<longleftrightarrow> uses_extvalue ob \<or> uses_widevalue ob"

definition offset_can_advance :: "object \<Rightarrow> bool" where
  "offset_can_advance ob \<longleftrightarrow> o_type ob \<in> {TPacked, TArray, TString}"

text \<open>The constructors of immediate objects that the stack operators use.\<close>

definition make_object :: "otype \<Rightarrow> int \<Rightarrow> object" where
  "make_object t v = \<lparr>o_type = t, o_executable = False, o_readwrite = False, o_special = False,
     m_object_save_level = 0, m_extvalue_save_level = 0, m_length = 0, m_immediate = v, m_offset = 0\<rparr>"

definition make_integer :: "int \<Rightarrow> object" where "make_integer v = make_object TInteger v"
definition make_mark :: object where "make_mark = make_object TMark 0"
definition make_null :: object where "make_null = make_object TNull 0"

definition make_boolean :: "bool \<Rightarrow> object" where "make_boolean b = make_object TBoolean (if b then 1 else 0)"

definition boolean_value :: "object \<Rightarrow> bool" where "boolean_value ob \<longleftrightarrow> m_immediate ob \<noteq> 0"

definition make_uinteger :: "int \<Rightarrow> object" where "make_uinteger v = make_object TUInteger v"

definition make_copy :: "nat \<Rightarrow> object \<Rightarrow> object" where
  "make_copy save_level ob = ob\<lparr>m_object_save_level := save_level\<rparr>"

text \<open>
  The two conversions to 32 bits: \<open>v\<close> is the number the object holds. The flag tells whether it is
  in range; the value is clamped to the 32-bit range.
\<close>

definition clamp :: "int \<Rightarrow> int \<Rightarrow> int \<Rightarrow> int" where
  "clamp lo hi v = (if v < lo then lo else if hi < v then hi else v)"

definition integer_value :: "object \<Rightarrow> int \<Rightarrow> int \<Rightarrow> int \<Rightarrow> bool \<times> int" where
  "integer_value ob v lower upper =
     (let valid = (is_integral ob \<and> in_int32 v);
          x = (if is_integral ob then clamp int32_min int32_max v else 0)
      in (valid \<and> lower \<le> x \<and> x \<le> upper, x))"

definition uinteger_value :: "object \<Rightarrow> int \<Rightarrow> int \<Rightarrow> int \<Rightarrow> bool \<times> int" where
  "uinteger_value ob v lower upper =
     (let valid = (is_integral ob \<and> 0 \<le> v \<and> v \<le> 2 ^ 32 - 1);
          x = (if is_integral ob then clamp 0 (2 ^ 32 - 1) v else 0)
      in (valid \<and> lower \<le> x \<and> x \<le> upper, x))"

section \<open>Facts about the tables\<close>

lemma type_code_nth: "type_code t < 32 \<and> all_types ! type_code t = t"
  by (cases t) (simp_all add: all_types_def)

lemma type_code_inj: "type_code t = type_code u \<longleftrightarrow> t = u"
  using type_code_nth by metis

lemma uses_extvalue_iff: "uses_extvalue ob \<longleftrightarrow> o_type ob \<in> {TLong, TULong, TAddress, TDouble}"
  by (cases "o_type ob") (simp_all add: uses_extvalue_def has_attr_def)

lemma is_integral_iff:
  "is_integral ob \<longleftrightarrow> o_type ob \<in> {TByte, TInteger, TUInteger, TLong, TULong, TInt128, TUInt128}"
  by (cases "o_type ob") (simp_all add: is_integral_def has_attr_def)

lemma ext_wide_disjoint: "\<not> (uses_extvalue ob \<and> uses_widevalue ob)"
  by (auto simp: uses_extvalue_iff uses_widevalue_def)

lemma integer_value_valid:
  "integer_value ob v lower upper = (True, x) \<Longrightarrow> x = v \<and> lower \<le> v \<and> v \<le> upper"
  by (auto simp: integer_value_def clamp_def in_int32_def Let_def split: if_splits)

end
