(* ===== verification/Cells.thy ===== *)
theory Cells
  imports Objects Vm_Heap
begin

text \<open>
  The heap cells that hold wide numbers (\<^verbatim>\<open>Object::ExtValue\<close> and \<^verbatim>\<open>Object::WideValue\<close> of
  \<^verbatim>\<open>src/object.inl\<close>): 8-byte cells for Long, ULong, Address and Double, 16-byte cells for the
  128-bit integers. Freed cells are kept in one free list per save level, threaded through the first
  four bytes of the cell; the other 32-bit lanes of a free cell hold its own offset exclusive-or'd
  with a magic number, which is how a freed cell is told from a live one.

  The two classes have the same structure and differ in size and in the number of lanes; they are
  one model over a class descriptor. A cell is its list of 32-bit lanes. The routines return the
  pool and the heap also when they raise.
\<close>

section \<open>State\<close>

record cell_class =
  cc_bytes :: nat
  cc_magics :: "u32 list"

definition ext_class :: cell_class where
  "ext_class = \<lparr>cc_bytes = 8, cc_magics = [0xDEADBEEF]\<rparr>"

definition wide_class :: cell_class where
  "wide_class = \<lparr>cc_bytes = 16, cc_magics = [0xDEADBEEF, 0xCAFEBABE, 0xFEEDFACE]\<rparr>"

record pool =
  p_mem :: "nat \<Rightarrow> u32 list"
  p_free :: "nat \<Rightarrow> nat"
  p_active :: int

definition dead_mark :: "cell_class \<Rightarrow> nat \<Rightarrow> u32 list" where
  "dead_mark cls off = map (\<lambda>m. word_of_nat off XOR m) (cc_magics cls)"

definition cell_next :: "pool \<Rightarrow> nat \<Rightarrow> nat" where
  "cell_next p off = unat (hd (p_mem p off))"

definition cell_dead :: "cell_class \<Rightarrow> pool \<Rightarrow> nat \<Rightarrow> bool" where
  "cell_dead cls p off \<longleftrightarrow> tl (p_mem p off) = dead_mark cls off"

definition cell_valid :: "cell_class \<Rightarrow> pool \<Rightarrow> 'a vm_heap_scheme \<Rightarrow> nat \<Rightarrow> bool" where
  "cell_valid cls p h target \<longleftrightarrow> valid_offset h (cc_bytes cls) 8 target \<and> \<not> cell_dead cls p target"

section \<open>Allocation and release\<close>

definition cell_alloc_local ::
  "cell_class \<Rightarrow> nat \<Rightarrow> pool \<Rightarrow> 'a vm_heap_scheme \<Rightarrow> nat outcome \<times> pool \<times> 'a vm_heap_scheme" where
  "cell_alloc_local cls curr_save_level p h =
     (let offset = p_free p curr_save_level
      in if offset \<noteq> nulloffset
         then (case offset_to_ptr h offset of
                 Value _ \<Rightarrow>
                   (Value offset,
                    p\<lparr>p_free := (p_free p)(curr_save_level := cell_next p offset),
                      p_mem := (p_mem p)(offset := hd (p_mem p offset) # map (\<lambda>_. 0) (cc_magics cls)),
                      p_active := p_active p + 1\<rparr>, h)
               | Raise e \<Rightarrow> (Raise e, p, h) | Diverge \<Rightarrow> (Diverge, p, h) | Fault \<Rightarrow> (Fault, p, h))
         else let p1 = p\<lparr>p_active := p_active p + 1\<rparr>
              in (case vm_alloc_ptr h 8 (cc_bytes cls) of
                    Value (off, h1) \<Rightarrow> (Value off, p1, h1)
                  | Raise e \<Rightarrow> (Raise e, p1, h) | Diverge \<Rightarrow> (Diverge, p1, h) | Fault \<Rightarrow> (Fault, p1, h)))"

definition cell_free_local ::
  "cell_class \<Rightarrow> nat \<Rightarrow> nat \<Rightarrow> nat \<Rightarrow> pool \<Rightarrow> 'a vm_heap_scheme \<Rightarrow> unit outcome \<times> pool" where
  "cell_free_local cls curr_save_level offset save_level p h =
     (if \<not> cell_valid cls p h offset then (Raise InternalError, p)
      else if save_level > curr_save_level then (Raise RangeCheck, p)
      else (Value (),
            p\<lparr>p_mem := (p_mem p)(offset := word_of_nat (p_free p save_level) # dead_mark cls offset),
              p_free := (p_free p)(save_level := offset),
              p_active := p_active p - 1\<rparr>))"

text \<open>Writing a value into a cell.\<close>

definition cell_write :: "nat \<Rightarrow> u32 list \<Rightarrow> pool \<Rightarrow> pool" where
  "cell_write off lanes p = p\<lparr>p_mem := (p_mem p)(off := lanes)\<rparr>"

section \<open>Validation of the free lists\<close>

partial_function (option) validate_walk ::
  "cell_class \<Rightarrow> pool \<Rightarrow> 'a vm_heap_scheme \<Rightarrow> nat \<Rightarrow> nat \<Rightarrow> bool \<Rightarrow> bool option" where
  "validate_walk cls p h slow fast advance_slow =
     (if fast = nulloffset then Some True
      else if \<not> valid_active_offset h (cc_bytes cls) 8 fast then Some False
      else if \<not> cell_dead cls p fast then Some False
      else let fast1 = cell_next p fast
           in if advance_slow
              then let slow1 = cell_next p slow
                   in if slow1 = fast1 then Some False
                      else validate_walk cls p h slow1 fast1 (\<not> advance_slow)
              else validate_walk cls p h slow fast1 (\<not> advance_slow))"

fun validate_levels :: "cell_class \<Rightarrow> pool \<Rightarrow> 'a vm_heap_scheme \<Rightarrow> nat list \<Rightarrow> bool option" where
  "validate_levels cls p h [] = Some (p_active p \<ge> 0)"
| "validate_levels cls p h (lvl # lvls) =
     (case validate_walk cls p h (p_free p lvl) (p_free p lvl) False of
        None \<Rightarrow> None
      | Some ok \<Rightarrow> if ok then validate_levels cls p h lvls else Some False)"

definition validate_free_lists :: "cell_class \<Rightarrow> nat \<Rightarrow> pool \<Rightarrow> 'a vm_heap_scheme \<Rightarrow> bool option" where
  "validate_free_lists cls curr_save_level p h = validate_levels cls p h [0..<Suc curr_save_level]"

text \<open>The two classes under their own names.\<close>

definition ExtValue_valid :: "pool \<Rightarrow> 'a vm_heap_scheme \<Rightarrow> nat \<Rightarrow> bool" where
  "ExtValue_valid = cell_valid ext_class"

definition WideValue_valid :: "pool \<Rightarrow> 'a vm_heap_scheme \<Rightarrow> nat \<Rightarrow> bool" where
  "WideValue_valid = cell_valid wide_class"

definition WideValue_alloc_local :: "nat \<Rightarrow> pool \<Rightarrow> 'a vm_heap_scheme \<Rightarrow> nat outcome \<times> pool \<times> 'a vm_heap_scheme" where
  "WideValue_alloc_local = cell_alloc_local wide_class"

definition WideValue_free_local :: "nat \<Rightarrow> nat \<Rightarrow> nat \<Rightarrow> pool \<Rightarrow> 'a vm_heap_scheme \<Rightarrow> unit outcome \<times> pool" where
  "WideValue_free_local = cell_free_local wide_class"

definition WideValue_validate_free_lists :: "nat \<Rightarrow> pool \<Rightarrow> 'a vm_heap_scheme \<Rightarrow> bool option" where
  "WideValue_validate_free_lists = validate_free_lists wide_class"

section \<open>The pool invariant\<close>

text \<open>A free list from a head offset.\<close>

fun cell_chain :: "pool \<Rightarrow> nat \<Rightarrow> nat list \<Rightarrow> bool" where
  "cell_chain p off [] \<longleftrightarrow> off = nulloffset"
| "cell_chain p off (x # xs) \<longleftrightarrow> off = x \<and> x \<noteq> nulloffset \<and> cell_chain p (cell_next p x) xs"

text \<open>
  \<open>fl\<close> gives the free list of every level up to the current one and \<open>live\<close> the cells in use. All of
  them lie below the heap pointer, whose region is smaller than the 32-bit address space; the
  free cells carry their mark, no cell is on two lists or both free and live, and the
  active count is the number of live cells.
\<close>

definition pool_inv :: "cell_class \<Rightarrow> nat \<Rightarrow> 'a vm_heap_scheme \<Rightarrow> pool \<Rightarrow> (nat \<Rightarrow> nat list) \<Rightarrow> nat set \<Rightarrow> bool" where
  "pool_inv cls L h p fl live \<longleftrightarrow>
     0 < m_vm_ptr h \<and> m_vm_ptr h \<le> m_vm_temp_ptr h \<and> m_vm_temp_ptr h \<le> m_vm_limit h \<and> m_vm_limit h < 2 ^ 32 \<and>
     (\<forall>lvl\<le>L. cell_chain p (p_free p lvl) (fl lvl)) \<and>
     (\<forall>lvl\<le>L. distinct (fl lvl)) \<and>
     (\<forall>lvl\<le>L. \<forall>lvl'\<le>L. \<forall>x\<in>set (fl lvl). x \<in> set (fl lvl') \<longrightarrow> lvl = lvl') \<and>
     (\<forall>lvl\<le>L. \<forall>off\<in>set (fl lvl). cell_dead cls p off \<and> off \<notin> live) \<and>
     (\<forall>off lvl. off \<in> live \<or> lvl \<le> L \<and> off \<in> set (fl lvl) \<longrightarrow> off \<noteq> 0 \<and> 8 dvd off \<and> off + cc_bytes cls \<le> m_vm_ptr h) \<and>
     finite live \<and> p_active p = int (card live)"

lemma cell_chain_cong:
  "(\<And>x. x \<in> set xs \<Longrightarrow> p_mem q x = p_mem p x) \<Longrightarrow> cell_chain q off xs = cell_chain p off xs"
  by (induction xs arbitrary: off) (auto simp: cell_next_def)

lemma dead_mark_length: "length (dead_mark cls off) = length (cc_magics cls)"
  by (simp add: dead_mark_def)

lemma cell_chain_Cons_free: "cell_chain p off xs \<Longrightarrow> off \<noteq> nulloffset \<Longrightarrow> \<exists>ys. xs = off # ys \<and> cell_chain p (cell_next p off) ys"
  by (cases xs) auto

text \<open>The conjuncts of the invariant, one by one.\<close>

lemma pool_inv_heap:
  "pool_inv cls L h p fl live \<Longrightarrow>
     0 < m_vm_ptr h \<and> m_vm_ptr h \<le> m_vm_temp_ptr h \<and> m_vm_temp_ptr h \<le> m_vm_limit h \<and> m_vm_limit h < 2 ^ 32"
  by (simp add: pool_inv_def)

lemma pool_inv_chain: "pool_inv cls L h p fl live \<Longrightarrow> lvl \<le> L \<Longrightarrow> cell_chain p (p_free p lvl) (fl lvl)"
  by (simp add: pool_inv_def)

lemma pool_inv_distinct: "pool_inv cls L h p fl live \<Longrightarrow> lvl \<le> L \<Longrightarrow> distinct (fl lvl)"
  by (simp add: pool_inv_def)

lemma pool_inv_disjoint:
  assumes "pool_inv cls L h p fl live" "lvl \<le> L" "lvl' \<le> L" "x \<in> set (fl lvl)" "x \<in> set (fl lvl')"
  shows "lvl = lvl'"
proof -
  have "\<forall>lvl\<le>L. \<forall>lvl'\<le>L. \<forall>x\<in>set (fl lvl). x \<in> set (fl lvl') \<longrightarrow> lvl = lvl'"
    using assms(1) unfolding pool_inv_def by (elim conjE) assumption
  then show ?thesis using assms(2-5) by blast
qed

lemma pool_inv_dead:
  "pool_inv cls L h p fl live \<Longrightarrow> lvl \<le> L \<Longrightarrow> off \<in> set (fl lvl) \<Longrightarrow> cell_dead cls p off \<and> off \<notin> live"
  by (simp add: pool_inv_def)

lemma pool_inv_cell:
  assumes "pool_inv cls L h p fl live" "off \<in> live \<or> lvl \<le> L \<and> off \<in> set (fl lvl)"
  shows "off \<noteq> 0 \<and> 8 dvd off \<and> off + cc_bytes cls \<le> m_vm_ptr h"
proof -
  have "\<forall>off lvl. off \<in> live \<or> lvl \<le> L \<and> off \<in> set (fl lvl) \<longrightarrow>
      off \<noteq> 0 \<and> 8 dvd off \<and> off + cc_bytes cls \<le> m_vm_ptr h"
    using assms(1) unfolding pool_inv_def by (elim conjE) assumption
  then show ?thesis using assms(2) by blast
qed

lemma pool_inv_count: "pool_inv cls L h p fl live \<Longrightarrow> finite live \<and> p_active p = int (card live)"
  by (simp add: pool_inv_def)

lemma pool_invI:
  assumes "0 < m_vm_ptr h \<and> m_vm_ptr h \<le> m_vm_temp_ptr h \<and> m_vm_temp_ptr h \<le> m_vm_limit h \<and> m_vm_limit h < 2 ^ 32"
    "\<And>lvl. lvl \<le> L \<Longrightarrow> cell_chain p (p_free p lvl) (fl lvl)" "\<And>lvl. lvl \<le> L \<Longrightarrow> distinct (fl lvl)"
    "\<And>lvl lvl' x. lvl \<le> L \<Longrightarrow> lvl' \<le> L \<Longrightarrow> x \<in> set (fl lvl) \<Longrightarrow> x \<in> set (fl lvl') \<Longrightarrow> lvl = lvl'"
    "\<And>lvl off. lvl \<le> L \<Longrightarrow> off \<in> set (fl lvl) \<Longrightarrow> cell_dead cls p off \<and> off \<notin> live"
    "\<And>off lvl. off \<in> live \<or> lvl \<le> L \<and> off \<in> set (fl lvl) \<Longrightarrow> off \<noteq> 0 \<and> 8 dvd off \<and> off + cc_bytes cls \<le> m_vm_ptr h"
    "finite live \<and> p_active p = int (card live)"
  shows "pool_inv cls L h p fl live"
  unfolding pool_inv_def using assms by (intro conjI allI impI ballI) simp_all

lemma pool_inv_heads:
  assumes inv: "pool_inv cls L h p fl live" "lvl \<le> L"
  shows "p_free p lvl < 2 ^ 32"
proof (cases "fl lvl")
  case Nil
  then show ?thesis using pool_inv_chain [OF inv] by (simp add: nulloffset_def)
next
  case (Cons x xs)
  then have "p_free p lvl = x" using pool_inv_chain [OF inv] by simp
  moreover have "x + cc_bytes cls \<le> m_vm_ptr h" using pool_inv_cell [OF inv(1), of x lvl] inv(2) Cons by simp
  ultimately show ?thesis using pool_inv_heap [OF inv(1)] by linarith
qed

section \<open>Allocation keeps the invariant\<close>

lemma cell_alloc_reuse:
  assumes inv: "pool_inv cls L h p fl live" and off: "p_free p L = off" "off \<noteq> 0" and sz: "0 < cc_bytes cls"
  shows "\<exists>p'. cell_alloc_local cls L p h = (Value off, p', h) \<and> off \<notin> live \<and>
    pool_inv cls L h p' (fl(L := tl (fl L))) (insert off live) \<and> (\<forall>x. x \<noteq> off \<longrightarrow> p_mem p' x = p_mem p x)"
proof -
  let ?p = "p\<lparr>p_free := (p_free p)(L := cell_next p off),
      p_mem := (p_mem p)(off := hd (p_mem p off) # map (\<lambda>_. 0) (cc_magics cls)), p_active := p_active p + 1\<rparr>"
  let ?fl = "fl(L := tl (fl L))"
  have "cell_chain p off (fl L)" using pool_inv_chain [OF inv, of L] off(1) by simp
  then obtain ys where ys: "fl L = off # ys" "cell_chain p (cell_next p off) ys"
    using cell_chain_Cons_free off(2) unfolding nulloffset_def by blast
  have offL: "off \<in> set (fl L)" "off \<notin> set ys" "distinct ys" using pool_inv_distinct [OF inv, of L] ys(1) by auto
  note cell = pool_inv_cell [OF inv, of off L] and dead = pool_inv_dead [OF inv, of L off] and heap = pool_inv_heap [OF inv]
  have notin: "off \<notin> set (?fl lvl)" if "lvl \<le> L" for lvl
    using pool_inv_disjoint [OF inv that, of L off] offL ys(1) by (cases "lvl = L") auto
  have sub: "x \<in> set (fl lvl)" if "x \<in> set (?fl lvl)" for x lvl using that ys(1) by (cases "lvl = L") auto
  have "cell_alloc_local cls L p h = (Value off, ?p, h)"
    using off cell offL(1) heap sz by (simp add: cell_alloc_local_def nulloffset_def offset_to_ptr_def Let_def)
  moreover have "pool_inv cls L h ?p ?fl (insert off live)"
  proof (rule pool_invI)
    show "cell_chain ?p (p_free ?p lvl) (?fl lvl)" if "lvl \<le> L" for lvl
    proof -
      have "cell_chain ?p (p_free ?p lvl) (?fl lvl) = cell_chain p (p_free ?p lvl) (?fl lvl)"
        using notin [OF that] by (intro cell_chain_cong) auto
      then show ?thesis using pool_inv_chain [OF inv that] ys by (cases "lvl = L") auto
    qed
    show "distinct (?fl lvl)" if "lvl \<le> L" for lvl
      using pool_inv_distinct [OF inv that] offL(3) ys(1) by (cases "lvl = L") auto
    show "lvl = lvl'" if "lvl \<le> L" "lvl' \<le> L" "x \<in> set (?fl lvl)" "x \<in> set (?fl lvl')" for lvl lvl' x
      using pool_inv_disjoint [OF inv that(1,2) sub [OF that(3)] sub [OF that(4)]] .
    show "cell_dead cls ?p o' \<and> o' \<notin> insert off live" if "lvl \<le> L" "o' \<in> set (?fl lvl)" for lvl o'
    proof -
      have "o' \<noteq> off" using notin [OF that(1)] that(2) by blast
      then show ?thesis using pool_inv_dead [OF inv that(1) sub [OF that(2)]] by (simp add: cell_dead_def)
    qed
    show "o' \<noteq> 0 \<and> 8 dvd o' \<and> o' + cc_bytes cls \<le> m_vm_ptr h"
      if "o' \<in> insert off live \<or> lvl \<le> L \<and> o' \<in> set (?fl lvl)" for o' lvl
      using that pool_inv_cell [OF inv, of o' lvl] sub [of o' lvl] cell offL(1) by auto
    show "finite (insert off live) \<and> p_active ?p = int (card (insert off live))"
      using pool_inv_count [OF inv] dead offL(1) by simp
  qed (use heap in simp)
  ultimately show ?thesis using dead offL(1) by auto
qed

lemma cell_alloc_bump:
  assumes inv: "pool_inv cls L h p fl live" and empty: "p_free p L = 0" and sz: "0 < cc_bytes cls"
  shows "if vm_size_available h 8 (cc_bytes cls)
    then (let off = align_vm_ptr h 8; h' = h\<lparr>m_vm_ptr := off + cc_bytes cls\<rparr>; p' = p\<lparr>p_active := p_active p + 1\<rparr>
      in cell_alloc_local cls L p h = (Value off, p', h') \<and> off \<notin> live \<and> pool_inv cls L h' p' fl (insert off live))
    else cell_alloc_local cls L p h = (Raise VMFull, p\<lparr>p_active := p_active p + 1\<rparr>, h)"
proof (cases "vm_size_available h 8 (cc_bytes cls)")
  case True
  let ?off = "align_vm_ptr h 8"
  let ?h = "h\<lparr>m_vm_ptr := ?off + cc_bytes cls\<rparr>" and ?p = "p\<lparr>p_active := p_active p + 1\<rparr>"
  note heap = pool_inv_heap [OF inv]
  have ge: "m_vm_ptr h \<le> ?off" "8 dvd ?off" by (simp_all add: align_vm_ptr_def align_up_ge align_up_dvd)
  have fit: "?off + cc_bytes cls \<le> m_vm_temp_ptr h" using True by (simp add: vm_size_available_def)
  have fresh: "?off \<notin> live" "\<And>lvl. lvl \<le> L \<Longrightarrow> ?off \<notin> set (fl lvl)"
    using pool_inv_cell [OF inv, of ?off] ge sz by force+
  have up: "o' + cc_bytes cls \<le> ?off + cc_bytes cls" if "o' + cc_bytes cls \<le> m_vm_ptr h" for o'
    using that ge by linarith
  have run: "cell_alloc_local cls L p h = (Value ?off, ?p, ?h)"
    using empty fit by (simp add: cell_alloc_local_def nulloffset_def vm_alloc_ptr_def Let_def)
  have "pool_inv cls L ?h ?p fl (insert ?off live)"
  proof (rule pool_invI)
    show "cell_chain ?p (p_free ?p lvl) (fl lvl)" if "lvl \<le> L" for lvl
      using pool_inv_chain [OF inv that] cell_chain_cong [of "fl lvl" ?p p] by simp
    show "cell_dead cls ?p o' \<and> o' \<notin> insert ?off live" if "lvl \<le> L" "o' \<in> set (fl lvl)" for lvl o'
      using pool_inv_dead [OF inv that] fresh(2) [OF that(1)] that(2) by (auto simp: cell_dead_def)
    show "o' \<noteq> 0 \<and> 8 dvd o' \<and> o' + cc_bytes cls \<le> m_vm_ptr ?h"
      if "o' \<in> insert ?off live \<or> lvl \<le> L \<and> o' \<in> set (fl lvl)" for o' lvl
      using that pool_inv_cell [OF inv, of o' lvl] up [of o'] ge heap by auto
    show "finite (insert ?off live) \<and> p_active ?p = int (card (insert ?off live))"
      using pool_inv_count [OF inv] fresh(1) by simp
  qed (use heap fit ge sz pool_inv_distinct [OF inv] pool_inv_disjoint [OF inv] in \<open>simp_all\<close>)
  then show ?thesis using run fresh(1) True by (simp add: Let_def)
next
  case False
  then show ?thesis
    using empty by (simp add: cell_alloc_local_def nulloffset_def vm_alloc_ptr_def vm_size_available_def Let_def)
qed

section \<open>Release\<close>

lemma cell_free_ok:
  assumes inv: "pool_inv cls L h p fl live" and off: "off \<in> live" "cell_valid cls p h off" and lvl: "lvl \<le> L"
  shows "\<exists>p'. cell_free_local cls L off lvl p h = (Value (), p') \<and>
    pool_inv cls L h p' (fl(lvl := off # fl lvl)) (live - {off}) \<and> \<not> cell_valid cls p' h off \<and>
    p_free p' lvl = off \<and> (\<forall>x. x \<noteq> off \<longrightarrow> p_mem p' x = p_mem p x)"
proof -
  let ?p = "p\<lparr>p_mem := (p_mem p)(off := word_of_nat (p_free p lvl) # dead_mark cls off),
      p_free := (p_free p)(lvl := off), p_active := p_active p - 1\<rparr>" and ?fl = "fl(lvl := off # fl lvl)"
  have run: "cell_free_local cls L off lvl p h = (Value (), ?p)" using off lvl by (simp add: cell_free_local_def)
  have notin: "off \<notin> set (fl l)" if "l \<le> L" for l using pool_inv_dead [OF inv that, of off] off(1) by blast
  have nz: "off \<noteq> 0" using pool_inv_cell [OF inv, of off 0] off(1) by blast
  have cases_in: "x = off \<and> l = lvl \<or> x \<in> set (fl l)" if "x \<in> set (?fl l)" for x l
    using that by (cases "l = lvl") auto
  have "pool_inv cls L h ?p ?fl (live - {off})"
  proof (rule pool_invI)
    show "cell_chain ?p (p_free ?p l) (?fl l)" if "l \<le> L" for l
    proof -
      have same: "cell_chain ?p o' (fl l) = cell_chain p o' (fl l)" for o' using notin [OF that] by (intro cell_chain_cong) auto
      have "unat (word_of_nat (p_free p lvl) :: u32) = p_free p lvl"
        using pool_inv_heads [OF inv lvl] by (simp add: unat_of_nat)
      then have "cell_next ?p off = p_free p lvl" by (simp add: cell_next_def)
      then show ?thesis using same pool_inv_chain [OF inv that] nz
        by (cases "l = lvl") (auto simp: nulloffset_def)
    qed
    show "distinct (?fl l)" if "l \<le> L" for l
      using pool_inv_distinct [OF inv that] notin [OF that] by (cases "l = lvl") auto
    show "l = l'" if "l \<le> L" "l' \<le> L" "x \<in> set (?fl l)" "x \<in> set (?fl l')" for l l' x
      using pool_inv_disjoint [OF inv that(1,2), of x] cases_in [OF that(3)] cases_in [OF that(4)] notin that(1,2) by blast
    show "cell_dead cls ?p o' \<and> o' \<notin> live - {off}" if "l \<le> L" "o' \<in> set (?fl l)" for l o'
      using pool_inv_dead [OF inv that(1), of o'] cases_in [OF that(2)] by (cases "o' = off") (auto simp: cell_dead_def)
    show "o' \<noteq> 0 \<and> 8 dvd o' \<and> o' + cc_bytes cls \<le> m_vm_ptr h"
      if "o' \<in> live - {off} \<or> l \<le> L \<and> o' \<in> set (?fl l)" for o' l
      using that pool_inv_cell [OF inv, of o' l] cases_in [of o' l] off(1) by blast
    show "finite (live - {off}) \<and> p_active ?p = int (card (live - {off}))"
      using pool_inv_count [OF inv] off(1) card_gt_0_iff [of live] by auto
  qed (rule pool_inv_heap [OF inv])
  moreover have "\<not> cell_valid cls ?p h off" by (simp add: cell_valid_def cell_dead_def)
  ultimately show ?thesis using run by simp
qed

section \<open>Validation accepts a sound pool\<close>

lemma cell_chain_nth:
  "cell_chain p off xs \<Longrightarrow> i < length xs \<Longrightarrow>
     xs ! i \<noteq> 0 \<and> cell_next p (xs ! i) = (if Suc i < length xs then xs ! Suc i else 0)"
proof (induction xs arbitrary: off i)
  case (Cons x xs)
  then show ?case by (cases i; cases xs) (auto simp: nulloffset_def)
qed simp

text \<open>The two pointers of the cycle check at positions \<open>i\<close> and \<open>f\<close> of the list.\<close>

lemma validate_walk_true:
  assumes ch: "cell_chain p off xs" "distinct xs"
    and ok: "\<And>x. x \<in> set xs \<Longrightarrow> valid_active_offset h (cc_bytes cls) 8 x \<and> cell_dead cls p x"
  shows "f \<le> length xs \<Longrightarrow> f = 2 * i + (if adv then 1 else 0) \<Longrightarrow> f < length xs \<or> i \<le> f \<Longrightarrow>
    validate_walk cls p h (if i < length xs then xs ! i else 0) (if f < length xs then xs ! f else 0) adv = Some True"
proof (induction "length xs - f" arbitrary: f i adv)
  case 0
  then show ?case by (subst validate_walk.simps) (simp add: nulloffset_def)
next
  case (Suc n)
  then have f: "f < length xs" "n = length xs - Suc f" by auto
  have i: "i < length xs" "i \<le> f" using Suc.prems f by (auto split: if_splits)
  have nf: "xs ! f \<noteq> 0" "cell_next p (xs ! f) = (if Suc f < length xs then xs ! Suc f else 0)"
    using cell_chain_nth [OF ch(1) f(1)] by auto
  have ni: "cell_next p (xs ! i) = (if Suc i < length xs then xs ! Suc i else 0)"
    using cell_chain_nth [OF ch(1) i(1)] by auto
  have good: "valid_active_offset h (cc_bytes cls) 8 (xs ! f)" "cell_dead cls p (xs ! f)"
    using ok [of "xs ! f"] f(1) by auto
  show ?case
  proof (cases adv)
    case True
    then have si: "Suc i < length xs" "Suc i \<noteq> Suc f" using Suc.prems f by auto
    then have ne: "xs ! Suc i \<noteq> (if Suc f < length xs then xs ! Suc f else 0)"
      using nth_eq_iff_index_eq [OF ch(2), of "Suc i" "Suc f"] cell_chain_nth [OF ch(1), of "Suc i"] by auto
    have "validate_walk cls p h (if Suc i < length xs then xs ! Suc i else 0)
        (if Suc f < length xs then xs ! Suc f else 0) False = Some True"
      using Suc.hyps(1) [OF f(2), of "Suc i" False] Suc.prems True f by simp
    then show ?thesis using True f i nf ni good ne si
      by (subst validate_walk.simps) (simp add: nulloffset_def Let_def)
  next
    case False
    have "validate_walk cls p h (if i < length xs then xs ! i else 0)
        (if Suc f < length xs then xs ! Suc f else 0) True = Some True"
      using Suc.hyps(1) [OF f(2), of i True] Suc.prems False f by simp
    then show ?thesis using False f i nf good
      by (subst validate_walk.simps) (simp add: nulloffset_def Let_def)
  qed
qed

lemma validate_levels_true:
  assumes inv: "pool_inv cls L h p fl live" and lvls: "set lvls \<subseteq> {..L}"
  shows "validate_levels cls p h lvls = Some True"
  using lvls
proof (induction lvls)
  case Nil
  then show ?case using pool_inv_count [OF inv] by simp
next
  case (Cons lvl lvls)
  then have l: "lvl \<le> L" by simp
  have ok: "valid_active_offset h (cc_bytes cls) 8 x \<and> cell_dead cls p x" if "x \<in> set (fl lvl)" for x
    using pool_inv_cell [OF inv, of x lvl] pool_inv_dead [OF inv l that] that l
    by (auto simp: valid_active_offset_def nulloffset_def Let_def)
  have ch: "cell_chain p (p_free p lvl) (fl lvl)" by (rule pool_inv_chain [OF inv l])
  have "p_free p lvl = (if 0 < length (fl lvl) then fl lvl ! 0 else 0)"
    using ch by (cases "fl lvl") (auto simp: nulloffset_def)
  then have "validate_walk cls p h (p_free p lvl) (p_free p lvl) False = Some True"
    using validate_walk_true [OF ch pool_inv_distinct [OF inv l] ok, of 0 0 False] by simp
  then show ?case using Cons by simp
qed

section \<open>Using the pools\<close>

lemma cell_alloc_ok:
  assumes inv: "pool_inv cls L h p fl live" and sz: "0 < cc_bytes cls"
    and room: "p_free p L \<noteq> 0 \<or> vm_size_available h 8 (cc_bytes cls)"
  shows "\<exists>off p' v fl'. cell_alloc_local cls L p h = (Value off, p', h\<lparr>m_vm_ptr := v\<rparr>) \<and> m_vm_ptr h \<le> v \<and>
    off \<notin> live \<and> pool_inv cls L (h\<lparr>m_vm_ptr := v\<rparr>) p' fl' (insert off live) \<and> (\<forall>x. x \<noteq> off \<longrightarrow> p_mem p' x = p_mem p x)"
proof (cases "p_free p L = 0")
  case True
  let ?v = "align_vm_ptr h 8 + cc_bytes cls" and ?p = "p\<lparr>p_active := p_active p + 1\<rparr>"
  have "cell_alloc_local cls L p h = (Value (align_vm_ptr h 8), ?p, h\<lparr>m_vm_ptr := ?v\<rparr>) \<and> align_vm_ptr h 8 \<notin> live \<and>
      pool_inv cls L (h\<lparr>m_vm_ptr := ?v\<rparr>) ?p fl (insert (align_vm_ptr h 8) live)"
    using cell_alloc_bump [OF inv True sz] room True by (simp add: Let_def)
  moreover have "m_vm_ptr h \<le> ?v" using align_up_ge [of 8 "m_vm_ptr h"] by (simp add: align_vm_ptr_def)
  ultimately show ?thesis by (intro exI [of _ "align_vm_ptr h 8"] exI [of _ ?p] exI [of _ ?v] exI [of _ fl]) simp
next
  case False
  obtain p' where "cell_alloc_local cls L p h = (Value (p_free p L), p', h) \<and> p_free p L \<notin> live \<and>
      pool_inv cls L h p' (fl(L := tl (fl L))) (insert (p_free p L) live) \<and> (\<forall>x. x \<noteq> p_free p L \<longrightarrow> p_mem p' x = p_mem p x)"
    using cell_alloc_reuse [OF inv refl False sz] by blast
  then show ?thesis
    by (intro exI [of _ "p_free p L"] exI [of _ p'] exI [of _ "m_vm_ptr h"] exI [of _ "fl(L := tl (fl L))"]) simp
qed

lemma cell_write_inv:
  assumes inv: "pool_inv cls L h p fl live" and off: "off \<in> live"
  shows "pool_inv cls L h (cell_write off lanes p) fl live"
proof (rule pool_invI)
  have notin: "off \<notin> set (fl lvl)" if "lvl \<le> L" for lvl using pool_inv_dead [OF inv that] off by blast
  show "cell_chain (cell_write off lanes p) (p_free (cell_write off lanes p) lvl) (fl lvl)" if "lvl \<le> L" for lvl
  proof -
    have "cell_chain (cell_write off lanes p) (p_free p lvl) (fl lvl) = cell_chain p (p_free p lvl) (fl lvl)"
      using notin [OF that] by (intro cell_chain_cong) (auto simp: cell_write_def)
    then show ?thesis using pool_inv_chain [OF inv that] by (simp add: cell_write_def)
  qed
  show "cell_dead cls (cell_write off lanes p) x \<and> x \<notin> live" if "lvl \<le> L" "x \<in> set (fl lvl)" for lvl x
  proof -
    have "x \<noteq> off" using notin [OF that(1)] that(2) by blast
    then show ?thesis using pool_inv_dead [OF inv that] by (simp add: cell_dead_def cell_write_def)
  qed
  show "finite live \<and> p_active (cell_write off lanes p) = int (card live)"
    using pool_inv_count [OF inv] by (simp add: cell_write_def)
qed (use pool_inv_heap [OF inv] pool_inv_distinct [OF inv] pool_inv_disjoint [OF inv] pool_inv_cell [OF inv] in blast)+

section \<open>The allocator interface\<close>

text \<open>
  What the operators rely on: an allocation hands out a cell that is not in use, a release of a valid cell
  in use, at its own level, makes it invalid, a release at the current level makes room, and the
  release of an invalid cell or at a level above the current one is an error without effect.
\<close>

locale cell_allocator =
  fixes alloc :: "'s \<Rightarrow> nat outcome \<times> 's"
    and release :: "nat \<Rightarrow> nat \<Rightarrow> 's \<Rightarrow> unit outcome \<times> 's"
    and level :: nat
    and valid :: "'s \<Rightarrow> nat \<Rightarrow> bool"
    and room :: "'s \<Rightarrow> bool"
    and sound :: "'s \<Rightarrow> nat set \<Rightarrow> bool"
  assumes alloc_ok: "sound s live \<Longrightarrow> room s \<Longrightarrow>
      \<exists>off s'. alloc s = (Value off, s') \<and> off \<notin> live \<and> sound s' (insert off live)"
    and release_ok: "sound s live \<Longrightarrow> off \<in> live \<Longrightarrow> valid s off \<Longrightarrow> lvl \<le> level \<Longrightarrow>
      \<exists>s'. release off lvl s = (Value (), s') \<and> sound s' (live - {off}) \<and> \<not> valid s' off \<and> (lvl = level \<longrightarrow> room s')"
    and release_invalid: "\<not> valid s off \<Longrightarrow> release off lvl s = (Raise InternalError, s)"
    and release_above: "valid s off \<Longrightarrow> level < lvl \<Longrightarrow> release off lvl s = (Raise RangeCheck, s)"
begin

lemma release_twice:
  assumes "sound s live" "off \<in> live" "valid s off" "lvl \<le> level" "release off lvl s = (r, s')"
  shows "r = Value () \<and> sound s' (live - {off}) \<and> release off lvl' s' = (Raise InternalError, s')"
  using release_ok [OF assms(1-4)] release_invalid assms(5) by auto

lemma release_makes_room:
  assumes "sound s live" "off \<in> live" "valid s off"
  shows "\<exists>s1 off' s2. release off level s = (Value (), s1) \<and> alloc s1 = (Value off', s2) \<and>
    off' \<notin> live - {off} \<and> sound s2 (insert off' (live - {off}))"
  using release_ok [OF assms order_refl] alloc_ok by blast

lemma release_fails_clean:
  assumes "\<not> valid s off \<or> level < lvl"
  shows "release off lvl s = (Raise (if valid s off then RangeCheck else InternalError), s)"
  using assms release_invalid release_above by auto

end

definition pool_alloc :: "cell_class \<Rightarrow> nat \<Rightarrow> pool \<times> 'a vm_heap_scheme \<Rightarrow> nat outcome \<times> pool \<times> 'a vm_heap_scheme" where
  "pool_alloc cls L s = cell_alloc_local cls L (fst s) (snd s)"

definition pool_release :: "cell_class \<Rightarrow> nat \<Rightarrow> nat \<Rightarrow> nat \<Rightarrow> pool \<times> 'a vm_heap_scheme \<Rightarrow> unit outcome \<times> pool \<times> 'a vm_heap_scheme" where
  "pool_release cls L off lvl s = (case cell_free_local cls L off lvl (fst s) (snd s) of (r, p) \<Rightarrow> (r, p, snd s))"

definition pool_room :: "cell_class \<Rightarrow> nat \<Rightarrow> pool \<times> 'a vm_heap_scheme \<Rightarrow> bool" where
  "pool_room cls L s \<longleftrightarrow> p_free (fst s) L \<noteq> 0 \<or> vm_size_available (snd s) 8 (cc_bytes cls)"

definition pool_sound :: "cell_class \<Rightarrow> nat \<Rightarrow> pool \<times> 'a vm_heap_scheme \<Rightarrow> nat set \<Rightarrow> bool" where
  "pool_sound cls L s live \<longleftrightarrow> (\<exists>fl. pool_inv cls L (snd s) (fst s) fl live)"

lemma pool_allocator:
  assumes sz: "0 < cc_bytes cls"
  shows "cell_allocator (pool_alloc cls L) (pool_release cls L) L (\<lambda>s. cell_valid cls (fst s) (snd s)) (pool_room cls L) (pool_sound cls L)"
proof
  show "\<exists>off s'. pool_alloc cls L s = (Value off, s') \<and> off \<notin> live \<and> pool_sound cls L s' (insert off live)"
    if prem: "pool_sound cls L s live" "pool_room cls L s" for s live
  proof -
    obtain fl where inv: "pool_inv cls L (snd s) (fst s) fl live" using prem(1) by (auto simp: pool_sound_def)
    obtain off p' v fl' where "cell_alloc_local cls L (fst s) (snd s) = (Value off, p', (snd s)\<lparr>m_vm_ptr := v\<rparr>)" "off \<notin> live"
        "pool_inv cls L ((snd s)\<lparr>m_vm_ptr := v\<rparr>) p' fl' (insert off live)"
      using cell_alloc_ok [OF inv sz] prem(2) unfolding pool_room_def by blast
    then show ?thesis
      by (intro exI [of _ off] exI [of _ "(p', (snd s)\<lparr>m_vm_ptr := v\<rparr>)"]) (auto simp: pool_alloc_def pool_sound_def)
  qed
  show "\<exists>s'. pool_release cls L off lvl s = (Value (), s') \<and> pool_sound cls L s' (live - {off}) \<and>
      \<not> cell_valid cls (fst s') (snd s') off \<and> (lvl = L \<longrightarrow> pool_room cls L s')"
    if prem: "pool_sound cls L s live" "off \<in> live" "cell_valid cls (fst s) (snd s) off" "lvl \<le> L" for s live off lvl
  proof -
    obtain fl where inv: "pool_inv cls L (snd s) (fst s) fl live" using prem(1) by (auto simp: pool_sound_def)
    obtain p' where "cell_free_local cls L off lvl (fst s) (snd s) = (Value (), p')"
        "pool_inv cls L (snd s) p' (fl(lvl := off # fl lvl)) (live - {off})" "\<not> cell_valid cls p' (snd s) off" "p_free p' lvl = off"
      using cell_free_ok [OF inv prem(2-4)] by blast
    moreover have "off \<noteq> 0" using pool_inv_cell [OF inv, of off] prem(2) by blast
    ultimately show ?thesis
      by (intro exI [of _ "(p', snd s)"]) (auto simp: pool_release_def pool_sound_def pool_room_def)
  qed
  show "pool_release cls L off lvl s = (Raise InternalError, s)" if "\<not> cell_valid cls (fst s) (snd s) off" for s off lvl
    using that by (simp add: pool_release_def cell_free_local_def)
  show "pool_release cls L off lvl s = (Raise RangeCheck, s)" if "cell_valid cls (fst s) (snd s) off" "L < lvl" for s off lvl
    using that by (simp add: pool_release_def cell_free_local_def)
qed

interpretation ext_pool: cell_allocator "pool_alloc ext_class L" "pool_release ext_class L" L
  "\<lambda>s. cell_valid ext_class (fst s) (snd s)" "pool_room ext_class L" "pool_sound ext_class L" for L
  by (rule pool_allocator) (simp add: ext_class_def)

interpretation wide_pool: cell_allocator "pool_alloc wide_class L" "pool_release wide_class L" L
  "\<lambda>s. cell_valid wide_class (fst s) (snd s)" "pool_room wide_class L" "pool_sound wide_class L" for L
  by (rule pool_allocator) (simp add: wide_class_def)

text \<open>
  A pool for the examples: the cell at 8 is in use, the cell at 16 is free at level 0, and of a heap of
  \<open>limit\<close> bytes 32 are used.
\<close>

definition pool_example :: pool where
  "pool_example = \<lparr>p_mem = (\<lambda>_. [7, 0])(16 := 0 # dead_mark ext_class 16), p_free = (\<lambda>_. 0)(0 := 16), p_active = 1\<rparr>"

definition heap_example :: "nat \<Rightarrow> vm_heap" where
  "heap_example limit = \<lparr>m_vm_ptr = 32, m_vm_temp_ptr = limit, m_vm_global = limit, m_vm_limit = limit, m_vm_alloc_active = None\<rparr>"

lemma pool_example_inv:
  assumes "32 \<le> limit" "limit < 2 ^ 32"
  shows "pool_inv ext_class 0 (heap_example limit) pool_example ((\<lambda>_. [])(0 := [16])) {8}"
  using assms by (auto simp: pool_inv_def pool_example_def heap_example_def ext_class_def dead_mark_def cell_dead_def
      cell_next_def nulloffset_def)

text \<open>
  C11. Allocation of a cell is sound for both classes: from a sound pool, with a free cell at the
  current save level or room in the heap, it returns a cell that is not in use, changes no other
  cell and leaves a sound pool with that cell in use.
\<close>

theorem cell_alloc_sound:
  assumes "cls \<in> {ext_class, wide_class}" "pool_inv cls L h p fl live"
    and "p_free p L \<noteq> 0 \<or> vm_size_available h 8 (cc_bytes cls)"
  shows "\<exists>off p' v fl'. cell_alloc_local cls L p h = (Value off, p', h\<lparr>m_vm_ptr := v\<rparr>) \<and> m_vm_ptr h \<le> v \<and>
    off \<notin> live \<and> pool_inv cls L (h\<lparr>m_vm_ptr := v\<rparr>) p' fl' (insert off live) \<and> (\<forall>x. x \<noteq> off \<longrightarrow> p_mem p' x = p_mem p x)"
proof -
  have "0 < cc_bytes cls" using assms(1) by (auto simp: ext_class_def wide_class_def)
  then show ?thesis by (rule cell_alloc_ok [OF assms(2) _ assms(3)])
qed

theorem cell_alloc_sound_witness:
  "\<exists>off p' v fl'. cell_alloc_local ext_class 0 pool_example (heap_example 64) = (Value off, p', (heap_example 64)\<lparr>m_vm_ptr := v\<rparr>) \<and>
    off \<notin> {8} \<and> pool_inv ext_class 0 ((heap_example 64)\<lparr>m_vm_ptr := v\<rparr>) p' fl' (insert off {8})"
  using cell_alloc_sound [OF _ pool_example_inv, of 64] by (auto simp: pool_example_def)

text \<open>A pool sound for the levels up to \<open>L\<close> is sound for the levels up to a lower one.\<close>

lemma pool_inv_lower:
  assumes inv: "pool_inv cls L h p fl live" and le: "l \<le> L"
  shows "pool_inv cls l h p fl live"
proof (rule pool_invI)
  have up: "lvl \<le> L" if "lvl \<le> l" for lvl using that le by (rule order_trans)
  show "cell_chain p (p_free p lvl) (fl lvl)" "distinct (fl lvl)" if "lvl \<le> l" for lvl
    using pool_inv_chain [OF inv up [OF that]] pool_inv_distinct [OF inv up [OF that]] .
  show "lvl = lvl'" if "lvl \<le> l" "lvl' \<le> l" "x \<in> set (fl lvl)" "x \<in> set (fl lvl')" for lvl lvl' x
    using pool_inv_disjoint [OF inv up [OF that(1)] up [OF that(2)] that(3,4)] .
  show "cell_dead cls p off \<and> off \<notin> live" if "lvl \<le> l" "off \<in> set (fl lvl)" for lvl off
    using pool_inv_dead [OF inv up [OF that(1)] that(2)] .
  show "off \<noteq> 0 \<and> 8 dvd off \<and> off + cc_bytes cls \<le> m_vm_ptr h" if "off \<in> live \<or> lvl \<le> l \<and> off \<in> set (fl lvl)" for off lvl
    using that up pool_inv_cell [OF inv, of off lvl] by blast
qed (rule pool_inv_heap [OF inv], rule pool_inv_count [OF inv])

text \<open>The facts of the interface, for either class.\<close>

lemma release_pool_twice:
  assumes "cls \<in> {ext_class, wide_class}" "pool_sound cls L s live" "off \<in> live" "cell_valid cls (fst s) (snd s) off"
    "lvl \<le> L" "pool_release cls L off lvl s = (r, s')"
  shows "pool_release cls L off lvl' s' = (Raise InternalError, s')"
  using assms ext_pool.release_twice [of L s live off lvl r s' lvl'] wide_pool.release_twice [of L s live off lvl r s' lvl'] by auto

lemma release_pool_fails:
  assumes "cls \<in> {ext_class, wide_class}" "\<not> cell_valid cls (fst s) (snd s) off \<or> L < lvl"
  shows "pool_release cls L off lvl s = (Raise (if cell_valid cls (fst s) (snd s) off then RangeCheck else InternalError), s)"
  using assms ext_pool.release_fails_clean [of s off L lvl] wide_pool.release_fails_clean [of s off L lvl] by auto

text \<open>A release at a lower level does not change what the current level allocates next.\<close>

lemma release_below_no_room:
  assumes lvl: "lvl < L" and run: "cell_free_local cls L off lvl p h = (Value (), p')"
  shows "fst (cell_alloc_local cls L p' h) = fst (cell_alloc_local cls L p h)"
proof -
  have "p_free p' L = p_free p L"
    using run lvl by (auto simp: cell_free_local_def split: if_splits)
  then show ?thesis by (auto simp: cell_alloc_local_def Let_def split: outcome.split)
qed

text \<open>
  C12. Releasing a cell in use, of either class and with any save level. A cell that reads as freed is an
  internal error and a level above the current one a range error, both without effect. Otherwise the cell
  becomes the head of the free list of its level, no other cell changes, the pool stays sound without
  it, and releasing it again, at whatever level, is an internal error without effect. An
  allocation at that level then returns this very cell, whatever the state of the heap; when the level
  is below the current one, what the current level allocates next is what it would have been
  without the release.
\<close>

theorem cell_release_sound:
  assumes "cls \<in> {ext_class, wide_class}" "pool_inv cls L h p fl live" "off \<in> live"
  shows "if \<not> cell_valid cls p h off then cell_free_local cls L off lvl p h = (Raise InternalError, p)
    else if lvl > L then cell_free_local cls L off lvl p h = (Raise RangeCheck, p)
    else \<exists>p'. cell_free_local cls L off lvl p h = (Value (), p') \<and>
      pool_inv cls L h p' (fl(lvl := off # fl lvl)) (live - {off}) \<and> (\<forall>x. x \<noteq> off \<longrightarrow> p_mem p' x = p_mem p x) \<and>
      (\<forall>lvl'. cell_free_local cls L off lvl' p' h = (Raise InternalError, p')) \<and>
      (\<exists>p2. cell_alloc_local cls lvl p' h = (Value off, p2, h) \<and> pool_inv cls lvl h p2 fl live) \<and>
      (lvl < L \<longrightarrow> fst (cell_alloc_local cls L p' h) = fst (cell_alloc_local cls L p h))"
proof (cases "cell_valid cls p h off \<and> lvl \<le> L")
  case True
  have sz: "0 < cc_bytes cls" using assms(1) by (auto simp: ext_class_def wide_class_def)
  obtain p' where p': "cell_free_local cls L off lvl p h = (Value (), p')"
      "pool_inv cls L h p' (fl(lvl := off # fl lvl)) (live - {off})" "\<not> cell_valid cls p' h off" "p_free p' lvl = off"
      "\<forall>x. x \<noteq> off \<longrightarrow> p_mem p' x = p_mem p x"
    using cell_free_ok [OF assms(2,3)] True by blast
  have "off \<noteq> 0" using pool_inv_cell [OF assms(2), of off] assms(3) by blast
  then obtain p2 where "cell_alloc_local cls lvl p' h = (Value off, p2, h)"
      "pool_inv cls lvl h p2 ((fl(lvl := off # fl lvl))(lvl := tl ((fl(lvl := off # fl lvl)) lvl))) (insert off (live - {off}))"
    using cell_alloc_reuse [OF pool_inv_lower [OF p'(2)] p'(4) _ sz] True by blast
  moreover have "insert off (live - {off}) = live" using assms(3) by blast
  moreover have "\<forall>lvl'. cell_free_local cls L off lvl' p' h = (Raise InternalError, p')"
  proof
    fix lvl'
    have "pool_release cls L off lvl' (p', h) = (Raise InternalError, p', h)"
      by (rule release_pool_twice [OF assms(1) _ assms(3), of L "(p, h)" lvl "Value ()"])
        (use assms(2) p'(1) True in \<open>auto simp: pool_release_def pool_sound_def\<close>)
    then show "cell_free_local cls L off lvl' p' h = (Raise InternalError, p')"
      by (simp add: pool_release_def split: prod.splits)
  qed
  ultimately show ?thesis using True p' release_below_no_room by auto
next
  case False
  then have "\<not> cell_valid cls p h off \<or> L < lvl" by auto
  then show ?thesis using release_pool_fails [OF assms(1), of "(p, h)" off L lvl]
    by (auto simp: pool_release_def split: prod.splits)
qed

theorem cell_release_sound_witness:
  "\<exists>p'. cell_free_local ext_class 1 8 0 pool_example (heap_example 64) = (Value (), p') \<and>
    (\<exists>p2. cell_alloc_local ext_class 0 p' (heap_example 64) = (Value 8, p2, heap_example 64)) \<and>
    fst (cell_alloc_local ext_class 1 p' (heap_example 64)) = Value 32 \<and>
    cell_free_local ext_class 1 8 0 p' (heap_example 64) = (Raise InternalError, p') \<and>
    cell_free_local ext_class 1 8 2 pool_example (heap_example 64) = (Raise RangeCheck, pool_example)"
proof -
  have inv: "pool_inv ext_class 1 (heap_example 64) pool_example ((\<lambda>_. [])(0 := [16])) {8}"
    by (auto simp: pool_inv_def pool_example_def heap_example_def ext_class_def dead_mark_def cell_dead_def
      cell_next_def nulloffset_def)
  have valid: "cell_valid ext_class pool_example (heap_example 64) 8"
    by (simp add: cell_valid_def cell_dead_def valid_offset_def pool_example_def heap_example_def ext_class_def
        dead_mark_def nulloffset_def)
  have bump: "fst (cell_alloc_local ext_class 1 pool_example (heap_example 64)) = Value 32"
    by (simp add: cell_alloc_local_def pool_example_def heap_example_def ext_class_def nulloffset_def vm_alloc_ptr_def
        align_vm_ptr_def align_up_def)
  show ?thesis
    using cell_release_sound [OF _ inv, of 8 0] cell_release_sound [OF _ inv, of 8 2] valid bump by auto
qed

text \<open>
  C23. The validator of the free lists returns on every sound pool, and finds no fault with it: its
  cycle check never mistakes a list for a cycle.
\<close>

theorem validate_accepts_sound_pool:
  assumes "pool_inv cls L h p fl live"
  shows "validate_free_lists cls L p h = Some True"
  unfolding validate_free_lists_def by (rule validate_levels_true [OF assms]) auto

theorem validate_accepts_sound_pool_witness:
  "validate_free_lists ext_class 0 pool_example (heap_example 64) = Some True"
  using validate_accepts_sound_pool [OF pool_example_inv, of 64] by simp

text \<open>
  The count of active cells drifts: an allocation that finds no free cell and no room raises
  \<^verbatim>\<open>VMFull\<close> with the count already increased, so the pool is no longer sound.
\<close>

theorem cell_alloc_full_drifts:
  assumes "cls \<in> {ext_class, wide_class}" "pool_inv cls L h p fl live"
    and "p_free p L = 0" "\<not> vm_size_available h 8 (cc_bytes cls)"
  shows "\<exists>p'. cell_alloc_local cls L p h = (Raise VMFull, p', h) \<and> p_active p' = p_active p + 1 \<and>
    \<not> pool_inv cls L h p' fl live"
proof -
  have sz: "0 < cc_bytes cls" using assms(1) by (auto simp: ext_class_def wide_class_def)
  let ?p = "p\<lparr>p_active := p_active p + 1\<rparr>"
  have "cell_alloc_local cls L p h = (Raise VMFull, ?p, h)"
    using cell_alloc_bump [OF assms(2,3) sz] assms(4) by simp
  moreover have "\<not> pool_inv cls L h ?p fl live"
    using pool_inv_count [OF assms(2)] pool_inv_count [of cls L h ?p fl live] by auto
  ultimately show ?thesis by auto
qed

definition full_pool :: pool where
  "full_pool = \<lparr>p_mem = (\<lambda>_. [7, 0]), p_free = (\<lambda>_. 0), p_active = 1\<rparr>"

theorem cell_alloc_full_drifts_witness:
  "\<exists>p'. cell_alloc_local ext_class 0 full_pool (heap_example 32) = (Raise VMFull, p', heap_example 32) \<and> p_active p' = 2"
proof -
  have "pool_inv ext_class 0 (heap_example 32) full_pool (\<lambda>_. []) {8}"
    by (auto simp: pool_inv_def full_pool_def heap_example_def ext_class_def nulloffset_def)
  moreover have "\<not> vm_size_available (heap_example 32) 8 (cc_bytes ext_class)"
    by (simp add: vm_size_available_def heap_example_def ext_class_def align_vm_ptr_def align_up_def)
  ultimately show ?thesis
    using cell_alloc_full_drifts [of ext_class 0 "heap_example 32" full_pool "\<lambda>_. []" "{8}"] by (auto simp: full_pool_def)
qed

end
