(* ===== verification/Machine.thy ===== *)
theory Machine
  imports Actions Cells Gvm_Heap
begin

text \<open>
  The state that the operators work on: the heap and its global region, the two pools of wide
  numbers, the save level and the operand, execution, dictionary and error stacks, with the
  capacity checks of \<^verbatim>\<open>src/vm_heap.inl\<close> and the cloning and releasing of objects of
  \<^verbatim>\<open>src/object.inl\<close>.

  A stack is the list of its objects, top first, with the number of its slots and its high-water
  mark (both counted in objects). An operation is an action: it takes the state and returns an outcome
  and the state, also when it raises, because \<^verbatim>\<open>error()\<close> leaves what was done before. The
  collector that a global allocation may run is an argument; an error inside the global
  allocator leaves the state as it was before the call.
\<close>

section \<open>State\<close>

record stack =
  s_objs :: "object list"
  s_size :: nat
  s_high_water :: int

record trix = gvm +
  m_ext :: pool
  m_wide :: pool
  m_curr_save_level :: nat
  m_max_save_level :: nat
  m_curr_alloc_global :: bool
  m_op :: stack
  m_exec :: stack
  m_dict :: stack
  m_err :: stack
  m_array_mem :: "nat \<Rightarrow> object"
  m_value_rw :: "nat \<Rightarrow> bool"
  m_stream_sid :: "nat \<Rightarrow> nat"
  m_stream_open :: "nat \<Rightarrow> bool"
  m_exec_above :: object
  m_last_error_name :: object
  m_last_operator :: object
  m_planted_error_objects :: nat

text \<open>
  The last fields are what the operators read of other parts: the objects in array storage
  (an array of length \<open>n\<close> at offset \<open>o\<close> has its elements at \<open>o, o + 8, \<dots>\<close>), the write
  access in the header of a dictionary or set, the session number and the open flag of the
  stream at an offset, the object in the slot above the top of the execution stack, and the
  registers of the error handler.
\<close>

section \<open>Capacity\<close>

text \<open>The check that the four stacks share: the limit is one past the last slot.\<close>

definition reserve :: "error \<Rightarrow> int \<Rightarrow> stack \<Rightarrow> unit outcome \<times> stack" where
  "reserve e count st =
     (let available = int (s_size st) - int (length (s_objs st))
      in if count > available then (Raise e, st)
         else let post_push = int (length (s_objs st)) + count
              in (Value (), if post_push > s_high_water st then st\<lparr>s_high_water := post_push\<rparr> else st))"

definition has_op_capacity :: "nat \<Rightarrow> trix \<Rightarrow> bool" where
  "has_op_capacity count t \<longleftrightarrow> length (s_objs (m_op t)) + count \<le> s_size (m_op t)"

definition has_exec_capacity :: "nat \<Rightarrow> trix \<Rightarrow> bool" where
  "has_exec_capacity count t \<longleftrightarrow> length (s_objs (m_exec t)) + count \<le> s_size (m_exec t)"

definition require_op_capacity :: "int \<Rightarrow> (trix, unit) action" where
  "require_op_capacity count t = (case reserve OpStackOverflow count (m_op t) of (r, st) \<Rightarrow> (r, t\<lparr>m_op := st\<rparr>))"

definition require_exec_capacity :: "int \<Rightarrow> (trix, unit) action" where
  "require_exec_capacity count t = (case reserve ExecStackOverflow count (m_exec t) of (r, st) \<Rightarrow> (r, t\<lparr>m_exec := st\<rparr>))"

text \<open>The dictionaries at the bottom of the dictionary stack: systemdict, protocoldict, globaldict, localdict.\<close>

definition PermanentDictCount :: nat where "PermanentDictCount = 4"

definition require_dict_capacity :: "int \<Rightarrow> (trix, unit) action" where
  "require_dict_capacity count t = (case reserve DictStackOverflow count (m_dict t) of (r, st) \<Rightarrow> (r, t\<lparr>m_dict := st\<rparr>))"

definition require_error_capacity :: "int \<Rightarrow> (trix, unit) action" where
  "require_error_capacity count t = (case reserve ErrStackOverflow count (m_err t) of (r, st) \<Rightarrow> (r, t\<lparr>m_err := st\<rparr>))"

definition op_count :: "trix \<Rightarrow> int" where "op_count t = int (length (s_objs (m_op t)))"
definition exec_count :: "trix \<Rightarrow> int" where "exec_count t = int (length (s_objs (m_exec t)))"

definition require_op_count :: "int \<Rightarrow> (trix, unit) action" where
  "require_op_count count t = (if op_count t < count then (Raise OpStackUnderflow, t) else (Value (), t))"

definition require_save_capacity :: "nat \<Rightarrow> (trix, unit) action" where
  "require_save_capacity count t =
     (if m_curr_save_level t + count \<ge> m_max_save_level t then (Raise LimitCheck, t) else (Value (), t))"

definition require_save_count :: "nat \<Rightarrow> (trix, unit) action" where
  "require_save_count count t =
     (if m_curr_save_level t + 1 < count then (Raise InvalidRestore, t) else (Value (), t))"

text \<open>Access to the operand and execution stacks.\<close>

definition ops :: "trix \<Rightarrow> object list" where "ops t = s_objs (m_op t)"

definition set_ops :: "object list \<Rightarrow> trix \<Rightarrow> trix" where
  "set_ops xs t = t\<lparr>m_op := (m_op t)\<lparr>s_objs := xs\<rparr>\<rparr>"

definition execs :: "trix \<Rightarrow> object list" where "execs t = s_objs (m_exec t)"

definition set_execs :: "object list \<Rightarrow> trix \<Rightarrow> trix" where
  "set_execs xs t = t\<lparr>m_exec := (m_exec t)\<lparr>s_objs := xs\<rparr>\<rparr>"

definition errs :: "trix \<Rightarrow> object list" where "errs t = s_objs (m_err t)"

definition set_errs :: "object list \<Rightarrow> trix \<Rightarrow> trix" where
  "set_errs xs t = t\<lparr>m_err := (m_err t)\<lparr>s_objs := xs\<rparr>\<rparr>"

definition dicts :: "trix \<Rightarrow> object list" where "dicts t = s_objs (m_dict t)"

definition set_dicts :: "object list \<Rightarrow> trix \<Rightarrow> trix" where
  "set_dicts xs t = t\<lparr>m_dict := (m_dict t)\<lparr>s_objs := xs\<rparr>\<rparr>"

section \<open>Cells of objects\<close>

definition class_of :: "bool \<Rightarrow> cell_class" where
  "class_of wide = (if wide then wide_class else ext_class)"

definition pool_of :: "bool \<Rightarrow> trix \<Rightarrow> pool" where
  "pool_of wide t = (if wide then m_wide t else m_ext t)"

definition set_pool :: "bool \<Rightarrow> pool \<Rightarrow> trix \<Rightarrow> trix" where
  "set_pool wide p t = (if wide then t\<lparr>m_wide := p\<rparr> else t\<lparr>m_ext := p\<rparr>)"

definition lift_gvm :: "(gvm \<Rightarrow> ('a \<times> gvm) outcome) \<Rightarrow> (trix, 'a) action" where
  "lift_gvm f t =
     (case f (gvm.truncate t) of
        Value (x, g) \<Rightarrow> (Value x, gvm.extend g (gvm.more t))
      | Raise e \<Rightarrow> (Raise e, t) | Diverge \<Rightarrow> (Diverge, t) | Fault \<Rightarrow> (Fault, t))"

definition heap_kind_of :: "otype \<Rightarrow> u8" where
  "heap_kind_of ty =
     (case ty of TLong \<Rightarrow> 6 | TULong \<Rightarrow> 7 | TAddress \<Rightarrow> 8 | TDouble \<Rightarrow> 9 | TInt128 \<Rightarrow> 10 | TUInt128 \<Rightarrow> 11 | _ \<Rightarrow> 0)"

definition heap_alloc :: "(gvm \<Rightarrow> gvm outcome) \<Rightarrow> bool \<Rightarrow> u8 \<Rightarrow> (trix, nat) action" where
  "heap_alloc gc wide kind t =
     (if m_curr_alloc_global t
      then seq (lift_gvm (\<lambda>g. gvm_alloc gc g (cc_bytes (class_of wide)) kind)) (\<lambda>off t1.
             let p = pool_of wide t1
             in (Value off, set_pool wide (p\<lparr>p_mem := (p_mem p)(off := hd (p_mem p off) #
                  map (\<lambda>_. 0) (cc_magics (class_of wide)))\<rparr>) t1)) t
      else (case cell_alloc_local (class_of wide) (m_curr_save_level t) (pool_of wide t) t of
              (r, p, t1) \<Rightarrow> (r, set_pool wide p t1)))"

definition heap_free :: "bool \<Rightarrow> nat \<Rightarrow> nat \<Rightarrow> (trix, unit) action" where
  "heap_free wide offset save_level t =
     (if is_global t offset
      then lift_gvm (\<lambda>g. bind_outcome (gvm_free g offset) (\<lambda>g1. Value ((), g1))) t
      else (case cell_free_local (class_of wide) (m_curr_save_level t) offset save_level (pool_of wide t) t of
              (r, p) \<Rightarrow> (r, set_pool wide p t)))"

definition heap_cell_valid :: "trix \<Rightarrow> object \<Rightarrow> bool" where
  "heap_cell_valid t ob = cell_valid (class_of (uses_widevalue ob)) (pool_of (uses_widevalue ob) t) t (m_offset ob)"

text \<open>The lanes of an object's cell; reading a freed cell is an internal error.\<close>

definition cell_lanes :: "object \<Rightarrow> (trix, u32 list) action" where
  "cell_lanes ob t =
     (if heap_cell_valid t ob then (Value (p_mem (pool_of (uses_widevalue ob) t) (m_offset ob)), t)
      else (Raise InternalError, t))"

text \<open>
  \<open>maybe_free_extvalue\<close>: the action and the object afterwards, whose offset is cleared. The object
  itself is a location of the caller's stack, which the caller updates.
\<close>

definition maybe_free_extvalue :: "object \<Rightarrow> (trix, object) action" where
  "maybe_free_extvalue ob =
     (if uses_heap_cell ob
      then seq (heap_free (uses_widevalue ob) (m_offset ob) (m_extvalue_save_level ob)) (\<lambda>_.
             ret (ob\<lparr>m_offset := nulloffset\<rparr>))
      else ret ob)"

definition extvalue_save_level_for_alloc :: "trix \<Rightarrow> nat \<Rightarrow> nat" where
  "extvalue_save_level_for_alloc t off = (if is_global t off then 0 else m_curr_save_level t)"

definition make_clone :: "(gvm \<Rightarrow> gvm outcome) \<Rightarrow> object \<Rightarrow> (trix, object) action" where
  "make_clone gc ob =
     (if \<not> uses_heap_cell ob then ret (ob\<lparr>m_object_save_level := 0\<rparr>)
      else seq (cell_lanes ob) (\<lambda>old.
           seq (heap_alloc gc (uses_widevalue ob) (heap_kind_of (o_type ob))) (\<lambda>off.
           seq (modify (\<lambda>t. set_pool (uses_widevalue ob) (cell_write off old (pool_of (uses_widevalue ob) t)) t)) (\<lambda>_.
           gets (\<lambda>t. ob\<lparr>m_object_save_level := 0, m_offset := off,
             m_extvalue_save_level := extvalue_save_level_for_alloc t off\<rparr>)))))"

text \<open>The number an integer object holds.\<close>

definition lanes_nat :: "u32 list \<Rightarrow> int" where
  "lanes_nat lanes = foldr (\<lambda>l acc. uint l + 2 ^ 32 * acc) lanes 0"

definition to_signed :: "nat \<Rightarrow> int \<Rightarrow> int" where
  "to_signed w x = (if x < 2 ^ (w - 1) then x else x - 2 ^ w)"

definition number_of :: "object \<Rightarrow> (trix, int) action" where
  "number_of ob =
     (if uses_heap_cell ob
      then seq (cell_lanes ob) (\<lambda>lanes.
             ret (if o_type ob = TLong then to_signed 64 (lanes_nat lanes)
                  else if o_type ob = TInt128 then to_signed 128 (lanes_nat lanes)
                  else lanes_nat lanes))
      else ret (m_immediate ob))"

definition object_integer :: "object \<Rightarrow> int \<Rightarrow> int \<Rightarrow> (trix, bool \<times> int) action" where
  "object_integer ob lower upper =
     (if is_integral ob then seq (number_of ob) (\<lambda>v. ret (integer_value ob v lower upper))
      else ret (integer_value ob 0 lower upper))"

section \<open>A small machine\<close>

text \<open>
  A concrete state that the examples start from: a heap of 1024 bytes with 512 in use, nothing in
  the global region, four operand slots, and one cell at offset 8 in use by a Long that holds the
  number \<open>v\<close>.
\<close>

definition empty_pool :: pool where
  "empty_pool = \<lparr>p_mem = (\<lambda>_. [0, 0]), p_free = (\<lambda>_. 0), p_active = 0\<rparr>"

definition empty_stack :: "nat \<Rightarrow> stack" where
  "empty_stack n = \<lparr>s_objs = [], s_size = n, s_high_water = 0\<rparr>"

definition small_machine :: "u32 \<Rightarrow> trix" where
  "small_machine v =
     \<lparr>m_vm_ptr = 512, m_vm_temp_ptr = 1024, m_vm_global = 1024, m_vm_limit = 1024, m_vm_alloc_active = None,
      headers = (\<lambda>_. \<lparr>m_size = 0, m_kind = 0, m_mark_gen = 0, m_obj_count = 0, m_next_in_work = 0, m_magic = 0\<rparr>),
      tails = (\<lambda>_. 0), flinks = (\<lambda>_. \<lparr>prev_free = 0, next_free = 0\<rparr>), m_gvm_free_head = 0,
      m_gvm_fastbins = (\<lambda>_. 0), m_gvm_free_block_count = 0, m_gvm_user_block_count = 0,
      m_gc_scratch_offset = 0, m_gc_current_gen = 1, m_in_gc = False, m_gc_work_head = 0,
      m_gc_marked_count = 0, m_gc_run_count = 0, m_gc_last_reclaimed_bytes = 0,
      m_ext = empty_pool\<lparr>p_mem := (\<lambda>_. [0, 0])(8 := [v, 0]), p_active := 1\<rparr>,
      m_wide = empty_pool\<lparr>p_mem := (\<lambda>_. [0, 0, 0, 0])\<rparr>,
      m_curr_save_level = 0, m_max_save_level = 8, m_curr_alloc_global = False,
      m_op = empty_stack 4, m_exec = empty_stack 8, m_dict = empty_stack 8, m_err = empty_stack 8,
      m_array_mem = (\<lambda>_. make_null), m_value_rw = (\<lambda>_. True), m_stream_sid = (\<lambda>_. 0),
      m_stream_open = (\<lambda>_. False), m_exec_above = make_null, m_last_error_name = make_null, m_last_operator = make_null,
      m_planted_error_objects = 0\<rparr>"

definition long_at_8 :: object where
  "long_at_8 = (make_object TLong 0)\<lparr>m_offset := 8\<rparr>"

end
