(* ===== verification/Verify.thy ===== *)
theory Verify
  imports Machine
begin

text \<open>
  Operand verification (\<^verbatim>\<open>src/verify.inl\<close>): the 64-bit descriptors that say which types an operator
  accepts and under which constraints, the check of the operand stack against them with its
  fast path, the text of a descriptor for error messages, and the search for a mark. The
  floating-point tests (\<^verbatim>\<open>src/object.inl\<close>) read the IEEE-754 bit pattern: the immediate of a
  Real and the two lanes of a Double's cell. The comparisons of two numbers of one sign are the
  comparisons of their patterns, a NaN compares false, and \<^verbatim>\<open>-0\<close> equals \<open>0\<close>.
\<close>

section \<open>Floating-point tests\<close>

record fp_format =
  fp_mant :: nat
  fp_bias :: nat

definition binary32 :: fp_format where "binary32 = \<lparr>fp_mant = 23, fp_bias = 127\<rparr>"
definition binary64 :: fp_format where "binary64 = \<lparr>fp_mant = 52, fp_bias = 1023\<rparr>"

definition fp_sign :: "fp_format \<Rightarrow> nat" where "fp_sign f = 2 ^ fp_mant f * (2 * fp_bias f + 2)"
definition fp_neg :: "fp_format \<Rightarrow> nat \<Rightarrow> bool" where "fp_neg f b \<longleftrightarrow> fp_sign f \<le> b"
definition fp_mag :: "fp_format \<Rightarrow> nat \<Rightarrow> nat" where "fp_mag f b = b mod fp_sign f"
definition fp_infinity :: "fp_format \<Rightarrow> nat" where "fp_infinity f = 2 ^ fp_mant f * (2 * fp_bias f + 1)"
definition fp_one :: "fp_format \<Rightarrow> nat" where "fp_one f = 2 ^ fp_mant f * fp_bias f"

definition fp_isinf :: "fp_format \<Rightarrow> nat \<Rightarrow> bool" where "fp_isinf f b \<longleftrightarrow> fp_mag f b = fp_infinity f"
definition fp_isnan :: "fp_format \<Rightarrow> nat \<Rightarrow> bool" where "fp_isnan f b \<longleftrightarrow> fp_infinity f < fp_mag f b"
definition fp_iszero :: "fp_format \<Rightarrow> nat \<Rightarrow> bool" where "fp_iszero f b \<longleftrightarrow> fp_mag f b = 0"
definition fp_isfinite :: "fp_format \<Rightarrow> nat \<Rightarrow> bool" where "fp_isfinite f b \<longleftrightarrow> fp_mag f b < fp_infinity f"
definition fp_isnormal :: "fp_format \<Rightarrow> nat \<Rightarrow> bool" where
  "fp_isnormal f b \<longleftrightarrow> 2 ^ fp_mant f \<le> fp_mag f b \<and> fp_mag f b < fp_infinity f"
definition fp_negative :: "fp_format \<Rightarrow> nat \<Rightarrow> bool" where
  "fp_negative f b \<longleftrightarrow> fp_neg f b \<and> 0 < fp_mag f b \<and> \<not> fp_isnan f b"

text \<open>\<open>v = trunc v\<close>: no bit of the significand has a weight below one.\<close>

definition fp_integral :: "fp_format \<Rightarrow> nat \<Rightarrow> bool" where
  "fp_integral f b \<longleftrightarrow>
     (let m = fp_mag f b; e = m div 2 ^ fp_mant f
      in m = 0 \<or> \<not> fp_isnan f b \<and> fp_bias f \<le> e \<and>
         (fp_bias f + fp_mant f \<le> e \<or> 2 ^ (fp_mant f - (e - fp_bias f)) dvd m mod 2 ^ fp_mant f))"

definition fp_abs_lesseq_one :: "fp_format \<Rightarrow> nat \<Rightarrow> bool" where
  "fp_abs_lesseq_one f b \<longleftrightarrow> fp_mag f b \<le> fp_one f"
definition fp_abs_less_one :: "fp_format \<Rightarrow> nat \<Rightarrow> bool" where
  "fp_abs_less_one f b \<longleftrightarrow> fp_mag f b < fp_one f"
definition fp_greater_eq_one :: "fp_format \<Rightarrow> nat \<Rightarrow> bool" where
  "fp_greater_eq_one f b \<longleftrightarrow> \<not> fp_neg f b \<and> fp_one f \<le> fp_mag f b \<and> \<not> fp_isnan f b"
definition fp_greater_than_neg_one :: "fp_format \<Rightarrow> nat \<Rightarrow> bool" where
  "fp_greater_than_neg_one f b \<longleftrightarrow> \<not> fp_isnan f b \<and> (fp_neg f b \<longrightarrow> fp_mag f b < fp_one f)"
definition fp_nonpositive_integer :: "fp_format \<Rightarrow> nat \<Rightarrow> bool" where
  "fp_nonpositive_integer f b \<longleftrightarrow>
     \<not> fp_isnan f b \<and> (fp_iszero f b \<or> fp_neg f b) \<and> fp_integral f b"

text \<open>A test of a Real or Double object.\<close>

definition floating_point_test :: "(fp_format \<Rightarrow> nat \<Rightarrow> bool) \<Rightarrow> object \<Rightarrow> (trix, bool) action" where
  "floating_point_test pred ob =
     (if o_type ob = TReal then ret (pred binary32 (nat (m_immediate ob)))
      else seq (cell_lanes ob) (\<lambda>lanes. ret (pred binary64 (nat (lanes_nat lanes)))))"

definition is_number_zero :: "object \<Rightarrow> (trix, bool) action" where
  "is_number_zero ob =
     (if is_floating_point ob then floating_point_test fp_iszero ob
      else seq (number_of ob) (\<lambda>v. ret (v = 0)))"

definition is_number_negative :: "object \<Rightarrow> (trix, bool) action" where
  "is_number_negative ob =
     (if is_floating_point ob then floating_point_test fp_negative ob
      else seq (number_of ob) (\<lambda>v. ret (v < 0)))"

section \<open>Descriptors\<close>

type_synonym verify_t = u64

definition TypeToVerify :: "otype \<Rightarrow> verify_t" where "TypeToVerify ty = push_bit (type_code ty) 1"

definition VerifyFlagsShift :: nat where "VerifyFlagsShift = 32"
definition verify_flag :: "u64 \<Rightarrow> verify_t" where "verify_flag w = push_bit VerifyFlagsShift w"
definition VerifyTypesMask :: verify_t where "VerifyTypesMask = push_bit 32 1 - 1"

definition VerifyRW :: verify_t where "VerifyRW = verify_flag 0x001"
definition VerifyExe :: verify_t where "VerifyExe = verify_flag 0x002"
definition VerifyNotZero :: verify_t where "VerifyNotZero = verify_flag 0x004"
definition VerifyNotNegative :: verify_t where "VerifyNotNegative = verify_flag 0x008"
definition VerifyNotInf :: verify_t where "VerifyNotInf = verify_flag 0x010"
definition VerifyNotNan :: verify_t where "VerifyNotNan = verify_flag 0x020"
definition VerifyIsAbsLessEqOne :: verify_t where "VerifyIsAbsLessEqOne = verify_flag 0x040"
definition VerifyIsNormal :: verify_t where "VerifyIsNormal = verify_flag 0x080"
definition VerifyIsFinite :: verify_t where "VerifyIsFinite = verify_flag 0x100"
definition VerifyLazy :: verify_t where "VerifyLazy = verify_flag 0x200"
definition VerifyGreaterEqualOne :: verify_t where "VerifyGreaterEqualOne = verify_flag 0x400"
definition VerifyIsAbsLessOne :: verify_t where "VerifyIsAbsLessOne = verify_flag 0x800"
definition VerifyGreaterThanNegOne :: verify_t where "VerifyGreaterThanNegOne = verify_flag 0x1000"
definition VerifyNotNonPositiveInteger :: verify_t where "VerifyNotNonPositiveInteger = verify_flag 0x2000"

definition VerifyHandleKindShift :: nat where "VerifyHandleKindShift = VerifyFlagsShift + 14"
definition VerifyHandleScreen :: verify_t where "VerifyHandleScreen = push_bit VerifyHandleKindShift 1"
definition VerifyHandleKindMask :: verify_t where "VerifyHandleKindMask = VerifyHandleScreen"

definition VerifyFloatConstraints :: verify_t where
  "VerifyFloatConstraints = VerifyNotInf OR VerifyNotNan OR VerifyIsAbsLessEqOne OR VerifyGreaterEqualOne OR
     VerifyIsAbsLessOne OR VerifyGreaterThanNegOne OR VerifyNotNonPositiveInteger OR
     VerifyIsNormal OR VerifyIsFinite"

text \<open>A union of type bits.\<close>

definition verify_types :: "otype list \<Rightarrow> verify_t" where
  "verify_types tys = foldr (\<lambda>ty acc. TypeToVerify ty OR acc) tys 0"

definition VerifySignedIntegers :: verify_t where
  "VerifySignedIntegers = verify_types [TInteger, TLong, TInt128]"
definition VerifyUnsignedIntegers :: verify_t where
  "VerifyUnsignedIntegers = verify_types [TByte, TUInteger, TULong, TUInt128]"
definition VerifyIntegers :: verify_t where
  "VerifyIntegers = VerifySignedIntegers OR VerifyUnsignedIntegers"
definition VerifyIntegers32 :: verify_t where "VerifyIntegers32 = verify_types [TByte, TInteger, TUInteger]"
definition VerifyIntegers64 :: verify_t where
  "VerifyIntegers64 = VerifyIntegers32 OR verify_types [TLong, TULong]"
definition VerifyFloats :: verify_t where "VerifyFloats = verify_types [TReal, TDouble]"
definition VerifyNumbers :: verify_t where "VerifyNumbers = VerifyIntegers OR VerifyFloats"
definition VerifyArrays :: verify_t where "VerifyArrays = verify_types [TArray, TPacked]"
definition VerifyProc :: verify_t where "VerifyProc = VerifyArrays OR VerifyExe"
definition VerifyCallable :: verify_t where
  "VerifyCallable = VerifyProc OR verify_types [TNull, TName, TOperator, TCurry, TThunk, TContinuation]"
definition VerifyLazySeq :: verify_t where "VerifyLazySeq = verify_types [TNull, TArray] OR VerifyLazy"
definition VerifyLazySeqNonempty :: verify_t where "VerifyLazySeqNonempty = verify_types [TArray] OR VerifyLazy"
definition VerifyTransducer :: verify_t where "VerifyTransducer = verify_types [TArray, TTagged]"
definition VerifyIndexable :: verify_t where "VerifyIndexable = verify_types [TString, TArray, TPacked]"

definition VerifyKey :: verify_t where
  "VerifyKey = verify_types [TByte, TInteger, TUInteger, TLong, TULong, TAddress,
     TReal, TDouble, TBoolean, TOperator, TMark, TName,
     TArray, TPacked, TString, TStream, TDict, TCurry,
     TThunk, TSet, TTagged, TRecord, TCoroutine, TPipeBuffer,
     TCell, TContinuation, TInt128, TUInt128, TOpaqueHandle]"

definition VerifyAny :: verify_t where
  "VerifyAny = verify_types [TNull, TByte, TInteger, TUInteger, TLong, TULong, TAddress, TReal,
     TDouble, TBoolean, TOperator, TMark, TName, TArray, TPacked, TString,
     TStream, TDict, TCurry, TThunk, TSet, TTagged, TRecord, TCoroutine,
     TPipeBuffer, TCell, TContinuation, TInt128, TUInt128, TOpaqueHandle]"

definition VerifyLiteral :: verify_t where
  "VerifyLiteral = VerifyAny AND NOT (verify_types [TOperator, TCurry, TAddress])"
definition VerifyExecutable :: verify_t where
  "VerifyExecutable = VerifyAny AND NOT (verify_types [TTagged, TRecord, TCoroutine, TAddress, TOpaqueHandle])"
definition VerifyHasAccess :: verify_t where
  "VerifyHasAccess = verify_types [TStream, TArray, TPacked, TString, TDict, TSet]"
definition VerifyHasLength :: verify_t where
  "VerifyHasLength = verify_types [TName, TArray, TPacked, TString, TDict, TSet, TRecord]"

lemmas verify_defs = VerifyFlagsShift_def verify_flag_def VerifyRW_def VerifyExe_def VerifyNotZero_def
  VerifyNotNegative_def VerifyNotInf_def VerifyNotNan_def VerifyIsAbsLessEqOne_def VerifyIsNormal_def
  VerifyIsFinite_def VerifyLazy_def VerifyGreaterEqualOne_def VerifyIsAbsLessOne_def
  VerifyGreaterThanNegOne_def VerifyNotNonPositiveInteger_def VerifyHandleKindShift_def
  VerifyHandleScreen_def VerifyHandleKindMask_def VerifyFloatConstraints_def verify_types_def
  TypeToVerify_def VerifySignedIntegers_def VerifyUnsignedIntegers_def VerifyIntegers_def
  VerifyIntegers32_def VerifyIntegers64_def VerifyFloats_def VerifyNumbers_def VerifyArrays_def
  VerifyProc_def VerifyCallable_def VerifyLazySeq_def VerifyLazySeqNonempty_def VerifyTransducer_def
  VerifyIndexable_def VerifyKey_def VerifyAny_def VerifyLiteral_def VerifyExecutable_def
  VerifyHasAccess_def VerifyHasLength_def

section \<open>The text of a descriptor\<close>

definition verify_composites :: "(verify_t \<times> string) list" where
  "verify_composites =
     [(VerifyAny, ''Any''), (VerifyKey, ''Key''), (VerifyProc, ''Proc''), (VerifyArrays, ''Arrays''),
      (VerifyIndexable, ''Indexable''), (VerifyNumbers, ''Numbers''), (VerifyFloats, ''Floats''),
      (VerifyIntegers, ''Integers''), (VerifyIntegers64, ''Integers64''),
      (VerifyUnsignedIntegers, ''UnsignedIntegers''), (VerifySignedIntegers, ''SignedIntegers''),
      (VerifyLazySeq, ''LazySeq''), (VerifyLazySeqNonempty, ''LazySeqNonempty''),
      (VerifyTransducer, ''Transducer'')]"

definition verify_sv :: "(verify_t \<times> string) list" where
  "verify_sv =
     [(VerifyRW, ''RW|''), (VerifyExe, ''X|''), (TypeToVerify TNull, ''Null|''),
      (TypeToVerify TByte, ''Byte|''), (TypeToVerify TInteger, ''Integer|''),
      (TypeToVerify TUInteger, ''UInteger|''), (TypeToVerify TLong, ''Long|''),
      (TypeToVerify TULong, ''ULong|''), (TypeToVerify TAddress, ''Address|''),
      (TypeToVerify TReal, ''Real|''), (TypeToVerify TDouble, ''Double|''),
      (TypeToVerify TBoolean, ''Boolean|''), (TypeToVerify TOperator, ''Operator|''),
      (TypeToVerify TMark, ''Mark|''), (TypeToVerify TName, ''Name|''),
      (TypeToVerify TArray, ''Array|''), (TypeToVerify TPacked, ''Packed|''),
      (TypeToVerify TString, ''String|''), (TypeToVerify TStream, ''Stream|''),
      (TypeToVerify TDict, ''Dict|''), (TypeToVerify TSourceLoc, ''SourceLoc|''),
      (TypeToVerify TCurry, ''Curry|''), (TypeToVerify TThunk, ''Thunk|''),
      (TypeToVerify TSet, ''Set|''), (TypeToVerify TTagged, ''Tagged|''),
      (TypeToVerify TRecord, ''Record|''), (TypeToVerify TCoroutine, ''Coroutine|''),
      (TypeToVerify TPipeBuffer, ''PipeBuffer|''), (TypeToVerify TCell, ''Cell|''),
      (TypeToVerify TContinuation, ''Continuation|''), (TypeToVerify TInt128, ''Int128|''),
      (TypeToVerify TUInt128, ''UInt128|''), (TypeToVerify TOpaqueHandle, ''OpaqueHandle|'')]"

text \<open>The loop over the bits: \<open>sz\<close> is what is left of the buffer, \<open>out\<close> the bytes copied so far.\<close>

fun describe_bits :: "(verify_t \<times> string) list \<Rightarrow> verify_t \<Rightarrow> nat \<Rightarrow> string \<Rightarrow> string" where
  "describe_bits [] x sz out = out"
| "describe_bits ((m_bit, m_sv) # entries) x sz out =
     (if x AND m_bit \<noteq> 0
      then if sz > length m_sv then describe_bits entries x (sz - length m_sv) (out @ m_sv) else out
      else describe_bits entries x sz out)"

text \<open>The last separator becomes the terminating NUL.\<close>

definition verify_description :: "nat \<Rightarrow> verify_t \<Rightarrow> string" where
  "verify_description sz x =
     (case map_of verify_composites x of
        Some name \<Rightarrow> name
      | None \<Rightarrow> (let out = describe_bits verify_sv x sz [] in if out \<noteq> [] then butlast out else []))"

definition VERIFY_FORMAL_BUFFER_SIZE :: nat where "VERIFY_FORMAL_BUFFER_SIZE = 210"
definition VERIFY_TYPE_BUFFER_SIZE :: nat where "VERIFY_TYPE_BUFFER_SIZE = 32"

section \<open>The checks\<close>

text \<open>The error a check raises when its flag is set and its test has the given result.\<close>

definition flag_check :: "verify_t \<Rightarrow> verify_t \<Rightarrow> (trix, bool) action \<Rightarrow> error \<Rightarrow> (trix, unit) action" where
  "flag_check formal flag test e =
     (if formal AND flag \<noteq> 0 then seq test (\<lambda>b. if b then raise e else ret ()) else ret ())"

definition not_test :: "(trix, bool) action \<Rightarrow> (trix, bool) action" where
  "not_test m = seq m (\<lambda>b. ret (\<not> b))"

definition check_float_range :: "verify_t \<Rightarrow> object \<Rightarrow> (trix, unit) action" where
  "check_float_range formal ob =
     seq (flag_check formal VerifyNotInf (floating_point_test fp_isinf ob) NumericalINF) (\<lambda>_.
     seq (flag_check formal VerifyNotNan (floating_point_test fp_isnan ob) NumericalNaN) (\<lambda>_.
     seq (flag_check formal VerifyIsAbsLessEqOne (not_test (floating_point_test fp_abs_lesseq_one ob)) RangeCheck) (\<lambda>_.
     seq (flag_check formal VerifyGreaterEqualOne (not_test (floating_point_test fp_greater_eq_one ob)) RangeCheck) (\<lambda>_.
     seq (flag_check formal VerifyIsAbsLessOne (not_test (floating_point_test fp_abs_less_one ob)) RangeCheck) (\<lambda>_.
     seq (flag_check formal VerifyGreaterThanNegOne (not_test (floating_point_test fp_greater_than_neg_one ob)) RangeCheck) (\<lambda>_.
     seq (flag_check formal VerifyNotNonPositiveInteger (floating_point_test fp_nonpositive_integer ob) RangeCheck) (\<lambda>_.
     seq (flag_check formal VerifyIsNormal (not_test (floating_point_test fp_isnormal ob)) NumericalINF) (\<lambda>_.
     flag_check formal VerifyIsFinite (not_test (floating_point_test fp_isfinite ob)) NumericalINF))))))))"

definition verify_type_check :: "verify_t \<Rightarrow> object \<Rightarrow> (trix, unit) action" where
  "verify_type_check formal ob =
     (let formal_is_executable = (formal AND VerifyExe \<noteq> 0);
          tbit = TypeToVerify (o_type ob);
          lit_exe_mismatch = (formal_is_executable \<and> \<not> o_executable ob \<and> tbit \<noteq> TypeToVerify TCurry)
      in if formal AND tbit = 0 \<or> lit_exe_mismatch
         then if formal = VerifyKey \<and> tbit = TypeToVerify TNull then raise TypeCheck
              else if formal = VerifyLazySeqNonempty \<and> tbit = TypeToVerify TNull then raise RangeCheck
              else raise TypeCheck
         else ret ())"

text \<open>The kind of an opaque handle is stored in the length bytes.\<close>

definition verify_handle_kind :: "verify_t \<Rightarrow> object \<Rightarrow> (trix, unit) action" where
  "verify_handle_kind formal ob =
     (let kind_constraints = formal AND VerifyHandleKindMask
      in if kind_constraints \<noteq> 0 \<and> o_type ob = TOpaqueHandle
         then if kind_constraints AND push_bit (VerifyHandleKindShift + m_length ob) 1 = 0
              then raise TypeCheck else ret ()
         else ret ())"

definition verify_rw_access :: "verify_t \<Rightarrow> object \<Rightarrow> (trix, unit) action" where
  "verify_rw_access formal ob t =
     (if formal AND VerifyRW \<noteq> 0 \<and> (has_object_access ob \<or> o_type ob = TDict \<or> o_type ob = TSet)
      then let readwrite = (if has_object_access ob then o_readwrite ob else m_value_rw t (m_offset ob))
           in if \<not> readwrite then (Raise ReadOnly, t) else (Value (), t)
      else (Value (), t))"

definition verify_type_match :: "otype \<Rightarrow> object \<Rightarrow> (trix, unit) action" where
  "verify_type_match first_type ob = (if o_type ob \<noteq> first_type then raise TypeCheck else ret ())"

definition verify_value_constraints :: "verify_t \<Rightarrow> object \<Rightarrow> (trix, unit) action" where
  "verify_value_constraints formal ob =
     seq (if is_number ob then flag_check formal VerifyNotZero (is_number_zero ob) RangeCheck else ret ()) (\<lambda>_.
     seq (if is_signed_number ob then flag_check formal VerifyNotNegative (is_number_negative ob) RangeCheck else ret ()) (\<lambda>_.
     seq (if formal = VerifyKey \<and> is_floating_point ob
          then seq (floating_point_test fp_isinf ob) (\<lambda>b. if b then raise NumericalINF
               else seq (floating_point_test fp_isnan ob) (\<lambda>b. if b then raise NumericalNaN else ret ()))
          else ret ()) (\<lambda>_.
     seq (if formal AND VerifyFloatConstraints \<noteq> 0 \<and> is_floating_point ob then check_float_range formal ob
          else ret ()) (\<lambda>_.
     (\<lambda>t. if formal AND VerifyLazy \<noteq> 0 \<and> o_type ob = TArray
          then if m_length ob \<noteq> 2 then (Raise TypeCheck, t)
               else if o_type (m_array_mem t (m_offset ob + 8)) \<noteq> TThunk then (Raise TypeCheck, t)
               else (Value (), t)
          else (Value (), t))))))"

datatype match_policy = AnyType | AllMustMatch

text \<open>The checks of one operand without the fast path.\<close>

definition verify_operand_full :: "match_policy \<Rightarrow> otype \<Rightarrow> verify_t \<Rightarrow> object \<Rightarrow> (trix, unit) action" where
  "verify_operand_full policy first_type formal ob =
     seq (verify_type_check formal ob) (\<lambda>_.
     seq (verify_handle_kind formal ob) (\<lambda>_.
     seq (verify_rw_access formal ob) (\<lambda>_.
     seq (if policy = AllMustMatch then verify_type_match first_type ob else ret ()) (\<lambda>_.
     verify_value_constraints formal ob))))"

definition verify_operand :: "match_policy \<Rightarrow> otype \<Rightarrow> verify_t \<Rightarrow> object \<Rightarrow> (trix, unit) action" where
  "verify_operand policy first_type formal ob =
     (let type_matches = (formal AND TypeToVerify (o_type ob) \<noteq> 0);
          has_extra_work = (drop_bit VerifyFlagsShift formal \<noteq> 0 \<or> formal = VerifyKey);
          fast_path = (policy = AnyType \<and> type_matches \<and> \<not> has_extra_work)
      in if fast_path then ret () else verify_operand_full policy first_type formal ob)"

fun verify_each ::
  "(verify_t \<Rightarrow> object \<Rightarrow> (trix, unit) action) \<Rightarrow> verify_t list \<Rightarrow> object list \<Rightarrow> (trix, unit) action" where
  "verify_each check (formal # formals) (ob # obs) = seq (check formal ob) (\<lambda>_. verify_each check formals obs)"
| "verify_each check _ _ = ret ()"

definition verify_with :: "match_policy \<Rightarrow> verify_t list \<Rightarrow> (trix, unit) action" where
  "verify_with policy formals t =
     (if length (ops t) < length formals then (Raise OpStackUnderflow, t)
      else verify_each (verify_operand policy (o_type (hd (ops t)))) formals (ops t) t)"

definition verify_operands :: "verify_t list \<Rightarrow> (trix, unit) action" where
  "verify_operands formals = verify_with AnyType formals"

definition verify_matched_operands :: "verify_t list \<Rightarrow> (trix, unit) action" where
  "verify_matched_operands formals = verify_with AllMustMatch formals"

section \<open>Marks and keys\<close>

text \<open>
  The number of operands above the nearest mark; the search may be stopped at a floor, given as the
  number of operands from the floor up.
\<close>

fun mark_depth :: "object list \<Rightarrow> nat option" where
  "mark_depth [] = None"
| "mark_depth (ob # obs) = (if o_type ob = TMark then Some 0 else map_option Suc (mark_depth obs))"

definition find_opstack_mark :: "nat option \<Rightarrow> (trix, nat) action" where
  "find_opstack_mark above_floor t =
     (case mark_depth (case above_floor of None \<Rightarrow> ops t | Some k \<Rightarrow> take k (ops t)) of
        Some count \<Rightarrow> (Value count, t)
      | None \<Rightarrow> (Raise UnmatchedMark, t))"

fun find_invalid_key_index :: "object list \<Rightarrow> nat \<Rightarrow> (trix, nat \<times> error) action" where
  "find_invalid_key_index [] i = ret (i, NoError)"
| "find_invalid_key_index (ob # obs) i =
     (if o_type ob = TNull then ret (i, TypeCheck)
      else if is_floating_point ob
      then seq (floating_point_test fp_isnan ob) (\<lambda>b. if b then ret (i, NumericalNaN)
           else seq (floating_point_test fp_isinf ob) (\<lambda>b. if b then ret (i, NumericalINF)
                else find_invalid_key_index obs (Suc i)))
      else find_invalid_key_index obs (Suc i))"

section \<open>The checks leave the state alone\<close>

definition reads_only :: "(trix, 'a) action \<Rightarrow> bool" where
  "reads_only m \<longleftrightarrow> (\<forall>t. snd (m t) = t)"

named_theorems reads_only_intro

lemma reads_only_simple [reads_only_intro]: "reads_only (ret x)" "reads_only (raise e)" "reads_only (gets f)"
  by (simp_all add: reads_only_def)

lemma reads_only_seq [reads_only_intro]:
  assumes "reads_only m" "\<And>x. reads_only (f x)"
  shows "reads_only (seq m f)"
proof -
  have "snd (seq m f t) = t" for t
    using assms by (cases "m t"; cases "fst (m t)") (auto simp: reads_only_def seq_def dest: spec [of _ t])
  then show ?thesis by (simp add: reads_only_def)
qed

lemma reads_only_if [reads_only_intro]: "reads_only m \<Longrightarrow> reads_only m' \<Longrightarrow> reads_only (if b then m else m')"
  by simp

lemma reads_only_cell_lanes [reads_only_intro]: "reads_only (cell_lanes ob)"
  by (simp add: reads_only_def cell_lanes_def)

lemma reads_only_number_of [reads_only_intro]: "reads_only (number_of ob)"
  unfolding number_of_def by (intro reads_only_intro)

lemma reads_only_floating_point_test [reads_only_intro]: "reads_only (floating_point_test pred ob)"
  unfolding floating_point_test_def by (intro reads_only_intro)

lemma reads_only_tests [reads_only_intro]:
  "reads_only (is_number_zero ob)" "reads_only (is_number_negative ob)"
  unfolding is_number_zero_def is_number_negative_def by (intro reads_only_intro)+

lemma reads_only_flag_check [reads_only_intro]: "reads_only test \<Longrightarrow> reads_only (flag_check formal flag test e)"
  unfolding flag_check_def by (intro reads_only_intro)

lemma reads_only_not_test [reads_only_intro]: "reads_only test \<Longrightarrow> reads_only (not_test test)"
  unfolding not_test_def by (intro reads_only_intro)

lemma reads_only_verify_operand [reads_only_intro]:
  "reads_only (verify_operand_full policy ty formal ob)" "reads_only (verify_operand policy ty formal ob)"
proof -
  have rw: "reads_only (verify_rw_access formal ob)" by (simp add: reads_only_def verify_rw_access_def Let_def)
  have lz: "reads_only (\<lambda>t. if formal AND VerifyLazy \<noteq> 0 \<and> o_type ob = TArray
      then if m_length ob \<noteq> 2 then (Raise TypeCheck, t)
        else if o_type (m_array_mem t (m_offset ob + 8)) \<noteq> TThunk then (Raise TypeCheck, t) else (Value (), t)
      else (Value (), t))" by (simp add: reads_only_def)
  show "reads_only (verify_operand_full policy ty formal ob)"
    unfolding verify_operand_full_def verify_type_check_def verify_handle_kind_def verify_type_match_def
      verify_value_constraints_def check_float_range_def Let_def by (intro reads_only_intro rw lz)
  then show "reads_only (verify_operand policy ty formal ob)"
    unfolding verify_operand_def Let_def by (intro reads_only_intro)
qed

lemma reads_only_verify_each:
  "(\<And>formal ob. reads_only (check formal ob)) \<Longrightarrow> reads_only (verify_each check formals obs)"
  by (induction check formals obs rule: verify_each.induct) (auto intro: reads_only_intro)

lemma verify_operands_state: "snd (verify_operands formals t) = t"
proof -
  have "reads_only (verify_each (verify_operand AnyType ty) formals obs)" for ty obs
    by (rule reads_only_verify_each) (rule reads_only_verify_operand)
  then show ?thesis by (simp add: verify_operands_def verify_with_def reads_only_def)
qed

lemma verify_operands_cases: "(\<exists>e. verify_operands formals t = (Raise e, t)) \<or> verify_operands formals t = (Value (), t)
    \<or> verify_operands formals t = (Diverge, t) \<or> verify_operands formals t = (Fault, t)"
  using verify_operands_state [of formals t] by (cases "verify_operands formals t"; cases "fst (verify_operands formals t)") auto

section \<open>The fast path\<close>

lemma no_flag_bits: "drop_bit 32 (x :: u64) = 0 \<Longrightarrow> x AND push_bit 32 w = 0"
proof -
  assume z: "drop_bit 32 x = 0"
  have "x AND push_bit 32 w = push_bit 32 (drop_bit 32 x AND w)"
    by (rule bit_word_eqI) (auto simp: bit_simps)
  then show ?thesis using z by simp
qed

lemma fast_path_sound:
  assumes "formal AND TypeToVerify (o_type ob) \<noteq> 0" "drop_bit VerifyFlagsShift formal = 0" "formal \<noteq> VerifyKey"
  shows "verify_operand_full AnyType ty formal ob = ret ()"
proof -
  have z: "formal AND verify_flag w = 0" for w
    using no_flag_bits assms(2) by (simp add: verify_flag_def VerifyFlagsShift_def)
  have hs: "VerifyHandleScreen = verify_flag (push_bit 14 1)"
    by (simp add: VerifyHandleScreen_def VerifyHandleKindShift_def verify_flag_def VerifyFlagsShift_def)
  have fc: "formal AND VerifyFloatConstraints = 0"
    unfolding VerifyFloatConstraints_def VerifyNotInf_def VerifyNotNan_def VerifyIsAbsLessEqOne_def
      VerifyGreaterEqualOne_def VerifyIsAbsLessOne_def VerifyGreaterThanNegOne_def
      VerifyNotNonPositiveInteger_def VerifyIsNormal_def VerifyIsFinite_def
    by (simp only: bit.conj_disj_distrib z or.right_neutral)
  have sq: "seq (ret ()) f = f ()" for f :: "unit \<Rightarrow> (trix, unit) action" by (simp add: seq_def ret_def)
  have rw: "verify_rw_access formal ob = ret ()"
    by (rule ext) (simp add: verify_rw_access_def VerifyRW_def z)
  have vc: "verify_value_constraints formal ob = ret ()"
    using assms(3) by (simp add: verify_value_constraints_def flag_check_def VerifyNotZero_def
        VerifyNotNegative_def VerifyLazy_def z fc sq fun_eq_iff)
  show ?thesis using assms(1)
    by (simp add: verify_operand_full_def verify_type_check_def verify_handle_kind_def
        VerifyHandleKindMask_def hs VerifyExe_def z rw vc sq) (simp add: ret_def)
qed

lemma verify_operand_any: "verify_operand AnyType ty = verify_operand_full AnyType ty"
  using fast_path_sound by (intro ext) (simp add: verify_operand_def Let_def)

text \<open>
  C9. The fast path of the operand check is sound and complete: for every list of descriptors and
  every state, checking the operands with the fast path gives the same outcome as running all five
  checks on every operand.
\<close>

theorem verify_fast_path_equiv:
  "verify_operands formals t =
     (if length (ops t) < length formals then (Raise OpStackUnderflow, t)
      else verify_each (verify_operand_full AnyType (o_type (hd (ops t)))) formals (ops t) t)"
  by (simp add: verify_operands_def verify_with_def verify_operand_any cong: if_cong)

section \<open>The descriptors and the attribute table\<close>

lemma type_bit_and: "(x AND TypeToVerify ty = 0) \<longleftrightarrow> \<not> bit x (type_code ty)"
  by (simp add: TypeToVerify_def push_bit_eq_mult and_exp_eq_0_iff_not_bit)

text \<open>
  C22. The predefined descriptors agree with the attribute table of the object module: those for integers,
  numbers, signed numbers, access and length accept exactly the types whose table row has the
  attribute. \<^verbatim>\<open>VerifyAny\<close> accepts every type except \<^verbatim>\<open>SourceLoc\<close> and \<^verbatim>\<open>SlotRef\<close>, unlike the comment at the head of
  the file, which calls it any type with all bits set; \<^verbatim>\<open>VerifyKey\<close> accepts what \<^verbatim>\<open>VerifyAny\<close> accepts, without
  \<^verbatim>\<open>Null\<close>.
\<close>

theorem verify_masks_agree:
  "(VerifyIntegers AND TypeToVerify (o_type ob) \<noteq> 0) = is_integral ob \<and>
   (VerifyNumbers AND TypeToVerify (o_type ob) \<noteq> 0) = is_number ob \<and>
   ((VerifySignedIntegers OR VerifyFloats) AND TypeToVerify (o_type ob) \<noteq> 0) = is_signed_number ob \<and>
   (VerifyHasAccess AND TypeToVerify (o_type ob) \<noteq> 0) = (has_attr HasObjectAccess ob \<or> has_attr HasValueAccess ob) \<and>
   (VerifyHasLength AND TypeToVerify (o_type ob) \<noteq> 0) = (has_attr HasObjectLength ob \<or> has_attr HasValueLength ob) \<and>
   (VerifyAny AND TypeToVerify (o_type ob) \<noteq> 0) = (o_type ob \<noteq> TSourceLoc \<and> o_type ob \<noteq> TSlotRef) \<and>
   (VerifyKey AND TypeToVerify (o_type ob) \<noteq> 0) = (VerifyAny AND TypeToVerify (o_type ob) \<noteq> 0 \<and> o_type ob \<noteq> TNull)"
  unfolding type_bit_and
  by (intro conjI; cases "o_type ob"; simp add: verify_defs is_integral_def is_number_def is_signed_number_def is_floating_point_def has_attr_def)

section \<open>The description buffer\<close>

definition described :: "(verify_t \<times> string) list \<Rightarrow> verify_t \<Rightarrow> string" where
  "described entries x = concat (map snd (filter (\<lambda>entry. x AND fst entry \<noteq> 0) entries))"

lemma describe_bits_length: "0 < sz \<Longrightarrow> length (describe_bits entries x sz out) < length out + sz"
  by (induction entries x sz out rule: describe_bits.induct) auto

lemma describe_bits_prefix: "\<exists>rest. out @ described entries x = describe_bits entries x sz out @ rest"
  by (induction entries x sz out rule: describe_bits.induct) (auto simp: described_def)

lemma describe_bits_full:
  "length (described entries x) < sz \<Longrightarrow> describe_bits entries x sz out = out @ described entries x"
  by (induction entries x sz out rule: describe_bits.induct) (auto simp: described_def)

text \<open>
  The description of a descriptor never writes past its buffer, terminator included; what it
  writes is a prefix of the whole text, and all of it when the text fits. The name of every single
  operand type fits the 32 bytes reserved for it.
\<close>

theorem verify_description_fits:
  "(0 < sz \<longrightarrow> length (describe_bits verify_sv x sz []) < sz) \<and>
   (\<exists>rest. described verify_sv x = describe_bits verify_sv x sz [] @ rest) \<and>
   (length (described verify_sv x) < sz \<longrightarrow> map_of verify_composites x = None \<longrightarrow>
     verify_description sz x = butlast (described verify_sv x)) \<and>
   length (described verify_sv (TypeToVerify ty)) < VERIFY_TYPE_BUFFER_SIZE"
proof (intro conjI impI)
  show "length (describe_bits verify_sv x sz []) < sz" if "0 < sz"
    using describe_bits_length [OF that, of verify_sv x "[]"] by simp
  show "\<exists>rest. described verify_sv x = describe_bits verify_sv x sz [] @ rest"
    using describe_bits_prefix [of "[]" verify_sv x sz] by simp
  show "verify_description sz x = butlast (described verify_sv x)"
    if "length (described verify_sv x) < sz" "map_of verify_composites x = None"
    using describe_bits_full [OF that(1), of "[]"] that(2) by (simp add: verify_description_def Let_def)
  show "length (described verify_sv (TypeToVerify ty)) < VERIFY_TYPE_BUFFER_SIZE"
    by (cases ty) (simp_all add: described_def verify_sv_def verify_defs VERIFY_TYPE_BUFFER_SIZE_def)
qed

theorem verify_description_fits_witness:
  "verify_description 210 VerifyLiteral = butlast (described verify_sv VerifyLiteral) \<and>
   length (described verify_sv VerifyLiteral) = 191"
proof -
  have "length (described verify_sv VerifyLiteral) = 191"
    by (simp add: described_def verify_sv_def verify_defs)
  moreover have "map_of verify_composites VerifyLiteral = None"
    by (simp add: verify_composites_def verify_defs)
  ultimately show ?thesis using verify_description_fits [of 210 VerifyLiteral TNull] by simp
qed

end
