(* ===== verification/Control_Ops.thy ===== *)
theory Control_Ops
  imports Machine
begin

text \<open>
  The control operators: the internal operators (named \<^verbatim>\<open>@...\<close>) that the interpreter keeps on the
  execution stack to run loops, handlers and other control structures. Two tables describe
  them: \<^verbatim>\<open>make_control_operator\<close> of \<^verbatim>\<open>src/object.inl\<close> gives each its flags and the number of
  execution-stack slots of its frame, and \<^verbatim>\<open>sm_op_descriptors\<close> of \<^verbatim>\<open>src/op_descriptor.inl\<close> gives what
  the unwinders do when they meet it. The operators are written by the names of the
  enumeration \<^verbatim>\<open>SystemName\<close> (\<^verbatim>\<open>src/enums.inl\<close>); the build without the debugger is modelled.
\<close>

section \<open>Names\<close>

type_synonym sysname = nat

text \<open>
  The values of the enumeration; the control operators come after the variables and dictionaries.
\<close>

definition FIRST_CONTROL_OP :: sysname where "FIRST_CONTROL_OP = 74"
definition atRun :: sysname where [simp]: "atRun = 74"
definition atStop :: sysname where [simp]: "atStop = 75"
definition atTryBarrier :: sysname where [simp]: "atTryBarrier = 76"
definition atTryCatchBarrier :: sysname where [simp]: "atTryCatchBarrier = 77"
definition atCatchError :: sysname where [simp]: "atCatchError = 78"
definition atFinallyBarrier :: sysname where [simp]: "atFinallyBarrier = 79"
definition atFinallyReraise :: sysname where [simp]: "atFinallyReraise = 80"
definition atWithStream :: sysname where [simp]: "atWithStream = 81"
definition atLoop :: sysname where [simp]: "atLoop = 82"
definition atUIntegerRepeat :: sysname where [simp]: "atUIntegerRepeat = 83"
definition atULongRepeat :: sysname where [simp]: "atULongRepeat = 84"
definition atArrayForAll :: sysname where [simp]: "atArrayForAll = 85"
definition atPackedForAll :: sysname where [simp]: "atPackedForAll = 86"
definition atStringForAll :: sysname where [simp]: "atStringForAll = 87"
definition atDictForAll :: sysname where [simp]: "atDictForAll = 88"
definition atSetForAll :: sysname where [simp]: "atSetForAll = 89"
definition atDictMap :: sysname where [simp]: "atDictMap = 90"
definition atDictFilter :: sysname where [simp]: "atDictFilter = 91"
definition atSetFilter :: sysname where [simp]: "atSetFilter = 92"
definition atByteFor :: sysname where [simp]: "atByteFor = 93"
definition atIntegerFor :: sysname where [simp]: "atIntegerFor = 94"
definition atUIntegerFor :: sysname where [simp]: "atUIntegerFor = 95"
definition atLongFor :: sysname where [simp]: "atLongFor = 96"
definition atULongFor :: sysname where [simp]: "atULongFor = 97"
definition atAddressFor :: sysname where [simp]: "atAddressFor = 98"
definition atRealFor :: sysname where [simp]: "atRealFor = 99"
definition atDoubleFor :: sysname where [simp]: "atDoubleFor = 100"
definition atCall :: sysname where [simp]: "atCall = 101"
definition atDip :: sysname where [simp]: "atDip = 102"
definition atArrayMap :: sysname where [simp]: "atArrayMap = 103"
definition atArrayFilter :: sysname where [simp]: "atArrayFilter = 104"
definition atArrayFind :: sysname where [simp]: "atArrayFind = 105"
definition atArrayAny :: sysname where [simp]: "atArrayAny = 106"
definition atArrayAll :: sysname where [simp]: "atArrayAll = 107"
definition atEndLocals :: sysname where [simp]: "atEndLocals = 108"
definition atWhile :: sysname where [simp]: "atWhile = 109"
definition atDoWhile :: sysname where [simp]: "atDoWhile = 110"
definition atTime :: sysname where [simp]: "atTime = 111"
definition atArrayCount :: sysname where [simp]: "atArrayCount = 112"
definition atArrayPartition :: sysname where [simp]: "atArrayPartition = 113"
definition atArrayMinBy :: sysname where [simp]: "atArrayMinBy = 114"
definition atArrayMaxBy :: sysname where [simp]: "atArrayMaxBy = 115"
definition atArraySortBy :: sysname where [simp]: "atArraySortBy = 116"
definition atArrayScan :: sysname where [simp]: "atArrayScan = 117"
definition atArrayGroupBy :: sysname where [simp]: "atArrayGroupBy = 118"
definition atArrayTakeWhile :: sysname where [simp]: "atArrayTakeWhile = 119"
definition atArrayDropWhile :: sysname where [simp]: "atArrayDropWhile = 120"
definition atHandlerDone :: sysname where [simp]: "atHandlerDone = 121"
definition atReplBarrier :: sysname where [simp]: "atReplBarrier = 122"
definition atReplRecover :: sysname where [simp]: "atReplRecover = 123"
definition atForceComplete :: sysname where [simp]: "atForceComplete = 124"
definition atForceFail :: sysname where [simp]: "atForceFail = 125"
definition atLazyMapBuild :: sysname where [simp]: "atLazyMapBuild = 126"
definition atLazyFilterTest :: sysname where [simp]: "atLazyFilterTest = 127"
definition atLazyFilterResume :: sysname where [simp]: "atLazyFilterResume = 128"
definition atLazyFilterMapTest :: sysname where [simp]: "atLazyFilterMapTest = 129"
definition atLazyFilterMapResume :: sysname where [simp]: "atLazyFilterMapResume = 130"
definition atLazyFlatMapBuild :: sysname where [simp]: "atLazyFlatMapBuild = 131"
definition atLazyFlatMapResume :: sysname where [simp]: "atLazyFlatMapResume = 132"
definition atLazyIterateBuild :: sysname where [simp]: "atLazyIterateBuild = 133"
definition atLazyUnfoldBuild :: sysname where [simp]: "atLazyUnfoldBuild = 134"
definition atLazyScanBuild :: sysname where [simp]: "atLazyScanBuild = 135"
definition atLazyMapIndexedBuild :: sysname where [simp]: "atLazyMapIndexedBuild = 136"
definition atLazyTakeWhileTest :: sysname where [simp]: "atLazyTakeWhileTest = 137"
definition atLazyDropWhileTest :: sysname where [simp]: "atLazyDropWhileTest = 138"
definition atLazyDropWhileResume :: sysname where [simp]: "atLazyDropWhileResume = 139"
definition atLazyDropStep :: sysname where [simp]: "atLazyDropStep = 140"
definition atLazyZipWithBuild :: sysname where [simp]: "atLazyZipWithBuild = 141"
definition atLazyChunkedCollect :: sysname where [simp]: "atLazyChunkedCollect = 142"
definition atLazyFoldStep :: sysname where [simp]: "atLazyFoldStep = 143"
definition atLazyForEachStep :: sysname where [simp]: "atLazyForEachStep = 144"
definition atLazyAnyStep :: sysname where [simp]: "atLazyAnyStep = 145"
definition atLazyAllStep :: sysname where [simp]: "atLazyAllStep = 146"
definition atLazyFindStep :: sysname where [simp]: "atLazyFindStep = 147"
definition atLazyFindIndexStep :: sysname where [simp]: "atLazyFindIndexStep = 148"
definition atLazyToArrayStep :: sysname where [simp]: "atLazyToArrayStep = 149"
definition atLazyCountStep :: sysname where [simp]: "atLazyCountStep = 150"
definition atLazyNthHead :: sysname where [simp]: "atLazyNthHead = 151"
definition atLazyMapImpl :: sysname where [simp]: "atLazyMapImpl = 152"
definition atLazyFilterImpl :: sysname where [simp]: "atLazyFilterImpl = 153"
definition atLazyTakeWhileImpl :: sysname where [simp]: "atLazyTakeWhileImpl = 154"
definition atLazyUnfoldImpl :: sysname where [simp]: "atLazyUnfoldImpl = 155"
definition atLazyFilterMapImpl :: sysname where [simp]: "atLazyFilterMapImpl = 156"
definition atLazyFlatMapImpl :: sysname where [simp]: "atLazyFlatMapImpl = 157"
definition atLazyZipWithImpl :: sysname where [simp]: "atLazyZipWithImpl = 158"
definition atEndModule :: sysname where [simp]: "atEndModule = 159"
definition atCheckModule :: sysname where [simp]: "atCheckModule = 160"
definition atArrayMapIndexed :: sysname where [simp]: "atArrayMapIndexed = 161"
definition atUpdate :: sysname where [simp]: "atUpdate = 162"
definition atUpdatePersist :: sysname where [simp]: "atUpdatePersist = 163"
definition atTagUpdateComplete :: sysname where [simp]: "atTagUpdateComplete = 164"
definition atTryResultComplete :: sysname where [simp]: "atTryResultComplete = 165"
definition atTryRollback :: sysname where [simp]: "atTryRollback = 166"
definition atRecordCtor :: sysname where [simp]: "atRecordCtor = 167"
definition atRecordForAll :: sysname where [simp]: "atRecordForAll = 168"
definition atRecordMapFieldComplete :: sysname where [simp]: "atRecordMapFieldComplete = 169"
definition atRecordMapStep :: sysname where [simp]: "atRecordMapStep = 170"
definition atCoroutineAwaitCheck :: sysname where [simp]: "atCoroutineAwaitCheck = 171"
definition atCoroutineComplete :: sysname where [simp]: "atCoroutineComplete = 172"
definition atCoroutineJoinCheck :: sysname where [simp]: "atCoroutineJoinCheck = 173"
definition atCoroutineWaitAllCheck :: sysname where [simp]: "atCoroutineWaitAllCheck = 174"
definition atPipePutRetry :: sysname where [simp]: "atPipePutRetry = 175"
definition atPipeGetRetry :: sysname where [simp]: "atPipeGetRetry = 176"
definition atReadKeyRetry :: sysname where [simp]: "atReadKeyRetry = 177"
definition atReadKeyTimeoutRetry :: sysname where [simp]: "atReadKeyTimeoutRetry = 178"
definition atPipeStage :: sysname where [simp]: "atPipeStage = 179"
definition atPipeCleanup :: sysname where [simp]: "atPipeCleanup = 180"
definition atActorSendRetry :: sysname where [simp]: "atActorSendRetry = 181"
definition atActorRecvCheck :: sysname where [simp]: "atActorRecvCheck = 182"
definition atActorRecvTimeoutCheck :: sysname where [simp]: "atActorRecvTimeoutCheck = 183"
definition atActorRecvMatchCheck :: sysname where [simp]: "atActorRecvMatchCheck = 184"
definition atActorRecvMatchTimeoutCheck :: sysname where [simp]: "atActorRecvMatchTimeoutCheck = 185"
definition atSupervisorCheck :: sysname where [simp]: "atSupervisorCheck = 186"
definition atSupervisorInit :: sysname where [simp]: "atSupervisorInit = 187"
definition atChoiceBarrier :: sysname where [simp]: "atChoiceBarrier = 188"
definition atChoiceFail :: sysname where [simp]: "atChoiceFail = 189"
definition atCellEval :: sysname where [simp]: "atCellEval = 190"
definition atCellEvalFail :: sysname where [simp]: "atCellEvalFail = 191"
definition atBatchEnd :: sysname where [simp]: "atBatchEnd = 192"
definition atBatchFail :: sysname where [simp]: "atBatchFail = 193"
definition atBatchFire :: sysname where [simp]: "atBatchFire = 194"
definition atBatchFireFail :: sysname where [simp]: "atBatchFireFail = 195"
definition atCellUpdateDone :: sysname where [simp]: "atCellUpdateDone = 196"
definition atCellValidateInit :: sysname where [simp]: "atCellValidateInit = 197"
definition atCellValidateSet :: sysname where [simp]: "atCellValidateSet = 198"
definition atChoiceCountBarrier :: sysname where [simp]: "atChoiceCountBarrier = 199"
definition atChoiceCountFail :: sysname where [simp]: "atChoiceCountFail = 200"
definition atFindAllBarrier :: sysname where [simp]: "atFindAllBarrier = 201"
definition atFindAllFail :: sysname where [simp]: "atFindAllFail = 202"
definition atFindNBarrier :: sysname where [simp]: "atFindNBarrier = 203"
definition atFindNFail :: sysname where [simp]: "atFindNFail = 204"
definition atAggregateBarrier :: sysname where [simp]: "atAggregateBarrier = 205"
definition atAggregateFail :: sysname where [simp]: "atAggregateFail = 206"
definition atAggregateReduceBarrier :: sysname where [simp]: "atAggregateReduceBarrier = 207"
definition atAggregateReduceFail :: sysname where [simp]: "atAggregateReduceFail = 208"
definition atForEachSolutionBarrier :: sysname where [simp]: "atForEachSolutionBarrier = 209"
definition atForEachSolutionFail :: sysname where [simp]: "atForEachSolutionFail = 210"
definition atNafBarrier :: sysname where [simp]: "atNafBarrier = 211"
definition atNafFail :: sysname where [simp]: "atNafFail = 212"
definition atOnceBarrier :: sysname where [simp]: "atOnceBarrier = 213"
definition atOnceFail :: sysname where [simp]: "atOnceFail = 214"
definition atUnifyMatchBarrier :: sysname where [simp]: "atUnifyMatchBarrier = 215"
definition atUnifyMatchFail :: sysname where [simp]: "atUnifyMatchFail = 216"
definition atMatchTest :: sysname where [simp]: "atMatchTest = 217"
definition atMatchAllTest :: sysname where [simp]: "atMatchAllTest = 218"
definition atClosureEnd :: sysname where [simp]: "atClosureEnd = 219"
definition atEnsureCheck :: sysname where [simp]: "atEnsureCheck = 220"
definition atGenServerInit :: sysname where [simp]: "atGenServerInit = 221"
definition atGenServerRecv :: sysname where [simp]: "atGenServerRecv = 222"
definition atGenServerCallDone :: sysname where [simp]: "atGenServerCallDone = 223"
definition atGenServerCastDone :: sysname where [simp]: "atGenServerCastDone = 224"
definition atGenCallTimeoutDone :: sysname where [simp]: "atGenCallTimeoutDone = 225"
definition atDelimitBarrier :: sysname where [simp]: "atDelimitBarrier = 226"
definition atEffectBarrier :: sysname where [simp]: "atEffectBarrier = 227"
definition atHandlerScope :: sysname where [simp]: "atHandlerScope = 228"
definition atInGlobal :: sysname where [simp]: "atInGlobal = 229"
definition atInLocal :: sysname where [simp]: "atInLocal = 230"
definition atEndInGlobal :: sysname where [simp]: "atEndInGlobal = 231"

text \<open>The control-operator range, in order.\<close>

definition control_op_names :: "sysname list" where
  "control_op_names = [
      atRun, atStop, atTryBarrier, atTryCatchBarrier, atCatchError, atFinallyBarrier, atFinallyReraise,
       atWithStream, atLoop, atUIntegerRepeat, atULongRepeat, atArrayForAll, atPackedForAll,
       atStringForAll, atDictForAll, atSetForAll, atDictMap, atDictFilter, atSetFilter, atByteFor,
       atIntegerFor, atUIntegerFor, atLongFor, atULongFor, atAddressFor, atRealFor, atDoubleFor, atCall,
       atDip, atArrayMap, atArrayFilter, atArrayFind, atArrayAny, atArrayAll, atEndLocals, atWhile,
       atDoWhile, atTime, atArrayCount, atArrayPartition, atArrayMinBy, atArrayMaxBy, atArraySortBy,
       atArrayScan, atArrayGroupBy, atArrayTakeWhile, atArrayDropWhile, atHandlerDone, atReplBarrier,
       atReplRecover, atForceComplete, atForceFail, atLazyMapBuild, atLazyFilterTest, atLazyFilterResume,
       atLazyFilterMapTest, atLazyFilterMapResume, atLazyFlatMapBuild, atLazyFlatMapResume,
       atLazyIterateBuild, atLazyUnfoldBuild, atLazyScanBuild, atLazyMapIndexedBuild, atLazyTakeWhileTest,
       atLazyDropWhileTest, atLazyDropWhileResume, atLazyDropStep, atLazyZipWithBuild,
       atLazyChunkedCollect, atLazyFoldStep, atLazyForEachStep, atLazyAnyStep, atLazyAllStep,
       atLazyFindStep, atLazyFindIndexStep, atLazyToArrayStep, atLazyCountStep, atLazyNthHead,
       atLazyMapImpl, atLazyFilterImpl, atLazyTakeWhileImpl, atLazyUnfoldImpl, atLazyFilterMapImpl,
       atLazyFlatMapImpl, atLazyZipWithImpl, atEndModule, atCheckModule, atArrayMapIndexed, atUpdate,
       atUpdatePersist, atTagUpdateComplete, atTryResultComplete, atTryRollback, atRecordCtor,
       atRecordForAll, atRecordMapFieldComplete, atRecordMapStep, atCoroutineAwaitCheck,
       atCoroutineComplete, atCoroutineJoinCheck, atCoroutineWaitAllCheck, atPipePutRetry, atPipeGetRetry,
       atReadKeyRetry, atReadKeyTimeoutRetry, atPipeStage, atPipeCleanup, atActorSendRetry,
       atActorRecvCheck, atActorRecvTimeoutCheck, atActorRecvMatchCheck, atActorRecvMatchTimeoutCheck,
       atSupervisorCheck, atSupervisorInit, atChoiceBarrier, atChoiceFail, atCellEval, atCellEvalFail,
       atBatchEnd, atBatchFail, atBatchFire, atBatchFireFail, atCellUpdateDone, atCellValidateInit,
       atCellValidateSet, atChoiceCountBarrier, atChoiceCountFail, atFindAllBarrier, atFindAllFail,
       atFindNBarrier, atFindNFail, atAggregateBarrier, atAggregateFail, atAggregateReduceBarrier,
       atAggregateReduceFail, atForEachSolutionBarrier, atForEachSolutionFail, atNafBarrier, atNafFail,
       atOnceBarrier, atOnceFail, atUnifyMatchBarrier, atUnifyMatchFail, atMatchTest, atMatchAllTest,
       atClosureEnd, atEnsureCheck, atGenServerInit, atGenServerRecv, atGenServerCallDone,
       atGenServerCastDone, atGenCallTimeoutDone, atDelimitBarrier, atEffectBarrier, atHandlerScope,
       atInGlobal, atInLocal, atEndInGlobal]"

section \<open>Flags and frames\<close>

definition StandardOp :: u8 where "StandardOp = 0x00"
definition ControlOp :: u8 where "ControlOp = 0x01"
definition RunOp :: u8 where "RunOp = 0x02"
definition StopOp :: u8 where "StopOp = 0x04"
definition DictForAllOp :: u8 where "DictForAllOp = 0x08"
definition BarrierOp :: u8 where "BarrierOp = 0x10"
definition ErrorPushOp :: u8 where "ErrorPushOp = 0x20"
definition DictPopOp :: u8 where "DictPopOp = 0x40"
definition ExitFenceOp :: u8 where "ExitFenceOp = 0x80"

lemmas op_flag_defs = StandardOp_def ControlOp_def RunOp_def StopOp_def DictForAllOp_def BarrierOp_def
  ErrorPushOp_def DictPopOp_def ExitFenceOp_def

text \<open>
  The cases of the switch, one entry per \<^verbatim>\<open>return\<close>: the operators, the flags and the pop count.
\<close>

type_synonym control_row = "sysname list \<times> u8 \<times> nat"

definition loop_rows :: "control_row list" where
  "loop_rows = [
    ([atRun],
      RunOp, 0),
    ([atStop],
      StopOp, 0),
    ([atLoop, atDoWhile],
      ControlOp, 2),
    ([atUIntegerRepeat, atULongRepeat, atArrayAny, atArrayAll, atWhile],
      ControlOp, 3),
    ([atArrayForAll, atPackedForAll, atStringForAll],
      ControlOp, 4),
    ([atArrayFind, atArrayCount],
      ControlOp, 4),
    ([atDictForAll],
      DictForAllOp OR ControlOp, 6),
    ([atSetForAll],
      ControlOp, 6),
    ([atDictMap],
      ControlOp, 7),
    ([atDictFilter],
      ControlOp, 8),
    ([atSetFilter],
      ControlOp, 7),
    ([atByteFor, atIntegerFor, atUIntegerFor, atLongFor, atULongFor, atAddressFor, atRealFor, atDoubleFor],
      ControlOp, 5),
    ([atArrayMap, atArrayMapIndexed],
      ControlOp, 5),
    ([atArrayMinBy, atArrayMaxBy],
      ControlOp, 6),
    ([atArraySortBy],
      ControlOp, 6),
    ([atArrayScan],
      ControlOp, 6),
    ([atArrayFilter],
      ControlOp, 6),
    ([atArrayGroupBy],
      ControlOp, 6),
    ([atArrayTakeWhile],
      ControlOp, 6),
    ([atArrayDropWhile],
      ControlOp, 4)]"

definition barrier_rows :: "control_row list" where
  "barrier_rows = [
    ([atArrayPartition],
      ControlOp, 8),
    ([atTryBarrier, atTryCatchBarrier, atReplBarrier],
      BarrierOp OR ErrorPushOp, 0),
    ([atFinallyBarrier, atWithStream, atChoiceBarrier, atCellEval, atBatchEnd, atBatchFire,
       atChoiceCountBarrier, atFindAllBarrier, atFindNBarrier, atForEachSolutionBarrier,
       atAggregateBarrier, atAggregateReduceBarrier, atOnceBarrier, atNafBarrier, atUnifyMatchBarrier,
       atForceComplete],
      BarrierOp, 0),
    ([atEndLocals, atEndModule, atClosureEnd],
      DictPopOp, 0)]"

definition library_rows :: "control_row list" where
  "library_rows = [
    ([atCatchError, atFinallyReraise, atCall, atDip, atUpdate, atUpdatePersist, atCheckModule, atTime,
       atHandlerDone, atReplRecover],
      StandardOp, 0),
    ([atCoroutineAwaitCheck, atCoroutineComplete, atCoroutineJoinCheck, atCoroutineWaitAllCheck,
       atTagUpdateComplete, atTryResultComplete, atTryRollback],
      StandardOp, 0),
    ([atRecordCtor],
      StandardOp, 0),
    ([atRecordForAll],
      ControlOp, 5),
    ([atRecordMapFieldComplete],
      StandardOp, 0),
    ([atRecordMapStep],
      ControlOp, 5),
    ([atLazyMapBuild, atLazyIterateBuild, atLazyUnfoldBuild, atLazyScanBuild, atLazyMapIndexedBuild,
       atLazyZipWithBuild, atLazyTakeWhileTest, atLazyFlatMapBuild, atLazyFlatMapResume],
      StandardOp, 0),
    ([atLazyFilterTest, atLazyFilterResume, atLazyFilterMapTest, atLazyFilterMapResume,
       atLazyDropWhileTest, atLazyDropWhileResume, atLazyDropStep, atLazyChunkedCollect, atLazyFoldStep,
       atLazyForEachStep, atLazyAnyStep, atLazyAllStep, atLazyFindStep, atLazyFindIndexStep,
       atLazyToArrayStep, atLazyCountStep, atLazyNthHead, atLazyMapImpl, atLazyFilterImpl,
       atLazyTakeWhileImpl, atLazyUnfoldImpl, atLazyFilterMapImpl, atLazyFlatMapImpl, atLazyZipWithImpl],
      StandardOp, 0),
    ([atPipePutRetry, atPipeGetRetry],
      StandardOp, 0),
    ([atPipeStage, atPipeCleanup],
      StandardOp, 0),
    ([atActorSendRetry, atActorRecvCheck],
      StandardOp, 0),
    ([atActorRecvTimeoutCheck, atActorRecvMatchCheck, atActorRecvMatchTimeoutCheck],
      StandardOp, 0),
    ([atReadKeyRetry, atReadKeyTimeoutRetry],
      StandardOp, 0),
    ([atSupervisorCheck],
      StandardOp, 0)]"

definition late_rows :: "control_row list" where
  "late_rows = [
    ([atSupervisorInit],
      StandardOp, 0),
    ([atChoiceFail],
      StandardOp, 0),
    ([atCellEvalFail],
      StandardOp, 0),
    ([atBatchFail],
      StandardOp, 0),
    ([atBatchFireFail],
      StandardOp, 0),
    ([atCellUpdateDone],
      ControlOp, 1),
    ([atCellValidateInit],
      ControlOp, 0),
    ([atCellValidateSet],
      ControlOp, 1),
    ([atChoiceCountFail, atFindAllFail, atFindNFail, atForEachSolutionFail, atAggregateFail,
       atAggregateReduceFail, atOnceFail, atNafFail, atUnifyMatchFail, atForceFail],
      StandardOp, 0),
    ([atMatchTest],
      ControlOp, 2),
    ([atMatchAllTest],
      ControlOp OR ExitFenceOp, 3),
    ([atEnsureCheck],
      StandardOp, 0),
    ([atGenServerInit],
      ControlOp, 0),
    ([atGenServerRecv, atGenServerCallDone, atGenServerCastDone],
      ControlOp, 4),
    ([atGenCallTimeoutDone],
      StandardOp, 0),
    ([atDelimitBarrier],
      BarrierOp, 0),
    ([atEffectBarrier],
      BarrierOp, 0),
    ([atHandlerScope],
      BarrierOp, 0),
    ([atInGlobal],
      ControlOp, 0),
    ([atInLocal],
      ControlOp, 0),
    ([atEndInGlobal],
      BarrierOp, 0)]"

text \<open>The flags and the pop count of a name; the switch has no other case.\<close>

definition control_rows :: "control_row list" where
  "control_rows = loop_rows @ barrier_rows @ library_rows @ late_rows"

definition control_op_data :: "sysname \<Rightarrow> (u8 \<times> nat) option" where
  "control_op_data s =
     (case find (\<lambda>row. s \<in> set (fst row)) control_rows of
        Some row \<Rightarrow> Some (snd row) | None \<Rightarrow> None)"

text \<open>The flags are the low byte of the length field and the pop count its high byte.\<close>

definition make_control_operator :: "sysname \<Rightarrow> object" where
  "make_control_operator s =
     (case control_op_data s of
        Some (flags, popcount) \<Rightarrow> (make_object TOperator (int s))\<lparr>o_executable := True,
          m_length := unat flags + 256 * popcount\<rparr>
      | None \<Rightarrow> make_object TOperator (int s))"

definition operator_flags :: "object \<Rightarrow> u8" where "operator_flags ob = word_of_nat (m_length ob mod 256)"
definition operator_popcount :: "object \<Rightarrow> nat" where "operator_popcount ob = m_length ob div 256"
definition is_operator :: "object \<Rightarrow> bool" where "is_operator ob \<longleftrightarrow> o_type ob = TOperator"
definition operator_is :: "sysname \<Rightarrow> object \<Rightarrow> bool" where
  "operator_is s ob \<longleftrightarrow> m_immediate ob = int s"
definition operator_is_control :: "object \<Rightarrow> bool" where
  "operator_is_control ob \<longleftrightarrow> operator_flags ob AND ControlOp \<noteq> 0"
definition operator_is_run :: "object \<Rightarrow> bool" where
  "operator_is_run ob \<longleftrightarrow> operator_flags ob AND RunOp \<noteq> 0"
definition operator_is_stop :: "object \<Rightarrow> bool" where
  "operator_is_stop ob \<longleftrightarrow> operator_flags ob AND StopOp \<noteq> 0"
definition operator_is_barrier :: "object \<Rightarrow> bool" where
  "operator_is_barrier ob \<longleftrightarrow> operator_flags ob AND BarrierOp \<noteq> 0"
definition operator_is_errorpush :: "object \<Rightarrow> bool" where
  "operator_is_errorpush ob \<longleftrightarrow> operator_flags ob AND ErrorPushOp \<noteq> 0"
definition operator_is_dictpop :: "object \<Rightarrow> bool" where
  "operator_is_dictpop ob \<longleftrightarrow> operator_flags ob AND DictPopOp \<noteq> 0"
definition operator_is_invalid_exit :: "object \<Rightarrow> bool" where
  "operator_is_invalid_exit ob \<longleftrightarrow> operator_flags ob AND (RunOp OR StopOp OR ExitFenceOp) \<noteq> 0"

section \<open>Descriptors for the unwinders\<close>

datatype op_kind = KNone | KCall | KRun | KBarrier | KCloser | KHelper

datatype unwind_action = UNone | UStop | UReplace | UPopAndContinue

record op_descriptor =
  od_kind :: op_kind
  od_unwind :: unwind_action
  od_err_companions :: nat
  od_dict_companions :: nat
  od_exec_companions :: nat
  od_needs_op_rewrite :: bool
  od_needs_exec_rewrite :: bool
  od_replace_with :: "sysname option"
  od_bt_label :: string
  od_inside_label :: string

definition od_row ::
  "op_kind \<Rightarrow> unwind_action \<Rightarrow> nat \<Rightarrow> nat \<Rightarrow> nat \<Rightarrow> bool \<Rightarrow> bool \<Rightarrow> sysname option \<Rightarrow> string \<Rightarrow> op_descriptor" where
  "od_row k u e d x opr exr repl bt =
     \<lparr>od_kind = k, od_unwind = u, od_err_companions = e, od_dict_companions = d, od_exec_companions = x,
      od_needs_op_rewrite = opr, od_needs_exec_rewrite = exr, od_replace_with = repl, od_bt_label = bt,
      od_inside_label = []\<rparr>"

definition no_descriptor :: op_descriptor where
  "no_descriptor = od_row KNone UNone 0 0 0 False False None []"

definition try_descriptors :: "(sysname \<times> op_descriptor) list" where
  "try_descriptors = [
    (atCall, od_row KCall UNone 0 0 2 False False None []),
    (atRun, od_row KRun UNone 0 0 0 False False None []),
    (atTryBarrier, od_row KBarrier UStop 0 0 0 False False None ''[try boundary]''),
    (atTryCatchBarrier, od_row KBarrier UReplace 1 0 0 False False (Some atCatchError) ''[try-catch boundary]''),
    (atFinallyBarrier, od_row KBarrier UReplace 1 0 0 False False (Some atFinallyReraise) ''[finally boundary]''),
    (atWithStream, od_row KBarrier UReplace 1 0 0 False False (Some atFinallyReraise) ''[with-stream boundary]''),
    (atDelimitBarrier, od_row KBarrier UPopAndContinue 1 0 0 True False None ''[delimit boundary]''),
    (atEffectBarrier, od_row KBarrier UPopAndContinue 1 0 0 False False None ''[effect boundary]''),
    (atHandlerScope, od_row KBarrier UPopAndContinue 2 0 0 True False None ''[handler-scope boundary]''),
    (atEndInGlobal, od_row KCloser UPopAndContinue 1 0 0 False False None ''[in-global/local boundary]''),
    (atEndLocals, od_row KCloser UNone 0 1 0 False False None ''[locals boundary]''),
    (atLoop, od_row KBarrier UNone 0 0 0 False False None ''[loop boundary]''),
    (atDoWhile, od_row KBarrier UNone 0 0 0 False False None ''[do-while boundary]''),
    (atUIntegerRepeat, od_row KBarrier UNone 0 0 0 False False None ''[repeat boundary]''),
    (atULongRepeat, od_row KBarrier UNone 0 0 0 False False None ''[repeat boundary]''),
    (atArrayForAll, od_row KHelper UNone 0 0 1 False True None ''[for-all boundary]''),
    (atPackedForAll, od_row KHelper UNone 0 0 1 False True None ''[for-all boundary]''),
    (atStringForAll, od_row KHelper UNone 0 0 1 False True None ''[for-all boundary]''),
    (atDictForAll, od_row KHelper UNone 0 0 1 False True None ''[for-all boundary]''),
    (atSetForAll, od_row KHelper UNone 0 0 1 False True None ''[for-all boundary]''),
    (atRecordForAll, od_row KHelper UNone 0 0 1 False True None ''[for-all boundary]'')]"

definition logic_descriptors :: "(sysname \<times> op_descriptor) list" where
  "logic_descriptors = [
    (atNafBarrier, od_row KBarrier UReplace 0 0 2 False True (Some atNafFail) ''[naf boundary]''),
    (atChoiceCountBarrier, od_row KBarrier UReplace 0 0 2 False True (Some atChoiceCountFail) ''[choice-count boundary]''),
    (atForEachSolutionBarrier, od_row KBarrier UReplace 0 0 2 False True (Some atForEachSolutionFail) ''[for-each-solution boundary]''),
    (atAggregateBarrier, od_row KBarrier UReplace 0 0 2 False True (Some atAggregateFail) ''[aggregate boundary]''),
    (atAggregateReduceBarrier, od_row KBarrier UReplace 0 0 2 False True (Some atAggregateReduceFail) ''[aggregate-reduce boundary]''),
    (atChoiceBarrier, od_row KBarrier UReplace 0 0 0 False False (Some atChoiceFail) ''[choice boundary]''),
    (atOnceBarrier, od_row KBarrier UReplace 0 0 0 False False (Some atOnceFail) ''[once boundary]''),
    (atFindNBarrier, od_row KBarrier UReplace 0 0 0 False False (Some atFindNFail) ''[find-n boundary]''),
    (atUnifyMatchBarrier, od_row KBarrier UReplace 0 0 0 False False (Some atUnifyMatchFail) ''[unify-match boundary]''),
    (atFindAllBarrier, od_row KBarrier UReplace 0 0 0 False False (Some atFindAllFail) ''[find-all boundary]'')]"

definition other_descriptors :: "(sysname \<times> op_descriptor) list" where
  "other_descriptors = [
    (atCellEval, od_row KBarrier UReplace 0 0 0 False False (Some atCellEvalFail) ''[cell-eval boundary]''),
    (atBatchEnd, od_row KBarrier UReplace 0 0 0 False False (Some atBatchFail) ''[batch boundary]''),
    (atBatchFire, od_row KBarrier UReplace 0 0 0 False False (Some atBatchFireFail) ''[batch-fire boundary]''),
    (atForceComplete, od_row KBarrier UReplace 0 0 0 False False (Some atForceFail) ''[force boundary]''),
    (atReplBarrier, od_row KBarrier UReplace 0 0 0 False False (Some atReplRecover) []),
    (atTryRollback, od_row KHelper UNone 0 0 1 False True None []),
    (atTryResultComplete, od_row KHelper UNone 0 0 1 False True None []),
    (atTagUpdateComplete, od_row KHelper UNone 0 0 1 False True None []),
    (atStop, od_row KBarrier UNone 0 0 0 False False None ''[stop boundary]''),
    (atDip, od_row KBarrier UNone 0 0 0 False False None ''[dip boundary]''),
    (atTime, od_row KBarrier UNone 0 0 0 False False None ''[time boundary]''),
    (atEndModule, od_row KCloser UNone 0 0 0 False False None []),
    (atClosureEnd, od_row KCloser UNone 0 0 0 False False None [])]"

definition inside_labels :: "(sysname \<times> string) list" where
  "inside_labels = [
    (atLoop, ''loop''), (atDoWhile, ''do-while''), (atUIntegerRepeat, ''repeat''),
     (atULongRepeat, ''repeat''), (atArrayForAll, ''for-all''), (atPackedForAll, ''for-all''),
     (atStringForAll, ''for-all''), (atDictForAll, ''for-all''), (atSetForAll, ''for-all''),
     (atRecordForAll, ''for-all''), (atDip, ''dip''), (atTime, ''time''), (atEndLocals, ''|locals|''),
     (atEndInGlobal, ''in-global/local''), (atDelimitBarrier, ''delimit''), (atEffectBarrier, ''effect''),
     (atHandlerScope, ''handler-scope'')]"

definition descriptors :: "(sysname \<times> op_descriptor) list" where
  "descriptors = try_descriptors @ logic_descriptors @ other_descriptors"

definition op_descriptor_for :: "sysname \<Rightarrow> op_descriptor" where
  "op_descriptor_for s =
     (let row = (case map_of descriptors s of
                   Some d \<Rightarrow> d | None \<Rightarrow> no_descriptor)
      in case map_of inside_labels s of Some l \<Rightarrow> row\<lparr>od_inside_label := l\<rparr> | None \<Rightarrow> row)"

definition is_control_op_atom :: "int \<Rightarrow> bool" where
  "is_control_op_atom v \<longleftrightarrow> int FIRST_CONTROL_OP \<le> v \<and> v < int (FIRST_CONTROL_OP + length control_op_names)"

text \<open>The descriptor, looked up by the value of an operator object.\<close>

definition op_descriptor_at :: "int \<Rightarrow> op_descriptor" where
  "op_descriptor_at v = op_descriptor_for (nat v)"

definition op_bt_label :: "int \<Rightarrow> string" where
  "op_bt_label v = (if \<not> is_control_op_atom v then [] else od_bt_label (op_descriptor_at v))"

definition op_inside_label :: "int \<Rightarrow> string" where
  "op_inside_label v = (if \<not> is_control_op_atom v then [] else od_inside_label (op_descriptor_at v))"

definition op_err_companions :: "int \<Rightarrow> nat" where
  "op_err_companions v = (if is_control_op_atom v then od_err_companions (op_descriptor_at v) else 0)"

section \<open>Lookup in the tables\<close>

lemma find_row:
  assumes "distinct (concat (map fst rows))" "row \<in> set rows" "s \<in> set (fst row)"
  shows "find (\<lambda>r. s \<in> set (fst r)) rows = Some row"
  using assms by (induction rows) auto

lemmas control_row_defs = control_rows_def loop_rows_def barrier_rows_def library_rows_def late_rows_def

lemma control_rows_sorted: "sort (concat (map fst control_rows)) = [74..<232]"
  by (simp add: control_row_defs upt_rec)

lemma control_rows_names:
  "distinct (concat (map fst control_rows))" "set (concat (map fst control_rows)) = {74..<232}"
proof -
  have "distinct (sort (concat (map fst control_rows)))" "set (sort (concat (map fst control_rows))) = {74..<232}"
    unfolding control_rows_sorted by (simp_all only: distinct_upt set_upt)
  then show "distinct (concat (map fst control_rows))" "set (concat (map fst control_rows)) = {74..<232}"
    by (simp_all only: distinct_sort set_sort)
qed

lemma control_op_data_row: "row \<in> set control_rows \<Longrightarrow> s \<in> set (fst row) \<Longrightarrow> control_op_data s = Some (snd row)"
  using find_row [OF control_rows_names(1)] by (simp add: control_op_data_def)

definition names_with :: "(u8 \<Rightarrow> bool) \<Rightarrow> sysname list" where
  "names_with P = concat (map fst (filter (\<lambda>row. P (fst (snd row))) control_rows))"

lemma names_with_iff: "s \<in> set (names_with P) \<longleftrightarrow> (\<exists>row\<in>set control_rows. P (fst (snd row)) \<and> s \<in> set (fst row))"
  unfolding names_with_def set_concat set_map set_filter by blast

lemma control_op_data_total:
  assumes "74 \<le> s" "s < 232"
  shows "\<exists>f c. control_op_data s = Some (f, c) \<and> P f = (s \<in> set (names_with P))"
proof -
  have "s \<in> set (concat (map fst control_rows))" unfolding control_rows_names(2) using assms by (intro atLeastLessThan_iff [THEN iffD2] conjI)
  then obtain row where row: "row \<in> set control_rows" "s \<in> set (fst row)" by auto
  have "row' = row" if "row' \<in> set control_rows" "s \<in> set (fst row')" for row'
    using find_row [OF control_rows_names(1) that] find_row [OF control_rows_names(1) row] by simp
  then have "P (fst (snd row)) = (s \<in> set (names_with P))" unfolding names_with_iff using row by blast
  then show ?thesis using control_op_data_row [OF row] by (cases "snd row") auto
qed

lemmas descriptor_defs = descriptors_def try_descriptors_def logic_descriptors_def other_descriptors_def od_row_def

definition descriptor_names :: "(op_descriptor \<Rightarrow> bool) \<Rightarrow> sysname list" where
  "descriptor_names P = map fst (filter (\<lambda>row. P (snd row)) descriptors)"

lemma descriptor_names_iff: "s \<in> set (descriptor_names P) \<longleftrightarrow> (\<exists>d. (s, d) \<in> set descriptors \<and> P d)"
  unfolding descriptor_names_def set_map set_filter by (force simp: image_iff)

lemma descriptors_distinct: "distinct (map fst descriptors)"
  by (simp add: descriptor_defs)

lemma descriptor_field:
  assumes "\<And>d l. P (d\<lparr>od_inside_label := l\<rparr>) = P d" "\<not> P no_descriptor"
  shows "P (op_descriptor_for s) = (s \<in> set (descriptor_names P))"
proof (cases "map_of descriptors s")
  case None
  then have "s \<notin> set (descriptor_names P)" unfolding descriptor_names_iff map_of_eq_None_iff by force
  then show ?thesis using assms None
    by (simp add: op_descriptor_for_def Let_def split: option.split)
next
  case (Some d)
  have "d' = d" if "(s, d') \<in> set descriptors" for d'
    using map_of_is_SomeI [OF descriptors_distinct that] Some by simp
  then have "s \<in> set (descriptor_names P) \<longleftrightarrow> P d"
    using map_of_SomeD [OF Some] unfolding descriptor_names_iff by blast
  then show ?thesis using assms Some
    by (simp add: op_descriptor_for_def Let_def split: option.split)
qed

lemma barrier_names:
  "sort (names_with (\<lambda>f. f AND BarrierOp \<noteq> 0)) = sort (descriptor_names (\<lambda>d. od_unwind d \<noteq> UNone))"
  by (simp add: names_with_def descriptor_names_def control_row_defs descriptor_defs op_flag_defs)

lemma dictpop_names:
  "names_with (\<lambda>f. f AND DictPopOp \<noteq> 0) = [atEndLocals, atEndModule, atClosureEnd]"
  "descriptor_names (\<lambda>d. od_dict_companions d \<noteq> 0) = [atEndLocals]"
  by (simp_all add: names_with_def descriptor_names_def control_row_defs descriptor_defs op_flag_defs)

lemma replace_names:
  "\<forall>row\<in>set (filter (\<lambda>row. od_unwind (snd row) = UReplace) descriptors).
     \<exists>r. od_replace_with (snd row) = Some r \<and> r \<in> set (names_with (\<lambda>f. f = StandardOp))"
  by (simp add: names_with_def control_row_defs descriptor_defs op_flag_defs)

lemma inside_label_ignored:
  "od_replace_with (op_descriptor_for s) = od_replace_with (case map_of descriptors s of Some d \<Rightarrow> d | None \<Rightarrow> no_descriptor)"
  "od_unwind (op_descriptor_for s) = od_unwind (case map_of descriptors s of Some d \<Rightarrow> d | None \<Rightarrow> no_descriptor)"
  by (simp_all add: op_descriptor_for_def Let_def split: option.split)

lemma control_op_data_names:
  "(\<exists>f c. control_op_data s = Some (f, c) \<and> P f) \<longleftrightarrow> s \<in> set (names_with P)"
proof
  assume "\<exists>f c. control_op_data s = Some (f, c) \<and> P f"
  then obtain row where "find (\<lambda>r. s \<in> set (fst r)) control_rows = Some row" "P (fst (snd row))"
    unfolding control_op_data_def by (auto split: option.splits)
  then show "s \<in> set (names_with P)" unfolding names_with_iff find_Some_iff by (metis nth_mem)
next
  assume "s \<in> set (names_with P)"
  then obtain row where "row \<in> set control_rows" "P (fst (snd row))" "s \<in> set (fst row)"
    unfolding names_with_iff by blast
  then show "\<exists>f c. control_op_data s = Some (f, c) \<and> P f"
    using control_op_data_row by (metis prod.collapse)
qed

lemma replace_target:
  assumes "od_unwind (op_descriptor_for s) = UReplace"
  shows "\<exists>r. od_replace_with (op_descriptor_for s) = Some r \<and> (\<exists>c'. control_op_data r = Some (StandardOp, c'))"
proof (cases "map_of descriptors s")
  case None
  then show ?thesis using assms unfolding inside_label_ignored by (simp add: no_descriptor_def od_row_def)
next
  case (Some d)
  then have "od_unwind d = UReplace" using assms unfolding inside_label_ignored by simp
  then have "(s, d) \<in> set (filter (\<lambda>row. od_unwind (snd row) = UReplace) descriptors)"
    using map_of_SomeD [OF Some] by simp
  then obtain r where r: "od_replace_with d = Some r" "r \<in> set (names_with (\<lambda>f. f = StandardOp))"
    using replace_names by (metis snd_conv)
  then show ?thesis using Some control_op_data_names [of r "\<lambda>f. f = StandardOp"] unfolding inside_label_ignored by auto
qed

text \<open>
  C13. The two tables agree on what the error unwinder relies on. Every operator of the control range
  has flags and a pop count; it carries the barrier flag exactly when its descriptor has
  an unwind action, and an operator that is replaced while unwinding is replaced by one that
  is not itself a barrier, a fence or a loop.
\<close>

theorem control_tables_agree:
  assumes "FIRST_CONTROL_OP \<le> s" "s \<le> atEndInGlobal"
  shows "\<exists>f c. control_op_data s = Some (f, c) \<and>
    (f AND BarrierOp \<noteq> 0) = (od_unwind (op_descriptor_for s) \<noteq> UNone) \<and>
    (od_unwind (op_descriptor_for s) = UReplace \<longrightarrow>
      (\<exists>r. od_replace_with (op_descriptor_for s) = Some r \<and> (\<exists>c'. control_op_data r = Some (StandardOp, c'))))"
proof -
  have lt: "74 \<le> s" "s < 232" using assms by (simp_all add: FIRST_CONTROL_OP_def)
  have bar: "s \<in> set (names_with (\<lambda>f. f AND BarrierOp \<noteq> 0)) \<longleftrightarrow> od_unwind (op_descriptor_for s) \<noteq> UNone"
  proof -
    have "set (names_with (\<lambda>f. f AND BarrierOp \<noteq> 0)) = set (descriptor_names (\<lambda>d. od_unwind d \<noteq> UNone))"
      using arg_cong [OF barrier_names, of set] by (simp only: set_sort)
    then show ?thesis using descriptor_field [of "\<lambda>d. od_unwind d \<noteq> UNone" s]
      by (simp add: no_descriptor_def od_row_def)
  qed
  have rep: "\<exists>r. od_replace_with (op_descriptor_for s) = Some r \<and> (\<exists>c'. control_op_data r = Some (StandardOp, c'))"
    if "od_unwind (op_descriptor_for s) = UReplace"
    using that replace_target by blast
  show ?thesis using control_op_data_total [OF lt, of "\<lambda>f. f AND BarrierOp \<noteq> 0"] bar rep by blast
qed

theorem control_tables_agree_witness:
  "\<exists>f c. control_op_data atNafBarrier = Some (f, c) \<and>
    (f AND BarrierOp \<noteq> 0) = (od_unwind (op_descriptor_for atNafBarrier) \<noteq> UNone)"
  using control_tables_agree [of atNafBarrier] by (auto simp: FIRST_CONTROL_OP_def)

text \<open>
  The descriptor table misses dictionary companions: of the three operators that pop the
  dictionary stack when they run, the end of a module and the end of a closure are listed with none,
  so a continuation captured across one of them does not take its dictionary along.
\<close>

theorem control_dict_companions_missing:
  "{s. (\<exists>f c. control_op_data s = Some (f, c) \<and> f AND DictPopOp \<noteq> 0) \<and>
       od_dict_companions (op_descriptor_for s) = 0} = {atEndModule, atClosureEnd}"
proof -
  have some: "0 < od_dict_companions (op_descriptor_for s) \<longleftrightarrow> s = atEndLocals" for s
    using descriptor_field [of "\<lambda>d. od_dict_companions d \<noteq> 0" s] unfolding dictpop_names(2)
    by (simp add: no_descriptor_def od_row_def)
  have none: "od_dict_companions (op_descriptor_for s) = 0 \<longleftrightarrow> s \<noteq> atEndLocals" for s
    using some [of s] by (cases "od_dict_companions (op_descriptor_for s) = 0") simp_all
  show ?thesis unfolding control_op_data_names dictpop_names(1) none by auto
qed

end
