(* ===== verification/Ops_Stack.thy ===== *)
theory Ops_Stack
  imports Verify Control_Ops
begin

text \<open>
  The operand-stack operators (\<^verbatim>\<open>src/ops_stack.inl\<close>). The operand stack is a list with its top
  first; index \<open>k\<close> is \<^verbatim>\<open>m_op_ptr - k\<close>. Objects in slots that are freed in place keep their slot with the
  offset cleared, as in the source, so that the state after an error is the source's. The
  collector a global allocation may run is the argument \<open>gc\<close>.
\<close>

section \<open>Shared steps\<close>

definition push_operand :: "object \<Rightarrow> (trix, unit) action" where
  "push_operand ob = modify (\<lambda>t. set_ops (ob # ops t) t)"

definition push_exec :: "object \<Rightarrow> (trix, unit) action" where
  "push_exec ob = modify (\<lambda>t. set_execs (ob # execs t) t)"

text \<open>\<open>maybe_free_extvalue\<close> on the slot at index \<open>i\<close>, and \<open>maybe_free_extvalue_opstack\<close> on \<open>k\<close> slots.\<close>

definition free_slot :: "nat \<Rightarrow> (trix, unit) action" where
  "free_slot i =
     seq (gets (\<lambda>t. ops t ! i)) (\<lambda>ob.
     seq (maybe_free_extvalue ob) (\<lambda>ob'.
     modify (\<lambda>t. set_ops ((ops t)[i := ob']) t)))"

fun free_slots :: "nat \<Rightarrow> nat \<Rightarrow> (trix, unit) action" where
  "free_slots i 0 = ret ()"
| "free_slots i (Suc k) = seq (free_slot i) (\<lambda>_. free_slots (Suc i) k)"

definition drop_ops :: "nat \<Rightarrow> (trix, unit) action" where
  "drop_ops k = modify (\<lambda>t. set_ops (drop k (ops t)) t)"

section \<open>Operators\<close>

definition pop_op :: "(trix, unit) action" where
  "pop_op =
     seq (require_op_count 1) (\<lambda>_.
     seq (gets (\<lambda>t. hd (ops t))) (\<lambda>any_obj.
     seq (drop_ops 1) (\<lambda>_.
     seq (maybe_free_extvalue any_obj) (\<lambda>_. ret ()))))"

definition popn_op :: "(trix, unit) action" where
  "popn_op =
     seq (verify_operands [VerifyIntegers OR VerifyNotNegative]) (\<lambda>_.
     seq (gets ops) (\<lambda>os.
     seq (object_integer (hd os) 0 (int (length os) - 1)) (\<lambda>(valid, n).
       if valid then seq (free_slots 0 (Suc (nat n))) (\<lambda>_. drop_ops (Suc (nat n)))
       else raise RangeCheck)))"

definition exch_op :: "(trix, unit) action" where
  "exch_op = seq (require_op_count 2) (\<lambda>_. modify (\<lambda>t.
     case ops t of any2 # any1 # rest \<Rightarrow> set_ops (any1 # any2 # rest) t | _ \<Rightarrow> t))"

definition over_op :: "(gvm \<Rightarrow> gvm outcome) \<Rightarrow> (trix, unit) action" where
  "over_op gc =
     seq (require_op_count 2) (\<lambda>_.
     seq (require_op_capacity 1) (\<lambda>_.
     seq (gets (\<lambda>t. ops t ! 1)) (\<lambda>any1.
     seq (make_clone gc any1) push_operand)))"

definition nip_op :: "(trix, unit) action" where
  "nip_op =
     seq (require_op_count 2) (\<lambda>_.
     seq (free_slot 1) (\<lambda>_.
     modify (\<lambda>t. case ops t of top_obj # second # rest \<Rightarrow> set_ops (top_obj # rest) t | _ \<Rightarrow> t)))"

definition tuck_op :: "(gvm \<Rightarrow> gvm outcome) \<Rightarrow> (trix, unit) action" where
  "tuck_op gc =
     seq (require_op_count 2) (\<lambda>_.
     seq (require_op_capacity 1) (\<lambda>_.
     seq (gets (\<lambda>t. hd (ops t))) (\<lambda>top_obj.
     seq (make_clone gc top_obj) (\<lambda>clone_obj.
     modify (\<lambda>t. case ops t of top_obj # second # rest \<Rightarrow> set_ops (top_obj # second # clone_obj # rest) t | _ \<Rightarrow> t)))))"

definition rot_op :: "(trix, unit) action" where
  "rot_op = seq (require_op_count 3) (\<lambda>_. modify (\<lambda>t.
     case ops t of c # b # a # rest \<Rightarrow> set_ops (a # c # b # rest) t | _ \<Rightarrow> t))"

definition revrot_op :: "(trix, unit) action" where
  "revrot_op = seq (require_op_count 3) (\<lambda>_. modify (\<lambda>t.
     case ops t of c # b # a # rest \<Rightarrow> set_ops (b # a # c # rest) t | _ \<Rightarrow> t))"

definition at_dip_op :: "(trix, unit) action" where
  "at_dip_op =
     seq (require_op_capacity 1) (\<lambda>_. modify (\<lambda>t.
     case execs t of hidden # rest \<Rightarrow> set_execs rest (set_ops (hidden # ops t) t) | _ \<Rightarrow> t))"

definition dip_op :: "(trix, unit) action" where
  "dip_op =
     seq (verify_operands [VerifyProc]) (\<lambda>_.
     seq (require_op_count 2) (\<lambda>_.
     seq (require_exec_capacity 3) (\<lambda>_. modify (\<lambda>t.
     case ops t of
       proc # hidden # rest \<Rightarrow>
         set_execs (proc # make_control_operator atDip # hidden # execs t) (set_ops rest t)
     | _ \<Rightarrow> t))))"

definition bi_op :: "(gvm \<Rightarrow> gvm outcome) \<Rightarrow> (trix, unit) action" where
  "bi_op gc =
     seq (verify_operands [VerifyProc, VerifyProc]) (\<lambda>_.
     seq (require_op_count 3) (\<lambda>_.
     seq (require_exec_capacity 5) (\<lambda>_.
     seq (gets ops) (\<lambda>os.
     seq (drop_ops 2) (\<lambda>_.
     seq (make_clone gc (os ! 2)) (\<lambda>cloned. modify (\<lambda>t.
       set_ops (cloned # tl (ops t))
         (set_execs (os ! 1 # make_control_operator atDip # os ! 2 # os ! 0 # execs t) t))))))))"

definition keep_op :: "(gvm \<Rightarrow> gvm outcome) \<Rightarrow> (trix, unit) action" where
  "keep_op gc =
     seq (verify_operands [VerifyProc]) (\<lambda>_.
     seq (require_op_count 2) (\<lambda>_.
     seq (require_exec_capacity 3) (\<lambda>_.
     seq (gets ops) (\<lambda>os.
     seq (drop_ops 1) (\<lambda>_.
     seq (make_clone gc (os ! 1)) (\<lambda>saved. modify (\<lambda>t.
       set_execs (os ! 0 # make_control_operator atDip # saved # execs t) t)))))))"

definition dup_op :: "(gvm \<Rightarrow> gvm outcome) \<Rightarrow> (trix, unit) action" where
  "dup_op gc =
     seq (require_op_count 1) (\<lambda>_.
     seq (require_op_capacity 1) (\<lambda>_.
     seq (gets (\<lambda>t. hd (ops t))) (\<lambda>any_obj.
     seq (make_clone gc any_obj) push_operand)))"

text \<open>
  The transform of \<open>dup-n\<close>: the sources from the lowest slot up, the clones so far (last one first).
  The first clone lands in the slot of the count; the others above the stack pointer, which
  moves only at the end.
\<close>

fun clone_each :: "(gvm \<Rightarrow> gvm outcome) \<Rightarrow> object list \<Rightarrow> object list \<Rightarrow> (trix, object list) action" where
  "clone_each gc [] acc = ret acc"
| "clone_each gc (ob # obs) acc =
     seq (make_clone gc ob) (\<lambda>c.
     seq (if acc = [] then modify (\<lambda>t. set_ops ((ops t)[0 := c]) t) else ret ()) (\<lambda>_.
     clone_each gc obs (c # acc)))"

definition dupn_op :: "(gvm \<Rightarrow> gvm outcome) \<Rightarrow> (trix, unit) action" where
  "dupn_op gc =
     seq (verify_operands [VerifyIntegers OR VerifyNotNegative]) (\<lambda>_.
     seq (gets ops) (\<lambda>os.
     seq (object_integer (hd os) 0 (int (length os) - 1)) (\<lambda>(valid, n).
       if valid then
         seq (free_slot 0) (\<lambda>_.
         if n \<noteq> 0 then
           seq (require_op_count (n + 1)) (\<lambda>_.
           seq (require_op_capacity (n - 1)) (\<lambda>_.
           seq (clone_each gc (rev (take (nat n) (tl os))) []) (\<lambda>clones.
           modify (\<lambda>t. set_ops (clones @ tl (ops t)) t))))
         else drop_ops 1)
       else raise RangeCheck)))"

definition index_op :: "(gvm \<Rightarrow> gvm outcome) \<Rightarrow> (trix, unit) action" where
  "index_op gc =
     seq (verify_operands [VerifyIntegers OR VerifyNotNegative]) (\<lambda>_.
     seq (gets ops) (\<lambda>os.
     seq (object_integer (hd os) 0 (int (length os) - 2)) (\<lambda>(valid, n).
       if valid then
         seq (require_op_count (n + 2)) (\<lambda>_.
         seq (free_slot 0) (\<lambda>_.
         seq (make_clone gc (os ! Suc (nat n))) (\<lambda>c.
         modify (\<lambda>t. set_ops ((ops t)[0 := c]) t))))
       else raise IndexCheck)))"

text \<open>\<^verbatim>\<open>std::rotate\<close> on a range given from its first element.\<close>

definition std_rotate :: "nat \<Rightarrow> 'a list \<Rightarrow> 'a list" where
  "std_rotate middle xs = drop middle xs @ take middle xs"

text \<open>The rotation of \<open>roll\<close> on the \<open>n\<close> operands, top first, by \<open>j\<close>, a 32-bit integer.\<close>

definition roll_range :: "int \<Rightarrow> object list \<Rightarrow> object list" where
  "roll_range j xs =
     (let n = int (length xs); first_to_last = rev xs
      in if j = 0 then xs
         else if j < 0 then rev (std_rotate (nat ((- j) mod n)) first_to_last)
         else rev (std_rotate (nat (n - j mod n)) first_to_last))"

definition roll_op :: "(trix, unit) action" where
  "roll_op =
     seq (verify_operands [VerifyIntegers, VerifyIntegers OR VerifyNotNegative]) (\<lambda>_.
     seq (gets ops) (\<lambda>os.
     seq (object_integer (hd os) int32_min int32_max) (\<lambda>(j_valid, j).
       if \<not> j_valid then raise RangeCheck
       else seq (object_integer (os ! 1) 0 (int (length os) - 2)) (\<lambda>(n_valid, n).
         if \<not> n_valid then raise RangeCheck
         else seq (require_op_count (n + 2)) (\<lambda>_.
              seq (free_slot 0) (\<lambda>_.
              seq (free_slot 1) (\<lambda>_.
              modify (\<lambda>t. let rest = drop 2 (ops t)
                in if n = 0 then set_ops rest t
                   else set_ops (roll_range j (take (nat n) rest) @ drop (nat n) rest) t))))))))"

definition clear_op :: "(trix, unit) action" where
  "clear_op = seq (gets (\<lambda>t. length (ops t))) (\<lambda>k. seq (free_slots 0 k) (\<lambda>_. drop_ops k))"

definition count_op :: "(trix, unit) action" where
  "count_op =
     seq (require_op_capacity 1) (\<lambda>_.
     seq (gets (\<lambda>t. int (length (ops t)))) (\<lambda>c. push_operand (make_integer c)))"

definition mark_op :: "(trix, unit) action" where
  "mark_op = seq (require_op_capacity 1) (\<lambda>_. push_operand make_mark)"

definition clear_to_mark_op :: "(trix, unit) action" where
  "clear_to_mark_op =
     seq (find_opstack_mark None) (\<lambda>c. seq (free_slots 0 (Suc c)) (\<lambda>_. drop_ops (Suc c)))"

definition count_to_mark_op :: "(trix, unit) action" where
  "count_to_mark_op =
     seq (require_op_capacity 1) (\<lambda>_.
     seq (find_opstack_mark None) (\<lambda>c. push_operand (make_integer (int c))))"

section \<open>Stack bookkeeping\<close>

lemma ops_set_ops [simp]: "ops (set_ops xs t) = xs" "execs (set_ops xs t) = execs t" "ops (set_execs ys t) = ops t"
    "execs (set_execs ys t) = ys" "set_ops xs (set_ops ys t) = set_ops xs t"
    "set_ops (ops t) t = t"
  by (simp_all add: ops_def execs_def set_ops_def set_execs_def)

lemma op_count_ops: "op_count t = int (length (ops t))"
  by (simp add: op_count_def ops_def)

lemma require_op_count_ok: "count \<le> int (length (ops t)) \<Longrightarrow> require_op_count count t = (Value (), t)"
  by (simp add: require_op_count_def op_count_ops)

lemma seq_assoc_gets [simp]: "seq (gets g) f t = f (g t) t"
  by (simp add: seq_def)

lemma seq_modify [simp]: "seq (modify g) f t = f () (g t)"
  by (simp add: seq_def)

lemma seq_ret [simp]: "seq (ret x) f = f x"
  by (simp add: seq_def ret_def)

lemma number_immediate: "\<not> uses_heap_cell ob \<Longrightarrow> number_of ob t = (Value (m_immediate ob), t)"
  by (simp add: number_of_def)

lemma object_integer_value:
  assumes "is_integral ob" "number_of ob t = (Value v, t)"
  shows "object_integer ob lower upper t = (Value (integer_value ob v lower upper), t)"
  using assms by (simp add: object_integer_def)

lemma free_slot_immediate: "i < length (ops t) \<Longrightarrow> \<not> uses_heap_cell (ops t ! i) \<Longrightarrow> free_slot i t = (Value (), t)"
  by (simp add: free_slot_def maybe_free_extvalue_def list_update_id)

section \<open>Verification of integer operands\<close>

lemma verify_values:
  "VerifyIntegers = 0x3000003E" "VerifyIntegers OR VerifyNotNegative = 0x83000003E"
  by (simp_all add: verify_defs)

lemma integral_type_bit: "is_integral ob \<Longrightarrow> bit (0x3000003E :: u64) (type_code (o_type ob))"
  by (cases "o_type ob") (simp_all add: is_integral_def has_attr_def)

lemma verify_integer: "is_integral ob \<Longrightarrow> verify_operand AnyType ty VerifyIntegers ob = ret ()"
  unfolding verify_operand_def Let_def verify_values type_bit_and
  using integral_type_bit [of ob] by (simp add: VerifyFlagsShift_def verify_defs)

lemma verify_nonneg_integer:
  assumes "is_integral ob" "number_of ob t = (Value v, t)" "0 \<le> v"
  shows "verify_operand AnyType ty (VerifyIntegers OR VerifyNotNegative) ob t = (Value (), t)"
proof -
  have b: "bit (0x83000003E :: u64) (type_code (o_type ob))"
    using assms(1) by (cases "o_type ob") (simp_all add: is_integral_def has_attr_def)
  have nf: "\<not> is_floating_point ob" "o_type ob \<noteq> TOpaqueHandle" "o_type ob \<noteq> TArray"
    using assms(1) by (cases "o_type ob"; simp add: is_integral_def is_floating_point_def has_attr_def)+
  have tc: "verify_type_check (VerifyIntegers OR VerifyNotNegative) ob = ret ()"
    unfolding verify_type_check_def Let_def type_bit_and verify_values using b by (simp add: verify_defs)
  have hk: "verify_handle_kind (VerifyIntegers OR VerifyNotNegative) ob = ret ()"
    unfolding verify_handle_kind_def Let_def verify_values by (simp add: verify_defs)
  have rw: "verify_rw_access (VerifyIntegers OR VerifyNotNegative) ob t = (Value (), t)"
    unfolding verify_rw_access_def Let_def verify_values by (simp add: verify_defs)
  have nn: "flag_check 0x83000003E VerifyNotNegative (is_number_negative ob) RangeCheck t = (Value (), t)"
    using assms(2,3) nf by (simp add: flag_check_def is_number_negative_def)
  have "verify_value_constraints (VerifyIntegers OR VerifyNotNegative) ob t = (Value (), t)"
    unfolding verify_value_constraints_def verify_values using nn nf
    by (simp add: flag_check_def VerifyNotZero_def VerifyFloatConstraints_def verify_defs)
  then have "verify_operand_full AnyType ty (VerifyIntegers OR VerifyNotNegative) ob t = (Value (), t)"
    using rw by (simp add: verify_operand_full_def tc hk)
  then show ?thesis by (simp add: verify_operand_def Let_def)
qed

section \<open>Roll\<close>

lemma length_std_rotate [simp]: "length (std_rotate m xs) = length xs"
  by (auto simp: std_rotate_def min_def)

lemma std_rotate_nth: "k < length xs \<Longrightarrow> m \<le> length xs \<Longrightarrow> std_rotate m xs ! k = xs ! ((k + m) mod length xs)"
proof -
  assume a: "k < length xs" "m \<le> length xs"
  have "(k + m) mod length xs = (if k + m < length xs then k + m else k + m - length xs)"
    using a by (simp add: le_mod_geq)
  then show ?thesis using a by (auto simp: std_rotate_def nth_append add.commute)
qed

lemma roll_index:
  assumes "0 < n" "k < n" "m \<le> n" "(int m + j) mod int n = 0"
  shows "n - Suc ((n - Suc k + m) mod n) = nat ((int k + j) mod int n)"
proof -
  let ?r = "(n - Suc k + m) mod n"
  have r: "?r < n" using assms(1) by simp
  have "int (n - Suc ?r) = int n - 1 - int ?r" using r by (simp add: of_nat_diff)
  also have "\<dots> = (int n - 1 - int ?r) mod int n" using r by (intro mod_pos_pos_trivial [symmetric]) auto
  also have "int ?r = (int n - 1 - int k + int m) mod int n" using assms(2) by (simp add: zmod_int of_nat_diff algebra_simps)
  also have "(int n - 1 - (int n - 1 - int k + int m) mod int n) mod int n = (int k - int m) mod int n"
    by (simp add: mod_diff_right_eq)
  also have "\<dots> = (int k + j - (int m + j)) mod int n" by simp
  also have "\<dots> = (int k + j) mod int n"
    using mod_diff_right_eq [of "int k + j" "int m + j" "int n"] assms(4) by simp
  finally show ?thesis by simp
qed

lemma roll_range_nth:
  assumes "k < length xs"
  shows "roll_range j xs ! k = xs ! nat ((int k + j) mod int (length xs))"
proof -
  let ?n = "length xs"
  have n: "0 < ?n" using assms by (cases xs) auto
  have rot: "rev (std_rotate m (rev xs)) ! k = xs ! nat ((int k + j) mod int ?n)"
    if m: "m \<le> ?n" "(int m + j) mod int ?n = 0" for m
  proof -
    let ?i = "(?n - Suc k + m) mod ?n"
    have len: "length (std_rotate m (rev xs)) = ?n" using m(1) by (simp add: std_rotate_def)
    then have "rev (std_rotate m (rev xs)) ! k = std_rotate m (rev xs) ! (?n - Suc k)"
      using assms by (simp add: rev_nth)
    also have "\<dots> = rev xs ! ?i" using std_rotate_nth [of "?n - Suc k" "rev xs" m] m(1) assms by simp
    also have "\<dots> = xs ! (?n - Suc ?i)" using n by (simp add: rev_nth)
    finally show ?thesis using roll_index [OF n assms m] by simp
  qed
  consider "j = 0" | "j < 0" | "0 < j" by linarith
  then show ?thesis
  proof cases
    case 1
    then show ?thesis using assms by (simp add: roll_range_def)
  next
    case 2
    have "(int (nat ((- j) mod int ?n)) + j) mod int ?n = 0" using n by (simp add: mod_simps)
    moreover have "nat ((- j) mod int ?n) \<le> ?n" using pos_mod_bound [of "int ?n" "- j"] n by linarith
    ultimately show ?thesis using 2 rot [of "nat ((- j) mod int ?n)"] by (simp add: roll_range_def Let_def)
  next
    case 3
    have "j mod int ?n < int ?n" "0 \<le> j mod int ?n" using n by simp_all
    moreover have "int ?n - j mod int ?n + j = int ?n * (1 + j div int ?n)"
      using minus_mod_eq_mult_div [of j "int ?n"] by (simp add: algebra_simps)
    ultimately have "(int (nat (int ?n - j mod int ?n)) + j) mod int ?n = 0" by simp
    moreover have "nat (int ?n - j mod int ?n) \<le> ?n" using n by (simp add: nat_le_iff)
    ultimately show ?thesis using 3 rot [of "nat (int ?n - j mod int ?n)"] by (simp add: roll_range_def Let_def)
  qed
qed

lemma roll_range_map: "roll_range j xs = map (\<lambda>k. xs ! nat ((int k + j) mod int (length xs))) [0..<length xs]"
proof (rule nth_equalityI)
  show "length (roll_range j xs) = length (map (\<lambda>k. xs ! nat ((int k + j) mod int (length xs))) [0..<length xs])"
    by (simp add: roll_range_def Let_def)
  then show "roll_range j xs ! k = map (\<lambda>k. xs ! nat ((int k + j) mod int (length xs))) [0..<length xs] ! k"
    if "k < length (roll_range j xs)" for k
    using that by (simp add: roll_range_nth)
qed

text \<open>An integer operand held in the object itself.\<close>

definition immediate_integer :: "object \<Rightarrow> int \<Rightarrow> bool" where
  "immediate_integer ob v \<longleftrightarrow> is_integral ob \<and> \<not> uses_heap_cell ob \<and> m_immediate ob = v"

lemma immediate_integerD:
  assumes "immediate_integer ob v"
  shows "number_of ob t = (Value v, t)" "maybe_free_extvalue ob = ret ob" "is_integral ob" "\<not> uses_heap_cell ob"
  using assms by (simp_all add: immediate_integer_def number_immediate maybe_free_extvalue_def)

text \<open>
  C15. \<open>roll\<close> is the cyclic shift it is documented to be, for every 32-bit amount, the most
  negative included: with the amount \<open>j\<close> and the count \<open>n\<close> on top of \<open>n\<close> operands, it removes the two
  numbers and the operand at depth \<open>k\<close> afterwards is the one that was at depth
  \<open>(k + j) mod n\<close>; nothing else changes.
\<close>

theorem roll_spec:
  assumes "immediate_integer jo j" "in_int32 j" "immediate_integer no (int (length xs))" "length xs \<le> 2 ^ 31 - 1"
  shows "roll_op (set_ops (jo # no # xs @ rest) t) =
    (Value (), set_ops (map (\<lambda>k. xs ! nat ((int k + j) mod int (length xs))) [0..<length xs] @ rest) t)"
proof -
  let ?t = "set_ops (jo # no # xs @ rest) t"
  have ver: "verify_operands [VerifyIntegers, VerifyIntegers OR VerifyNotNegative] ?t = (Value (), ?t)"
    using verify_nonneg_integer [OF immediate_integerD(3,1) [OF assms(3)], of "o_type jo" ?t] immediate_integerD(3) [OF assms(1)]
    by (simp add: verify_operands_def verify_with_def verify_integer)
  have jv: "object_integer jo int32_min int32_max ?t = (Value (True, j), ?t)"
    using assms(2) by (simp add: object_integer_value [OF immediate_integerD(3,1) [OF assms(1)]]
        integer_value_def immediate_integerD(3) [OF assms(1)] clamp_def int32_defs)
  have nv: "object_integer no 0 (int (length (jo # no # xs @ rest)) - 2) ?t = (Value (True, int (length xs)), ?t)"
    using assms(4) by (simp add: object_integer_value [OF immediate_integerD(3,1) [OF assms(3)]]
        integer_value_def immediate_integerD(3) [OF assms(3)] clamp_def int32_defs)
  have free: "free_slot 0 ?t = (Value (), ?t)" "free_slot (Suc 0) ?t = (Value (), ?t)"
    using immediate_integerD(4) [OF assms(1)] immediate_integerD(4) [OF assms(3)]
    by (simp_all add: free_slot_immediate)
  show ?thesis using jv nv
    by (simp add: roll_op_def ver free require_op_count_ok roll_range_map Let_def)
qed

theorem roll_spec_witness:
  "roll_op (set_ops [make_integer (- 1), make_integer 3, make_integer 30, make_integer 20, make_integer 10] (small_machine 0)) =
     (Value (), set_ops [make_integer 10, make_integer 30, make_integer 20] (small_machine 0))"
proof -
  have imm: "immediate_integer (make_integer v) v" for v
    by (simp add: immediate_integer_def make_integer_def make_object_def is_integral_iff uses_heap_cell_def
        uses_extvalue_iff uses_widevalue_def)
  have "map (\<lambda>k. [make_integer 30, make_integer 20, make_integer 10] ! nat ((int k + - 1) mod int 3)) [0..<3]
      = [make_integer 10, make_integer 30, make_integer 20]"
    by (simp add: upt_rec)
  then show ?thesis
    using roll_spec [OF imm _ imm, of "- 1" "[make_integer 30, make_integer 20, make_integer 10]" "[]" "small_machine 0"] imm [of 3]
    by (simp add: int32_defs)
qed

section \<open>Duplicating and popping\<close>

lemma set_pool_simps [simp]:
  "pool_of w (set_pool w p t) = p" "ops (set_pool w p t) = ops t" "m_vm_ptr (set_pool w p t) = m_vm_ptr t"
  "m_vm_temp_ptr (set_pool w p t) = m_vm_temp_ptr t" "m_vm_global (set_pool w p t) = m_vm_global t"
  "m_vm_limit (set_pool w p t) = m_vm_limit t" "m_curr_save_level (set_pool w p t) = m_curr_save_level t"
  "m_curr_alloc_global (set_pool w p t) = m_curr_alloc_global t" "set_pool w p (set_pool w q t) = set_pool w p t"
  "m_op (set_pool w p t) = m_op t"
  by (cases w; simp add: pool_of_def set_pool_def ops_def)+

lemma set_ops_fields [simp]:
  "pool_of w (set_ops xs t) = pool_of w t" "m_vm_ptr (set_ops xs t) = m_vm_ptr t"
  "m_vm_temp_ptr (set_ops xs t) = m_vm_temp_ptr t" "m_vm_global (set_ops xs t) = m_vm_global t"
  "m_vm_limit (set_ops xs t) = m_vm_limit t" "m_curr_save_level (set_ops xs t) = m_curr_save_level t"
  "m_curr_alloc_global (set_ops xs t) = m_curr_alloc_global t"
  by (simp_all add: pool_of_def set_ops_def)

text \<open>The invariant depends on the heap by three of its pointers only.\<close>

lemma pool_inv_heap_cong:
  "m_vm_ptr h' = m_vm_ptr h \<Longrightarrow> m_vm_temp_ptr h' = m_vm_temp_ptr h \<Longrightarrow> m_vm_limit h' = m_vm_limit h \<Longrightarrow>
   pool_inv cls L h' p fl live = pool_inv cls L h p fl live"
  by (simp add: pool_inv_def)

lemma cell_valid_heap_cong: "m_vm_limit h' = m_vm_limit h \<Longrightarrow> cell_valid cls p h' off = cell_valid cls p h off"
  by (simp add: cell_valid_def valid_offset_def)

text \<open>
  What an operator that clones into local memory needs: the pool of the cell class is sound for the
  cells \<open>live\<close>, local allocation is on, and the global region is above the local one.
\<close>

definition local_cells :: "bool \<Rightarrow> trix \<Rightarrow> (nat \<Rightarrow> nat list) \<Rightarrow> nat set \<Rightarrow> bool" where
  "local_cells w t fl live \<longleftrightarrow>
     \<not> m_curr_alloc_global t \<and> m_vm_temp_ptr t \<le> m_vm_global t \<and>
     pool_inv (class_of w) (m_curr_save_level t) t (pool_of w t) fl live"

lemma local_cell_not_global:
  assumes "local_cells w t fl live" "off \<in> live"
  shows "\<not> is_global t off"
proof -
  have inv: "pool_inv (class_of w) (m_curr_save_level t) t (pool_of w t) fl live" "m_vm_temp_ptr t \<le> m_vm_global t"
    using assms(1) by (simp_all add: local_cells_def)
  have "off + cc_bytes (class_of w) \<le> m_vm_ptr t" "0 < cc_bytes (class_of w)"
    using pool_inv_cell [OF inv(1), of off 0] assms(2) by (auto simp: class_of_def ext_class_def wide_class_def)
  then show ?thesis using pool_inv_heap [OF inv(1)] inv(2) by (simp add: is_global_def)
qed

lemma make_clone_local:
  assumes cell: "uses_heap_cell ob" "heap_cell_valid t ob" and w: "w = uses_widevalue ob"
    and loc: "local_cells w t fl live"
    and room: "p_free (pool_of w t) (m_curr_save_level t) \<noteq> 0 \<or> vm_size_available t 8 (cc_bytes (class_of w))"
  shows "\<exists>off t' fl'. make_clone gc ob t = (Value (ob\<lparr>m_object_save_level := 0, m_offset := off,
      m_extvalue_save_level := m_curr_save_level t\<rparr>), t') \<and> off \<notin> live \<and> local_cells w t' fl' (insert off live) \<and>
    p_mem (pool_of w t') = (p_mem (pool_of w t'))(off := p_mem (pool_of w t) (m_offset ob)) \<and>
    (\<forall>x. x \<noteq> off \<longrightarrow> p_mem (pool_of w t') x = p_mem (pool_of w t) x) \<and>
    ops t' = ops t \<and> m_op t' = m_op t \<and> m_curr_save_level t' = m_curr_save_level t \<and> m_vm_limit t' = m_vm_limit t"
proof -
  let ?cls = "class_of w" and ?L = "m_curr_save_level t" and ?lanes = "p_mem (pool_of w t) (m_offset ob)"
  have inv: "pool_inv ?cls ?L t (pool_of w t) fl live" and nog: "\<not> m_curr_alloc_global t" "m_vm_temp_ptr t \<le> m_vm_global t"
    using loc by (simp_all add: local_cells_def)
  have sz: "0 < cc_bytes ?cls" by (simp add: class_of_def ext_class_def wide_class_def)
  obtain off p' v fl' where al: "cell_alloc_local ?cls ?L (pool_of w t) t = (Value off, p', t\<lparr>m_vm_ptr := v\<rparr>)"
    "off \<notin> live" "pool_inv ?cls ?L (t\<lparr>m_vm_ptr := v\<rparr>) p' fl' (insert off live)"
    "\<forall>x. x \<noteq> off \<longrightarrow> p_mem p' x = p_mem (pool_of w t) x"
    using cell_alloc_ok [OF inv sz room] by blast
  let ?q = "cell_write off ?lanes p'"
  let ?t = "set_pool w ?q (t\<lparr>m_vm_ptr := v\<rparr>)"
  have inv': "pool_inv ?cls ?L (t\<lparr>m_vm_ptr := v\<rparr>) ?q fl' (insert off live)"
    using cell_write_inv [OF al(3)] by simp
  have loc': "local_cells w ?t fl' (insert off live)"
    unfolding local_cells_def using inv' nog by (simp add: pool_inv_heap_cong [of ?t "t\<lparr>m_vm_ptr := v\<rparr>"])
  have "make_clone gc ob t = (Value (ob\<lparr>m_object_save_level := 0, m_offset := off, m_extvalue_save_level := ?L\<rparr>), ?t)"
    using cell nog(1) al(1) local_cell_not_global [OF loc', of off] w
    by (simp add: make_clone_def cell_lanes_def heap_alloc_def seq_def extvalue_save_level_for_alloc_def)
  moreover have "p_mem ?q = (p_mem ?q)(off := ?lanes)" "\<forall>x. x \<noteq> off \<longrightarrow> p_mem ?q x = p_mem (pool_of w t) x"
    using al(4) by (simp_all add: cell_write_def)
  ultimately show ?thesis using al(2) loc'
    by (intro exI [of _ off] exI [of _ ?t] exI [of _ fl']) (simp add: ops_def)
qed

lemma local_cell_below_limit:
  assumes "local_cells w t fl live" "off \<in> live"
  shows "off < m_vm_limit t"
proof -
  have inv: "pool_inv (class_of w) (m_curr_save_level t) t (pool_of w t) fl live" using assms(1) by (simp add: local_cells_def)
  have "off + cc_bytes (class_of w) \<le> m_vm_ptr t" "0 < cc_bytes (class_of w)"
    using pool_inv_cell [OF inv, of off 0] assms(2) by (auto simp: class_of_def ext_class_def wide_class_def)
  then show ?thesis using pool_inv_heap [OF inv] by linarith
qed

lemma local_cell_valid:
  assumes loc: "local_cells w t fl live" and off: "off \<in> live" and lanes: "tl (p_mem (pool_of w t) off) \<noteq> dead_mark (class_of w) off"
  shows "cell_valid (class_of w) (pool_of w t) t off"
proof -
  have inv: "pool_inv (class_of w) (m_curr_save_level t) t (pool_of w t) fl live" using loc by (simp add: local_cells_def)
  have "off \<noteq> 0 \<and> 8 dvd off \<and> off + cc_bytes (class_of w) \<le> m_vm_ptr t" using pool_inv_cell [OF inv, of off 0] off by blast
  moreover from this have "off + cc_bytes (class_of w) \<le> m_vm_limit t" using pool_inv_heap [OF inv] by linarith
  ultimately show ?thesis using lanes by (simp add: cell_valid_def valid_offset_def cell_dead_def nulloffset_def)
qed

lemma maybe_free_local:
  assumes cell: "uses_heap_cell ob" and w: "w = uses_widevalue ob" and loc: "local_cells w t fl live"
    and off: "m_offset ob \<in> live" and ok: "cell_valid (class_of w) (pool_of w t) t (m_offset ob)"
    and lvl: "m_extvalue_save_level ob = m_curr_save_level t"
  shows "\<exists>t' fl'. maybe_free_extvalue ob t = (Value (ob\<lparr>m_offset := 0\<rparr>), t') \<and> ops t' = ops t \<and> m_op t' = m_op t \<and>
    local_cells w t' fl' (live - {m_offset ob}) \<and> (\<forall>x. x \<noteq> m_offset ob \<longrightarrow> p_mem (pool_of w t') x = p_mem (pool_of w t) x)"
proof -
  let ?L = "m_curr_save_level t"
  have inv: "pool_inv (class_of w) ?L t (pool_of w t) fl live" and nog: "\<not> m_curr_alloc_global t" "m_vm_temp_ptr t \<le> m_vm_global t"
    using loc by (simp_all add: local_cells_def)
  obtain p' where p': "cell_free_local (class_of w) ?L (m_offset ob) ?L (pool_of w t) t = (Value (), p')"
    "pool_inv (class_of w) ?L t p' (fl(?L := m_offset ob # fl ?L)) (live - {m_offset ob})"
    "\<forall>x. x \<noteq> m_offset ob \<longrightarrow> p_mem p' x = p_mem (pool_of w t) x"
    using cell_free_ok [OF inv off ok order_refl] by blast
  have "maybe_free_extvalue ob t = (Value (ob\<lparr>m_offset := 0\<rparr>), set_pool w p' t)"
    using cell w lvl p'(1) local_cell_not_global [OF loc off]
    by (simp add: maybe_free_extvalue_def heap_free_def seq_def nulloffset_def)
  moreover have "local_cells w (set_pool w p' t) (fl(?L := m_offset ob # fl ?L)) (live - {m_offset ob})"
    unfolding local_cells_def using p'(2) nog by (simp add: pool_inv_heap_cong [of "set_pool w p' t" t])
  ultimately show ?thesis using p'(3)
    by (intro exI [of _ "set_pool w p' t"] exI [of _ "fl(?L := m_offset ob # fl ?L)"]) simp
qed

lemma require_op_capacity_ok:
  assumes "count \<le> int (s_size (m_op t)) - int (length (ops t))"
  shows "\<exists>hw. require_op_capacity count t = (Value (), t\<lparr>m_op := (m_op t)\<lparr>s_high_water := hw\<rparr>\<rparr>)"
proof -
  let ?c = "int (length (ops t)) + count"
  have "require_op_capacity count t =
      (Value (), t\<lparr>m_op := (m_op t)\<lparr>s_high_water := if ?c > s_high_water (m_op t) then ?c else s_high_water (m_op t)\<rparr>\<rparr>)"
    using assms by (simp add: require_op_capacity_def reserve_def Let_def ops_def)
  then show ?thesis by blast
qed

lemma high_water_fields [simp]:
  "ops (t\<lparr>m_op := (m_op t)\<lparr>s_high_water := hw\<rparr>\<rparr>) = ops t" "pool_of w (t\<lparr>m_op := st\<rparr>) = pool_of w t"
  "local_cells w (t\<lparr>m_op := st\<rparr>) fl live = local_cells w t fl live"
  "heap_cell_valid (t\<lparr>m_op := st\<rparr>) ob = heap_cell_valid t ob"
  by (simp_all add: ops_def pool_of_def local_cells_def heap_cell_valid_def pool_inv_def cell_valid_def valid_offset_def)

lemma set_ops_local_cells [simp]: "local_cells w (set_ops xs t) fl live = local_cells w t fl live"
  by (simp add: set_ops_def)

text \<open>
  C14. \<open>dup\<close> of a wide number pushes a copy with a cell of its own that holds the same number, and \<open>pop\<close>
  gives that cell back: afterwards the operand stack is what it was, the pool is sound for the
  same cells in use, and none of them has changed. The number must not be one whose upper
  lanes equal the mark of a freed cell, for which the code mistakes it.
\<close>

theorem dup_pop_restores:
  assumes stack: "ops t = ob # rest" "length (ops t) < s_size (m_op t)"
    and cell: "uses_heap_cell ob" "heap_cell_valid t ob" "local_cells (uses_widevalue ob) t fl live"
    and room: "p_free (pool_of (uses_widevalue ob) t) (m_curr_save_level t) \<noteq> 0 \<or>
      vm_size_available t 8 (cc_bytes (class_of (uses_widevalue ob)))"
    and lanes: "\<forall>off<m_vm_limit t. tl (p_mem (pool_of (uses_widevalue ob) t) (m_offset ob)) \<noteq> dead_mark (class_of (uses_widevalue ob)) off"
  shows "\<exists>c t1 t2 fl'. dup_op gc t = (Value (), t1) \<and> ops t1 = c # ob # rest \<and> m_offset c \<notin> live \<and>
    fst (number_of c t1) = fst (number_of ob t) \<and>
    pop_op t1 = (Value (), t2) \<and> ops t2 = ob # rest \<and> local_cells (uses_widevalue ob) t2 fl' live \<and>
    (\<forall>x\<in>live. p_mem (pool_of (uses_widevalue ob) t2) x = p_mem (pool_of (uses_widevalue ob) t) x)"
proof -
  let ?w = "uses_widevalue ob"
  obtain hw where cap: "require_op_capacity 1 t = (Value (), t\<lparr>m_op := (m_op t)\<lparr>s_high_water := hw\<rparr>\<rparr>)"
    using require_op_capacity_ok [of 1 t] stack(2) by auto
  let ?t = "t\<lparr>m_op := (m_op t)\<lparr>s_high_water := hw\<rparr>\<rparr>"
  have pre: "heap_cell_valid ?t ob" "local_cells ?w ?t fl live"
    "p_free (pool_of ?w ?t) (m_curr_save_level ?t) \<noteq> 0 \<or> vm_size_available ?t 8 (cc_bytes (class_of ?w))"
    using cell room by (simp_all add: vm_size_available_def align_vm_ptr_def)
  obtain off t' fl' where cl: "make_clone gc ob ?t = (Value (ob\<lparr>m_object_save_level := 0, m_offset := off,
      m_extvalue_save_level := m_curr_save_level ?t\<rparr>), t')" "off \<notin> live" "local_cells ?w t' fl' (insert off live)"
    "p_mem (pool_of ?w t') = (p_mem (pool_of ?w t'))(off := p_mem (pool_of ?w ?t) (m_offset ob))"
    "\<forall>x. x \<noteq> off \<longrightarrow> p_mem (pool_of ?w t') x = p_mem (pool_of ?w ?t) x"
    "ops t' = ops ?t" "m_curr_save_level t' = m_curr_save_level ?t" "m_vm_limit t' = m_vm_limit ?t"
    using make_clone_local [OF cell(1) pre(1) refl pre(2,3), of gc] by blast
  let ?c = "ob\<lparr>m_object_save_level := 0, m_offset := off, m_extvalue_save_level := m_curr_save_level t\<rparr>"
  let ?t1 = "set_ops (?c # ops t') t'"
  have c: "uses_heap_cell ?c" "uses_widevalue ?c = ?w" "o_type ?c = o_type ob"
    using cell(1) by (simp_all add: uses_heap_cell_def uses_widevalue_def uses_extvalue_def has_attr_def)
  have dup: "dup_op gc t = (Value (), ?t1)"
    using stack cap cl(1) by (simp add: dup_op_def require_op_count_ok push_operand_def)
  have at: "p_mem (pool_of ?w t') off = p_mem (pool_of ?w t) (m_offset ob)" using fun_cong [OF cl(4), of off] by simp
  have val: "cell_valid (class_of ?w) (pool_of ?w t') t' off"
    using local_cell_valid [OF cl(3), of off] local_cell_below_limit [OF cl(3), of off] lanes at cl(8) by simp
  have num: "fst (number_of ?c ?t1) = fst (number_of ob t)"
    using val cell(1,2) c at by (simp add: number_of_def seq_def cell_lanes_def heap_cell_valid_def
        cell_valid_heap_cong [of "set_ops (?c # ops t') t'" t'])
  have t1: "local_cells ?w (set_ops (ob # rest) t') fl' (insert off live)" using cl(3) by simp
  obtain t2 fl2 where fr: "maybe_free_extvalue ?c (set_ops (ob # rest) t') = (Value (?c\<lparr>m_offset := 0\<rparr>), t2)"
    "ops t2 = ob # rest" "local_cells ?w t2 fl2 (insert off live - {off})"
    "\<forall>x. x \<noteq> off \<longrightarrow> p_mem (pool_of ?w t2) x = p_mem (pool_of ?w t') x"
    using maybe_free_local [OF c(1) c(2) [symmetric] t1] val cl(7)
    by (auto simp: cell_valid_heap_cong [of "set_ops (ob # rest) t'" t'])
  have pop: "pop_op ?t1 = (Value (), t2)"
    using fr(1) cl(6) stack(1) by (simp add: pop_op_def require_op_count_ok drop_ops_def)
  have "insert off live - {off} = live" using cl(2) by blast
  then show ?thesis using dup num pop fr(2-4) cl(2,5,6) stack(1)
    by (intro exI [of _ ?c] exI [of _ ?t1] exI [of _ t2] exI [of _ fl2]) auto
qed

lemma local_small_machine:
  "local_cells False (set_ops xs (small_machine v)) (\<lambda>_. []) {8}"
  by (auto simp: local_cells_def small_machine_def pool_inv_def class_of_def pool_of_def set_ops_def ext_class_def
      empty_pool_def nulloffset_def)

lemma long_at_8_simps [simp]:
  "uses_heap_cell long_at_8" "uses_widevalue long_at_8 = False" "m_offset long_at_8 = 8" "o_type long_at_8 = TLong"
  "m_extvalue_save_level long_at_8 = 0"
  by (simp_all add: long_at_8_def make_object_def uses_heap_cell_def uses_widevalue_def uses_extvalue_iff)

lemma long_at_8_valid: "heap_cell_valid (set_ops xs (small_machine v)) long_at_8"
  by (simp add: heap_cell_valid_def cell_valid_def valid_offset_def cell_dead_def dead_mark_def class_of_def ext_class_def
      pool_of_def set_ops_def small_machine_def empty_pool_def nulloffset_def)

theorem dup_pop_restores_witness:
  "\<exists>c t1 t2. dup_op (\<lambda>g. Value g) (set_ops [long_at_8] (small_machine 5)) = (Value (), t1) \<and> ops t1 = [c, long_at_8] \<and>
     m_offset c \<noteq> 8 \<and> pop_op t1 = (Value (), t2) \<and> ops t2 = [long_at_8]"
proof -
  let ?t = "set_ops [long_at_8] (small_machine 5)"
  have t: "ops ?t = [long_at_8]" "length (ops ?t) < s_size (m_op ?t)" "m_vm_limit ?t = 1024" "tl (p_mem (pool_of False ?t) 8) = [0]"
    by (simp_all add: small_machine_def set_ops_def empty_stack_def pool_of_def ops_def)
  have "(0 :: u32) \<noteq> word_of_nat off XOR 0xDEADBEEF" if "off < 1024" for off
  proof
    assume "(0 :: u32) = word_of_nat off XOR 0xDEADBEEF"
    moreover have "(word_of_nat off :: u32) = (word_of_nat off XOR 0xDEADBEEF) XOR 0xDEADBEEF"
      by (simp only: xor.assoc xor_self_eq xor.right_neutral)
    ultimately have "(word_of_nat off :: u32) = 0xDEADBEEF" by (simp only: xor.left_neutral)
    then have "unat (word_of_nat off :: u32) = 3735928559" by simp
    then show False using that by (simp add: unat_of_nat)
  qed
  then have "\<forall>off<m_vm_limit ?t. tl (p_mem (pool_of False ?t) 8) \<noteq> dead_mark (class_of False) off"
    unfolding t by (simp add: dead_mark_def class_of_def ext_class_def)
  moreover have "vm_size_available ?t 8 (cc_bytes (class_of False))"
    by (simp add: vm_size_available_def small_machine_def align_vm_ptr_def align_up_def class_of_def ext_class_def set_ops_def)
  ultimately show ?thesis
    using dup_pop_restores [OF t(1,2) _ long_at_8_valid, of "\<lambda>_. []" "{8}" "\<lambda>g. Value g"] local_small_machine
    by auto
qed

text \<open>
  C25. \<open>dup-n\<close> leaves a dangling operand behind when the stack is too small: with a Long as the count
  it frees the count's cell before it checks the capacity, and the overflow error leaves the
  count on the stack without a cell. After that a \<open>pop\<close> of it is an internal error, and so
  is every \<open>clear\<close>, which then removes nothing.
\<close>

theorem dupn_overflow_dangles:
  assumes stack: "ops t = N # xs" and cell: "o_type N = TLong" "heap_cell_valid t N" "m_offset N \<in> live"
      "m_extvalue_save_level N = m_curr_save_level t" "local_cells False t fl live"
    and num: "number_of N t = (Value n, t)" "0 < n" "n \<le> int (length xs)" "n \<le> int32_max"
    and full: "int (s_size (m_op t)) - int (length (ops t)) < n - 1"
  shows "\<exists>t1. dupn_op gc t = (Raise OpStackOverflow, t1) \<and> ops t1 = N\<lparr>m_offset := 0\<rparr> # xs \<and>
    fst (pop_op t1) = Raise InternalError \<and> clear_op t1 = (Raise InternalError, t1)"
proof -
  have ty: "is_integral N" "uses_heap_cell N" "uses_widevalue N = False"
    using cell(1) by (simp_all add: is_integral_iff uses_heap_cell_def uses_extvalue_iff uses_widevalue_def)
  have ver: "verify_operands [VerifyIntegers OR VerifyNotNegative] t = (Value (), t)"
    using verify_nonneg_integer [OF ty(1) num(1), of "o_type N"] num(2) stack
    by (simp add: verify_operands_def verify_with_def)
  have int: "object_integer N 0 (int (length (ops t)) - 1) t = (Value (True, n), t)"
    using num(2-4) stack by (simp add: object_integer_value [OF ty(1) num(1)] integer_value_def ty(1) clamp_def int32_defs)
  obtain t' fl' where fr: "maybe_free_extvalue N t = (Value (N\<lparr>m_offset := 0\<rparr>), t')" "ops t' = ops t"
      "local_cells False t' fl' (live - {m_offset N})" "m_op t' = m_op t"
    using maybe_free_local [OF ty(2), of False t fl live] ty(3) cell(2-5)
    by (auto simp: heap_cell_valid_def)
  let ?t1 = "set_ops (N\<lparr>m_offset := 0\<rparr> # xs) t'"
  have slot: "free_slot 0 t = (Value (), ?t1)" using fr(1,2) stack by (simp add: free_slot_def)
  have cap: "require_op_capacity (n - 1) ?t1 = (Raise OpStackOverflow, ?t1)"
    using full stack fr(4) by (simp add: require_op_capacity_def reserve_def Let_def set_ops_def ops_def)
  have dn: "dupn_op gc t = (Raise OpStackOverflow, ?t1)"
    using ver int slot cap stack num(2,3) by (simp add: dupn_op_def require_op_count_ok)
  have pos: "0 < m_vm_global t'" using fr(3) by (auto simp: local_cells_def pool_inv_def)
  have bad: "maybe_free_extvalue (N\<lparr>m_offset := 0\<rparr>) (set_ops ys t') = (Raise InternalError, set_ops ys t')" for ys
    using ty pos by (simp add: maybe_free_extvalue_def heap_free_def is_global_def cell_free_local_def cell_valid_def
        valid_offset_def nulloffset_def uses_heap_cell_def uses_extvalue_def uses_widevalue_def has_attr_def seq_def
        pool_of_def set_pool_def set_ops_def)
  have "fst (pop_op ?t1) = Raise InternalError"
    using bad [of xs] by (simp add: pop_op_def require_op_count_ok drop_ops_def)
  moreover have "clear_op ?t1 = (Raise InternalError, ?t1)"
    using bad [of "N\<lparr>m_offset := 0\<rparr> # xs"] by (simp add: clear_op_def free_slot_def)
  ultimately show ?thesis using dn by (intro exI [of _ ?t1]) simp
qed

theorem dupn_overflow_dangles_witness:
  "\<exists>t1. dupn_op (\<lambda>g. Value g) (set_ops [long_at_8, make_mark, make_mark, make_mark] (small_machine 3)) = (Raise OpStackOverflow, t1) \<and>
     fst (pop_op t1) = Raise InternalError \<and> clear_op t1 = (Raise InternalError, t1)"
proof -
  let ?t = "set_ops [long_at_8, make_mark, make_mark, make_mark] (small_machine 3)"
  have "number_of long_at_8 ?t = (Value 3, ?t)"
    using long_at_8_valid by (simp add: number_of_def cell_lanes_def pool_of_def set_ops_def small_machine_def
        empty_pool_def lanes_nat_def to_signed_def)
  moreover have "int (s_size (m_op ?t)) - int (length (ops ?t)) < 3 - 1" "m_curr_save_level ?t = 0"
    by (simp_all add: small_machine_def set_ops_def empty_stack_def ops_def)
  ultimately have "\<exists>t1. dupn_op (\<lambda>g. Value g) ?t = (Raise OpStackOverflow, t1) \<and>
      ops t1 = long_at_8\<lparr>m_offset := 0\<rparr> # [make_mark, make_mark, make_mark] \<and>
      fst (pop_op t1) = Raise InternalError \<and> clear_op t1 = (Raise InternalError, t1)"
    by (intro dupn_overflow_dangles [of ?t long_at_8 "[make_mark, make_mark, make_mark]" "{8}" "\<lambda>_. []" 3])
      (simp_all add: int32_defs long_at_8_valid local_small_machine del: set_ops_local_cells)
  then show ?thesis by blast
qed

end
