(* ===== verification/Unwind.thy ===== *)
theory Unwind
  imports Ops_Stack
begin

text \<open>
  Unwinding of the execution stack: \<^verbatim>\<open>unwind_exec_to\<close>, which \<open>exit\<close> and \<open>stop\<close> share
  (\<^verbatim>\<open>src/ops_flow.inl\<close>), and \<^verbatim>\<open>try_catch_handler\<close>, which looks for the barrier that catches an error
  (\<^verbatim>\<open>src/ops_system.inl\<close>). The stacks are lists with their top first. Closing a stream and
  clearing or recycling a dictionary belong to parts that are not modelled; they are arguments,
  bundled in the record of services.

  The handler ends in \<^verbatim>\<open>throw Exception::Error\<close> when a barrier has caught the error and returns when none
  has, so its value is whether the error was caught. A read below the base of the error
  stack is a fault.
\<close>

section \<open>Services\<close>

record services =
  svc_gc :: "gvm \<Rightarrow> gvm outcome"
  svc_close :: "nat \<Rightarrow> trix \<Rightarrow> unit outcome \<times> trix"
  svc_clear_name_bindings :: "nat \<Rightarrow> trix \<Rightarrow> unit outcome \<times> trix"
  svc_recycle :: "nat \<Rightarrow> trix \<Rightarrow> unit outcome \<times> trix"

section \<open>Steps\<close>

definition free_exec_slot :: "nat \<Rightarrow> (trix, unit) action" where
  "free_exec_slot i =
     seq (gets (\<lambda>t. execs t ! i)) (\<lambda>ob.
     seq (maybe_free_extvalue ob) (\<lambda>ob'.
     modify (\<lambda>t. set_execs ((execs t)[i := ob']) t)))"

text \<open>\<open>maybe_free_extvalue_execstack\<close> on \<open>k\<close> slots from index \<open>i\<close> down.\<close>

fun free_exec_slots :: "nat \<Rightarrow> nat \<Rightarrow> (trix, unit) action" where
  "free_exec_slots i 0 = ret ()"
| "free_exec_slots i (Suc k) = seq (free_exec_slot i) (\<lambda>_. free_exec_slots (Suc i) k)"

definition drop_execs :: "nat \<Rightarrow> (trix, unit) action" where
  "drop_execs k = modify (\<lambda>t. set_execs (drop k (execs t)) t)"

text \<open>Closing the stream an object refers to, if its session number still matches.\<close>

definition close_if_sid :: "services \<Rightarrow> object \<Rightarrow> (trix, unit) action" where
  "close_if_sid svc ob t =
     (case offset_to_ptr t (m_offset ob) of
        Value off \<Rightarrow> if m_stream_sid t off = m_length ob then svc_close svc off t else (Value (), t)
      | Raise e \<Rightarrow> (Raise e, t) | Diverge \<Rightarrow> (Diverge, t) | Fault \<Rightarrow> (Fault, t))"

definition close_if_open :: "services \<Rightarrow> object \<Rightarrow> (trix, unit) action" where
  "close_if_open svc ob t =
     (case offset_to_ptr t (m_offset ob) of
        Value off \<Rightarrow> if m_stream_sid t off = m_length ob \<and> m_stream_open t off then svc_close svc off t
                     else (Value (), t)
      | Raise e \<Rightarrow> (Raise e, t) | Diverge \<Rightarrow> (Diverge, t) | Fault \<Rightarrow> (Fault, t))"

text \<open>The slot above index \<open>i\<close>.\<close>

definition slot_above :: "nat \<Rightarrow> trix \<Rightarrow> object" where
  "slot_above i t = (if i = 0 then m_exec_above t else execs t ! (i - 1))"

definition pop_err :: "(trix, object) action" where
  "pop_err t = (case errs t of ob # rest \<Rightarrow> (Value ob, set_errs rest t) | [] \<Rightarrow> (Fault, t))"

definition pop_frame_dict_if_present :: "services \<Rightarrow> (trix, nat option) action" where
  "pop_frame_dict_if_present svc =
     seq (gets dicts) (\<lambda>ds.
       if length ds > PermanentDictCount
       then seq (\<lambda>t. (case offset_to_ptr t (m_offset (hd ds)) of
                   Value off \<Rightarrow> (Value off, t) | Raise e \<Rightarrow> (Raise e, t) | Diverge \<Rightarrow> (Diverge, t) | Fault \<Rightarrow> (Fault, t))) (\<lambda>off.
            seq (modify (set_dicts (tl ds))) (\<lambda>_.
            seq (svc_clear_name_bindings svc off) (\<lambda>_. ret (Some off))))
       else ret None)"

definition pop_and_recycle :: "services \<Rightarrow> object \<Rightarrow> (trix, unit) action" where
  "pop_and_recycle svc ob =
     seq (pop_frame_dict_if_present svc) (\<lambda>popped.
       case popped of
         Some off \<Rightarrow> if operator_is atEndLocals ob then svc_recycle svc off else ret ()
       | None \<Rightarrow> ret ())"

section \<open>Unwinding for exit and stop\<close>

definition unwind_slot :: "services \<Rightarrow> nat \<Rightarrow> (trix, unit) action" where
  "unwind_slot svc i =
     seq (gets (\<lambda>t. execs t ! i)) (\<lambda>scan.
       if is_operator scan
       then if operator_is atTryCatchBarrier scan \<or> operator_is atFinallyBarrier scan \<or>
               operator_is atDelimitBarrier scan \<or> operator_is atEffectBarrier scan
            then modify (\<lambda>t. set_errs (drop 1 (errs t)) t)
            else if operator_is atEndInGlobal scan
            then modify (\<lambda>t. case errs t of
                   flag # rest \<Rightarrow> (set_errs rest t)\<lparr>m_curr_alloc_global := boolean_value flag\<rparr>
                 | [] \<Rightarrow> t)
            else if operator_is atHandlerScope scan
            then modify (\<lambda>t. if length (errs t) \<ge> 2 then set_errs (drop 2 (errs t)) t else t)
            else if operator_is atWithStream scan
            then (\<lambda>t. case errs t of
                   stream_obj # rest \<Rightarrow> close_if_open svc stream_obj (set_errs rest t)
                 | [] \<Rightarrow> (Value (), t))
            else if operator_is_run scan then seq (gets (slot_above i)) (close_if_sid svc)
            else if operator_is_dictpop scan then pop_and_recycle svc scan
            else ret ()
       else free_exec_slot i)"

fun unwind_slots :: "services \<Rightarrow> nat \<Rightarrow> nat \<Rightarrow> (trix, unit) action" where
  "unwind_slots svc i 0 = ret ()"
| "unwind_slots svc i (Suc k) = seq (unwind_slot svc i) (\<lambda>_. unwind_slots svc (Suc i) k)"

text \<open>The slots above the target are unwound from the top, then the stack is cut.\<close>

definition unwind_exec_to :: "services \<Rightarrow> nat \<Rightarrow> (trix, unit) action" where
  "unwind_exec_to svc k = seq (unwind_slots svc 0 k) (\<lambda>_. drop_execs k)"

section \<open>The error handler\<close>

text \<open>
  Closing the streams of the \<open>runs\<close> run markers above index \<open>i\<close>, from the top.
\<close>

fun close_runs :: "services \<Rightarrow> nat \<Rightarrow> nat \<Rightarrow> nat \<Rightarrow> (trix, unit) action" where
  "close_runs svc j 0 runs = ret ()"
| "close_runs svc j (Suc k) runs =
     (if runs = 0 then ret ()
      else seq (gets (\<lambda>t. execs t ! j)) (\<lambda>ob.
             if is_operator ob \<and> operator_is_run ob
             then seq (gets (slot_above j)) (\<lambda>stream.
                  seq (close_if_sid svc stream) (\<lambda>_. close_runs svc (Suc j) k (runs - 1)))
             else close_runs svc (Suc j) k runs))"

definition replace_atom :: "op_descriptor \<Rightarrow> object" where
  "replace_atom desc = (case od_replace_with desc of Some r \<Rightarrow> make_control_operator r | None \<Rightarrow> make_null)"

text \<open>The barrier at index \<open>i\<close> catches the error; the value is false when it is bypassed.\<close>

definition handler_catch :: "services \<Rightarrow> nat \<Rightarrow> object \<Rightarrow> op_descriptor \<Rightarrow> bool \<Rightarrow> nat \<Rightarrow> (trix, bool) action" where
  "handler_catch svc i ob desc free_extvalue run_count =
     seq (if operator_is_errorpush ob
          then (\<lambda>t. if \<not> has_op_capacity 1 t then (Value False, t)
                     else (Value True, (set_ops (m_last_error_name t # ops t) t)\<lparr>m_planted_error_objects := 1\<rparr>))
          else ret True) (\<lambda>pushed.
     if \<not> pushed then ret False
     else
       seq (close_runs svc 0 i run_count) (\<lambda>_.
       seq (if free_extvalue then free_exec_slots 0 (Suc i) else ret ()) (\<lambda>_.
       if od_unwind desc = UStop then seq (drop_execs (Suc i)) (\<lambda>_. ret True)
       else if operator_is atReplBarrier ob
       then (\<lambda>t. if \<not> has_op_capacity 1 t then (Value False, t)
                  else (Value True,
                    (set_execs (replace_atom desc # drop (Suc i) (execs t))
                      (set_ops (hd (ops t) # m_last_operator t # tl (ops t)) t))\<lparr>m_planted_error_objects := 2\<rparr>))
       else if operator_is atFinallyBarrier ob
       then seq pop_err (\<lambda>finally_block.
            seq (modify (\<lambda>t. set_execs (finally_block # replace_atom desc # drop (Suc i) (execs t)) t)) (\<lambda>_. ret True))
       else if operator_is atWithStream ob
       then seq pop_err (\<lambda>stream_obj.
            seq (close_if_open svc stream_obj) (\<lambda>_.
            seq (modify (\<lambda>t. set_execs (replace_atom desc # drop (Suc i) (execs t)) t)) (\<lambda>_. ret True)))
       else seq (modify (\<lambda>t. set_execs (replace_atom desc # drop (Suc i) (execs t)) t)) (\<lambda>_. ret True))))"

fun handler_scan :: "services \<Rightarrow> nat \<Rightarrow> nat \<Rightarrow> bool \<Rightarrow> nat \<Rightarrow> (trix, bool) action" where
  "handler_scan svc i 0 free_extvalue run_count = ret False"
| "handler_scan svc i (Suc k) free_extvalue run_count =
     seq (gets (\<lambda>t. execs t ! i)) (\<lambda>ob.
       if is_operator ob
       then if operator_is_barrier ob
            then let desc = op_descriptor_at (m_immediate ob)
                 in if od_unwind desc = UPopAndContinue
                    then if operator_is atEndInGlobal ob
                         then seq pop_err (\<lambda>flag.
                              seq (modify (m_curr_alloc_global_update (\<lambda>_. boolean_value flag))) (\<lambda>_.
                              handler_scan svc (Suc i) k free_extvalue run_count))
                         else seq (\<lambda>t. if od_err_companions desc \<le> length (errs t)
                                       then (Value (), set_errs (drop (od_err_companions desc) (errs t)) t)
                                       else (Fault, t)) (\<lambda>_.
                              handler_scan svc (Suc i) k free_extvalue run_count)
                    else handler_catch svc i ob desc free_extvalue run_count
            else if operator_is_dictpop ob
            then seq (pop_and_recycle svc ob) (\<lambda>_. handler_scan svc (Suc i) k free_extvalue run_count)
            else if operator_is_run ob then handler_scan svc (Suc i) k free_extvalue (Suc run_count)
            else handler_scan svc (Suc i) k free_extvalue run_count
       else if uses_heap_cell ob then handler_scan svc (Suc i) k True run_count
       else handler_scan svc (Suc i) k free_extvalue run_count)"

definition try_catch_handler :: "services \<Rightarrow> (trix, bool) action" where
  "try_catch_handler svc = seq (gets (\<lambda>t. length (execs t))) (\<lambda>n. handler_scan svc 0 n False 0)"

section \<open>Control operators as objects\<close>

lemma make_control_operator_fields:
  assumes "control_op_data s = Some (f, c)"
  shows "operator_flags (make_control_operator s) = f" "operator_popcount (make_control_operator s) = c"
    "is_operator (make_control_operator s)" "m_immediate (make_control_operator s) = int s"
    "\<not> uses_heap_cell (make_control_operator s)"
proof -
  have f: "unat f < 256" using unsigned_less [of f] by simp
  then have "(unat f + 256 * c) mod 256 = unat f" "(unat f + 256 * c) div 256 = c" by simp_all
  then show "operator_flags (make_control_operator s) = f" "operator_popcount (make_control_operator s) = c"
    using assms by (simp_all add: make_control_operator_def make_object_def operator_flags_def operator_popcount_def)
  show "is_operator (make_control_operator s)" "m_immediate (make_control_operator s) = int s"
      "\<not> uses_heap_cell (make_control_operator s)"
    using assms by (simp_all add: make_control_operator_def make_object_def is_operator_def uses_heap_cell_def
        uses_extvalue_iff uses_widevalue_def)
qed

lemma control_op_values:
  "control_op_data atEndInGlobal = Some (BarrierOp, 0)" "control_op_data atTryBarrier = Some (BarrierOp OR ErrorPushOp, 0)"
  "control_op_data atLoop = Some (ControlOp, 2)" "control_op_data atWhile = Some (ControlOp, 3)"
  "control_op_data atDoWhile = Some (ControlOp, 2)" "control_op_data atMatchTest = Some (ControlOp, 2)"
  "control_op_data atStop = Some (StopOp, 0)" "control_op_data atTryRollback = Some (StandardOp, 0)"
  by (simp_all add: control_op_data_def control_row_defs op_flag_defs)

lemma op_descriptor_values:
  "od_unwind (op_descriptor_for atEndInGlobal) = UPopAndContinue" "od_unwind (op_descriptor_for atTryBarrier) = UStop"
  by (simp_all add: op_descriptor_for_def descriptor_defs inside_labels_def)

section \<open>Quiet slots\<close>

text \<open>
  A slot that no unwinder acts on: a value without a heap cell, or an operator without flags that is
  not one of those the unwinders know by name.
\<close>

definition quiet :: "object \<Rightarrow> bool" where
  "quiet ob \<longleftrightarrow>
     (if is_operator ob
      then operator_flags ob = StandardOp \<and>
        m_immediate ob \<notin> {int atTryCatchBarrier, int atFinallyBarrier, int atDelimitBarrier, int atEffectBarrier,
          int atEndInGlobal, int atHandlerScope, int atWithStream}
      else \<not> uses_heap_cell ob)"

lemma quiet_flags:
  assumes "quiet ob" "is_operator ob"
  shows "\<not> operator_is_run ob" "\<not> operator_is_dictpop ob" "\<not> operator_is_barrier ob" "\<not> operator_is_control ob"
    "\<not> operator_is_invalid_exit ob" "\<not> operator_is_stop ob"
  using assms by (simp_all add: quiet_def operator_is_run_def operator_is_dictpop_def operator_is_barrier_def
      operator_is_control_def operator_is_invalid_exit_def operator_is_stop_def StandardOp_def)

lemma free_exec_slot_immediate:
  "i < length (execs t) \<Longrightarrow> \<not> uses_heap_cell (execs t ! i) \<Longrightarrow> free_exec_slot i t = (Value (), t)"
  by (simp add: free_exec_slot_def maybe_free_extvalue_def list_update_id set_execs_def execs_def)

lemma free_exec_slots_immediate:
  "i + k \<le> length (execs t) \<Longrightarrow> \<forall>j<k. \<not> uses_heap_cell (execs t ! (i + j)) \<Longrightarrow> free_exec_slots i k t = (Value (), t)"
proof (induction k arbitrary: i)
  case (Suc k)
  have "\<not> uses_heap_cell (execs t ! i)" using spec [OF Suc.prems(2), of 0] by simp
  moreover have "\<forall>j<k. \<not> uses_heap_cell (execs t ! (Suc i + j))" using Suc.prems(2) by auto
  ultimately show ?case using Suc free_exec_slot_immediate [of i t] by simp
qed simp

lemma unwind_slot_quiet: "i < length (execs t) \<Longrightarrow> quiet (execs t ! i) \<Longrightarrow> unwind_slot svc i t = (Value (), t)"
proof -
  assume i: "i < length (execs t)" "quiet (execs t ! i)"
  show ?thesis
  proof (cases "is_operator (execs t ! i)")
    case True
    then show ?thesis using i(2) quiet_flags [OF i(2) True] by (simp add: unwind_slot_def operator_is_def quiet_def)
  next
    case False
    then show ?thesis using i free_exec_slot_immediate by (simp add: unwind_slot_def quiet_def)
  qed
qed

lemma unwind_slots_quiet:
  "i + k \<le> length (execs t) \<Longrightarrow> \<forall>j<k. quiet (execs t ! (i + j)) \<Longrightarrow> unwind_slots svc i k t = (Value (), t)"
proof (induction k arbitrary: i)
  case (Suc k)
  have "quiet (execs t ! i)" using spec [OF Suc.prems(2), of 0] by simp
  moreover have "\<forall>j<k. quiet (execs t ! (Suc i + j))" using Suc.prems(2) by auto
  ultimately show ?case using Suc unwind_slot_quiet [of i t] by simp
qed simp

lemma unwind_exec_to_quiet:
  assumes "execs t = skipped @ rest" "\<forall>ob\<in>set skipped. quiet ob"
  shows "unwind_exec_to svc (length skipped) t = (Value (), set_execs rest t)"
  using unwind_slots_quiet [of 0 "length skipped" t svc] assms
  by (simp add: unwind_exec_to_def drop_execs_def nth_append)

section \<open>What the error handler skips\<close>

lemma pop_err_Cons: "errs t = ob # es \<Longrightarrow> pop_err t = (Value ob, set_errs es t)"
  by (simp add: pop_err_def)

lemma errs_simps [simp]:
  "errs (set_errs es t) = es" "execs (set_errs es t) = execs t" "ops (set_errs es t) = ops t" "dicts (set_errs es t) = dicts t"
  "set_errs es (set_errs es' t) = set_errs es t" "set_errs (errs t) t = t" "errs (set_ops xs t) = errs t" "errs (set_execs xs t) = errs t"
  "m_curr_alloc_global (set_errs es t) = m_curr_alloc_global t" "m_last_error_name (set_errs es t) = m_last_error_name t"
  "errs (t\<lparr>m_curr_alloc_global := b\<rparr>) = errs t" "execs (t\<lparr>m_curr_alloc_global := b\<rparr>) = execs t"
  "ops (t\<lparr>m_curr_alloc_global := b\<rparr>) = ops t"
  "set_errs es (t\<lparr>m_curr_alloc_global := b\<rparr>) = (set_errs es t)\<lparr>m_curr_alloc_global := b\<rparr>"
  "m_op (set_errs es t) = m_op t" "m_op (set_execs es t) = m_op t"
  by (simp_all add: errs_def execs_def ops_def dicts_def set_errs_def set_ops_def set_execs_def)

text \<open>
  A scope of \<open>in-global\<close> or \<open>in-local\<close> saved the allocation flag on the error stack: the handler drops the
  entry and restores the flag.
\<close>

definition end_in_global :: object where "end_in_global = make_control_operator atEndInGlobal"

lemma handler_scan_scope:
  assumes "execs t ! i = end_in_global" "errs t = make_boolean b # es"
  shows "handler_scan svc i (Suc k) fe rc t =
    handler_scan svc (Suc i) k fe rc ((set_errs es t)\<lparr>m_curr_alloc_global := b\<rparr>)"
proof -
  note f = make_control_operator_fields [OF control_op_values(1)]
  have "op_descriptor_at (m_immediate end_in_global) = op_descriptor_for atEndInGlobal"
    unfolding end_in_global_def f(4) op_descriptor_at_def by simp
  moreover have "is_operator end_in_global" unfolding end_in_global_def by (rule f(3))
  moreover have "operator_is_barrier end_in_global" "operator_is atEndInGlobal end_in_global"
    unfolding end_in_global_def operator_is_barrier_def operator_is_def f by (simp_all add: BarrierOp_def)
  moreover have "boolean_value (make_boolean b) = b" by (simp add: boolean_value_def make_boolean_def make_object_def)
  ultimately show ?thesis using assms op_descriptor_values(1) by (simp add: pop_err_Cons)
qed

end
