(* ===== verification/Scopes.thy ===== *)
theory Scopes
  imports Unwind
begin

text \<open>
  What the code that runs between a frame of the execution stack and its top leaves there: slots that an
  unwinder passes over, numbers with a cell of their own, and open scopes with what each keeps on the
  error and dictionary stacks. The lemmas show what \<^verbatim>\<open>unwind_exec_to\<close> and \<^verbatim>\<open>try_catch_handler\<close> do on
  their way down such a stack. Frames of \<open>run\<close> and of \<open>with-stream\<close>, which close a stream, are left out.
\<close>

section \<open>Open scopes\<close>

datatype scope =
  Slot object
| Number object
| Companions sysname "object list"
| AllocScope bool
| Locals sysname object

fun scope_slot :: "scope \<Rightarrow> object" where
  "scope_slot (Slot ob) = ob"
| "scope_slot (Number ob) = ob"
| "scope_slot (Companions s cs) = make_control_operator s"
| "scope_slot (AllocScope b) = end_in_global"
| "scope_slot (Locals s d) = make_control_operator s"

fun scope_errs :: "scope \<Rightarrow> object list" where
  "scope_errs (Companions s cs) = cs"
| "scope_errs (AllocScope b) = [make_boolean b]"
| "scope_errs _ = []"

fun scope_dicts :: "scope \<Rightarrow> object list" where
  "scope_dicts (Locals s d) = [d]"
| "scope_dicts _ = []"

fun scope_numbers :: "scope \<Rightarrow> object list" where
  "scope_numbers (Number ob) = [ob]"
| "scope_numbers _ = []"

text \<open>The allocation flag that the outermost allocation scope found, or the given one if there is none.\<close>

fun outer_flag :: "scope list \<Rightarrow> bool \<Rightarrow> bool" where
  "outer_flag [] g = g"
| "outer_flag (AllocScope b # scs) g = outer_flag scs b"
| "outer_flag (_ # scs) g = outer_flag scs g"

text \<open>The scopes that \<open>exit\<close> leaves, and those an error passes on its way to a \<open>try\<close>.\<close>

definition named_by_unwind :: "object \<Rightarrow> bool" where
  "named_by_unwind ob \<longleftrightarrow> m_immediate ob \<in> {int atTryCatchBarrier, int atFinallyBarrier, int atDelimitBarrier,
     int atEffectBarrier, int atEndInGlobal, int atHandlerScope, int atWithStream}"

fun exit_leaves :: "scope \<Rightarrow> bool" where
  "exit_leaves (Slot ob) \<longleftrightarrow>
     (if is_operator ob
      then \<not> operator_is_invalid_exit ob \<and> \<not> operator_is_control ob \<and> \<not> operator_is_dictpop ob \<and> \<not> named_by_unwind ob
      else \<not> uses_heap_cell ob)"
| "exit_leaves (Number ob) \<longleftrightarrow> uses_heap_cell ob"
| "exit_leaves (Companions s cs) \<longleftrightarrow>
     s \<in> {atTryCatchBarrier, atFinallyBarrier, atDelimitBarrier, atEffectBarrier} \<and> length cs = 1 \<or>
     s = atHandlerScope \<and> length cs = 2"
| "exit_leaves (AllocScope b) \<longleftrightarrow> True"
| "exit_leaves (Locals s d) \<longleftrightarrow> s \<in> {atEndLocals, atEndModule, atClosureEnd}"

fun error_passes :: "scope \<Rightarrow> bool" where
  "error_passes (Slot ob) \<longleftrightarrow>
     (if is_operator ob then \<not> operator_is_barrier ob \<and> \<not> operator_is_dictpop ob \<and> \<not> operator_is_run ob
      else \<not> uses_heap_cell ob)"
| "error_passes (Number ob) \<longleftrightarrow> uses_heap_cell ob"
| "error_passes (Companions s cs) \<longleftrightarrow>
     s \<in> {atDelimitBarrier, atEffectBarrier} \<and> length cs = 1 \<or> s = atHandlerScope \<and> length cs = 2"
| "error_passes (AllocScope b) \<longleftrightarrow> True"
| "error_passes (Locals s d) \<longleftrightarrow> s \<in> {atEndLocals, atEndModule, atClosureEnd}"

lemma heap_cell_not_operator: "uses_heap_cell ob \<Longrightarrow> \<not> is_operator ob"
  by (auto simp: is_operator_def uses_heap_cell_def uses_extvalue_iff uses_widevalue_def)

lemma scope_control_values:
  "control_op_data atTryCatchBarrier = Some (BarrierOp OR ErrorPushOp, 0)" "control_op_data atFinallyBarrier = Some (BarrierOp, 0)"
  "control_op_data atDelimitBarrier = Some (BarrierOp, 0)" "control_op_data atEffectBarrier = Some (BarrierOp, 0)"
  "control_op_data atHandlerScope = Some (BarrierOp, 0)" "control_op_data atEndLocals = Some (DictPopOp, 0)"
  "control_op_data atEndModule = Some (DictPopOp, 0)" "control_op_data atClosureEnd = Some (DictPopOp, 0)"
  by (simp_all add: control_op_data_def control_row_defs op_flag_defs)

lemmas scope_operator_fields = scope_control_values [THEN make_control_operator_fields(1)]
  scope_control_values [THEN make_control_operator_fields(3)] scope_control_values [THEN make_control_operator_fields(4)]

lemma end_in_global_fields:
  "operator_flags end_in_global = BarrierOp" "is_operator end_in_global" "m_immediate end_in_global = int atEndInGlobal"
  using make_control_operator_fields [OF control_op_values(1)] by (simp_all add: end_in_global_def)

lemma scope_slot_cell:
  "exit_leaves sc \<or> error_passes sc \<Longrightarrow> uses_heap_cell (scope_slot sc) \<longleftrightarrow> scope_numbers sc = [scope_slot sc]"
  "exit_leaves sc \<or> error_passes sc \<Longrightarrow> \<not> uses_heap_cell (scope_slot sc) \<longleftrightarrow> scope_numbers sc = []"
  using scope_control_values [THEN make_control_operator_fields(5)] make_control_operator_fields(5) [OF control_op_values(1)]
    heap_cell_not_operator by (cases sc; auto simp: end_in_global_def split: if_splits)+

lemma filter_cells:
  "\<forall>sc\<in>set scopes. exit_leaves sc \<or> error_passes sc \<Longrightarrow>
     filter uses_heap_cell (map scope_slot scopes) = concat (map scope_numbers scopes)"
  using scope_slot_cell by (induction scopes) auto

section \<open>Releasing numbers\<close>

text \<open>
  The numbers have valid local cells, each its own, of a level that has not been rolled back.
\<close>

abbreviation valid_in :: "trix \<Rightarrow> bool \<Rightarrow> nat \<Rightarrow> bool" where
  "valid_in t wide off \<equiv> cell_valid (class_of wide) (pool_of wide t) t off"

definition cell_of :: "object \<Rightarrow> bool \<times> nat" where
  "cell_of ob = (uses_widevalue ob, m_offset ob)"

definition numbers_ok :: "trix \<Rightarrow> object list \<Rightarrow> bool" where
  "numbers_ok t obs \<longleftrightarrow> distinct (map cell_of obs) \<and>
     (\<forall>ob\<in>set obs. uses_heap_cell ob \<and> \<not> is_global t (m_offset ob) \<and> m_extvalue_save_level ob \<le> m_curr_save_level t \<and>
        valid_in t (uses_widevalue ob) (m_offset ob))"

text \<open>What an unwinder keeps, releasing the cells \<open>R\<close>.\<close>

definition keeps_but :: "(bool \<times> nat) set \<Rightarrow> trix \<Rightarrow> trix \<Rightarrow> bool" where
  "keeps_but R t t1 \<longleftrightarrow> m_vm_global t1 = m_vm_global t \<and> m_vm_limit t1 = m_vm_limit t \<and>
     m_curr_save_level t1 = m_curr_save_level t \<and> m_last_error_name t1 = m_last_error_name t \<and>
     (\<forall>wide off. valid_in t1 wide off \<longleftrightarrow> (wide, off) \<notin> R \<and> valid_in t wide off)"

lemma keeps_but_refl [simp]: "keeps_but {} t t"
  by (simp add: keeps_but_def)

lemma keeps_but_trans: "keeps_but R t t1 \<Longrightarrow> keeps_but S t1 t2 \<Longrightarrow> keeps_but (R \<union> S) t t2"
  by (auto simp: keeps_but_def)

lemma valid_in_frame:
  assumes "m_vm_limit t1 = m_vm_limit t" "m_ext t1 = m_ext t" "m_wide t1 = m_wide t"
  shows "valid_in t1 wide off = valid_in t wide off"
  using assms by (simp add: pool_of_def cell_valid_def valid_offset_def)

lemma valid_in_set [simp]:
  "valid_in (set_execs xs t) wide off = valid_in t wide off" "valid_in (set_errs xs t) wide off = valid_in t wide off"
  "valid_in (set_dicts xs t) wide off = valid_in t wide off" "valid_in (set_ops xs t) wide off = valid_in t wide off"
  "valid_in (t\<lparr>m_curr_alloc_global := b\<rparr>) wide off = valid_in t wide off"
  "valid_in (t\<lparr>m_planted_error_objects := n\<rparr>) wide off = valid_in t wide off"
  by (rule valid_in_frame; simp add: set_execs_def set_errs_def set_dicts_def set_ops_def)+

lemma keeps_but_set [simp]:
  "keeps_but R t (set_execs xs t1) = keeps_but R t t1" "keeps_but R t (set_errs xs t1) = keeps_but R t t1"
  "keeps_but R t (set_dicts xs t1) = keeps_but R t t1" "keeps_but R t (set_ops xs t1) = keeps_but R t t1"
  "keeps_but R t (t1\<lparr>m_curr_alloc_global := b\<rparr>) = keeps_but R t t1" "keeps_but R t (t1\<lparr>m_planted_error_objects := n\<rparr>) = keeps_but R t t1"
  unfolding keeps_but_def valid_in_set by (simp_all add: set_execs_def set_errs_def set_dicts_def set_ops_def)

lemma numbers_ok_kept:
  assumes "keeps_but R t t1" "numbers_ok t obs" "\<forall>ob\<in>set obs. cell_of ob \<notin> R"
  shows "numbers_ok t1 obs"
  using assms by (auto simp: numbers_ok_def keeps_but_def is_global_def cell_of_def)

lemma numbers_ok_append: "numbers_ok t (xs @ ys) \<longleftrightarrow>
    numbers_ok t xs \<and> numbers_ok t ys \<and> cell_of ` set xs \<inter> cell_of ` set ys = {}"
  by (auto simp: numbers_ok_def)

lemma numbers_ok_rest:
  assumes "keeps_but (cell_of ` set xs) t t1" "numbers_ok t (xs @ ys)"
  shows "numbers_ok t1 ys"
  using numbers_ok_kept [OF assms(1), of ys] assms(2) by (auto simp: numbers_ok_append)

text \<open>The stacks and the allocation flag other than a stack that is being changed.\<close>

definition stacks_kept :: "trix \<Rightarrow> trix \<Rightarrow> bool" where
  "stacks_kept t t1 \<longleftrightarrow> m_op t1 = m_op t \<and> m_exec t1 = m_exec t \<and> m_err t1 = m_err t \<and> m_dict t1 = m_dict t \<and>
     m_curr_alloc_global t1 = m_curr_alloc_global t"

lemma stacks_keptD:
  assumes "stacks_kept t t1"
  shows "ops t1 = ops t" "execs t1 = execs t" "errs t1 = errs t" "dicts t1 = dicts t" "m_op t1 = m_op t"
    "m_curr_alloc_global t1 = m_curr_alloc_global t"
  using assms by (simp_all add: stacks_kept_def ops_def execs_def errs_def dicts_def)

lemma free_number:
  assumes "numbers_ok t [ob]"
  shows "\<exists>t1. maybe_free_extvalue ob t = (Value (ob\<lparr>m_offset := nulloffset\<rparr>), t1) \<and> keeps_but {cell_of ob} t t1 \<and> stacks_kept t t1"
proof -
  let ?w = "uses_widevalue ob" and ?off = "m_offset ob"
  have ob: "uses_heap_cell ob" "\<not> is_global t ?off" "\<not> m_curr_save_level t < m_extvalue_save_level ob" "valid_in t ?w ?off"
    using assms by (auto simp: numbers_ok_def)
  let ?p = "(pool_of ?w t)\<lparr>p_mem := (p_mem (pool_of ?w t))(?off := word_of_nat (p_free (pool_of ?w t) (m_extvalue_save_level ob)) #
      dead_mark (class_of ?w) ?off), p_free := (p_free (pool_of ?w t))(m_extvalue_save_level ob := ?off), p_active := p_active (pool_of ?w t) - 1\<rparr>"
  have "maybe_free_extvalue ob t = (Value (ob\<lparr>m_offset := nulloffset\<rparr>), set_pool ?w ?p t)"
    using ob by (simp add: maybe_free_extvalue_def heap_free_def seq_def cell_free_local_def)
  moreover have "keeps_but {cell_of ob} t (set_pool ?w ?p t)"
    by (auto simp: keeps_but_def cell_of_def set_pool_def pool_of_def class_of_def cell_valid_def cell_dead_def valid_offset_def)
  moreover have "stacks_kept t (set_pool ?w ?p t)" by (simp add: stacks_kept_def set_pool_def)
  ultimately show ?thesis by blast
qed

lemma free_exec_number:
  assumes "numbers_ok t [execs t ! i]"
  shows "\<exists>t1. free_exec_slot i t = (Value (), t1) \<and> keeps_but {cell_of (execs t ! i)} t t1 \<and> (\<exists>x. execs t1 = (execs t)[i := x]) \<and>
    m_op t1 = m_op t \<and> errs t1 = errs t \<and> dicts t1 = dicts t \<and> m_curr_alloc_global t1 = m_curr_alloc_global t"
proof -
  obtain t1 where t1: "maybe_free_extvalue (execs t ! i) t = (Value ((execs t ! i)\<lparr>m_offset := nulloffset\<rparr>), t1)"
      "keeps_but {cell_of (execs t ! i)} t t1" "stacks_kept t t1"
    using free_number [OF assms] by blast
  let ?t = "set_execs ((execs t1)[i := (execs t ! i)\<lparr>m_offset := nulloffset\<rparr>]) t1"
  have "free_exec_slot i t = (Value (), ?t)" using t1(1) by (simp add: free_exec_slot_def)
  moreover have "keeps_but {cell_of (execs t ! i)} t ?t"
    using t1(2) by simp
  ultimately show ?thesis using stacks_keptD [OF t1(3)]
    by (intro exI [of _ ?t]) (auto simp: set_execs_def execs_def errs_def dicts_def)
qed

lemma free_exec_range:
  assumes "execs t = pre @ slots @ rest" "numbers_ok t (filter uses_heap_cell slots)"
  shows "\<exists>t1 xs. free_exec_slots (length pre) (length slots) t = (Value (), t1) \<and> execs t1 = pre @ xs @ rest \<and> length xs = length slots \<and>
    keeps_but (cell_of ` set (filter uses_heap_cell slots)) t t1 \<and>
    m_op t1 = m_op t \<and> errs t1 = errs t \<and> dicts t1 = dicts t \<and> m_curr_alloc_global t1 = m_curr_alloc_global t"
  using assms
proof (induction slots arbitrary: pre t)
  case Nil
  then show ?case by (intro exI [of _ t] exI [of _ "[]"]) simp
next
  case (Cons ob slots)
  have at: "execs t ! length pre = ob" "length pre < length (execs t)" using Cons.prems(1) by simp_all
  have "\<exists>t1 x. free_exec_slot (length pre) t = (Value (), t1) \<and> execs t1 = (pre @ [x]) @ slots @ rest \<and>
      keeps_but (cell_of ` set (filter uses_heap_cell [ob])) t t1 \<and> m_op t1 = m_op t \<and> errs t1 = errs t \<and> dicts t1 = dicts t \<and>
      m_curr_alloc_global t1 = m_curr_alloc_global t"
  proof (cases "uses_heap_cell ob")
    case True
    then have "numbers_ok t [execs t ! length pre]" using Cons.prems(2) at(1) by (simp add: numbers_ok_def)
    from free_exec_number [OF this] show ?thesis using Cons.prems(1) at(1) True by (auto simp: list_update_append)
  next
    case False
    then show ?thesis using free_exec_slot_immediate [OF at(2)] at(1) Cons.prems(1) by auto
  qed
  then obtain t1 x where t1: "free_exec_slot (length pre) t = (Value (), t1)" "execs t1 = (pre @ [x]) @ slots @ rest"
      "keeps_but (cell_of ` set (filter uses_heap_cell [ob])) t t1" "m_op t1 = m_op t" "errs t1 = errs t" "dicts t1 = dicts t"
      "m_curr_alloc_global t1 = m_curr_alloc_global t" by blast
  have "numbers_ok t (filter uses_heap_cell [ob] @ filter uses_heap_cell slots)"
    using Cons.prems(2) by (cases "uses_heap_cell ob") simp_all
  then have "numbers_ok t1 (filter uses_heap_cell slots)" by (rule numbers_ok_rest [OF t1(3)])
  from Cons.IH [OF t1(2) this] obtain t2 xs where t2: "free_exec_slots (length (pre @ [x])) (length slots) t1 = (Value (), t2)"
      "execs t2 = (pre @ [x]) @ xs @ rest" "length xs = length slots" "keeps_but (cell_of ` set (filter uses_heap_cell slots)) t1 t2"
      "m_op t2 = m_op t1" "errs t2 = errs t1" "dicts t2 = dicts t1" "m_curr_alloc_global t2 = m_curr_alloc_global t1" by blast
  have "keeps_but (cell_of ` set (filter uses_heap_cell [ob]) \<union> cell_of ` set (filter uses_heap_cell slots)) t t2"
    by (rule keeps_but_trans [OF t1(3) t2(4)])
  then have "keeps_but (cell_of ` set (filter uses_heap_cell (ob # slots))) t t2" by (cases "uses_heap_cell ob") simp_all
  then show ?case using t1 t2 by (intro exI [of _ t2] exI [of _ "x # xs"]) simp
qed

section \<open>Services\<close>

text \<open>
  Clearing the cached bindings of a dictionary and recycling it return and leave the stacks, the
  allocation flag and the cells of numbers alone.
\<close>

definition services_keep :: "services \<Rightarrow> bool" where
  "services_keep svc \<longleftrightarrow>
     (\<forall>off t. \<exists>t1. svc_clear_name_bindings svc off t = (Value (), t1) \<and> keeps_but {} t t1 \<and> stacks_kept t t1) \<and>
     (\<forall>off t. \<exists>t1. svc_recycle svc off t = (Value (), t1) \<and> keeps_but {} t t1 \<and> stacks_kept t t1)"

definition frame_in :: "trix \<Rightarrow> object \<Rightarrow> bool" where
  "frame_in t d \<longleftrightarrow> m_offset d \<noteq> nulloffset \<and> m_offset d < m_vm_limit t"

lemma pop_locals:
  assumes svc: "services_keep svc" and ds: "dicts t = d # ds" "PermanentDictCount \<le> length ds" "frame_in t d"
  shows "\<exists>t1. pop_and_recycle svc ob t = (Value (), t1) \<and> keeps_but {} t t1 \<and> dicts t1 = ds \<and> execs t1 = execs t \<and> m_op t1 = m_op t \<and>
    errs t1 = errs t \<and> m_curr_alloc_global t1 = m_curr_alloc_global t"
proof -
  let ?off = "m_offset d" and ?t = "set_dicts ds t"
  obtain t1 where t1: "svc_clear_name_bindings svc ?off ?t = (Value (), t1)" "keeps_but {} ?t t1" "stacks_kept ?t t1"
    using svc unfolding services_keep_def by blast
  obtain t2 where t2: "svc_recycle svc ?off t1 = (Value (), t2)" "keeps_but {} t1 t2" "stacks_kept t1 t2"
    using svc unfolding services_keep_def by blast
  have ptr: "offset_to_ptr t ?off = Value ?off" using ds(3) by (simp add: frame_in_def offset_to_ptr_def)
  have "pop_frame_dict_if_present svc t = (Value (Some ?off), t1)"
    using ds(1,2) ptr t1(1) by (simp add: pop_frame_dict_if_present_def seq_def)
  then have run: "pop_and_recycle svc ob t = (if operator_is atEndLocals ob then (Value (), t2) else (Value (), t1))"
    using t2(1) by (simp add: pop_and_recycle_def)
  have k1: "keeps_but {} t t1" using t1(2) keeps_but_trans [of "{}" t ?t "{}" t1] by simp
  have k2: "keeps_but {} t t2" using keeps_but_trans [OF k1 t2(2)] by simp
  have sd: "m_op ?t = m_op t" "execs ?t = execs t" "errs ?t = errs t" "dicts ?t = ds" "m_curr_alloc_global ?t = m_curr_alloc_global t"
    by (simp_all add: set_dicts_def execs_def errs_def dicts_def)
  show ?thesis using run k1 k2 stacks_keptD [OF t1(3)] stacks_keptD [OF t2(3)] sd by (cases "operator_is atEndLocals ob") auto
qed

section \<open>Unwinding for exit\<close>

lemma boolean_value_make [simp]: "boolean_value (make_boolean b) = b"
  by (simp add: boolean_value_def make_boolean_def make_object_def)

lemma dicts_flag [simp]: "dicts (t\<lparr>m_curr_alloc_global := b\<rparr>) = dicts t" "m_op (t\<lparr>m_curr_alloc_global := b\<rparr>) = m_op t"
  "dicts (set_execs xs t) = dicts t" "dicts (set_ops xs t) = dicts t"
  "m_curr_alloc_global (set_execs xs t) = m_curr_alloc_global t" "m_curr_alloc_global (set_ops xs t) = m_curr_alloc_global t"
  by (simp_all add: dicts_def set_execs_def set_ops_def)

lemma outer_flag_Cons: "outer_flag (sc # scs) g = outer_flag scs (outer_flag [sc] g)"
  by (cases sc) simp_all

lemma unwind_companions:
  assumes "exit_leaves (Companions s cs)" "execs t ! i = make_control_operator s" "errs t = cs @ es"
  shows "unwind_slot svc i t = (Value (), set_errs es t)"
proof -
  consider c where "s \<in> {atTryCatchBarrier, atFinallyBarrier, atDelimitBarrier, atEffectBarrier}" "cs = [c]"
    | a b where "s = atHandlerScope" "cs = [a, b]"
    using assms(1) by (auto simp: length_Suc_conv numeral_2_eq_2 del: insertE)
  then show ?thesis
  proof cases
    case 1
    then have "is_operator (make_control_operator s)" "m_immediate (make_control_operator s) = int s"
      using scope_operator_fields by auto
    then show ?thesis using 1 assms(2,3) by (auto simp: unwind_slot_def operator_is_def)
  next
    case 2
    then show ?thesis using assms(2,3) scope_operator_fields
      by (simp add: unwind_slot_def operator_is_def)
  qed
qed

lemma unwind_alloc_scope:
  assumes "execs t ! i = end_in_global" "errs t = make_boolean b # es"
  shows "unwind_slot svc i t = (Value (), (set_errs es t)\<lparr>m_curr_alloc_global := b\<rparr>)"
  using assms end_in_global_fields by (simp add: unwind_slot_def operator_is_def)

lemma unwind_locals:
  assumes "s \<in> {atEndLocals, atEndModule, atClosureEnd}" "execs t ! i = make_control_operator s"
  shows "unwind_slot svc i t = pop_and_recycle svc (make_control_operator s) t"
proof -
  have "is_operator (make_control_operator s)" "m_immediate (make_control_operator s) = int s"
    "operator_flags (make_control_operator s) = DictPopOp"
    using assms(1) scope_operator_fields by auto
  moreover from this have "operator_is_dictpop (make_control_operator s)" "\<not> operator_is_run (make_control_operator s)"
    by (simp_all add: operator_is_dictpop_def operator_is_run_def op_flag_defs)
  ultimately show ?thesis using assms by (auto simp: unwind_slot_def operator_is_def)
qed

lemma unwind_plain_slot:
  assumes "exit_leaves (Slot (execs t ! i))" "i < length (execs t)"
  shows "unwind_slot svc i t = (Value (), t)"
proof (cases "is_operator (execs t ! i)")
  case True
  then have "\<not> operator_is_run (execs t ! i)"
    using assms(1) and_exp_eq_0_iff_not_bit [of "operator_flags (execs t ! i)" 1]
    by (auto simp: operator_is_invalid_exit_def operator_is_run_def RunOp_def StopOp_def ExitFenceOp_def bit_simps
        dest!: arg_cong [where f = "\<lambda>w. bit w (Suc 0)"])
  then show ?thesis using True assms(1) by (simp add: unwind_slot_def operator_is_def named_by_unwind_def)
next
  case False
  then show ?thesis using assms free_exec_slot_immediate [OF assms(2)] by (simp add: unwind_slot_def)
qed

text \<open>A machine between \<open>pre\<close> and \<open>rest\<close> of whose execution stack lie the scopes, with \<open>es\<close> and \<open>ds\<close> below what they keep.\<close>

definition has_scopes :: "scope list \<Rightarrow> object list \<Rightarrow> object list \<Rightarrow> trix \<Rightarrow> bool" where
  "has_scopes scopes es ds t \<longleftrightarrow> errs t = concat (map scope_errs scopes) @ es \<and> dicts t = concat (map scope_dicts scopes) @ ds \<and>
     PermanentDictCount \<le> length ds \<and> (\<forall>d\<in>set (concat (map scope_dicts scopes)). frame_in t d)"

lemma unwind_scope:
  assumes svc: "services_keep svc" and sc: "exit_leaves sc" "i < length (execs t)" "execs t ! i = scope_slot sc"
    and has: "has_scopes (sc # scs) es ds t" and num: "numbers_ok t (scope_numbers sc)"
  shows "\<exists>t1 x. unwind_slot svc i t = (Value (), t1) \<and> execs t1 = (execs t)[i := x] \<and> keeps_but (cell_of ` set (scope_numbers sc)) t t1 \<and>
    m_op t1 = m_op t \<and> errs t1 = concat (map scope_errs scs) @ es \<and> dicts t1 = concat (map scope_dicts scs) @ ds \<and>
    m_curr_alloc_global t1 = outer_flag [sc] (m_curr_alloc_global t)"
proof (cases sc)
  case (Slot ob)
  then have "unwind_slot svc i t = (Value (), t)" using unwind_plain_slot [of t i svc] sc by simp
  then show ?thesis using Slot has
    by (intro exI [of _ t] exI [of _ "execs t ! i"]) (simp add: has_scopes_def)
next
  case (Number ob)
  then have "unwind_slot svc i t = free_exec_slot i t"
    using sc heap_cell_not_operator by (simp add: unwind_slot_def)
  then show ?thesis using free_exec_number [of t i] num Number sc(3) has by (auto simp: has_scopes_def)
next
  case (Companions s cs)
  then have "unwind_slot svc i t = (Value (), set_errs (concat (map scope_errs scs) @ es) t)"
    using unwind_companions [of s cs t i "concat (map scope_errs scs) @ es" svc] sc has by (simp add: has_scopes_def)
  then show ?thesis using Companions has
    by (intro exI [of _ "set_errs (concat (map scope_errs scs) @ es) t"] exI [of _ "execs t ! i"]) (simp add: has_scopes_def)
next
  case (AllocScope b)
  then have "unwind_slot svc i t = (Value (), (set_errs (concat (map scope_errs scs) @ es) t)\<lparr>m_curr_alloc_global := b\<rparr>)"
    using unwind_alloc_scope [of t i b "concat (map scope_errs scs) @ es" svc] sc has by (simp add: has_scopes_def)
  then show ?thesis using AllocScope has
    by (intro exI [of _ "(set_errs (concat (map scope_errs scs) @ es) t)\<lparr>m_curr_alloc_global := b\<rparr>"] exI [of _ "execs t ! i"])
      (simp add: has_scopes_def)
next
  case (Locals s d)
  then obtain t1 where "unwind_slot svc i t = (Value (), t1)" "keeps_but {} t t1" "dicts t1 = concat (map scope_dicts scs) @ ds"
      "execs t1 = execs t" "m_op t1 = m_op t" "errs t1 = errs t" "m_curr_alloc_global t1 = m_curr_alloc_global t"
    using unwind_locals [of s t i svc] pop_locals [OF svc, of t d "concat (map scope_dicts scs) @ ds" "make_control_operator s"] sc has
    by (auto simp: has_scopes_def)
  then show ?thesis using Locals has by (intro exI [of _ t1] exI [of _ "execs t ! i"]) (simp add: has_scopes_def)
qed

lemma has_scopes_step:
  assumes "has_scopes (sc # scs) es ds t" "keeps_but R t t1"
    "errs t1 = concat (map scope_errs scs) @ es" "dicts t1 = concat (map scope_dicts scs) @ ds"
  shows "has_scopes scs es ds t1"
  using assms by (auto simp: has_scopes_def frame_in_def keeps_but_def)

lemma unwind_scopes:
  assumes "services_keep svc" "\<forall>sc\<in>set scopes. exit_leaves sc" "execs t = pre @ map scope_slot scopes @ rest"
    "has_scopes scopes es ds t" "numbers_ok t (concat (map scope_numbers scopes))"
  shows "\<exists>t1 xs. unwind_slots svc (length pre) (length scopes) t = (Value (), t1) \<and> execs t1 = pre @ xs @ rest \<and> length xs = length scopes \<and>
    keeps_but (cell_of ` set (concat (map scope_numbers scopes))) t t1 \<and> m_op t1 = m_op t \<and> errs t1 = es \<and> dicts t1 = ds \<and>
    m_curr_alloc_global t1 = outer_flag scopes (m_curr_alloc_global t)"
  using assms(2-)
proof (induction scopes arbitrary: pre t)
  case Nil
  then show ?case by (intro exI [of _ t] exI [of _ "[]"]) (simp add: has_scopes_def)
next
  case (Cons sc scs)
  have at: "execs t ! length pre = scope_slot sc" "length pre < length (execs t)" using Cons.prems(2) by simp_all
  have nums: "numbers_ok t (scope_numbers sc @ concat (map scope_numbers scs))" using Cons.prems(4) by simp
  obtain t1 x where t1: "unwind_slot svc (length pre) t = (Value (), t1)" "execs t1 = (execs t)[length pre := x]"
      "keeps_but (cell_of ` set (scope_numbers sc)) t t1" "m_op t1 = m_op t" "errs t1 = concat (map scope_errs scs) @ es"
      "dicts t1 = concat (map scope_dicts scs) @ ds" "m_curr_alloc_global t1 = outer_flag [sc] (m_curr_alloc_global t)"
    using unwind_scope [OF assms(1) _ at(2,1) Cons.prems(3)] Cons.prems(1) nums numbers_ok_append by (metis list.set_intros(1))
  have ex: "execs t1 = (pre @ [x]) @ map scope_slot scs @ rest" using t1(2) Cons.prems(2) by (simp add: list_update_append)
  obtain t2 xs where t2: "unwind_slots svc (length (pre @ [x])) (length scs) t1 = (Value (), t2)" "execs t2 = (pre @ [x]) @ xs @ rest"
      "length xs = length scs" "keeps_but (cell_of ` set (concat (map scope_numbers scs))) t1 t2" "m_op t2 = m_op t1" "errs t2 = es" "dicts t2 = ds"
      "m_curr_alloc_global t2 = outer_flag scs (m_curr_alloc_global t1)"
    using Cons.IH [OF _ ex has_scopes_step [OF Cons.prems(3) t1(3,5,6)] numbers_ok_rest [OF t1(3) nums]] Cons.prems(1) by auto
  have "keeps_but (cell_of ` set (concat (map scope_numbers (sc # scs)))) t t2"
    using keeps_but_trans [OF t1(3) t2(4)] by (simp add: image_Un)
  then show ?case using t1 t2 outer_flag_Cons [of sc scs]
    by (intro exI [of _ t2] exI [of _ "x # xs"]) simp
qed

section \<open>The error handler\<close>

lemma scope_descriptors:
  "od_unwind (op_descriptor_for atDelimitBarrier) = UPopAndContinue" "od_err_companions (op_descriptor_for atDelimitBarrier) = 1"
  "od_unwind (op_descriptor_for atEffectBarrier) = UPopAndContinue" "od_err_companions (op_descriptor_for atEffectBarrier) = 1"
  "od_unwind (op_descriptor_for atHandlerScope) = UPopAndContinue" "od_err_companions (op_descriptor_for atHandlerScope) = 2"
  by (simp_all add: op_descriptor_for_def descriptor_defs inside_labels_def od_row_def)

lemma handler_companions:
  assumes "error_passes (Companions s cs)" "execs t ! i = make_control_operator s" "errs t = cs @ es"
  shows "handler_scan svc i (Suc k) fe rc t = handler_scan svc (Suc i) k fe rc (set_errs es t)"
proof -
  have s: "s \<in> {atDelimitBarrier, atEffectBarrier, atHandlerScope}" using assms(1) by auto
  then have f: "is_operator (make_control_operator s)" "m_immediate (make_control_operator s) = int s"
    "operator_flags (make_control_operator s) = BarrierOp"
    using scope_operator_fields by auto
  have b: "operator_is_barrier (make_control_operator s)" using f(3) by (simp add: operator_is_barrier_def BarrierOp_def)
  have d: "od_unwind (op_descriptor_for s) = UPopAndContinue" "od_err_companions (op_descriptor_for s) = length cs"
    using assms(1) scope_descriptors by auto
  have "\<not> operator_is atEndInGlobal (make_control_operator s)" using s f(2) by (auto simp: operator_is_def)
  then show ?thesis using assms(2,3) f(1,2) b d by (simp add: Let_def op_descriptor_at_def seq_def)
qed

lemma handler_locals:
  assumes "s \<in> {atEndLocals, atEndModule, atClosureEnd}" "execs t ! i = make_control_operator s"
    "pop_and_recycle svc (make_control_operator s) t = (Value (), t1)"
  shows "handler_scan svc i (Suc k) fe rc t = handler_scan svc (Suc i) k fe rc t1"
proof -
  have "is_operator (make_control_operator s)" "operator_flags (make_control_operator s) = DictPopOp"
    using assms(1) scope_operator_fields by auto
  moreover from this have "operator_is_dictpop (make_control_operator s)" "\<not> operator_is_barrier (make_control_operator s)"
    by (simp_all add: operator_is_dictpop_def operator_is_barrier_def op_flag_defs)
  ultimately show ?thesis using assms(2,3) by simp
qed

lemma handler_scope:
  assumes svc: "services_keep svc" and sc: "error_passes sc" "execs t ! i = scope_slot sc" and has: "has_scopes (sc # scs) es ds t"
  shows "\<exists>t1. handler_scan svc i (Suc k) fe rc t = handler_scan svc (Suc i) k (fe \<or> scope_numbers sc \<noteq> []) rc t1 \<and>
    keeps_but {} t t1 \<and> execs t1 = execs t \<and> m_op t1 = m_op t \<and>
    errs t1 = concat (map scope_errs scs) @ es \<and> dicts t1 = concat (map scope_dicts scs) @ ds \<and>
    m_curr_alloc_global t1 = outer_flag [sc] (m_curr_alloc_global t)"
proof (cases sc)
  case (Slot ob)
  then have "handler_scan svc i (Suc k) fe rc t = handler_scan svc (Suc i) k fe rc t"
    using sc by (simp split: if_splits)
  then show ?thesis using Slot has by (intro exI [of _ t]) (simp add: has_scopes_def)
next
  case (Number ob)
  then have "handler_scan svc i (Suc k) fe rc t = handler_scan svc (Suc i) k True rc t"
    using sc heap_cell_not_operator by simp
  then show ?thesis using Number has by (intro exI [of _ t]) (simp add: has_scopes_def)
next
  case (Companions s cs)
  then have "handler_scan svc i (Suc k) fe rc t = handler_scan svc (Suc i) k fe rc (set_errs (concat (map scope_errs scs) @ es) t)"
    using handler_companions [of s cs t i "concat (map scope_errs scs) @ es"] sc has by (simp add: has_scopes_def)
  then show ?thesis using Companions has
    by (intro exI [of _ "set_errs (concat (map scope_errs scs) @ es) t"]) (simp add: has_scopes_def del: handler_scan.simps)
next
  case (AllocScope b)
  let ?t = "(set_errs (concat (map scope_errs scs) @ es) t)\<lparr>m_curr_alloc_global := b\<rparr>"
  have "handler_scan svc i (Suc k) fe rc t = handler_scan svc (Suc i) k fe rc ?t"
    using handler_scan_scope [of t i b "concat (map scope_errs scs) @ es"] AllocScope sc has by (simp add: has_scopes_def)
  then show ?thesis using AllocScope has
    by (intro exI [of _ ?t]) (simp add: has_scopes_def del: handler_scan.simps)
next
  case (Locals s d)
  then obtain t1 where t1: "pop_and_recycle svc (make_control_operator s) t = (Value (), t1)" "keeps_but {} t t1"
      "dicts t1 = concat (map scope_dicts scs) @ ds" "execs t1 = execs t" "m_op t1 = m_op t" "errs t1 = errs t"
      "m_curr_alloc_global t1 = m_curr_alloc_global t"
    using pop_locals [OF svc, of t d "concat (map scope_dicts scs) @ ds" "make_control_operator s"] has by (auto simp: has_scopes_def)
  have "handler_scan svc i (Suc k) fe rc t = handler_scan svc (Suc i) k fe rc t1"
    using handler_locals [of s t i svc t1] t1(1) Locals sc by simp
  then show ?thesis using t1 Locals has by (intro exI [of _ t1]) (simp add: has_scopes_def del: handler_scan.simps)
qed

lemma handler_scopes:
  assumes "services_keep svc" "\<forall>sc\<in>set scopes. error_passes sc" "execs t = pre @ map scope_slot scopes @ rest"
    "has_scopes scopes es ds t"
  shows "\<exists>t1. handler_scan svc (length pre) (length scopes + k) fe rc t =
      handler_scan svc (length pre + length scopes) k (fe \<or> concat (map scope_numbers scopes) \<noteq> []) rc t1 \<and>
    keeps_but {} t t1 \<and> execs t1 = execs t \<and> m_op t1 = m_op t \<and> errs t1 = es \<and> dicts t1 = ds \<and>
    m_curr_alloc_global t1 = outer_flag scopes (m_curr_alloc_global t)"
  using assms(2-)
proof (induction scopes arbitrary: pre t fe)
  case Nil
  then show ?case by (intro exI [of _ t]) (simp add: has_scopes_def del: handler_scan.simps)
next
  case (Cons sc scs)
  have at: "execs t ! length pre = scope_slot sc" using Cons.prems(2) by simp
  have pass: "error_passes sc" "\<forall>sc\<in>set scs. error_passes sc" using Cons.prems(1) by simp_all
  obtain t1 where t1: "handler_scan svc (length pre) (Suc (length scs + k)) fe rc t =
        handler_scan svc (Suc (length pre)) (length scs + k) (fe \<or> scope_numbers sc \<noteq> []) rc t1"
      "keeps_but {} t t1" "execs t1 = execs t" "m_op t1 = m_op t" "errs t1 = concat (map scope_errs scs) @ es"
      "dicts t1 = concat (map scope_dicts scs) @ ds" "m_curr_alloc_global t1 = outer_flag [sc] (m_curr_alloc_global t)"
    using handler_scope [OF assms(1) pass(1) at Cons.prems(3)] by blast
  have ex: "execs t1 = (pre @ [scope_slot sc]) @ map scope_slot scs @ rest" using t1(3) Cons.prems(2) by simp
  obtain t2 where t2: "handler_scan svc (length (pre @ [scope_slot sc])) (length scs + k) (fe \<or> scope_numbers sc \<noteq> []) rc t1 =
        handler_scan svc (length (pre @ [scope_slot sc]) + length scs) k
          ((fe \<or> scope_numbers sc \<noteq> []) \<or> concat (map scope_numbers scs) \<noteq> []) rc t2"
      "keeps_but {} t1 t2" "execs t2 = execs t1" "m_op t2 = m_op t1" "errs t2 = es" "dicts t2 = ds"
      "m_curr_alloc_global t2 = outer_flag scs (m_curr_alloc_global t1)"
    using Cons.IH [OF pass(2) ex has_scopes_step [OF Cons.prems(3) t1(2,5,6)]] by blast
  have "keeps_but {} t t2" using keeps_but_trans [OF t1(2) t2(2)] by simp
  then show ?case using t1 t2 outer_flag_Cons [of sc scs]
    by (intro exI [of _ t2]) (auto simp del: handler_scan.simps)
qed

lemma handler_catch_try:
  assumes ex: "execs t = slots @ make_control_operator atTryBarrier # rest" and cap: "has_op_capacity 1 t"
    and num: "numbers_ok t (filter uses_heap_cell slots)" "filter uses_heap_cell slots \<noteq> [] \<Longrightarrow> fe"
  shows "\<exists>t1. handler_scan svc (length slots) (Suc k) fe 0 t = (Value True, t1) \<and> execs t1 = rest \<and> ops t1 = m_last_error_name t # ops t \<and>
    keeps_but (cell_of ` set (filter uses_heap_cell slots)) t t1 \<and> errs t1 = errs t \<and> dicts t1 = dicts t \<and>
    m_curr_alloc_global t1 = m_curr_alloc_global t"
proof -
  let ?ob = "make_control_operator atTryBarrier" and ?i = "length slots"
  let ?u = "(set_ops (m_last_error_name t # ops t) t)\<lparr>m_planted_error_objects := 1\<rparr>"
  note f = make_control_operator_fields [OF control_op_values(2)]
  have d: "op_descriptor_at (m_immediate ?ob) = op_descriptor_for atTryBarrier" unfolding f(4) op_descriptor_at_def by simp
  have b: "operator_is_barrier ?ob" "operator_is_errorpush ?ob"
    unfolding operator_is_barrier_def operator_is_errorpush_def f(1) by (simp_all add: op_flag_defs)
  have runs: "close_runs svc 0 ?i 0 = ret ()" by (cases ?i) simp_all
  have u: "execs ?u = slots @ ?ob # rest" "ops ?u = m_last_error_name t # ops t" "errs ?u = errs t" "dicts ?u = dicts t"
      "m_curr_alloc_global ?u = m_curr_alloc_global t" "keeps_but {} t ?u"
    using ex by (simp_all add: execs_def errs_def dicts_def ops_def) (simp_all add: set_ops_def)
  have numu: "numbers_ok ?u (filter uses_heap_cell slots)" by (rule numbers_ok_kept [OF u(6) num(1)]) simp
  have "\<exists>t1 xs. (if fe then free_exec_slots 0 (Suc ?i) else ret ()) ?u = (Value (), t1) \<and> execs t1 = xs @ rest \<and> length xs = Suc ?i \<and>
      keeps_but (cell_of ` set (filter uses_heap_cell slots)) ?u t1 \<and> m_op t1 = m_op ?u \<and> errs t1 = errs ?u \<and> dicts t1 = dicts ?u \<and>
      m_curr_alloc_global t1 = m_curr_alloc_global ?u"
  proof (cases fe)
    case True
    have "filter uses_heap_cell (slots @ [?ob]) = filter uses_heap_cell slots" using f(5) by simp
    then show ?thesis using free_exec_range [of ?u "[]" "slots @ [?ob]" rest] u(1) numu True by simp
  next
    case False
    then have "filter uses_heap_cell slots = []" using num(2) by blast
    then show ?thesis using False u(1) keeps_but_refl [of ?u] by (intro exI [of _ ?u] exI [of _ "slots @ [?ob]"]) simp
  qed
  then obtain t1 xs where t1: "(if fe then free_exec_slots 0 (Suc ?i) else ret ()) ?u = (Value (), t1)" "execs t1 = xs @ rest" "length xs = Suc ?i"
      "keeps_but (cell_of ` set (filter uses_heap_cell slots)) ?u t1" "m_op t1 = m_op ?u" "errs t1 = errs ?u" "dicts t1 = dicts ?u"
      "m_curr_alloc_global t1 = m_curr_alloc_global ?u" by blast
  have "handler_scan svc ?i (Suc k) fe 0 t = handler_catch svc ?i ?ob (op_descriptor_for atTryBarrier) fe 0 t"
    using ex d f(3) b(1) op_descriptor_values(2) by (simp add: Let_def nth_append)
  also have "\<dots> = (Value True, set_execs (drop (Suc ?i) (execs t1)) t1)"
    unfolding handler_catch_def using cap b(2) op_descriptor_values(2) runs t1(1) by (simp add: drop_execs_def seq_def)
  finally have "handler_scan svc ?i (Suc k) fe 0 t = (Value True, set_execs rest t1)" using t1(2,3) by simp
  moreover have "keeps_but (cell_of ` set (filter uses_heap_cell slots)) t (set_execs rest t1)"
    using keeps_but_trans [OF u(6) t1(4)] by simp
  moreover have "ops t1 = m_last_error_name t # ops t" using t1(5) u(2) by (simp add: ops_def)
  ultimately show ?thesis using t1 u
    by (intro exI [of _ "set_execs rest t1"]) (simp add: ops_def errs_def dicts_def set_execs_def execs_def)
qed

section \<open>An example\<close>

text \<open>A number, an allocation scope and local variables, open on a small machine; and services that do nothing.\<close>

definition open_scopes :: "scope list" where
  "open_scopes = [Number long_at_8, AllocScope False, Locals atEndLocals ((make_object TDict 0)\<lparr>m_offset := 64\<rparr>)]"

definition body_machine :: "object list \<Rightarrow> object list \<Rightarrow> object list \<Rightarrow> trix" where
  "body_machine xs es ds = (set_execs (map scope_slot open_scopes @ xs) (set_errs (concat (map scope_errs open_scopes) @ es)
     (set_dicts (concat (map scope_dicts open_scopes) @ ds) (small_machine 5))))\<lparr>m_curr_alloc_global := True\<rparr>"

definition idle_services :: services where
  "idle_services = \<lparr>svc_gc = Value, svc_close = (\<lambda>_. ret ()), svc_clear_name_bindings = (\<lambda>_. ret ()), svc_recycle = (\<lambda>_. ret ())\<rparr>"

lemma idle_services_keep: "services_keep idle_services"
  by (simp add: services_keep_def idle_services_def stacks_kept_def)

lemma open_scopes_pass: "\<forall>sc\<in>set open_scopes. exit_leaves sc" "\<forall>sc\<in>set open_scopes. error_passes sc"
  by (simp_all add: open_scopes_def)

lemma body_machine_fields [simp]:
  "execs (body_machine xs es ds) = map scope_slot open_scopes @ xs" "ops (body_machine xs es ds) = []"
  "m_vm_limit (body_machine xs es ds) = 1024" "m_vm_global (body_machine xs es ds) = m_vm_global (small_machine 5)"
  "m_curr_save_level (body_machine xs es ds) = m_curr_save_level (small_machine 5)" "m_curr_alloc_global (body_machine xs es ds)"
  by (simp_all add: body_machine_def set_execs_def set_errs_def set_dicts_def execs_def ops_def small_machine_def empty_stack_def)

lemma valid_in_body: "valid_in (body_machine xs es ds) False 8"
proof -
  have "valid_in (body_machine xs es ds) False 8 = valid_in (small_machine 5) False 8" by (simp add: body_machine_def)
  also have "\<dots>" using long_at_8_valid [of "ops (small_machine 5)" 5] by (simp add: heap_cell_valid_def set_ops_def ops_def)
  finally show ?thesis .
qed

lemma body_machine_ok:
  assumes "PermanentDictCount \<le> length ds"
  shows "has_scopes open_scopes es ds (body_machine xs es ds)" "numbers_ok (body_machine xs es ds) [long_at_8]"
proof -
  have e: "errs (body_machine xs es ds) = concat (map scope_errs open_scopes) @ es" "dicts (body_machine xs es ds) = concat (map scope_dicts open_scopes) @ ds"
    by (simp_all add: body_machine_def errs_def dicts_def set_execs_def set_errs_def set_dicts_def)
  then show "has_scopes open_scopes es ds (body_machine xs es ds)"
    using assms by (simp add: has_scopes_def open_scopes_def frame_in_def nulloffset_def)
  show "numbers_ok (body_machine xs es ds) [long_at_8]"
    using valid_in_body [of xs es ds] by (simp add: numbers_ok_def is_global_def small_machine_def)
qed

end
