(* ===== verification/Ops_Flow.thy ===== *)
theory Ops_Flow
  imports Scopes
begin

text \<open>
  Control-flow operators (\<^verbatim>\<open>src/ops_flow.inl\<close>): conditionals, loops, \<open>exit\<close> and \<open>stop\<close>, the error barriers and
  the allocation scopes. An operator that is run by the interpreter has already been taken
  off the execution stack, so the control operators (\<^verbatim>\<open>at_...\<close>) find their frame on top.
\<close>

section \<open>Conditionals\<close>

definition if_op :: "(trix, unit) action" where
  "if_op =
     seq (verify_operands [VerifyProc, TypeToVerify TBoolean]) (\<lambda>_.
     seq (gets ops) (\<lambda>os.
     seq (if boolean_value (os ! 1) then seq (require_exec_capacity 1) (\<lambda>_. push_exec (hd os)) else ret ()) (\<lambda>_.
     drop_ops 2)))"

definition short_and_op :: "(trix, unit) action" where
  "short_and_op =
     seq (verify_operands [VerifyProc, TypeToVerify TBoolean]) (\<lambda>_.
     seq (gets ops) (\<lambda>os.
       if boolean_value (os ! 1)
       then seq (require_exec_capacity 1) (\<lambda>_. seq (push_exec (hd os)) (\<lambda>_. drop_ops 2))
       else drop_ops 1))"

definition short_or_op :: "(trix, unit) action" where
  "short_or_op =
     seq (verify_operands [VerifyProc, TypeToVerify TBoolean]) (\<lambda>_.
     seq (gets ops) (\<lambda>os.
       if \<not> boolean_value (os ! 1)
       then seq (require_exec_capacity 1) (\<lambda>_. seq (push_exec (hd os)) (\<lambda>_. drop_ops 2))
       else drop_ops 1))"

definition ifelse_op :: "(trix, unit) action" where
  "ifelse_op =
     seq (verify_operands [VerifyProc, VerifyProc, TypeToVerify TBoolean]) (\<lambda>_.
     seq (require_exec_capacity 1) (\<lambda>_.
     seq (gets ops) (\<lambda>os.
     seq (push_exec (if boolean_value (os ! 2) then os ! 1 else os ! 0)) (\<lambda>_. drop_ops 3))))"

definition select_op :: "(trix, unit) action" where
  "select_op =
     seq (verify_operands [TypeToVerify TBoolean, VerifyAny, VerifyAny]) (\<lambda>_.
     seq (gets ops) (\<lambda>os.
     seq (if boolean_value (hd os) then free_slot 1
          else seq (free_slot 2) (\<lambda>_. modify (\<lambda>t. set_ops ((ops t)[2 := ops t ! 1]) t))) (\<lambda>_.
     drop_ops 2)))"

section \<open>Loops\<close>


definition at_dowhile_op :: "(trix, unit) action" where
  "at_dowhile_op =
     seq (verify_operands [TypeToVerify TBoolean]) (\<lambda>_.
     seq (gets (\<lambda>t. boolean_value (hd (ops t)))) (\<lambda>again.
     seq (drop_ops 1) (\<lambda>_.
       if again
       then seq (require_exec_capacity 2) (\<lambda>_.
            seq (gets (\<lambda>t. hd (execs t))) (\<lambda>body.
            seq (push_exec (make_control_operator atDoWhile)) (\<lambda>_. push_exec body)))
       else drop_execs 1)))"


definition at_loop_op :: "(trix, unit) action" where
  "at_loop_op =
     seq (require_exec_capacity 2) (\<lambda>_.
     seq (gets (\<lambda>t. hd (execs t))) (\<lambda>proc.
     seq (push_exec (make_control_operator atLoop)) (\<lambda>_. push_exec proc)))"


definition at_while_op :: "(trix, unit) action" where
  "at_while_op =
     seq (verify_operands [TypeToVerify TBoolean]) (\<lambda>_.
     seq (gets (\<lambda>t. boolean_value (hd (ops t)))) (\<lambda>again.
     seq (drop_ops 1) (\<lambda>_.
       if again
       then seq (require_exec_capacity 3) (\<lambda>_.
            seq (gets execs) (\<lambda>es.
            seq (push_exec (make_control_operator atWhile)) (\<lambda>_.
            seq (push_exec (es ! 0)) (\<lambda>_. push_exec (es ! 1)))))
       else drop_execs 2)))"

definition at_uinteger_repeat_op :: "(trix, unit) action" where
  "at_uinteger_repeat_op =
     seq (gets execs) (\<lambda>es.
       if m_immediate (hd es) = 0 then drop_execs 2
       else seq (require_exec_capacity 2) (\<lambda>_.
            seq (modify (\<lambda>t. set_execs ((execs t)[0 := (hd es)\<lparr>m_immediate := m_immediate (hd es) - 1\<rparr>]) t)) (\<lambda>_.
            seq (push_exec (make_control_operator atUIntegerRepeat)) (\<lambda>_. push_exec (es ! 1)))))"

section \<open>Leaving a loop\<close>

text \<open>
  The search of \<open>exit\<close>: the index of the nearest control operator, or the error if a fence comes
  first or there is none.
\<close>

fun exit_scan :: "nat \<Rightarrow> object list \<Rightarrow> nat option" where
  "exit_scan i [] = None"
| "exit_scan i (ob # obs) =
     (if is_operator ob
      then if operator_is_invalid_exit ob then None
           else if operator_is_control ob then Some i
           else exit_scan (Suc i) obs
      else exit_scan (Suc i) obs)"

definition exit_op :: "services \<Rightarrow> (trix, unit) action" where
  "exit_op svc =
     seq (gets (\<lambda>t. exit_scan 0 (execs t))) (\<lambda>found.
       case found of
         None \<Rightarrow> raise InvalidExit
       | Some i \<Rightarrow>
           seq (unwind_exec_to svc i) (\<lambda>_.
           seq (gets (\<lambda>t. operator_popcount (hd (execs t)))) (\<lambda>popcount.
           seq (free_exec_slots 0 popcount) (\<lambda>_. drop_execs popcount))))"

fun stop_scan :: "nat \<Rightarrow> object list \<Rightarrow> nat option" where
  "stop_scan i [] = None"
| "stop_scan i (ob # obs) = (if is_operator ob \<and> operator_is_stop ob then Some i else stop_scan (Suc i) obs)"

definition stop_op :: "services \<Rightarrow> (trix, unit) action" where
  "stop_op svc =
     seq (require_op_capacity 1) (\<lambda>_.
     seq (gets (\<lambda>t. stop_scan 0 (execs t))) (\<lambda>found.
       case found of
         None \<Rightarrow> raise InvalidStop
       | Some i \<Rightarrow>
           seq (unwind_exec_to svc i) (\<lambda>_.
           seq (push_operand (make_boolean True)) (\<lambda>_. drop_execs 1))))"

definition stopped_op :: "(trix, unit) action" where
  "stopped_op =
     seq (require_op_count 1) (\<lambda>_.
     seq (require_exec_capacity 2) (\<lambda>_.
     seq (push_exec (make_control_operator atStop)) (\<lambda>_.
     seq (gets (\<lambda>t. hd (ops t))) (\<lambda>proc.
     seq (push_exec proc) (\<lambda>_. drop_ops 1)))))"

definition at_stop_op :: "(trix, unit) action" where
  "at_stop_op = seq (require_op_capacity 1) (\<lambda>_. push_operand (make_boolean False))"

section \<open>Error barriers\<close>

definition push_err :: "object \<Rightarrow> (trix, unit) action" where
  "push_err ob = modify (\<lambda>t. set_errs (ob # errs t) t)"

definition try_op :: "(trix, unit) action" where
  "try_op =
     seq (verify_operands [VerifyProc]) (\<lambda>_.
     seq (gets (\<lambda>t. hd (ops t))) (\<lambda>proc.
     seq (drop_ops 1) (\<lambda>_.
     seq (gets (\<lambda>t. int (length (ops t)) - 1)) (\<lambda>saved_depth.
     seq (require_exec_capacity 3) (\<lambda>_.
     seq (push_exec (make_integer saved_depth)) (\<lambda>_.
     seq (push_exec (make_control_operator atTryRollback)) (\<lambda>_.
     seq (push_exec (make_control_operator atTryBarrier)) (\<lambda>_.
     push_exec proc))))))))"

text \<open>The number of operands above the saved depth is freed from the top, one by one.\<close>

fun pop_residue :: "nat \<Rightarrow> (trix, unit) action" where
  "pop_residue 0 = ret ()"
| "pop_residue (Suc k) = seq (free_slot 0) (\<lambda>_. seq (drop_ops 1) (\<lambda>_. pop_residue k))"

text \<open>The comparison of the status with the name of the absent error, by name and object equality, is an argument.\<close>

definition at_try_rollback_op :: "(object \<Rightarrow> bool) \<Rightarrow> (trix, unit) action" where
  "at_try_rollback_op is_no_error =
     seq (require_op_count 1) (\<lambda>_.
     seq (gets (\<lambda>t. m_immediate (hd (execs t)))) (\<lambda>saved_depth.
     seq (drop_execs 1) (\<lambda>_.
     seq (gets (\<lambda>t. hd (ops t))) (\<lambda>status_obj.
       if \<not> is_no_error status_obj
       then seq (drop_ops 1) (\<lambda>_.
            seq (gets (\<lambda>t. nat (int (length (ops t)) - (saved_depth + 1)))) (\<lambda>residue.
            seq (pop_residue residue) (\<lambda>_. push_operand status_obj)))
       else ret ()))))"

definition at_trycatchbarrier_op :: "(trix, unit) action" where
  "at_trycatchbarrier_op =
     seq (gets errs) (\<lambda>es. if es = [] then raise InternalError else modify (set_errs (tl es)))"

definition trycatch_op :: "(trix, unit) action" where
  "trycatch_op =
     seq (verify_operands [VerifyProc, TypeToVerify TDict]) (\<lambda>_.
     seq (require_exec_capacity 2) (\<lambda>_.
     seq (require_error_capacity 1) (\<lambda>_.
     seq (gets ops) (\<lambda>os.
     seq (push_exec (make_control_operator atTryCatchBarrier)) (\<lambda>_.
     seq (push_exec (os ! 0)) (\<lambda>_.
     seq (push_err (os ! 1)) (\<lambda>_. drop_ops 2)))))))"

definition at_finallybarrier_op :: "(trix, unit) action" where
  "at_finallybarrier_op =
     seq (gets errs) (\<lambda>es.
       if es = [] then raise InternalError
       else seq (modify (set_errs (tl es))) (\<lambda>_.
            seq (require_exec_capacity 1) (\<lambda>_. push_exec (hd es))))"

definition finally_op :: "(trix, unit) action" where
  "finally_op =
     seq (verify_operands [VerifyProc, VerifyProc]) (\<lambda>_.
     seq (require_exec_capacity 2) (\<lambda>_.
     seq (require_error_capacity 1) (\<lambda>_.
     seq (gets ops) (\<lambda>os.
     seq (drop_ops 2) (\<lambda>_.
     seq (push_exec (make_control_operator atFinallyBarrier)) (\<lambda>_.
     seq (push_exec (os ! 0)) (\<lambda>_. push_err (os ! 1))))))))"

definition precondition_op :: "(trix, unit) action" where
  "precondition_op =
     seq (verify_operands [TypeToVerify TBoolean]) (\<lambda>_.
     seq (gets (\<lambda>t. boolean_value (hd (ops t)))) (\<lambda>result.
     seq (drop_ops 1) (\<lambda>_. if \<not> result then raise Require else ret ())))"

definition postcondition_op :: "(trix, unit) action" where
  "postcondition_op =
     seq (verify_operands [VerifyProc, VerifyProc]) (\<lambda>_.
     seq (gets ops) (\<lambda>os.
     seq (drop_ops 2) (\<lambda>_.
     seq (require_exec_capacity 3) (\<lambda>_.
     seq (push_exec (os ! 1)) (\<lambda>_.
     seq (push_exec (make_control_operator atEnsureCheck)) (\<lambda>_. push_exec (os ! 0)))))))"

definition postcondition_verify_op :: "(trix, unit) action" where
  "postcondition_verify_op =
     seq (verify_operands [TypeToVerify TBoolean]) (\<lambda>_.
     seq (gets (\<lambda>t. boolean_value (hd (ops t)))) (\<lambda>result.
     seq (drop_ops 1) (\<lambda>_. if \<not> result then raise Ensure else ret ())))"

section \<open>Allocation scopes\<close>

definition alloc_scope :: "bool \<Rightarrow> (trix, unit) action" where
  "alloc_scope global =
     seq (verify_operands [VerifyProc]) (\<lambda>_.
     seq (require_exec_capacity 2) (\<lambda>_.
     seq (require_error_capacity 1) (\<lambda>_.
     seq (gets (\<lambda>t. hd (ops t))) (\<lambda>proc.
     seq (drop_ops 1) (\<lambda>_.
     seq (gets m_curr_alloc_global) (\<lambda>prior.
     seq (push_err (make_boolean prior)) (\<lambda>_.
     seq (modify (m_curr_alloc_global_update (\<lambda>_. global))) (\<lambda>_.
     seq (push_exec (make_control_operator atEndInGlobal)) (\<lambda>_. push_exec proc)))))))))"

definition in_global_op :: "(trix, unit) action" where "in_global_op = alloc_scope True"
definition in_local_op :: "(trix, unit) action" where "in_local_op = alloc_scope False"

definition at_end_in_global_op :: "(trix, unit) action" where
  "at_end_in_global_op =
     seq pop_err (\<lambda>flag. modify (m_curr_alloc_global_update (\<lambda>_. boolean_value flag)))"

definition set_global_op :: "(trix, unit) action" where
  "set_global_op =
     seq (verify_operands [TypeToVerify TBoolean]) (\<lambda>_.
     seq (modify (\<lambda>t. t\<lparr>m_curr_alloc_global := boolean_value (hd (ops t))\<rparr>)) (\<lambda>_. drop_ops 1))"

definition current_global_op :: "(trix, unit) action" where
  "current_global_op =
     seq (require_op_capacity 1) (\<lambda>_.
     seq (gets m_curr_alloc_global) (\<lambda>g. push_operand (make_boolean g)))"

section \<open>Executing operands\<close>

definition exec_op :: "(trix, unit) action" where
  "exec_op =
     seq (require_op_count 1) (\<lambda>_.
     seq (gets (\<lambda>t. hd (ops t))) (\<lambda>ob.
       if o_executable ob \<and> \<not> ignores_execute ob
       then seq (require_exec_capacity 1) (\<lambda>_. seq (push_exec ob) (\<lambda>_. drop_ops 1))
       else ret ()))"

definition execn_op :: "(trix, unit) action" where
  "execn_op =
     seq (verify_operands [VerifyIntegers OR VerifyNotNegative]) (\<lambda>_.
     seq (gets ops) (\<lambda>os.
     seq (object_integer (hd os) 0 (2 ^ 16 - 2)) (\<lambda>(valid, n).
       if valid
       then seq (require_op_count (n + 1)) (\<lambda>_.
            seq (require_exec_capacity n) (\<lambda>_.
            seq (free_slot 0) (\<lambda>_.
            seq (modify (\<lambda>t. set_execs (rev (take (nat n) (tl os)) @ execs t) t)) (\<lambda>_.
            drop_ops (Suc (nat n))))))
       else raise RangeCheck)))"

section \<open>Procedures as operands\<close>

definition is_proc :: "object \<Rightarrow> bool" where
  "is_proc ob \<longleftrightarrow> (o_type ob = TArray \<or> o_type ob = TPacked) \<and> o_executable ob"

lemma is_proc_quiet: "is_proc ob \<Longrightarrow> quiet ob" "is_proc ob \<Longrightarrow> \<not> uses_heap_cell ob" "is_proc ob \<Longrightarrow> \<not> is_operator ob"
  by (auto simp: is_proc_def quiet_def is_operator_def uses_heap_cell_def uses_extvalue_iff uses_widevalue_def)

lemma VerifyProc_value: "VerifyProc = 0x200006000"
  by (simp add: verify_defs)

lemma verify_proc: "is_proc ob \<Longrightarrow> verify_operand AnyType ty VerifyProc ob t = (Value (), t)"
  by (auto simp: is_proc_def verify_operand_def verify_operand_full_def verify_type_check_def verify_handle_kind_def
      verify_rw_access_def verify_value_constraints_def flag_check_def VerifyProc_value verify_defs Let_def)

lemma verify_procs:
  "ops t = p # os \<Longrightarrow> is_proc p \<Longrightarrow> verify_operands [VerifyProc] t = (Value (), t)"
  "ops t = p # q # os \<Longrightarrow> is_proc p \<Longrightarrow> is_proc q \<Longrightarrow> verify_operands [VerifyProc, VerifyProc] t = (Value (), t)"
  by (simp_all add: verify_operands_def verify_with_def verify_proc)

lemma require_exec_capacity_ok:
  assumes "count \<le> int (s_size (m_exec t)) - int (length (execs t))"
  shows "\<exists>hw. require_exec_capacity count t = (Value (), t\<lparr>m_exec := (m_exec t)\<lparr>s_high_water := hw\<rparr>\<rparr>)"
proof -
  let ?c = "int (length (execs t)) + count"
  have "require_exec_capacity count t =
      (Value (), t\<lparr>m_exec := (m_exec t)\<lparr>s_high_water := if ?c > s_high_water (m_exec t) then ?c else s_high_water (m_exec t)\<rparr>\<rparr>)"
    using assms by (simp add: require_exec_capacity_def reserve_def Let_def execs_def)
  then show ?thesis by blast
qed

lemma exec_high_water [simp]:
  "ops (t\<lparr>m_exec := (m_exec t)\<lparr>s_high_water := hw\<rparr>\<rparr>) = ops t" "execs (t\<lparr>m_exec := (m_exec t)\<lparr>s_high_water := hw\<rparr>\<rparr>) = execs t"
  "errs (t\<lparr>m_exec := (m_exec t)\<lparr>s_high_water := hw\<rparr>\<rparr>) = errs t"
  by (simp_all add: ops_def execs_def errs_def)

lemma set_execs_simps [simp]:
  "set_execs xs (set_execs ys t) = set_execs xs t" "set_execs (execs t) t = t" "errs (set_execs xs t) = errs t"
  by (simp_all add: set_execs_def execs_def errs_def)

section \<open>Leaving loops\<close>

lemma exit_scan_skip:
  "\<forall>ob\<in>set skipped. quiet ob \<Longrightarrow> exit_scan i (skipped @ obs) = exit_scan (i + length skipped) obs"
proof (induction skipped arbitrary: i)
  case (Cons ob skipped)
  then show ?case using quiet_flags [of ob] by (cases "is_operator ob") simp_all
qed simp

lemma exit_from:
  assumes ex: "execs t = skipped @ ctl # below" and q: "\<forall>ob\<in>set skipped. quiet ob"
    and ctl: "is_operator ctl" "operator_is_control ctl" "\<not> operator_is_invalid_exit ctl"
    and frame: "operator_popcount ctl \<le> Suc (length below)" "\<forall>ob\<in>set (take (operator_popcount ctl) (ctl # below)). \<not> uses_heap_cell ob"
  shows "exit_op svc t = (Value (), set_execs (drop (operator_popcount ctl) (ctl # below)) t)"
proof -
  let ?t = "set_execs (ctl # below) t" and ?n = "operator_popcount ctl"
  have "exit_scan 0 (execs t) = Some (length skipped)"
    using ex q ctl exit_scan_skip [of skipped 0 "ctl # below"] by simp
  moreover have "unwind_exec_to svc (length skipped) t = (Value (), ?t)" by (rule unwind_exec_to_quiet [OF ex q])
  moreover have "free_exec_slots 0 ?n ?t = (Value (), ?t)"
  proof (rule free_exec_slots_immediate)
    show "\<forall>j<?n. \<not> uses_heap_cell (execs ?t ! (0 + j))"
    proof (intro allI impI)
      fix j assume "j < ?n"
      then have "(ctl # below) ! j \<in> set (take ?n (ctl # below))" using frame(1)
        by (metis in_set_conv_nth length_Cons length_take min.absorb2 nth_take)
      then show "\<not> uses_heap_cell (execs ?t ! (0 + j))" using frame(2) by simp
    qed
  qed (use frame(1) in simp)
  ultimately show ?thesis by (simp add: exit_op_def drop_execs_def)
qed

lemma exit_frame:
  assumes data: "control_op_data s = Some (ControlOp, Suc (length frame))" and q: "\<forall>ob\<in>set skipped. quiet ob"
    and frame: "\<forall>ob\<in>set frame. \<not> uses_heap_cell ob"
  shows "exit_op svc (set_execs (skipped @ make_control_operator s # frame @ es) t) = (Value (), set_execs es t)"
proof -
  note f = make_control_operator_fields [OF data]
  have "operator_is_control (make_control_operator s)" "\<not> operator_is_invalid_exit (make_control_operator s)"
    unfolding operator_is_control_def operator_is_invalid_exit_def f(1) by (simp_all add: op_flag_defs)
  then show ?thesis
    using exit_from [of "set_execs (skipped @ make_control_operator s # frame @ es) t" skipped "make_control_operator s" "frame @ es" svc]
      q frame f by auto
qed





lemma proc_example: "is_proc ((make_object TArray 0)\<lparr>o_executable := True\<rparr>)"
  by (simp add: is_proc_def make_object_def)

definition proc_object :: object where "proc_object = (make_object TArray 0)\<lparr>o_executable := True\<rparr>"


text \<open>
  The frame that \<open>match\<close> and \<open>cond\<close> put on the execution stack (\<^verbatim>\<open>match_start_trampoline\<close> of
  \<^verbatim>\<open>src/ops_match.inl\<close>): the value, the remaining pairs, the control operator, and the test on top.
\<close>

definition match_frame :: "object \<Rightarrow> object \<Rightarrow> object \<Rightarrow> object list" where
  "match_frame value_obj pairs_obj first_test_obj = [first_test_obj, make_control_operator atMatchTest, pairs_obj, value_obj]"

text \<open>
  \<open>exit\<close> inside a test of \<open>match\<close> does not leave the enclosing loop: it stops at the frame of the match, whose
  pop count is one short of its three slots, and leaves the matched value on the execution stack,
  where it is executed next.
\<close>

theorem exit_in_match_leaves_value:
  assumes "\<forall>ob\<in>set skipped. quiet ob" "\<not> uses_heap_cell pairs"
  shows "exit_op svc (set_execs (skipped @ tl (match_frame v pairs test) @ es) t) = (Value (), set_execs (v # es) t)"
  using exit_frame [of atMatchTest "[pairs]" skipped svc "v # es" t] control_op_values(6) assms
  by (simp add: match_frame_def)

theorem exit_in_match_leaves_value_witness:
  "exit_op \<lparr>svc_gc = Value, svc_close = (\<lambda>_. ret ()), svc_clear_name_bindings = (\<lambda>_. ret ()), svc_recycle = (\<lambda>_. ret ())\<rparr>
     (set_execs (tl (match_frame make_mark proc_object proc_object)) (small_machine 0)) =
   (Value (), set_execs [make_mark] (small_machine 0))"
  using exit_in_match_leaves_value [of "[]" proc_object _ make_mark proc_object "[]" "small_machine 0"]
    is_proc_quiet(2) [OF proc_example] by (simp add: proc_object_def)

text \<open>
  C24. \<open>try\<close> overruns the execution stack: it asks for three slots and pushes four objects, so with exactly three
  free slots it succeeds and its procedure is written one slot past the end of the stack.
\<close>

theorem try_overruns_stack:
  assumes "ops t = p # os" "is_proc p" "s_size (m_exec t) = length (execs t) + 3"
  shows "\<exists>t1. try_op t = (Value (), t1) \<and> length (execs t1) = s_size (m_exec t1) + 1"
proof -
  let ?t = "set_ops os t"
  have sz: "s_size (m_exec ?t) = s_size (m_exec t)" by (simp add: set_ops_def)
  obtain hw where "require_exec_capacity 3 ?t = (Value (), ?t\<lparr>m_exec := (m_exec ?t)\<lparr>s_high_water := hw\<rparr>\<rparr>)"
    using require_exec_capacity_ok [of 3 ?t] assms(3) sz by auto
  moreover have "s_size (m_exec (set_execs xs u)) = s_size (m_exec u)" for xs u by (simp add: set_execs_def)
  ultimately show ?thesis using assms(1,3) sz
    by (simp add: try_op_def verify_procs(1) [OF assms(1,2)] drop_ops_def push_exec_def)
qed

theorem try_overruns_stack_witness:
  "\<exists>t1. try_op (set_ops [proc_object] (set_execs [make_mark, make_mark, make_mark, make_mark, make_mark] (small_machine 0))) = (Value (), t1) \<and>
     length (execs t1) = s_size (m_exec t1) + 1"
  using try_overruns_stack [of "set_ops [proc_object] (set_execs [make_mark, make_mark, make_mark, make_mark, make_mark] (small_machine 0))"
      proc_object "[]"] proc_example
  by (simp add: proc_object_def set_ops_def set_execs_def execs_def ops_def small_machine_def empty_stack_def)

section \<open>Errors inside try\<close>

lemma try_op_frame:
  assumes "try_op t = (Value (), t1)" "ops t = p # os"
  shows "execs t1 = p # make_control_operator atTryBarrier # make_control_operator atTryRollback #
    make_integer (int (length os) - 1) # execs t"
proof -
  let ?t = "set_ops os t"
  have ver: "verify_operands [VerifyProc] t = (Value (), t)"
    using assms(1) verify_operands_cases [of "[VerifyProc]" t] by (auto simp: try_op_def seq_def)
  have "fst (require_exec_capacity 3 ?t) = Value ()"
    using assms ver by (cases "require_exec_capacity 3 ?t"; cases "fst (require_exec_capacity 3 ?t)")
      (auto simp: try_op_def drop_ops_def seq_def)
  then have "3 \<le> int (s_size (m_exec ?t)) - int (length (execs ?t))"
    by (auto simp: require_exec_capacity_def reserve_def Let_def execs_def split: if_splits)
  then obtain hw where "require_exec_capacity 3 ?t = (Value (), ?t\<lparr>m_exec := (m_exec ?t)\<lparr>s_high_water := hw\<rparr>\<rparr>)"
    using require_exec_capacity_ok [of 3 ?t] by auto
  then show ?thesis using assms ver by (auto simp: try_op_def drop_ops_def push_exec_def)
qed

lemma pop_residue_numbers:
  assumes "ops t = residue @ os" "numbers_ok t (filter uses_heap_cell residue)"
  shows "\<exists>t1. pop_residue (length residue) t = (Value (), t1) \<and> ops t1 = os \<and> keeps_but (cell_of ` set (filter uses_heap_cell residue)) t t1 \<and>
    execs t1 = execs t \<and> errs t1 = errs t \<and> dicts t1 = dicts t \<and> m_curr_alloc_global t1 = m_curr_alloc_global t"
  using assms
proof (induction residue arbitrary: t)
  case Nil
  then show ?case by (intro exI [of _ t]) simp
next
  case (Cons ob residue)
  have hd: "ops t ! 0 = ob" "0 < length (ops t)" using Cons.prems(1) by simp_all
  have "\<exists>u. maybe_free_extvalue ob t = (Value (if uses_heap_cell ob then ob\<lparr>m_offset := nulloffset\<rparr> else ob), u) \<and>
      keeps_but (cell_of ` set (filter uses_heap_cell [ob])) t u \<and> stacks_kept t u"
  proof (cases "uses_heap_cell ob")
    case True
    then have "numbers_ok t [ob]" using Cons.prems(2) by (simp add: numbers_ok_def)
    from free_number [OF this] show ?thesis using True by auto
  qed (simp add: maybe_free_extvalue_def stacks_kept_def)
  then obtain u where u: "maybe_free_extvalue ob t = (Value (if uses_heap_cell ob then ob\<lparr>m_offset := nulloffset\<rparr> else ob), u)"
      "keeps_but (cell_of ` set (filter uses_heap_cell [ob])) t u" "stacks_kept t u" by blast
  note k = stacks_keptD [OF u(3)]
  let ?u = "set_ops (residue @ os) u"
  have step: "pop_residue (Suc (length residue)) t = pop_residue (length residue) ?u"
    using u(1) k(1) hd Cons.prems(1) by (simp add: free_slot_def drop_ops_def)
  have "keeps_but (cell_of ` set (filter uses_heap_cell [ob])) t ?u" using u(2) by simp
  moreover have "numbers_ok t (filter uses_heap_cell [ob] @ filter uses_heap_cell residue)"
    using Cons.prems(2) by (cases "uses_heap_cell ob") simp_all
  ultimately have "numbers_ok ?u (filter uses_heap_cell residue)" by (rule numbers_ok_rest)
  with Cons.IH [of ?u] obtain t1 where t1: "pop_residue (length residue) ?u = (Value (), t1)" "ops t1 = os"
      "keeps_but (cell_of ` set (filter uses_heap_cell residue)) ?u t1" "execs t1 = execs u" "errs t1 = errs u" "dicts t1 = dicts u"
      "m_curr_alloc_global t1 = m_curr_alloc_global u" by auto
  have "keeps_but (cell_of ` set (filter uses_heap_cell [ob]) \<union> cell_of ` set (filter uses_heap_cell residue)) t t1"
    using keeps_but_trans [OF _ t1(3), of _ t] u(2) by simp
  then have "keeps_but (cell_of ` set (filter uses_heap_cell (ob # residue))) t t1" by (cases "uses_heap_cell ob") simp_all
  then show ?case using step t1 k by (intro exI [of _ t1]) simp
qed

lemma rollback_error:
  assumes ex: "execs t = make_integer (int n - 1) # es" and ops: "ops t = name # left" and name: "\<not> is_no_error name"
    and num: "numbers_ok t (filter uses_heap_cell (take (length left - n) left))"
  shows "\<exists>t1. at_try_rollback_op is_no_error t = (Value (), t1) \<and> ops t1 = name # drop (length left - n) left \<and> execs t1 = es \<and>
    errs t1 = errs t \<and> dicts t1 = dicts t \<and> m_curr_alloc_global t1 = m_curr_alloc_global t \<and>
    keeps_but (cell_of ` set (filter uses_heap_cell (take (length left - n) left))) t t1"
proof -
  let ?residue = "take (length left - n) left" and ?rest = "drop (length left - n) left"
  have int: "m_immediate (make_integer v) = v" for v by (simp add: make_integer_def make_object_def)
  let ?u = "set_ops left (set_execs es t)"
  have "keeps_but {} t ?u" by simp
  then have "numbers_ok ?u (filter uses_heap_cell ?residue)" using num by (rule numbers_ok_kept) simp
  moreover have "ops ?u = ?residue @ ?rest" by simp
  ultimately obtain t1 where t1: "pop_residue (length ?residue) ?u = (Value (), t1)" "ops t1 = ?rest"
      "keeps_but (cell_of ` set (filter uses_heap_cell ?residue)) ?u t1" "execs t1 = es" "errs t1 = errs t" "dicts t1 = dicts t"
      "m_curr_alloc_global t1 = m_curr_alloc_global t"
    using pop_residue_numbers [of ?u ?residue ?rest] by auto
  have len: "nat (int (length left) - (int n - 1 + 1)) = length ?residue" by simp
  have "at_try_rollback_op is_no_error t = (Value (), set_ops (name # ?rest) t1)"
    using ex ops name t1(1,2) len
    by (simp add: at_try_rollback_op_def require_op_count_ok drop_execs_def drop_ops_def int push_operand_def)
  moreover have "keeps_but (cell_of ` set (filter uses_heap_cell ?residue)) t t1"
    using keeps_but_trans [OF \<open>keeps_but {} t ?u\<close> t1(3)] by simp
  ultimately show ?thesis using t1 by (intro exI [of _ "set_ops (name # ?rest) t1"]) simp
qed

text \<open>
  C5. An error inside \<open>try\<close> is undone. Take any machine in whose \<open>try\<close> body, above the barrier, delimited, effect and
  handler scopes, allocation scopes, local variables, closures and modules, loop frames and values with or
  without cells are open in any order and number, and whatever is on the operand stack with room for the error
  name. The handler catches the error at the barrier of this \<open>try\<close>, and the rollback operator it exposes leaves the
  execution, error and dictionary stacks as \<open>try\<close> found them, the error name on top of the operands cut to
  the depth \<open>try\<close> found them at (operands that the body had consumed do not come back), the allocation flag as the
  outermost open allocation scope found it, and the cells of all discarded numbers released, no other. Frames of \<open>run\<close>, and
  barriers that catch the error themselves, are not among the scopes.
\<close>

theorem try_error_rolls_back:
  assumes tr: "try_op t = (Value (), t1)" "ops t = p # os" and svc: "services_keep svc"
    and body: "execs te = map scope_slot scopes @ tl (execs t1)" "\<forall>sc\<in>set scopes. error_passes sc" "has_scopes scopes (errs t) (dicts t) te"
    and stack: "has_op_capacity 1 te" "residue = take (length (ops te) - length os) (ops te)"
    and num: "numbers_ok te (concat (map scope_numbers scopes) @ filter uses_heap_cell residue)"
    and name: "\<not> is_no_error (m_last_error_name te)"
  shows "\<exists>t2 t3. try_catch_handler svc te = (Value True, t2) \<and> hd (execs t2) = make_control_operator atTryRollback \<and>
    at_try_rollback_op is_no_error (set_execs (tl (execs t2)) t2) = (Value (), t3) \<and>
    ops t3 = m_last_error_name te # drop (length (ops te) - length os) (ops te) \<and> execs t3 = execs t \<and> errs t3 = errs t \<and> dicts t3 = dicts t \<and>
    m_curr_alloc_global t3 = outer_flag scopes (m_curr_alloc_global te) \<and>
    keeps_but (cell_of ` set (concat (map scope_numbers scopes) @ filter uses_heap_cell residue)) te t3"
proof -
  let ?frame = "make_control_operator atTryRollback # make_integer (int (length os) - 1) # execs t"
  let ?slots = "map scope_slot scopes" and ?nums = "concat (map scope_numbers scopes)"
  have ex: "execs te = [] @ ?slots @ make_control_operator atTryBarrier # ?frame" using body(1) try_op_frame [OF tr] by simp
  have cells: "filter uses_heap_cell ?slots = ?nums" using filter_cells [of scopes] body(2) by blast
  obtain u where u: "handler_scan svc 0 (length scopes + Suc (length ?frame)) False 0 te =
        handler_scan svc (length scopes) (Suc (length ?frame)) (?nums \<noteq> []) 0 u"
      "keeps_but {} te u" "execs u = execs te" "m_op u = m_op te" "errs u = errs t" "dicts u = dicts t"
      "m_curr_alloc_global u = outer_flag scopes (m_curr_alloc_global te)"
    using handler_scopes [OF svc body(2) ex body(3), of "Suc (length ?frame)" False 0]
    unfolding list.size(3) add_0_left simp_thms by blast
  have "numbers_ok u (?nums @ filter uses_heap_cell residue)" by (rule numbers_ok_kept [OF u(2) num]) simp
  then have numu: "numbers_ok u (filter uses_heap_cell ?slots)" "numbers_ok u (?nums @ filter uses_heap_cell residue)"
    unfolding cells by (simp_all only: numbers_ok_append)
  have capu: "has_op_capacity 1 u" "ops u = ops te" "m_last_error_name u = m_last_error_name te"
    using stack(1) u(2,4) by (simp_all add: has_op_capacity_def ops_def keeps_but_def)
  obtain t2 where t2: "handler_scan svc (length ?slots) (Suc (length ?frame)) (?nums \<noteq> []) 0 u = (Value True, t2)" "execs t2 = ?frame"
      "ops t2 = m_last_error_name te # ops te" "keeps_but (cell_of ` set ?nums) u t2" "errs t2 = errs t" "dicts t2 = dicts t"
      "m_curr_alloc_global t2 = outer_flag scopes (m_curr_alloc_global te)"
    using handler_catch_try [OF _ capu(1) numu(1), of ?frame "?nums \<noteq> []" svc "length ?frame"] ex
    unfolding u(3,5-7) capu(2,3) cells append_Nil by blast
  have catch: "try_catch_handler svc te = (Value True, t2)"
    using u(1) t2(1) ex by (simp add: try_catch_handler_def del: handler_scan.simps)
  let ?t2 = "set_execs (tl ?frame) t2"
  have "numbers_ok t2 (filter uses_heap_cell residue)" by (rule numbers_ok_rest [OF t2(4) numu(2)])
  then have numt: "numbers_ok ?t2 (filter uses_heap_cell residue)" using numbers_ok_kept [of "{}" t2 ?t2] by simp
  obtain t3 where t3: "at_try_rollback_op is_no_error ?t2 = (Value (), t3)"
      "ops t3 = m_last_error_name te # drop (length (ops te) - length os) (ops te)" "execs t3 = execs t" "errs t3 = errs t" "dicts t3 = dicts t"
      "m_curr_alloc_global t3 = outer_flag scopes (m_curr_alloc_global te)" "keeps_but (cell_of ` set (filter uses_heap_cell residue)) ?t2 t3"
    using rollback_error [of ?t2 "length os" "execs t" "m_last_error_name te" "ops te" is_no_error] name t2 numt stack(2) by auto
  have "keeps_but (cell_of ` set ?nums) te ?t2" using keeps_but_trans [OF u(2) t2(4)] by simp
  then have "keeps_but (cell_of ` set (?nums @ filter uses_heap_cell residue)) te t3"
    using keeps_but_trans [OF _ t3(7)] by (simp add: image_Un)
  then show ?thesis using catch t2(2) t3 by (intro exI [of _ t2] exI [of _ t3]) (simp del: set_concat)
qed

text \<open>
  In the example the body has left a null and consumed nothing: below it is the operand of before, above the barrier a number
  with the cell at 8, an allocation scope opened with the flag off, and local variables.
\<close>

theorem try_error_rolls_back_witness:
  "\<exists>t1 te t2 t3. try_op (set_ops [proc_object, make_mark] (set_dicts (replicate 4 make_mark) (small_machine 5))) = (Value (), t1) \<and>
     te = set_ops [make_null, make_mark] (body_machine (tl (execs t1)) [] (replicate 4 make_mark)) \<and>
     try_catch_handler idle_services te = (Value True, t2) \<and>
     at_try_rollback_op (\<lambda>ob. o_type ob = TName) (set_execs (tl (execs t2)) t2) = (Value (), t3) \<and>
     ops t3 = [make_null, make_mark] \<and> execs t3 = [] \<and> errs t3 = [] \<and> dicts t3 = replicate 4 make_mark \<and>
     m_curr_alloc_global te \<and> \<not> m_curr_alloc_global t3 \<and> valid_in te False 8 \<and> \<not> valid_in t3 False 8"
proof -
  let ?ds = "replicate 4 make_mark"
  let ?t = "set_ops [proc_object, make_mark] (set_dicts ?ds (small_machine 5))"
  have t: "ops ?t = [proc_object, make_mark]" "execs ?t = []" "errs ?t = []" "dicts ?t = ?ds" "is_proc proc_object"
      "s_size (m_exec ?t) = s_size (m_exec (small_machine 5))"
    using proc_example by (simp_all add: proc_object_def)
      (simp_all add: small_machine_def empty_stack_def set_ops_def set_dicts_def execs_def errs_def dicts_def)
  have room: "3 \<le> int (s_size (m_exec (set_ops [make_mark] ?t))) - int (length (execs (set_ops [make_mark] ?t)))"
    by (simp add: set_ops_def set_dicts_def execs_def small_machine_def empty_stack_def)
  obtain t1 where t1: "try_op ?t = (Value (), t1)"
    using require_exec_capacity_ok [OF room] verify_procs(1) [OF t(1,5)] t(1)
    by (auto simp: try_op_def drop_ops_def push_exec_def)
  let ?b = "body_machine (tl (execs t1)) [] ?ds" and ?te = "set_ops [make_null, make_mark] (body_machine (tl (execs t1)) [] ?ds)"
  have ok: "has_scopes open_scopes [] ?ds ?b" "numbers_ok ?b [long_at_8]"
    by (rule body_machine_ok; simp add: PermanentDictCount_def)+
  have k: "keeps_but {} ?b ?te" by simp
  have scopes: "has_scopes open_scopes (errs ?t) (dicts ?t) ?te" using ok(1) t(3,4) by (simp add: has_scopes_def frame_in_def set_ops_def)
      (simp add: errs_def dicts_def frame_in_def)
  have null: "\<not> uses_heap_cell make_null"
    by (simp add: make_null_def make_object_def uses_heap_cell_def uses_extvalue_iff uses_widevalue_def)
  have nums: "numbers_ok ?te (concat (map scope_numbers open_scopes) @ filter uses_heap_cell [make_null])"
    using numbers_ok_kept [OF k ok(2)] null by (simp add: open_scopes_def)
  have cap: "has_op_capacity 1 ?te"
    by (simp add: has_op_capacity_def body_machine_def set_errs_def set_execs_def set_ops_def set_dicts_def small_machine_def empty_stack_def)
  have name: "m_last_error_name ?te = make_null" "\<not> o_type (m_last_error_name ?te) = TName"
    by (simp_all add: body_machine_def set_errs_def set_execs_def set_ops_def set_dicts_def small_machine_def make_null_def make_object_def)
  have ex: "execs ?te = map scope_slot open_scopes @ tl (execs t1)" by simp
  have res: "[make_null] = take (length (ops ?te) - length [make_mark]) (ops ?te)" by simp
  obtain t2 t3 where r: "try_catch_handler idle_services ?te = (Value True, t2)"
      "at_try_rollback_op (\<lambda>ob. o_type ob = TName) (set_execs (tl (execs t2)) t2) = (Value (), t3)"
      "ops t3 = m_last_error_name ?te # drop (length (ops ?te) - length [make_mark]) (ops ?te)" "execs t3 = execs ?t" "errs t3 = errs ?t" "dicts t3 = dicts ?t"
      "m_curr_alloc_global t3 = outer_flag open_scopes (m_curr_alloc_global ?te)"
      "keeps_but (cell_of ` set (concat (map scope_numbers open_scopes) @ filter uses_heap_cell [make_null])) ?te t3"
    using try_error_rolls_back [where is_no_error = "\<lambda>ob. o_type ob = TName", OF t1 t(1) idle_services_keep ex open_scopes_pass(2) scopes cap res nums name(2)] by blast
  have "\<not> valid_in t3 False 8" using r(8) by (auto simp: keeps_but_def cell_of_def open_scopes_def)
  moreover have "valid_in ?te False 8" unfolding valid_in_set(4) by (rule valid_in_body)
  moreover have "\<not> m_curr_alloc_global t3" using r(7) by (simp add: open_scopes_def)
  moreover have "m_curr_alloc_global ?te" by simp
  moreover have "ops t3 = [make_null, make_mark]" using r(3) unfolding name(1) by simp
  ultimately show ?thesis using t1 r(1,2,4-6) t(2-4)
    by (intro exI [of _ t1] exI [of _ ?te] exI [of _ t2] exI [of _ t3]) (simp only: simp_thms)
qed

end
