(* ===== verification/Hash.thy ===== *)
theory Hash
  imports Prelude
begin

text \<open>
  The hash functions of \<^verbatim>\<open>src/hash.inl\<close>: the integer mixers, the string hash and the remainder by
  multiplication. A string view is the list of its bytes; a read outside of it is a \<open>Fault\<close>.
\<close>

section \<open>Definitions\<close>

definition mix32 :: "u32 \<Rightarrow> u32" where
  "mix32 x0 =
     (let x1 = x0 XOR drop_bit 16 x0;
          x2 = x1 * 0x7feb352d;
          x3 = x2 XOR drop_bit 15 x2;
          x4 = x3 * 0x846ca68b
      in x4 XOR drop_bit 16 x4)"

definition mix64_to_32 :: "u64 \<Rightarrow> u32" where
  "mix64_to_32 x0 =
     (let x1 = x0 XOR drop_bit 33 x0;
          x2 = x1 * 0xff51afd7ed558ccd;
          x3 = x2 XOR drop_bit 33 x2;
          x4 = x3 * 0xc4ceb9fe1a85ec53
      in ucast (x4 XOR drop_bit 33 x4))"

text \<open>Little-endian reads of \<open>k\<close> bytes at an index, which may be wrong.\<close>

definition wy_read :: "nat \<Rightarrow> u8 list \<Rightarrow> nat \<Rightarrow> u64 outcome" where
  "wy_read k bytes i =
     (if i + k \<le> length bytes
      then Value (fold (\<lambda>j v. v OR push_bit (j * 8) (ucast (bytes ! (i + j)))) [0..<k] 0)
      else Fault)"

definition wy_read8 :: "u8 list \<Rightarrow> nat \<Rightarrow> u64 outcome" where "wy_read8 = wy_read 8"
definition wy_read4 :: "u8 list \<Rightarrow> nat \<Rightarrow> u64 outcome" where "wy_read4 = wy_read 4"

definition wy_byte :: "u8 list \<Rightarrow> nat \<Rightarrow> u64 outcome" where
  "wy_byte bytes i = (if i < length bytes then Value (ucast (bytes ! i)) else Fault)"

definition wy_mum :: "u64 \<Rightarrow> u64 \<Rightarrow> u64" where
  "wy_mum a b = (let r = (ucast a :: u128) * ucast b in ucast r XOR ucast (drop_bit 64 r))"

definition wy_S0 :: u64 where "wy_S0 = 0xa0761d6478bd642f"
definition wy_S1 :: u64 where "wy_S1 = 0xe7037ed1a0b428db"

text \<open>The loop over blocks of 16 bytes: position, bytes left, seed.\<close>

function wy_blocks :: "u8 list \<Rightarrow> nat \<Rightarrow> nat \<Rightarrow> u64 \<Rightarrow> (nat \<times> nat \<times> u64) outcome" where
  "wy_blocks bytes p i seed =
     (if i > 16
      then bind_outcome (wy_read8 bytes p) (\<lambda>lo. bind_outcome (wy_read8 bytes (p + 8)) (\<lambda>hi.
        wy_blocks bytes (p + 16) (i - 16) (wy_mum (lo XOR wy_S1) (hi XOR seed))))
      else Value (p, i, seed))"
  by auto
termination by (relation "measure (\<lambda>(_, _, i, _). i)") auto

declare wy_blocks.simps [simp del]

text \<open>The two words and the seed that go into the final mix.\<close>

definition wy_words :: "u8 list \<Rightarrow> (u64 \<times> u64 \<times> u64) outcome" where
  "wy_words bytes =
     (let n = length bytes
      in if n \<le> 16
         then if n \<ge> 4
              then let mid = (n div 8) * 4
                   in bind_outcome (wy_read4 bytes 0) (\<lambda>a1.
                      bind_outcome (wy_read4 bytes mid) (\<lambda>a2.
                      bind_outcome (wy_read4 bytes (n - 4)) (\<lambda>b1.
                      bind_outcome (wy_read4 bytes (n - 4 - mid)) (\<lambda>b2.
                        Value (push_bit 32 a1 OR a2, push_bit 32 b1 OR b2, wy_S0)))))
              else if n > 0
              then bind_outcome (wy_byte bytes 0) (\<lambda>x.
                   bind_outcome (wy_byte bytes (n div 2)) (\<lambda>y.
                   bind_outcome (wy_byte bytes (n - 1)) (\<lambda>z.
                     Value (push_bit 16 x OR push_bit 8 y OR z, 0, wy_S0))))
              else Value (0, 0, wy_S0)
         else bind_outcome (wy_blocks bytes 0 n wy_S0) (\<lambda>(p, i, seed).
              bind_outcome (if 16 \<le> p + i then wy_read8 bytes (p + i - 16) else Fault) (\<lambda>a.
              bind_outcome (wy_read8 bytes (p + i - 8)) (\<lambda>b. Value (a, b, seed)))))"

definition wyhash32_sv :: "u8 list \<Rightarrow> u32 outcome" where
  "wyhash32_sv bytes =
     bind_outcome (wy_words bytes) (\<lambda>(a, b, seed).
       let mixed = wy_mum (wy_S1 XOR word_of_nat (length bytes)) (wy_mum (a XOR wy_S1) (b XOR seed))
       in Value (ucast (mixed XOR drop_bit 32 mixed)))"

definition fastmod_magic_u32 :: "u32 \<Rightarrow> u64" where
  "fastmod_magic_u32 d = (NOT 0) div ucast d + 1"

definition fastmod_u32 :: "u32 \<Rightarrow> u64 \<Rightarrow> u32 \<Rightarrow> u32" where
  "fastmod_u32 n magic d =
     (let lowbits = magic * ucast n
      in ucast (drop_bit 64 ((ucast lowbits :: u128) * ucast d)))"

section \<open>Remainder by multiplication\<close>

text \<open>
  With \<open>m * d = N + e\<close>, \<open>e < d\<close>, the product \<open>m * n\<close> is \<open>(n div d) * N\<close> plus a rest below \<open>N\<close>, and
  multiplying the rest by \<open>d\<close> brings the remainder to the top half.
\<close>

lemma fastmod_nat:
  fixes n d m e :: nat
  assumes d: "0 < d" "d \<le> B" and n: "n < B" and m: "m * d = B * B + e" "e < d"
  shows "(m * n mod (B * B)) * d div (B * B) = n mod d"
proof -
  define q where "q = n div d"
  define r where "r = n mod d"
  have nqr: "n = q * d + r" and r: "r < d" using d by (simp_all add: q_def r_def)
  have Bm: "B \<le> m"
  proof (rule ccontr)
    assume "\<not> B \<le> m"
    then have "m * d < B * B" using d by (intro mult_less_le_imp_less) simp_all
    then show False using m(1) by simp
  qed
  have mn: "m * n = q * (B * B) + (q * e + m * r)"
  proof -
    have "m * n = q * (m * d) + m * r" by (simp add: nqr algebra_simps)
    then show ?thesis unfolding m(1) by (simp add: algebra_simps)
  qed
  have small: "q * e + m * r < B * B"
  proof (cases "(q + 1) * d \<le> B")
    case True
    have "(q + 1) * e < (q + 1) * d" using m(2) by (intro mult_strict_left_mono) simp_all
    then have "(q + 1) * e < m" using True Bm by linarith
    moreover have "m * r + m \<le> B * B + e"
      using mult_le_mono2 [of "Suc r" d m] r m(1) by simp
    ultimately show ?thesis by simp
  next
    case False
    then have "r + 2 \<le> d" using n nqr by (simp add: algebra_simps)
    then have "m * r + 2 * m \<le> B * B + e" using mult_le_mono2 [of "r + 2" d m] m(1) by (simp add: algebra_simps)
    moreover have "q * e \<le> q * d" using m(2) by simp
    then have "q * e < m" using nqr n Bm by linarith
    moreover have "e < m" using m(2) d(2) Bm by linarith
    ultimately show ?thesis by linarith
  qed
  have "(q * e + m * r) * d = r * (B * B) + e * n"
  proof -
    have "(q * e + m * r) * d = q * e * d + (m * d) * r" by (simp add: algebra_simps)
    then show ?thesis unfolding m(1) by (simp add: nqr algebra_simps)
  qed
  moreover have "e * n < B * B" using m(2) d(2) n by (intro mult_strict_mono) linarith+
  ultimately have "(q * e + m * r) * d div (B * B) = r" by (intro div_nat_eqI) simp_all
  then show ?thesis using small by (simp add: mn r_def)
qed

lemma ceiling_quotient:
  fixes N d :: nat
  assumes "0 < d" "0 < N"
  shows "\<exists>e<d. ((N - 1) div d + 1) * d = N + e"
proof (intro exI conjI)
  let ?e = "d - 1 - (N - 1) mod d"
  have less: "(N - 1) mod d < d" using assms by simp
  show "?e < d" using assms by simp
  have "((N - 1) div d + 1) * d = (N - 1) div d * d + d" by simp
  moreover have "(N - 1) div d * d = N - 1 - (N - 1) mod d" by (simp add: minus_mod_eq_div_mult)
  moreover have "(N - 1) mod d \<le> N - 1" by simp
  ultimately show "((N - 1) div d + 1) * d = N + ?e" using assms less by linarith
qed

lemma unat_widen:
  "unat (ucast (x :: u32) :: u64) = unat x" "unat (ucast (x :: u32) :: u128) = unat x"
  "unat (ucast (y :: u64) :: u128) = unat y"
  using unsigned_less [of x, where 'a = nat] unsigned_less [of y, where 'a = nat]
  by (simp_all add: unsigned_ucast_eq take_bit_nat_eq_self)

lemma fastmod_mod:
  assumes "d \<noteq> 0"
  shows "fastmod_u32 n (fastmod_magic_u32 d) d = n mod d"
proof -
  let ?N = "2 ^ 64 :: nat"
  have d: "0 < unat d" "unat d < 2 ^ 32" using assms unat_gt_0 unsigned_less [of d] by auto
  obtain e where e: "e < unat d" "((?N - 1) div unat d + 1) * unat d = ?N + e"
    using ceiling_quotient [OF d(1), of ?N] by auto
  let ?m = "(?N - 1) div unat d + 1"
  have magic: "unat (fastmod_magic_u32 d) = ?m mod ?N"
    by (simp add: fastmod_magic_u32_def unat_word_ariths unat_div unat_widen unsigned_minus_1_eq_mask mask_eq_exp_minus_1 mod_Suc_eq)
  define low where "low = fastmod_magic_u32 d * ucast n"
  have low: "unat low = ?m * unat n mod ?N"
    by (simp add: low_def unat_word_ariths magic unat_widen mod_mult_left_eq)
  have "unat low * unat d < 2 ^ 64 * 2 ^ 32"
    using unsigned_less [of low] d(2) by (intro mult_strict_mono) simp_all
  then have "unat ((ucast low :: u128) * ucast d) = unat low * unat d"
    by (simp add: unat_word_ariths unat_widen)
  then have "unat (drop_bit 64 ((ucast low :: u128) * ucast d)) = unat low * unat d div ?N"
    by (simp add: drop_bit_eq_div unat_div)
  also have "\<dots> = unat n mod unat d"
    using fastmod_nat [of "unat d" "2 ^ 32" "unat n" ?m e] d e unsigned_less [of n] low by simp
  finally have "unat (drop_bit 64 ((ucast low :: u128) * ucast d)) = unat (n mod d)" by (simp add: unat_mod)
  moreover have "ucast x = y" if "unat (x :: u128) = unat (y :: u32)" for x y
    using arg_cong [OF that, of "of_nat :: nat \<Rightarrow> u32"] by simp
  ultimately show ?thesis unfolding fastmod_u32_def Let_def low_def by blast
qed

text \<open>
  C40. The remainder by multiplication is the remainder, for every 32-bit number and every divisor but
  zero, the divisor one included, for which the magic number wraps to zero.
\<close>

theorem fastmod_exact:
  assumes "d \<noteq> 0"
  shows "fastmod_u32 n (fastmod_magic_u32 d) d = n mod d"
  using assms by (rule fastmod_mod)

theorem fastmod_exact_witness: "fastmod_u32 123456789 (fastmod_magic_u32 2053) 2053 = 123456789 mod 2053"
  by (rule fastmod_exact) simp

section \<open>The string hash stays inside the string\<close>

lemma wy_read_ok: "i + k \<le> length bytes \<Longrightarrow> \<exists>v. wy_read k bytes i = Value v"
  by (simp add: wy_read_def)

lemma wy_blocks_ok:
  assumes "p + i = length bytes"
  shows "\<exists>p' i' s. wy_blocks bytes p i seed = Value (p', i', s) \<and> p' + i' = length bytes \<and> i' \<le> 16"
  using assms
proof (induction bytes p i seed rule: wy_blocks.induct)
  case (1 bytes p i seed)
  show ?case
  proof (cases "16 < i")
    case True
    obtain lo hi where rd: "wy_read8 bytes p = Value lo" "wy_read8 bytes (p + 8) = Value hi"
      using wy_read_ok [of p 8 bytes] wy_read_ok [of "p + 8" 8 bytes] True "1.prems" by (auto simp: wy_read8_def)
    have "\<exists>p' i' s. wy_blocks bytes (p + 16) (i - 16) (wy_mum (lo XOR wy_S1) (hi XOR seed)) = Value (p', i', s) \<and>
        p' + i' = length bytes \<and> i' \<le> 16"
      using "1.IH" [OF True rd] "1.prems" True by simp
    then show ?thesis using True rd by (simp add: wy_blocks.simps [of bytes p])
  next
    case False
    then show ?thesis using "1.prems" by (simp add: wy_blocks.simps)
  qed
qed

lemma wyhash_inside: "\<exists>h. wyhash32_sv bytes = Value h"
proof -
  have "\<exists>w. wy_words bytes = Value w"
  proof (cases "length bytes \<le> 16")
    case True
    have mid: "(length bytes div 8) * 4 + 4 \<le> length bytes" if "4 \<le> length bytes"
      using that True by presburger
    obtain a1 a2 b1 b2 where "4 \<le> length bytes \<Longrightarrow> wy_read4 bytes 0 = Value a1 \<and>
        wy_read4 bytes ((length bytes div 8) * 4) = Value a2 \<and> wy_read4 bytes (length bytes - 4) = Value b1 \<and>
        wy_read4 bytes (length bytes - 4 - (length bytes div 8) * 4) = Value b2"
      using mid wy_read_ok [of _ 4 bytes] unfolding wy_read4_def
      by (cases "4 \<le> length bytes") (force simp: wy_read_def)+
    moreover have "wy_byte bytes 0 = Value (ucast (bytes ! 0)) \<and> wy_byte bytes (length bytes div 2) = Value (ucast (bytes ! (length bytes div 2))) \<and>
        wy_byte bytes (length bytes - 1) = Value (ucast (bytes ! (length bytes - 1)))" if "0 < length bytes"
      using that by (auto simp: wy_byte_def)
    ultimately show ?thesis using True by (auto simp: wy_words_def Let_def)
  next
    case False
    then obtain p i s where run: "wy_blocks bytes 0 (length bytes) wy_S0 = Value (p, i, s)" "p + i = length bytes"
      using wy_blocks_ok [of 0 "length bytes" bytes wy_S0] by auto
    then obtain a b where "wy_read8 bytes (p + i - 16) = Value a" "wy_read8 bytes (p + i - 8) = Value b"
      using wy_read_ok [of "p + i - 16" 8 bytes] wy_read_ok [of "p + i - 8" 8 bytes] False by (auto simp: wy_read8_def)
    then show ?thesis using False run by (simp add: wy_words_def Let_def)
  qed
  then show ?thesis by (auto simp: wyhash32_sv_def Let_def split_beta)
qed

text \<open>
  The string hash returns for every string and never reads outside of it, the overlapping reads of
  short strings and of the last block included.
\<close>

theorem wyhash_reads_inside: "\<exists>h. wyhash32_sv bytes = Value h"
  by (rule wyhash_inside)

section \<open>The integer mixer is a bijection\<close>

lemma xorshift_invertible:
  fixes x y :: "'a :: len word"
  assumes "0 < k" "x XOR drop_bit k x = y XOR drop_bit k y"
  shows "x = y"
proof (rule bit_word_eqI)
  have bits: "bit x n = (bit y n \<noteq> (bit y (n + k) \<noteq> bit x (n + k)))" for n
    using arg_cong [OF assms(2), of "\<lambda>w. bit w n"] by (auto simp: bit_xor_iff bit_drop_bit_eq add.commute)
  show "bit x n = bit y n" if "n < LENGTH('a)" for n
    using that
  proof (induction "LENGTH('a) - n" arbitrary: n rule: less_induct)
    case less
    show ?case
    proof (cases "n + k < LENGTH('a)")
      case True
      then have "bit x (n + k) = bit y (n + k)" using less assms(1) by simp
      then show ?thesis using bits [of n] by auto
    next
      case False
      then have "\<not> bit x (n + k)" "\<not> bit y (n + k)" using bit_imp_le_length by (force simp: not_less)+
      then show ?thesis using bits [of n] by auto
    qed
  qed
qed

lemma odd_multiplier_cancel:
  fixes a b c c' :: "'a :: len word"
  assumes "a * c = b * c" "c * c' = 1"
  shows "a = b"
  using arg_cong [OF assms(1), of "\<lambda>w. w * c'"] assms(2) by (simp add: mult.assoc)

text \<open>
  C1. The 32-bit mixer maps distinct numbers to distinct hashes, so numeric keys never collide
  before they are reduced to a bucket.
\<close>

theorem mix32_injective: "(mix32 x = mix32 y) = (x = y)"
proof
  assume eq: "mix32 x = mix32 y"
  define f where "f z = (z XOR drop_bit 16 z) * 0x7feb352d" for z :: u32
  define g where "g z = (z XOR drop_bit 15 z) * 0x846ca68b" for z :: u32
  have mix: "mix32 z = g (f z) XOR drop_bit 16 (g (f z))" for z by (simp add: mix32_def f_def g_def Let_def)
  have "g (f x) = g (f y)" using xorshift_invertible [of 16 "g (f x)" "g (f y)"] eq unfolding mix by simp
  then have "f x XOR drop_bit 15 (f x) = f y XOR drop_bit 15 (f y)"
    unfolding g_def by (rule odd_multiplier_cancel [where c' = "0x43021123"]) simp
  then have "f x = f y" by (rule xorshift_invertible [rotated]) simp
  then have "x XOR drop_bit 16 x = y XOR drop_bit 16 y"
    unfolding f_def by (rule odd_multiplier_cancel [where c' = "0x1d69e2a5"]) simp
  then show "x = y" by (rule xorshift_invertible [rotated]) simp
qed simp

end
