(* ===== verification/Names.thy ===== *)
theory Names
  imports Hash Actions Gvm_Heap
begin

text \<open>
  The table of interned names (\<^verbatim>\<open>src/name.inl\<close>): a fixed array of buckets, each the head of a chain of
  name blocks linked by their offsets. Interning a string walks the chain of its bucket and
  appends a new block when the string is not there; restoring a save level unlinks the names above the
  barrier. The blocks are a map from offsets to records; a walk over a chain may not return when
  the links form a cycle, and is a partial function.
\<close>

section \<open>State\<close>

record name =
  n_next :: nat
  n_binding :: nat
  n_hash :: u32
  n_data :: "u8 list"

record names = gvm +
  m_alloc_global :: bool
  name_mem :: "nat \<Rightarrow> name"
  m_name_buckets :: "nat list"
  m_name_bucket_count :: u32
  m_name_bucket_magic :: u64
  m_has_global_names :: bool
  m_name_global_mask :: "u64 list"

definition MaxNameBucketChainLength :: nat where "MaxNameBucketChainLength = 10000"
definition NameBucketVmDivisor :: nat where "NameBucketVmDivisor = 512"
definition ChunkKind_Name :: u8 where "ChunkKind_Name = 1"

definition sm_name_bucket_counts :: "nat list" where
  "sm_name_bucket_counts = [131, 257, 521, 1031, 2053, 4099, 8209, 16411, 32771, 65537]"

definition name_bucket_count_valid :: "nat \<Rightarrow> bool" where
  "name_bucket_count_valid count \<longleftrightarrow> count \<in> set sm_name_bucket_counts"

definition scaled_name_bucket_count :: "nat \<Rightarrow> nat" where
  "scaled_name_bucket_count vm_size =
     (let target = vm_size div NameBucketVmDivisor
      in case find (\<lambda>count. count \<ge> target) sm_name_bucket_counts of
           Some count \<Rightarrow> count
         | None \<Rightarrow> last sm_name_bucket_counts)"

definition name_global_mask_words :: "'a names_scheme \<Rightarrow> nat" where
  "name_global_mask_words t = (unat (m_name_bucket_count t) + 63) div 64"

text \<open>The table that \<^verbatim>\<open>init_and_interpret\<close> sets up; the storage of the arrays is part of the start-up.\<close>

definition names_init :: "u32 \<Rightarrow> 'a names_scheme \<Rightarrow> 'a names_scheme" where
  "names_init name_bucket_count t =
     (let t1 = t\<lparr>m_name_buckets := replicate (unat name_bucket_count) nulloffset, m_name_bucket_count := name_bucket_count,
                 m_name_bucket_magic := fastmod_magic_u32 name_bucket_count\<rparr>
      in t1\<lparr>m_name_global_mask := replicate (name_global_mask_words t1) 0, m_has_global_names := False\<rparr>)"

section \<open>Operations\<close>

text \<open>A string longer than 65535 bytes aborts the program.\<close>

definition sv_length :: "u8 list \<Rightarrow> nat outcome" where
  "sv_length sv = (if length sv > 65535 then Fault else Value (length sv))"

definition name_equal :: "name \<Rightarrow> u8 list \<Rightarrow> bool outcome" where
  "name_equal nm sv = bind_outcome (sv_length sv) (\<lambda>l. Value (length (n_data nm) = l \<and> n_data nm = sv))"

definition alloc_size :: "nat \<Rightarrow> nat" where "alloc_size len = 14 + len"

text \<open>A link of a chain: the head of a bucket or the link of a name.\<close>

datatype link = Bucket nat | After nat

definition get_link :: "'a names_scheme \<Rightarrow> link \<Rightarrow> nat" where
  "get_link t l = (case l of Bucket b \<Rightarrow> m_name_buckets t ! b | After off \<Rightarrow> n_next (name_mem t off))"

definition set_link :: "link \<Rightarrow> nat \<Rightarrow> 'a names_scheme \<Rightarrow> 'a names_scheme" where
  "set_link l v t =
     (case l of
        Bucket b \<Rightarrow> t\<lparr>m_name_buckets := (m_name_buckets t)[b := v]\<rparr>
      | After off \<Rightarrow> t\<lparr>name_mem := (name_mem t)(off := (name_mem t off)\<lparr>n_next := v\<rparr>)\<rparr>)"

text \<open>
  The walk that \<open>add\<close> and \<open>find\<close> share: it stops at the first link that is null or leads to a name with
  this hash and content, and returns the link.
\<close>

partial_function (option) name_walk :: "'a names_scheme \<Rightarrow> u32 \<Rightarrow> u8 list \<Rightarrow> link \<Rightarrow> link outcome option" where
  "name_walk t h sv chain =
     (let off = get_link t chain
      in if off = nulloffset then Some (Value chain)
         else case offset_to_ptr t off of
                Value _ \<Rightarrow>
                  if n_hash (name_mem t off) \<noteq> h then name_walk t h sv (After off)
                  else (case name_equal (name_mem t off) sv of
                          Value eq \<Rightarrow> if eq then Some (Value chain) else name_walk t h sv (After off)
                        | Raise e \<Rightarrow> Some (Raise e) | Diverge \<Rightarrow> Some Diverge | Fault \<Rightarrow> Some Fault)
              | Raise e \<Rightarrow> Some (Raise e) | Diverge \<Rightarrow> Some Diverge | Fault \<Rightarrow> Some Fault)"

definition name_lookup :: "u8 list \<Rightarrow> 'a names_scheme \<Rightarrow> (u32 \<times> nat \<times> link) outcome" where
  "name_lookup sv t =
     bind_outcome (wyhash32_sv sv) (\<lambda>hash.
       let bucket = unat (fastmod_u32 hash (m_name_bucket_magic t) (m_name_bucket_count t))
       in if bucket < length (m_name_buckets t)
          then bind_outcome (from_walk (name_walk t hash sv (Bucket bucket))) (\<lambda>r.
               bind_outcome r (\<lambda>chain. Value (hash, bucket, chain)))
          else Fault)"

text \<open>\<open>Name::find\<close>: the offset of the name, null when it is not in the table.\<close>

definition name_find :: "u8 list \<Rightarrow> 'a names_scheme \<Rightarrow> nat outcome" where
  "name_find sv t = bind_outcome (name_lookup sv t) (\<lambda>(_, _, chain). Value (get_link t chain))"

definition lift_heap :: "(gvm \<Rightarrow> ('b \<times> gvm) outcome) \<Rightarrow> ('a names_scheme, 'b) action" where
  "lift_heap f t =
     (case f (gvm.truncate t) of
        Value (x, g) \<Rightarrow> (Value x, gvm.extend g (gvm.more t))
      | Raise e \<Rightarrow> (Raise e, t) | Diverge \<Rightarrow> (Diverge, t) | Fault \<Rightarrow> (Fault, t))"

definition vm_alloc_dispatch :: "(gvm \<Rightarrow> gvm outcome) \<Rightarrow> nat \<Rightarrow> nat \<Rightarrow> u8 \<Rightarrow> ('a names_scheme, nat) action" where
  "vm_alloc_dispatch gc al bytes kind t =
     (if m_alloc_global t then lift_heap (\<lambda>g. gvm_alloc gc g bytes kind) t
      else lift_heap (\<lambda>g. vm_alloc_ptr g al bytes) t)"

definition name_global_mask_set :: "nat \<Rightarrow> 'a names_scheme \<Rightarrow> 'a names_scheme" where
  "name_global_mask_set bucket t =
     t\<lparr>m_name_global_mask := (m_name_global_mask t)
         [bucket div 64 := (m_name_global_mask t ! (bucket div 64)) OR push_bit (bucket mod 64) 1]\<rparr>"

definition name_global_mask_any_set :: "'a names_scheme \<Rightarrow> bool" where
  "name_global_mask_any_set t \<longleftrightarrow> (\<exists>w\<in>set (m_name_global_mask t). w \<noteq> 0)"

definition name_add :: "(gvm \<Rightarrow> gvm outcome) \<Rightarrow> u8 list \<Rightarrow> ('a names_scheme, nat) action" where
  "name_add gc sv =
     seq (\<lambda>t. (name_lookup sv t, t)) (\<lambda>(hash, bucket, chain).
     seq (gets (\<lambda>t. get_link t chain)) (\<lambda>offset.
       if offset \<noteq> nulloffset then ret offset
       else seq (\<lambda>t. (sv_length sv, t)) (\<lambda>len.
            seq (vm_alloc_dispatch gc 4 (alloc_size len) ChunkKind_Name) (\<lambda>name_offset.
            seq (modify (\<lambda>t. t\<lparr>name_mem := (name_mem t)(name_offset :=
                   \<lparr>n_next = nulloffset, n_binding = nulloffset, n_hash = hash, n_data = sv\<rparr>)\<rparr>)) (\<lambda>_.
            seq (modify (set_link chain name_offset)) (\<lambda>_.
            seq (modify (\<lambda>t. if is_global t name_offset
                   then name_global_mask_set bucket (t\<lparr>m_has_global_names := True\<rparr>) else t)) (\<lambda>_.
            ret name_offset)))))))"

text \<open>\<open>Name::restore\<close>: in every bucket, local names at or above the barrier are unlinked.\<close>

partial_function (option) restore_chain :: "nat \<Rightarrow> link \<Rightarrow> 'a names_scheme \<Rightarrow> (unit outcome \<times> 'a names_scheme) option" where
  "restore_chain barrier prev_link t =
     (let off = get_link t prev_link
      in if off = nulloffset then Some (Value (), t)
         else case offset_to_ptr t off of
                Value _ \<Rightarrow>
                  if \<not> is_global t off \<and> off \<ge> barrier
                  then restore_chain barrier prev_link (set_link prev_link (n_next (name_mem t off)) t)
                  else restore_chain barrier (After off) t
              | Raise e \<Rightarrow> Some (Raise e, t) | Diverge \<Rightarrow> Some (Diverge, t) | Fault \<Rightarrow> Some (Fault, t))"

definition from_loop :: "('s \<Rightarrow> ('b outcome \<times> 's) option) \<Rightarrow> ('s, 'b) action" where
  "from_loop f t = (case f t of Some r \<Rightarrow> r | None \<Rightarrow> (Diverge, t))"

fun for_each :: "'b list \<Rightarrow> ('b \<Rightarrow> ('s, unit) action) \<Rightarrow> ('s, unit) action" where
  "for_each [] f = ret ()"
| "for_each (x # xs) f = seq (f x) (\<lambda>_. for_each xs f)"

definition name_restore :: "nat \<Rightarrow> ('a names_scheme, unit) action" where
  "name_restore barrier t =
     for_each [0..<unat (m_name_bucket_count t)] (\<lambda>i. from_loop (restore_chain barrier (Bucket i))) t"

text \<open>\<open>flush_all_name_bindings\<close> clears the cached binding of every name in the table.\<close>

partial_function (option) flush_chain :: "nat \<Rightarrow> 'a names_scheme \<Rightarrow> (unit outcome \<times> 'a names_scheme) option" where
  "flush_chain off t =
     (if off = nulloffset then Some (Value (), t)
      else case offset_to_ptr t off of
             Value _ \<Rightarrow>
               let t1 = t\<lparr>name_mem := (name_mem t)(off := (name_mem t off)\<lparr>n_binding := nulloffset\<rparr>)\<rparr>
               in flush_chain (n_next (name_mem t1 off)) t1
           | Raise e \<Rightarrow> Some (Raise e, t) | Diverge \<Rightarrow> Some (Diverge, t) | Fault \<Rightarrow> Some (Fault, t))"

definition flush_all_name_bindings :: "('a names_scheme, unit) action" where
  "flush_all_name_bindings t =
     for_each [0..<unat (m_name_bucket_count t)] (\<lambda>i. from_loop (\<lambda>s. flush_chain (m_name_buckets s ! i) s)) t"

text \<open>\<open>validate_chains\<close>: at most \<open>MaxNameBucketChainLength\<close> links of a chain are followed.\<close>

fun validate_chain :: "nat \<Rightarrow> 'a names_scheme \<Rightarrow> nat \<Rightarrow> bool" where
  "validate_chain left t off =
     (if off = nulloffset then True
      else if \<not> valid_active_offset t 1 1 off then False
      else case left of 0 \<Rightarrow> False | Suc k \<Rightarrow> validate_chain k t (n_next (name_mem t off)))"

declare validate_chain.simps [simp del]

definition validate_chains :: "'a names_scheme \<Rightarrow> bool" where
  "validate_chains t \<longleftrightarrow>
     (\<forall>i<unat (m_name_bucket_count t). validate_chain MaxNameBucketChainLength t (m_name_buckets t ! i))"

section \<open>The table invariant\<close>

fun name_chain :: "'a names_scheme \<Rightarrow> nat \<Rightarrow> nat list \<Rightarrow> bool" where
  "name_chain t off [] \<longleftrightarrow> off = nulloffset"
| "name_chain t off (x # xs) \<longleftrightarrow>
     off = x \<and> x \<noteq> nulloffset \<and> x < m_vm_limit t \<and> name_chain t (n_next (name_mem t x)) xs"

abbreviation data_at :: "'a names_scheme \<Rightarrow> nat \<Rightarrow> u8 list" where
  "data_at t x \<equiv> n_data (name_mem t x)"

definition home :: "'a names_scheme \<Rightarrow> u32 \<Rightarrow> nat" where
  "home t h = unat (h mod m_name_bucket_count t)"

definition names_inv :: "'a names_scheme \<Rightarrow> (nat \<Rightarrow> nat list) \<Rightarrow> bool" where
  "names_inv t cs \<longleftrightarrow>
     m_name_bucket_count t \<noteq> 0 \<and> m_name_bucket_magic t = fastmod_magic_u32 (m_name_bucket_count t) \<and>
     length (m_name_buckets t) = unat (m_name_bucket_count t) \<and>
     (\<forall>b<unat (m_name_bucket_count t).
        name_chain t (m_name_buckets t ! b) (cs b) \<and> distinct (cs b) \<and> inj_on (data_at t) (set (cs b)) \<and>
        (\<forall>x\<in>set (cs b). wyhash32_sv (data_at t x) = Value (n_hash (name_mem t x)) \<and> home t (n_hash (name_mem t x)) = b \<and>
           length (data_at t x) \<le> 65535))"

definition names_ok :: "'a names_scheme \<Rightarrow> bool" where
  "names_ok t \<longleftrightarrow> (\<exists>cs. names_inv t cs)"

lemma names_invD:
  assumes "names_inv t cs" "b < unat (m_name_bucket_count t)"
  shows "name_chain t (m_name_buckets t ! b) (cs b)" "distinct (cs b)" "inj_on (data_at t) (set (cs b))"
    "x \<in> set (cs b) \<Longrightarrow> wyhash32_sv (data_at t x) = Value (n_hash (name_mem t x))"
    "x \<in> set (cs b) \<Longrightarrow> home t (n_hash (name_mem t x)) = b"
    "x \<in> set (cs b) \<Longrightarrow> length (data_at t x) \<le> 65535"
  using assms by (auto simp: names_inv_def)

lemma home_less: "m_name_bucket_count t \<noteq> 0 \<Longrightarrow> home t h < unat (m_name_bucket_count t)"
  by (simp add: home_def unat_mod unat_gt_0)

lemma names_inv_disjoint:
  assumes "names_inv t cs" "b < unat (m_name_bucket_count t)" "b' < unat (m_name_bucket_count t)" "b \<noteq> b'"
  shows "set (cs b) \<inter> set (cs b') = {}"
  using names_invD(5) [OF assms(1,2)] names_invD(5) [OF assms(1,3)] assms(4) by fastforce

lemma name_chain_cong:
  "(\<And>x. x \<in> set xs \<Longrightarrow> n_next (name_mem t' x) = n_next (name_mem t x)) \<Longrightarrow> m_vm_limit t' = m_vm_limit t \<Longrightarrow>
     name_chain t' off xs = name_chain t off xs"
  by (induction xs arbitrary: off) auto

lemma name_chain_props: "name_chain t off xs \<Longrightarrow> x \<in> set xs \<Longrightarrow> x \<noteq> nulloffset \<and> x < m_vm_limit t"
  by (induction xs arbitrary: off) auto

section \<open>Looking up\<close>

definition end_link :: "link \<Rightarrow> nat list \<Rightarrow> link" where
  "end_link l ys = (if ys = [] then l else After (last ys))"

definition offset_of :: "'a names_scheme \<Rightarrow> nat list \<Rightarrow> u8 list \<Rightarrow> nat" where
  "offset_of t xs sv = (case find (\<lambda>x. data_at t x = sv) xs of None \<Rightarrow> nulloffset | Some x \<Rightarrow> x)"

lemma find_append: "find P (xs @ ys) = (case find P xs of None \<Rightarrow> find P ys | Some x \<Rightarrow> Some x)"
  by (induction xs) auto

lemma end_link_Cons [simp]: "end_link l [] = l" "end_link l (x # ys) = end_link (After x) ys"
  by (simp_all add: end_link_def)

lemma name_walk_chain:
  assumes "name_chain t (get_link t l) xs" "length sv \<le> 65535"
    and "\<And>x. x \<in> set xs \<Longrightarrow> data_at t x = sv \<Longrightarrow> n_hash (name_mem t x) = h"
  shows "\<exists>ys. name_walk t h sv l = Some (Value (end_link l ys)) \<and> get_link t (end_link l ys) = offset_of t xs sv \<and>
    (offset_of t xs sv = nulloffset \<longrightarrow> ys = xs)"
  using assms
proof (induction xs arbitrary: l)
  case Nil
  then show ?case by (intro exI [of _ "[]"]) (simp add: name_walk.simps offset_of_def)
next
  case (Cons x xs)
  have x: "get_link t l = x" "x \<noteq> nulloffset" "x < m_vm_limit t" "name_chain t (get_link t (After x)) xs"
    using Cons.prems(1) by (auto simp: get_link_def)
  show ?case
  proof (cases "data_at t x = sv")
    case True
    then show ?thesis using x Cons.prems(2,3)
      by (intro exI [of _ "[]"])
        (simp add: name_walk.simps [of t h sv l] offset_of_def offset_to_ptr_def name_equal_def sv_length_def)
  next
    case False
    then have "name_walk t h sv l = name_walk t h sv (After x)"
      using x Cons.prems(2) by (simp add: name_walk.simps [of t h sv l] offset_to_ptr_def name_equal_def sv_length_def)
    moreover have "offset_of t (x # xs) sv = offset_of t xs sv" using False by (simp add: offset_of_def)
    moreover obtain ys where "name_walk t h sv (After x) = Some (Value (end_link (After x) ys)) \<and>
        get_link t (end_link (After x) ys) = offset_of t xs sv \<and> (offset_of t xs sv = nulloffset \<longrightarrow> ys = xs)"
      using Cons.IH [OF x(4) Cons.prems(2)] Cons.prems(3) by auto
    ultimately show ?thesis by (intro exI [of _ "x # ys"]) simp
  qed
qed

lemma name_lookup_run:
  assumes inv: "names_inv t cs" and len: "length sv \<le> 65535"
  shows "\<exists>h ys. wyhash32_sv sv = Value h \<and> name_lookup sv t = Value (h, home t h, end_link (Bucket (home t h)) ys) \<and>
    get_link t (end_link (Bucket (home t h)) ys) = offset_of t (cs (home t h)) sv \<and>
    (offset_of t (cs (home t h)) sv = nulloffset \<longrightarrow> ys = cs (home t h))"
proof -
  obtain h where h: "wyhash32_sv sv = Value h" using wyhash_inside by blast
  have cnt: "m_name_bucket_count t \<noteq> 0" using inv by (simp add: names_inv_def)
  have b: "home t h < unat (m_name_bucket_count t)" by (rule home_less [OF cnt])
  have bucket: "unat (fastmod_u32 h (m_name_bucket_magic t) (m_name_bucket_count t)) = home t h"
    "home t h < length (m_name_buckets t)"
    using inv b fastmod_mod [OF cnt] by (simp_all add: names_inv_def home_def)
  have "\<exists>ys. name_walk t h sv (Bucket (home t h)) = Some (Value (end_link (Bucket (home t h)) ys)) \<and>
      get_link t (end_link (Bucket (home t h)) ys) = offset_of t (cs (home t h)) sv \<and>
      (offset_of t (cs (home t h)) sv = nulloffset \<longrightarrow> ys = cs (home t h))"
    using names_invD(1,4) [OF inv b] h by (intro name_walk_chain [OF _ len]) (auto simp: get_link_def)
  then show ?thesis using h bucket by (auto simp: name_lookup_def Let_def)
qed

lemma name_find_run:
  assumes "names_inv t cs" "length sv \<le> 65535" "wyhash32_sv sv = Value h"
  shows "name_find sv t = Value (offset_of t (cs (home t h)) sv)"
  using name_lookup_run [OF assms(1,2)] assms(3) by (auto simp: name_find_def)

lemma offset_of_none:
  assumes "nulloffset \<notin> set xs"
  shows "offset_of t xs sv = nulloffset \<longleftrightarrow> sv \<notin> data_at t ` set xs"
proof (cases "find (\<lambda>x. data_at t x = sv) xs")
  case None
  then have "\<forall>x\<in>set xs. data_at t x \<noteq> sv" by (auto simp: find_None_iff)
  then show ?thesis using None by (auto simp: offset_of_def)
next
  case (Some x)
  then have "x \<in> set xs" "data_at t x = sv" by (auto simp: find_Some_iff)
  then show ?thesis using assms Some by (auto simp: offset_of_def)
qed

lemma chain_null: "names_inv t cs \<Longrightarrow> b < unat (m_name_bucket_count t) \<Longrightarrow> nulloffset \<notin> set (cs b)"
  using name_chain_props [OF names_invD(1)] by blast

lemma offset_of_in:
  assumes "inj_on (data_at t) (set xs)" "x \<in> set xs" "data_at t x = sv"
  shows "offset_of t xs sv = x"
  using assms by (auto simp: offset_of_def find_None_iff find_Some_iff inj_on_def split: option.splits)

lemma offset_of_cases: "offset_of t xs sv = nulloffset \<or> offset_of t xs sv \<in> set xs \<and> data_at t (offset_of t xs sv) = sv"
  by (auto simp: offset_of_def find_Some_iff split: option.splits)

section \<open>Interning\<close>

text \<open>The table with the name \<open>off\<close> appended to the chain of its bucket.\<close>

definition appended :: "'a names_scheme \<Rightarrow> (nat \<Rightarrow> nat list) \<Rightarrow> u32 \<Rightarrow> u8 list \<Rightarrow> nat \<Rightarrow> 'a names_scheme" where
  "appended t cs h sv off =
     set_link (end_link (Bucket (home t h)) (cs (home t h))) off
       (t\<lparr>name_mem := (name_mem t)(off := \<lparr>n_next = nulloffset, n_binding = nulloffset, n_hash = h, n_data = sv\<rparr>)\<rparr>)"

lemma set_link_fields [simp]:
  "m_name_bucket_count (set_link l v t) = m_name_bucket_count t" "m_name_bucket_magic (set_link l v t) = m_name_bucket_magic t"
  "m_vm_limit (set_link l v t) = m_vm_limit t" "m_vm_global (set_link l v t) = m_vm_global t"
  "length (m_name_buckets (set_link l v t)) = length (m_name_buckets t)"
  "n_data (name_mem (set_link l v t) x) = n_data (name_mem t x)" "n_hash (name_mem (set_link l v t) x) = n_hash (name_mem t x)"
  by (auto simp: set_link_def split: link.splits)

lemma set_link_next: "n_next (name_mem (set_link l v t) x) = (if l = After x then v else n_next (name_mem t x))"
  by (auto simp: set_link_def split: link.splits)

lemma set_link_bucket:
  "b < length (m_name_buckets t) \<Longrightarrow> m_name_buckets (set_link l v t) ! b = (if l = Bucket b then v else m_name_buckets t ! b)"
  by (auto simp: set_link_def nth_list_update split: link.splits)

lemma name_chain_snoc:
  assumes "name_chain t (get_link t l) xs" "distinct xs" "off \<notin> set xs" "off \<noteq> nulloffset" "off < m_vm_limit t"
    and "\<And>y. l = After y \<Longrightarrow> y \<notin> set (off # xs)" "\<And>b. l = Bucket b \<Longrightarrow> b < length (m_name_buckets t)"
    and "n_next (name_mem t off) = nulloffset"
  shows "name_chain (set_link (end_link l xs) off t) (get_link (set_link (end_link l xs) off t) l) (xs @ [off])"
  using assms
proof (induction xs arbitrary: l)
  case Nil
  then show ?case by (cases l) (auto simp: get_link_def set_link_next set_link_bucket)
next
  case (Cons x xs)
  let ?t = "set_link (end_link (After x) xs) off t"
  have ne: "end_link (After x) xs \<noteq> l" using Cons.prems(6) by (cases l) (auto simp: end_link_def)
  have "get_link ?t l = x"
    using ne Cons.prems(1,7) by (cases l) (auto simp: get_link_def set_link_next set_link_bucket)
  moreover have "name_chain ?t (get_link ?t (After x)) (xs @ [off])"
    using Cons.prems by (intro Cons.IH) (auto simp: get_link_def)
  ultimately show ?case using Cons.prems(1) by (simp add: get_link_def)
qed

lemma appended_inv:
  assumes inv: "names_inv t cs" and h: "wyhash32_sv sv = Value h" and len: "length sv \<le> 65535"
    and new: "offset_of t (cs (home t h)) sv = nulloffset" and off: "off \<noteq> nulloffset" "off < m_vm_limit t"
    and fresh: "\<And>b. b < unat (m_name_bucket_count t) \<Longrightarrow> off \<notin> set (cs b)"
  shows "names_inv (appended t cs h sv off) (cs(home t h := cs (home t h) @ [off]))"
proof -
  let ?b = "home t h" and ?n = "unat (m_name_bucket_count t)"
  let ?u = "t\<lparr>name_mem := (name_mem t)(off := \<lparr>n_next = nulloffset, n_binding = nulloffset, n_hash = h, n_data = sv\<rparr>)\<rparr>"
  let ?l = "end_link (Bucket ?b) (cs ?b)" and ?t = "appended t cs h sv off" and ?cs = "cs(?b := cs ?b @ [off])"
  have cnt: "m_name_bucket_count t \<noteq> 0" and len_b: "length (m_name_buckets t) = ?n" using inv by (simp_all add: names_inv_def)
  have b: "?b < ?n" by (rule home_less [OF cnt])
  have t: "?t = set_link ?l off ?u" by (simp add: appended_def)
  have mem: "data_at ?t x = (if x = off then sv else data_at t x)" "n_hash (name_mem ?t x) = (if x = off then h else n_hash (name_mem t x))" for x
    by (simp_all add: t)
  have chain_u: "name_chain ?u o' (cs b') = name_chain t o' (cs b')" if "b' < ?n" for o' b'
    using fresh [OF that] by (intro name_chain_cong) auto
  have "name_chain ?t (m_name_buckets ?t ! b') (?cs b')" if b': "b' < ?n" for b'
  proof (cases "b' = ?b")
    case True
    have "name_chain ?t (get_link ?t (Bucket ?b)) (cs ?b @ [off])"
      unfolding t using names_invD(1,2) [OF inv b] chain_u [OF b] fresh [OF b] off b len_b
      by (intro name_chain_snoc) (auto simp: get_link_def)
    then show ?thesis using True by (simp add: get_link_def)
  next
    case False
    have notin: "?l \<noteq> After x" if "x \<in> set (cs b')" for x
      using that names_inv_disjoint [OF inv b' b] False by (auto simp: end_link_def)
    have "name_chain ?t (m_name_buckets t ! b') (cs b')"
      using names_invD(1) [OF inv b'] chain_u [OF b'] name_chain_cong [of "cs b'" ?t ?u] notin by (simp add: t set_link_next)
    moreover have "m_name_buckets ?t ! b' = m_name_buckets t ! b'"
      using False b' len_b set_link_bucket [of b' ?u ?l off] by (auto simp: t end_link_def split: if_splits)
    ultimately show ?thesis using False by simp
  qed
  moreover have "inj_on (data_at ?t) (set (?cs b'))" if "b' < ?n" for b'
  proof -
    have "inj_on (data_at ?t) (set (cs b')) = inj_on (data_at t) (set (cs b'))"
      using fresh [OF that] by (intro inj_on_cong) (auto simp: mem)
    moreover have "sv \<notin> data_at ?t ` set (cs ?b)"
      using new fresh [OF b] offset_of_none [OF chain_null [OF inv b], of t sv] by (auto simp: mem)
    ultimately show ?thesis using names_invD(3) [OF inv that] by (auto simp: mem)
  qed
  moreover have "home ?t = home t" by (simp add: fun_eq_iff home_def t)
  ultimately show ?thesis
    using inv fresh len h b unfolding names_inv_def by (auto simp: mem t)
qed

lemma offset_of_appended:
  assumes inv: "names_inv t cs" and h: "wyhash32_sv sv = Value h" and len: "length sv \<le> 65535" "length sv' \<le> 65535"
    and inv': "names_inv (appended t cs h sv off) (cs(home t h := cs (home t h) @ [off]))"
    and fresh: "\<And>b. b < unat (m_name_bucket_count t) \<Longrightarrow> off \<notin> set (cs b)"
  shows "name_find sv' (appended t cs h sv off) = (if sv' = sv then Value off else name_find sv' t)"
proof -
  let ?t = "appended t cs h sv off" and ?cs = "cs(home t h := cs (home t h) @ [off])"
  obtain h' where h': "wyhash32_sv sv' = Value h'" using wyhash_inside by blast
  have cnt: "m_name_bucket_count t \<noteq> 0" using inv by (simp add: names_inv_def)
  have home: "home ?t h' = home t h'" by (simp add: home_def appended_def)
  have f: "name_find sv' ?t = Value (offset_of ?t (?cs (home t h')) sv')"
    using name_find_run [OF inv' len(2) h'] by (simp add: home)
  show ?thesis
  proof (cases "sv' = sv")
    case True
    have "inj_on (data_at ?t) (set (?cs (home t h)))"
      using names_invD(3) [OF inv', of "home t h"] home_less [OF cnt] by (simp add: appended_def)
    then have "offset_of ?t (?cs (home t h)) sv = off" by (rule offset_of_in) (simp_all add: appended_def)
    then show ?thesis using True f h h' by simp
  next
    case False
    have mem: "data_at ?t x = (if x = off then sv else data_at t x)" for x by (simp add: appended_def)
    have notin: "off \<notin> set (cs (home t h'))" using fresh home_less [OF cnt] by blast
    have "find (\<lambda>x. data_at ?t x = sv') (cs (home t h')) = find (\<lambda>x. data_at t x = sv') (cs (home t h'))"
      using notin by (intro find_cong) (auto simp: mem)
    moreover have "find (\<lambda>x. data_at ?t x = sv') (?cs (home t h')) = find (\<lambda>x. data_at ?t x = sv') (cs (home t h'))"
      using False mem [of off] by (simp add: find_append split: option.splits)
    ultimately have "offset_of ?t (?cs (home t h')) sv' = offset_of t (cs (home t h')) sv'" by (simp add: offset_of_def)
    then show ?thesis using False f name_find_run [OF inv len(2) h'] by simp
  qed
qed

text \<open>
  The heap changes under the table when a block is allocated; the table only depends on the limit.
\<close>

definition same_names :: "'a names_scheme \<Rightarrow> 'a names_scheme \<Rightarrow> bool" where
  "same_names t t' \<longleftrightarrow>
     m_name_bucket_count t' = m_name_bucket_count t \<and> m_name_bucket_magic t' = m_name_bucket_magic t \<and>
     m_name_buckets t' = m_name_buckets t \<and> name_mem t' = name_mem t \<and> m_vm_limit t' = m_vm_limit t"

lemma same_names_inv: "same_names t t' \<Longrightarrow> names_inv t' cs = names_inv t cs"
  using name_chain_cong [of _ t' t] by (simp add: same_names_def names_inv_def home_def)

lemma same_names_links: "same_names t t' \<Longrightarrow> get_link t' = get_link t" "same_names t t' \<Longrightarrow> home t' = home t"
  "same_names t t' \<Longrightarrow> data_at t' = data_at t"
  by (auto simp: same_names_def fun_eq_iff get_link_def home_def split: link.splits)

lemma same_names_find:
  assumes "same_names t t'" "names_inv t cs" "length sv \<le> 65535"
  shows "name_find sv t' = name_find sv t"
proof -
  obtain h where h: "wyhash32_sv sv = Value h" using wyhash_inside by blast
  have "offset_of t' xs sv = offset_of t xs sv" for xs
    using assms(1) by (simp add: offset_of_def same_names_def)
  then show ?thesis
    using name_find_run [OF assms(2,3) h] name_find_run [OF _ assms(3) h, of t' cs] same_names_inv [OF assms(1)]
      same_names_links(2) [OF assms(1)] assms(2) by simp
qed

lemma same_names_appended: "same_names t t' \<Longrightarrow> get_link t l = get_link t' l"
  by (simp add: same_names_links)

text \<open>
  What \<open>add\<close> needs of the allocation: the block is inside the heap and not the block of an interned name. A
  local block lies above the heap pointer and below the global region; a global one is
  not the block of a live name, which is what the global allocator promises for every reachable block.
\<close>

definition names_placed :: "'a names_scheme \<Rightarrow> bool" where
  "names_placed t \<longleftrightarrow> (\<forall>sv off. length sv \<le> 65535 \<longrightarrow> name_find sv t = Value off \<longrightarrow> off < m_vm_ptr t \<or> is_global t off)"

definition global_fresh :: "(gvm \<Rightarrow> gvm outcome) \<Rightarrow> 'a names_scheme \<Rightarrow> nat \<Rightarrow> bool" where
  "global_fresh gc t bytes \<longleftrightarrow>
     (\<forall>off g. m_alloc_global t \<longrightarrow> gvm_alloc gc (gvm.truncate t) bytes ChunkKind_Name = Value (off, g) \<longrightarrow>
        m_vm_limit g = m_vm_limit t \<and> off \<noteq> nulloffset \<and> off < m_vm_limit t \<and>
        (\<forall>sv. length sv \<le> 65535 \<longrightarrow> name_find sv t \<noteq> Value off))"

lemma extend_names [simp]:
  fixes t :: "'a names_scheme"
  shows "name_mem (gvm.extend g (gvm.more t)) = name_mem t" "m_name_buckets (gvm.extend g (gvm.more t)) = m_name_buckets t"
    "m_name_bucket_count (gvm.extend g (gvm.more t)) = m_name_bucket_count t"
    "m_name_bucket_magic (gvm.extend g (gvm.more t)) = m_name_bucket_magic t"
    "m_name_global_mask (gvm.extend g (gvm.more t)) = m_name_global_mask t"
    "m_vm_limit (gvm.extend g (gvm.more t)) = m_vm_limit g" "m_vm_global (gvm.extend g (gvm.more t)) = m_vm_global g"
  by (cases t; simp add: gvm.extend_def)+

lemma lift_heap_same:
  assumes "lift_heap f t = (Value x, t')" "\<And>g. f (gvm.truncate t) = Value (x, g) \<Longrightarrow> m_vm_limit g = m_vm_limit t"
  shows "same_names t t'" "\<exists>g. f (gvm.truncate t) = Value (x, g) \<and> t' = gvm.extend g (gvm.more t)"
  using assms by (auto simp: lift_heap_def same_names_def split: outcome.splits)

lemma dispatch_fresh:
  assumes lay: "vm_layout t" "0 < m_vm_ptr t" and pl: "names_placed t" and gl: "global_fresh gc t bytes" and pos: "0 < bytes"
    and run: "vm_alloc_dispatch gc 4 bytes ChunkKind_Name t = (Value off, t1)"
  shows "same_names t t1" "off \<noteq> nulloffset" "off < m_vm_limit t" "length sv \<le> 65535 \<Longrightarrow> name_find sv t \<noteq> Value off"
proof -
  have "same_names t t1 \<and> off \<noteq> nulloffset \<and> off < m_vm_limit t \<and> (length sv \<le> 65535 \<longrightarrow> name_find sv t \<noteq> Value off)"
  proof (cases "m_alloc_global t")
    case True
    then show ?thesis
      using run gl lift_heap_same [of "\<lambda>g. gvm_alloc gc g bytes ChunkKind_Name" t off t1]
      unfolding vm_alloc_dispatch_def global_fresh_def by auto
  next
    case False
    have lim: "m_vm_limit g = m_vm_limit t" if "vm_alloc_ptr (gvm.truncate t) 4 bytes = Value (x, g)" for x g
      using that by (auto simp: vm_alloc_ptr_def gvm.defs Let_def split: if_splits)
    have r: "lift_heap (\<lambda>g. vm_alloc_ptr g 4 bytes) t = (Value off, t1)" using run False by (simp add: vm_alloc_dispatch_def)
    obtain g where g: "vm_alloc_ptr (gvm.truncate t) 4 bytes = Value (off, g)" using lift_heap_same(2) [OF r lim] by blast
    have off: "m_vm_ptr t \<le> off" "off + bytes \<le> m_vm_temp_ptr t"
      using g align_up_ge [of 4 "m_vm_ptr t"] by (auto simp: vm_alloc_ptr_def align_vm_ptr_def gvm.defs Let_def split: if_splits)
    moreover have "off < m_vm_global t" "off < m_vm_limit t" using off pos lay(1) by (auto simp: vm_layout_def)
    moreover have "name_find sv t \<noteq> Value off" if "length sv \<le> 65535"
      using pl that off(1) \<open>off < m_vm_global t\<close> by (fastforce simp: names_placed_def is_global_def)
    ultimately show ?thesis using lift_heap_same(1) [OF r lim] lay(2) by (auto simp: nulloffset_def)
  qed
  then show "same_names t t1" "off \<noteq> nulloffset" "off < m_vm_limit t" "length sv \<le> 65535 \<Longrightarrow> name_find sv t \<noteq> Value off" by auto
qed

lemma name_add_run:
  assumes inv: "names_inv t cs" and len: "length sv \<le> 65535" and h: "wyhash32_sv sv = Value h"
  shows "name_add gc sv t =
    (let off = offset_of t (cs (home t h)) sv
     in if off \<noteq> nulloffset then (Value off, t)
        else seq (vm_alloc_dispatch gc 4 (alloc_size (length sv)) ChunkKind_Name) (\<lambda>off.
          seq (modify (\<lambda>u. u\<lparr>name_mem := (name_mem u)(off := \<lparr>n_next = nulloffset, n_binding = nulloffset, n_hash = h, n_data = sv\<rparr>)\<rparr>)) (\<lambda>_.
          seq (modify (set_link (end_link (Bucket (home t h)) (cs (home t h))) off)) (\<lambda>_.
          seq (modify (\<lambda>u. if is_global u off then name_global_mask_set (home t h) (u\<lparr>m_has_global_names := True\<rparr>) else u)) (\<lambda>_.
          ret off)))) t)"
proof -
  obtain ys where ys: "name_lookup sv t = Value (h, home t h, end_link (Bucket (home t h)) ys)"
      "get_link t (end_link (Bucket (home t h)) ys) = offset_of t (cs (home t h)) sv"
      "offset_of t (cs (home t h)) sv = nulloffset \<longrightarrow> ys = cs (home t h)"
    using name_lookup_run [OF inv len] h by auto
  then show ?thesis using len by (simp add: name_add_def sv_length_def Let_def seq_def [of "\<lambda>t. (name_lookup sv t, t)"] seq_def [of "\<lambda>t. (Value (length sv), t)"])
qed

lemma same_names_mask: "same_names t (if c then name_global_mask_set b (t\<lparr>m_has_global_names := True\<rparr>) else t)"
  by (simp add: same_names_def name_global_mask_set_def)

lemma appended_same:
  assumes "same_names t t1"
  shows "same_names (appended t cs h sv off) (appended t1 cs h sv off)"
  using assms unfolding same_names_def appended_def by (auto simp: set_link_def home_def split: link.splits)

lemma same_names_trans: "same_names t u \<Longrightarrow> same_names u v \<Longrightarrow> same_names t v"
  by (simp add: same_names_def)

text \<open>
  C34. Interning a string is an insertion into a map from strings to offsets. A string that is in the table
  keeps its offset and nothing changes. For a new one the outcome is that of the allocation; when it
  succeeds the string is found at the new offset, every other string is found where it was, and no
  other string is found at that offset, so offsets are equal exactly when the strings are. The walk
  always returns.
\<close>

theorem name_add_interns:
  assumes ok: "names_ok t" and len: "length sv \<le> 65535" and lay: "vm_layout t" "0 < m_vm_ptr t"
    and pl: "names_placed t" and gl: "global_fresh gc t (alloc_size (length sv))"
  shows "\<exists>known. name_find sv t = Value known \<and>
    (known \<noteq> nulloffset \<longrightarrow> name_add gc sv t = (Value known, t)) \<and>
    (known = nulloffset \<longrightarrow>
       fst (name_add gc sv t) = fst (vm_alloc_dispatch gc 4 (alloc_size (length sv)) ChunkKind_Name t) \<and>
       (\<forall>off t'. name_add gc sv t = (Value off, t') \<longrightarrow> names_ok t' \<and> off \<noteq> nulloffset \<and>
          (\<forall>sv'. length sv' \<le> 65535 \<longrightarrow>
             name_find sv' t' = (if sv' = sv then Value off else name_find sv' t) \<and> (name_find sv' t' = Value off \<longrightarrow> sv' = sv))))"
proof -
  obtain cs where inv: "names_inv t cs" using ok by (auto simp: names_ok_def)
  obtain h where h: "wyhash32_sv sv = Value h" using wyhash_inside by blast
  note run = name_add_run [OF inv len h, of gc] and find = name_find_run [OF inv len h]
  let ?known = "offset_of t (cs (home t h)) sv"
  show ?thesis
  proof (intro exI [of _ ?known] conjI impI allI)
    show "name_find sv t = Value ?known" by (rule find)
    show "name_add gc sv t = (Value ?known, t)" if "?known \<noteq> nulloffset" using run that by simp
    let ?alloc = "vm_alloc_dispatch gc 4 (alloc_size (length sv)) ChunkKind_Name t"
    show "fst (name_add gc sv t) = fst ?alloc" if "?known = nulloffset"
      using that unfolding run by (cases ?alloc; cases "fst ?alloc") (simp_all add: seq_def)
    fix off t'
    assume new: "?known = nulloffset" and res: "name_add gc sv t = (Value off, t')"
    obtain t1 where al: "?alloc = (Value off, t1)"
      using res new unfolding run by (cases ?alloc; cases "fst ?alloc") (simp_all add: seq_def)
    have pos: "0 < alloc_size (length sv)" by (simp add: alloc_size_def)
    note fr = dispatch_fresh [OF lay pl gl pos al]
    have notin: "off \<notin> set (cs b)" if b: "b < unat (m_name_bucket_count t)" for b
    proof
      assume off: "off \<in> set (cs b)"
      have "name_find (data_at t off) t = Value (offset_of t (cs b) (data_at t off))"
        using name_find_run [OF inv names_invD(6,4) [OF inv b off]] names_invD(5) [OF inv b off] by simp
      also have "offset_of t (cs b) (data_at t off) = off" by (rule offset_of_in [OF names_invD(3) [OF inv b] off refl])
      finally show False using fr(4) names_invD(6) [OF inv b off] by blast
    qed
    have inv2: "names_inv (appended t cs h sv off) (cs(home t h := cs (home t h) @ [off]))"
      by (rule appended_inv [OF inv h len new fr(2,3) notin])
    have app: "appended t1 cs h sv off = set_link (end_link (Bucket (home t h)) (cs (home t h))) off
        (t1\<lparr>name_mem := (name_mem t1)(off := \<lparr>n_next = nulloffset, n_binding = nulloffset, n_hash = h, n_data = sv\<rparr>)\<rparr>)"
      by (simp add: appended_def same_names_links(2) [OF fr(1)])
    have "(\<lambda>u. if is_global u off then name_global_mask_set (home t h) (u\<lparr>m_has_global_names := True\<rparr>) else u)
        (appended t1 cs h sv off) = t'"
      using res new al unfolding run app by (simp split del: if_split)
    then have same: "same_names (appended t cs h sv off) t'"
      using same_names_trans [OF appended_same [OF fr(1)] same_names_mask] by blast
    then show "names_ok t'" using same_names_inv inv2 unfolding names_ok_def by blast
    show "off \<noteq> nulloffset" by (rule fr(2))
    show find': "name_find sv' t' = (if sv' = sv then Value off else name_find sv' t)" if "length sv' \<le> 65535" for sv'
      using offset_of_appended [OF inv h len that inv2 notin] same_names_find [OF same inv2 that] by simp
    show "sv' = sv" if "length sv' \<le> 65535" "name_find sv' t' = Value off" for sv'
      using find' [OF that(1)] that fr(4) [of sv'] by (simp split: if_splits)
  qed
qed

text \<open>A table of 131 buckets in a small heap.\<close>

definition names_example :: names where
  "names_example =
     names_init 131
      \<lparr>m_vm_ptr = 512, m_vm_temp_ptr = 1024, m_vm_global = 1024, m_vm_limit = 1024, m_vm_alloc_active = None,
       headers = (\<lambda>_. \<lparr>m_size = 0, m_kind = 0, m_mark_gen = 0, m_obj_count = 0, m_next_in_work = 0, m_magic = 0\<rparr>),
       tails = (\<lambda>_. 0), flinks = (\<lambda>_. \<lparr>prev_free = 0, next_free = 0\<rparr>), m_gvm_free_head = 0,
       m_gvm_fastbins = (\<lambda>_. 0), m_gvm_free_block_count = 0, m_gvm_user_block_count = 0,
       m_gc_scratch_offset = 0, m_gc_current_gen = 1, m_in_gc = False, m_gc_work_head = 0,
       m_gc_marked_count = 0, m_gc_run_count = 0, m_gc_last_reclaimed_bytes = 0,
       m_alloc_global = False, name_mem = (\<lambda>_. \<lparr>n_next = 0, n_binding = 0, n_hash = 0, n_data = []\<rparr>),
       m_name_buckets = [], m_name_bucket_count = 0, m_name_bucket_magic = 0, m_has_global_names = False,
       m_name_global_mask = []\<rparr>"

lemma names_init_inv: "count \<noteq> 0 \<Longrightarrow> names_inv (names_init count t) (\<lambda>_. [])"
  by (simp add: names_inv_def names_init_def Let_def nulloffset_def)

lemma names_example_fields:
  "m_vm_ptr names_example = 512" "m_vm_temp_ptr names_example = 1024" "m_vm_global names_example = 1024"
  "m_vm_limit names_example = 1024" "m_vm_alloc_active names_example = None" "m_alloc_global names_example = False"
  by (simp_all add: names_example_def names_init_def Let_def)

lemma names_example_ok: "names_inv names_example (\<lambda>_. [])" "names_placed names_example" "global_fresh gc names_example n"
proof -
  show inv: "names_inv names_example (\<lambda>_. [])" by (simp add: names_example_def names_init_inv)
  have "name_find sv names_example = Value 0" if len: "length sv \<le> 65535" for sv
  proof -
    obtain h where "wyhash32_sv sv = Value h" using wyhash_inside by blast
    then show ?thesis using name_find_run [OF inv len] by (simp add: offset_of_def nulloffset_def)
  qed
  then show "names_placed names_example" by (simp add: names_placed_def names_example_fields)
  show "global_fresh gc names_example n" by (simp add: global_fresh_def names_example_fields)
qed

theorem name_add_interns_witness:
  "\<exists>off t'. name_add (\<lambda>g. Value g) [100, 117, 112] names_example = (Value off, t') \<and> name_find [100, 117, 112] t' = Value off \<and>
     off \<noteq> nulloffset \<and> names_ok t'"
proof -
  let ?sv = "[100, 117, 112] :: u8 list" and ?gc = "\<lambda>g. Value g"
  obtain h where h: "wyhash32_sv ?sv = Value h" using wyhash_inside by blast
  have none: "name_find ?sv names_example = Value nulloffset"
    using name_find_run [OF names_example_ok(1) _ h] by (simp add: offset_of_def)
  have al: "\<exists>x. fst (vm_alloc_dispatch ?gc 4 (alloc_size (length ?sv)) ChunkKind_Name names_example) = Value x"
    by (simp add: vm_alloc_dispatch_def lift_heap_def vm_alloc_ptr_def align_vm_ptr_def align_up_def alloc_size_def
        gvm.truncate_def names_example_fields)
  have ok: "names_ok names_example" using names_example_ok(1) by (auto simp: names_ok_def)
  have lay: "vm_layout names_example" "0 < m_vm_ptr names_example" by (simp_all add: vm_layout_def names_example_fields)
  obtain r t' where run: "name_add ?gc ?sv names_example = (r, t')" by fastforce
  note add = name_add_interns [OF ok _ lay names_example_ok(2,3), of ?sv ?gc]
  obtain off where "r = Value off" using add run none al by auto
  then have off: "name_add ?gc ?sv names_example = (Value off, t')" using run by simp
  moreover have "names_ok t' \<and> off \<noteq> nulloffset \<and> name_find ?sv t' = Value off" using add none off by simp
  ultimately show ?thesis by blast
qed

section \<open>Restoring\<close>

lemma restore_chain_run:
  assumes "name_chain t (get_link t l) xs" "distinct xs" "\<And>y. l = After y \<Longrightarrow> y \<notin> set xs"
    "\<And>b. l = Bucket b \<Longrightarrow> b < length (m_name_buckets t)"
  shows "\<exists>t' nm bs. restore_chain barrier l t = Some (Value (), t') \<and> t' = t\<lparr>name_mem := nm, m_name_buckets := bs\<rparr> \<and>
    length bs = length (m_name_buckets t) \<and>
    name_chain t' (get_link t' l) (filter (\<lambda>x. is_global t x \<or> x < barrier) xs) \<and>
    (\<forall>y. n_data (nm y) = data_at t y \<and> n_hash (nm y) = n_hash (name_mem t y)) \<and>
    (\<forall>y. y \<notin> set xs \<longrightarrow> l \<noteq> After y \<longrightarrow> nm y = name_mem t y) \<and>
    (\<forall>b<length bs. l \<noteq> Bucket b \<longrightarrow> bs ! b = m_name_buckets t ! b)"
  using assms
proof (induction xs arbitrary: l t)
  case Nil
  then show ?case
    by (intro exI [of _ t] exI [of _ "name_mem t"] exI [of _ "m_name_buckets t"]) (simp add: restore_chain.simps)
next
  case (Cons x xs)
  have x: "get_link t l = x" "x \<noteq> nulloffset" "x < m_vm_limit t" "name_chain t (n_next (name_mem t x)) xs"
    using Cons.prems(1) by auto
  show ?case
  proof (cases "is_global t x \<or> x < barrier")
    case True
    have step: "restore_chain barrier l t = restore_chain barrier (After x) t"
      using x True by (auto simp: restore_chain.simps [of barrier l t] offset_to_ptr_def)
    obtain nm bs where ih: "restore_chain barrier (After x) t = Some (Value (), t\<lparr>name_mem := nm, m_name_buckets := bs\<rparr>)"
        "length bs = length (m_name_buckets t)"
        "name_chain (t\<lparr>name_mem := nm, m_name_buckets := bs\<rparr>) (n_next (nm x)) (filter (\<lambda>x. is_global t x \<or> x < barrier) xs)"
        "\<forall>y. n_data (nm y) = data_at t y \<and> n_hash (nm y) = n_hash (name_mem t y)"
        "\<forall>y. y \<notin> set xs \<longrightarrow> After x \<noteq> After y \<longrightarrow> nm y = name_mem t y" "\<forall>b<length bs. bs ! b = m_name_buckets t ! b"
      using Cons.IH [of t "After x"] Cons.prems(2) x(4) by (auto simp: get_link_def)
    have "get_link (t\<lparr>name_mem := nm, m_name_buckets := bs\<rparr>) l = x"
      using x(1) ih(2,5,6) Cons.prems(3,4) by (cases l) (auto simp: get_link_def)
    then show ?thesis using step ih True x by (intro exI [of _ "t\<lparr>name_mem := nm, m_name_buckets := bs\<rparr>"] exI [of _ nm] exI [of _ bs]) auto
  next
    case False
    let ?u = "set_link l (n_next (name_mem t x)) t"
    have step: "restore_chain barrier l t = restore_chain barrier l ?u"
      using x False by (auto simp: restore_chain.simps [of barrier l t] offset_to_ptr_def)
    have lk: "get_link ?u l = n_next (name_mem t x)"
      using Cons.prems(4) by (cases l) (auto simp: get_link_def set_link_next set_link_bucket)
    have "name_chain ?u off xs = name_chain t off xs" for off
      using Cons.prems(3) by (intro name_chain_cong) (auto simp: set_link_next)
    then have "name_chain ?u (get_link ?u l) xs" using x(4) by (simp add: lk)
    then obtain nm bs where ih: "restore_chain barrier l ?u = Some (Value (), ?u\<lparr>name_mem := nm, m_name_buckets := bs\<rparr>)"
        "length bs = length (m_name_buckets ?u)"
        "name_chain (?u\<lparr>name_mem := nm, m_name_buckets := bs\<rparr>) (get_link (?u\<lparr>name_mem := nm, m_name_buckets := bs\<rparr>) l)
           (filter (\<lambda>x. is_global ?u x \<or> x < barrier) xs)"
        "\<forall>y. n_data (nm y) = data_at ?u y \<and> n_hash (nm y) = n_hash (name_mem ?u y)"
        "\<forall>y. y \<notin> set xs \<longrightarrow> l \<noteq> After y \<longrightarrow> nm y = name_mem ?u y"
        "\<forall>b<length bs. l \<noteq> Bucket b \<longrightarrow> bs ! b = m_name_buckets ?u ! b"
      using Cons.IH [of ?u l] Cons.prems(2-4) by auto
    have up: "?u\<lparr>name_mem := nm, m_name_buckets := bs\<rparr> = t\<lparr>name_mem := nm, m_name_buckets := bs\<rparr>"
      by (cases l) (simp_all add: set_link_def)
    have gl: "is_global ?u = is_global t" by (simp add: fun_eq_iff is_global_def)
    have "name_mem ?u y = name_mem t y" if "l \<noteq> After y" for y using that by (cases l) (auto simp: set_link_def)
    moreover have "m_name_buckets ?u ! b = m_name_buckets t ! b" if "l \<noteq> Bucket b" "b < length bs" for b
      using that ih(2) set_link_bucket [of b t l] by simp
    ultimately show ?thesis using step ih False unfolding up gl
      by (intro exI [of _ "t\<lparr>name_mem := nm, m_name_buckets := bs\<rparr>"] exI [of _ nm] exI [of _ bs]) auto
  qed
qed

lemma offset_of_filter:
  assumes "inj_on (data_at t) (set xs)" "nulloffset \<notin> set xs"
  shows "offset_of t (filter P xs) sv = (if offset_of t xs sv \<noteq> nulloffset \<and> \<not> P (offset_of t xs sv) then nulloffset else offset_of t xs sv)"
proof (cases "sv \<in> data_at t ` set xs")
  case False
  then have "sv \<notin> data_at t ` set (filter P xs)" by auto
  then show ?thesis using False offset_of_none [of xs t sv] offset_of_none [of "filter P xs" t sv] assms(2) by simp
next
  case True
  then obtain x where x: "x \<in> set xs" "data_at t x = sv" by auto
  have ox: "offset_of t xs sv = x" by (rule offset_of_in [OF assms(1) x])
  have inj: "inj_on (data_at t) (set (filter P xs))" using assms(1) by (rule inj_on_subset) auto
  show ?thesis
  proof (cases "P x")
    case True
    then show ?thesis using ox offset_of_in [OF inj, of x sv] x by simp
  next
    case False
    then have "sv \<notin> data_at t ` set (filter P xs)" using assms(1) x by (auto simp: inj_on_def)
    then show ?thesis using False ox offset_of_none [of "filter P xs" t sv] assms(2) x by auto
  qed
qed

lemma for_each_append: "for_each (xs @ ys) f = seq (for_each xs f) (\<lambda>_. for_each ys f)"
proof (induction xs)
  case (Cons x xs)
  then show ?case by (auto simp: fun_eq_iff seq_def split: prod.splits outcome.splits)
qed (simp add: fun_eq_iff seq_def)

text \<open>After the first \<open>n\<close> buckets.\<close>

definition restored_upto :: "nat \<Rightarrow> nat \<Rightarrow> 'a names_scheme \<Rightarrow> (nat \<Rightarrow> nat list) \<Rightarrow> nat \<Rightarrow> nat list" where
  "restored_upto n barrier t cs b = (if b < n then filter (\<lambda>x. is_global t x \<or> x < barrier) (cs b) else cs b)"

definition table_only :: "'a names_scheme \<Rightarrow> 'a names_scheme \<Rightarrow> bool" where
  "table_only t t' \<longleftrightarrow> (\<exists>nm bs. t' = t\<lparr>name_mem := nm, m_name_buckets := bs\<rparr> \<and> (\<forall>y. n_data (nm y) = data_at t y))"

lemma table_onlyD:
  "table_only t t' \<Longrightarrow> m_name_bucket_count t' = m_name_bucket_count t" "table_only t t' \<Longrightarrow> is_global t' = is_global t"
  "table_only t t' \<Longrightarrow> data_at t' = data_at t" "table_only t t' \<Longrightarrow> m_vm_limit t' = m_vm_limit t"
  by (auto simp: table_only_def is_global_def fun_eq_iff)

lemma restore_bucket:
  assumes inv: "names_inv t cs" and n: "n < unat (m_name_bucket_count t)"
  shows "\<exists>t'. from_loop (restore_chain barrier (Bucket n)) t = (Value (), t') \<and> table_only t t' \<and>
    names_inv t' (cs(n := filter (\<lambda>x. is_global t x \<or> x < barrier) (cs n)))"
proof -
  let ?keep = "\<lambda>x. is_global t x \<or> x < barrier"
  have len: "length (m_name_buckets t) = unat (m_name_bucket_count t)" using inv by (simp add: names_inv_def)
  obtain nm bs where r: "restore_chain barrier (Bucket n) t = Some (Value (), t\<lparr>name_mem := nm, m_name_buckets := bs\<rparr>)"
      "length bs = length (m_name_buckets t)"
      "name_chain (t\<lparr>name_mem := nm, m_name_buckets := bs\<rparr>) (bs ! n) (filter ?keep (cs n))"
      "\<forall>y. n_data (nm y) = data_at t y \<and> n_hash (nm y) = n_hash (name_mem t y)"
      "\<forall>y. y \<notin> set (cs n) \<longrightarrow> nm y = name_mem t y" "\<forall>b<length bs. n \<noteq> b \<longrightarrow> bs ! b = m_name_buckets t ! b"
    using restore_chain_run [of t "Bucket n" "cs n" barrier] names_invD(1,2) [OF inv n] n len by (auto simp: get_link_def)
  let ?t = "t\<lparr>name_mem := nm, m_name_buckets := bs\<rparr>" and ?cs = "cs(n := filter ?keep (cs n))"
  have data: "data_at ?t = data_at t" "home ?t = home t" using r(4) by (simp_all add: fun_eq_iff home_def)
  have chain: "name_chain ?t (bs ! b) (?cs b)" if b: "b < unat (m_name_bucket_count t)" for b
  proof (cases "b = n")
    case False
    have "name_chain ?t (bs ! b) (cs b) = name_chain t (bs ! b) (cs b)"
      using r(5) names_inv_disjoint [OF inv b n False] by (intro name_chain_cong) auto
    then show ?thesis using False names_invD(1) [OF inv b] r(2,6) b len by simp
  qed (use r(3) in simp)
  have sub: "set (?cs b) \<subseteq> set (cs b)" for b by auto
  have dist: "distinct (?cs b)" if "b < unat (m_name_bucket_count t)" for b
    using names_invD(2) [OF inv that] names_invD(2) [OF inv n] by simp
  have "names_inv ?t ?cs"
    using inv chain dist sub r(2,4) unfolding names_inv_def data by (auto simp: home_def intro: inj_on_subset)
  moreover have "table_only t ?t" using r(4) unfolding table_only_def by blast
  ultimately show ?thesis using r(1) by (intro exI [of _ ?t]) (simp add: from_loop_def)
qed

lemma restore_buckets:
  assumes "names_inv t cs" "n \<le> unat (m_name_bucket_count t)"
  shows "\<exists>t'. for_each [0..<n] (\<lambda>i. from_loop (restore_chain barrier (Bucket i))) t = (Value (), t') \<and>
    names_inv t' (restored_upto n barrier t cs) \<and> table_only t t'"
  using assms(2)
proof (induction n)
  case 0
  have "restored_upto 0 barrier t cs = cs" by (simp add: fun_eq_iff restored_upto_def)
  moreover have "table_only t t"
    unfolding table_only_def by (intro exI [of _ "name_mem t"] exI [of _ "m_name_buckets t"]) simp
  ultimately show ?case using assms(1) by simp
next
  case (Suc n)
  then obtain u where u: "for_each [0..<n] (\<lambda>i. from_loop (restore_chain barrier (Bucket i))) t = (Value (), u)"
      "names_inv u (restored_upto n barrier t cs)" "table_only t u" by auto
  then obtain t' where t': "from_loop (restore_chain barrier (Bucket n)) u = (Value (), t')" "table_only u t'"
      "names_inv t' ((restored_upto n barrier t cs)(n := filter (\<lambda>x. is_global t x \<or> x < barrier) (cs n)))"
    using restore_bucket [OF u(2), of n barrier] Suc.prems table_onlyD(1,2) [OF u(3)] by (auto simp: restored_upto_def)
  have "(restored_upto n barrier t cs)(n := filter (\<lambda>x. is_global t x \<or> x < barrier) (cs n)) = restored_upto (Suc n) barrier t cs"
    by (auto simp: fun_eq_iff restored_upto_def)
  moreover have "table_only t t'" using u(3) t'(2) by (fastforce simp: table_only_def)
  ultimately show ?case using u(1) t' by (simp add: for_each_append)
qed

text \<open>A table of one bucket with the chain 300, 600, 900, where 900 is in the global region.\<close>

definition hash_of :: "u8 list \<Rightarrow> u32" where
  "hash_of sv = (case wyhash32_sv sv of Value h \<Rightarrow> h | _ \<Rightarrow> 0)"

definition name_cell :: "nat \<Rightarrow> u8 list \<Rightarrow> name" where
  "name_cell next sv = \<lparr>n_next = next, n_binding = 0, n_hash = hash_of sv, n_data = sv\<rparr>"

definition three_names :: names where
  "three_names = names_example
     \<lparr>m_vm_ptr := 700, m_vm_temp_ptr := 800, m_vm_global := 800, m_name_buckets := [300], m_name_bucket_count := 1,
      m_name_bucket_magic := fastmod_magic_u32 1,
      name_mem := (name_mem names_example)(300 := name_cell 600 [112, 111, 112], 600 := name_cell 900 [100, 117, 112],
        900 := name_cell 0 [97, 100, 100])\<rparr>"

lemma wyhash_hash_of: "wyhash32_sv sv = Value (hash_of sv)"
  using wyhash_inside [of sv] by (auto simp: hash_of_def)

lemma three_names_inv: "names_inv three_names (\<lambda>_. [300, 600, 900])"
  by (simp add: names_inv_def three_names_def names_example_fields name_cell_def nulloffset_def wyhash_hash_of home_def unat_mod)

lemma three_names_find:
  "name_find [112, 111, 112] three_names = Value 300" "name_find [100, 117, 112] three_names = Value 600"
  "name_find [97, 100, 100] three_names = Value 900"
  using name_find_run [OF three_names_inv _ wyhash_hash_of]
  by (simp_all add: offset_of_def three_names_def name_cell_def)

text \<open>
  C35. Restoring a save level removes exactly the names it allocated, and always returns. Whatever
  the chains of the table are, the chain of every bucket afterwards is the old chain without the
  local names at or above the barrier, in the old order; no name changes its bytes; and a string
  whose name was removed is no longer found while every other string, global names included, is
  found where it was.
\<close>

theorem name_restore_exact:
  assumes "names_inv t cs"
  shows "\<exists>t'. name_restore barrier t = (Value (), t') \<and>
    names_inv t' (\<lambda>b. filter (\<lambda>off. is_global t off \<or> off < barrier) (cs b)) \<and>
    (\<forall>off. n_data (name_mem t' off) = n_data (name_mem t off)) \<and>
    (\<forall>sv. length sv \<le> 65535 \<longrightarrow> (\<exists>off. name_find sv t = Value off \<and>
       name_find sv t' = Value (if \<not> is_global t off \<and> off \<ge> barrier then nulloffset else off)))"
proof -
  let ?n = "unat (m_name_bucket_count t)" and ?keep = "\<lambda>x. is_global t x \<or> x < barrier"
  obtain t' where t': "name_restore barrier t = (Value (), t')" "names_inv t' (restored_upto ?n barrier t cs)" "table_only t t'"
    using restore_buckets [OF assms le_refl, of barrier] by (auto simp: name_restore_def)
  have inv': "names_inv t' (\<lambda>b. filter ?keep (cs b))"
    using t'(2) table_onlyD(1) [OF t'(3)] unfolding names_inv_def by (simp add: restored_upto_def)
  have "\<exists>off. name_find sv t = Value off \<and> name_find sv t' = Value (if \<not> is_global t off \<and> off \<ge> barrier then nulloffset else off)"
    if len: "length sv \<le> 65535" for sv
  proof -
    obtain h where h: "wyhash32_sv sv = Value h" using wyhash_inside by blast
    let ?xs = "cs (home t h)"
    have b: "home t h < ?n" using assms by (intro home_less) (simp add: names_inv_def)
    have home: "home t' h = home t h" by (simp add: home_def table_onlyD(1) [OF t'(3)])
    have f: "name_find sv t = Value (offset_of t ?xs sv)" "name_find sv t' = Value (offset_of t (filter ?keep ?xs) sv)"
      using name_find_run [OF assms len h] name_find_run [OF inv' len h] home table_onlyD(3) [OF t'(3)]
      by (simp_all add: offset_of_def fun_eq_iff)
    have "offset_of t (filter ?keep ?xs) sv =
        (if \<not> is_global t (offset_of t ?xs sv) \<and> offset_of t ?xs sv \<ge> barrier then nulloffset else offset_of t ?xs sv)"
      using offset_of_filter [OF names_invD(3) [OF assms b] chain_null [OF assms b]] by auto
    then show ?thesis using f by auto
  qed
  moreover have "n_data (name_mem t' off) = n_data (name_mem t off)" for off
    using table_onlyD(3) [OF t'(3)] by (simp add: fun_eq_iff)
  ultimately show ?thesis using t'(1) inv' by blast
qed

theorem name_restore_exact_witness:
  "\<exists>t'. name_restore 512 three_names = (Value (), t') \<and> names_inv t' (\<lambda>_. [300, 900]) \<and>
     name_find [112, 111, 112] t' = Value 300 \<and> name_find [100, 117, 112] t' = Value nulloffset \<and>
     name_find [97, 100, 100] t' = Value 900"
proof -
  have g: "is_global three_names off \<longleftrightarrow> 800 \<le> off" for off by (simp add: is_global_def three_names_def)
  obtain t' where t': "name_restore 512 three_names = (Value (), t')"
      "names_inv t' (\<lambda>b. filter (\<lambda>off. is_global three_names off \<or> off < 512) [300, 600, 900])"
      "\<forall>sv. length sv \<le> 65535 \<longrightarrow> (\<exists>off. name_find sv three_names = Value off \<and>
         name_find sv t' = Value (if \<not> is_global three_names off \<and> off \<ge> 512 then nulloffset else off))"
    using name_restore_exact [OF three_names_inv, of 512] by blast
  have find: "name_find sv t' = Value (if \<not> 800 \<le> off \<and> off \<ge> 512 then nulloffset else off)"
    if "name_find sv three_names = Value off" "length sv \<le> 65535" for sv off
    using t'(3) that by (auto simp: g)
  show ?thesis
    using t'(1,2) find [OF three_names_find(1)] find [OF three_names_find(2)] find [OF three_names_find(3)] by (simp add: g)
qed

end
