(* ===== verification/Store.thy ===== *)
theory Store
  imports Vm_Heap
begin

text \<open>
  The bytes of the heap: reading and writing them in blocks and as little-endian 32-bit words.
\<close>

type_synonym memory = "nat \<Rightarrow> u8"

definition read_bytes :: "memory \<Rightarrow> nat \<Rightarrow> nat \<Rightarrow> u8 list" where
  "read_bytes m off n = map m [off..<off + n]"

definition write_bytes :: "memory \<Rightarrow> nat \<Rightarrow> u8 list \<Rightarrow> memory" where
  "write_bytes m off bs = (\<lambda>i. if off \<le> i \<and> i < off + length bs then bs ! (i - off) else m i)"

definition le_bytes :: "nat \<Rightarrow> nat \<Rightarrow> u8 list" where
  "le_bytes n v = map (\<lambda>i. word_of_nat (v div 256 ^ i)) [0..<n]"

definition le_nat :: "u8 list \<Rightarrow> nat" where
  "le_nat bs = foldr (\<lambda>b acc. unat b + 256 * acc) bs 0"

definition read_nat :: "memory \<Rightarrow> nat \<Rightarrow> nat \<Rightarrow> nat" where
  "read_nat m off n = le_nat (read_bytes m off n)"

definition write_nat :: "memory \<Rightarrow> nat \<Rightarrow> nat \<Rightarrow> nat \<Rightarrow> memory" where
  "write_nat m off n v = write_bytes m off (le_bytes n v)"

definition span :: "nat \<Rightarrow> nat \<Rightarrow> nat set" where
  "span off n = {off..<off + n}"

lemma length_read_bytes [simp]: "length (read_bytes m off n) = n"
  by (simp add: read_bytes_def)

lemma length_le_bytes [simp]: "length (le_bytes n v) = n"
  by (simp add: le_bytes_def)

lemma write_bytes_in: "i < length bs \<Longrightarrow> write_bytes m off bs (off + i) = bs ! i"
  by (simp add: write_bytes_def)

lemma write_bytes_out: "i \<notin> span off (length bs) \<Longrightarrow> write_bytes m off bs i = m i"
  by (auto simp: write_bytes_def span_def)

lemma read_bytes_cong: "(\<And>i. i \<in> span off n \<Longrightarrow> m i = m' i) \<Longrightarrow> read_bytes m off n = read_bytes m' off n"
  by (simp add: read_bytes_def span_def)

lemma read_nat_cong: "(\<And>i. i \<in> span off n \<Longrightarrow> m i = m' i) \<Longrightarrow> read_nat m off n = read_nat m' off n"
  by (simp add: read_nat_def cong: read_bytes_cong)

lemma read_write_bytes [simp]: "read_bytes (write_bytes m off bs) off (length bs) = bs"
  by (rule nth_equalityI) (auto simp: read_bytes_def write_bytes_def)

lemma write_read_bytes: "i \<in> span off n \<Longrightarrow> write_bytes m off (read_bytes m' off n) i = m' i"
  by (auto simp: write_bytes_def read_bytes_def span_def)

lemma le_nat_bytes: "le_nat (le_bytes n v) = v mod 256 ^ n"
proof (induction n arbitrary: v)
  case 0
  then show ?case by (simp add: le_nat_def le_bytes_def)
next
  case (Suc n)
  have "le_bytes (Suc n) v = word_of_nat v # le_bytes n (v div 256)"
    unfolding le_bytes_def by (simp add: upt_conv_Cons map_Suc_upt [symmetric] div_mult2_eq del: upt_Suc)
  moreover have "le_nat (b # bs) = unat b + 256 * le_nat bs" for b bs by (simp add: le_nat_def)
  ultimately have "le_nat (le_bytes (Suc n) v) = v mod 256 + 256 * (v div 256 mod 256 ^ n)"
    using Suc.IH [of "v div 256"] by (simp add: unat_of_nat)
  then show ?case by (simp add: mod_mult2_eq)
qed

lemma le_nat_less: "le_nat bs < 256 ^ length bs"
proof (induction bs)
  case (Cons b bs)
  have "unat b < 256" using unsigned_less [of b, where 'a = nat] by simp
  then show ?case using Cons by (simp add: le_nat_def)
qed (simp add: le_nat_def)

lemma le_bytes_nat: "le_bytes (length bs) (le_nat bs) = bs"
proof (induction bs)
  case (Cons b bs)
  have b: "unat b < 256" using unsigned_less [of b, where 'a = nat] by simp
  have "le_bytes (Suc (length bs)) v = word_of_nat v # le_bytes (length bs) (v div 256)" for v
    unfolding le_bytes_def by (simp add: upt_conv_Cons map_Suc_upt [symmetric] div_mult2_eq del: upt_Suc)
  moreover have "(word_of_nat (256 * le_nat bs) :: u8) = 0" by (simp add: word_of_nat_eq_0_iff del: of_nat_mult)
  ultimately show ?case using Cons b by (simp add: le_nat_def [of "b # bs"] flip: le_nat_def)
qed (simp add: le_bytes_def)

lemma read_write_nat: "v < 256 ^ n \<Longrightarrow> read_nat (write_nat m off n v) off n = v"
  using read_write_bytes [of m off "le_bytes n v"] by (simp add: read_nat_def write_nat_def le_nat_bytes)

lemma write_nat_out: "i \<notin> span off n \<Longrightarrow> write_nat m off n v i = m i"
  by (simp add: write_nat_def write_bytes_out)

end
