(* ===== verification/Save.thy ===== *)
theory Save
  imports Names Cells Store
begin

text \<open>
  Save and restore (\<^verbatim>\<open>src/save.inl\<close>, with the relocation of cells of \<^verbatim>\<open>src/object.inl\<close> and
  \<^verbatim>\<open>src/ops_coroutine.inl\<close>): save levels and their tokens, the journal of overwritten bytes, and the
  restoration of a level. The memory is the bytes of the heap; journal entries, dictionary headers and
  the cells of wide numbers are read from and written to it at the offsets of their C++ layout, so two
  structures at overlapping offsets share their bytes. The stacks are lists of objects, top first.

  The machine runs a single coroutine. Closing streams, emptying the scratch dictionary and set, and
  resetting the three error stacks are arguments.
\<close>

section \<open>State\<close>

record save_machine = names +
  mem :: memory
  m_extvalue_free_list :: "nat \<Rightarrow> nat"
  m_extvalue_active_count :: int
  m_widevalue_free_list :: "nat \<Rightarrow> nat"
  m_widevalue_active_count :: int
  m_curr_save_level :: nat
  m_max_save_level :: nat
  m_save_stack :: "nat \<Rightarrow> nat"
  m_save_generation :: "nat \<Rightarrow> u32"
  m_vm_temp_save :: "nat \<Rightarrow> nat"
  m_extvalue_active_save :: "nat \<Rightarrow> int"
  m_widevalue_active_save :: "nat \<Rightarrow> int"
  m_save_journal_count :: "nat \<Rightarrow> nat"
  m_save_journal_bytes :: "nat \<Rightarrow> nat"
  op_stack :: "object list"
  exec_stack :: "object list"
  dict_stack :: "object list"
  err_stack :: "object list"
  op_slots :: nat
  m_dict_pool :: "nat \<Rightarrow> nat"
  m_frame_dict_pool :: "nat \<Rightarrow> nat"
  m_frame_dict_overflow :: nat
  m_frame_dict_pool_evictions :: nat

record restore_services =
  svc_stream_restore :: "(save_machine, unit) action"
  svc_quiet_flush :: "(save_machine, unit) action"
  svc_reset_error_stacks :: "(save_machine, unit) action"

abbreviation (input) BASE :: nat where "BASE \<equiv> 0"

definition MaxDictPoolSize :: nat where "MaxDictPoolSize = 16"
definition MaxSaveJournalChainLength :: nat where "MaxSaveJournalChainLength = 100000"
definition SaveTokenLevelBits :: nat where "SaveTokenLevelBits = 8"
definition SaveTokenLevelMask :: u32 where "SaveTokenLevelMask = push_bit SaveTokenLevelBits 1 - 1"
definition SaveGenerationBits :: nat where "SaveGenerationBits = 23"
definition SaveGenerationMask :: u32 where "SaveGenerationMask = push_bit SaveGenerationBits 1 - 1"

section \<open>Objects and cells in memory\<close>

definition decode_object :: "u8 list \<Rightarrow> object" where
  "decode_object bs =
     (let aat = bs ! 0; value = le_nat (drop 4 bs)
      in \<lparr>o_type = all_types ! unat (aat AND 0x1F), o_executable = bit aat 7, o_readwrite = bit aat 6, o_special = bit aat 5,
          m_object_save_level = unat (bs ! 1), m_extvalue_save_level = unat (bs ! 2),
          m_length = le_nat [bs ! 2, bs ! 3],
          m_immediate = (if value < 2 ^ 31 then int value else int value - 2 ^ 32), m_offset = value\<rparr>)"

definition object_at :: "memory \<Rightarrow> nat \<Rightarrow> object" where
  "object_at m off = decode_object (read_bytes m off 8)"

definition cell_class_of :: "bool \<Rightarrow> cell_class" where
  "cell_class_of wide = (if wide then wide_class else ext_class)"

definition cell_lane_count :: "bool \<Rightarrow> nat" where
  "cell_lane_count wide = (if wide then 4 else 2)"

definition lanes_at :: "bool \<Rightarrow> memory \<Rightarrow> nat \<Rightarrow> u32 list" where
  "lanes_at wide m off = map (\<lambda>i. word_of_nat (read_nat m (off + 4 * i) 4)) [0..<cell_lane_count wide]"

definition put_lanes :: "nat \<Rightarrow> u32 list \<Rightarrow> memory \<Rightarrow> memory" where
  "put_lanes off lanes m = write_bytes m off (concat (map (\<lambda>l. le_bytes 4 (unat l)) lanes))"

text \<open>The pool of a class seen in this memory, and its update after an operation on one cell.\<close>

definition cell_pool :: "bool \<Rightarrow> save_machine \<Rightarrow> pool" where
  "cell_pool wide s =
     \<lparr>p_mem = lanes_at wide (mem s),
      p_free = (if wide then m_widevalue_free_list s else m_extvalue_free_list s),
      p_active = (if wide then m_widevalue_active_count s else m_extvalue_active_count s)\<rparr>"

definition put_pool :: "bool \<Rightarrow> pool \<Rightarrow> save_machine \<Rightarrow> save_machine" where
  "put_pool wide p s =
     (if wide then s\<lparr>m_widevalue_free_list := p_free p, m_widevalue_active_count := p_active p\<rparr>
      else s\<lparr>m_extvalue_free_list := p_free p, m_extvalue_active_count := p_active p\<rparr>)"

definition put_cell :: "bool \<Rightarrow> nat \<Rightarrow> pool \<Rightarrow> save_machine \<Rightarrow> save_machine" where
  "put_cell wide off p s = (put_pool wide p s)\<lparr>mem := put_lanes off (p_mem p off) (mem s)\<rparr>"

definition alloc_local :: "bool \<Rightarrow> (save_machine, nat) action" where
  "alloc_local wide s =
     (case cell_alloc_local (cell_class_of wide) (m_curr_save_level s) (cell_pool wide s) s of
        (Value off, p, s1) \<Rightarrow> (Value off, put_cell wide off p s1)
      | (Raise e, p, s1) \<Rightarrow> (Raise e, put_pool wide p s1)
      | (Diverge, p, s1) \<Rightarrow> (Diverge, put_pool wide p s1)
      | (Fault, p, s1) \<Rightarrow> (Fault, put_pool wide p s1))"

definition cell_free :: "bool \<Rightarrow> nat \<Rightarrow> nat \<Rightarrow> (save_machine, unit) action" where
  "cell_free wide offset save_level s =
     (if is_global s offset
      then lift_heap (\<lambda>g. bind_outcome (gvm_free g offset) (\<lambda>g1. Value ((), g1))) s
      else case cell_free_local (cell_class_of wide) (m_curr_save_level s) offset save_level (cell_pool wide s) s of
             (Value _, p) \<Rightarrow> (Value (), put_cell wide offset p s)
           | (Raise e, p) \<Rightarrow> (Raise e, s) | (Diverge, p) \<Rightarrow> (Diverge, s) | (Fault, p) \<Rightarrow> (Fault, s))"

definition release_object :: "object \<Rightarrow> (save_machine, unit) action" where
  "release_object ob =
     (if uses_heap_cell ob then cell_free (uses_widevalue ob) (m_offset ob) (m_extvalue_save_level ob) else ret ())"

section \<open>The journal\<close>

datatype flavor =
    FObject | FDictHeader | FDictEntry | FDictEntryNext | FPackedName2 | FPackedName3 | FPackedName4
  | FSetEntry | FSetEntryNext | FStreamInfixOffset | FLvarBinding

definition all_flavors :: "flavor list" where
  "all_flavors = [FObject, FDictHeader, FDictEntry, FDictEntryNext, FPackedName2, FPackedName3, FPackedName4,
     FSetEntry, FSetEntryNext, FStreamInfixOffset, FLvarBinding]"

primrec flavor_code :: "flavor \<Rightarrow> u8" where
  "flavor_code FObject = 0" | "flavor_code FDictHeader = 1" | "flavor_code FDictEntry = 2"
| "flavor_code FDictEntryNext = 3" | "flavor_code FPackedName2 = 4" | "flavor_code FPackedName3 = 5"
| "flavor_code FPackedName4 = 6" | "flavor_code FSetEntry = 7" | "flavor_code FSetEntryNext = 8"
| "flavor_code FStreamInfixOffset = 9" | "flavor_code FLvarBinding = 10"

definition flavor_of :: "u8 \<Rightarrow> flavor option" where
  "flavor_of b = (if unat b < length all_flavors then Some (all_flavors ! unat b) else None)"

definition dict_alloc_size :: "nat \<Rightarrow> nat" where "dict_alloc_size bucket_count = 16 + bucket_count * 4"

primrec count_for :: "nat \<Rightarrow> flavor \<Rightarrow> nat" where
  "count_for bucket_count FObject = 8"
| "count_for bucket_count FDictHeader = dict_alloc_size bucket_count"
| "count_for bucket_count FDictEntry = 20"
| "count_for bucket_count FDictEntryNext = 4"
| "count_for bucket_count FPackedName2 = 3"
| "count_for bucket_count FPackedName3 = 4"
| "count_for bucket_count FPackedName4 = 5"
| "count_for bucket_count FSetEntry = 12"
| "count_for bucket_count FSetEntryNext = 4"
| "count_for bucket_count FStreamInfixOffset = 4"
| "count_for bucket_count FLvarBinding = 8"

text \<open>The fields of the entry at an offset; its data starts at byte 11.\<close>

definition entry_next :: "memory \<Rightarrow> nat \<Rightarrow> nat" where "entry_next m off = read_nat m off 4"
definition entry_ptr :: "memory \<Rightarrow> nat \<Rightarrow> nat" where "entry_ptr m off = read_nat m (off + 4) 4"
definition entry_bucket_count :: "memory \<Rightarrow> nat \<Rightarrow> nat" where "entry_bucket_count m off = read_nat m (off + 8) 2"
definition entry_flavor :: "memory \<Rightarrow> nat \<Rightarrow> u8" where "entry_flavor m off = m (off + 10)"
definition entry_data :: "nat \<Rightarrow> nat" where "entry_data off = off + 11"

definition write_entry :: "nat \<Rightarrow> nat \<Rightarrow> flavor \<Rightarrow> nat \<Rightarrow> memory \<Rightarrow> memory" where
  "write_entry off data_offset flavor sz m =
     (let m1 = write_nat m (off + 4) 4 data_offset;
          m2 = write_nat m1 (off + 8) 2 0;
          m3 = m2(off + 10 := flavor_code flavor)
      in write_bytes m3 (entry_data off) (read_bytes m3 data_offset sz))"

definition lift_alloc :: "nat \<Rightarrow> nat \<Rightarrow> (save_machine, nat) action" where
  "lift_alloc al bytes s =
     (case vm_alloc_ptr s al bytes of
        Value (off, s1) \<Rightarrow> (Value off, s1) | Raise e \<Rightarrow> (Raise e, s) | Diverge \<Rightarrow> (Diverge, s) | Fault \<Rightarrow> (Fault, s))"

definition deref :: "nat \<Rightarrow> (save_machine, nat) action" where
  "deref off s = (offset_to_ptr s off, s)"

text \<open>The entry that is added, or the head of the chain when it already has this location and flavor.\<close>

definition journal :: "flavor \<Rightarrow> nat \<Rightarrow> nat \<Rightarrow> (save_machine, nat) action" where
  "journal flavor sz data_offset =
     seq (gets (\<lambda>s. m_save_stack s (m_curr_save_level s))) (\<lambda>barrier_offset.
     seq (deref barrier_offset) (\<lambda>_.
     seq (gets (\<lambda>s. read_nat (mem s) barrier_offset 4)) (\<lambda>head.
     seq (if head \<noteq> nulloffset then deref head else ret 0) (\<lambda>_.
     seq (gets mem) (\<lambda>m.
       if head \<noteq> nulloffset \<and> entry_ptr m head = data_offset \<and> entry_flavor m head = flavor_code flavor
       then ret head
       else let entry_alloc_size = 12 + (if sz > 1 then sz - 1 else 0)
            in seq (lift_alloc 4 entry_alloc_size) (\<lambda>off.
               seq (modify (\<lambda>s. s\<lparr>mem := write_entry off data_offset flavor sz (mem s)\<rparr>)) (\<lambda>_.
               seq (modify (\<lambda>s. s\<lparr>mem := write_nat (mem s) off 4 (read_nat (mem s) barrier_offset 4)\<rparr>)) (\<lambda>_.
               seq (modify (\<lambda>s. s\<lparr>mem := write_nat (mem s) barrier_offset 4 off\<rparr>)) (\<lambda>_.
               seq (modify (\<lambda>s. let l = m_curr_save_level s
                 in s\<lparr>m_save_journal_count := (m_save_journal_count s)(l := (m_save_journal_count s l + 1) mod 2 ^ 16),
                      m_save_journal_bytes := (m_save_journal_bytes s)
                        (l := (m_save_journal_bytes s l + entry_alloc_size) mod 2 ^ 32)\<rparr>)) (\<lambda>_.
               ret off))))))))))"

definition save_data :: "flavor \<Rightarrow> nat \<Rightarrow> nat \<Rightarrow> (save_machine, nat option) action" where
  "save_data flavor sz data_offset s =
     (if is_global s data_offset
      then if flavor \<noteq> FLvarBinding \<or> m_curr_save_level s = BASE then (Value None, s)
           else seq (journal flavor sz data_offset) (\<lambda>off. ret (Some off)) s
      else if m_curr_save_level s = BASE then (Raise InvalidRestore, s)
      else seq (journal flavor sz data_offset) (\<lambda>off. ret (Some off)) s)"

definition save_object :: "nat \<Rightarrow> (save_machine, unit) action" where
  "save_object val_ptr = seq (save_data FObject (count_for 0 FObject) val_ptr) (\<lambda>_. ret ())"

definition save_object_journal_global :: "nat \<Rightarrow> (save_machine, unit) action" where
  "save_object_journal_global val_ptr = seq (save_data FLvarBinding (count_for 0 FLvarBinding) val_ptr) (\<lambda>_. ret ())"

definition save_dict_header :: "nat \<Rightarrow> nat \<Rightarrow> (save_machine, unit) action" where
  "save_dict_header dictheader bucket_count =
     seq (save_data FDictHeader (count_for bucket_count FDictHeader) dictheader) (\<lambda>entry.
       case entry of
         None \<Rightarrow> ret ()
       | Some off \<Rightarrow> modify (\<lambda>s. s\<lparr>mem := write_nat (mem s) (off + 8) 2 bucket_count\<rparr>))"

definition save_dict_entry :: "nat \<Rightarrow> (save_machine, unit) action" where
  "save_dict_entry dictentry = seq (save_data FDictEntry (count_for 0 FDictEntry) dictentry) (\<lambda>_. ret ())"

definition save_dict_entry_next :: "nat \<Rightarrow> (save_machine, unit) action" where
  "save_dict_entry_next prev_entry = seq (save_data FDictEntryNext (count_for 0 FDictEntryNext) prev_entry) (\<lambda>_. ret ())"

definition save_set_entry :: "nat \<Rightarrow> (save_machine, unit) action" where
  "save_set_entry setentry = seq (save_data FSetEntry (count_for 0 FSetEntry) setentry) (\<lambda>_. ret ())"

definition save_set_entry_next :: "nat \<Rightarrow> (save_machine, unit) action" where
  "save_set_entry_next prev_entry = seq (save_data FSetEntryNext (count_for 0 FSetEntryNext) prev_entry) (\<lambda>_. ret ())"

definition save_stream_infix_offset :: "nat \<Rightarrow> (save_machine, unit) action" where
  "save_stream_infix_offset offset =
     seq (save_data FStreamInfixOffset (count_for 0 FStreamInfixOffset) offset) (\<lambda>_. ret ())"

definition save_packed_name :: "nat \<Rightarrow> nat \<Rightarrow> (save_machine, unit) action" where
  "save_packed_name src sz =
     (if sz < 3 \<or> sz > 5 then raise InternalError
      else seq (save_data ([FPackedName2, FPackedName3, FPackedName4] ! (sz - 3)) sz src) (\<lambda>_. ret ()))"

text \<open>Replaying one entry: the cells of the objects that are about to be overwritten are released first.\<close>

definition replay_release :: "flavor option \<Rightarrow> nat \<Rightarrow> (save_machine, unit) action" where
  "replay_release fl dst s =
     (case fl of
        None \<Rightarrow> (Raise InternalError, s)
      | Some FObject \<Rightarrow> release_object (object_at (mem s) dst) s
      | Some FLvarBinding \<Rightarrow> release_object (object_at (mem s) dst) s
      | Some FDictEntry \<Rightarrow>
          seq (release_object (object_at (mem s) (dst + 4))) (\<lambda>_ s1. release_object (object_at (mem s1) (dst + 12)) s1) s
      | Some FSetEntry \<Rightarrow> release_object (object_at (mem s) (dst + 4)) s
      | Some _ \<Rightarrow> (Value (), s))"

definition entry_count :: "memory \<Rightarrow> nat \<Rightarrow> nat" where
  "entry_count m off =
     (case flavor_of (entry_flavor m off) of None \<Rightarrow> 0 | Some fl \<Rightarrow> count_for (entry_bucket_count m off) fl)"

definition replay_entry :: "nat \<Rightarrow> (save_machine, unit) action" where
  "replay_entry off =
     seq (deref off) (\<lambda>_.
     seq (gets (\<lambda>s. entry_ptr (mem s) off)) (\<lambda>ptr.
     seq (deref ptr) (\<lambda>dst.
     seq (\<lambda>s. replay_release (flavor_of (entry_flavor (mem s) off)) dst s) (\<lambda>_.
     modify (\<lambda>s. s\<lparr>mem := write_bytes (mem s) dst (read_bytes (mem s) (entry_data off) (entry_count (mem s) off))\<rparr>)))))"

partial_function (option) replay_chain :: "nat \<Rightarrow> save_machine \<Rightarrow> (unit outcome \<times> save_machine) option" where
  "replay_chain off s =
     (if off = nulloffset then Some (Value (), s)
      else case replay_entry off s of
             (Value _, s1) \<Rightarrow> replay_chain (entry_next (mem s1) off) s1
           | (Raise e, s1) \<Rightarrow> Some (Raise e, s1) | (Diverge, s1) \<Rightarrow> Some (Diverge, s1) | (Fault, s1) \<Rightarrow> Some (Fault, s1))"

definition replay_level :: "nat \<Rightarrow> (save_machine, unit) action" where
  "replay_level level =
     seq (gets (\<lambda>s. m_save_stack s level)) (\<lambda>barrier.
     seq (deref barrier) (\<lambda>_ s. from_loop (replay_chain (read_nat (mem s) barrier 4)) s))"

definition replay_journals :: "nat \<Rightarrow> (save_machine, unit) action" where
  "replay_journals restore_level s = for_each (rev [restore_level..<Suc (m_curr_save_level s)]) replay_level s"

text \<open>The validator of the journals of all active levels.\<close>

fun validate_entries :: "nat \<Rightarrow> save_machine \<Rightarrow> nat \<Rightarrow> bool" where
  "validate_entries left s off =
     (if off = nulloffset then True
      else if \<not> valid_active_offset s 12 4 off then False
      else if \<not> valid_active_offset s 1 1 (entry_ptr (mem s) off) then False
      else case flavor_of (entry_flavor (mem s) off) of
             None \<Rightarrow> False
           | Some fl \<Rightarrow>
               let last_offset = entry_ptr (mem s) off + (count_for (entry_bucket_count (mem s) off) fl - 1)
               in if last_offset \<ge> 2 ^ 32 \<or> \<not> valid_active_offset s 1 1 last_offset then False
                  else (case left of 0 \<Rightarrow> False | Suc k \<Rightarrow> validate_entries k s (entry_next (mem s) off)))"

declare validate_entries.simps [simp del]

definition validate_journal :: "save_machine \<Rightarrow> bool" where
  "validate_journal s \<longleftrightarrow>
     (\<forall>lvl\<in>{1..m_curr_save_level s}. valid_active_offset s 1 1 (m_save_stack s lvl) \<and>
        validate_entries MaxSaveJournalChainLength s (read_nat (mem s) (m_save_stack s lvl) 4))"

section \<open>Barriers\<close>

definition is_above_barrier :: "save_machine \<Rightarrow> object \<Rightarrow> bool" where
  "is_above_barrier s ob \<longleftrightarrow>
     (if uses_vm ob then m_offset ob \<ge> m_save_stack s (m_curr_save_level s) \<and> \<not> is_global s (m_offset ob)
      else if uses_heap_cell ob then m_object_save_level ob \<ge> m_curr_save_level s
      else False)"

definition is_restore_fragile_local :: "save_machine \<Rightarrow> object \<Rightarrow> bool" where
  "is_restore_fragile_local s ob \<longleftrightarrow>
     (if m_curr_save_level s = BASE then False
      else if \<not> uses_vm ob \<and> \<not> uses_heap_cell ob then False
      else if is_global s (m_offset ob) then False
      else m_offset ob \<ge> m_save_stack s (BASE + 1))"

definition reject_local_into_global :: "bool \<Rightarrow> object \<Rightarrow> (save_machine, unit) action" where
  "reject_local_into_global container_is_global ob s =
     (if container_is_global \<and> is_restore_fragile_local s ob \<and> \<not> uses_extvalue ob \<and> \<not> uses_widevalue ob
      then (Raise InvalidAccess, s) else (Value (), s))"

definition reject_stale_value_into_eqref :: "bool \<Rightarrow> object \<Rightarrow> (save_machine, unit) action" where
  "reject_stale_value_into_eqref is_eqref ob s =
     (if \<not> (m_curr_save_level s = BASE \<or> \<not> uses_vm ob \<or> is_eqref) \<and> m_offset ob \<ge> m_save_stack s (m_curr_save_level s)
      then (Raise InvalidRestore, s) else (Value (), s))"

text \<open>The object would lose its storage: local and at or above the barrier.\<close>

definition dangles :: "save_machine \<Rightarrow> nat \<Rightarrow> object \<Rightarrow> bool" where
  "dangles s barrier ob \<longleftrightarrow> uses_vm ob \<and> m_offset ob \<ge> barrier \<and> \<not> is_global s (m_offset ob)"

text \<open>The scan of a stack from its base: the numbers of cells to relocate.\<close>

fun check_stack :: "nat \<Rightarrow> object list \<Rightarrow> nat \<Rightarrow> nat \<Rightarrow> (save_machine, nat \<times> nat) action" where
  "check_stack barrier [] ext wide s = (Value (ext, wide), s)"
| "check_stack barrier (ob # obs) ext wide s =
     (if dangles s barrier ob
      then if uses_extvalue ob then check_stack barrier obs (ext + 1) wide s
           else if uses_widevalue ob then check_stack barrier obs ext (wide + 1) s
           else (Raise InvalidRestore, s)
      else check_stack barrier obs ext wide s)"

definition is_frame :: "save_machine \<Rightarrow> nat \<Rightarrow> bool" where
  "is_frame s dict \<longleftrightarrow> (mem s (dict + 10)) AND 0x08 \<noteq> 0"

definition check_and_compact_dict_stack :: "nat \<Rightarrow> (save_machine, unit) action" where
  "check_and_compact_dict_stack barrier s =
     (if \<exists>ob\<in>set (dict_stack s). dangles s barrier ob \<and> \<not> is_frame s (m_offset ob) then (Raise InvalidRestore, s)
      else (Value (), s\<lparr>dict_stack := filter (\<lambda>ob. \<not> dangles s barrier ob) (dict_stack s)\<rparr>))"

section \<open>Relocation of cells\<close>

datatype slot = OpSlot nat | ExecSlot nat

text \<open>The slots of a stack with their objects, in the order of the scan, which goes from the base to the top.\<close>

definition slots_up :: "(nat \<Rightarrow> slot) \<Rightarrow> object list \<Rightarrow> (slot \<times> object) list" where
  "slots_up mk obs = map (\<lambda>i. (mk i, obs ! i)) (rev [0..<length obs])"

definition slot_object :: "save_machine \<Rightarrow> slot \<Rightarrow> object" where
  "slot_object s sl = (case sl of OpSlot i \<Rightarrow> op_stack s ! i | ExecSlot i \<Rightarrow> exec_stack s ! i)"

definition set_slot :: "slot \<Rightarrow> object \<Rightarrow> save_machine \<Rightarrow> save_machine" where
  "set_slot sl ob s =
     (case sl of OpSlot i \<Rightarrow> s\<lparr>op_stack := (op_stack s)[i := ob]\<rparr> | ExecSlot i \<Rightarrow> s\<lparr>exec_stack := (exec_stack s)[i := ob]\<rparr>)"

fun scan_range_lowest ::
  "save_machine \<Rightarrow> nat \<Rightarrow> bool \<Rightarrow> (slot \<times> object) list \<Rightarrow> slot option \<Rightarrow> nat \<Rightarrow> slot option \<times> nat" where
  "scan_range_lowest s barrier want_wide [] low low_off = (low, low_off)"
| "scan_range_lowest s barrier want_wide ((sl, ob) # rest) low low_off =
     (let offset = m_offset ob
      in if (if want_wide then uses_widevalue ob else uses_extvalue ob) \<and> offset \<ge> barrier \<and> offset < low_off \<and> \<not> is_global s offset
         then scan_range_lowest s barrier want_wide rest (Some sl) offset
         else scan_range_lowest s barrier want_wide rest low low_off)"

definition find_lowest_relocatable :: "bool \<Rightarrow> save_machine \<Rightarrow> slot option" where
  "find_lowest_relocatable want_wide s =
     (let barrier = m_vm_ptr s;
          (low, low_off) = scan_range_lowest s barrier want_wide (slots_up OpSlot (op_stack s)) None (2 ^ 32 - 1)
      in fst (scan_range_lowest s barrier want_wide (slots_up ExecSlot (exec_stack s)) low low_off))"

definition read_cell :: "bool \<Rightarrow> object \<Rightarrow> (save_machine, u32 list) action" where
  "read_cell wide ob s =
     (if cell_valid (cell_class_of wide) (cell_pool wide s) s (m_offset ob) then (Value (lanes_at wide (mem s) (m_offset ob)), s)
      else (Raise InternalError, s))"

text \<open>
  Moving one cell. The extended value is read after the new cell is allocated, through the pointer obtained before;
  the wide value is copied through a temporary: in both cases the old bytes are read before the new are written, and
  a cell reused from the free list has been cleared before the old one is read. An address also forgets what the last
  access found out about its target, which it keeps in its executable and special flags.
\<close>

definition clear_address_cache :: "object \<Rightarrow> object" where
  "clear_address_cache ob = ob\<lparr>o_executable := False, o_special := False\<rparr>"

definition relocate_ext :: "slot \<Rightarrow> (save_machine, unit) action" where
  "relocate_ext sl =
     seq (gets (\<lambda>s. slot_object s sl)) (\<lambda>ob.
     seq (read_cell False ob) (\<lambda>_.
     seq (alloc_local False) (\<lambda>new_offset.
     seq (modify (\<lambda>s. s\<lparr>mem := put_lanes new_offset (lanes_at False (mem s) (m_offset ob)) (mem s)\<rparr>)) (\<lambda>_.
     seq (gets (\<lambda>s. ob\<lparr>m_extvalue_save_level := m_curr_save_level s, m_offset := new_offset\<rparr>)) (\<lambda>ob1.
     modify (set_slot sl (if o_type ob1 = TAddress then clear_address_cache ob1 else ob1)))))))"

definition relocate_wide :: "slot \<Rightarrow> (save_machine, unit) action" where
  "relocate_wide sl =
     seq (gets (\<lambda>s. slot_object s sl)) (\<lambda>ob.
     seq (read_cell True ob) (\<lambda>_.
     seq (alloc_local True) (\<lambda>new_offset.
     seq (modify (\<lambda>s. s\<lparr>mem := put_lanes new_offset (lanes_at True (mem s) (m_offset ob)) (mem s)\<rparr>)) (\<lambda>_.
     modify (\<lambda>s. set_slot sl (ob\<lparr>m_extvalue_save_level := m_curr_save_level s, m_offset := new_offset\<rparr>) s)))))"

fun relocate :: "bool \<Rightarrow> nat \<Rightarrow> (save_machine, unit) action" where
  "relocate wide 0 = ret ()"
| "relocate wide (Suc remaining) =
     seq (gets (find_lowest_relocatable wide)) (\<lambda>found.
       case found of None \<Rightarrow> raise InternalError
       | Some sl \<Rightarrow> seq (if wide then relocate_wide sl else relocate_ext sl) (\<lambda>_. relocate wide remaining))"

partial_function (option) free_list_below :: "bool \<Rightarrow> nat \<Rightarrow> nat \<Rightarrow> save_machine \<Rightarrow> unit outcome option" where
  "free_list_below wide barrier offset s =
     (if offset = nulloffset then Some (Value ())
      else if offset \<ge> barrier then Some (Raise InternalError)
      else case offset_to_ptr s offset of
             Value _ \<Rightarrow> free_list_below wide barrier (read_nat (mem s) offset 4) s
           | Raise e \<Rightarrow> Some (Raise e) | Diverge \<Rightarrow> Some Diverge | Fault \<Rightarrow> Some Fault)"

definition clear_free_lists :: "bool \<Rightarrow> save_machine \<Rightarrow> save_machine" where
  "clear_free_lists wide s =
     (let p = cell_pool wide s
      in put_pool wide (p\<lparr>p_free := (\<lambda>i. if m_curr_save_level s < i \<and> i < m_max_save_level s then nulloffset else p_free p i)\<rparr>) s)"

definition cells_restore :: "bool \<Rightarrow> nat \<Rightarrow> (save_machine, unit) action" where
  "cells_restore wide count =
     seq (modify (clear_free_lists wide)) (\<lambda>_.
     seq (\<lambda>s. for_each [0..<Suc (m_curr_save_level s)] (\<lambda>lvl s1.
            (case free_list_below wide (m_vm_ptr s) (p_free (cell_pool wide s1) lvl) s1 of None \<Rightarrow> Diverge | Some r \<Rightarrow> r, s1)) s) (\<lambda>_.
     relocate wide count))"

section \<open>Pools of dictionaries\<close>

datatype pool_link = FramePool nat | FrameOverflow | DictPool nat

definition get_pool_link :: "save_machine \<Rightarrow> pool_link \<Rightarrow> nat" where
  "get_pool_link s l =
     (case l of FramePool b \<Rightarrow> m_frame_dict_pool s b | FrameOverflow \<Rightarrow> m_frame_dict_overflow s
      | DictPool off \<Rightarrow> read_nat (mem s) off 4)"

definition set_pool_link :: "pool_link \<Rightarrow> nat \<Rightarrow> save_machine \<Rightarrow> save_machine" where
  "set_pool_link l v s =
     (case l of FramePool b \<Rightarrow> s\<lparr>m_frame_dict_pool := (m_frame_dict_pool s)(b := v)\<rparr>
      | FrameOverflow \<Rightarrow> s\<lparr>m_frame_dict_overflow := v\<rparr>
      | DictPool off \<Rightarrow> s\<lparr>mem := write_nat (mem s) off 4 v\<rparr>)"

partial_function (option) prune_dict_chain :: "nat \<Rightarrow> pool_link \<Rightarrow> save_machine \<Rightarrow> (unit outcome \<times> save_machine) option" where
  "prune_dict_chain barrier prev_link s =
     (let offset = get_pool_link s prev_link
      in if offset = nulloffset then Some (Value (), s)
         else case offset_to_ptr s offset of
                Value _ \<Rightarrow>
                  if offset \<ge> barrier
                  then let s1 = set_pool_link prev_link (read_nat (mem s) offset 4) s
                       in prune_dict_chain barrier prev_link
                            (s1\<lparr>m_frame_dict_pool_evictions := m_frame_dict_pool_evictions s1 + 1\<rparr>)
                  else prune_dict_chain barrier (DictPool offset) s
              | Raise e \<Rightarrow> Some (Raise e, s) | Diverge \<Rightarrow> Some (Diverge, s) | Fault \<Rightarrow> Some (Fault, s))"

definition clear_dict_pool :: "save_machine \<Rightarrow> save_machine" where
  "clear_dict_pool s =
     s\<lparr>m_dict_pool := (\<lambda>i. if (m_curr_save_level s + 1) * MaxDictPoolSize \<le> i \<and> i < m_max_save_level s * MaxDictPoolSize
                          then nulloffset else m_dict_pool s i)\<rparr>"

section \<open>Tokens\<close>

definition pack_token :: "nat \<Rightarrow> u32 \<Rightarrow> nat \<Rightarrow> u32" where
  "pack_token level gen barrier =
     (let barrier_low = (word_of_nat barrier :: u32) AND SaveGenerationMask;
          xor_field = (gen XOR barrier_low) AND SaveGenerationMask
      in word_of_nat level OR push_bit SaveTokenLevelBits xor_field)"

definition token_level :: "u32 \<Rightarrow> nat" where "token_level token = unat (token AND SaveTokenLevelMask)"

definition token_xor_field :: "u32 \<Rightarrow> u32" where
  "token_xor_field token = drop_bit SaveTokenLevelBits token AND SaveGenerationMask"

definition validate_token :: "u32 \<Rightarrow> (save_machine, nat) action" where
  "validate_token token s =
     (let level = token_level token
      in if level = BASE \<or> level > m_curr_save_level s then (Raise InvalidRestore, s)
         else let current_barrier_low = (word_of_nat (m_save_stack s level) :: u32) AND SaveGenerationMask;
                  current_gen = m_save_generation s level AND SaveGenerationMask;
                  expected_xor = (current_gen XOR current_barrier_low) AND SaveGenerationMask
              in if token_xor_field token \<noteq> expected_xor then (Raise InvalidRestore, s) else (Value level, s))"

section \<open>Save and restore\<close>

definition require_slots :: "nat \<Rightarrow> (save_machine, unit) action" where
  "require_slots n s = (if length (op_stack s) + n > op_slots s then (Raise OpStackOverflow, s) else (Value (), s))"

definition save :: "(save_machine, unit) action" where
  "save =
     seq (gets (\<lambda>s. m_curr_save_level s + 1 \<ge> m_max_save_level s)) (\<lambda>overflow.
       if overflow then raise LimitCheck
       else seq (require_slots 1) (\<lambda>_.
            seq (lift_alloc 4 4) (\<lambda>barrier_offset.
            seq (modify (\<lambda>s. s\<lparr>mem := write_nat (mem s) barrier_offset 4 nulloffset\<rparr>)) (\<lambda>_.
            modify (\<lambda>s.
              let level = m_curr_save_level s + 1;
                  gen = (m_save_generation s level + 1) AND SaveGenerationMask
              in s\<lparr>m_curr_save_level := level,
                   m_save_stack := (m_save_stack s)(level := barrier_offset),
                   m_vm_temp_save := (m_vm_temp_save s)(level := m_vm_temp_ptr s),
                   m_extvalue_active_save := (m_extvalue_active_save s)(level := m_extvalue_active_count s),
                   m_widevalue_active_save := (m_widevalue_active_save s)(level := m_widevalue_active_count s),
                   m_save_journal_count := (m_save_journal_count s)(level := 0),
                   m_save_journal_bytes := (m_save_journal_bytes s)(level := 0),
                   m_save_generation := (m_save_generation s)(level := gen),
                   op_stack := make_integer (sint (pack_token level gen barrier_offset)) # op_stack s\<rparr>)))))"

definition find_save_level :: "nat \<Rightarrow> (save_machine, nat) action" where
  "find_save_level barrier s =
     (case find (\<lambda>level. m_save_stack s level = barrier) [0..<m_max_save_level s] of
        Some level \<Rightarrow> (Value level, s) | None \<Rightarrow> (Raise InvalidRestore, s))"

definition restore_pointers :: "nat \<Rightarrow> nat \<Rightarrow> (save_machine, unit) action" where
  "restore_pointers restore_level barrier =
     seq (modify (\<lambda>s. s\<lparr>m_curr_save_level := restore_level - 1\<rparr>)) (\<lambda>_.
     seq (deref barrier) (\<lambda>ptr.
     modify (\<lambda>s. s\<lparr>m_vm_ptr := ptr,
       m_vm_temp_ptr := (if m_vm_temp_save s restore_level > m_vm_global s then m_vm_global s else m_vm_temp_save s restore_level),
       m_extvalue_active_count := m_extvalue_active_save s restore_level,
       m_widevalue_active_count := m_widevalue_active_save s restore_level\<rparr>)))"

definition restore_pools :: "nat \<Rightarrow> (save_machine, unit) action" where
  "restore_pools barrier =
     seq (modify clear_dict_pool) (\<lambda>_.
     seq (for_each [0..<MaxDictPoolSize] (\<lambda>b. from_loop (prune_dict_chain barrier (FramePool b)))) (\<lambda>_.
     from_loop (prune_dict_chain barrier FrameOverflow)))"

definition restore :: "restore_services \<Rightarrow> nat \<Rightarrow> (save_machine, unit) action" where
  "restore svc barrier =
     seq (find_save_level barrier) (\<lambda>restore_level.
     seq flush_all_name_bindings (\<lambda>_.
     seq (\<lambda>s. check_stack barrier (rev (tl (op_stack s))) 0 0 s) (\<lambda>(op_ext, op_wide).
     seq (\<lambda>s. check_stack barrier (rev (exec_stack s)) 0 0 s) (\<lambda>(exec_ext, exec_wide).
     seq (check_and_compact_dict_stack barrier) (\<lambda>_.
     seq (\<lambda>s. check_stack barrier (rev (err_stack s)) 0 0 s) (\<lambda>(err_ext, err_wide).
       if err_ext \<noteq> 0 \<or> err_wide \<noteq> 0 then raise InternalError
       else seq (modify (\<lambda>s. s\<lparr>op_stack := tl (op_stack s)\<rparr>)) (\<lambda>_.
            if restore_level = BASE then raise InvalidRestore
            else seq (replay_journals restore_level) (\<lambda>_.
                 seq (restore_pointers restore_level barrier) (\<lambda>_.
                 seq (restore_pools barrier) (\<lambda>_.
                 seq (svc_stream_restore svc) (\<lambda>_.
                 seq (name_restore barrier) (\<lambda>_.
                 seq (cells_restore False (op_ext + exec_ext)) (\<lambda>_.
                 seq (cells_restore True (op_wide + exec_wide)) (\<lambda>_.
                 seq (svc_quiet_flush svc) (\<lambda>_.
                 svc_reset_error_stacks svc)))))))))))))))"

definition restore_token :: "restore_services \<Rightarrow> u32 \<Rightarrow> (save_machine, unit) action" where
  "restore_token svc token =
     seq (validate_token token) (\<lambda>level s. restore svc (m_save_stack s level) s)"

definition restore_signed_token :: "restore_services \<Rightarrow> int \<Rightarrow> (save_machine, unit) action" where
  "restore_signed_token svc signed_token s =
     (if signed_token > 0 then restore_token svc (word_of_int signed_token) s
      else if signed_token < 0
      then if \<not> in_int32 (- signed_token) then (Fault, s)
           else let pop_count = - signed_token
                in if pop_count > int (m_curr_save_level s) then (Raise InvalidRestore, s)
                   else let target_level = m_curr_save_level s - nat pop_count + 1
                        in restore svc (m_save_stack s target_level) s
      else (Raise InvalidRestore, s))"

text \<open>The operators; the operand of the last three is an Integer.\<close>

definition top_integer :: "(save_machine, int) action" where
  "top_integer s =
     (case op_stack s of [] \<Rightarrow> (Raise OpStackUnderflow, s)
      | ob # _ \<Rightarrow> if o_type ob = TInteger then (Value (m_immediate ob), s) else (Raise TypeCheck, s))"

definition save_op :: "(save_machine, unit) action" where
  "save_op =
     seq (require_slots 1) (\<lambda>_.
     seq (gets (\<lambda>s. m_curr_save_level s + 1 \<ge> m_max_save_level s)) (\<lambda>full.
       if full then raise LimitCheck else save))"

definition restore_op :: "restore_services \<Rightarrow> (save_machine, unit) action" where
  "restore_op svc =
     seq top_integer (\<lambda>signed_token.
     seq (gets (\<lambda>s. m_curr_save_level s + 1 < 2)) (\<lambda>none.
       if none then raise InvalidRestore else restore_signed_token svc signed_token))"

definition save_level_q_op :: "(save_machine, unit) action" where
  "save_level_q_op =
     seq top_integer (\<lambda>signed_token.
     modify (\<lambda>s. s\<lparr>op_stack := make_integer (if signed_token > 0 then int (token_level (word_of_int signed_token)) else 0) #
       tl (op_stack s)\<rparr>))"

definition recover_save_op :: "(save_machine, unit) action" where
  "recover_save_op =
     seq top_integer (\<lambda>level s.
       if level < 1 \<or> level > int (m_curr_save_level s) then (Raise RangeCheck, s)
       else let lvl = nat level
            in (Value (), s\<lparr>op_stack := make_integer (sint (pack_token lvl (m_save_generation s lvl) (m_save_stack s lvl))) #
                  tl (op_stack s)\<rparr>))"

end
