(* ===== verification/Save_Tokens.thy ===== *)
theory Save_Tokens
  imports Save
begin

text \<open>
  The tokens of save levels: which tokens the validation accepts, when two tokens are the same, and the
  tokens that \<open>restore\<close> rejects or cannot handle.
\<close>

lemma token_masks: "SaveTokenLevelMask = mask 8" "SaveGenerationMask = mask 23"
  by (simp_all add: SaveTokenLevelMask_def SaveGenerationMask_def SaveTokenLevelBits_def SaveGenerationBits_def mask_eq_exp_minus_1)

lemma level_bits:
  assumes "level < 256" "bit (word_of_nat level :: u32) n"
  shows "n < 8"
proof (rule ccontr)
  assume "\<not> n < 8"
  then have "(256 :: nat) \<le> 2 ^ n" using power_increasing [of 8 n "2 :: nat"] by simp
  then have "level div 2 ^ n = 0" using assms(1) by simp
  moreover have "bit level n" using assms(2) by (simp add: bit_of_nat_iff)
  ultimately show False by (simp add: bit_iff_odd)
qed

lemma pack_token_bits:
  assumes "level < 256" "n < 32"
  shows "bit (pack_token level gen barrier) n =
    (if n < 8 then bit (word_of_nat level :: u32) n
     else n < 31 \<and> bit gen (n - 8) \<noteq> bit (word_of_nat barrier :: u32) (n - 8))"
  using assms level_bits [of level n]
  by (auto simp: pack_token_def token_masks SaveTokenLevelBits_def Let_def bit_or_iff bit_and_iff bit_xor_iff
      bit_push_bit_iff bit_mask_iff not_less)

lemma token_parts:
  assumes "level < 256"
  shows "token_level (pack_token level gen barrier) = level"
    "token_xor_field (pack_token level gen barrier) = (gen XOR word_of_nat barrier) AND mask 23"
proof -
  have "pack_token level gen barrier AND SaveTokenLevelMask = word_of_nat level"
  proof (rule bit_word_eqI)
    fix n assume n: "n < LENGTH(32)"
    show "bit (pack_token level gen barrier AND SaveTokenLevelMask) n = bit (word_of_nat level :: u32) n"
      using n pack_token_bits [OF assms, of n gen barrier] level_bits [OF assms, of n]
      by (auto simp: token_masks bit_and_iff bit_mask_iff)
  qed
  then show "token_level (pack_token level gen barrier) = level"
    using assms by (simp add: token_level_def unat_of_nat)
  show "token_xor_field (pack_token level gen barrier) = (gen XOR word_of_nat barrier) AND mask 23"
  proof (rule bit_word_eqI)
    fix n assume n: "n < LENGTH(32)"
    show "bit (token_xor_field (pack_token level gen barrier)) n = bit ((gen XOR word_of_nat barrier) AND mask 23) n"
      using pack_token_bits [OF assms, of "8 + n" gen barrier] n
      by (cases "n < 23") (auto simp: token_xor_field_def token_masks SaveTokenLevelBits_def bit_and_iff bit_drop_bit_eq bit_mask_iff bit_xor_iff)
  qed
qed

lemma token_split:
  fixes token :: u32
  assumes "\<not> bit token 31" "token_level token = level" "token_xor_field token = (gen XOR word_of_nat barrier) AND mask 23"
  shows "token = pack_token level gen barrier"
proof (rule bit_word_eqI)
  have "unat (take_bit 8 token) = take_bit 8 (unat token)" by (rule unsigned_take_bit_eq)
  then have lev: "level < 256"
    using assms(2) take_bit_nat_less_exp [of 8 "unat token"]
    by (simp add: token_level_def token_masks flip: take_bit_eq_mask)
  have low: "bit (word_of_nat level :: u32) n = bit token n" if "n < 8" for n
    using that by (simp add: assms(2) [symmetric] token_level_def token_masks bit_and_iff bit_mask_iff)
  fix n assume n: "n < LENGTH(32)"
  show "bit token n = bit (pack_token level gen barrier) n"
  proof (cases "n < 8")
    case True
    then show ?thesis using low n pack_token_bits [OF lev, of n gen barrier] by simp
  next
    case False
    have "bit (token_xor_field token) (n - 8) = (bit token n \<and> n < 31)"
      using False n by (auto simp: token_xor_field_def token_masks SaveTokenLevelBits_def bit_and_iff bit_drop_bit_eq bit_mask_iff)
    moreover have "bit (token_xor_field token) (n - 8) = (n < 31 \<and> bit gen (n - 8) \<noteq> bit (word_of_nat barrier :: u32) (n - 8))"
      using False n unfolding assms(3) by (auto simp: bit_and_iff bit_mask_iff bit_xor_iff)
    ultimately show ?thesis
      using False n assms(1) pack_token_bits [OF lev, of n gen barrier] by (cases "n = 31") auto
  qed
qed

lemma validate_token_iff:
  assumes "m_curr_save_level s < 256" "\<not> bit token 31"
  shows "validate_token token s = (if \<exists>l\<in>{1..m_curr_save_level s}. token = pack_token l (m_save_generation s l) (m_save_stack s l)
      then (Value (token_level token), s) else (Raise InvalidRestore, s))"
proof -
  let ?l = "token_level token"
  have field: "((gen AND mask 23) XOR (bl AND mask 23)) AND mask 23 = (gen XOR bl) AND mask 23" for gen bl :: u32
    by (rule bit_word_eqI) (auto simp: bit_and_iff bit_xor_iff bit_mask_iff)
  have acc: "validate_token token s = (Value ?l, s) \<or> validate_token token s = (Raise InvalidRestore, s)"
    "validate_token token s = (Value ?l, s) \<longleftrightarrow> ?l \<noteq> 0 \<and> ?l \<le> m_curr_save_level s \<and>
       token_xor_field token = (m_save_generation s ?l XOR word_of_nat (m_save_stack s ?l)) AND mask 23"
    by (auto simp: validate_token_def Let_def token_masks field)
  have "validate_token token s = (Value ?l, s) \<longleftrightarrow> (\<exists>l\<in>{1..m_curr_save_level s}. token = pack_token l (m_save_generation s l) (m_save_stack s l))"
  proof
    assume "validate_token token s = (Value ?l, s)"
    then have "?l \<in> {1..m_curr_save_level s}" "token = pack_token ?l (m_save_generation s ?l) (m_save_stack s ?l)"
      using acc(2) token_split [OF assms(2), of ?l] by auto
    then show "\<exists>l\<in>{1..m_curr_save_level s}. token = pack_token l (m_save_generation s l) (m_save_stack s l)" by blast
  next
    assume "\<exists>l\<in>{1..m_curr_save_level s}. token = pack_token l (m_save_generation s l) (m_save_stack s l)"
    then obtain l where l: "1 \<le> l" "l \<le> m_curr_save_level s" "token = pack_token l (m_save_generation s l) (m_save_stack s l)" by auto
    then show "validate_token token s = (Value ?l, s)" using acc(2) token_parts [of l] assms(1) by simp
  qed
  then show ?thesis using acc(1) by auto
qed

text \<open>
  C38. The validation accepts exactly the current tokens of the active levels: a positive token is accepted if and
  only if it is the token that \<open>recover-save\<close> returns for some level that is active now, and then gives
  that level; every other positive token is an invalid restore.
\<close>

theorem token_accepted_iff:
  assumes "m_curr_save_level s < 256" "0 \<le> sint token"
  shows "validate_token token s = (if \<exists>l\<in>{1..m_curr_save_level s}. token = pack_token l (m_save_generation s l) (m_save_stack s l)
      then (Value (token_level token), s) else (Raise InvalidRestore, s)) \<and>
    (\<forall>l\<in>{1..m_curr_save_level s}. fst (recover_save_op (s\<lparr>op_stack := make_integer (int l) # rest\<rparr>)) = Value () \<and>
       hd (op_stack (snd (recover_save_op (s\<lparr>op_stack := make_integer (int l) # rest\<rparr>)))) =
         make_integer (sint (pack_token l (m_save_generation s l) (m_save_stack s l))))"
proof
  have "\<not> bit token 31" using assms(2) bit_last_iff [of token] by simp
  with assms(1) show "validate_token token s = (if \<exists>l\<in>{1..m_curr_save_level s}. token = pack_token l (m_save_generation s l) (m_save_stack s l)
      then (Value (token_level token), s) else (Raise InvalidRestore, s))" by (rule validate_token_iff)
qed (simp add: recover_save_op_def top_integer_def seq_def make_integer_def make_object_def)

text \<open>A machine with one save level active, its generation and barrier given.\<close>

definition save_example :: "u32 \<Rightarrow> nat \<Rightarrow> save_machine" where
  "save_example gen barrier =
     \<lparr>m_vm_ptr = barrier + 4, m_vm_temp_ptr = 1024, m_vm_global = 1024, m_vm_limit = 1024, m_vm_alloc_active = None,
      headers = (\<lambda>_. \<lparr>m_size = 0, m_kind = 0, m_mark_gen = 0, m_obj_count = 0, m_next_in_work = 0, m_magic = 0\<rparr>),
      tails = (\<lambda>_. 0), flinks = (\<lambda>_. \<lparr>prev_free = 0, next_free = 0\<rparr>), m_gvm_free_head = 0,
      m_gvm_fastbins = (\<lambda>_. 0), m_gvm_free_block_count = 0, m_gvm_user_block_count = 0,
      m_gc_scratch_offset = 0, m_gc_current_gen = 1, m_in_gc = False, m_gc_work_head = 0,
      m_gc_marked_count = 0, m_gc_run_count = 0, m_gc_last_reclaimed_bytes = 0,
      m_alloc_global = False, name_mem = (\<lambda>_. \<lparr>n_next = 0, n_binding = 0, n_hash = 0, n_data = []\<rparr>),
      m_name_buckets = [0], m_name_bucket_count = 1, m_name_bucket_magic = 0, m_has_global_names = False,
      m_name_global_mask = [0], mem = (\<lambda>_. 0), m_extvalue_free_list = (\<lambda>_. 0), m_extvalue_active_count = 0,
      m_widevalue_free_list = (\<lambda>_. 0), m_widevalue_active_count = 0, m_curr_save_level = 1, m_max_save_level = 4,
      m_save_stack = (\<lambda>_. 0)(0 := 16, 1 := barrier), m_save_generation = (\<lambda>_. 0)(1 := gen),
      m_vm_temp_save = (\<lambda>_. 1024), m_extvalue_active_save = (\<lambda>_. 0), m_widevalue_active_save = (\<lambda>_. 0),
      m_save_journal_count = (\<lambda>_. 0), m_save_journal_bytes = (\<lambda>_. 0), op_stack = [], exec_stack = [], dict_stack = [],
      err_stack = [], op_slots = 16, m_dict_pool = (\<lambda>_. 0), m_frame_dict_pool = (\<lambda>_. 0), m_frame_dict_overflow = 0,
      m_frame_dict_pool_evictions = 0\<rparr>"

lemma save_example_fields [simp]:
  "m_curr_save_level (save_example gen barrier) = 1" "m_save_generation (save_example gen barrier) (Suc 0) = gen"
  "m_save_stack (save_example gen barrier) (Suc 0) = barrier" "m_max_save_level (save_example gen barrier) = 4"
  by (simp_all add: save_example_def)

theorem token_accepted_iff_witness:
  "validate_token (pack_token 1 7 512) (save_example 7 512) = (Value (token_level (pack_token 1 7 512)), save_example 7 512)"
proof -
  have "0 \<le> sint (pack_token 1 7 512)" by (simp add: pack_token_def Let_def token_masks SaveTokenLevelBits_def mask_eq_exp_minus_1)
  then show ?thesis using token_accepted_iff [of "save_example 7 512" "pack_token 1 7 512"] by auto
qed

text \<open>
  C39. A token may outlive its level: two saves of the same level have the same token exactly when their
  generations differ in the same low bits as their barriers. So it does not take equal generations and
  equal barriers, as intended: the token of the first save at offset 512 is accepted for the
  fifth save at offset 516.
\<close>

theorem stale_token_accepted:
  assumes "level < 256"
  shows "(pack_token level gen barrier = pack_token level gen' barrier') =
      ((gen XOR gen') AND SaveGenerationMask = (word_of_nat barrier XOR word_of_nat barrier') AND SaveGenerationMask) \<and>
    fst (validate_token (pack_token 1 1 512) (save_example 5 516)) = Value 1"
proof
  have eq: "(pack_token level gen barrier = pack_token level gen' barrier') =
      ((gen XOR word_of_nat barrier) AND mask 23 = (gen' XOR word_of_nat barrier') AND mask 23)"
  proof
    assume "pack_token level gen barrier = pack_token level gen' barrier'"
    then show "(gen XOR word_of_nat barrier) AND mask 23 = (gen' XOR word_of_nat barrier') AND mask 23"
      using token_parts(2) [OF assms, of gen barrier] token_parts(2) [OF assms, of gen' barrier'] by simp
  next
    assume "(gen XOR word_of_nat barrier) AND mask 23 = (gen' XOR word_of_nat barrier') AND mask 23"
    moreover have "\<not> bit (pack_token level gen barrier) 31" using pack_token_bits [OF assms, of 31 gen barrier] by simp
    ultimately show "pack_token level gen barrier = pack_token level gen' barrier'"
      using token_split [of "pack_token level gen barrier" level gen' barrier'] token_parts [OF assms, of gen barrier] by simp
  qed
  have "(x XOR y) AND k = (x' XOR y') AND k \<longleftrightarrow> (x XOR x') AND k = (y XOR y') AND k" for x y x' y' k :: u32
    unfolding bit_eq_iff by (auto simp: bit_and_iff bit_xor_iff)
  then show "(pack_token level gen barrier = pack_token level gen' barrier') =
      ((gen XOR gen') AND SaveGenerationMask = (word_of_nat barrier XOR word_of_nat barrier') AND SaveGenerationMask)"
    unfolding eq token_masks by blast
  have "pack_token 1 1 512 = pack_token 1 5 516" "\<not> bit (pack_token 1 1 512) 31"
    by (simp_all add: pack_token_def Let_def token_masks SaveTokenLevelBits_def mask_eq_exp_minus_1)
  then show "fst (validate_token (pack_token 1 1 512) (save_example 5 516)) = Value 1"
    using validate_token_iff [of "save_example 5 516" "pack_token 1 1 512"] token_parts(1) [of 1 1 512] by auto
qed

theorem stale_token_accepted_witness:
  "(pack_token 3 1 512 = pack_token 3 2 512) =
      ((1 XOR 2) AND SaveGenerationMask = (word_of_nat 512 XOR word_of_nat 512) AND SaveGenerationMask)"
  using stale_token_accepted [of 3 1 512 2 512] by simp

text \<open>
  The most negative integer is no valid argument of \<open>restore\<close>, and it is not rejected: its negation overflows,
  whatever the machine's state. All other integers are handled: zero and too large relative counts are
  invalid restores that change nothing.
\<close>

theorem restore_most_negative:
  assumes "1 \<le> m_curr_save_level s" "op_stack s = make_integer v # rest" "in_int32 v"
  shows "(v = int32_min \<longrightarrow> fst (restore_op svc s) = Fault) \<and>
    (v = 0 \<or> int32_min < v \<and> v < - int (m_curr_save_level s) \<longrightarrow> restore_op svc s = (Raise InvalidRestore, s))"
proof -
  have op: "restore_op svc s = restore_signed_token svc v s"
    using assms(1,2) by (simp add: restore_op_def top_integer_def seq_def make_integer_def make_object_def)
  show ?thesis unfolding op restore_signed_token_def
    using assms(3) by (auto simp: int32_defs Let_def)
qed

theorem restore_most_negative_witness:
  "fst (restore_op \<lparr>svc_stream_restore = ret (), svc_quiet_flush = ret (), svc_reset_error_stacks = ret ()\<rparr>
     ((save_example 1 512)\<lparr>op_stack := [make_integer int32_min]\<rparr>)) = Fault"
  using restore_most_negative [of "(save_example 1 512)\<lparr>op_stack := [make_integer int32_min]\<rparr>" int32_min "[]"]
  by (simp add: int32_defs save_example_def)

end
