(* ===== verification/Save_Relocate.thy ===== *)
theory Save_Relocate
  imports Save_Tokens
begin

text \<open>
  Relocation of the cells of wide numbers by \<open>restore\<close>. Numbers on the stacks whose cells lie above the barrier are moved
  below the heap pointer, lowest first. The old cells are still in memory above the heap pointer while the new ones are
  allocated over them; the theorems show when that is safe.
\<close>

section \<open>Lanes in memory\<close>

lemma length_lane_bytes: "length (concat (map (\<lambda>l. le_bytes 4 (unat (l :: u32))) lanes)) = 4 * length lanes"
  by (induction lanes) auto

lemma nth_lane_bytes:
  "i < length lanes \<Longrightarrow> j < 4 \<Longrightarrow> concat (map (\<lambda>l. le_bytes 4 (unat (l :: u32))) lanes) ! (4 * i + j) = le_bytes 4 (unat (lanes ! i)) ! j"
proof (induction lanes arbitrary: i)
  case (Cons l lanes)
  then show ?case by (cases i) (simp_all add: nth_append algebra_simps)
qed simp

lemma put_lanes_out: "x \<notin> span off (4 * length lanes) \<Longrightarrow> put_lanes off lanes m x = m x"
  by (simp add: put_lanes_def write_bytes_out length_lane_bytes)

lemma lanes_at_cong: "(\<And>x. x \<in> span off (4 * cell_lane_count wide) \<Longrightarrow> m x = m' x) \<Longrightarrow> lanes_at wide m off = lanes_at wide m' off"
  unfolding lanes_at_def by (intro map_cong refl arg_cong [where f = word_of_nat] read_nat_cong) (auto simp: span_def)

lemma length_lanes_at [simp]: "length (lanes_at wide m off) = cell_lane_count wide"
  by (simp add: lanes_at_def)

lemma read_put_lane:
  assumes "i < length lanes"
  shows "read_nat (put_lanes off lanes m) (off + 4 * i) 4 = unat (lanes ! i)"
proof -
  have "read_bytes (put_lanes off lanes m) (off + 4 * i) 4 = le_bytes 4 (unat (lanes ! i))"
  proof (rule nth_equalityI)
    fix j assume "j < length (read_bytes (put_lanes off lanes m) (off + 4 * i) 4)"
    then have j: "j < 4" by simp
    have "put_lanes off lanes m (off + (4 * i + j)) = le_bytes 4 (unat (lanes ! i)) ! j"
      unfolding put_lanes_def using assms j nth_lane_bytes [OF assms j]
      by (subst write_bytes_in) (simp_all add: length_lane_bytes)
    then show "read_bytes (put_lanes off lanes m) (off + 4 * i) 4 ! j = le_bytes 4 (unat (lanes ! i)) ! j"
      using j by (simp add: read_bytes_def add.assoc)
  qed simp
  moreover have "unat (lanes ! i) < 256 ^ 4" using unsigned_less [of "lanes ! i", where 'a = nat] by simp
  ultimately show ?thesis by (simp add: read_nat_def le_nat_bytes)
qed

lemma lanes_at_put: "length lanes = cell_lane_count wide \<Longrightarrow> lanes_at wide (put_lanes off lanes m) off = lanes"
  by (rule nth_equalityI) (simp_all add: lanes_at_def read_put_lane)

lemma lanes_at_put_other:
  assumes "span off (4 * length lanes) \<inter> span off' (4 * cell_lane_count wide) = {}"
  shows "lanes_at wide (put_lanes off lanes m) off' = lanes_at wide m off'"
  using assms by (intro lanes_at_cong put_lanes_out) auto

lemma put_lanes_same: "put_lanes off (lanes_at wide m off) m = m"
proof
  fix x
  show "put_lanes off (lanes_at wide m off) m x = m x"
  proof (cases "x \<in> span off (4 * cell_lane_count wide)")
    case True
    let ?i = "(x - off) div 4" and ?j = "(x - off) mod 4"
    have i: "?i < cell_lane_count wide" "?j < 4" "off + (4 * ?i + ?j) = x"
      using True by (auto simp: span_def less_mult_imp_div_less algebra_simps)
    have "read_nat m (off + 4 * ?i) 4 < 2 ^ 32" using le_nat_less [of "read_bytes m (off + 4 * ?i) 4"] by (simp add: read_nat_def)
    then have "unat (lanes_at wide m off ! ?i) = le_nat (read_bytes m (off + 4 * ?i) 4)"
      using i(1) by (simp add: lanes_at_def unat_of_nat take_bit_nat_eq_self read_nat_def)
    then have "le_bytes 4 (unat (lanes_at wide m off ! ?i)) = read_bytes m (off + 4 * ?i) 4"
      using le_bytes_nat [of "read_bytes m (off + 4 * ?i) 4"] by simp
    then have "put_lanes off (lanes_at wide m off) m (off + (4 * ?i + ?j)) = read_bytes m (off + 4 * ?i) 4 ! ?j"
      unfolding put_lanes_def using i nth_lane_bytes [of ?i "lanes_at wide m off" ?j]
      by (subst write_bytes_in) (simp_all add: length_lane_bytes)
    then show ?thesis using i by (simp add: read_bytes_def add.assoc)
  qed (simp add: put_lanes_out)
qed

lemma span8_disjoint: "8 dvd a \<Longrightarrow> 8 dvd b \<Longrightarrow> a \<noteq> b \<Longrightarrow> span a 8 \<inter> span b 8 = {}"
  by (auto simp: span_def dvd_def)

lemma align_up_same: "8 dvd p \<Longrightarrow> align_up 8 p = (p :: nat)"
  by (auto simp: align_up_def dvd_def)

lemma align_up_8_le: "8 dvd o' \<Longrightarrow> p \<le> o' \<Longrightarrow> align_up 8 p \<le> (o' :: nat)"
  by (auto simp: align_up_def dvd_def)

section \<open>The lowest relocatable number\<close>

definition slots :: "save_machine \<Rightarrow> slot set" where
  "slots s = OpSlot ` {..<length (op_stack s)} \<union> ExecSlot ` {..<length (exec_stack s)}"

abbreviation slot_offset :: "save_machine \<Rightarrow> slot \<Rightarrow> nat" where
  "slot_offset s sl \<equiv> m_offset (slot_object s sl)"

definition candidate :: "save_machine \<Rightarrow> bool \<Rightarrow> object \<Rightarrow> bool" where
  "candidate s wide ob \<longleftrightarrow>
     (if wide then uses_widevalue ob else uses_extvalue ob) \<and> m_offset ob \<ge> m_vm_ptr s \<and> \<not> is_global s (m_offset ob)"

definition relocatable :: "bool \<Rightarrow> save_machine \<Rightarrow> slot set" where
  "relocatable wide s = {sl \<in> slots s. candidate s wide (slot_object s sl)}"

lemma scan_lowest:
  assumes "scan_range_lowest s (m_vm_ptr s) wide xs low low_off = (low', off')"
  shows "off' \<le> low_off" "(sl, ob) \<in> set xs \<Longrightarrow> candidate s wide ob \<Longrightarrow> off' \<le> m_offset ob"
    "(low' = low \<and> off' = low_off) \<or> (\<exists>sl ob. (sl, ob) \<in> set xs \<and> candidate s wide ob \<and> low' = Some sl \<and> off' = m_offset ob \<and> off' < low_off)"
  using assms
proof (induction xs arbitrary: low low_off)
  case (Cons x xs)
  obtain sl' ob' where x: "x = (sl', ob')" by fastforce
  {
    case 1
    show ?case using 1 Cons.IH(1) unfolding x by (fastforce simp: Let_def split: if_splits)
  next
    case 2
    show ?case using 2 Cons.IH(1,2) unfolding x by (fastforce simp: Let_def candidate_def split: if_splits)
  next
    case 3
    show ?case using 3 Cons.IH(3) unfolding x by (fastforce simp: Let_def candidate_def split: if_splits)
  }
qed auto

lemma slots_up_set: "set (slots_up mk obs) = (\<lambda>i. (mk i, obs ! i)) ` {..<length obs}"
  by (auto simp: slots_up_def)

lemma scanned:
  "(sl, ob) \<in> set (slots_up OpSlot (op_stack s)) \<union> set (slots_up ExecSlot (exec_stack s)) \<longleftrightarrow> sl \<in> slots s \<and> ob = slot_object s sl"
  by (cases sl) (auto simp: slots_up_set slots_def slot_object_def)

lemma find_lowest_some:
  assumes "relocatable wide s \<noteq> {}" "\<And>sl. sl \<in> relocatable wide s \<Longrightarrow> slot_offset s sl < 2 ^ 32 - 1"
  shows "\<exists>sl\<in>relocatable wide s. find_lowest_relocatable wide s = Some sl \<and> (\<forall>sl'\<in>relocatable wide s. slot_offset s sl \<le> slot_offset s sl')"
proof -
  let ?xs = "slots_up OpSlot (op_stack s)" and ?ys = "slots_up ExecSlot (exec_stack s)"
  obtain l1 o1 where a: "scan_range_lowest s (m_vm_ptr s) wide ?xs None (2 ^ 32 - 1) = (l1, o1)" by fastforce
  obtain l2 o2 where b: "scan_range_lowest s (m_vm_ptr s) wide ?ys l1 o1 = (l2, o2)" by fastforce
  have mem: "sl \<in> relocatable wide s \<longleftrightarrow> (sl, slot_object s sl) \<in> set ?xs \<union> set ?ys \<and> candidate s wide (slot_object s sl)" for sl
    by (simp only: scanned) (simp add: relocatable_def)
  have in_xs: "(sl, ob) \<in> set ?xs \<union> set ?ys \<Longrightarrow> ob = slot_object s sl" for sl ob by (simp only: scanned)
  have low: "o2 \<le> slot_offset s sl" if "sl \<in> relocatable wide s" for sl
    using that mem scan_lowest(2) [OF a] scan_lowest(1,2) [OF b] by (meson Un_iff order_trans)
  have "\<exists>sl. l2 = Some sl \<and> sl \<in> relocatable wide s \<and> o2 = slot_offset s sl"
  proof -
    obtain sl0 where "sl0 \<in> relocatable wide s" using assms(1) by blast
    then have "o2 < 2 ^ 32 - 1" using low assms(2) by fastforce
    then show ?thesis using scan_lowest(3) [OF a] scan_lowest(3) [OF b] mem in_xs by (metis Un_iff less_irrefl)
  qed
  moreover have "find_lowest_relocatable wide s = l2" using a b by (simp add: find_lowest_relocatable_def)
  ultimately show ?thesis using low by auto
qed

lemma find_lowest_none: "relocatable wide s = {} \<Longrightarrow> find_lowest_relocatable wide s = None"
proof -
  assume none: "relocatable wide s = {}"
  let ?xs = "slots_up OpSlot (op_stack s)" and ?ys = "slots_up ExecSlot (exec_stack s)"
  obtain l1 o1 where a: "scan_range_lowest s (m_vm_ptr s) wide ?xs None (2 ^ 32 - 1) = (l1, o1)" by fastforce
  obtain l2 o2 where b: "scan_range_lowest s (m_vm_ptr s) wide ?ys l1 o1 = (l2, o2)" by fastforce
  have "\<not> candidate s wide ob" if "(sl, ob) \<in> set ?xs \<union> set ?ys" for sl ob
    using none that unfolding scanned by (auto simp: relocatable_def)
  then have "l1 = None" "l2 = None" using scan_lowest(3) [OF a] scan_lowest(3) [OF b] by auto
  then show ?thesis using a b by (simp add: find_lowest_relocatable_def)
qed

section \<open>Moving one extended value\<close>

definition ext_at :: "save_machine \<Rightarrow> slot \<Rightarrow> bool" where
  "ext_at s sl \<longleftrightarrow> sl \<in> slots s \<and> uses_extvalue (slot_object s sl) \<and> \<not> is_global s (slot_offset s sl)"

fun free_cells :: "save_machine \<Rightarrow> nat \<Rightarrow> nat list \<Rightarrow> bool" where
  "free_cells s off [] \<longleftrightarrow> off = nulloffset"
| "free_cells s off (x # xs) \<longleftrightarrow> off = x \<and> x \<noteq> nulloffset \<and> free_cells s (read_nat (mem s) x 4) xs"

text \<open>
  The numbers on the stacks have aligned cells of their own with the values \<open>vals\<close>; the free cells of the current level
  lie below the heap pointer and belong to none of them.
\<close>

definition reloc_inv :: "save_machine \<Rightarrow> (slot \<Rightarrow> u32 list) \<Rightarrow> nat list \<Rightarrow> bool" where
  "reloc_inv s vals fl \<longleftrightarrow>
     0 < m_vm_ptr s \<and> m_vm_ptr s \<le> m_vm_temp_ptr s \<and> m_vm_temp_ptr s \<le> m_vm_global s \<and> m_vm_global s \<le> m_vm_limit s \<and> m_vm_limit s < 2 ^ 32 - 1 \<and>
     (\<forall>sl. ext_at s sl \<longrightarrow> 8 dvd slot_offset s sl \<and> 0 < slot_offset s sl \<and> slot_offset s sl + 8 \<le> m_vm_temp_ptr s \<and>
        (slot_offset s sl < m_vm_ptr s \<longrightarrow> slot_offset s sl + 8 \<le> m_vm_ptr s) \<and> lanes_at False (mem s) (slot_offset s sl) = vals sl) \<and>
     inj_on (slot_offset s) {sl. ext_at s sl} \<and>
     free_cells s (m_extvalue_free_list s (m_curr_save_level s)) fl \<and> distinct fl \<and>
     (\<forall>x\<in>set fl. 8 dvd x \<and> x + 8 \<le> m_vm_ptr s \<and> (\<forall>sl. ext_at s sl \<longrightarrow> slot_offset s sl \<noteq> x))"

lemma reloc_invD:
  assumes "reloc_inv s vals fl"
  shows "0 < m_vm_ptr s" "m_vm_ptr s \<le> m_vm_temp_ptr s" "m_vm_temp_ptr s \<le> m_vm_global s" "m_vm_global s \<le> m_vm_limit s" "m_vm_limit s < 2 ^ 32 - 1"
    "ext_at s sl \<Longrightarrow> 8 dvd slot_offset s sl" "ext_at s sl \<Longrightarrow> 0 < slot_offset s sl" "ext_at s sl \<Longrightarrow> slot_offset s sl + 8 \<le> m_vm_temp_ptr s"
    "ext_at s sl \<Longrightarrow> slot_offset s sl < m_vm_ptr s \<Longrightarrow> slot_offset s sl + 8 \<le> m_vm_ptr s"
    "ext_at s sl \<Longrightarrow> lanes_at False (mem s) (slot_offset s sl) = vals sl"
    "ext_at s sl \<Longrightarrow> ext_at s sl' \<Longrightarrow> slot_offset s sl = slot_offset s sl' \<Longrightarrow> sl = sl'"
    "free_cells s (m_extvalue_free_list s (m_curr_save_level s)) fl" "distinct fl"
    "x \<in> set fl \<Longrightarrow> 8 dvd x" "x \<in> set fl \<Longrightarrow> x + 8 \<le> m_vm_ptr s" "x \<in> set fl \<Longrightarrow> ext_at s sl \<Longrightarrow> slot_offset s sl \<noteq> x"
  using assms by (auto simp: reloc_inv_def inj_on_def)

lemma free_cells_cong: "(\<And>x. x \<in> set xs \<Longrightarrow> read_nat (mem s') x 4 = read_nat (mem s) x 4) \<Longrightarrow> free_cells s' off xs = free_cells s off xs"
  by (induction xs arbitrary: off) auto

lemma relocatable_ext: "relocatable False s = {sl. ext_at s sl \<and> m_vm_ptr s \<le> slot_offset s sl}"
  by (auto simp: relocatable_def candidate_def ext_at_def)

definition cells_only :: "save_machine \<Rightarrow> save_machine \<Rightarrow> bool" where
  "cells_only s s' \<longleftrightarrow> (\<exists>v m f a. s' = s\<lparr>m_vm_ptr := v, mem := m, m_extvalue_free_list := f, m_extvalue_active_count := a\<rparr>)"

lemma cells_onlyD:
  assumes "cells_only s s'"
  shows "op_stack s' = op_stack s" "exec_stack s' = exec_stack s" "m_curr_save_level s' = m_curr_save_level s"
    "m_vm_temp_ptr s' = m_vm_temp_ptr s" "m_vm_global s' = m_vm_global s" "m_vm_limit s' = m_vm_limit s"
    "slot_object s' = slot_object s" "slots s' = slots s" "is_global s' = is_global s" "ext_at s' = ext_at s"
    "m_widevalue_free_list s' = m_widevalue_free_list s"
  using assms by (auto simp: cells_only_def slot_object_def slots_def is_global_def ext_at_def fun_eq_iff split: slot.splits)

lemma alloc_ext:
  assumes inv: "reloc_inv s vals fl" and sl: "ext_at s sl" "m_vm_ptr s \<le> slot_offset s sl"
  shows "\<exists>new s1 fl'. alloc_local False s = (Value new, s1) \<and> cells_only s s1 \<and> 8 dvd new \<and> 0 < new \<and>
    (m_vm_ptr s1 = m_vm_ptr s \<and> new + 8 \<le> m_vm_ptr s \<or> m_vm_ptr s \<le> new \<and> new \<le> slot_offset s sl \<and> m_vm_ptr s1 = new + 8) \<and>
    (\<forall>y. y \<notin> span new 8 \<longrightarrow> mem s1 y = mem s y) \<and> (m_vm_ptr s \<le> new \<longrightarrow> mem s1 = mem s) \<and>
    (\<forall>sl'. ext_at s sl' \<longrightarrow> slot_offset s sl' = new \<longrightarrow> m_vm_ptr s \<le> new) \<and>
    free_cells s1 (m_extvalue_free_list s1 (m_curr_save_level s)) fl' \<and> distinct fl' \<and> set fl' \<subseteq> set fl - {new} \<and>
    (fl = [] \<longrightarrow> m_vm_ptr s1 = align_up 8 (m_vm_ptr s) + 8)"
proof (cases fl)
  case (Cons x xs)
  let ?l = "m_curr_save_level s" and ?p = "cell_pool False s"
  have free: "m_extvalue_free_list s ?l = x" "x \<noteq> nulloffset" "free_cells s (read_nat (mem s) x 4) xs"
    using reloc_invD(12) [OF inv] Cons by auto
  have x: "8 dvd x" "x + 8 \<le> m_vm_ptr s" "x \<notin> set xs" using reloc_invD(13-15) [OF inv] Cons by auto
  have lim: "offset_to_ptr s x = Value x" using free(2) x(2) reloc_invD(2-4) [OF inv] by (simp add: offset_to_ptr_def)
  let ?p1 = "?p\<lparr>p_free := (p_free ?p)(?l := cell_next ?p x), p_mem := (p_mem ?p)(x := hd (p_mem ?p x) # [0]), p_active := p_active ?p + 1\<rparr>"
  have "cell_alloc_local ext_class ?l ?p s = (Value x, ?p1, s)"
    using free lim by (simp add: cell_alloc_local_def cell_pool_def ext_class_def Let_def)
  then have run: "alloc_local False s = (Value x, put_cell False x ?p1 s)" by (simp add: alloc_local_def cell_class_of_def)
  let ?s1 = "put_cell False x ?p1 s"
  have m1: "mem ?s1 y = mem s y" if "y \<notin> span x 8" for y
    using that by (simp add: put_cell_def put_pool_def put_lanes_out)
  have "cell_next ?p x = read_nat (mem s) x 4"
  proof -
    have "hd (p_mem ?p x) = word_of_nat (read_nat (mem s) x 4)" by (simp add: cell_pool_def lanes_at_def cell_lane_count_def upt_rec)
    moreover have "read_nat (mem s) x 4 < 2 ^ 32" using le_nat_less [of "read_bytes (mem s) x 4"] by (simp add: read_nat_def)
    ultimately show ?thesis by (simp add: cell_next_def unat_of_nat take_bit_nat_eq_self)
  qed
  moreover have "free_cells ?s1 off xs = free_cells s off xs" for off
  proof (rule free_cells_cong)
    fix y assume y: "y \<in> set xs"
    have "span x 8 \<inter> span y 8 = {}" using span8_disjoint [of x y] x reloc_invD(14) [OF inv, of y] y Cons by auto
    then show "read_nat (mem ?s1) y 4 = read_nat (mem s) y 4" by (intro read_nat_cong m1) (auto simp: span_def)
  qed
  ultimately have "free_cells ?s1 (m_extvalue_free_list ?s1 ?l) xs" using free(3) by (simp add: put_cell_def put_pool_def)
  moreover have "cells_only s ?s1" 
    unfolding cells_only_def put_cell_def put_pool_def
    by (intro exI [of _ "m_vm_ptr s"] exI [of _ "mem ?s1"] exI [of _ "p_free ?p1"] exI [of _ "p_active ?p1"])
      (simp add: put_cell_def put_pool_def)
  moreover have "slot_offset s sl' \<noteq> x" if "ext_at s sl'" for sl' using reloc_invD(16) [OF inv _ that, of x] Cons by simp
  moreover have "distinct xs" "0 < x" using reloc_invD(13) [OF inv] Cons free(2) by (auto simp: nulloffset_def)
  ultimately show ?thesis using run x m1 Cons
    by (intro exI [of _ x] exI [of _ ?s1] exI [of _ xs]) (auto simp: put_cell_def put_pool_def)
next
  case Nil
  let ?new = "align_up 8 (m_vm_ptr s)" and ?p = "cell_pool False s"
  have free: "m_extvalue_free_list s (m_curr_save_level s) = nulloffset" using reloc_invD(12) [OF inv] Nil by simp
  have new: "8 dvd ?new" "m_vm_ptr s \<le> ?new" "?new \<le> slot_offset s sl"
    using align_up_ge [of 8 "m_vm_ptr s"] align_up_8_le [OF reloc_invD(6) [OF inv sl(1)] sl(2)] by (simp_all add: align_up_dvd)
  have fits: "?new + 8 \<le> m_vm_temp_ptr s" using new(3) reloc_invD(8) [OF inv sl(1)] by linarith
  let ?p1 = "?p\<lparr>p_active := p_active ?p + 1\<rparr>" and ?s0 = "s\<lparr>m_vm_ptr := ?new + 8\<rparr>"
  have "cell_alloc_local ext_class (m_curr_save_level s) ?p s = (Value ?new, ?p1, ?s0)"
    using free fits by (simp add: cell_alloc_local_def cell_pool_def ext_class_def Let_def vm_alloc_ptr_def align_vm_ptr_def)
  moreover have same: "put_lanes ?new (p_mem ?p1 ?new) (mem s) = mem s" by (simp add: cell_pool_def put_lanes_same)
  ultimately have run: "alloc_local False s = (Value ?new, put_pool False ?p1 ?s0)"
    by (simp add: alloc_local_def cell_class_of_def put_cell_def put_pool_def)
  have "cells_only s (put_pool False ?p1 ?s0)"
    unfolding cells_only_def put_pool_def
    by (intro exI [of _ "?new + 8"] exI [of _ "mem s"] exI [of _ "p_free ?p1"] exI [of _ "p_active ?p1"]) simp
  then show ?thesis using run new reloc_invD(1) [OF inv] free Nil
    by (intro exI [of _ ?new] exI [of _ "put_pool False ?p1 ?s0"] exI [of _ "[]"]) (auto simp: put_pool_def cell_pool_def)
qed

lemma mem_update_slots [simp]: "slot_object (s\<lparr>mem := m\<rparr>) sl = slot_object s sl" "slots (s\<lparr>mem := m\<rparr>) = slots s"
  by (cases sl) (simp_all add: slot_object_def slots_def)

lemma set_slot_simps:
  assumes "sl \<in> slots s"
  shows "slot_object (set_slot sl ob s) sl' = (if sl' = sl then ob else slot_object s sl')" "slots (set_slot sl ob s) = slots s"
  using assms by (cases sl; cases sl'; auto simp: slot_object_def set_slot_def slots_def nth_list_update)+

lemma set_slot_fields [simp]:
  "mem (set_slot sl ob s) = mem s" "m_vm_ptr (set_slot sl ob s) = m_vm_ptr s" "m_vm_temp_ptr (set_slot sl ob s) = m_vm_temp_ptr s"
  "m_vm_global (set_slot sl ob s) = m_vm_global s" "m_vm_limit (set_slot sl ob s) = m_vm_limit s"
  "m_curr_save_level (set_slot sl ob s) = m_curr_save_level s" "m_extvalue_free_list (set_slot sl ob s) = m_extvalue_free_list s"
  "m_widevalue_free_list (set_slot sl ob s) = m_widevalue_free_list s"
  by (cases sl; simp add: set_slot_def)+

text \<open>The object of a moved number: its new level and cell, and an address without its cached state.\<close>

definition moved_number :: "nat \<Rightarrow> nat \<Rightarrow> object \<Rightarrow> object" where
  "moved_number level off ob =
     (if o_type ob = TAddress
      then ob\<lparr>m_extvalue_save_level := level, m_offset := off, o_executable := False, o_special := False\<rparr>
      else ob\<lparr>m_extvalue_save_level := level, m_offset := off\<rparr>)"

lemma moved_number_simps [simp]:
  "o_type (moved_number l off ob) = o_type ob" "m_offset (moved_number l off ob) = off"
  "uses_extvalue (moved_number l off ob) = uses_extvalue ob"
  by (simp_all add: moved_number_def uses_extvalue_def has_attr_def)

lemma relocate_step:
  assumes inv: "reloc_inv s vals fl" and sl: "sl \<in> relocatable False s"
    and low: "\<And>sl'. sl' \<in> relocatable False s \<Longrightarrow> slot_offset s sl \<le> slot_offset s sl'"
    and alive: "tl (vals sl) \<noteq> dead_mark ext_class (slot_offset s sl)"
  shows "\<exists>s' fl' new. relocate_ext sl s = (Value (), s') \<and> reloc_inv s' vals fl' \<and> relocatable False s' = relocatable False s - {sl} \<and>
    slots s' = slots s \<and> (\<forall>sl'. slot_object s' sl' =
      (if sl' = sl then moved_number (m_curr_save_level s) new (slot_object s sl) else slot_object s sl')) \<and>
    ext_at s' = ext_at s \<and> m_curr_save_level s' = m_curr_save_level s \<and> m_widevalue_free_list s' = m_widevalue_free_list s \<and>
    m_vm_ptr s \<le> m_vm_ptr s' \<and> m_vm_global s' = m_vm_global s \<and>
    (fl = [] \<longrightarrow> fl' = [] \<and> m_vm_ptr s' = align_up 8 (m_vm_ptr s) + 8)"
proof -
  have e: "ext_at s sl" "m_vm_ptr s \<le> slot_offset s sl" using sl by (auto simp: relocatable_ext)
  let ?old = "slot_offset s sl"
  obtain new s1 fl' where al: "alloc_local False s = (Value new, s1)" "cells_only s s1" "8 dvd new" "0 < new"
      "m_vm_ptr s1 = m_vm_ptr s \<and> new + 8 \<le> m_vm_ptr s \<or> m_vm_ptr s \<le> new \<and> new \<le> ?old \<and> m_vm_ptr s1 = new + 8"
      "\<And>y. y \<notin> span new 8 \<Longrightarrow> mem s1 y = mem s y" "m_vm_ptr s \<le> new \<Longrightarrow> mem s1 = mem s"
      "\<And>sl'. ext_at s sl' \<Longrightarrow> slot_offset s sl' = new \<Longrightarrow> m_vm_ptr s \<le> new"
      "free_cells s1 (m_extvalue_free_list s1 (m_curr_save_level s)) fl'" "distinct fl'" "set fl' \<subseteq> set fl - {new}"
      "fl = [] \<Longrightarrow> m_vm_ptr s1 = align_up 8 (m_vm_ptr s) + 8"
    using alloc_ext [OF inv e] by blast
  note c = cells_onlyD [OF al(2)]
  let ?m = "put_lanes new (lanes_at False (mem s1) ?old) (mem s1)"
  let ?ob = "moved_number (m_curr_save_level s) new (slot_object s sl)"
  let ?s' = "set_slot sl ?ob (s1\<lparr>mem := ?m\<rparr>)"
  have valid: "cell_valid ext_class (cell_pool False s) s ?old"
    using reloc_invD(3-5) [OF inv] reloc_invD(6-8) [OF inv e(1)] reloc_invD(10) [OF inv e(1)] alive
    by (simp add: cell_valid_def valid_offset_def cell_dead_def cell_pool_def ext_class_def nulloffset_def)
  have run: "relocate_ext sl s = (Value (), ?s')"
    using al(1) valid c(3) by (simp add: relocate_ext_def read_cell_def cell_class_of_def moved_number_def clear_address_cache_def gets_def)
  have slin: "sl \<in> slots (s1\<lparr>mem := ?m\<rparr>)" using sl c(8) by (simp add: relocatable_def)
  have obj: "slot_object ?s' sl' = (if sl' = sl then ?ob else slot_object s sl')" for sl'
    using set_slot_simps(1) [OF slin] c(7) by simp
  have sls: "slots ?s' = slots s" using set_slot_simps(2) [OF slin] c(8) by simp
  have new_le: "new \<le> ?old" "new + 8 \<le> m_vm_ptr s1" "m_vm_ptr s \<le> m_vm_ptr s1" "m_vm_ptr s1 \<le> ?old + 8"
    using al(5) e(2) by auto
  have ext: "ext_at ?s' = ext_at s"
    using new_le(1) e(1) c(5) by (auto simp: fun_eq_iff ext_at_def obj sls is_global_def)
  have span: "span new 8 \<inter> span x 8 = {}" if "8 dvd x" "x \<noteq> new" for x by (rule span8_disjoint [OF al(3) that(1)]) (use that in simp)
  have keep: "mem ?s' y = mem s y" if "y \<notin> span new 8" for y
    using that al(6) [OF that] by (simp add: put_lanes_out cell_lane_count_def)
  have old: "lanes_at False (mem s1) ?old = vals sl"
  proof (cases "new = ?old")
    case True
    then show ?thesis using al(7) e(2) reloc_invD(10) [OF inv e(1)] by simp
  next
    case False
    then have "lanes_at False (mem s1) ?old = lanes_at False (mem s) ?old"
      using span [OF reloc_invD(6) [OF inv e(1)]] al(6) by (intro lanes_at_cong) (auto simp: cell_lane_count_def)
    then show ?thesis using reloc_invD(10) [OF inv e(1)] by simp
  qed
  have other: "slot_offset s sl' \<noteq> new \<and> (slot_offset s sl' \<ge> m_vm_ptr s \<longrightarrow> slot_offset s sl' \<ge> ?old + 8)"
    if o: "ext_at s sl'" "sl' \<noteq> sl" for sl'
  proof -
    have "slot_offset s sl' \<noteq> ?old" using reloc_invD(11) [OF inv o(1) e(1)] o(2) by blast
    moreover have "?old \<le> slot_offset s sl'" if "m_vm_ptr s \<le> slot_offset s sl'" using low o(1) that by (simp add: relocatable_ext)
    moreover have "8 dvd slot_offset s sl'" "8 dvd ?old" using reloc_invD(6) [OF inv] o(1) e(1) by auto
    ultimately have far: "?old + 8 \<le> slot_offset s sl'" if "m_vm_ptr s \<le> slot_offset s sl'" using that by (auto elim!: dvdE)
    moreover have "slot_offset s sl' \<noteq> new" using al(8) [OF o(1)] far new_le(1) by fastforce
    ultimately show ?thesis by blast
  qed
  have vals: "lanes_at False (mem ?s') (slot_offset ?s' sl') = vals sl'" if o: "ext_at s sl'" for sl'
  proof (cases "sl' = sl")
    case True
    have "slot_offset ?s' sl' = new" using True by (simp add: obj)
    then show ?thesis using True old lanes_at_put [OF length_lanes_at [of False "mem s1" ?old]] by (simp only:) simp
  next
    case False
    have "lanes_at False (mem ?s') (slot_offset s sl') = lanes_at False (mem s) (slot_offset s sl')"
      using span [OF reloc_invD(6) [OF inv o]] other [OF o False] keep by (intro lanes_at_cong) (auto simp: cell_lane_count_def)
    then show ?thesis using False reloc_invD(10) [OF inv o] by (simp add: obj)
  qed
  have free: "free_cells ?s' (m_extvalue_free_list ?s' (m_curr_save_level ?s')) fl'"
  proof -
    have "read_nat (mem ?s') y 4 = read_nat (mem s1) y 4" if y: "y \<in> set fl'" for y
      using span [of y] reloc_invD(14) [OF inv, of y] y al(11)
      by (intro read_nat_cong) (force simp: put_lanes_out cell_lane_count_def span_def)
    then have "free_cells ?s' off fl' = free_cells s1 off fl'" for off by (intro free_cells_cong) blast
    then show ?thesis using al(9) c(3) by simp
  qed
  have ptr: "m_vm_ptr s1 \<le> m_vm_temp_ptr s" using new_le(4) reloc_invD(8) [OF inv e(1)] by linarith
  have "reloc_inv ?s' vals fl'"
    unfolding reloc_inv_def ext
  proof (intro conjI allI impI ballI)
    show "0 < m_vm_ptr ?s'" "m_vm_ptr ?s' \<le> m_vm_temp_ptr ?s'" using ptr c(4) reloc_invD(1) [OF inv] new_le(3) by simp_all
    show "m_vm_temp_ptr ?s' \<le> m_vm_global ?s'" "m_vm_global ?s' \<le> m_vm_limit ?s'" "m_vm_limit ?s' < 2 ^ 32 - 1"
      using reloc_invD(3-5) [OF inv] c(4-6) by simp_all
    show "inj_on (slot_offset ?s') {sl. ext_at s sl}"
      using other reloc_invD(11) [OF inv] by (auto simp: inj_on_def obj)
    show "free_cells ?s' (m_extvalue_free_list ?s' (m_curr_save_level ?s')) fl'" by (rule free)
    show "distinct fl'" by (rule al(10))
    fix sl' assume o: "ext_at s sl'"
    show "8 dvd slot_offset ?s' sl'" "0 < slot_offset ?s' sl'" using al(3,4) reloc_invD(6,7) [OF inv o] by (simp_all add: obj)
    show "slot_offset ?s' sl' + 8 \<le> m_vm_temp_ptr ?s'" using ptr new_le(2) c(4) reloc_invD(8) [OF inv o] by (simp add: obj)
    show "slot_offset ?s' sl' + 8 \<le> m_vm_ptr ?s'" if "slot_offset ?s' sl' < m_vm_ptr ?s'"
    proof (cases "sl' = sl")
      case False
      then have "slot_offset s sl' < m_vm_ptr s" using that other [OF o False] new_le(4) by (fastforce simp: obj)
      then show ?thesis using reloc_invD(9) [OF inv o] new_le(3) False by (simp add: obj)
    qed (use new_le(2) in \<open>simp add: obj\<close>)
    show "lanes_at False (mem ?s') (slot_offset ?s' sl') = vals sl'" by (rule vals [OF o])
  next
    fix x assume x: "x \<in> set fl'"
    then have xs: "x \<in> set fl" "x \<noteq> new" using al(11) by auto
    show "8 dvd x" "x + 8 \<le> m_vm_ptr ?s'" using reloc_invD(14,15) [OF inv xs(1)] new_le(3) by simp_all
    show "slot_offset ?s' sl' \<noteq> x" if "ext_at s sl'" for sl' using reloc_invD(16) [OF inv xs(1) that] xs(2) by (simp add: obj)
  qed
  moreover have "relocatable False ?s' = relocatable False s - {sl}"
  proof (rule set_eqI)
    fix sl'
    have "sl' \<in> relocatable False s \<longleftrightarrow> sl' \<in> relocatable False ?s'" if "ext_at s sl'" "sl' \<noteq> sl"
      using other [OF that] that new_le(3,4) by (auto simp: relocatable_ext ext obj)
    moreover have "sl \<notin> relocatable False ?s'" using new_le(2) by (simp add: relocatable_ext obj)
    ultimately show "sl' \<in> relocatable False ?s' \<longleftrightarrow> sl' \<in> relocatable False s - {sl}" by (auto simp: relocatable_ext ext)
  qed
  moreover have "m_curr_save_level ?s' = m_curr_save_level s" "m_widevalue_free_list ?s' = m_widevalue_free_list s" "m_vm_global ?s' = m_vm_global s"
    "m_vm_ptr s \<le> m_vm_ptr ?s'" "fl = [] \<longrightarrow> fl' = [] \<and> m_vm_ptr ?s' = align_up 8 (m_vm_ptr s) + 8"
    using c(3,5,11) new_le(3) al(11,12) by auto
  ultimately show ?thesis using run sls ext
    by (intro exI [of _ ?s'] exI [of _ fl'] exI [of _ new] conjI allI obj)
qed

lemma finite_relocatable: "finite (relocatable wide s)"
  by (rule finite_subset [of _ "slots s"]) (auto simp: relocatable_def slots_def)

lemma relocate_loop:
  assumes "reloc_inv s vals fl" "card (relocatable False s) = n"
    "\<And>sl. sl \<in> relocatable False s \<Longrightarrow> tl (vals sl) \<noteq> dead_mark ext_class (slot_offset s sl)"
  shows "\<exists>s' fl'. relocate False n s = (Value (), s') \<and> reloc_inv s' vals fl' \<and> relocatable False s' = {} \<and> ext_at s' = ext_at s \<and> slots s' = slots s \<and>
    m_curr_save_level s' = m_curr_save_level s \<and> m_widevalue_free_list s' = m_widevalue_free_list s \<and> m_vm_global s' = m_vm_global s \<and>
    m_vm_ptr s \<le> m_vm_ptr s' \<and> (fl = [] \<longrightarrow> 8 dvd m_vm_ptr s \<longrightarrow> m_vm_ptr s' = m_vm_ptr s + 8 * n) \<and>
    (\<forall>sl. if sl \<in> relocatable False s then (\<exists>new. slot_object s' sl = moved_number (m_curr_save_level s) new (slot_object s sl)) else slot_object s' sl = slot_object s sl)"
  using assms
proof (induction n arbitrary: s fl)
  case 0
  then have "relocatable False s = {}" using finite_relocatable by auto
  then show ?case using 0 by (auto simp: ret_def)
next
  case (Suc n)
  have "relocatable False s \<noteq> {}" using Suc.prems(2) by auto
  moreover have "slot_offset s sl < 2 ^ 32 - 1" if "sl \<in> relocatable False s" for sl
    using reloc_invD(3-5) [OF Suc.prems(1)] reloc_invD(8) [OF Suc.prems(1), of sl] that by (simp add: relocatable_ext)
  ultimately obtain sl where sl: "sl \<in> relocatable False s" "find_lowest_relocatable False s = Some sl"
    "\<And>sl'. sl' \<in> relocatable False s \<Longrightarrow> slot_offset s sl \<le> slot_offset s sl'"
    using find_lowest_some [of False s] by blast
  obtain s1 fl1 new where one: "relocate_ext sl s = (Value (), s1)" "reloc_inv s1 vals fl1"
    "relocatable False s1 = relocatable False s - {sl}" "slots s1 = slots s"
    "\<And>sl'. slot_object s1 sl' = (if sl' = sl then moved_number (m_curr_save_level s) new (slot_object s sl) else slot_object s sl')"
    "ext_at s1 = ext_at s" "m_curr_save_level s1 = m_curr_save_level s" "m_widevalue_free_list s1 = m_widevalue_free_list s"
    "m_vm_ptr s \<le> m_vm_ptr s1" "m_vm_global s1 = m_vm_global s" "fl = [] \<Longrightarrow> fl1 = []" "fl = [] \<Longrightarrow> m_vm_ptr s1 = align_up 8 (m_vm_ptr s) + 8"
    using relocate_step [OF Suc.prems(1) sl(1) sl(3) Suc.prems(3) [OF sl(1)]] by blast
  have "card (relocatable False s1) = n" using Suc.prems(2) sl(1) one(3) finite_relocatable [of False s] by simp
  moreover have "tl (vals sl') \<noteq> dead_mark ext_class (slot_offset s1 sl')" if "sl' \<in> relocatable False s1" for sl'
    using that Suc.prems(3) [of sl'] one(3,5) by simp
  ultimately obtain s2 fl2 where rest: "relocate False n s1 = (Value (), s2)" "reloc_inv s2 vals fl2" "relocatable False s2 = {}"
    "ext_at s2 = ext_at s1" "slots s2 = slots s1"
    "m_curr_save_level s2 = m_curr_save_level s1" "m_widevalue_free_list s2 = m_widevalue_free_list s1" "m_vm_global s2 = m_vm_global s1"
    "m_vm_ptr s1 \<le> m_vm_ptr s2" "fl1 = [] \<Longrightarrow> 8 dvd m_vm_ptr s1 \<Longrightarrow> m_vm_ptr s2 = m_vm_ptr s1 + 8 * n"
    "\<And>sl'. if sl' \<in> relocatable False s1 then (\<exists>new. slot_object s2 sl' = moved_number (m_curr_save_level s1) new (slot_object s1 sl')) else slot_object s2 sl' = slot_object s1 sl'"
    using Suc.IH [OF one(2)] by blast
  have "relocate False (Suc n) s = (Value (), s2)" using sl(2) one(1) rest(1) by (simp add: gets_def)
  moreover have "if sl' \<in> relocatable False s then (\<exists>new. slot_object s2 sl' = moved_number (m_curr_save_level s) new (slot_object s sl')) else slot_object s2 sl' = slot_object s sl'" for sl'
  proof (cases "sl' = sl")
    case True
    have "slot_object s2 sl = slot_object s1 sl" using rest(11) [of sl] one(3) by simp
    then show ?thesis using True sl(1) one(5) [of sl] by auto
  next
    case False
    then show ?thesis using rest(11) [of sl'] one(3,7) one(5) [of sl'] by (cases "sl' \<in> relocatable False s") simp_all
  qed
  moreover have "m_vm_ptr s2 = m_vm_ptr s + 8 * Suc n" if "fl = []" "8 dvd m_vm_ptr s"
    using rest(10) one(11,12) that by (simp add: align_up_same)
  ultimately show ?case using rest(2-9) one(4,6-10) 
    by (intro exI [of _ s2] exI [of _ fl2] conjI allI) (simp_all split del: if_split)
qed

section \<open>All extended values\<close>

definition free_lists_ok :: "bool \<Rightarrow> save_machine \<Rightarrow> bool" where
  "free_lists_ok wide s \<longleftrightarrow> m_vm_ptr s \<le> m_vm_limit s \<and>
     (\<forall>lvl\<le>m_curr_save_level s. \<exists>fl. free_cells s (p_free (cell_pool wide s) lvl) fl \<and> (\<forall>x\<in>set fl. x < m_vm_ptr s))"

lemma free_list_below_ok:
  "free_cells s off fl \<Longrightarrow> \<forall>x\<in>set fl. x < barrier \<Longrightarrow> barrier \<le> m_vm_limit s \<Longrightarrow> free_list_below wide barrier off s = Some (Value ())"
proof (induction fl arbitrary: off)
  case (Cons x fl)
  then show ?case by (subst free_list_below.simps) (simp add: offset_to_ptr_def)
qed (simp add: free_list_below.simps)

lemma for_each_skip: "(\<And>x. x \<in> set xs \<Longrightarrow> f x s = (Value (), s)) \<Longrightarrow> for_each xs f s = (Value (), s)"
  by (induction xs) simp_all

lemma clear_free_lists_fields [simp]:
  "m_vm_ptr (clear_free_lists w s) = m_vm_ptr s" "m_vm_limit (clear_free_lists w s) = m_vm_limit s" "mem (clear_free_lists w s) = mem s"
  "m_vm_temp_ptr (clear_free_lists w s) = m_vm_temp_ptr s" "m_vm_global (clear_free_lists w s) = m_vm_global s"
  "m_curr_save_level (clear_free_lists w s) = m_curr_save_level s" "slot_object (clear_free_lists w s) sl = slot_object s sl"
  "slots (clear_free_lists w s) = slots s" "m_widevalue_free_list (clear_free_lists False s) = m_widevalue_free_list s"
  "is_global (clear_free_lists w s) off = is_global s off"
  "lvl \<le> m_curr_save_level s \<Longrightarrow> p_free (cell_pool w' (clear_free_lists w s)) lvl = p_free (cell_pool w' s) lvl"
  by (auto simp: clear_free_lists_def put_pool_def cell_pool_def Let_def slot_object_def slots_def is_global_def split: slot.split)

lemma clear_ext_at [simp]: "ext_at (clear_free_lists w s) = ext_at s"
  by (simp add: ext_at_def fun_eq_iff)

lemma clear_relocatable [simp]: "relocatable wide (clear_free_lists w s) = relocatable wide s"
  by (auto simp: relocatable_def candidate_def)

lemma clear_free_cells: "free_cells (clear_free_lists w s) off fl = free_cells s off fl"
  by (rule free_cells_cong) simp

lemma clear_reloc_inv: "reloc_inv s vals fl \<Longrightarrow> reloc_inv (clear_free_lists False s) vals fl"
proof -
  have "m_extvalue_free_list (clear_free_lists False s) (m_curr_save_level s) = m_extvalue_free_list s (m_curr_save_level s)"
    by (simp add: clear_free_lists_def put_pool_def cell_pool_def Let_def)
  then show "reloc_inv s vals fl \<Longrightarrow> ?thesis" by (simp add: reloc_inv_def clear_free_cells)
qed

lemma relocate_cleared:
  assumes "reloc_inv s vals fl" "\<forall>sl\<in>relocatable False s. tl (vals sl) \<noteq> dead_mark ext_class (slot_offset s sl)"
  shows "\<exists>s' fl'. relocate False (card (relocatable False s)) (clear_free_lists False s) = (Value (), s') \<and> reloc_inv s' vals fl' \<and>
    relocatable False s' = {} \<and> ext_at s' = ext_at s \<and> slots s' = slots s \<and>
    m_curr_save_level s' = m_curr_save_level s \<and> m_widevalue_free_list s' = m_widevalue_free_list s \<and> m_vm_global s' = m_vm_global s \<and>
    m_vm_ptr s \<le> m_vm_ptr s' \<and> (fl = [] \<longrightarrow> 8 dvd m_vm_ptr s \<longrightarrow> m_vm_ptr s' = m_vm_ptr s + 8 * card (relocatable False s)) \<and>
    (\<forall>sl. if sl \<in> relocatable False s then (\<exists>new. slot_object s' sl = moved_number (m_curr_save_level s) new (slot_object s sl)) else slot_object s' sl = slot_object s sl)"
  using relocate_loop [OF clear_reloc_inv [OF assms(1)], of "card (relocatable False s)"] assms(2) by (simp cong: if_cong)

lemma cells_restore_relocates: "free_lists_ok wide s \<Longrightarrow> cells_restore wide n s = relocate wide n (clear_free_lists wide s)"
proof -
  assume ok: "free_lists_ok wide s"
  let ?s = "clear_free_lists wide s"
  have "free_list_below wide (m_vm_ptr s) (p_free (cell_pool wide ?s) lvl) ?s = Some (Value ())" if lvl: "lvl \<le> m_curr_save_level s" for lvl
  proof -
    obtain fl where "free_cells s (p_free (cell_pool wide s) lvl) fl" "\<forall>x\<in>set fl. x < m_vm_ptr s" "m_vm_ptr s \<le> m_vm_limit s"
      using ok lvl by (auto simp: free_lists_ok_def)
    then show ?thesis using lvl by (intro free_list_below_ok [of _ _ fl]) (simp_all add: clear_free_cells)
  qed
  then have "for_each [0..<Suc (m_curr_save_level ?s)] (\<lambda>lvl s1. (case free_list_below wide (m_vm_ptr ?s) (p_free (cell_pool wide s1) lvl) s1 of
      None \<Rightarrow> Diverge | Some r \<Rightarrow> r, s1)) ?s = (Value (), ?s)"
    by (intro for_each_skip) (simp del: upt_Suc)
  then show ?thesis unfolding cells_restore_def by (simp del: upt_Suc for_each.simps)
qed

text \<open>
  C36. Restoring a level keeps every extended number on the operand and execution stacks: \<open>ExtValue::restore\<close>, called
  with the number of cells above the heap pointer, returns, every such number still has its value, in a
  cell of its own below the new heap pointer. A moved object changes only in its cell and save level, and an address also
  drops its cached state; no other object on the stacks changes at all. The cells are moved over
  each other, lowest first, so no value is overwritten before it is moved.
\<close>

theorem extended_numbers_survive:
  assumes inv: "reloc_inv s vals fl" and lists: "free_lists_ok False s"
    and alive: "\<forall>sl\<in>relocatable False s. tl (vals sl) \<noteq> dead_mark ext_class (m_offset (slot_object s sl))"
  shows "\<exists>s'. cells_restore False (card (relocatable False s)) s = (Value (), s') \<and>
    (\<forall>sl. ext_at s sl \<longrightarrow>
      lanes_at False (mem s') (m_offset (slot_object s' sl)) = lanes_at False (mem s) (m_offset (slot_object s sl)) \<and>
      m_offset (slot_object s' sl) + 8 \<le> m_vm_ptr s') \<and>
    inj_on (\<lambda>sl. m_offset (slot_object s' sl)) {sl. ext_at s sl} \<and>
    (\<forall>sl. if sl \<in> relocatable False s then (\<exists>new. slot_object s' sl = moved_number (m_curr_save_level s) new (slot_object s sl)) else slot_object s' sl = slot_object s sl)"
proof -
  let ?s = "clear_free_lists False s"
  obtain s' fl' where r: "relocate False (card (relocatable False s)) ?s = (Value (), s')" "reloc_inv s' vals fl'" "relocatable False s' = {}"
      "ext_at s' = ext_at s"
      "\<And>sl. if sl \<in> relocatable False s then (\<exists>new. slot_object s' sl = moved_number (m_curr_save_level s) new (slot_object s sl)) else slot_object s' sl = slot_object s sl"
    using relocate_cleared [OF inv alive] by blast
  have "m_offset (slot_object s' sl) < m_vm_ptr s'" if "ext_at s sl" for sl
    using r(3,4) that by (auto simp: relocatable_ext not_le)
  then have "lanes_at False (mem s') (slot_offset s' sl) = lanes_at False (mem s) (slot_offset s sl) \<and> slot_offset s' sl + 8 \<le> m_vm_ptr s'"
    if "ext_at s sl" for sl
    using reloc_invD(9,10) [OF r(2), of sl] reloc_invD(10) [OF inv that] r(4) that by simp
  moreover have "inj_on (slot_offset s') {sl. ext_at s sl}" using reloc_invD(11) [OF r(2)] r(4) by (auto simp: inj_on_def)
  ultimately show ?thesis using r(1,5) cells_restore_relocates [OF lists] by (intro exI [of _ s']) simp
qed

text \<open>
  C37. The extended numbers are moved before the 128-bit numbers, which loses the latter: when the cell of a 128-bit number
  lies within the bytes that the moved extended numbers need, the heap pointer has passed it before
  \<open>WideValue::restore\<close> looks for it, so \<open>restore\<close> ends in an internal error with the levels already rolled back.
\<close>

theorem wide_number_lost:
  assumes inv: "reloc_inv s vals []" and lists: "free_lists_ok False s" "\<forall>lvl\<le>m_curr_save_level s. m_widevalue_free_list s lvl = nulloffset"
    and alive: "\<forall>sl\<in>relocatable False s. tl (vals sl) \<noteq> dead_mark ext_class (m_offset (slot_object s sl))"
    and wide: "relocatable True s = {w}" "m_offset (slot_object s w) < m_vm_ptr s + 8 * card (relocatable False s)" and al: "8 dvd m_vm_ptr s"
  shows "fst (seq (cells_restore False (card (relocatable False s))) (\<lambda>_. cells_restore True 1) s) = Raise InternalError"
proof -
  let ?s = "clear_free_lists False s" and ?n = "card (relocatable False s)"
  obtain s' fl' where r: "relocate False ?n ?s = (Value (), s')" "reloc_inv s' vals fl'" "slots s' = slots s"
      "\<And>sl. if sl \<in> relocatable False s then (\<exists>new. slot_object s' sl = moved_number (m_curr_save_level s) new (slot_object s sl)) else slot_object s' sl = slot_object s sl"
      "m_vm_ptr s' = m_vm_ptr s + 8 * ?n" "m_widevalue_free_list s' = m_widevalue_free_list s" "m_curr_save_level s' = m_curr_save_level s"
      "m_vm_global s' = m_vm_global s"
    using relocate_cleared [OF inv alive] al by blast
  have "relocatable True s' = {}"
  proof -
    have "sl \<notin> relocatable True s'" for sl
    proof (cases "sl \<in> relocatable False s")
      case True
      then have "o_type (slot_object s' sl) = o_type (slot_object s sl)" using r(4) [of sl] by auto
      moreover have "uses_extvalue (slot_object s sl)" using True by (simp add: relocatable_def candidate_def)
      ultimately show ?thesis by (auto simp: relocatable_def candidate_def uses_extvalue_def has_attr_def uses_widevalue_def)
    next
      case False
      then have "slot_object s' sl = slot_object s sl" using r(4) [of sl] by simp
      then have "sl \<in> relocatable True s' \<Longrightarrow> sl \<in> relocatable True s \<and> m_vm_ptr s' \<le> slot_offset s sl"
        using r(3,5,8) by (auto simp: relocatable_def candidate_def is_global_def)
      then show ?thesis using wide r(5) by auto
    qed
    then show ?thesis by blast
  qed
  moreover have "free_lists_ok True s'" unfolding free_lists_ok_def
    using lists(2) r(6,7) reloc_invD(2-4) [OF r(2)] by (auto simp: cell_pool_def intro!: exI [of _ "[]"])
  ultimately have "cells_restore True 1 s' = (Raise InternalError, clear_free_lists True s')"
    by (simp add: cells_restore_relocates find_lowest_none)
  then show ?thesis using r(1) cells_restore_relocates [OF lists(1)] by simp
qed

text \<open>
  A machine rolled back to offset 512, with a 128-bit number at 520 and two longs at 536 and 544 on
  the operand stack.
\<close>

definition number_at :: "otype \<Rightarrow> nat \<Rightarrow> object" where
  "number_at ty off = (make_object ty 0)\<lparr>m_extvalue_save_level := 1, m_offset := off\<rparr>"

definition mixed_example :: save_machine where
  "mixed_example = (save_example 1 512)\<lparr>m_vm_ptr := 512, m_curr_save_level := 0,
     op_stack := [number_at TLong 544, number_at TLong 536, number_at TInt128 520]\<rparr>"

lemma mixed_slots: "slots mixed_example = {OpSlot 0, OpSlot 1, OpSlot 2}"
  by (auto simp: slots_def mixed_example_def save_example_def lessThan_Suc)

lemma mixed_fields [simp]:
  "slot_object mixed_example (OpSlot 0) = number_at TLong 544" "slot_object mixed_example (OpSlot (Suc 0)) = number_at TLong 536"
  "slot_object mixed_example (OpSlot 2) = number_at TInt128 520" "m_vm_ptr mixed_example = 512" "m_curr_save_level mixed_example = 0"
  "m_vm_temp_ptr mixed_example = 1024" "m_vm_global mixed_example = 1024" "m_vm_limit mixed_example = 1024" "mem mixed_example = (\<lambda>_. 0)"
  "m_extvalue_free_list mixed_example l = 0" "m_widevalue_free_list mixed_example l = 0"
  by (simp_all add: slot_object_def mixed_example_def save_example_def)

lemma number_at_simps [simp]: "o_type (number_at ty off) = ty" "m_offset (number_at ty off) = off"
  by (simp_all add: number_at_def make_object_def)

lemma mixed_ext: "ext_at mixed_example sl \<longleftrightarrow> sl = OpSlot 0 \<or> sl = OpSlot 1"
  by (auto simp: ext_at_def mixed_slots uses_extvalue_def has_attr_def is_global_def)

lemma mixed_relocatable: "relocatable False mixed_example = {OpSlot 0, OpSlot 1}" "relocatable True mixed_example = {OpSlot 2}"
  by (auto simp: relocatable_ext mixed_ext) (auto simp: relocatable_def candidate_def mixed_slots uses_widevalue_def is_global_def)

lemma zero_lanes: "lanes_at False (\<lambda>_. 0) off = [0, 0]"
  by (simp add: lanes_at_def cell_lane_count_def read_nat_def read_bytes_def le_nat_def upt_rec)

lemma mixed_inv: "reloc_inv mixed_example (\<lambda>_. [0, 0]) []"
  by (auto simp: reloc_inv_def mixed_ext zero_lanes nulloffset_def inj_on_def)

lemma mixed_lists: "free_lists_ok False mixed_example"
  by (auto simp: free_lists_ok_def cell_pool_def nulloffset_def intro!: exI [of _ "[]"])

lemma mixed_alive: "\<forall>sl\<in>relocatable False mixed_example. tl [0, 0] \<noteq> dead_mark ext_class (m_offset (slot_object mixed_example sl))"
  by (simp add: mixed_relocatable dead_mark_def ext_class_def)

text \<open>The same rollback with a long at 544 and an address at 536 that was found to be read-only.\<close>

definition address_example :: save_machine where
  "address_example = mixed_example\<lparr>op_stack := [number_at TLong 544, (number_at TAddress 536)\<lparr>o_special := True\<rparr>]\<rparr>"

lemma address_ext: "ext_at address_example sl \<longleftrightarrow> sl = OpSlot 0 \<or> sl = OpSlot 1"
  by (cases sl) (auto simp: ext_at_def slots_def address_example_def mixed_example_def save_example_def slot_object_def
      uses_extvalue_def has_attr_def is_global_def lessThan_Suc)

lemma address_fields [simp]:
  "slot_object address_example (OpSlot 0) = number_at TLong 544"
  "slot_object address_example (OpSlot (Suc 0)) = (number_at TAddress 536)\<lparr>o_special := True\<rparr>"
  "m_vm_ptr address_example = 512" "m_curr_save_level address_example = 0"
  "m_vm_temp_ptr address_example = 1024" "m_vm_global address_example = 1024" "m_vm_limit address_example = 1024"
  "mem address_example = (\<lambda>_. 0)" "m_extvalue_free_list address_example l = 0"
  by (simp_all add: address_example_def slot_object_def)

lemma address_relocatable: "relocatable False address_example = {OpSlot 0, OpSlot 1}"
  by (auto simp: relocatable_ext address_ext)

theorem extended_numbers_survive_witness:
  "\<exists>s'. cells_restore False 2 address_example = (Value (), s') \<and>
     (\<forall>i<2. m_offset (slot_object s' (OpSlot i)) + 8 \<le> m_vm_ptr s' \<and>
        lanes_at False (mem s') (m_offset (slot_object s' (OpSlot i))) = [0, 0]) \<and>
     o_special (slot_object address_example (OpSlot 1)) \<and> \<not> o_special (slot_object s' (OpSlot 1))"
proof -
  have inv: "reloc_inv address_example (\<lambda>_. [0, 0]) []"
    by (auto simp: reloc_inv_def address_ext zero_lanes nulloffset_def inj_on_def)
  have lists: "free_lists_ok False address_example"
    by (auto simp: free_lists_ok_def cell_pool_def nulloffset_def intro!: exI [of _ "[]"])
  have alive: "\<forall>sl\<in>relocatable False address_example. tl [0, 0] \<noteq> dead_mark ext_class (m_offset (slot_object address_example sl))"
    by (simp add: address_relocatable dead_mark_def ext_class_def)
  have c: "card (relocatable False address_example) = 2" by (simp add: address_relocatable)
  obtain s' where s': "cells_restore False 2 address_example = (Value (), s')"
      "\<And>sl. ext_at address_example sl \<Longrightarrow> lanes_at False (mem s') (m_offset (slot_object s' sl)) = [0, 0] \<and>
         m_offset (slot_object s' sl) + 8 \<le> m_vm_ptr s'"
      "\<And>sl. if sl \<in> relocatable False address_example
         then \<exists>new. slot_object s' sl = moved_number (m_curr_save_level address_example) new (slot_object address_example sl)
         else slot_object s' sl = slot_object address_example sl"
    using extended_numbers_survive [OF inv lists alive] unfolding c address_fields zero_lanes by blast
  have "\<not> o_special (slot_object s' (OpSlot 1))" using s'(3) [of "OpSlot 1"] by (auto simp: moved_number_def address_relocatable)
  moreover have "ext_at address_example (OpSlot i)" if "i < 2" for i using that by (auto simp: address_ext less_2_cases_iff)
  ultimately show ?thesis using s'(1,2) by (intro exI [of _ s']) auto
qed

theorem wide_number_lost_witness:
  "fst (seq (cells_restore False 2) (\<lambda>_. cells_restore True 1) mixed_example) = Raise InternalError"
proof -
  have "card (relocatable False mixed_example) = 2" by (simp add: mixed_relocatable)
  then show ?thesis using wide_number_lost [OF mixed_inv mixed_lists _ mixed_alive mixed_relocatable(2)] by (simp add: nulloffset_def)
qed

end
