(* ===== verification/Keys.thy ===== *)
theory Keys
  imports Names Verify
begin

text \<open>
  Objects as keys of dictionaries and sets (\<^verbatim>\<open>hash\<close> and \<^verbatim>\<open>equal\<close> of \<^verbatim>\<open>src/object.inl\<close>). A name and a string with the
  same bytes are the same key; numbers of different types are different keys. The names and the bytes of strings
  are maps from offsets; the string of the scratch literal \<open>)#=\<close> is reached through a generation number.
\<close>

section \<open>State\<close>

record key_machine = trix +
  name_at :: "nat \<Rightarrow> name"
  string_mem :: "nat \<Rightarrow> u8"
  m_eqstring_generation :: nat
  m_eqstring_offset :: nat

definition lift_trix :: "(trix, 'b) action \<Rightarrow> ('a trix_scheme, 'b) action" where
  "lift_trix f s = (case f (trix.truncate s) of (r, t) \<Rightarrow> (r, trix.extend t (trix.more s)))"

definition lift_outcome :: "('s \<Rightarrow> 'b outcome) \<Rightarrow> ('s, 'b) action" where
  "lift_outcome f s = (f s, s)"

section \<open>Names, strings and cells\<close>

definition is_eqstring_ref :: "object \<Rightarrow> bool" where
  "is_eqstring_ref ob \<longleftrightarrow> o_type ob = TString \<and> o_special ob"

definition name_value :: "object \<Rightarrow> ('a key_machine_scheme, name) action" where
  "name_value ob = seq (lift_outcome (\<lambda>s. offset_to_ptr s (m_offset ob))) (\<lambda>off. gets (\<lambda>s. name_at s off))"

definition string_data_ptr :: "object \<Rightarrow> ('a key_machine_scheme, nat) action" where
  "string_data_ptr ob s =
     (if is_eqstring_ref ob
      then if m_offset ob \<noteq> m_eqstring_generation s then (Raise Unsupported, s)
           else (offset_to_ptr s (m_eqstring_offset s), s)
      else (offset_to_ptr s (m_offset ob), s))"

definition string_bytes :: "'a key_machine_scheme \<Rightarrow> nat \<Rightarrow> nat \<Rightarrow> u8 list" where
  "string_bytes s off len = map (string_mem s) [off..<off + len]"

definition sv_value :: "object \<Rightarrow> ('a key_machine_scheme, u8 list) action" where
  "sv_value ob = seq (string_data_ptr ob) (\<lambda>off. gets (\<lambda>s. string_bytes s off (m_length ob)))"

definition ext_value :: "object \<Rightarrow> ('a key_machine_scheme, nat) action" where
  "ext_value ob = lift_trix (seq (cell_lanes ob) (\<lambda>lanes. ret (nat (lanes_nat lanes))))"

section \<open>Hash and equality\<close>

definition ascii :: "string \<Rightarrow> u8 list" where
  "ascii = map of_char"

definition fp_equal :: "fp_format \<Rightarrow> nat \<Rightarrow> nat \<Rightarrow> bool" where
  "fp_equal f a b \<longleftrightarrow> \<not> fp_isnan f a \<and> \<not> fp_isnan f b \<and> (a = b \<or> fp_iszero f a \<and> fp_iszero f b)"

definition fp_canonical :: "fp_format \<Rightarrow> nat \<Rightarrow> nat" where
  "fp_canonical f b = (if fp_iszero f b then 0 else b)"

definition hash_sv :: "u8 list \<Rightarrow> ('a key_machine_scheme, u32) action" where
  "hash_sv bs = lift_outcome (\<lambda>_. wyhash32_sv bs)"

definition hash_wide :: "nat \<Rightarrow> u32" where
  "hash_wide v = mix64_to_32 (word_of_nat v XOR word_of_nat (v div 2 ^ 64))"

definition object_hash :: "object \<Rightarrow> ('a key_machine_scheme, u32) action" where
  "object_hash ob =
     (case o_type ob of
        TNull \<Rightarrow> hash_sv (ascii ''Object::null'')
      | TByte \<Rightarrow> ret (mix32 (word_of_int (m_immediate ob)))
      | TInteger \<Rightarrow> ret (mix32 (word_of_int (m_immediate ob)))
      | TUInteger \<Rightarrow> ret (mix32 (word_of_int (m_immediate ob)))
      | TLong \<Rightarrow> seq (ext_value ob) (\<lambda>v. ret (mix64_to_32 (word_of_nat v)))
      | TULong \<Rightarrow> seq (ext_value ob) (\<lambda>v. ret (mix64_to_32 (word_of_nat v)))
      | TInt128 \<Rightarrow> seq (ext_value ob) (\<lambda>v. ret (hash_wide v))
      | TUInt128 \<Rightarrow> seq (ext_value ob) (\<lambda>v. ret (hash_wide v))
      | TAddress \<Rightarrow> seq (ext_value ob) (\<lambda>v. ret (mix64_to_32 (word_of_nat v)))
      | TReal \<Rightarrow> ret (mix32 (word_of_nat (fp_canonical binary32 (nat (m_immediate ob)))))
      | TDouble \<Rightarrow> seq (ext_value ob) (\<lambda>v. ret (mix64_to_32 (word_of_nat (fp_canonical binary64 v))))
      | TBoolean \<Rightarrow> hash_sv (ascii (if m_immediate ob \<noteq> 0 then ''Object::true'' else ''Object::false''))
      | TOperator \<Rightarrow> ret (mix32 (word_of_int (m_immediate ob) OR 0x4F500000))
      | TMark \<Rightarrow> hash_sv (ascii ''Object::mark'')
      | TName \<Rightarrow> seq (name_value ob) (\<lambda>n. ret (n_hash n))
      | TArray \<Rightarrow> ret (mix64_to_32 (push_bit 32 (word_of_nat (m_offset ob)) OR word_of_nat (m_length ob)))
      | TPacked \<Rightarrow> ret (mix64_to_32 (push_bit 32 (word_of_nat (m_offset ob)) OR word_of_nat (m_length ob)))
      | TString \<Rightarrow> seq (sv_value ob) hash_sv
      | TSourceLoc \<Rightarrow> (\<lambda>s. (Fault, s))
      | TSlotRef \<Rightarrow> (\<lambda>s. (Fault, s))
      | _ \<Rightarrow> ret (mix32 (word_of_nat (m_offset ob))))"

text \<open>The comparison of a name with a string takes the offset of the string from the object.\<close>

definition name_equals_string :: "object \<Rightarrow> object \<Rightarrow> ('a key_machine_scheme, bool) action" where
  "name_equals_string name_side str_side =
     seq (name_value name_side) (\<lambda>n.
     seq (lift_outcome (\<lambda>s. offset_to_ptr s (m_offset str_side))) (\<lambda>str s.
       (name_equal n (string_bytes s str (m_length str_side)), s)))"

definition ext_equal :: "object \<Rightarrow> object \<Rightarrow> (nat \<Rightarrow> nat \<Rightarrow> bool) \<Rightarrow> ('a key_machine_scheme, bool) action" where
  "ext_equal ob other eq = seq (ext_value ob) (\<lambda>v. seq (ext_value other) (\<lambda>w. ret (eq v w)))"

definition object_equal :: "object \<Rightarrow> object \<Rightarrow> ('a key_machine_scheme, bool) action" where
  "object_equal ob other =
     (if o_type ob = o_type other
      then case o_type ob of
             TNull \<Rightarrow> ret True
           | TByte \<Rightarrow> ret (m_immediate ob = m_immediate other)
           | TInteger \<Rightarrow> ret (m_immediate ob = m_immediate other)
           | TUInteger \<Rightarrow> ret (m_immediate ob = m_immediate other)
           | TLong \<Rightarrow> ext_equal ob other (=)
           | TULong \<Rightarrow> ext_equal ob other (=)
           | TInt128 \<Rightarrow> ext_equal ob other (=)
           | TUInt128 \<Rightarrow> ext_equal ob other (=)
           | TAddress \<Rightarrow> ext_equal ob other (=)
           | TReal \<Rightarrow> ret (fp_equal binary32 (nat (m_immediate ob)) (nat (m_immediate other)))
           | TDouble \<Rightarrow> ext_equal ob other (fp_equal binary64)
           | TBoolean \<Rightarrow> ret ((m_immediate ob \<noteq> 0) = (m_immediate other \<noteq> 0))
           | TOperator \<Rightarrow> ret (m_immediate ob = m_immediate other)
           | TMark \<Rightarrow> ret True
           | TArray \<Rightarrow> ret (m_offset ob = m_offset other \<and> m_length ob = m_length other)
           | TPacked \<Rightarrow> ret (m_offset ob = m_offset other \<and> m_length ob = m_length other)
           | TString \<Rightarrow>
               if m_length ob = m_length other
               then seq (sv_value ob) (\<lambda>this_str. seq (sv_value other) (\<lambda>other_str. ret (this_str = other_str)))
               else ret False
           | TSourceLoc \<Rightarrow> (\<lambda>s. (Fault, s))
           | TSlotRef \<Rightarrow> (\<lambda>s. (Fault, s))
           | TRecord \<Rightarrow> ret (m_offset ob = m_offset other \<and> m_length ob = m_length other)
           | TOpaqueHandle \<Rightarrow> ret (m_offset ob = m_offset other \<and> m_length ob = m_length other)
           | _ \<Rightarrow> ret (m_offset ob = m_offset other)
      else if o_type ob = TName \<and> o_type other = TString then name_equals_string ob other
      else if o_type ob = TString \<and> o_type other = TName then name_equals_string other ob
      else ret False)"

section \<open>Keys\<close>

text \<open>What an object stands for as a key: two objects are the same key when these are equal.\<close>

datatype key = KText "u8 list" | KImm otype int | KCell otype nat | KRef otype nat nat

definition cell_number :: "'a key_machine_scheme \<Rightarrow> object \<Rightarrow> nat" where
  "cell_number s ob = nat (lanes_nat (p_mem (pool_of (uses_widevalue ob) (trix.truncate s)) (m_offset ob)))"

definition string_base :: "'a key_machine_scheme \<Rightarrow> object \<Rightarrow> nat" where
  "string_base s ob = (if is_eqstring_ref ob then m_eqstring_offset s else m_offset ob)"

definition key_of :: "'a key_machine_scheme \<Rightarrow> object \<Rightarrow> key" where
  "key_of s ob =
     (case o_type ob of
        TNull \<Rightarrow> KImm TNull 0
      | TMark \<Rightarrow> KImm TMark 0
      | TByte \<Rightarrow> KImm TByte (m_immediate ob)
      | TInteger \<Rightarrow> KImm TInteger (m_immediate ob)
      | TUInteger \<Rightarrow> KImm TUInteger (m_immediate ob)
      | TOperator \<Rightarrow> KImm TOperator (m_immediate ob)
      | TBoolean \<Rightarrow> KImm TBoolean (if m_immediate ob \<noteq> 0 then 1 else 0)
      | TReal \<Rightarrow> KImm TReal (int (fp_canonical binary32 (nat (m_immediate ob))))
      | TLong \<Rightarrow> KCell TLong (cell_number s ob)
      | TULong \<Rightarrow> KCell TULong (cell_number s ob)
      | TInt128 \<Rightarrow> KCell TInt128 (cell_number s ob)
      | TUInt128 \<Rightarrow> KCell TUInt128 (cell_number s ob)
      | TAddress \<Rightarrow> KCell TAddress (cell_number s ob)
      | TDouble \<Rightarrow> KCell TDouble (fp_canonical binary64 (cell_number s ob))
      | TName \<Rightarrow> KText (n_data (name_at s (m_offset ob)))
      | TString \<Rightarrow> KText (string_bytes s (string_base s ob) (m_length ob))
      | TArray \<Rightarrow> KRef TArray (m_offset ob) (m_length ob)
      | TPacked \<Rightarrow> KRef TPacked (m_offset ob) (m_length ob)
      | TRecord \<Rightarrow> KRef TRecord (m_offset ob) (m_length ob)
      | TOpaqueHandle \<Rightarrow> KRef TOpaqueHandle (m_offset ob) (m_length ob)
      | ty \<Rightarrow> KRef ty (m_offset ob) 0)"

text \<open>
  The objects that may be keys: not the two internal types, not a number that is no number, a number whose cell is in use,
  a name whose block has its hash, a string in the heap, and a scratch string of the current generation.
\<close>

definition key_ok :: "'a key_machine_scheme \<Rightarrow> object \<Rightarrow> bool" where
  "key_ok s ob \<longleftrightarrow>
     o_type ob \<noteq> TSourceLoc \<and> o_type ob \<noteq> TSlotRef \<and>
     (uses_heap_cell ob \<longrightarrow> heap_cell_valid (trix.truncate s) ob) \<and>
     (o_type ob = TReal \<longrightarrow> \<not> fp_isnan binary32 (nat (m_immediate ob))) \<and>
     (o_type ob = TDouble \<longrightarrow> \<not> fp_isnan binary64 (cell_number s ob)) \<and>
     (o_type ob = TName \<longrightarrow> offset_to_ptr s (m_offset ob) = Value (m_offset ob) \<and>
        wyhash32_sv (n_data (name_at s (m_offset ob))) = Value (n_hash (name_at s (m_offset ob)))) \<and>
     (o_type ob = TString \<longrightarrow> m_length ob \<le> 65535 \<and> offset_to_ptr s (string_base s ob) = Value (string_base s ob) \<and>
        (is_eqstring_ref ob \<longrightarrow> m_offset ob = m_eqstring_generation s))"

definition hash_of_key :: "key \<Rightarrow> u32" where
  "hash_of_key k =
     (case k of
        KText bs \<Rightarrow> (case wyhash32_sv bs of Value h \<Rightarrow> h | _ \<Rightarrow> 0)
      | KImm ty v \<Rightarrow>
          (case ty of
             TNull \<Rightarrow> (case wyhash32_sv (ascii ''Object::null'') of Value h \<Rightarrow> h | _ \<Rightarrow> 0)
           | TMark \<Rightarrow> (case wyhash32_sv (ascii ''Object::mark'') of Value h \<Rightarrow> h | _ \<Rightarrow> 0)
           | TBoolean \<Rightarrow> (case wyhash32_sv (ascii (if v \<noteq> 0 then ''Object::true'' else ''Object::false'')) of Value h \<Rightarrow> h | _ \<Rightarrow> 0)
           | TOperator \<Rightarrow> mix32 (word_of_int v OR 0x4F500000)
           | _ \<Rightarrow> mix32 (word_of_int v))
      | KCell ty v \<Rightarrow> if ty = TInt128 \<or> ty = TUInt128 then hash_wide v else mix64_to_32 (word_of_nat v)
      | KRef ty off len \<Rightarrow>
          if ty = TArray \<or> ty = TPacked then mix64_to_32 (push_bit 32 (word_of_nat off) OR word_of_nat len)
          else mix32 (word_of_nat off))"

lemma fp_equal_canonical:
  "\<not> fp_isnan f a \<Longrightarrow> \<not> fp_isnan f b \<Longrightarrow> fp_equal f a b = (fp_canonical f a = fp_canonical f b)"
  by (auto simp: fp_equal_def fp_canonical_def fp_iszero_def fp_mag_def)

lemma lift_trix_gets [simp]: "trix.extend (trix.truncate s) (trix.more s) = s"
  by (cases s) (simp add: trix.defs)

lemma ext_value_ok:
  "heap_cell_valid (trix.truncate s) ob \<Longrightarrow> ext_value ob s = (Value (cell_number s ob), s)"
  by (simp add: ext_value_def lift_trix_def cell_lanes_def cell_number_def)

lemma sv_value_ok:
  "key_ok s ob \<Longrightarrow> o_type ob = TString \<Longrightarrow> sv_value ob s = (Value (string_bytes s (string_base s ob) (m_length ob)), s)"
  by (auto simp: sv_value_def string_data_ptr_def key_ok_def string_base_def seq_def)

lemma name_value_ok: "key_ok s ob \<Longrightarrow> o_type ob = TName \<Longrightarrow> name_value ob s = (Value (name_at s (m_offset ob)), s)"
  by (simp add: name_value_def key_ok_def lift_outcome_def seq_def)

lemma hash_sv_ok: "hash_sv bs s = (Value (case wyhash32_sv bs of Value h \<Rightarrow> h | _ \<Rightarrow> 0), s)"
  using wyhash_inside [of bs] by (auto simp: hash_sv_def lift_outcome_def)

lemma uses_cell_types:
  "uses_heap_cell ob \<longleftrightarrow> o_type ob \<in> {TLong, TULong, TInt128, TUInt128, TAddress, TDouble}"
  by (cases "o_type ob") (simp_all add: uses_heap_cell_def uses_extvalue_def uses_widevalue_def has_attr_def)

lemma object_hash_ok: "key_ok s ob \<Longrightarrow> object_hash ob s = (Value (hash_of_key (key_of s ob)), s)"
  by (cases "o_type ob")
    (simp_all add: object_hash_def key_of_def hash_of_key_def hash_sv_ok ext_value_ok sv_value_ok name_value_ok uses_cell_types key_ok_def)

text \<open>Interned names have distinct strings; the comparison of a name with a scratch string is left out.\<close>

definition names_apart :: "'a key_machine_scheme \<Rightarrow> object \<Rightarrow> object \<Rightarrow> bool" where
  "names_apart s a b \<longleftrightarrow>
     (o_type a = TName \<and> o_type b = TName \<and> n_data (name_at s (m_offset a)) = n_data (name_at s (m_offset b)) \<longrightarrow> m_offset a = m_offset b) \<and>
     \<not> (o_type a = TName \<and> is_eqstring_ref b) \<and> \<not> (is_eqstring_ref a \<and> o_type b = TName)"

lemma string_bytes_eq_length: "string_bytes s x m = string_bytes s y n \<Longrightarrow> m = n"
  by (drule arg_cong [where f = length]) (simp add: string_bytes_def)

lemma length_string_bytes [simp]: "length (string_bytes s x m) = m"
  by (simp add: string_bytes_def)

lemma name_equals_string_ok:
  assumes "key_ok s n" "o_type n = TName" "key_ok s str" "o_type str = TString" "\<not> is_eqstring_ref str"
  shows "name_equals_string n str s = (Value (key_of s n = key_of s str), s)"
  using assms by (auto simp: name_equals_string_def name_value_ok seq_def lift_outcome_def name_equal_def key_of_def
      sv_length_def key_ok_def string_base_def)

lemma object_equal_ok:
  assumes "key_ok s a" "key_ok s b" "names_apart s a b"
  shows "object_equal a b s = (Value (key_of s a = key_of s b), s)"
proof (cases "o_type a = o_type b")
  case True
  show ?thesis
  proof (cases "o_type a = TString")
    case str: True
    then show ?thesis using True assms(1,2)
      by (auto simp: object_equal_def sv_value_ok key_of_def dest: string_bytes_eq_length)
  next
    case False
    then show ?thesis using True assms
      by (cases "o_type b") (auto simp: object_equal_def key_of_def ext_equal_def ext_value_ok uses_cell_types key_ok_def
          names_apart_def fp_equal_canonical)
  qed
next
  case False
  show ?thesis
  proof (cases "o_type a \<in> {TName, TString} \<and> o_type b \<in> {TName, TString}")
    case True
    then show ?thesis using False assms
      by (auto simp: object_equal_def name_equals_string_ok names_apart_def)
  next
    case other: False
    have "key_of s a \<noteq> key_of s b" using False other
      by (cases "o_type a"; cases "o_type b"; simp add: key_of_def)
    then show ?thesis using False other by (auto simp: object_equal_def)
  qed
qed

text \<open>
  C28. Equality and hashing of keys fit together: for any two objects that may be keys, of whatever types, the comparison returns, it is symmetric,
  and objects that compare equal have the same hash, so an equal key is always looked for in the right bucket. This covers names and strings with the same bytes
  and the two zeros of floating-point numbers.
\<close>

theorem equal_keys_same_hash:
  assumes "key_ok s a" "key_ok s b" "names_apart s a b"
  shows "\<exists>e. object_equal a b s = (Value e, s) \<and> object_equal b a s = (Value e, s) \<and>
    (e \<longrightarrow> (\<exists>h. object_hash a s = (Value h, s) \<and> object_hash b s = (Value h, s)))"
proof -
  have "names_apart s b a" using assms(3) by (auto simp: names_apart_def)
  then have "object_equal b a s = (Value (key_of s a = key_of s b), s)"
    using object_equal_ok [OF assms(2,1)] by (simp add: eq_commute)
  then show ?thesis using object_equal_ok [OF assms] object_hash_ok [OF assms(1)] object_hash_ok [OF assms(2)] by auto
qed

text \<open>
  C29. A name is compared with the scratch string as if the generation number of the reference were the offset of the string:
  the bytes that are compared are those at that number. Hashing and every other use of the
  string read the scratch buffer.
\<close>

theorem scratch_string_misread:
  assumes "key_ok s nm" "o_type nm = TName" "key_ok s str" "is_eqstring_ref str"
    "0 < m_eqstring_generation s" "m_eqstring_generation s < m_vm_limit s"
  shows "object_equal str nm s =
      (Value (n_data (name_at s (m_offset nm)) = string_bytes s (m_eqstring_generation s) (m_length str)), s) \<and>
    sv_value str s = (Value (string_bytes s (m_eqstring_offset s) (m_length str)), s)"
proof
  have ty: "o_type str = TString" using assms(4) by (simp add: is_eqstring_ref_def)
  then have gen: "m_offset str = m_eqstring_generation s" "m_length str \<le> 65535" using assms(3,4) by (auto simp: key_ok_def)
  show "object_equal str nm s = (Value (n_data (name_at s (m_offset nm)) = string_bytes s (m_eqstring_generation s) (m_length str)), s)"
    using ty gen assms(2,5,6) name_value_ok [OF assms(1,2)]
    by (auto simp: object_equal_def name_equals_string_def seq_def lift_outcome_def offset_to_ptr_def nulloffset_def name_equal_def sv_length_def)
  show "sv_value str s = (Value (string_bytes s (m_eqstring_offset s) (m_length str)), s)"
    using sv_value_ok [OF assms(3) ty] assms(4) by (simp add: string_base_def)
qed

text \<open>
  A machine with the name \<open>A\<close> at offset 16, the scratch string \<open>A\<close> at offset 64, generation 5, and the
  number 7 in a cell at offset 8.
\<close>

definition key_example :: key_machine where
  "key_example = trix.extend (small_machine 7)
     (key_machine.fields ((\<lambda>_. \<lparr>n_next = 0, n_binding = 0, n_hash = 0, n_data = []\<rparr>)
       (16 := \<lparr>n_next = 0, n_binding = 0, n_hash = (case wyhash32_sv [65] of Value h \<Rightarrow> h | _ \<Rightarrow> 0), n_data = [65]\<rparr>)) ((\<lambda>_. 0)(64 := 65)) 5 64)"

definition name_A :: object where "name_A = (make_object TName 0)\<lparr>m_offset := 16, m_length := 1\<rparr>"
definition scratch_A :: object where "scratch_A = (make_object TString 0)\<lparr>o_special := True, m_offset := 5, m_length := 1\<rparr>"

lemma key_example_fields [simp]:
  "m_vm_limit key_example = 1024" "m_eqstring_generation key_example = 5" "m_eqstring_offset key_example = 64"
  "string_mem key_example = (\<lambda>_. 0)(64 := 65)" "n_data (name_at key_example 16) = [65]"
  "n_hash (name_at key_example 16) = (case wyhash32_sv [65] of Value h \<Rightarrow> h | _ \<Rightarrow> 0)" "trix.truncate key_example = small_machine 7"
  by (simp_all add: key_example_def trix.defs key_machine.defs small_machine_def)

lemma key_example_ok: "key_ok key_example name_A" "key_ok key_example scratch_A" "key_ok key_example long_at_8"
proof -
  show "key_ok key_example name_A" using wyhash_inside [of "[65]"]
    by (auto simp: key_ok_def name_A_def make_object_def uses_cell_types offset_to_ptr_def nulloffset_def)
  show "key_ok key_example scratch_A"
    by (simp add: key_ok_def scratch_A_def make_object_def uses_cell_types string_base_def is_eqstring_ref_def offset_to_ptr_def nulloffset_def)
  show "key_ok key_example long_at_8"
    by (simp add: key_ok_def long_at_8_def make_object_def uses_cell_types heap_cell_valid_def cell_valid_def cell_dead_def
        uses_widevalue_def class_of_def pool_of_def ext_class_def valid_offset_def small_machine_def dead_mark_def nulloffset_def)
qed

theorem equal_keys_same_hash_witness:
  "\<exists>h. object_equal long_at_8 long_at_8 key_example = (Value True, key_example) \<and> object_hash long_at_8 key_example = (Value h, key_example)"
proof -
  have "names_apart key_example long_at_8 long_at_8" by (simp add: names_apart_def long_at_8_def make_object_def is_eqstring_ref_def)
  from equal_keys_same_hash [OF key_example_ok(3,3) this] object_equal_ok [OF key_example_ok(3,3) this] show ?thesis by auto
qed

theorem scratch_string_misread_witness:
  "object_equal scratch_A name_A key_example = (Value False, key_example) \<and> sv_value scratch_A key_example = (Value [65], key_example) \<and>
   n_data (name_at key_example (m_offset name_A)) = [65]"
  using scratch_string_misread [of key_example name_A scratch_A] key_example_ok(1,2)
  by (simp add: name_A_def scratch_A_def make_object_def is_eqstring_ref_def string_bytes_def)

end
