(* ===== verification/Dict.thy ===== *)
theory Dict
  imports Keys Control_Ops
begin

text \<open>
  Dictionaries (\<^verbatim>\<open>src/dict.inl\<close>): hash tables with chained entries taken from a pool of the dictionary, grown by appending
  to the pool, and journalled for save and restore. A dictionary is its header with the
  bucket array; headers and entries are maps from offsets to records. The journal of a save level is
  the list of what was saved, newest first, each with the location it belongs to; that its entries occupy heap is kept. The machine runs
  a single coroutine, so bindings are cached in the names.
\<close>

section \<open>State\<close>

record dict =
  d_pool :: nat
  d_length :: nat
  d_maxlength :: nat
  d_access :: u8
  d_save_level :: nat
  d_buckets :: "nat list"

record dict_entry =
  e_next :: nat
  e_key :: object
  e_value :: object

datatype undo = UHeader nat dict | UEntry nat dict_entry | UNext nat nat

record dict_machine = key_machine +
  dict_at :: "nat \<Rightarrow> dict"
  entry_at :: "nat \<Rightarrow> dict_entry"
  m_barrier :: "nat \<Rightarrow> nat"
  m_journal :: "nat \<Rightarrow> undo list"
  m_systemdict :: nat
  m_protocoldict :: nat
  m_localdict :: nat
  m_globaldict :: nat
  m_errordict :: nat
  m_handlersdict :: nat
  m_eqdict :: nat
  m_eqset :: nat
  m_eqdict_generation :: nat
  m_localdict_maybe_global :: bool
  m_gc_roots :: "object list"
  gc_root_slots :: nat

text \<open>What dictionaries use of the collector: a collection, and whether a value leads to the global region.\<close>

record dict_services =
  ds_gc :: "gvm \<Rightarrow> gvm outcome"
  ds_reaches_global :: "dict_machine \<Rightarrow> object \<Rightarrow> bool"

datatype binding_mode = NoBinding | Bind

definition ReadWriteAccess :: u8 where "ReadWriteAccess = 0x02"
definition DynamicFlag :: u8 where "DynamicFlag = 0x01"
definition IsFrame :: u8 where "IsFrame = 0x08"
definition NoGlobalRefs :: u8 where "NoGlobalRefs = 0x10"
definition MinDynamicDictCapacity :: nat where "MinDynamicDictCapacity = 4"
definition max_length :: nat where "max_length = 65535"
definition ChunkKind_String :: u8 where "ChunkKind_String = 5"
definition ChunkKind_HashEntry :: u8 where "ChunkKind_HashEntry = 30"

definition has_flag :: "u8 \<Rightarrow> dict \<Rightarrow> bool" where "has_flag f d \<longleftrightarrow> d_access d AND f \<noteq> 0"
definition is_dynamic :: "dict \<Rightarrow> bool" where "is_dynamic = has_flag DynamicFlag"
definition dict_is_frame :: "dict \<Rightarrow> bool" where "dict_is_frame = has_flag IsFrame"

definition is_unset_local :: "object \<Rightarrow> bool" where "is_unset_local ob \<longleftrightarrow> o_type ob = TSlotRef"
definition null_at :: "nat \<Rightarrow> object" where "null_at level = make_null\<lparr>m_object_save_level := level\<rparr>"

definition upd_dict :: "nat \<Rightarrow> (dict \<Rightarrow> dict) \<Rightarrow> dict_machine \<Rightarrow> dict_machine" where
  "upd_dict d f s = s\<lparr>dict_at := (dict_at s)(d := f (dict_at s d))\<rparr>"

definition upd_entry :: "nat \<Rightarrow> (dict_entry \<Rightarrow> dict_entry) \<Rightarrow> dict_machine \<Rightarrow> dict_machine" where
  "upd_entry e f s = s\<lparr>entry_at := (entry_at s)(e := f (entry_at s e))\<rparr>"

definition get_dlink :: "dict_machine \<Rightarrow> nat \<Rightarrow> link \<Rightarrow> nat" where
  "get_dlink s d l = (case l of Bucket i \<Rightarrow> d_buckets (dict_at s d) ! i | After e \<Rightarrow> e_next (entry_at s e))"

definition set_dlink :: "nat \<Rightarrow> link \<Rightarrow> nat \<Rightarrow> dict_machine \<Rightarrow> dict_machine" where
  "set_dlink d l off =
     (case l of Bucket i \<Rightarrow> upd_dict d (\<lambda>h. h\<lparr>d_buckets := (d_buckets h)[i := off]\<rparr>) | After e \<Rightarrow> upd_entry e (\<lambda>x. x\<lparr>e_next := off\<rparr>))"

definition from_option :: "'b outcome option \<Rightarrow> 'b outcome" where
  "from_option r = (case r of None \<Rightarrow> Diverge | Some x \<Rightarrow> x)"

section \<open>The journal\<close>

definition undo_offset :: "undo \<Rightarrow> nat" where
  "undo_offset u = (case u of UHeader off _ \<Rightarrow> off | UEntry off _ \<Rightarrow> off | UNext off _ \<Rightarrow> off)"

fun same_place :: "undo \<Rightarrow> undo \<Rightarrow> bool" where
  "same_place (UHeader a _) (UHeader b _) = (a = b)"
| "same_place (UEntry a _) (UEntry b _) = (a = b)"
| "same_place (UNext a _) (UNext b _) = (a = b)"
| "same_place _ _ = False"

definition local_alloc :: "nat \<Rightarrow> nat \<Rightarrow> (dict_machine, nat) action" where
  "local_alloc al bytes s =
     (case vm_alloc_ptr s al bytes of
        Value (off, s1) \<Rightarrow> (Value off, s1) | Raise e \<Rightarrow> (Raise e, s) | Diverge \<Rightarrow> (Diverge, s) | Fault \<Rightarrow> (Fault, s))"

definition global_alloc :: "dict_services \<Rightarrow> nat \<Rightarrow> u8 \<Rightarrow> (dict_machine, nat) action" where
  "global_alloc svc bytes kind = lift_trix (lift_gvm (\<lambda>g. gvm_alloc (ds_gc svc) g bytes kind))"

definition add_undo :: "undo \<Rightarrow> nat \<Rightarrow> (dict_machine, unit) action" where
  "add_undo u sz =
     seq (local_alloc 4 (12 + (if sz > 1 then sz - 1 else 0))) (\<lambda>_.
     modify (\<lambda>s. s\<lparr>m_journal := (m_journal s)(m_curr_save_level s := u # m_journal s (m_curr_save_level s))\<rparr>))"

definition journal_undo :: "undo \<Rightarrow> nat \<Rightarrow> (dict_machine, unit) action" where
  "journal_undo u sz s =
     (if is_global s (undo_offset u) then (Value (), s)
      else if m_curr_save_level s = 0 then (Raise InvalidRestore, s)
      else seq (lift_outcome (\<lambda>s. offset_to_ptr s (m_barrier s (m_curr_save_level s)))) (\<lambda>_ s.
             case m_journal s (m_curr_save_level s) of
               h # _ \<Rightarrow> if same_place h u then (Value (), s) else add_undo u sz s
             | [] \<Rightarrow> add_undo u sz s) s)"

definition dict_size :: "nat \<Rightarrow> nat" where "dict_size bucket_count = 16 + bucket_count * 4"

definition undo_dict_header :: "nat \<Rightarrow> (dict_machine, unit) action" where
  "undo_dict_header d s = journal_undo (UHeader d (dict_at s d)) (dict_size (length (d_buckets (dict_at s d)))) s"

definition undo_dict_entry :: "nat \<Rightarrow> (dict_machine, unit) action" where
  "undo_dict_entry e s = journal_undo (UEntry e (entry_at s e)) 20 s"

definition undo_dict_entry_next :: "nat \<Rightarrow> (dict_machine, unit) action" where
  "undo_dict_entry_next e s = journal_undo (UNext e (e_next (entry_at s e))) 4 s"

text \<open>Replaying one entry; the cells of the objects in an entry that is overwritten are released first.\<close>

definition release :: "object \<Rightarrow> (dict_machine, object) action" where
  "release ob = lift_trix (maybe_free_extvalue ob)"

definition release_key :: "nat \<Rightarrow> (dict_machine, unit) action" where
  "release_key e s = seq (release (e_key (entry_at s e))) (\<lambda>ob. modify (upd_entry e (\<lambda>x. x\<lparr>e_key := ob\<rparr>))) s"

definition release_value :: "nat \<Rightarrow> (dict_machine, unit) action" where
  "release_value e s = seq (release (e_value (entry_at s e))) (\<lambda>ob. modify (upd_entry e (\<lambda>x. x\<lparr>e_value := ob\<rparr>))) s"

fun replay_undo :: "undo \<Rightarrow> (dict_machine, unit) action" where
  "replay_undo (UHeader d h) = modify (upd_dict d (\<lambda>_. h))"
| "replay_undo (UEntry e x) = seq (release_key e) (\<lambda>_. seq (release_value e) (\<lambda>_. modify (upd_entry e (\<lambda>_. x))))"
| "replay_undo (UNext e n) = modify (upd_entry e (\<lambda>x. x\<lparr>e_next := n\<rparr>))"

text \<open>At most one journal entry for the header of a dictionary per save level.\<close>

definition dict_save :: "nat \<Rightarrow> (dict_machine, unit) action" where
  "dict_save d s =
     (if d_save_level (dict_at s d) \<noteq> m_curr_save_level s \<and> d \<noteq> m_eqdict s \<and> d \<noteq> m_eqset s
      then seq (undo_dict_header d) (\<lambda>_. modify (\<lambda>s. upd_dict d (\<lambda>h. h\<lparr>d_save_level := m_curr_save_level s\<rparr>) s)) s
      else (Value (), s))"

section \<open>Lookup\<close>

definition dict_bucket_counts :: "nat list" where
  "dict_bucket_counts = [1, 1, 3, 5, 11, 17, 37, 67, 131, 257, 521, 1031, 2053, 4099, 8209, 16411, 32771]"

definition bit_width :: "nat \<Rightarrow> nat" where
  "bit_width n = length (takeWhile (\<lambda>k. 2 ^ k \<le> n) [0..<33])"

definition bucket_count_for_capacity :: "nat \<Rightarrow> nat" where
  "bucket_count_for_capacity maxlength = dict_bucket_counts ! bit_width maxlength"

definition bucket_count_is_valid :: "nat \<Rightarrow> bool" where
  "bucket_count_is_valid count \<longleftrightarrow> count = 2 \<or> count \<in> set dict_bucket_counts"

definition bucket_magic_for :: "nat \<Rightarrow> u64 outcome" where
  "bucket_magic_for count = (if bucket_count_is_valid count then Value (fastmod_magic_u32 (word_of_nat count)) else Fault)"

definition bucket_index :: "nat \<Rightarrow> u32 \<Rightarrow> (dict_machine, nat) action" where
  "bucket_index d h =
     seq (gets (\<lambda>s. length (d_buckets (dict_at s d)))) (\<lambda>count.
     seq (lift_outcome (\<lambda>_. bucket_magic_for count)) (\<lambda>magic.
     ret (unat (fastmod_u32 h magic (word_of_nat count)))))"

text \<open>Whether the key of an entry matches: names by identity, a name and a string by content, others by equality.\<close>

definition match_key :: "dict_machine \<Rightarrow> object \<Rightarrow> object \<Rightarrow> bool outcome" where
  "match_key s key_obj entry_key =
     (if o_type key_obj = TName
      then if o_type entry_key = TName then Value (m_offset key_obj = m_offset entry_key)
           else if o_type entry_key = TString
           then fst (seq (name_value key_obj) (\<lambda>n. seq (sv_value entry_key) (\<lambda>sv. lift_outcome (\<lambda>_. name_equal n sv))) s)
           else Value False
      else fst (object_equal key_obj entry_key s))"

text \<open>The link to the entry of a key and the offset of the entry, which is null when there is none.\<close>

partial_function (option) chain_search :: "dict_machine \<Rightarrow> nat \<Rightarrow> object \<Rightarrow> link \<Rightarrow> (link \<times> nat) outcome option" where
  "chain_search s d key_obj l =
     (let off = get_dlink s d l
      in if off = nulloffset then Some (Value (l, nulloffset))
         else case offset_to_ptr s off of
                Value _ \<Rightarrow>
                  (case match_key s key_obj (e_key (entry_at s off)) of
                     Value m \<Rightarrow> if m then Some (Value (l, off)) else chain_search s d key_obj (After off)
                   | Raise e \<Rightarrow> Some (Raise e) | Diverge \<Rightarrow> Some Diverge | Fault \<Rightarrow> Some Fault)
              | Raise e \<Rightarrow> Some (Raise e) | Diverge \<Rightarrow> Some Diverge | Fault \<Rightarrow> Some Fault)"

definition find_entry :: "nat \<Rightarrow> object \<Rightarrow> (dict_machine, nat \<times> link \<times> nat) action" where
  "find_entry d key_obj =
     seq (object_hash key_obj) (\<lambda>h.
     seq (bucket_index d h) (\<lambda>i.
     seq (lift_outcome (\<lambda>s. from_option (chain_search s d key_obj (Bucket i)))) (\<lambda>(l, e). ret (i, l, e))))"

definition dict_get :: "nat \<Rightarrow> object \<Rightarrow> (dict_machine, object option) action" where
  "dict_get d key_obj =
     seq (find_entry d key_obj) (\<lambda>(i, l, e).
     gets (\<lambda>s. if e \<noteq> nulloffset \<and> \<not> is_unset_local (e_value (entry_at s e)) then Some (e_value (entry_at s e)) else None))"

section \<open>Values that go into containers\<close>

definition restore_fragile_local :: "dict_machine \<Rightarrow> object \<Rightarrow> bool" where
  "restore_fragile_local s ob \<longleftrightarrow>
     m_curr_save_level s \<noteq> 0 \<and> (uses_vm ob \<or> uses_heap_cell ob) \<and> \<not> is_global s (m_offset ob) \<and> m_offset ob \<ge> m_barrier s 1"

definition reject_fragile :: "bool \<Rightarrow> object \<Rightarrow> (dict_machine, unit) action" where
  "reject_fragile container_is_global ob s =
     (if container_is_global \<and> restore_fragile_local s ob \<and> \<not> uses_extvalue ob \<and> \<not> uses_widevalue ob
      then (Raise InvalidAccess, s) else (Value (), s))"

definition note_global_into_local :: "dict_services \<Rightarrow> bool \<Rightarrow> object \<Rightarrow> (dict_machine, unit) action" where
  "note_global_into_local svc container_is_global ob s =
     (if container_is_global \<or> \<not> uses_vm ob then (Value (), s)
      else if o_type ob \<noteq> TName \<and> is_global s (m_offset ob) then (Value (), s\<lparr>m_localdict_maybe_global := True\<rparr>)
      else if \<not> m_localdict_maybe_global s \<and> m_gvm_user_block_count s > 0 \<and> ds_reaches_global svc s ob
      then (Value (), s\<lparr>m_localdict_maybe_global := True\<rparr>) else (Value (), s))"

definition clone_into_global :: "dict_services \<Rightarrow> bool \<Rightarrow> object \<Rightarrow> (dict_machine, object) action" where
  "clone_into_global svc container_is_global ob s =
     (if \<not> container_is_global \<or> \<not> restore_fragile_local s ob then (Value ob, s)
      else if \<not> uses_extvalue ob \<and> \<not> uses_widevalue ob then (Value ob, s)
      else let saved_global = m_curr_alloc_global s
           in seq (modify (\<lambda>s. s\<lparr>m_curr_alloc_global := True\<rparr>)) (\<lambda>_.
              seq (lift_trix (make_clone (ds_gc svc) ob)) (\<lambda>global_value.
              seq (modify (\<lambda>s. s\<lparr>m_curr_alloc_global := saved_global\<rparr>)) (\<lambda>_.
              seq (release ob) (\<lambda>_. ret global_value)))) s)"

definition require_gc_root_capacity_more :: "nat \<Rightarrow> (dict_machine, unit) action" where
  "require_gc_root_capacity_more count s =
     (if length (m_gc_roots s) + count > gc_root_slots s then (Raise LimitCheck, s) else (Value (), s))"

definition gc_root_push :: "object \<Rightarrow> (dict_machine, unit) action" where
  "gc_root_push ob = modify (\<lambda>s. s\<lparr>m_gc_roots := ob # m_gc_roots s\<rparr>)"

definition gc_root_pop_n :: "nat \<Rightarrow> (dict_machine, unit) action" where
  "gc_root_pop_n n = modify (\<lambda>s. s\<lparr>m_gc_roots := drop n (m_gc_roots s)\<rparr>)"

definition barrier_relevant_for_localdict :: "dict_machine \<Rightarrow> nat \<Rightarrow> bool" where
  "barrier_relevant_for_localdict s d \<longleftrightarrow>
     \<not> (dict_is_frame (dict_at s d) \<or> d = m_systemdict s \<or> d = m_protocoldict s \<or> d = m_globaldict s \<or> d = m_errordict s \<or>
        d = m_handlersdict s \<or> d = m_eqdict s \<or> d = m_eqset s)"

definition copy_string_key_into_region :: "dict_services \<Rightarrow> object \<Rightarrow> bool \<Rightarrow> (dict_machine, object) action" where
  "copy_string_key_into_region svc key_obj to_global =
     seq (if to_global then lift_trix (lift_gvm (\<lambda>g. gvm_alloc_n (ds_gc svc) g 1 (m_length key_obj + 1) ChunkKind_String))
          else local_alloc 1 (m_length key_obj + 1)) (\<lambda>base.
     seq (sv_value key_obj) (\<lambda>sv.
     seq (modify (\<lambda>s. s\<lparr>string_mem := (\<lambda>i. if base \<le> i \<and> i < base + length sv then sv ! (i - base)
            else if i = base + length sv then 0 else string_mem s i)\<rparr>)) (\<lambda>_.
     ret ((make_object TString 0)\<lparr>o_executable := o_executable key_obj, m_length := m_length key_obj, m_offset := base\<rparr>))))"

definition set_name_binding :: "object \<Rightarrow> nat \<Rightarrow> (dict_machine, unit) action" where
  "set_name_binding ob value_offset =
     seq (lift_outcome (\<lambda>s. offset_to_ptr s (m_offset ob))) (\<lambda>n.
     modify (\<lambda>s. s\<lparr>name_at := (name_at s)(n := (name_at s n)\<lparr>n_binding := value_offset\<rparr>)\<rparr>))"

definition clear_name_binding :: "object \<Rightarrow> (dict_machine, unit) action" where
  "clear_name_binding ob = set_name_binding ob nulloffset"

section \<open>Creation and growth\<close>

text \<open>A pool of entries in a block: linked in order, null keys and values of the current level.\<close>

definition pool_entry :: "nat \<Rightarrow> nat \<Rightarrow> nat \<Rightarrow> nat \<Rightarrow> dict_entry" where
  "pool_entry level base count i =
     \<lparr>e_next = (if i + 1 < count then base + 20 * (i + 1) else nulloffset), e_key = null_at level, e_value = null_at level\<rparr>"

definition init_dict_pool :: "nat \<Rightarrow> nat \<Rightarrow> nat \<Rightarrow> dict_machine \<Rightarrow> dict_machine" where
  "init_dict_pool d count entries s =
     upd_dict d (\<lambda>h. h\<lparr>d_pool := entries\<rparr>)
       (s\<lparr>entry_at := fold (\<lambda>i f. f(entries + 20 * i := pool_entry (m_curr_save_level s) entries count i)) [0..<count] (entry_at s)\<rparr>)"

definition create_dict :: "nat \<Rightarrow> u8 \<Rightarrow> (dict_machine, nat) action" where
  "create_dict maxlength0 mode_access =
     (let maxlength = (if mode_access = ReadWriteAccess OR DynamicFlag \<and> maxlength0 = 0 then MinDynamicDictCapacity else maxlength0);
          num_buckets = bucket_count_for_capacity maxlength;
          entry_offset = dict_size num_buckets
      in seq (local_alloc 4 (entry_offset + 20 * maxlength)) (\<lambda>d s.
           let access = (if mode_access = 0 \<and> \<not> m_curr_alloc_global s then NoGlobalRefs else mode_access);
               s1 = upd_dict d (\<lambda>_. \<lparr>d_pool = nulloffset, d_length = 0, d_maxlength = maxlength, d_access = access,
                      d_save_level = m_curr_save_level s, d_buckets = replicate num_buckets nulloffset\<rparr>) s
           in (Value d, if maxlength \<noteq> 0 then init_dict_pool d maxlength (d + entry_offset) s1 else s1)))"

definition expand_size :: "nat \<Rightarrow> nat \<Rightarrow> nat" where
  "expand_size maxlength need_count = min (max maxlength need_count) (max_length - maxlength)"

definition expand_dict :: "dict_services \<Rightarrow> nat \<Rightarrow> (dict_machine, unit) action" where
  "expand_dict svc d s =
     (let maxlength = d_maxlength (dict_at s d)
      in if maxlength = 0 then (Raise DictFull, s)
         else if maxlength = max_length then (Raise DictFull, s)
         else let grow_count = expand_size maxlength 1
              in seq (if is_global s d then global_alloc svc (grow_count * 20) ChunkKind_HashEntry else local_alloc 4 (grow_count * 20)) (\<lambda>entries.
                 modify (\<lambda>s. upd_dict d (\<lambda>h. h\<lparr>d_maxlength := maxlength + grow_count\<rparr>) (init_dict_pool d grow_count entries s))) s)"

section \<open>Updates\<close>

definition finish_put :: "binding_mode \<Rightarrow> nat \<Rightarrow> (dict_machine, nat) action" where
  "finish_put mode e =
     seq (gets (\<lambda>s. e_key (entry_at s e))) (\<lambda>k.
     seq (if o_type k = TName then (case mode of Bind \<Rightarrow> set_name_binding k (e + 12) | NoBinding \<Rightarrow> clear_name_binding k) else ret ()) (\<lambda>_.
     ret e))"

definition put_existing :: "dict_services \<Rightarrow> nat \<Rightarrow> bool \<Rightarrow> object \<Rightarrow> object \<Rightarrow> nat \<Rightarrow> (dict_machine, unit) action" where
  "put_existing svc d container_is_global key_obj val_obj e =
     seq (release key_obj) (\<lambda>_.
     seq (\<lambda>s. if m_object_save_level (e_value (entry_at s e)) = m_curr_save_level s \<or> d = m_eqdict s then release_value e s
              else undo_dict_entry e s) (\<lambda>_.
     seq (clone_into_global svc container_is_global val_obj) (\<lambda>v.
     modify (\<lambda>s. upd_entry e (\<lambda>x. x\<lparr>e_value := v\<lparr>m_object_save_level := m_curr_save_level s\<rparr>\<rparr>) s))))"

definition save_pool_entry :: "nat \<Rightarrow> nat \<Rightarrow> (dict_machine, unit) action" where
  "save_pool_entry d e s =
     (if (m_object_save_level (e_key (entry_at s e)) \<noteq> m_curr_save_level s \<or>
          m_object_save_level (e_value (entry_at s e)) \<noteq> m_curr_save_level s) \<and> d \<noteq> m_eqdict s
      then undo_dict_entry e s else (Value (), s))"

definition put_new :: "dict_services \<Rightarrow> nat \<Rightarrow> bool \<Rightarrow> object \<Rightarrow> object \<Rightarrow> nat \<Rightarrow> (dict_machine, nat) action" where
  "put_new svc d container_is_global key_obj val_obj i =
     seq (if o_type key_obj = TString then copy_string_key_into_region svc key_obj container_is_global else ret key_obj) (\<lambda>k.
     seq (gets (\<lambda>s. d_pool (dict_at s d))) (\<lambda>e.
     seq (lift_outcome (\<lambda>s. offset_to_ptr s e)) (\<lambda>_.
     seq (modify (\<lambda>s. upd_dict d (\<lambda>h. h\<lparr>d_pool := e_next (entry_at s e)\<rparr>) s)) (\<lambda>_.
     seq (save_pool_entry d e) (\<lambda>_.
     seq (clone_into_global svc container_is_global k) (\<lambda>k1.
     seq (require_gc_root_capacity_more 1) (\<lambda>_.
     seq (gc_root_push k1) (\<lambda>_.
     seq (clone_into_global svc container_is_global val_obj) (\<lambda>v1.
     seq (gc_root_pop_n 1) (\<lambda>_.
     seq (modify (\<lambda>s. upd_entry e (\<lambda>x. x\<lparr>e_key := k1\<lparr>m_object_save_level := m_curr_save_level s\<rparr>,
            e_value := v1\<lparr>m_object_save_level := m_curr_save_level s\<rparr>, e_next := d_buckets (dict_at s d) ! i\<rparr>) s)) (\<lambda>_.
     seq (modify (upd_dict d (\<lambda>h. h\<lparr>d_buckets := (d_buckets h)[i := e], d_length := d_length h + 1\<rparr>))) (\<lambda>_.
     ret e))))))))))))"

definition put :: "dict_services \<Rightarrow> nat \<Rightarrow> object \<Rightarrow> object \<Rightarrow> binding_mode \<Rightarrow> (dict_machine, nat) action" where
  "put svc d key_obj val_obj mode =
     seq (gets (\<lambda>s. is_global s d)) (\<lambda>container_is_global.
     seq (reject_fragile container_is_global key_obj) (\<lambda>_.
     seq (reject_fragile container_is_global val_obj) (\<lambda>_.
     seq (\<lambda>s. if barrier_relevant_for_localdict s d
              then seq (note_global_into_local svc container_is_global key_obj) (\<lambda>_. note_global_into_local svc container_is_global val_obj) s
              else (Value (), s)) (\<lambda>_.
     seq (find_entry d key_obj) (\<lambda>(i, _, e).
     seq (\<lambda>s. let h = dict_at s d
              in if e = nulloffset \<and> d_length h = d_maxlength h \<and> d_maxlength h \<noteq> 0 \<and> is_dynamic h
                 then seq (dict_save d) (\<lambda>_. expand_dict svc d) s else (Value (), s)) (\<lambda>_.
     seq (gets (\<lambda>s. e \<noteq> nulloffset \<or> d_length (dict_at s d) < d_maxlength (dict_at s d))) (\<lambda>room.
       if room
       then seq (dict_save d) (\<lambda>_.
            seq (if e \<noteq> nulloffset then seq (put_existing svc d container_is_global key_obj val_obj e) (\<lambda>_. ret e)
                 else put_new svc d container_is_global key_obj val_obj i) (\<lambda>e1.
            finish_put mode e1))
       else raise DictFull)))))))"

text \<open>The updates of the persist family are not journalled: the entry and its objects belong to the base level.\<close>

definition overwrite_persist :: "dict_services \<Rightarrow> bool \<Rightarrow> object \<Rightarrow> object \<Rightarrow> nat \<Rightarrow> (dict_machine, nat) action" where
  "overwrite_persist svc container_is_global key_obj val_obj e =
     seq (release key_obj) (\<lambda>_.
     seq (release_value e) (\<lambda>_.
     seq (clone_into_global svc container_is_global val_obj) (\<lambda>v.
     seq (modify (upd_entry e (\<lambda>x. x\<lparr>e_value := v\<lparr>m_object_save_level := 0\<rparr>\<rparr>))) (\<lambda>_.
     seq (gets (\<lambda>s. e_key (entry_at s e))) (\<lambda>k.
     seq (if o_type k = TName then clear_name_binding k else ret ()) (\<lambda>_. ret e))))))"

definition put_persist :: "dict_services \<Rightarrow> nat \<Rightarrow> object \<Rightarrow> object \<Rightarrow> (dict_machine, nat option) action" where
  "put_persist svc d key_obj val_obj =
     seq (gets (\<lambda>s. is_global s d)) (\<lambda>container_is_global.
     seq (reject_fragile container_is_global key_obj) (\<lambda>_.
     seq (reject_fragile container_is_global val_obj) (\<lambda>_.
     seq (\<lambda>s. if barrier_relevant_for_localdict s d then note_global_into_local svc container_is_global val_obj s else (Value (), s)) (\<lambda>_.
     seq (find_entry d key_obj) (\<lambda>(i, _, e).
       if e = nulloffset then ret None
       else seq (overwrite_persist svc container_is_global key_obj val_obj e) (\<lambda>e1. ret (Some e1)))))))"

definition create_persist :: "dict_services \<Rightarrow> nat \<Rightarrow> bool \<Rightarrow> object \<Rightarrow> object \<Rightarrow> nat \<Rightarrow> (dict_machine, nat) action" where
  "create_persist svc d container_is_global key_obj val_obj i =
     seq (clone_into_global svc container_is_global val_obj) (\<lambda>v.
     seq (require_gc_root_capacity_more 2) (\<lambda>_.
     seq (gc_root_push v) (\<lambda>_.
     seq (if o_type key_obj = TString then copy_string_key_into_region svc key_obj True
          else clone_into_global svc container_is_global key_obj) (\<lambda>k.
     seq (gc_root_push k) (\<lambda>_.
     seq (global_alloc svc 20 ChunkKind_HashEntry) (\<lambda>e.
     seq (gc_root_pop_n 2) (\<lambda>_.
     seq (modify (\<lambda>s. upd_entry e (\<lambda>_. \<lparr>e_next = d_buckets (dict_at s d) ! i, e_key = k\<lparr>m_object_save_level := 0\<rparr>,
            e_value = v\<lparr>m_object_save_level := 0\<rparr>\<rparr>) s)) (\<lambda>_.
     seq (modify (upd_dict d (\<lambda>h. h\<lparr>d_buckets := (d_buckets h)[i := e], d_length := (d_length h + 1) mod 65536\<rparr>))) (\<lambda>_.
     seq (modify (\<lambda>s. if barrier_relevant_for_localdict s d then s\<lparr>m_localdict_maybe_global := True\<rparr> else s)) (\<lambda>_.
     ret e))))))))))"

definition put_persist_or_create :: "dict_services \<Rightarrow> nat \<Rightarrow> object \<Rightarrow> object \<Rightarrow> (dict_machine, nat) action" where
  "put_persist_or_create svc d key_obj val_obj =
     seq (gets (\<lambda>s. is_global s d \<or> d = m_globaldict s)) (\<lambda>container_is_global.
     seq (reject_fragile container_is_global key_obj) (\<lambda>_.
     seq (reject_fragile container_is_global val_obj) (\<lambda>_.
     seq (\<lambda>s. if barrier_relevant_for_localdict s d
              then seq (note_global_into_local svc container_is_global key_obj) (\<lambda>_. note_global_into_local svc container_is_global val_obj) s
              else (Value (), s)) (\<lambda>_.
     seq (find_entry d key_obj) (\<lambda>(i, _, e).
       if e \<noteq> nulloffset then overwrite_persist svc container_is_global key_obj val_obj e
       else create_persist svc d container_is_global key_obj val_obj i)))))"

section \<open>Iteration\<close>

text \<open>The next entry after an entry of a bucket, and the first of all when the bucket is -1.\<close>

definition next_bucket :: "dict \<Rightarrow> nat \<Rightarrow> int \<Rightarrow> nat \<times> int" where
  "next_bucket h from_idx dflt =
     (case find (\<lambda>idx. d_buckets h ! idx \<noteq> nulloffset) [from_idx..<length (d_buckets h)] of
        Some idx \<Rightarrow> (d_buckets h ! idx, int idx) | None \<Rightarrow> (nulloffset, dflt))"

definition next_impl :: "dict_machine \<Rightarrow> nat \<Rightarrow> nat \<Rightarrow> int \<Rightarrow> (nat \<times> int) outcome" where
  "next_impl s d entry_offset bucket_idx =
     (if bucket_idx = -1 then Value (next_bucket (dict_at s d) 0 0)
      else if entry_offset \<noteq> nulloffset
      then case offset_to_ptr s entry_offset of
             Value _ \<Rightarrow> (let off = e_next (entry_at s entry_offset)
                         in Value (if off = nulloffset then next_bucket (dict_at s d) (nat bucket_idx + 1) bucket_idx else (off, bucket_idx)))
           | Raise e \<Rightarrow> Raise e | Diverge \<Rightarrow> Diverge | Fault \<Rightarrow> Fault
      else Value (nulloffset, bucket_idx))"

partial_function (option) skip_unset :: "dict_machine \<Rightarrow> nat \<Rightarrow> nat \<Rightarrow> int \<Rightarrow> (nat \<times> int) outcome option" where
  "skip_unset s d off idx =
     (if off = nulloffset then Some (Value (nulloffset, 0))
      else case offset_to_ptr s off of
             Value _ \<Rightarrow>
               (if \<not> is_unset_local (e_value (entry_at s off)) then Some (Value (off, idx))
                else case next_impl s d off idx of
                       Value (off1, idx1) \<Rightarrow> skip_unset s d off1 idx1
                     | Raise e \<Rightarrow> Some (Raise e) | Diverge \<Rightarrow> Some Diverge | Fault \<Rightarrow> Some Fault)
           | Raise e \<Rightarrow> Some (Raise e) | Diverge \<Rightarrow> Some Diverge | Fault \<Rightarrow> Some Fault)"

definition dict_next :: "dict_machine \<Rightarrow> nat \<Rightarrow> nat \<Rightarrow> int \<Rightarrow> (nat \<times> int) outcome" where
  "dict_next s d entry_offset bucket_idx =
     bind_outcome (next_impl s d entry_offset bucket_idx) (\<lambda>(off, idx). from_option (skip_unset s d off idx))"

definition dict_value :: "dict_machine \<Rightarrow> object \<Rightarrow> nat outcome" where
  "dict_value s ob =
     (if o_special ob then if m_offset ob \<noteq> m_eqdict_generation s then Raise Unsupported else Value (m_eqdict s)
      else offset_to_ptr s (m_offset ob))"

text \<open>
  The loops over a dictionary that are on the execution stack, each a frame of six objects: their position is moved past an
  entry that is removed, and ended when the dictionary is cleared.
\<close>

definition operator_is_dictforall :: "object \<Rightarrow> bool" where
  "operator_is_dictforall ob \<longleftrightarrow> o_type ob = TOperator \<and> operator_flags ob AND DictForAllOp \<noteq> 0"

fun forall_update :: "dict_machine \<Rightarrow> nat \<Rightarrow> object list \<Rightarrow> object list outcome" where
  "forall_update s target [] = Value []"
| "forall_update s target (ob # rest) =
     (if operator_is_dictforall ob
      then case rest of
             depth # off # bucket # d # proc # rest' \<Rightarrow>
               bind_outcome
                 (if nat (m_immediate off) = target
                  then bind_outcome (dict_value s d) (\<lambda>dict.
                       bind_outcome (dict_next s dict target (m_immediate bucket)) (\<lambda>(off1, idx1).
                       Value (off\<lparr>m_immediate := int off1\<rparr>, bucket\<lparr>m_immediate := idx1\<rparr>)))
                  else Value (off, bucket)) (\<lambda>(off1, bucket1).
               bind_outcome (forall_update s target rest') (\<lambda>r. Value (ob # depth # off1 # bucket1 # d # proc # r)))
           | _ \<Rightarrow> Fault
      else bind_outcome (forall_update s target rest) (\<lambda>r. Value (ob # r)))"

fun forall_clear :: "dict_machine \<Rightarrow> nat \<Rightarrow> object list \<Rightarrow> object list outcome" where
  "forall_clear s target [] = Value []"
| "forall_clear s target (ob # rest) =
     (if operator_is_dictforall ob
      then case rest of
             depth # off # bucket # d # proc # rest' \<Rightarrow>
               bind_outcome (dict_value s d) (\<lambda>dict.
               bind_outcome (forall_clear s target rest') (\<lambda>r.
                 Value (ob # depth # (if dict = target then off\<lparr>m_immediate := int nulloffset\<rparr> else off) # bucket # d # proc # r)))
           | _ \<Rightarrow> Fault
      else bind_outcome (forall_clear s target rest) (\<lambda>r. Value (ob # r)))"

definition upd_execs :: "(dict_machine \<Rightarrow> object list \<Rightarrow> object list outcome) \<Rightarrow> (dict_machine, unit) action" where
  "upd_execs f =
     seq (lift_outcome (\<lambda>s. f s (s_objs (m_exec s)))) (\<lambda>xs.
     modify (\<lambda>s. s\<lparr>m_exec := (m_exec s)\<lparr>s_objs := xs\<rparr>\<rparr>))"

definition dict_forall_update :: "nat \<Rightarrow> (dict_machine, unit) action" where
  "dict_forall_update target = upd_execs (\<lambda>s. forall_update s target)"

definition dict_forall_clear :: "nat \<Rightarrow> (dict_machine, unit) action" where
  "dict_forall_clear target = upd_execs (\<lambda>s. forall_clear s target)"

section \<open>Removal\<close>

text \<open>Unlinking an entry and returning it to the pool, and clearing its objects.\<close>

definition unlink_entry :: "nat \<Rightarrow> link \<Rightarrow> nat \<Rightarrow> (dict_machine, unit) action" where
  "unlink_entry d l e =
     seq (modify (\<lambda>s. set_dlink d l (e_next (entry_at s e)) s)) (\<lambda>_.
     seq (modify (\<lambda>s. upd_entry e (\<lambda>x. x\<lparr>e_next := d_pool (dict_at s d)\<rparr>) s)) (\<lambda>_.
     modify (upd_dict d (\<lambda>h. h\<lparr>d_pool := e, d_length := (d_length h + 65535) mod 65536\<rparr>))))"

definition clear_entry :: "nat \<Rightarrow> nat \<Rightarrow> (dict_machine, unit) action" where
  "clear_entry e level =
     seq (gets (\<lambda>s. e_key (entry_at s e))) (\<lambda>k.
     seq (if o_type k = TName then clear_name_binding k else ret ()) (\<lambda>_.
     modify (upd_entry e (\<lambda>x. x\<lparr>e_key := null_at level, e_value := null_at level\<rparr>))))"

definition undef :: "nat \<Rightarrow> object \<Rightarrow> (dict_machine, unit) action" where
  "undef d key_obj =
     (if o_type key_obj = TNull then raise TypeCheck
      else seq (find_entry d key_obj) (\<lambda>(i, l, e).
        if e = nulloffset then ret ()
        else seq (dict_forall_update e) (\<lambda>_.
             seq (dict_save d) (\<lambda>_.
             seq (gets m_curr_save_level) (\<lambda>level.
             seq (\<lambda>s. if m_object_save_level (e_key (entry_at s e)) = level \<and> m_object_save_level (e_value (entry_at s e)) = level \<or> d = m_eqdict s
                      then seq (release_key e) (\<lambda>_. release_value e) s else undo_dict_entry e s) (\<lambda>_.
             seq (clear_entry e level) (\<lambda>_.
             seq (\<lambda>s. case l of
                   After p \<Rightarrow> if m_object_save_level (e_value (entry_at s p)) \<noteq> level \<and> d \<noteq> m_eqdict s then undo_dict_entry_next p s else (Value (), s)
                 | Bucket _ \<Rightarrow> (Value (), s)) (\<lambda>_.
             unlink_entry d l e))))))))"

definition undef_persist :: "nat \<Rightarrow> object \<Rightarrow> (dict_machine, unit) action" where
  "undef_persist d key_obj =
     (if o_type key_obj = TNull then raise TypeCheck
      else seq (find_entry d key_obj) (\<lambda>(i, l, e).
        if e = nulloffset then ret ()
        else seq (dict_forall_update e) (\<lambda>_.
             seq (release_key e) (\<lambda>_.
             seq (release_value e) (\<lambda>_.
             seq (clear_entry e 0) (\<lambda>_.
             unlink_entry d l e))))))"

end
