(* ===== verification/Lookup.thy ===== *)
theory Lookup
  imports Dict
begin

text \<open>
  Name lookup and the operators on the dictionary stack (\<^verbatim>\<open>src/name.inl\<close>, \<^verbatim>\<open>src/dict.inl\<close>, \<^verbatim>\<open>src/ops_dict.inl\<close>). A name caches the offset of
  the value that it was last found to be bound to; pushing a dictionary writes the bindings of its entries into the cache, popping it and updating it
  clear them. The dictionary stack is a list with the top first. Looking up a path (\<open>:systemdict:\<dots>\<close>) is an argument.
\<close>

section \<open>The walk of the dictionary stack\<close>

text \<open>Offsets of values: the value of an entry follows the link and the key.\<close>

definition value_offset :: "nat \<Rightarrow> nat" where "value_offset e = e + 12"

definition value_at :: "dict_machine \<Rightarrow> nat \<Rightarrow> object" where "value_at s off = e_value (entry_at s (off - 12))"

partial_function (option) name_in_chain :: "dict_machine \<Rightarrow> object \<Rightarrow> nat \<Rightarrow> nat outcome option" where
  "name_in_chain s key_obj off =
     (if off = nulloffset then Some (Value nulloffset)
      else case offset_to_ptr s off of
             Value _ \<Rightarrow>
               (case match_key s key_obj (e_key (entry_at s off)) of
                  Value matched \<Rightarrow>
                    if matched \<and> \<not> is_unset_local (e_value (entry_at s off)) then Some (Value off)
                    else name_in_chain s key_obj (e_next (entry_at s off))
                | Raise e \<Rightarrow> Some (Raise e) | Diverge \<Rightarrow> Some Diverge | Fault \<Rightarrow> Some Fault)
           | Raise e \<Rightarrow> Some (Raise e) | Diverge \<Rightarrow> Some Diverge | Fault \<Rightarrow> Some Fault)"

text \<open>The first dictionary of a list with an entry for the key, and the entry.\<close>

fun first_with :: "(nat \<Rightarrow> nat \<Rightarrow> (dict_machine, nat) action) \<Rightarrow> u32 \<Rightarrow> object list \<Rightarrow> (dict_machine, (object \<times> nat) option) action" where
  "first_with search h [] = ret None"
| "first_with search h (ob # obs) =
     seq (lift_outcome (\<lambda>s. dict_value s ob)) (\<lambda>d.
     seq (bucket_index d h) (\<lambda>i.
     seq (search d i) (\<lambda>e. if e = nulloffset then first_with search h obs else ret (Some (ob, e)))))"

definition name_in_dict :: "object \<Rightarrow> nat \<Rightarrow> nat \<Rightarrow> (dict_machine, nat) action" where
  "name_in_dict key_obj d i = lift_outcome (\<lambda>s. from_option (name_in_chain s key_obj (d_buckets (dict_at s d) ! i)))"

definition key_in_dict :: "object \<Rightarrow> nat \<Rightarrow> nat \<Rightarrow> (dict_machine, nat) action" where
  "key_in_dict key_obj d i =
     seq (lift_outcome (\<lambda>s. from_option (chain_search s d key_obj (Bucket i)))) (\<lambda>(_, e). ret e)"

abbreviation dict_stack :: "dict_machine \<Rightarrow> object list" where "dict_stack s \<equiv> s_objs (m_dict s)"

definition key_lookup :: "object \<Rightarrow> (dict_machine, (object \<times> nat) option) action" where
  "key_lookup key_obj =
     seq (object_hash key_obj) (\<lambda>h.
     seq (gets dict_stack) (\<lambda>obs.
       if o_type key_obj = TName
       then seq (first_with (name_in_dict key_obj) h obs) (\<lambda>r.
              case r of None \<Rightarrow> ret None
              | Some (ob, e) \<Rightarrow> seq (set_name_binding key_obj (value_offset e)) (\<lambda>_. ret (Some (ob, value_offset e))))
       else seq (first_with (key_in_dict key_obj) h obs) (\<lambda>r. ret (map_option (map_prod id value_offset) r))))"

definition name_lookup_in_stack :: "object \<Rightarrow> (dict_machine, nat option) action" where
  "name_lookup_in_stack key_obj =
     seq (name_value key_obj) (\<lambda>n.
     seq (gets dict_stack) (\<lambda>obs.
     seq (first_with (name_in_dict key_obj) (n_hash n) obs) (\<lambda>r.
       case r of None \<Rightarrow> ret None
       | Some (_, e) \<Rightarrow> seq (set_name_binding key_obj (value_offset e)) (\<lambda>_. ret (Some (value_offset e))))))"

definition cached_binding :: "name \<Rightarrow> nat" where "cached_binding n = n_binding n"

definition name_search :: "(u8 list \<Rightarrow> (dict_machine, nat option) action) \<Rightarrow> object \<Rightarrow> (dict_machine, nat option) action" where
  "name_search dict_path_search key_obj =
     seq (name_value key_obj) (\<lambda>n.
       if cached_binding n \<noteq> nulloffset then seq (lift_outcome (\<lambda>s. offset_to_ptr s (cached_binding n))) (\<lambda>off. ret (Some off))
       else if n_data n \<noteq> [] \<and> hd (n_data n) = 58
       then seq (dict_path_search (n_data n)) (\<lambda>r. case r of Some off \<Rightarrow> ret (Some off) | None \<Rightarrow> name_lookup_in_stack key_obj)
       else name_lookup_in_stack key_obj)"

section \<open>Pushing and popping dictionaries\<close>

partial_function (option) chain_each :: "(nat \<Rightarrow> (dict_machine, unit) action) \<Rightarrow> nat \<Rightarrow> dict_machine \<Rightarrow> (unit outcome \<times> dict_machine) option" where
  "chain_each f off s =
     (if off = nulloffset then Some (Value (), s)
      else case offset_to_ptr s off of
             Value _ \<Rightarrow>
               (case f off s of
                  (Value _, s1) \<Rightarrow> chain_each f (e_next (entry_at s1 off)) s1
                | (Raise e, s1) \<Rightarrow> Some (Raise e, s1) | (Diverge, s1) \<Rightarrow> Some (Diverge, s1) | (Fault, s1) \<Rightarrow> Some (Fault, s1))
           | Raise e \<Rightarrow> Some (Raise e, s) | Diverge \<Rightarrow> Some (Diverge, s) | Fault \<Rightarrow> Some (Fault, s))"

definition each_entry :: "nat \<Rightarrow> (nat \<Rightarrow> (dict_machine, unit) action) \<Rightarrow> (dict_machine, unit) action" where
  "each_entry d f s =
     for_each [0..<length (d_buckets (dict_at s d))] (\<lambda>i s. from_loop (chain_each f (d_buckets (dict_at s d) ! i)) s) s"

definition bind_entry :: "nat \<Rightarrow> (dict_machine, unit) action" where
  "bind_entry e =
     seq (gets (\<lambda>s. entry_at s e)) (\<lambda>x.
       if o_type (e_key x) = TName \<and> \<not> is_unset_local (e_value x) then set_name_binding (e_key x) (value_offset e) else ret ())"

definition unbind_entry :: "nat \<Rightarrow> (dict_machine, unit) action" where
  "unbind_entry e =
     seq (gets (\<lambda>s. entry_at s e)) (\<lambda>x. if o_type (e_key x) = TName then clear_name_binding (e_key x) else ret ())"

definition set_name_bindings :: "nat \<Rightarrow> (dict_machine, unit) action" where "set_name_bindings d = each_entry d bind_entry"
definition clear_name_bindings :: "nat \<Rightarrow> (dict_machine, unit) action" where "clear_name_bindings d = each_entry d unbind_entry"

section \<open>Operators\<close>

definition VerifyDict :: verify_t where "VerifyDict = TypeToVerify TDict"
definition VerifyRWDict :: verify_t where "VerifyRWDict = VerifyDict OR VerifyRW"

definition operand_at :: "nat \<Rightarrow> (dict_machine, object) action" where
  "operand_at i s = (if i < length (s_objs (m_op s)) then (Value (s_objs (m_op s) ! i), s) else (Fault, s))"

definition upd_ops :: "(object list \<Rightarrow> object list) \<Rightarrow> (dict_machine, unit) action" where
  "upd_ops f = modify (\<lambda>s. s\<lparr>m_op := (m_op s)\<lparr>s_objs := f (s_objs (m_op s))\<rparr>\<rparr>)"

definition upd_dict_stack :: "(object list \<Rightarrow> object list) \<Rightarrow> (dict_machine, unit) action" where
  "upd_dict_stack f = modify (\<lambda>s. s\<lparr>m_dict := (m_dict s)\<lparr>s_objs := f (dict_stack s)\<rparr>\<rparr>)"

definition clone :: "dict_services \<Rightarrow> object \<Rightarrow> (dict_machine, object) action" where
  "clone svc ob = lift_trix (make_clone (ds_gc svc) ob)"

definition begin_op :: "(dict_machine, unit) action" where
  "begin_op =
     seq (lift_trix (verify_operands [VerifyDict])) (\<lambda>_.
     seq (lift_trix (require_dict_capacity 1)) (\<lambda>_.
     seq (operand_at 0) (\<lambda>dict_obj.
     seq (upd_ops (drop 1)) (\<lambda>_.
     seq (upd_dict_stack (\<lambda>obs. dict_obj # obs)) (\<lambda>_.
     seq (lift_outcome (\<lambda>s. dict_value s dict_obj)) set_name_bindings)))))"

definition end_op :: "(dict_machine, unit) action" where
  "end_op s =
     (case dict_stack s of
        ob # obs \<Rightarrow>
          if length (dict_stack s) > PermanentDictCount
          then seq (lift_outcome (\<lambda>s. dict_value s ob)) (\<lambda>d s.
                 if dict_is_frame (dict_at s d) then (Raise Unsupported, s)
                 else seq (upd_dict_stack (drop 1)) (\<lambda>_. clear_name_bindings d) s) s
          else (Raise DictStackUnderflow, s)
      | [] \<Rightarrow> (Raise DictStackUnderflow, s))"

definition cleardictstack_op :: "(dict_machine, unit) action" where
  "cleardictstack_op s =
     (let count = length (dict_stack s) - PermanentDictCount
      in seq (for_each (take count (dict_stack s)) (\<lambda>ob. seq (lift_outcome (\<lambda>s. dict_value s ob)) clear_name_bindings)) (\<lambda>_.
         upd_dict_stack (drop count)) s)"

definition countdictstack_op :: "(dict_machine, unit) action" where
  "countdictstack_op =
     seq (lift_trix (require_op_capacity 1)) (\<lambda>_.
     seq (gets (\<lambda>s. int (length (dict_stack s)))) (\<lambda>n. upd_ops (\<lambda>xs. make_integer n # xs)))"

text \<open>The dictionary that a definition goes to.\<close>

fun first_nonframe :: "object list \<Rightarrow> (dict_machine, nat) action" where
  "first_nonframe [] = (\<lambda>s. (Fault, s))"
| "first_nonframe (ob # obs) =
     seq (lift_outcome (\<lambda>s. dict_value s ob)) (\<lambda>d s. if dict_is_frame (dict_at s d) then first_nonframe obs s else (Value d, s))"

definition dict_stack_first_nonframe :: "(dict_machine, nat) action" where
  "dict_stack_first_nonframe = seq (gets dict_stack) first_nonframe"

definition has_entry :: "nat \<Rightarrow> object \<Rightarrow> (dict_machine, bool) action" where
  "has_entry d key_obj = seq (find_entry d key_obj) (\<lambda>(_, _, e). ret (e \<noteq> nulloffset))"

definition def_target_dict :: "object \<Rightarrow> (dict_machine, nat) action" where
  "def_target_dict key_obj =
     seq dict_stack_first_nonframe (\<lambda>base s.
       if base \<noteq> m_localdict s then (Value base, s)
       else if d_length (dict_at s (m_globaldict s)) = 0 \<and> \<not> m_curr_alloc_global s then (Value (m_localdict s), s)
       else seq (has_entry (m_localdict s) key_obj) (\<lambda>in_local.
            seq (has_entry (m_globaldict s) key_obj) (\<lambda>in_global s.
              if in_local \<and> in_global then (Raise DictConflict, s)
              else if in_local then (Value (m_localdict s), s)
              else if in_global then (Value (m_globaldict s), s)
              else if m_curr_alloc_global s then (Value (m_globaldict s), s)
              else (Value (m_localdict s), s))) s)"

definition currentdict_op :: "(dict_machine, unit) action" where
  "currentdict_op =
     seq (lift_trix (require_op_capacity 1)) (\<lambda>_.
     seq dict_stack_first_nonframe (\<lambda>base.
     seq (gets (\<lambda>s. if base = m_localdict s \<and> m_curr_alloc_global s then m_globaldict s else base)) (\<lambda>d.
     upd_ops (\<lambda>xs. (make_object TDict 0)\<lparr>m_offset := d\<rparr> # xs))))"

text \<open>The guards on the name that is defined.\<close>

definition reject_reserved_name :: "object \<Rightarrow> (dict_machine, unit) action" where
  "reject_reserved_name key_obj =
     (if o_type key_obj = TName
      then seq (name_value key_obj) (\<lambda>n. if n_data n \<noteq> [] \<and> hd (n_data n) = 64 then raise InvalidName else ret ())
      else ret ())"

definition names_builtin_operator :: "object \<Rightarrow> (dict_machine, bool) action" where
  "names_builtin_operator key_obj =
     (if o_type key_obj = TName
      then seq (gets m_systemdict) (\<lambda>d.
           seq (dict_get d key_obj) (\<lambda>r. ret (case r of Some v \<Rightarrow> o_type v = TOperator | None \<Rightarrow> False)))
      else ret False)"

definition reject_operator_shadow :: "object \<Rightarrow> (dict_machine, unit) action" where
  "reject_operator_shadow key_obj = seq (names_builtin_operator key_obj) (\<lambda>b. if b then raise InvalidName else ret ())"

definition require_operator_to_override :: "object \<Rightarrow> (dict_machine, unit) action" where
  "require_operator_to_override key_obj = seq (names_builtin_operator key_obj) (\<lambda>b. if \<not> b then raise Undefined else ret ())"

definition dict_has_write_access :: "dict \<Rightarrow> bool" where "dict_has_write_access = has_flag ReadWriteAccess"

definition is_active :: "dict_machine \<Rightarrow> bool" where "is_active s \<longleftrightarrow> m_curr_save_level s \<noteq> 0"

definition above_barrier :: "dict_machine \<Rightarrow> object \<Rightarrow> bool" where
  "above_barrier s ob \<longleftrightarrow>
     (if uses_vm ob then m_offset ob \<ge> m_barrier s (m_curr_save_level s) \<and> \<not> is_global s (m_offset ob)
      else if uses_heap_cell ob then m_object_save_level ob \<ge> m_curr_save_level s
      else False)"

text \<open>Above the base level a definition that has to persist is not journalled; the value is checked first, then the key.\<close>

definition put_global_def :: "dict_services \<Rightarrow> nat \<Rightarrow> object \<Rightarrow> object \<Rightarrow> (dict_machine, unit) action" where
  "put_global_def svc d key_obj val_obj s =
     (if is_active s
      then if above_barrier s val_obj then (Raise AboveBarrier, s)
           else if above_barrier s key_obj then (Raise AboveBarrier, s)
           else seq (put_persist_or_create svc d key_obj val_obj) (\<lambda>_. ret ()) s
      else seq (put svc d key_obj val_obj NoBinding) (\<lambda>_. ret ()) s)"

definition write_def :: "(nat \<Rightarrow> (dict_machine, unit) action) \<Rightarrow> nat \<Rightarrow> (dict_machine, unit) action" where
  "write_def store d s = (if dict_has_write_access (dict_at s d) then seq (store d) (\<lambda>_. upd_ops (drop 2)) s else (Raise ReadOnly, s))"

definition def_in :: "dict_services \<Rightarrow> binding_mode \<Rightarrow> object \<Rightarrow> object \<Rightarrow> nat \<Rightarrow> (dict_machine, unit) action" where
  "def_in svc mode key_obj val_obj d s =
     (if d = m_globaldict s then put_global_def svc d key_obj val_obj s else seq (put svc d key_obj val_obj mode) (\<lambda>_. ret ()) s)"

definition key_and_value :: "(object \<Rightarrow> object \<Rightarrow> (dict_machine, unit) action) \<Rightarrow> (dict_machine, unit) action" where
  "key_and_value f =
     seq (lift_trix (verify_operands [VerifyAny, VerifyKey])) (\<lambda>_.
     seq (operand_at 1) (\<lambda>key_obj. seq (operand_at 0) (\<lambda>val_obj. f key_obj val_obj)))"

definition def_op :: "dict_services \<Rightarrow> (dict_machine, unit) action" where
  "def_op svc = key_and_value (\<lambda>key_obj val_obj.
     seq (reject_reserved_name key_obj) (\<lambda>_.
     seq (reject_operator_shadow key_obj) (\<lambda>_.
     seq (def_target_dict key_obj) (write_def (def_in svc NoBinding key_obj val_obj)))))"

definition override_op :: "dict_services \<Rightarrow> (dict_machine, unit) action" where
  "override_op svc = key_and_value (\<lambda>key_obj val_obj.
     seq (reject_reserved_name key_obj) (\<lambda>_.
     seq (require_operator_to_override key_obj) (\<lambda>_.
     seq (def_target_dict key_obj) (write_def (def_in svc NoBinding key_obj val_obj)))))"

definition def_persist_op :: "dict_services \<Rightarrow> (dict_machine, unit) action" where
  "def_persist_op svc = key_and_value (\<lambda>key_obj val_obj.
     seq (reject_reserved_name key_obj) (\<lambda>_.
     seq (reject_operator_shadow key_obj) (\<lambda>_.
     seq (def_target_dict key_obj) (write_def (\<lambda>d. put_global_def svc d key_obj val_obj)))))"

definition local_def_op :: "dict_services \<Rightarrow> (dict_machine, unit) action" where
  "local_def_op svc = key_and_value (\<lambda>key_obj val_obj.
     seq (reject_reserved_name key_obj) (\<lambda>_.
     seq (\<lambda>s. case dict_stack s of ob # _ \<Rightarrow> (dict_value s ob, s) | [] \<Rightarrow> (Fault, s)) (\<lambda>d s.
       if \<not> dict_is_frame (dict_at s d) then (Raise Unsupported, s)
       else write_def (\<lambda>d. seq (put svc d key_obj val_obj Bind) (\<lambda>_. ret ())) d s)))"

definition store_op :: "dict_services \<Rightarrow> (dict_machine, unit) action" where
  "store_op svc = key_and_value (\<lambda>key_obj val_obj.
     seq (key_lookup key_obj) (\<lambda>r.
     seq (case r of Some (ob, _) \<Rightarrow> lift_outcome (\<lambda>s. dict_value s ob) | None \<Rightarrow> def_target_dict key_obj)
       (write_def (def_in svc Bind key_obj val_obj))))"

text \<open>Reading and removing.\<close>

definition set_operand :: "nat \<Rightarrow> object \<Rightarrow> (dict_machine, unit) action" where
  "set_operand i ob = upd_ops (\<lambda>xs. xs[i := ob])"

definition release_operand :: "nat \<Rightarrow> object \<Rightarrow> (dict_machine, unit) action" where
  "release_operand i ob = seq (release ob) (set_operand i)"

definition load_op :: "dict_services \<Rightarrow> (u8 list \<Rightarrow> (dict_machine, nat option) action) \<Rightarrow> (dict_machine, unit) action" where
  "load_op svc dict_path_search =
     seq (lift_trix (verify_operands [VerifyKey])) (\<lambda>_.
     seq (operand_at 0) (\<lambda>key_obj.
     seq (if o_type key_obj = TName then name_search dict_path_search key_obj
          else seq (key_lookup key_obj) (\<lambda>r. ret (map_option snd r))) (\<lambda>r.
       case r of
         Some off \<Rightarrow>
           seq (release_operand 0 key_obj) (\<lambda>_.
           seq (gets (\<lambda>s. value_at s off)) (\<lambda>v.
           seq (clone svc v) (set_operand 0)))
       | None \<Rightarrow> raise Undefined)))"

definition dict_and_key :: "verify_t \<Rightarrow> (object \<Rightarrow> nat \<Rightarrow> (dict_machine, unit) action) \<Rightarrow> (dict_machine, unit) action" where
  "dict_and_key formal f =
     seq (lift_trix (verify_operands [VerifyKey, formal])) (\<lambda>_.
     seq (operand_at 0) (\<lambda>key_obj. seq (operand_at 1) (\<lambda>dict_obj.
     seq (lift_outcome (\<lambda>s. dict_value s dict_obj)) (f key_obj))))"

definition known_op :: "(dict_machine, unit) action" where
  "known_op = dict_and_key VerifyDict (\<lambda>key_obj d.
     seq (dict_get d key_obj) (\<lambda>r.
     seq (release_operand 0 key_obj) (\<lambda>_.
     seq (set_operand 1 (make_boolean (r \<noteq> None))) (\<lambda>_. upd_ops (drop 1)))))"

definition knownget_op :: "dict_services \<Rightarrow> (dict_machine, unit) action" where
  "knownget_op svc = dict_and_key VerifyDict (\<lambda>key_obj d.
     seq (dict_get d key_obj) (\<lambda>r.
     seq (release_operand 0 key_obj) (\<lambda>_.
     seq (case r of Some value \<Rightarrow> seq (clone svc value) (set_operand 1) | None \<Rightarrow> upd_ops (drop 1)) (\<lambda>_.
     set_operand 0 (make_boolean (r \<noteq> None))))))"

definition getdefault_op :: "dict_services \<Rightarrow> (dict_machine, unit) action" where
  "getdefault_op svc =
     seq (lift_trix (verify_operands [VerifyAny, VerifyKey, VerifyDict])) (\<lambda>_.
     seq (operand_at 0) (\<lambda>default_obj. seq (operand_at 1) (\<lambda>key_obj. seq (operand_at 2) (\<lambda>dict_obj.
     seq (lift_outcome (\<lambda>s. dict_value s dict_obj)) (\<lambda>d.
     seq (dict_get d key_obj) (\<lambda>r.
     seq (release_operand 1 key_obj) (\<lambda>_.
     seq (case r of
            Some value \<Rightarrow> seq (seq (clone svc value) (set_operand 2)) (\<lambda>_. release_operand 0 default_obj)
          | None \<Rightarrow> set_operand 2 default_obj) (\<lambda>_.
     upd_ops (drop 2)))))))))"

definition maxlength_op :: "(dict_machine, unit) action" where
  "maxlength_op =
     seq (lift_trix (verify_operands [VerifyDict])) (\<lambda>_.
     seq (operand_at 0) (\<lambda>dict_obj.
     seq (lift_outcome (\<lambda>s. dict_value s dict_obj)) (\<lambda>d.
     seq (gets (\<lambda>s. int (d_maxlength (dict_at s d)))) (\<lambda>n. set_operand 0 (make_integer n)))))"

definition undef_op :: "(dict_machine, unit) action" where
  "undef_op = dict_and_key VerifyRWDict (\<lambda>key_obj d.
     seq (undef d key_obj) (\<lambda>_.
     seq (release_operand 0 key_obj) (\<lambda>_. upd_ops (drop 2))))"

definition undef_persist_op :: "(dict_machine, unit) action" where
  "undef_persist_op = dict_and_key VerifyRWDict (\<lambda>key_obj d.
     seq (\<lambda>s. if is_active s then undef_persist d key_obj s else undef d key_obj s) (\<lambda>_.
     seq (release_operand 0 key_obj) (\<lambda>_. upd_ops (drop 2))))"

text \<open>Where a key is bound: the dictionary takes the slot of the key, which is released only after it was found.\<close>

definition where_op :: "(dict_machine, unit) action" where
  "where_op =
     seq (lift_trix (verify_operands [VerifyKey])) (\<lambda>_.
     seq (operand_at 0) (\<lambda>key_obj.
     seq (key_lookup key_obj) (\<lambda>r.
     seq (case r of
            Some (dict_obj, _) \<Rightarrow>
              seq (lift_trix (require_op_capacity 1)) (\<lambda>_. upd_ops (\<lambda>xs. hd xs # dict_obj # tl xs))
          | None \<Rightarrow> ret ()) (\<lambda>_.
     seq (release key_obj) (\<lambda>_. set_operand 0 (make_boolean (r \<noteq> None)))))))"

end
