(* ===== verification/Dict_Map.thy ===== *)
theory Dict_Map
  imports Dict
begin

text \<open>
  A dictionary is a finite map. The invariant says that the chains hold each key once, in the bucket of its hash, and that the pool
  has the other entries; lookup, insertion and removal are those of the map. Keys that
  own a cell are not covered: their cells would have to be kept apart from those of the values.
\<close>

section \<open>Chains\<close>

fun entry_chain :: "dict_machine \<Rightarrow> nat \<Rightarrow> nat list \<Rightarrow> bool" where
  "entry_chain s off [] \<longleftrightarrow> off = nulloffset"
| "entry_chain s off (x # xs) \<longleftrightarrow> off = x \<and> x \<noteq> nulloffset \<and> x < m_vm_limit s \<and> entry_chain s (e_next (entry_at s x)) xs"

abbreviation key_at :: "dict_machine \<Rightarrow> nat \<Rightarrow> key" where
  "key_at s e \<equiv> key_of s (e_key (entry_at s e))"

definition plain_key :: "dict_machine \<Rightarrow> nat set \<Rightarrow> object \<Rightarrow> bool" where
  "plain_key s names ob \<longleftrightarrow> key_ok s ob \<and> \<not> uses_heap_cell ob \<and> \<not> is_eqstring_ref ob \<and> o_type ob \<noteq> TNull \<and>
     (o_type ob = TName \<longrightarrow> m_offset ob \<in> names) \<and>
     (o_type ob = TString \<longrightarrow> m_offset ob + m_length ob \<le> m_vm_ptr s \<or> m_vm_temp_ptr s \<le> m_offset ob)"

definition interned :: "dict_machine \<Rightarrow> nat set \<Rightarrow> bool" where
  "interned s names \<longleftrightarrow> inj_on (\<lambda>x. n_data (name_at s x)) names"

lemma plain_apart: "plain_key s names a \<Longrightarrow> plain_key s names b \<Longrightarrow> interned s names \<Longrightarrow> names_apart s a b"
  by (auto simp: plain_key_def names_apart_def interned_def inj_on_def)

lemma match_key_ok:
  assumes "plain_key s names a" "plain_key s names b" "interned s names"
  shows "match_key s a b = Value (key_of s a = key_of s b)"
proof (cases "o_type a = TName")
  case True
  have ok: "key_ok s a" "key_ok s b" "\<not> is_eqstring_ref b" using assms(1,2) by (simp_all add: plain_key_def)
  consider "o_type b = TName" | "o_type b = TString" | "o_type b \<noteq> TName" "o_type b \<noteq> TString" by blast
  then show ?thesis
  proof cases
    case 1
    then have "names_apart s a b" using plain_apart assms by blast
    then show ?thesis using 1 True by (auto simp: match_key_def key_of_def names_apart_def)
  next
    case 2
    then show ?thesis using True ok
      by (auto simp: match_key_def name_value_ok sv_value_ok seq_def lift_outcome_def name_equal_def sv_length_def key_ok_def key_of_def)
  next
    case 3
    have "key_of s a \<noteq> key_of s b" using True 3 by (cases "o_type b") (simp_all add: key_of_def)
    then show ?thesis using True 3 by (simp add: match_key_def)
  qed
next
  case False
  then show ?thesis
    using object_equal_ok [of s a b] plain_apart [OF assms] assms by (simp add: match_key_def plain_key_def)
qed

text \<open>The offset at which the search for a key stops, and the link to it.\<close>

fun chain_link :: "(nat \<Rightarrow> bool) \<Rightarrow> link \<Rightarrow> nat list \<Rightarrow> link \<times> nat" where
  "chain_link P l [] = (l, nulloffset)"
| "chain_link P l (x # xs) = (if P x then (l, x) else chain_link P (After x) xs)"

lemma chain_search_ok:
  assumes "entry_chain s (get_dlink s d l) xs" "\<And>x. x \<in> set xs \<Longrightarrow> plain_key s names (e_key (entry_at s x))"
    and key: "plain_key s names k" "interned s names"
  shows "chain_search s d k l = Some (Value (chain_link (\<lambda>x. key_at s x = key_of s k) l xs))"
  using assms(1,2)
proof (induction xs arbitrary: l)
  case Nil
  then show ?case by (subst chain_search.simps) simp
next
  case (Cons x xs)
  have m: "match_key s k (e_key (entry_at s x)) = Value (key_of s k = key_at s x)"
    using match_key_ok [OF key(1) Cons.prems(2) key(2)] by simp
  have rest: "chain_search s d k (After x) = Some (Value (chain_link (\<lambda>x. key_at s x = key_of s k) (After x) xs))"
    using Cons.prems by (intro Cons.IH) (simp_all add: get_dlink_def)
  show ?case using Cons.prems(1) m rest
    by (subst chain_search.simps) (simp add: offset_to_ptr_def Let_def eq_commute [of "key_of s k"])
qed

section \<open>The invariant\<close>

definition dict_home :: "dict_machine \<Rightarrow> nat \<Rightarrow> key \<Rightarrow> nat" where
  "dict_home s d k = unat (hash_of_key k) mod length (d_buckets (dict_at s d))"

definition dict_inv :: "dict_machine \<Rightarrow> nat set \<Rightarrow> nat \<Rightarrow> nat list list \<Rightarrow> nat list \<Rightarrow> bool" where
  "dict_inv s names d chs pool \<longleftrightarrow>
     bucket_count_is_valid (length (d_buckets (dict_at s d))) \<and> length chs = length (d_buckets (dict_at s d)) \<and>
     (\<forall>i<length chs. entry_chain s (d_buckets (dict_at s d) ! i) (chs ! i)) \<and>
     entry_chain s (d_pool (dict_at s d)) pool \<and> distinct (concat chs @ pool) \<and>
     (\<forall>e\<in>set (concat chs @ pool). e + 20 \<le> m_vm_ptr s \<or> m_vm_temp_ptr s \<le> e) \<and>
     (\<forall>i<length chs. \<forall>e\<in>set (chs ! i). plain_key s names (e_key (entry_at s e)) \<and> dict_home s d (key_at s e) = i) \<and>
     inj_on (key_at s) (set (concat chs)) \<and> interned s names \<and>
     d_length (dict_at s d) = length (concat chs) \<and> d_length (dict_at s d) + length pool = d_maxlength (dict_at s d) \<and>
     d_maxlength (dict_at s d) \<le> max_length"

definition dict_map :: "dict_machine \<Rightarrow> nat list list \<Rightarrow> key \<Rightarrow> object option" where
  "dict_map s chs k = map_option (\<lambda>e. e_value (entry_at s e)) (find (\<lambda>e. key_at s e = k) (concat chs))"

lemma dict_invD:
  assumes "dict_inv s names d chs pool"
  shows "bucket_count_is_valid (length (d_buckets (dict_at s d)))" "length chs = length (d_buckets (dict_at s d))"
    "i < length chs \<Longrightarrow> entry_chain s (d_buckets (dict_at s d) ! i) (chs ! i)"
    "entry_chain s (d_pool (dict_at s d)) pool" "distinct (concat chs @ pool)"
    "i < length chs \<Longrightarrow> e \<in> set (chs ! i) \<Longrightarrow> plain_key s names (e_key (entry_at s e))"
    "i < length chs \<Longrightarrow> e \<in> set (chs ! i) \<Longrightarrow> dict_home s d (key_at s e) = i"
    "inj_on (key_at s) (set (concat chs))" "interned s names"
    "d_length (dict_at s d) = length (concat chs)" "d_length (dict_at s d) + length pool = d_maxlength (dict_at s d)"
    "d_maxlength (dict_at s d) \<le> max_length" "e \<in> set (concat chs @ pool) \<Longrightarrow> e + 20 \<le> m_vm_ptr s \<or> m_vm_temp_ptr s \<le> e"
  using assms by (auto simp: dict_inv_def)

lemma bucket_count_bounds: "bucket_count_is_valid n \<Longrightarrow> 0 < n \<and> n < 2 ^ 32"
  by (auto simp: bucket_count_is_valid_def dict_bucket_counts_def)

lemma dict_home_less: "dict_inv s names d chs pool \<Longrightarrow> dict_home s d k < length chs"
  using dict_invD(1,2) [of s names d chs pool] bucket_count_bounds [of "length chs"] by (simp add: dict_home_def)

lemma bucket_index_ok:
  assumes "bucket_count_is_valid (length (d_buckets (dict_at s d)))"
  shows "bucket_index d h s = (Value (unat h mod length (d_buckets (dict_at s d))), s)"
proof -
  let ?n = "length (d_buckets (dict_at s d))"
  have n: "0 < ?n" "?n < 2 ^ 32" using bucket_count_bounds [OF assms] by auto
  have "unat (word_of_nat ?n :: u32) = ?n" using n by (simp add: unat_of_nat take_bit_nat_eq_self)
  then have "unat (fastmod_u32 h (fastmod_magic_u32 (word_of_nat ?n)) (word_of_nat ?n)) = unat h mod ?n"
    using fastmod_mod [of "word_of_nat ?n" h] n(1) by (metis less_irrefl unat_0 unat_mod_distrib)
  then show ?thesis using assms by (simp add: bucket_index_def bucket_magic_for_def lift_outcome_def seq_def)
qed

lemma find_SomeD: "find P xs = Some x \<Longrightarrow> x \<in> set xs \<and> P x"
  by (induction xs) (auto split: if_splits)

lemma find_unique:
  assumes "e \<in> set xs" "P e" "\<And>x. x \<in> set xs \<Longrightarrow> P x \<Longrightarrow> x = e"
  shows "find P xs = Some e"
proof (cases "find P xs")
  case None
  then show ?thesis using assms(1,2) by (auto simp: find_None_iff)
next
  case (Some x)
  then show ?thesis using find_SomeD [OF Some] assms(3) by simp
qed

lemma chain_link_snd: "snd (chain_link P l xs) = (case find P xs of Some x \<Rightarrow> x | None \<Rightarrow> nulloffset)"
  by (induction xs arbitrary: l) auto

lemma chain_link_split:
  "find P xs = Some x \<Longrightarrow> \<exists>ys zs. xs = ys @ x # zs \<and> chain_link P l xs = (if ys = [] then l else After (last ys), x)"
proof (induction xs arbitrary: l)
  case (Cons y xs)
  show ?case
  proof (cases "P y")
    case True
    then show ?thesis using Cons.prems by (auto intro!: exI [of _ "[]"])
  next
    case False
    then obtain ys zs where "xs = ys @ x # zs" "chain_link P (After y) xs = (if ys = [] then After y else After (last ys), x)"
      using Cons.IH [of "After y"] Cons.prems by auto
    then show ?thesis using False by (intro exI [of _ "y # ys"] exI [of _ zs]) auto
  qed
qed simp

lemma in_concat_nth: "e \<in> set (concat chs) \<longleftrightarrow> (\<exists>i<length chs. e \<in> set (chs ! i))"
  by (simp add: set_concat) (metis in_set_conv_nth nth_mem)

lemma dict_find_home:
  assumes inv: "dict_inv s names d chs pool"
  shows "find (\<lambda>e. key_at s e = k) (concat chs) = find (\<lambda>e. key_at s e = k) (chs ! dict_home s d k)"
proof (cases "find (\<lambda>e. key_at s e = k) (concat chs)")
  case None
  have "set (chs ! dict_home s d k) \<subseteq> set (concat chs)" using dict_home_less [OF inv, of k] unfolding in_concat_nth subset_iff by blast
  then show ?thesis using None by (metis find_None_iff subsetD)
next
  case (Some e)
  then have e: "e \<in> set (concat chs)" "key_at s e = k" using find_SomeD by fastforce+
  from e(1) obtain i where i: "i < length chs" "e \<in> set (chs ! i)" unfolding in_concat_nth by blast
  have home: "i = dict_home s d k" using dict_invD(7) [OF inv i] e(2) by simp
  have "x = e" if "x \<in> set (chs ! i)" "key_at s x = k" for x
  proof -
    have "x \<in> set (concat chs)" unfolding in_concat_nth using that(1) i(1) by blast
    then show ?thesis using inj_onD [OF dict_invD(8) [OF inv], of x e] that(2) e by simp
  qed
  then have "find (\<lambda>e. key_at s e = k) (chs ! i) = Some e" using i(2) e(2) by (intro find_unique)
  then show ?thesis using Some home by simp
qed

lemma find_entry_ok:
  assumes inv: "dict_inv s names d chs pool" and key: "plain_key s names k"
  shows "find_entry d k s = (Value (dict_home s d (key_of s k),
    chain_link (\<lambda>x. key_at s x = key_of s k) (Bucket (dict_home s d (key_of s k))) (chs ! dict_home s d (key_of s k))), s)"
proof -
  let ?h = "dict_home s d (key_of s k)"
  have "object_hash k s = (Value (hash_of_key (key_of s k)), s)" using key by (intro object_hash_ok) (simp add: plain_key_def)
  moreover have "bucket_index d (hash_of_key (key_of s k)) s = (Value ?h, s)"
    using bucket_index_ok [OF dict_invD(1) [OF inv]] by (simp add: dict_home_def)
  moreover have "chain_search s d k (Bucket ?h) = Some (Value (chain_link (\<lambda>x. key_at s x = key_of s k) (Bucket ?h) (chs ! ?h)))"
    using dict_invD(3,6) [OF inv dict_home_less [OF inv]] dict_invD(9) [OF inv] key by (intro chain_search_ok) (auto simp: get_dlink_def)
  ultimately show ?thesis
    by (simp add: find_entry_def lift_outcome_def from_option_def seq_def split: prod.splits)
qed

lemma dict_get_ok:
  assumes inv: "dict_inv s names d chs pool" and key: "plain_key s names k"
  shows "dict_get d k s = (Value (case dict_map s chs (key_of s k) of Some v \<Rightarrow> if is_unset_local v then None else Some v | None \<Rightarrow> None), s)"
proof -
  let ?P = "\<lambda>x. key_at s x = key_of s k" and ?h = "dict_home s d (key_of s k)"
  have "entry_chain s off xs \<Longrightarrow> x \<in> set xs \<Longrightarrow> x \<noteq> nulloffset" for off xs x by (induction xs arbitrary: off) auto
  then have nz: "x \<noteq> nulloffset" if "find ?P (chs ! ?h) = Some x" for x
    using that dict_invD(3) [OF inv dict_home_less [OF inv, of "key_of s k"]] using find_SomeD [OF that] by blast
  have "dict_map s chs (key_of s k) = map_option (\<lambda>e. e_value (entry_at s e)) (find ?P (chs ! ?h))"
    using dict_find_home [OF inv, of "key_of s k"] by (simp add: dict_map_def)
  then show ?thesis
    using find_entry_ok [OF inv key] nz chain_link_snd [of ?P "Bucket ?h" "chs ! ?h"]
    by (cases "find ?P (chs ! ?h)"; cases "chain_link ?P (Bucket ?h) (chs ! ?h)") (auto simp: dict_get_def seq_def)
qed

section \<open>What operations leave alone\<close>

definition keeps :: "dict_machine \<Rightarrow> dict_machine \<Rightarrow> bool" where
  "keeps s s' \<longleftrightarrow>
     m_vm_limit s' = m_vm_limit s \<and> m_vm_temp_ptr s' = m_vm_temp_ptr s \<and> m_vm_global s' = m_vm_global s \<and> m_vm_ptr s \<le> m_vm_ptr s' \<and>
     (m_vm_ptr s \<le> m_vm_temp_ptr s \<longrightarrow> m_vm_ptr s' \<le> m_vm_temp_ptr s) \<and>
     (\<forall>x. n_data (name_at s' x) = n_data (name_at s x) \<and> n_hash (name_at s' x) = n_hash (name_at s x)) \<and>
     (\<forall>x. x < m_vm_ptr s \<or> m_vm_temp_ptr s \<le> x \<longrightarrow> string_mem s' x = string_mem s x) \<and>
     m_eqstring_offset s' = m_eqstring_offset s \<and> m_eqstring_generation s' = m_eqstring_generation s \<and>
     m_curr_save_level s' = m_curr_save_level s \<and> m_barrier s' = m_barrier s \<and> m_eqdict s' = m_eqdict s \<and> m_eqset s' = m_eqset s \<and>
     m_exec s' = m_exec s \<and> m_dict s' = m_dict s \<and> m_eqdict_generation s' = m_eqdict_generation s \<and>
     m_gc_roots s' = m_gc_roots s \<and> gc_root_slots s' = gc_root_slots s"

lemma keeps_refl [simp]: "keeps s s"
  by (simp add: keeps_def)

lemma keeps_trans: "keeps s s1 \<Longrightarrow> keeps s1 s2 \<Longrightarrow> keeps s s2"
  unfolding keeps_def by (metis order_less_le_trans order_trans)

lemma keepsD:
  assumes "keeps s s'"
  shows "m_vm_limit s' = m_vm_limit s" "m_vm_temp_ptr s' = m_vm_temp_ptr s" "m_vm_global s' = m_vm_global s" "m_vm_ptr s \<le> m_vm_ptr s'"
    "m_curr_save_level s' = m_curr_save_level s" "m_barrier s' = m_barrier s" "m_eqdict s' = m_eqdict s" "m_eqset s' = m_eqset s"
    "is_global s' = is_global s" "offset_to_ptr s' = offset_to_ptr s"
    "m_gc_roots s' = m_gc_roots s" "gc_root_slots s' = gc_root_slots s" "m_exec s' = m_exec s" "m_dict s' = m_dict s" "m_eqdict_generation s' = m_eqdict_generation s"
  using assms by (auto simp: keeps_def fun_eq_iff is_global_def offset_to_ptr_def)

lemma keeps_key:
  assumes "keeps s s'" "plain_key s names ob"
  shows "plain_key s' names ob" "key_of s' ob = key_of s ob"
proof -
  note k = assms(1) [unfolded keeps_def]
  have bytes: "string_bytes s' (m_offset ob) (m_length ob) = string_bytes s (m_offset ob) (m_length ob)" if "o_type ob = TString"
    unfolding string_bytes_def using that assms(2) k by (intro map_cong refl) (auto simp: plain_key_def)
  have base: "string_base s' ob = string_base s ob" "string_base s ob = m_offset ob"
    using assms(2) by (simp_all add: string_base_def plain_key_def)
  show "key_of s' ob = key_of s ob" using assms(2) k bytes base
    by (cases "o_type ob") (simp_all add: key_of_def plain_key_def uses_cell_types)
  have "offset_to_ptr s' = offset_to_ptr s" using k by (simp add: fun_eq_iff offset_to_ptr_def)
  then have "key_ok s' ob" using assms(2) k base
    by (cases "o_type ob") (auto simp: key_ok_def plain_key_def uses_cell_types)
  then show "plain_key s' names ob" using assms(2) k unfolding plain_key_def by (metis order_trans)
qed

lemma keeps_interned: "keeps s s' \<Longrightarrow> interned s' names = interned s names"
  by (simp add: keeps_def interned_def)

lemma entry_chain_cong:
  "m_vm_limit s' = m_vm_limit s \<Longrightarrow> (\<And>x. x \<in> set xs \<Longrightarrow> e_next (entry_at s' x) = e_next (entry_at s x)) \<Longrightarrow> entry_chain s' off xs = entry_chain s off xs"
  by (induction xs arbitrary: off) auto

lemma entry_chain_nz: "entry_chain s off xs \<Longrightarrow> x \<in> set xs \<Longrightarrow> x \<noteq> nulloffset \<and> x < m_vm_limit s"
  by (induction xs arbitrary: off) auto

section \<open>Journalling\<close>

text \<open>The heap is in order, and a level with a barrier is active unless everything belongs to the base level.\<close>

definition ready :: "dict_machine \<Rightarrow> nat \<Rightarrow> nat set \<Rightarrow> bool" where
  "ready s d es \<longleftrightarrow>
     0 < m_vm_ptr s \<and> m_vm_temp_ptr s \<le> m_vm_global s \<and> m_vm_global s \<le> m_vm_limit s \<and> \<not> is_global s d \<and>
     d \<noteq> m_eqdict s \<and> d \<noteq> m_eqset s \<and> length (m_gc_roots s) < gc_root_slots s \<and>
     (if m_curr_save_level s = 0
      then d_save_level (dict_at s d) = 0 \<and> (\<forall>e\<in>es. m_object_save_level (e_key (entry_at s e)) = 0 \<and> m_object_save_level (e_value (entry_at s e)) = 0)
      else offset_to_ptr s (m_barrier s (m_curr_save_level s)) = Value (m_barrier s (m_curr_save_level s)))"

definition journalled :: "undo \<Rightarrow> dict_machine \<Rightarrow> nat \<Rightarrow> undo list" where
  "journalled u s =
     (let j = m_journal s (m_curr_save_level s)
      in if is_global s (undo_offset u) \<or> j \<noteq> [] \<and> same_place (hd j) u then m_journal s else (m_journal s)(m_curr_save_level s := u # j))"

definition room :: "dict_machine \<Rightarrow> nat \<Rightarrow> bool" where
  "room s n \<longleftrightarrow> m_vm_ptr s + n \<le> m_vm_temp_ptr s"

lemma local_alloc_ok:
  assumes "room s (n + al)" "0 < al"
  shows "local_alloc al n s = (Value (align_up al (m_vm_ptr s)), s\<lparr>m_vm_ptr := align_up al (m_vm_ptr s) + n\<rparr>)"
    "m_vm_ptr s \<le> align_up al (m_vm_ptr s)" "align_up al (m_vm_ptr s) < m_vm_ptr s + al"
proof -
  show b: "m_vm_ptr s \<le> align_up al (m_vm_ptr s)" using align_up_ge [of al "m_vm_ptr s"] assms(2) by simp
  show c: "align_up al (m_vm_ptr s) < m_vm_ptr s + al" using align_up_less [of al "m_vm_ptr s"] assms(2) by simp
  show "local_alloc al n s = (Value (align_up al (m_vm_ptr s)), s\<lparr>m_vm_ptr := align_up al (m_vm_ptr s) + n\<rparr>)"
    using assms(1) c by (simp add: local_alloc_def vm_alloc_ptr_def align_vm_ptr_def Let_def room_def)
qed

lemma journal_undo_ok:
  assumes "room s (n + 16)" "m_curr_save_level s \<noteq> 0" "offset_to_ptr s (m_barrier s (m_curr_save_level s)) = Value b"
  shows "\<exists>s'. journal_undo u n s = (Value (), s') \<and> keeps s s' \<and> dict_at s' = dict_at s \<and> entry_at s' = entry_at s \<and> name_at s' = name_at s \<and>
    string_mem s' = string_mem s \<and> m_journal s' = journalled u s \<and> m_vm_ptr s' \<le> m_vm_ptr s + n + 15 \<and> m_ext s' = m_ext s \<and> m_wide s' = m_wide s"
proof (cases "is_global s (undo_offset u) \<or> m_journal s (m_curr_save_level s) \<noteq> [] \<and> same_place (hd (m_journal s (m_curr_save_level s))) u")
  case True
  then have "journal_undo u n s = (Value (), s)"
    using assms(2,3) by (auto simp: journal_undo_def lift_outcome_def seq_def split: list.splits)
  moreover have "m_journal s = journalled u s" unfolding journalled_def Let_def using True by auto
  ultimately show ?thesis by (intro exI [of _ s]) simp
next
  case False
  let ?m = "12 + (if n > 1 then n - 1 else 0)"
  have r: "room s (?m + 4)" using assms(1) by (auto simp: room_def)
  note al = local_alloc_ok [OF r]
  let ?l = "m_curr_save_level s"
  let ?s = "s\<lparr>m_vm_ptr := align_up 4 (m_vm_ptr s) + ?m\<rparr>"
  let ?s' = "?s\<lparr>m_journal := (m_journal ?s)(?l := u # m_journal ?s ?l)\<rparr>"
  have "add_undo u n s = (Value (), ?s')" using al(1) by (simp add: add_undo_def)
  then have "journal_undo u n s = (Value (), ?s')"
    using False assms(2,3) by (auto simp: journal_undo_def lift_outcome_def seq_def split: list.splits)
  moreover have "keeps s ?s'" using al(2,3) r by (auto simp: keeps_def room_def)
  moreover have "m_vm_ptr ?s' \<le> m_vm_ptr s + n + 15" using al(3) by auto
  moreover have "m_journal ?s' = journalled u s" unfolding journalled_def Let_def using False by auto
  ultimately show ?thesis by (intro exI [of _ ?s']) simp
qed

lemma readyD:
  assumes "ready s d es"
  shows "0 < m_vm_ptr s" "m_vm_temp_ptr s \<le> m_vm_global s" "m_vm_global s \<le> m_vm_limit s" "\<not> is_global s d" "d \<noteq> m_eqdict s" "d \<noteq> m_eqset s"
    "length (m_gc_roots s) < gc_root_slots s"
    "m_curr_save_level s \<noteq> 0 \<Longrightarrow> offset_to_ptr s (m_barrier s (m_curr_save_level s)) = Value (m_barrier s (m_curr_save_level s))"
    "m_curr_save_level s = 0 \<Longrightarrow> d_save_level (dict_at s d) = 0"
    "m_curr_save_level s = 0 \<Longrightarrow> e \<in> es \<Longrightarrow> m_object_save_level (e_key (entry_at s e)) = 0 \<and> m_object_save_level (e_value (entry_at s e)) = 0"
  using assms by (auto simp: ready_def split: if_splits)

lemma dict_save_ok:
  assumes "ready s d es" "room s (dict_size (length (d_buckets (dict_at s d))) + 16)"
  shows "\<exists>s'. dict_save d s = (Value (), s') \<and> keeps s s' \<and> entry_at s' = entry_at s \<and> name_at s' = name_at s \<and> string_mem s' = string_mem s \<and>
    dict_at s' = (dict_at s)(d := (dict_at s d)\<lparr>d_save_level := m_curr_save_level s\<rparr>) \<and>
    m_journal s' = (if d_save_level (dict_at s d) = m_curr_save_level s then m_journal s else journalled (UHeader d (dict_at s d)) s) \<and>
    m_vm_ptr s' \<le> m_vm_ptr s + dict_size (length (d_buckets (dict_at s d))) + 15 \<and> m_ext s' = m_ext s \<and> m_wide s' = m_wide s"
proof (cases "d_save_level (dict_at s d) = m_curr_save_level s")
  case True
  then have "dict_save d s = (Value (), s)" by (simp add: dict_save_def)
  moreover have "(dict_at s)(d := (dict_at s d)\<lparr>d_save_level := m_curr_save_level s\<rparr>) = dict_at s" using True [symmetric] by (simp add: fun_eq_iff)
  ultimately show ?thesis using True by (intro exI [of _ s]) simp
next
  case False
  then have lvl: "m_curr_save_level s \<noteq> 0" using readyD(9) [OF assms(1)] by metis
  obtain s1 where s1: "undo_dict_header d s = (Value (), s1)" "keeps s s1" "dict_at s1 = dict_at s" "entry_at s1 = entry_at s"
      "name_at s1 = name_at s" "string_mem s1 = string_mem s" "m_journal s1 = journalled (UHeader d (dict_at s d)) s"
      "m_vm_ptr s1 \<le> m_vm_ptr s + dict_size (length (d_buckets (dict_at s d))) + 15" "m_ext s1 = m_ext s" "m_wide s1 = m_wide s"
    using journal_undo_ok [OF assms(2) lvl readyD(8) [OF assms(1) lvl]] unfolding undo_dict_header_def by blast
  let ?s = "upd_dict d (\<lambda>h. h\<lparr>d_save_level := m_curr_save_level s1\<rparr>) s1"
  have "dict_save d s = (Value (), ?s)" using False readyD(5,6) [OF assms(1)] s1(1) by (simp add: dict_save_def)
  moreover have "keeps s ?s" using s1(2) by (simp add: keeps_def upd_dict_def)
  ultimately show ?thesis using s1 keepsD(5) [OF s1(2)] False
    by (intro exI [of _ ?s]) (simp add: upd_dict_def)
qed

lemma extend_set_pool: "trix.extend (set_pool w p (trix.truncate s)) (trix.more s) = (if w then s\<lparr>m_wide := p\<rparr> else s\<lparr>m_ext := p\<rparr>)"
  by (cases s) (simp add: trix.defs set_pool_def)

definition releasable :: "dict_machine \<Rightarrow> object \<Rightarrow> bool" where
  "releasable s ob \<longleftrightarrow> \<not> uses_heap_cell ob \<or>
     \<not> is_global s (m_offset ob) \<and> heap_cell_valid (trix.truncate s) ob \<and> m_extvalue_save_level ob \<le> m_curr_save_level s"

lemma truncate_fields [simp]:
  "m_vm_global (trix.truncate s) = m_vm_global s" "m_curr_save_level (trix.truncate s) = m_curr_save_level s"
  by (cases s; simp add: trix.defs)+

lemma truncate_pools [simp]: "m_ext (trix.truncate s) = m_ext s" "m_wide (trix.truncate s) = m_wide s" "m_vm_limit (trix.truncate s) = m_vm_limit s"
  by (cases s; simp add: trix.defs)+

lemma releasable_cong:
  assumes "keeps s s'" "m_ext s' = m_ext s" "m_wide s' = m_wide s"
  shows "releasable s' ob = releasable s ob"
  using keepsD(1,5,9) [OF assms(1)] assms(2,3)
  by (simp add: releasable_def heap_cell_valid_def cell_valid_def valid_offset_def pool_of_def cong: if_cong)

lemma release_ok:
  assumes "releasable s ob"
  shows "\<exists>ob' s'. release ob s = (Value ob', s') \<and> keeps s s' \<and> dict_at s' = dict_at s \<and> entry_at s' = entry_at s \<and> name_at s' = name_at s \<and>
    string_mem s' = string_mem s \<and> m_journal s' = m_journal s \<and> m_vm_ptr s' = m_vm_ptr s"
proof (cases "uses_heap_cell ob")
  case False
  then show ?thesis by (auto simp: release_def maybe_free_extvalue_def lift_trix_def)
next
  case True
  let ?w = "uses_widevalue ob" and ?t = "trix.truncate s"
  have c: "\<not> is_global ?t (m_offset ob)" "heap_cell_valid ?t ob" "m_extvalue_save_level ob \<le> m_curr_save_level s"
    using True assms by (auto simp: releasable_def is_global_def)
  then obtain p where "cell_free_local (class_of ?w) (m_curr_save_level ?t) (m_offset ob) (m_extvalue_save_level ob) (pool_of ?w ?t) ?t = (Value (), p)"
    by (auto simp: heap_cell_valid_def cell_free_local_def)
  then have "release ob s = (Value (ob\<lparr>m_offset := nulloffset\<rparr>), if ?w then s\<lparr>m_wide := p\<rparr> else s\<lparr>m_ext := p\<rparr>)"
    using True c(1) extend_set_pool [of ?w p s] by (simp add: release_def maybe_free_extvalue_def lift_trix_def heap_free_def)
  then show ?thesis by (auto simp: keeps_def)
qed

lemma clone_local [simp]: "clone_into_global svc False ob s = (Value ob, s)"
  by (simp add: clone_into_global_def)

lemma put_existing_ok:
  assumes rdy: "ready s d es" and e: "e \<in> es" and room: "room s 36"
    and old: "m_object_save_level (e_value (entry_at s e)) = m_curr_save_level s \<Longrightarrow> releasable s (e_value (entry_at s e))"
    and key: "\<not> uses_heap_cell k"
  shows "\<exists>s'. put_existing svc d False k v e s = (Value (), s') \<and> keeps s s' \<and> dict_at s' = dict_at s \<and> name_at s' = name_at s \<and> string_mem s' = string_mem s \<and>
    entry_at s' = (entry_at s)(e := (entry_at s e)\<lparr>e_value := v\<lparr>m_object_save_level := m_curr_save_level s\<rparr>\<rparr>) \<and>
    m_journal s' = (if m_object_save_level (e_value (entry_at s e)) = m_curr_save_level s then m_journal s
      else journalled (UEntry e (entry_at s e)) s)"
proof -
  have k: "release k s = (Value k, s)" using key by (simp add: release_def maybe_free_extvalue_def lift_trix_def)
  let ?v = "v\<lparr>m_object_save_level := m_curr_save_level s\<rparr>"
  have upd: "keeps s1 (upd_entry e f s1)" for s1 f by (simp add: keeps_def upd_entry_def)
  show ?thesis
  proof (cases "m_object_save_level (e_value (entry_at s e)) = m_curr_save_level s")
    case True
    obtain ob' s1 where s1: "release (e_value (entry_at s e)) s = (Value ob', s1)" "keeps s s1" "dict_at s1 = dict_at s" "entry_at s1 = entry_at s"
      "name_at s1 = name_at s" "string_mem s1 = string_mem s" "m_journal s1 = m_journal s"
      using release_ok [OF old [OF True]] by blast
    let ?s = "upd_entry e (\<lambda>x. x\<lparr>e_value := ?v\<rparr>) (upd_entry e (\<lambda>x. x\<lparr>e_value := ob'\<rparr>) s1)"
    have "put_existing svc d False k v e s = (Value (), ?s)"
      using True k s1(1) keepsD(5) [OF s1(2)] by (simp add: put_existing_def release_value_def upd_entry_def)
    moreover have "keeps s ?s" using keeps_trans [OF s1(2) keeps_trans [OF upd upd]] .
    ultimately show ?thesis using s1 True by (intro exI [of _ ?s]) (simp add: upd_entry_def)
  next
    case False
    then have lvl: "m_curr_save_level s \<noteq> 0" using readyD(10) [OF rdy _ e] by metis
    have "room s (20 + 16)" using room by simp
    then obtain s1 where s1: "undo_dict_entry e s = (Value (), s1)" "keeps s s1" "dict_at s1 = dict_at s" "entry_at s1 = entry_at s"
      "name_at s1 = name_at s" "string_mem s1 = string_mem s" "m_journal s1 = journalled (UEntry e (entry_at s e)) s"
      using journal_undo_ok [OF _ lvl readyD(8) [OF rdy lvl]] unfolding undo_dict_entry_def by blast
    let ?s = "upd_entry e (\<lambda>x. x\<lparr>e_value := ?v\<rparr>) s1"
    have "put_existing svc d False k v e s = (Value (), ?s)"
      using False readyD(5) [OF rdy] k s1(1) keepsD(5) [OF s1(2)] by (simp add: put_existing_def)
    moreover have "keeps s ?s" using keeps_trans [OF s1(2) upd] .
    ultimately show ?thesis using s1 False by (intro exI [of _ ?s]) (simp add: upd_entry_def)
  qed
qed

section \<open>Adding an entry\<close>

lemma align_up_1 [simp]: "align_up (Suc 0) p = p"
  by (simp add: align_up_def)

lemma copy_string_ok:
  assumes k: "plain_key s names k" "o_type k = TString" and room: "room s (m_length k + 2)"
    and heap: "0 < m_vm_ptr s" "m_vm_temp_ptr s \<le> m_vm_limit s"
  shows "\<exists>k1 s'. copy_string_key_into_region svc k False s = (Value k1, s') \<and> keeps s s' \<and> dict_at s' = dict_at s \<and> entry_at s' = entry_at s \<and>
    name_at s' = name_at s \<and> m_journal s' = m_journal s \<and> m_vm_ptr s' \<le> m_vm_ptr s + m_length k + 1 \<and>
    plain_key s' names k1 \<and> key_of s' k1 = key_of s k \<and> o_type k1 = TString"
proof -
  have "room s (m_length k + 1 + 1)" using room by simp
  note al = local_alloc_ok [OF this, simplified]
  let ?b = "m_vm_ptr s"
  let ?s1 = "s\<lparr>m_vm_ptr := ?b + (m_length k + 1)\<rparr>" and ?bs = "string_bytes s (m_offset k) (m_length k)"
  have k1: "keeps s ?s1" using room by (simp add: keeps_def room_def)
  have "string_base ?s1 k = m_offset k" using k(1) by (simp add: string_base_def plain_key_def)
  then have "sv_value k ?s1 = (Value ?bs, ?s1)"
    using sv_value_ok [of ?s1 k] keeps_key(1) [OF k1 k(1)] k(2) by (simp add: plain_key_def string_bytes_def)
  let ?s' = "?s1\<lparr>string_mem := (\<lambda>i. if ?b \<le> i \<and> i < ?b + length ?bs then ?bs ! (i - ?b) else if i = ?b + length ?bs then 0 else string_mem ?s1 i)\<rparr>"
  let ?k = "(make_object TString 0)\<lparr>o_executable := o_executable k, m_length := m_length k, m_offset := ?b\<rparr>"
  have run: "copy_string_key_into_region svc k False s = (Value ?k, ?s')"
    using al(1) \<open>sv_value k ?s1 = _\<close> by (simp add: copy_string_key_into_region_def cong: if_cong)
  have bytes: "string_bytes ?s' ?b (m_length k) = ?bs"
    by (rule nth_equalityI) (simp_all add: string_bytes_def)
  have lt: "?b + m_length k + 1 \<le> m_vm_temp_ptr s" using room by (simp add: room_def)
  have keep: "keeps s ?s'" unfolding keeps_def using lt by simp
  have ty: "o_type ?k = TString" "\<not> is_eqstring_ref ?k" "m_offset ?k = ?b" "m_length ?k = m_length k"
    by (simp_all add: make_object_def is_eqstring_ref_def)
  then have base: "string_base ?s' ?k = ?b" by (simp add: string_base_def)
  have key: "key_of ?s' ?k = key_of s k" using bytes base k by (simp add: key_of_def ty string_base_def plain_key_def)
  have "m_length k \<le> 65535" using k by (simp add: plain_key_def key_ok_def)
  then have "key_ok ?s' ?k" using heap lt base ty by (auto simp: key_ok_def uses_cell_types offset_to_ptr_def nulloffset_def)
  then have "plain_key ?s' names ?k" using ty by (simp add: plain_key_def uses_cell_types)
  then show ?thesis using run keep key ty(1) by (intro exI [of _ ?k] exI [of _ ?s']) simp
qed

lemma journalled_cong:
  assumes "keeps s s'" "m_journal s' = m_journal s"
  shows "journalled u s' = journalled u s"
  using keepsD(5,9) [OF assms(1)] assms(2) by (simp add: journalled_def Let_def cong: if_cong)

text \<open>The entry that a new key gets, from the pool.\<close>

lemma put_new_ok:
  assumes rdy: "ready s d es" and e: "e = d_pool (dict_at s d)" "e \<in> es" "e \<noteq> nulloffset" "e < m_vm_limit s"
    and k: "plain_key s names k" and room: "room s (m_length k + 40)"
  shows "\<exists>k1 s'. put_new svc d False k v i s = (Value e, s') \<and> keeps s s' \<and> name_at s' = name_at s \<and>
    plain_key s' names k1 \<and> key_of s' k1 = key_of s k \<and>
    dict_at s' = (dict_at s)(d := (dict_at s d)\<lparr>d_pool := e_next (entry_at s e), d_buckets := (d_buckets (dict_at s d))[i := e],
      d_length := d_length (dict_at s d) + 1\<rparr>) \<and>
    entry_at s' = (entry_at s)(e := \<lparr>e_next = d_buckets (dict_at s d) ! i, e_key = k1\<lparr>m_object_save_level := m_curr_save_level s\<rparr>,
      e_value = v\<lparr>m_object_save_level := m_curr_save_level s\<rparr>\<rparr>) \<and>
    m_journal s' = (if m_object_save_level (e_key (entry_at s e)) = m_curr_save_level s \<and> m_object_save_level (e_value (entry_at s e)) = m_curr_save_level s
      then m_journal s else journalled (UEntry e (entry_at s e)) s) \<and> o_type k1 = o_type k"
proof -
  have lim: "m_vm_temp_ptr s \<le> m_vm_limit s" using readyD(2,3) [OF rdy] by simp
  obtain k1 s1 where s1: "(if o_type k = TString then copy_string_key_into_region svc k False else ret k) s = (Value k1, s1)" "keeps s s1"
      "dict_at s1 = dict_at s" "entry_at s1 = entry_at s" "name_at s1 = name_at s" "m_journal s1 = m_journal s"
      "m_vm_ptr s1 \<le> m_vm_ptr s + m_length k + 1" "plain_key s1 names k1" "key_of s1 k1 = key_of s k" "o_type k1 = o_type k"
  proof (cases "o_type k = TString")
    case True
    have "room s (m_length k + 2)" using room by (simp add: room_def)
    then show ?thesis using copy_string_ok [OF k True _ readyD(1) [OF rdy] lim, of svc] True that by auto
  next
    case False
    then show ?thesis using that [of k s] k by simp
  qed
  note d1 = keepsD [OF s1(2)]
  let ?s2 = "upd_dict d (\<lambda>h. h\<lparr>d_pool := e_next (entry_at s1 e)\<rparr>) s1"
  let ?saved = "m_object_save_level (e_key (entry_at s e)) = m_curr_save_level s \<and> m_object_save_level (e_value (entry_at s e)) = m_curr_save_level s"
  have k2: "keeps s ?s2" using s1(2) by (simp add: keeps_def upd_dict_def)
  have f2: "entry_at ?s2 = entry_at s" "m_journal ?s2 = m_journal s" "m_curr_save_level ?s2 = m_curr_save_level s" "m_eqdict ?s2 = m_eqdict s"
    "m_vm_ptr ?s2 = m_vm_ptr s1" "m_vm_temp_ptr ?s2 = m_vm_temp_ptr s"
    using s1 d1 by (simp_all add: upd_dict_def)
  obtain s3 where s3: "(if \<not> ?saved then undo_dict_entry e ?s2 else (Value (), ?s2)) = (Value (), s3)" "keeps ?s2 s3" "dict_at s3 = dict_at ?s2"
      "entry_at s3 = entry_at s" "name_at s3 = name_at s" "m_journal s3 = (if ?saved then m_journal s else journalled (UEntry e (entry_at s e)) s)"
  proof (cases ?saved)
    case True
    then show ?thesis using that [of ?s2] f2 s1(5) by (simp add: upd_dict_def)
  next
    case False
    then have lvl: "m_curr_save_level s \<noteq> 0" using readyD(10) [OF rdy _ e(2)] by metis
    have r: "room ?s2 (20 + 16)" using room s1(7) f2(5,6) by (simp add: room_def)
    have lvl2: "m_curr_save_level ?s2 \<noteq> 0" using lvl f2(3) by simp
    have bar: "offset_to_ptr ?s2 (m_barrier ?s2 (m_curr_save_level ?s2)) = Value (m_barrier s (m_curr_save_level s))"
      using readyD(8) [OF rdy lvl] keepsD(5,6,10) [OF k2] by simp
    obtain s3 where "journal_undo (UEntry e (entry_at ?s2 e)) 20 ?s2 = (Value (), s3)" "keeps ?s2 s3" "dict_at s3 = dict_at ?s2"
        "entry_at s3 = entry_at ?s2" "name_at s3 = name_at ?s2" "m_journal s3 = journalled (UEntry e (entry_at ?s2 e)) ?s2"
      using journal_undo_ok [OF r lvl2 bar] by blast
    then show ?thesis using that [of s3] False f2(1,2) s1(5) journalled_cong [OF k2 f2(2)]
      by (simp add: undo_dict_entry_def upd_dict_def)
  qed
  note d3 = keepsD [OF keeps_trans [OF k2 s3(2)]]
  let ?lv = "m_curr_save_level s"
  let ?s4 = "upd_entry e (\<lambda>x. x\<lparr>e_key := k1\<lparr>m_object_save_level := ?lv\<rparr>, e_value := v\<lparr>m_object_save_level := ?lv\<rparr>, e_next := d_buckets (dict_at s3 d) ! i\<rparr>) s3"
  let ?s5 = "upd_dict d (\<lambda>h. h\<lparr>d_buckets := (d_buckets h)[i := e], d_length := d_length h + 1\<rparr>) ?s4"
  have pool: "d_pool (dict_at s1 d) = e" "offset_to_ptr s1 e = Value e" using s1(3) e d1(1) by (simp_all add: offset_to_ptr_def)
  have roots: "length (m_gc_roots s3) < gc_root_slots s3" "m_gc_roots s3 = m_gc_roots s" using readyD(7) [OF rdy] d3(11,12) by simp_all
  have idem: "s3\<lparr>m_gc_roots := m_gc_roots s3\<rparr> = s3" by simp
  have step: "save_pool_entry d e ?s2 = (Value (), s3)"
    unfolding save_pool_entry_def using s3(1) f2 readyD(5) [OF rdy] by (simp split: if_splits)
  have "put_new svc d False k v i s = (Value e, ?s5)"
    unfolding put_new_def using roots(1)
    by (simp add: s1(1) pool step d3(5) lift_outcome_def require_gc_root_capacity_more_def gc_root_push_def gc_root_pop_n_def split del: if_split)
  moreover have k5: "keeps s3 ?s5" by (simp add: keeps_def upd_dict_def upd_entry_def)
  moreover have "keeps s1 ?s5"
  proof -
    have "keeps s1 ?s2" by (simp add: keeps_def upd_dict_def)
    then show ?thesis using keeps_trans [OF keeps_trans [OF _ s3(2)] k5] by blast
  qed
  ultimately show ?thesis
    using keeps_trans [OF k2 keeps_trans [OF s3(2) k5]] keeps_key [of s1 ?s5 names k1] s1 s3
    by (intro exI [of _ k1] exI [of _ ?s5]) (auto simp: upd_dict_def upd_entry_def)
qed

lemma finish_put_ok:
  assumes "plain_key s names (e_key (entry_at s e))"
  shows "\<exists>s'. finish_put mode e s = (Value e, s') \<and> keeps s s' \<and> dict_at s' = dict_at s \<and> entry_at s' = entry_at s \<and> m_journal s' = m_journal s \<and> m_vm_ptr s' = m_vm_ptr s"
proof (cases "o_type (e_key (entry_at s e)) = TName")
  case True
  let ?n = "m_offset (e_key (entry_at s e))"
  have "offset_to_ptr s ?n = Value ?n" using assms True by (simp add: plain_key_def key_ok_def)
  then have b: "set_name_binding (e_key (entry_at s e)) x s = (Value (), s\<lparr>name_at := (name_at s)(?n := (name_at s ?n)\<lparr>n_binding := x\<rparr>)\<rparr>)" for x
    by (simp add: set_name_binding_def lift_outcome_def seq_def)
  let ?x = "case mode of Bind \<Rightarrow> e + 12 | NoBinding \<Rightarrow> nulloffset"
  let ?s' = "s\<lparr>name_at := (name_at s)(?n := (name_at s ?n)\<lparr>n_binding := ?x\<rparr>)\<rparr>"
  have "finish_put mode e s = (Value e, ?s')" using b True by (cases mode) (simp_all add: finish_put_def clear_name_binding_def)
  moreover have "keeps s ?s'" by (simp add: keeps_def)
  ultimately show ?thesis by (intro exI [of _ ?s']) simp
next
  case False
  then show ?thesis by (simp add: finish_put_def)
qed

section \<open>Updates of the map\<close>

lemma dict_map_at: "dict_inv s names d chs pool \<Longrightarrow> e \<in> set (concat chs) \<Longrightarrow> dict_map s chs (key_at s e) = Some (e_value (entry_at s e))"
proof -
  assume inv: "dict_inv s names d chs pool" and e: "e \<in> set (concat chs)"
  have "find (\<lambda>x. key_at s x = key_at s e) (concat chs) = Some e"
    using e inj_onD [OF dict_invD(8) [OF inv]] by (intro find_unique) auto
  then show ?thesis by (simp add: dict_map_def)
qed

lemma dict_map_none: "k \<notin> key_at s ` set (concat chs) \<Longrightarrow> dict_map s chs k = None"
proof -
  assume k: "k \<notin> key_at s ` set (concat chs)"
  have "find (\<lambda>x. key_at s x = k) (concat chs) = None" using k unfolding find_None_iff by blast
  then show ?thesis by (simp add: dict_map_def)
qed

lemma dict_map_dom: "dict_map s chs k \<noteq> None \<longleftrightarrow> k \<in> key_at s ` set (concat chs)"
  by (auto simp: dict_map_def find_None_iff simp del: set_concat)

lemma dict_inv_entry: "dict_inv s names d chs pool \<Longrightarrow> e \<in> set (concat chs) \<Longrightarrow> plain_key s names (e_key (entry_at s e))"
  unfolding in_concat_nth using dict_invD(6) by blast

text \<open>Changes that leave the links and the keys alone.\<close>

lemma dict_inv_keep:
  assumes inv: "dict_inv s names d chs pool" and k: "keeps s s'"
    and h: "d_buckets (dict_at s' d) = d_buckets (dict_at s d)" "d_pool (dict_at s' d) = d_pool (dict_at s d)"
      "d_length (dict_at s' d) = d_length (dict_at s d)" "d_maxlength (dict_at s' d) = d_maxlength (dict_at s d)"
    and nxt: "\<And>x. x \<in> set (concat chs @ pool) \<Longrightarrow> e_next (entry_at s' x) = e_next (entry_at s x)"
    and keys: "\<And>x. x \<in> set (concat chs) \<Longrightarrow> e_key (entry_at s' x) = e_key (entry_at s x)"
  shows "dict_inv s' names d chs pool" "x \<in> set (concat chs) \<Longrightarrow> key_at s' x = key_at s x"
proof -
  note d = keepsD [OF k]
  show kx: "key_at s' x = key_at s x" if "x \<in> set (concat chs)" for x
    using keeps_key(2) [OF k dict_inv_entry [OF inv that]] keys [OF that] by simp
  have sub: "x \<in> set (concat chs)" if "i < length chs" "x \<in> set (chs ! i)" for i x
    unfolding in_concat_nth using that by blast
  have ch: "entry_chain s' off xs = entry_chain s off xs" if "set xs \<subseteq> set (concat chs @ pool)" for off xs
    by (rule entry_chain_cong [OF d(1)]) (rule nxt, use that in blast)
  have chi: "entry_chain s' (d_buckets (dict_at s d) ! i) (chs ! i)" if "i < length chs" for i
  proof -
    have "set (chs ! i) \<subseteq> set (concat chs @ pool)" using sub [OF that] by (auto simp del: set_concat)
    then show ?thesis using ch dict_invD(3) [OF inv that] by simp
  qed
  have "entry_chain s' (d_pool (dict_at s d)) pool" using ch [of pool] dict_invD(4) [OF inv] by auto
  moreover have "plain_key s' names (e_key (entry_at s' e)) \<and> dict_home s' d (key_at s' e) = i" if i: "i < length chs" "e \<in> set (chs ! i)" for i e
    using keeps_key(1) [OF k dict_invD(6) [OF inv i]] keys [OF sub [OF i]] kx [OF sub [OF i]] dict_invD(7) [OF inv i] h(1) by (simp add: dict_home_def)
  moreover have "inj_on (key_at s') (set (concat chs))"
    using dict_invD(8) [OF inv] kx by (metis (mono_tags, lifting) inj_on_cong)
  moreover have "e + 20 \<le> m_vm_ptr s' \<or> m_vm_temp_ptr s' \<le> e" if "e \<in> set (concat chs @ pool)" for e
    using dict_invD(13) [OF inv that] d(2,4) by auto
  moreover have "interned s' names" using keeps_interned [OF k] dict_invD(9) [OF inv] by simp
  ultimately show "dict_inv s' names d chs pool"
    using dict_invD(1,2,5,10-12) [OF inv] chi h by (simp only: dict_inv_def) blast
qed

lemma dict_overwrite:
  assumes inv: "dict_inv s names d chs pool" and k: "keeps s s'"
    and h: "d_buckets (dict_at s' d) = d_buckets (dict_at s d)" "d_pool (dict_at s' d) = d_pool (dict_at s d)"
      "d_length (dict_at s' d) = d_length (dict_at s d)" "d_maxlength (dict_at s' d) = d_maxlength (dict_at s d)"
    and e: "e \<in> set (concat chs)" "entry_at s' = (entry_at s)(e := (entry_at s e)\<lparr>e_value := v\<rparr>)"
  shows "dict_inv s' names d chs pool" "dict_map s' chs = (dict_map s chs)(key_at s e \<mapsto> v)"
proof -
  note keep = dict_inv_keep [OF inv k h]
  show inv': "dict_inv s' names d chs pool" using e by (intro keep(1)) auto
  have kx: "key_at s' x = key_at s x" if "x \<in> set (concat chs)" for x using e that by (intro keep(2)) auto
  show "dict_map s' chs = (dict_map s chs)(key_at s e \<mapsto> v)"
  proof
    fix k
    show "dict_map s' chs k = ((dict_map s chs)(key_at s e \<mapsto> v)) k"
    proof (cases "k \<in> key_at s ` set (concat chs)")
      case True
      then obtain x where x: "x \<in> set (concat chs)" "k = key_at s x" by blast
      have "x = e \<longleftrightarrow> key_at s x = key_at s e" using inj_onD [OF dict_invD(8) [OF inv], of x e] x(1) e(1) by auto
      then show ?thesis using dict_map_at [OF inv' x(1)] dict_map_at [OF inv x(1)] kx [OF x(1)] x(2) e(2) by auto
    next
      case False
      then have "k \<notin> key_at s' ` set (concat chs)" using kx by auto
      then show ?thesis using False e(1) dict_map_none [OF False] dict_map_none [of k s'] by auto
    qed
  qed
qed

lemma concat_update: "i < length xss \<Longrightarrow> concat (xss[i := ys]) = concat (take i xss) @ ys @ concat (drop (Suc i) xss)"
  by (simp add: upd_conv_take_nth_drop)

lemma concat_split: "i < length xss \<Longrightarrow> concat xss = concat (take i xss) @ xss ! i @ concat (drop (Suc i) xss)"
  by (metis concat.simps(2) concat_append id_take_nth_drop)

lemma dict_insert:
  assumes inv: "dict_inv s names d chs (e # pool)" and k: "keeps s s'"
    and h: "d_buckets (dict_at s' d) = (d_buckets (dict_at s d))[i := e]" "d_pool (dict_at s' d) = e_next (entry_at s e)"
      "d_length (dict_at s' d) = d_length (dict_at s d) + 1" "d_maxlength (dict_at s' d) = d_maxlength (dict_at s d)"
    and e: "entry_at s' = (entry_at s)(e := \<lparr>e_next = d_buckets (dict_at s d) ! i, e_key = ko, e_value = v\<rparr>)"
    and ko: "plain_key s' names ko" "i = dict_home s d (key_of s' ko)" "dict_map s chs (key_of s' ko) = None"
  shows "dict_inv s' names d (chs[i := e # chs ! i]) pool" "dict_map s' (chs[i := e # chs ! i]) = (dict_map s chs)(key_of s' ko \<mapsto> v)"
proof -
  note d = keepsD [OF k]
  let ?chs = "chs[i := e # chs ! i]"
  have i: "i < length chs" using dict_home_less [OF inv] ko(2) by simp
  have set': "set (concat ?chs) = insert e (set (concat chs))"
    unfolding concat_update [OF i] concat_split [OF i] by (auto simp del: set_concat)
  have en: "e \<notin> set (concat chs)" "e \<notin> set pool" using dict_invD(5) [OF inv] by (auto simp del: set_concat)
  have sub: "x \<in> set (concat chs)" if "j < length chs" "x \<in> set (chs ! j)" for j x unfolding in_concat_nth using that by blast
  have at: "entry_at s' x = entry_at s x" if "x \<noteq> e" for x using e that by simp
  have ch: "entry_chain s' off xs = entry_chain s off xs" if "e \<notin> set xs" for off xs
    using that at by (intro entry_chain_cong [OF d(1)]) metis
  have kx: "key_at s' x = key_at s x" if "x \<in> set (concat chs)" for x
    using keeps_key(2) [OF k dict_inv_entry [OF inv that]] at [of x] en(1) that by metis
  have ke: "key_at s' e = key_of s' ko" using e by simp
  have fresh: "key_of s' ko \<notin> key_at s ` set (concat chs)" using ko(3) dict_map_dom [of s chs "key_of s' ko"] by simp
  have len: "length (d_buckets (dict_at s' d)) = length chs" "length (d_buckets (dict_at s d)) = length chs"
    using h(1) dict_invD(2) [OF inv] by simp_all
  then have home: "dict_home s' d x = dict_home s d x" for x by (simp add: dict_home_def)
  have chains: "entry_chain s' (d_buckets (dict_at s' d) ! j) (?chs ! j)" if j: "j < length ?chs" for j
  proof (cases "j = i")
    case True
    have "entry_chain s' (d_buckets (dict_at s d) ! i) (chs ! i)" using dict_invD(3) [OF inv i] ch [of "chs ! i"] sub [OF i] en(1) by blast
    then show ?thesis using True i h(1) len e d(1) entry_chain_nz [OF dict_invD(4) [OF inv], of e] by simp
  next
    case False
    have "entry_chain s' (d_buckets (dict_at s d) ! j) (chs ! j)" using dict_invD(3) [OF inv, of j] j ch [of "chs ! j"] sub [of j] en(1) by auto
    then show ?thesis using False h(1) by simp
  qed
  have "entry_chain s' (d_pool (dict_at s' d)) pool" using dict_invD(4) [OF inv] ch [OF en(2)] h(2) by simp
  moreover have "plain_key s' names (e_key (entry_at s' x)) \<and> dict_home s' d (key_at s' x) = j" if j: "j < length ?chs" "x \<in> set (?chs ! j)" for j x
  proof (cases "x = e")
    case True
    then have "j = i" using j sub [of j x] en(1) by (cases "j = i") auto
    then show ?thesis using True ko e home by simp
  next
    case False
    then have x: "x \<in> set (chs ! j)" "j < length chs" using j by (cases "j = i"; simp)+
    then show ?thesis using keeps_key(1) [OF k dict_invD(6) [OF inv x(2,1)]] dict_invD(7) [OF inv x(2,1)] at [OF False] kx [OF sub [OF x(2,1)]] home by simp
  qed
  moreover have inj: "inj_on (key_at s') (set (concat ?chs))"
  proof -
    have "inj_on (key_at s') (set (concat chs))" using dict_invD(8) [OF inv] kx by (metis (mono_tags, lifting) inj_on_cong)
    moreover have "key_at s' e \<noteq> key_at s' x" if "x \<in> set (concat chs)" for x
      unfolding kx [OF that] ke using fresh imageI [OF that, of "key_at s"] by metis
    then have "key_at s' e \<notin> key_at s' ` (set (concat chs) - {e})" by blast
    ultimately show ?thesis unfolding set' inj_on_insert by blast
  qed
  moreover have "distinct (concat ?chs @ pool)"
    using dict_invD(5) [OF inv] unfolding concat_update [OF i] concat_split [OF i] by (auto simp del: set_concat)
  moreover have "x + 20 \<le> m_vm_ptr s' \<or> m_vm_temp_ptr s' \<le> x" if "x \<in> set (concat ?chs @ pool)" for x
  proof -
    have "x \<in> set (concat chs @ e # pool)" using that set' by (auto simp del: set_concat)
    then show ?thesis using dict_invD(13) [OF inv, of x] d(2,4) by auto
  qed
  moreover have "length (concat ?chs) = Suc (length (concat chs))"
    unfolding concat_update [OF i] concat_split [OF i] by simp
  moreover have "interned s' names" using keeps_interned [OF k] dict_invD(9) [OF inv] by simp
  ultimately show inv': "dict_inv s' names d ?chs pool"
    using dict_invD(1,10-12) [OF inv] chains h len unfolding dict_inv_def by simp
  show "dict_map s' ?chs = (dict_map s chs)(key_of s' ko \<mapsto> v)"
  proof
    fix k
    show "dict_map s' ?chs k = ((dict_map s chs)(key_of s' ko \<mapsto> v)) k"
    proof (cases "k \<in> key_at s' ` set (concat ?chs)")
      case True
      then obtain x where x: "x \<in> set (concat ?chs)" "k = key_at s' x" by blast
      show ?thesis
      proof (cases "x = e")
        case True
        then show ?thesis using dict_map_at [OF inv' x(1)] x(2) ke e by simp
      next
        case False
        then have y: "x \<in> set (concat chs)" using x(1) unfolding set' by blast
        then have "k \<noteq> key_of s' ko" using fresh kx x(2) by force
        then show ?thesis using dict_map_at [OF inv' x(1)] dict_map_at [OF inv y] kx [OF y] at [OF False] x(2) by simp
      qed
    next
      case False
      then have "k \<noteq> key_of s' ko" "k \<notin> key_at s ` set (concat chs)" using set' ke kx by auto
      then show ?thesis using dict_map_none [OF False] dict_map_none [of k s chs] by simp
    qed
  qed
qed

section \<open>Growth\<close>

lemma fold_entries:
  "i < n \<Longrightarrow> fold (\<lambda>i f. f(base + 20 * i := g i)) [0..<n] f0 (base + 20 * i) = g (i :: nat)"
  "(\<And>i. i < n \<Longrightarrow> x \<noteq> base + 20 * i) \<Longrightarrow> fold (\<lambda>i f. f(base + 20 * i := g i)) [0..<n] f0 x = (f0 x :: dict_entry)"
  by (induction n) (auto simp: less_Suc_eq)

lemma pool_chain:
  assumes at: "\<And>i. i < n \<Longrightarrow> entry_at s (base + 20 * i) = pool_entry l base n i"
    and lim: "0 < base" "base + 20 * n \<le> m_vm_limit s" and j: "j \<le> n"
  shows "entry_chain s (if j < n then base + 20 * j else nulloffset) (map (\<lambda>i. base + 20 * i) [j..<n])"
  using j
proof (induction j rule: inc_induct)
  case (step j)
  have "e_next (entry_at s (base + 20 * j)) = (if Suc j < n then base + 20 * Suc j else nulloffset)"
    using at [OF step.hyps(2)] by (simp add: pool_entry_def)
  then show ?case using step lim by (simp add: upt_rec [of j n] nulloffset_def)
qed simp

definition put_need :: "dict_machine \<Rightarrow> nat \<Rightarrow> object \<Rightarrow> nat" where
  "put_need s d k = dict_size (length (d_buckets (dict_at s d))) + 20 * d_maxlength (dict_at s d) + m_length k + 64"

lemma expand_ok:
  assumes inv: "dict_inv s names d chs []" and rdy: "ready s d es"
    and mx: "d_maxlength (dict_at s d) \<noteq> 0" "d_maxlength (dict_at s d) \<noteq> max_length" and room: "room s (20 * d_maxlength (dict_at s d) + 4)"
  shows "\<exists>s' base n. expand_dict svc d s = (Value (), s') \<and> keeps s s' \<and> name_at s' = name_at s \<and> m_journal s' = m_journal s \<and>
    0 < n \<and> n \<le> d_maxlength (dict_at s d) \<and> m_vm_ptr s \<le> base \<and> base + 20 * n \<le> m_vm_ptr s' \<and> m_vm_ptr s' \<le> m_vm_ptr s + 20 * d_maxlength (dict_at s d) + 3 \<and>
    dict_at s' = (dict_at s)(d := (dict_at s d)\<lparr>d_pool := base, d_maxlength := d_maxlength (dict_at s d) + n\<rparr>) \<and>
    (\<forall>x. (\<forall>i<n. x \<noteq> base + 20 * i) \<longrightarrow> entry_at s' x = entry_at s x) \<and>
    (\<forall>i<n. entry_at s' (base + 20 * i) = pool_entry (m_curr_save_level s) base n i) \<and>
    dict_inv s' names d chs (map (\<lambda>i. base + 20 * i) [0..<n]) \<and> dict_map s' chs = dict_map s chs"
proof -
  let ?m = "d_maxlength (dict_at s d)" and ?n = "expand_size (d_maxlength (dict_at s d)) 1"
  have n: "0 < ?n" "?n \<le> ?m" "?m + ?n \<le> max_length" using mx dict_invD(12) [OF inv] by (auto simp: expand_size_def)
  have r: "room s (?n * 20 + 4)" using room n(2) by (simp add: room_def)
  note al = local_alloc_ok [OF r]
  let ?b = "align_up 4 (m_vm_ptr s)"
  let ?s1 = "s\<lparr>m_vm_ptr := ?b + ?n * 20\<rparr>"
  let ?s' = "upd_dict d (\<lambda>h. h\<lparr>d_maxlength := ?m + ?n\<rparr>) (init_dict_pool d ?n ?b ?s1)"
  have b: "m_vm_ptr s \<le> ?b" "?b < m_vm_ptr s + 4" using al(2,3) by auto
  have run: "expand_dict svc d s = (Value (), ?s')"
    using mx readyD(4) [OF rdy] al(1) by (simp add: expand_dict_def Let_def)
  have k: "keeps s ?s'" using b r by (simp add: keeps_def upd_dict_def init_dict_pool_def room_def)
  note d = keepsD [OF k]
  have ptr: "m_vm_ptr ?s' = ?b + 20 * ?n" by (simp add: upd_dict_def init_dict_pool_def)
  have ent: "entry_at ?s' = fold (\<lambda>i f. f(?b + 20 * i := pool_entry (m_curr_save_level s) ?b ?n i)) [0..<?n] (entry_at s)"
    by (simp add: upd_dict_def init_dict_pool_def)
  have new: "entry_at ?s' (?b + 20 * i) = pool_entry (m_curr_save_level s) ?b ?n i" if "i < ?n" for i
    unfolding ent by (rule fold_entries(1) [OF that])
  have old: "entry_at ?s' x = entry_at s x" if "\<forall>i<?n. x \<noteq> ?b + 20 * i" for x
    unfolding ent by (rule fold_entries(2)) (use that in simp)
  have top: "?b + 20 * ?n \<le> m_vm_temp_ptr s" using b(2) r by (simp add: room_def)
  have lim: "0 < ?b" "?b + 20 * ?n \<le> m_vm_limit ?s'" using readyD(1-3) [OF rdy] b(1) top d(1) by linarith+
  have dict: "dict_at ?s' = (dict_at s)(d := (dict_at s d)\<lparr>d_pool := ?b, d_maxlength := ?m + ?n\<rparr>)"
    by (simp add: upd_dict_def init_dict_pool_def)
  have apart: "x \<noteq> ?b + 20 * i" if "x \<in> set (concat chs)" "i < ?n" for x i
    using dict_invD(13) [OF inv, of x] that b(1) top by (auto simp del: set_concat)
  have same: "entry_at ?s' x = entry_at s x" if "x \<in> set (concat chs)" for x using old apart [OF that] by blast
  have kx: "key_at ?s' x = key_at s x" if "x \<in> set (concat chs)" for x
    using keeps_key(2) [OF k dict_inv_entry [OF inv that]] same [OF that] by simp
  let ?pool = "map (\<lambda>i. ?b + 20 * i) [0..<?n]"
  have sub: "x \<in> set (concat chs)" if "j < length chs" "x \<in> set (chs ! j)" for j x unfolding in_concat_nth using that by blast
  have home: "dict_home ?s' d x = dict_home s d x" for x using dict by (simp add: dict_home_def)
  have chains: "entry_chain ?s' (d_buckets (dict_at ?s' d) ! j) (chs ! j)" if j: "j < length chs" for j
  proof -
    have "entry_chain ?s' off (chs ! j) = entry_chain s off (chs ! j)" for off
      by (rule entry_chain_cong [OF d(1)]) (use same sub [OF j] in metis)
    then show ?thesis using dict_invD(3) [OF inv j] dict by simp
  qed
  have "entry_chain ?s' (d_pool (dict_at ?s' d)) ?pool"
    using pool_chain [of ?n ?s' ?b "m_curr_save_level s" 0] new lim n(1) dict by simp
  moreover have "distinct (concat chs @ ?pool)"
  proof -
    have "x \<notin> set ?pool" if "x \<in> set (concat chs)" for x
    proof
      assume "x \<in> set ?pool"
      then obtain i where "i < ?n" "x = ?b + 20 * i" by auto
      then show False using apart [OF that] by blast
    qed
    then show ?thesis using dict_invD(5) [OF inv] by (auto simp: distinct_map inj_on_def simp del: set_concat)
  qed
  moreover have "plain_key ?s' names (e_key (entry_at ?s' x)) \<and> dict_home ?s' d (key_at ?s' x) = j" if x: "j < length chs" "x \<in> set (chs ! j)" for j x
    using keeps_key(1) [OF k dict_invD(6) [OF inv x]] dict_invD(7) [OF inv x] same [OF sub [OF x]] kx [OF sub [OF x]] home by simp
  moreover have "inj_on (key_at ?s') (set (concat chs))"
    using dict_invD(8) [OF inv] kx by (metis (mono_tags, lifting) inj_on_cong)
  moreover have "x + 20 \<le> m_vm_ptr ?s' \<or> m_vm_temp_ptr ?s' \<le> x" if "x \<in> set (concat chs @ ?pool)" for x
    using that dict_invD(13) [OF inv, of x] d(2,4) ptr by (auto simp del: set_concat)
  moreover have "interned ?s' names" using keeps_interned [OF k] dict_invD(9) [OF inv] by simp
  moreover have "d_length (dict_at ?s' d) = length (concat chs)" "d_length (dict_at ?s' d) + length ?pool = d_maxlength (dict_at ?s' d)"
    "bucket_count_is_valid (length (d_buckets (dict_at ?s' d)))" "length chs = length (d_buckets (dict_at ?s' d))" "d_maxlength (dict_at ?s' d) \<le> max_length"
    using dict_invD(1,2,10,11) [OF inv] dict n(3) by simp_all
  ultimately have inv': "dict_inv ?s' names d chs ?pool" using chains unfolding dict_inv_def by blast
  have "dict_map ?s' chs x = dict_map s chs x" for x
  proof (cases "x \<in> key_at s ` set (concat chs)")
    case True
    then obtain e where e: "e \<in> set (concat chs)" "x = key_at s e" by blast
    then show ?thesis using dict_map_at [OF inv' e(1)] dict_map_at [OF inv e(1)] kx [OF e(1)] same [OF e(1)] by simp
  next
    case False
    then have "x \<notin> key_at ?s' ` set (concat chs)" using kx by (auto simp del: set_concat)
    then show ?thesis using dict_map_none [OF False] dict_map_none [of x ?s' chs] by simp
  qed
  then show ?thesis using run k n b ptr new old dict inv' 
    by (intro exI [of _ ?s'] exI [of _ ?b] exI [of _ ?n]) (auto simp: upd_dict_def init_dict_pool_def simp del: set_concat)
qed

end
