(* ===== verification/Dict_Undo.thy ===== *)
theory Dict_Undo
  imports Dict_Map
begin

text \<open>
  The journal of a save level as a way back: replaying it, newest first, gives the headers and entries as they were when
  the level was opened. What has been journalled may be changed freely; anything else is journalled before it changes.
\<close>

type_synonym contents = "(nat \<Rightarrow> dict) \<times> (nat \<Rightarrow> dict_entry)"

fun undo1 :: "undo \<Rightarrow> contents \<Rightarrow> contents" where
  "undo1 (UHeader d h) (ds, es) = (ds(d := h), es)"
| "undo1 (UEntry e x) (ds, es) = (ds, es(e := x))"
| "undo1 (UNext e n) (ds, es) = (ds, es(e := (es e)\<lparr>e_next := n\<rparr>))"

abbreviation undo_all :: "undo list \<Rightarrow> contents \<Rightarrow> contents" where
  "undo_all j \<equiv> fold undo1 j"

definition saved_header :: "undo list \<Rightarrow> nat \<Rightarrow> bool" where
  "saved_header j d \<longleftrightarrow> (\<exists>h. UHeader d h \<in> set j)"

definition saved_entry :: "undo list \<Rightarrow> nat \<Rightarrow> bool" where
  "saved_entry j e \<longleftrightarrow> (\<exists>x. UEntry e x \<in> set j)"

definition saved_next :: "undo list \<Rightarrow> nat \<Rightarrow> bool" where
  "saved_next j e \<longleftrightarrow> saved_entry j e \<or> (\<exists>n. UNext e n \<in> set j)"

lemma saved_simps [simp]:
  "saved_header (u # j) d \<longleftrightarrow> (\<exists>h. u = UHeader d h) \<or> saved_header j d"
  "saved_entry (u # j) e \<longleftrightarrow> (\<exists>x. u = UEntry e x) \<or> saved_entry j e"
  by (auto simp: saved_header_def saved_entry_def)

text \<open>Two contents that the journal takes to the same.\<close>

lemma undo_Cons: "undo_all (u # j) p = undo_all j (undo1 u p)"
  by simp

lemmas undo_step = undo_Cons undo1.simps fun_upd_upd fun_upd_same

lemma undo_header: "saved_header j d \<Longrightarrow> undo_all j (ds(d := h), es) = undo_all j (ds, es)"
proof (induction j arbitrary: ds es)
  case (Cons u j)
  show ?case
  proof (cases u)
    case (UHeader d' h')
    show ?thesis
    proof (cases "d' = d")
      case True
      show ?thesis unfolding UHeader True undo_step ..
    next
      case False
      then have "saved_header j d" using Cons.prems UHeader by simp
      from Cons.IH [OF this, of "ds(d' := h')" es] show ?thesis unfolding UHeader undo_step fun_upd_twist [OF False] .
    qed
  next
    case UEntry
    then show ?thesis using Cons.prems unfolding UEntry undo_step by (intro Cons.IH) simp
  next
    case UNext
    then show ?thesis using Cons.prems unfolding UNext undo_step by (intro Cons.IH) simp
  qed
qed (simp add: saved_header_def)

lemma undo_entry: "saved_entry j e \<Longrightarrow> undo_all j (ds, es(e := x)) = undo_all j (ds, es)"
proof (induction j arbitrary: ds es x)
  case (Cons u j)
  show ?case
  proof (cases u)
    case UHeader
    then show ?thesis using Cons.prems unfolding UHeader undo_step by (intro Cons.IH) simp
  next
    case (UEntry e' x')
    show ?thesis
    proof (cases "e' = e")
      case True
      show ?thesis unfolding UEntry True undo_step ..
    next
      case False
      then have "saved_entry j e" using Cons.prems UEntry by simp
      from Cons.IH [OF this, of ds "es(e' := x')" x] show ?thesis unfolding UEntry undo_step fun_upd_twist [OF False] .
    qed
  next
    case (UNext e' n)
    have saved: "saved_entry j e" using Cons.prems UNext by simp
    show ?thesis
    proof (cases "e' = e")
      case True
      show ?thesis unfolding UNext True undo_step Cons.IH [OF saved] ..
    next
      case False
      then have "e \<noteq> e'" by simp
      from Cons.IH [OF saved, of ds "es(e' := (es e')\<lparr>e_next := n\<rparr>)" x] show ?thesis
        unfolding UNext undo_step fun_upd_other [OF False] fun_upd_twist [OF False] .
    qed
  qed
qed (simp add: saved_entry_def)

lemma undo_next: "saved_next j e \<Longrightarrow> undo_all j (ds, es(e := (es e)\<lparr>e_next := n\<rparr>)) = undo_all j (ds, es)"
proof (induction j arbitrary: ds es)
  case (Cons u j)
  show ?case
  proof (cases u)
    case UHeader
    then show ?thesis using Cons.prems unfolding UHeader undo_step by (intro Cons.IH) (simp add: saved_next_def)
  next
    case (UEntry e' x)
    show ?thesis
    proof (cases "e' = e")
      case True
      show ?thesis unfolding UEntry True undo_step ..
    next
      case False
      then have "saved_next j e" "e \<noteq> e'" using Cons.prems UEntry by (auto simp: saved_next_def)
      from Cons.IH [OF this(1), of ds "es(e' := x)"] show ?thesis
        unfolding UEntry undo_step fun_upd_other [OF \<open>e \<noteq> e'\<close>] fun_upd_twist [OF False] .
    qed
  next
    case (UNext e' n')
    show ?thesis
    proof (cases "e' = e")
      case True
      have "(es e)\<lparr>e_next := n, e_next := n'\<rparr> = (es e)\<lparr>e_next := n'\<rparr>" by simp
      then show ?thesis unfolding UNext True undo_step by (simp only:)
    next
      case False
      then have "saved_next j e" "e \<noteq> e'" using Cons.prems UNext by (auto simp: saved_next_def)
      from Cons.IH [OF this(1), of ds "es(e' := (es e')\<lparr>e_next := n'\<rparr>)"] show ?thesis
        unfolding UNext undo_step fun_upd_other [OF \<open>e \<noteq> e'\<close>] fun_upd_other [OF False] fun_upd_twist [OF False] .
    qed
  qed
qed (simp add: saved_next_def saved_entry_def)

text \<open>Contents that agree below an offset are taken to contents that agree below it.\<close>

definition agree :: "nat \<Rightarrow> contents \<Rightarrow> contents \<Rightarrow> bool" where
  "agree b p q \<longleftrightarrow> (\<forall>x<b. fst p x = fst q x \<and> snd p x = snd q x)"

lemma agree_refl [simp]: "agree b p p" by (simp add: agree_def)

lemma agree_trans: "agree b p q \<Longrightarrow> agree b q r \<Longrightarrow> agree b p r" by (simp add: agree_def)

lemma undo1_agree: "agree b p q \<Longrightarrow> agree b (undo1 u p) (undo1 u q)"
  by (cases u; cases p; cases q) (auto simp: agree_def)

lemma undo_agree: "agree b p q \<Longrightarrow> agree b (undo_all j p) (undo_all j q)"
  by (induction j arbitrary: p q) (simp_all add: undo1_agree)

section \<open>The journal of the current level\<close>

abbreviation contents_of :: "dict_machine \<Rightarrow> contents" where "contents_of s \<equiv> (dict_at s, entry_at s)"
abbreviation level_journal :: "dict_machine \<Rightarrow> undo list" where "level_journal s \<equiv> m_journal s (m_curr_save_level s)"
abbreviation level_barrier :: "dict_machine \<Rightarrow> nat" where "level_barrier s \<equiv> m_barrier s (m_curr_save_level s)"

text \<open>
  The contents \<open>c\<close> can be restored: below the barrier the journal leads to them, and whatever carries the current
  level has been journalled.
\<close>

definition undoable :: "contents \<Rightarrow> dict_machine \<Rightarrow> nat set \<Rightarrow> nat set \<Rightarrow> bool" where
  "undoable c s ds es \<longleftrightarrow>
     agree (level_barrier s) (undo_all (level_journal s) (contents_of s)) c \<and> level_barrier s \<le> m_vm_ptr s \<and> level_barrier s \<le> m_vm_global s \<and>
     (\<forall>d\<in>ds. d < level_barrier s \<and> d_save_level (dict_at s d) = m_curr_save_level s \<longrightarrow> saved_header (level_journal s) d) \<and>
     (\<forall>e\<in>es. e < level_barrier s \<and> m_object_save_level (e_value (entry_at s e)) = m_curr_save_level s \<longrightarrow> saved_entry (level_journal s) e)"

lemma undoableD:
  assumes "undoable c s ds es"
  shows "agree (level_barrier s) (undo_all (level_journal s) (contents_of s)) c" "level_barrier s \<le> m_vm_ptr s" "level_barrier s \<le> m_vm_global s"
    "d \<in> ds \<Longrightarrow> d < level_barrier s \<Longrightarrow> d_save_level (dict_at s d) = m_curr_save_level s \<Longrightarrow> saved_header (level_journal s) d"
    "e \<in> es \<Longrightarrow> e < level_barrier s \<Longrightarrow> m_object_save_level (e_value (entry_at s e)) = m_curr_save_level s \<Longrightarrow> saved_entry (level_journal s) e"
  using assms by (auto simp: undoable_def)

text \<open>When a level is opened its journal is empty, and what exists carries an older level.\<close>

lemma undoable_open:
  assumes "level_journal s = []" "level_barrier s \<le> m_vm_ptr s" "level_barrier s \<le> m_vm_global s"
    and "\<And>d. d \<in> ds \<Longrightarrow> d < level_barrier s \<Longrightarrow> d_save_level (dict_at s d) \<noteq> m_curr_save_level s"
    and "\<And>e. e \<in> es \<Longrightarrow> e < level_barrier s \<Longrightarrow> m_object_save_level (e_value (entry_at s e)) \<noteq> m_curr_save_level s"
  shows "undoable (contents_of s) s ds es"
  using assms by (auto simp: undoable_def)

lemma same_place_saved: "same_place h u \<Longrightarrow> (\<exists>x. u = UHeader d x) \<Longrightarrow> (\<exists>x. h = UHeader d x)"
  "same_place h u \<Longrightarrow> (\<exists>x. u = UEntry d x) \<Longrightarrow> (\<exists>x. h = UEntry d x)" "same_place h u \<Longrightarrow> (\<exists>x. u = UNext d x) \<Longrightarrow> (\<exists>x. h = UNext d x)"
  by (cases h; cases u; simp)+

text \<open>A journal that has grown by the present contents of a place, or not at all.\<close>

definition present :: "undo \<Rightarrow> contents \<Rightarrow> bool" where
  "present u p \<longleftrightarrow> undo1 u p = p"

lemma present_intros: "present (UHeader d (ds d)) (ds, es)" "present (UEntry e (es e)) (ds, es)" "present (UNext e (e_next (es e))) (ds, es)"
  by (simp_all add: present_def)

definition grown :: "undo \<Rightarrow> dict_machine \<Rightarrow> dict_machine \<Rightarrow> bool" where
  "grown u s s' \<longleftrightarrow> (m_journal s' = m_journal s \<or> m_journal s' = journalled u s) \<and> present u (contents_of s)"

lemma grown_journal:
  assumes "grown u s s'" "m_curr_save_level s' = m_curr_save_level s"
  shows "level_journal s' = level_journal s \<or> level_journal s' = u # level_journal s"
  using assms by (auto simp: grown_def journalled_def Let_def split: if_splits)

lemma grown_undo:
  assumes "grown u s s'" "m_curr_save_level s' = m_curr_save_level s"
  shows "undo_all (level_journal s') (contents_of s) = undo_all (level_journal s) (contents_of s)"
    "saved_header (level_journal s) d \<Longrightarrow> saved_header (level_journal s') d" "saved_entry (level_journal s) e \<Longrightarrow> saved_entry (level_journal s') e"
  using grown_journal [OF assms] assms(1) by (auto simp: grown_def present_def)

lemma journalled_saved:
  assumes "m_journal s' = journalled u s" "m_curr_save_level s' = m_curr_save_level s" "undo_offset u < m_vm_global s"
  shows "u = UHeader d h \<Longrightarrow> saved_header (level_journal s') d" "u = UEntry e x \<Longrightarrow> saved_entry (level_journal s') e"
    "u = UNext e n \<Longrightarrow> saved_next (level_journal s') e"
proof -
  let ?j = "level_journal s"
  have "\<not> is_global s (undo_offset u)" using assms(3) by (simp add: is_global_def)
  then have j: "level_journal s' = (if ?j \<noteq> [] \<and> same_place (hd ?j) u then ?j else u # ?j)"
    using assms(1,2) by (simp add: journalled_def Let_def)
  show "u = UHeader d h \<Longrightarrow> saved_header (level_journal s') d" "u = UEntry e x \<Longrightarrow> saved_entry (level_journal s') e"
    "u = UNext e n \<Longrightarrow> saved_next (level_journal s') e"
    using j same_place_saved [of "hd ?j" u] by (cases ?j; auto simp: saved_header_def saved_entry_def saved_next_def; blast)+
qed

text \<open>Changing what is saved, or what is not below the barrier.\<close>

lemma agree_upd: "b \<le> d \<Longrightarrow> agree b (ds(d := h), es) (ds, es)" "b \<le> e \<Longrightarrow> agree b (ds, es(e := x)) (ds, es)"
  by (auto simp: agree_def)

lemma change_header: "(d < b \<Longrightarrow> saved_header j d) \<Longrightarrow> agree b (undo_all j (ds(d := h), es)) (undo_all j (ds, es))"
  using undo_header [of j d ds h es] undo_agree [OF agree_upd(1), of b d j ds h es] by (cases "d < b") auto

lemma change_entry: "(e < b \<Longrightarrow> saved_entry j e) \<Longrightarrow> agree b (undo_all j (ds, es(e := x))) (undo_all j (ds, es))"
  using undo_entry [of j e ds es x] undo_agree [OF agree_upd(2), of b e j ds es x] by (cases "e < b") auto

lemma change_next: "(e < b \<Longrightarrow> saved_next j e) \<Longrightarrow> agree b (undo_all j (ds, es(e := (es e)\<lparr>e_next := n\<rparr>))) (undo_all j (ds, es))"
  using undo_next [of j e ds es n] undo_agree [OF agree_upd(2), of b e j ds es "(es e)\<lparr>e_next := n\<rparr>"] by (cases "e < b") auto

lemma undoable_change:
  assumes und: "undoable c s D E" and k: "keeps s s'" and g: "grown u s s'"
    and change: "agree (level_barrier s) (undo_all (level_journal s') (contents_of s')) (undo_all (level_journal s') (contents_of s))"
    and D: "\<And>d. d \<in> D' \<Longrightarrow> d < level_barrier s \<Longrightarrow> d_save_level (dict_at s' d) = m_curr_save_level s \<Longrightarrow> saved_header (level_journal s') d"
    and E: "\<And>e. e \<in> E' \<Longrightarrow> e < level_barrier s \<Longrightarrow> m_object_save_level (e_value (entry_at s' e)) = m_curr_save_level s \<Longrightarrow> saved_entry (level_journal s') e"
  shows "undoable c s' D' E'"
proof -
  note d = keepsD(4,5,6,3) [OF k]
  have "agree (level_barrier s) (undo_all (level_journal s') (contents_of s')) c"
    using change undoableD(1) [OF und] unfolding grown_undo(1) [OF g d(2)] by (rule agree_trans)
  then show ?thesis using undoableD(2,3) [OF und] d D E unfolding undoable_def by auto
qed

section \<open>The steps of an update\<close>

text \<open>A header is changed after it has been saved at this level.\<close>

lemma undoable_save:
  assumes und: "undoable c s D E" and k: "keeps s s'" and d: "d \<in> D"
    and c': "dict_at s' = (dict_at s)(d := h)" "entry_at s' = entry_at s"
    and j: "m_journal s' = (if d_save_level (dict_at s d) = m_curr_save_level s then m_journal s else journalled (UHeader d (dict_at s d)) s)"
  shows "undoable c s' D E"
proof -
  note lv = keepsD(5) [OF k]
  have g: "grown (UHeader d (dict_at s d)) s s'" using j by (auto simp: grown_def present_intros)
  note gu = grown_undo [OF g lv]
  with undoableD(3) [OF und] have sv: "saved_header (level_journal s') d" if "d < level_barrier s"
    using that j undoableD(4) [OF und d that] gu(2) journalled_saved(1) [of s' "UHeader d (dict_at s d)" s d "dict_at s d"] lv
    by (auto simp: undo_offset_def split: if_splits)
  have "agree (level_barrier s) (undo_all (level_journal s') (contents_of s')) (undo_all (level_journal s') (contents_of s))"
    unfolding c' by (rule change_header) (rule sv)
  then show ?thesis using undoableD(4,5) [OF und] gu(2,3) sv c' by (intro undoable_change [OF und k g]) (auto split: if_splits)
qed

text \<open>An entry is changed, saved before unless it has the level; the header has been saved.\<close>

lemma undoable_entry:
  assumes und: "undoable c s D E" and k: "keeps s s'" and d: "d \<in> D" "d_save_level (dict_at s d) = m_curr_save_level s"
    and e: "e \<in> E" and c': "dict_at s' = (dict_at s)(d := h)" "entry_at s' = (entry_at s)(e := x)"
    and j: "m_journal s' = (if Q then m_journal s else journalled (UEntry e (entry_at s e)) s)" "Q \<Longrightarrow> m_object_save_level (e_value (entry_at s e)) = m_curr_save_level s"
  shows "undoable c s' D E"
proof -
  note lv = keepsD(5) [OF k]
  have g: "grown (UEntry e (entry_at s e)) s s'" using j(1) by (auto simp: grown_def present_intros)
  note gu = grown_undo [OF g lv]
  with undoableD(3) [OF und] have se: "saved_entry (level_journal s') e" if "e < level_barrier s"
    using that j undoableD(5) [OF und e that] gu(3) journalled_saved(2) [of s' "UEntry e (entry_at s e)" s e "entry_at s e"] lv
    by (auto simp: undo_offset_def split: if_splits)
  have sd: "saved_header (level_journal s') d" if "d < level_barrier s" using gu(2) undoableD(4) [OF und d(1) that d(2)] .
  have "agree (level_barrier s) (undo_all (level_journal s') (contents_of s')) (undo_all (level_journal s') (contents_of s))"
    unfolding c' by (rule agree_trans [OF change_header change_entry]) (rule sd se; assumption)+
  then show ?thesis using undoableD(4,5) [OF und] gu(2,3) sd se c' by (intro undoable_change [OF und k g]) (auto split: if_splits)
qed

text \<open>New entries are above the barrier.\<close>

lemma undoable_expand:
  assumes und: "undoable c s D E" and k: "keeps s s'" and d: "d \<in> D" "d_save_level (dict_at s d) = m_curr_save_level s"
    and c': "dict_at s' = (dict_at s)(d := h)" "\<And>x. x < m_vm_ptr s \<Longrightarrow> entry_at s' x = entry_at s x" and j: "m_journal s' = m_journal s"
    and E': "\<And>x. x \<in> E' \<Longrightarrow> x \<in> E \<or> m_vm_ptr s \<le> x"
  shows "undoable c s' D E'"
proof -
  note lv = keepsD(5) [OF k] and b = undoableD(2) [OF und]
  have g: "grown (UHeader d (dict_at s d)) s s'" using j by (simp add: grown_def present_intros)
  note gu = grown_undo [OF g lv]
  have sd: "saved_header (level_journal s') d" if "d < level_barrier s" using gu(2) undoableD(4) [OF und d(1) that d(2)] .
  have "agree (level_barrier s) (dict_at s', entry_at s') (dict_at s', entry_at s)" using c'(2) b by (simp add: agree_def)
  then have "agree (level_barrier s) (undo_all (level_journal s') (contents_of s')) (undo_all (level_journal s') (contents_of s))"
    unfolding c'(1) by (rule agree_trans [OF undo_agree change_header]) (rule sd)
  then show ?thesis
  proof (rule undoable_change [OF und k g])
    show "saved_header (level_journal s') x" if "x \<in> D" "x < level_barrier s" "d_save_level (dict_at s' x) = m_curr_save_level s" for x
      using that undoableD(4) [OF und] gu(2) sd c'(1) by (auto split: if_splits)
    show "saved_entry (level_journal s') x" if x: "x \<in> E'" "x < level_barrier s" "m_object_save_level (e_value (entry_at s' x)) = m_curr_save_level s" for x
      using E' [OF x(1)] x(2,3) undoableD(5) [OF und, of x] gu(3) c'(2) [of x] b by auto
  qed
qed

section \<open>Replaying the journal\<close>

definition plain_entry :: "dict_entry \<Rightarrow> bool" where
  "plain_entry x \<longleftrightarrow> \<not> uses_heap_cell (e_key x) \<and> \<not> uses_heap_cell (e_value x)"

text \<open>No entry, present or saved, holds a cell.\<close>

definition no_cells :: "dict_machine \<Rightarrow> bool" where
  "no_cells s \<longleftrightarrow> (\<forall>x. plain_entry (entry_at s x)) \<and> (\<forall>e x. UEntry e x \<in> set (level_journal s) \<longrightarrow> plain_entry x)"

lemma no_cells_step:
  assumes "no_cells s" "grown u s s'" "m_curr_save_level s' = m_curr_save_level s" "\<And>x. plain_entry (entry_at s' x)"
  shows "no_cells s'"
proof -
  have "plain_entry x" if "u = UEntry e x" for e x
  proof -
    have "(entry_at s)(e := x) = entry_at s" using assms(2) that by (simp add: grown_def present_def)
    then show ?thesis using assms(1) unfolding no_cells_def by (metis fun_upd_same)
  qed
  then show ?thesis using grown_journal [OF assms(2,3)] assms(1,4) by (auto simp: no_cells_def)
qed

lemma no_cells_same: "no_cells s \<Longrightarrow> m_journal s' = m_journal s \<Longrightarrow> m_curr_save_level s' = m_curr_save_level s \<Longrightarrow> (\<And>x. plain_entry (entry_at s' x)) \<Longrightarrow> no_cells s'"
  by (simp add: no_cells_def)

lemma no_cells_entries: "no_cells s \<Longrightarrow> plain_entry (entry_at s x)"
  by (simp add: no_cells_def)

fun replay_journal :: "undo list \<Rightarrow> (dict_machine, unit) action" where
  "replay_journal [] = ret ()"
| "replay_journal (u # j) = seq (replay_undo u) (\<lambda>_. replay_journal j)"

lemma release_plain: "\<not> uses_heap_cell ob \<Longrightarrow> release ob s = (Value ob, s)"
  by (simp add: release_def maybe_free_extvalue_def lift_trix_def)

lemma replay_undo_ok:
  assumes "\<And>x. plain_entry (entry_at s x)"
  shows "replay_undo u s = (Value (), s\<lparr>dict_at := fst (undo1 u (contents_of s)), entry_at := snd (undo1 u (contents_of s))\<rparr>)"
proof (cases u)
  case (UEntry e x)
  have "release_key e s = (Value (), s)" "release_value e s = (Value (), s)"
    using assms [of e] by (simp_all add: plain_entry_def release_key_def release_value_def release_plain upd_entry_def)
  then show ?thesis using UEntry by (simp add: upd_entry_def)
qed (simp_all add: upd_dict_def upd_entry_def)

lemma replay_journal_ok:
  assumes "\<And>x. plain_entry (entry_at s x)" "\<And>e x. UEntry e x \<in> set j \<Longrightarrow> plain_entry x"
  shows "replay_journal j s = (Value (), s\<lparr>dict_at := fst (undo_all j (contents_of s)), entry_at := snd (undo_all j (contents_of s))\<rparr>)"
  using assms
proof (induction j arbitrary: s)
  case (Cons u j)
  let ?s = "s\<lparr>dict_at := fst (undo1 u (contents_of s)), entry_at := snd (undo1 u (contents_of s))\<rparr>"
  have "plain_entry (entry_at ?s x)" for x using Cons.prems(1) [of x] Cons.prems(1) Cons.prems(2) by (cases u) (auto simp: plain_entry_def)
  then have "replay_journal j ?s = (Value (), ?s\<lparr>dict_at := fst (undo_all j (contents_of ?s)), entry_at := snd (undo_all j (contents_of ?s))\<rparr>)"
    using Cons.prems(2) by (intro Cons.IH) auto
  then show ?case using replay_undo_ok [OF Cons.prems(1), of u] by simp
qed simp

end
