(* ===== verification/Dict_Put.thy ===== *)
theory Dict_Put
  imports Dict_Undo
begin

text \<open>
  Insertion: the map of the dictionary is updated at the key, every other dictionary keeps its map, and the journal still leads
  back to the contents that the save level started with.
\<close>

section \<open>Progress\<close>

text \<open>What a step on the dictionary \<open>d\<close> with the entries \<open>X\<close>, afterwards \<open>X'\<close>, leaves alone, and that it can be undone.\<close>

definition advance :: "nat \<Rightarrow> object \<Rightarrow> dict_machine \<Rightarrow> nat set \<Rightarrow> dict_machine \<Rightarrow> nat set \<Rightarrow> bool" where
  "advance d v s X s' X' \<longleftrightarrow>
     keeps s s' \<and> X' \<subseteq> X \<union> {x. m_vm_ptr s \<le> x \<and> x < m_vm_temp_ptr s} \<and> (\<forall>x. x \<noteq> d \<longrightarrow> dict_at s' x = dict_at s x) \<and>
     (\<forall>x. x \<notin> X \<and> (x < m_vm_ptr s \<or> m_vm_temp_ptr s \<le> x) \<longrightarrow> entry_at s' x = entry_at s x) \<and>
     (\<forall>c D E. undoable c s D E \<and> d \<in> D \<and> X \<subseteq> E \<longrightarrow> undoable c s' D (E \<union> X')) \<and>
     (\<not> uses_heap_cell v \<and> no_cells s \<longrightarrow> no_cells s')"

lemma advanceD:
  assumes "advance d v s X s' X'"
  shows "keeps s s'" "X' \<subseteq> X \<union> {x. m_vm_ptr s \<le> x \<and> x < m_vm_temp_ptr s}" "x \<noteq> d \<Longrightarrow> dict_at s' x = dict_at s x"
    "x \<notin> X \<Longrightarrow> x < m_vm_ptr s \<or> m_vm_temp_ptr s \<le> x \<Longrightarrow> entry_at s' x = entry_at s x"
    "undoable c s D E \<Longrightarrow> d \<in> D \<Longrightarrow> X \<subseteq> E \<Longrightarrow> undoable c s' D (E \<union> X')" "\<not> uses_heap_cell v \<Longrightarrow> no_cells s \<Longrightarrow> no_cells s'"
  using assms unfolding advance_def by blast+

lemma undoable_mono: "undoable c s D E \<Longrightarrow> E' \<subseteq> E \<Longrightarrow> undoable c s D E'"
  by (auto simp: undoable_def)

lemma advance_trans:
  assumes a: "advance d v s X s1 X1" and b: "advance d v s1 X1 s2 X2"
  shows "advance d v s X s2 X2"
proof -
  note k = keepsD(2,4) [OF advanceD(1) [OF a]]
  have "entry_at s2 x = entry_at s x" if x: "x \<notin> X" "x < m_vm_ptr s \<or> m_vm_temp_ptr s \<le> x" for x
  proof -
    have "x \<notin> X1" using advanceD(2) [OF a] x by auto
    then show ?thesis using advanceD(4) [OF b, of x] advanceD(4) [OF a x] x(2) k by auto
  qed
  moreover have "undoable c s2 D (E \<union> X2)" if u: "undoable c s D E" "d \<in> D" "X \<subseteq> E" for c D E
    using undoable_mono [OF advanceD(5) [OF b advanceD(5) [OF a u] u(2)], of "E \<union> X2"] by auto
  moreover have "\<not> uses_heap_cell v \<and> no_cells s \<longrightarrow> no_cells s2" using advanceD(6) [OF a] advanceD(6) [OF b] by blast
  moreover have "X2 \<subseteq> X \<union> {x. m_vm_ptr s \<le> x \<and> x < m_vm_temp_ptr s}" using advanceD(2) [OF a] advanceD(2) [OF b] k by fastforce
  moreover have "dict_at s2 x = dict_at s x" if "x \<noteq> d" for x using advanceD(3) [OF a that] advanceD(3) [OF b that] by simp
  ultimately show ?thesis
    using keeps_trans [OF advanceD(1) [OF a] advanceD(1) [OF b]] unfolding advance_def by blast
qed

text \<open>Another dictionary is the same afterwards.\<close>

lemma same_map:
  assumes inv: "dict_inv s names d chs pool" and inv': "dict_inv s' names d chs pool'"
    and kx: "\<And>x. x \<in> set (concat chs) \<Longrightarrow> key_at s' x = key_at s x" and same: "\<And>x. x \<in> set (concat chs) \<Longrightarrow> entry_at s' x = entry_at s x"
  shows "dict_map s' chs = dict_map s chs"
proof
  fix k
  show "dict_map s' chs k = dict_map s chs k"
  proof (cases "k \<in> key_at s ` set (concat chs)")
    case True
    then obtain e where e: "e \<in> set (concat chs)" "k = key_at s e" by blast
    then show ?thesis using dict_map_at [OF inv' e(1)] dict_map_at [OF inv e(1)] kx [OF e(1)] same [OF e(1)] by (simp del: set_concat)
  next
    case False
    then have "k \<notin> key_at s' ` set (concat chs)" using kx by (auto simp del: set_concat)
    then show ?thesis using dict_map_none [OF False] dict_map_none [of k s' chs] by simp
  qed
qed

lemma advance_other:
  assumes a: "advance d v s X s' X'" and inv: "dict_inv s names d2 chs pool" and ne: "d2 \<noteq> d" "set (concat chs @ pool) \<inter> X = {}"
  shows "dict_inv s' names d2 chs pool" "dict_map s' chs = dict_map s chs"
proof -
  have same: "entry_at s' x = entry_at s x" if "x \<in> set (concat chs @ pool)" for x
  proof -
    have "x \<notin> X" using ne(2) that by blast
    then show ?thesis using advanceD(4) [OF a, of x] dict_invD(13) [OF inv that] by auto
  qed
  have h: "dict_at s' d2 = dict_at s d2" using advanceD(3) [OF a] ne(1) by simp
  note keep = dict_inv_keep [OF inv advanceD(1) [OF a]]
  show inv': "dict_inv s' names d2 chs pool" by (rule keep(1)) (use h same in \<open>simp_all del: set_concat\<close>)
  have kx: "key_at s' x = key_at s x" if "x \<in> set (concat chs)" for x
    by (rule keep(2)) (use h same that in \<open>simp_all del: set_concat\<close>)
  show "dict_map s' chs = dict_map s chs" by (rule same_map [OF inv inv' kx]) (use same in \<open>simp_all del: set_concat\<close>)
qed

lemma ready_keep:
  assumes rdy: "ready s d es" and k: "keeps s s'" and h: "d_save_level (dict_at s' d) = d_save_level (dict_at s d) \<or> d_save_level (dict_at s' d) = m_curr_save_level s"
    and e: "\<And>e. m_curr_save_level s = 0 \<Longrightarrow> e \<in> es' \<Longrightarrow> m_object_save_level (e_key (entry_at s' e)) = 0 \<and> m_object_save_level (e_value (entry_at s' e)) = 0"
  shows "ready s' d es'"
  using readyD [OF rdy] keepsD [OF k] h e unfolding ready_def by auto

text \<open>A dictionary in order.\<close>

definition sound :: "dict_machine \<Rightarrow> nat set \<Rightarrow> nat \<Rightarrow> nat list list \<Rightarrow> nat list \<Rightarrow> bool" where
  "sound s names d chs pool \<longleftrightarrow> dict_inv s names d chs pool \<and> ready s d (set (concat chs @ pool))"

text \<open>The entries of the other keys are where they were.\<close>

definition undisturbed :: "dict_machine \<Rightarrow> nat list list \<Rightarrow> key \<Rightarrow> dict_machine \<Rightarrow> nat list list \<Rightarrow> bool" where
  "undisturbed s chs K s' chs' \<longleftrightarrow>
     (\<forall>x\<in>set (concat chs). key_at s x \<noteq> K \<longrightarrow>
        x \<in> set (concat chs') \<and> e_key (entry_at s' x) = e_key (entry_at s x) \<and> e_value (entry_at s' x) = e_value (entry_at s x))"

lemma undisturbed_same: "(\<And>x. x \<in> set (concat chs) \<Longrightarrow> entry_at s' x = entry_at s x) \<Longrightarrow> undisturbed s chs K s' chs"
  by (simp add: undisturbed_def del: set_concat)

lemma undisturbed_trans:
  assumes "undisturbed s chs K s1 chs1" "undisturbed s1 chs1 K s2 chs2" and inv: "dict_inv s names d chs pool" and k: "keeps s s1"
  shows "undisturbed s chs K s2 chs2"
  unfolding undisturbed_def
proof (intro ballI impI)
  fix x assume x: "x \<in> set (concat chs)" "key_at s x \<noteq> K"
  have a: "x \<in> set (concat chs1)" "e_key (entry_at s1 x) = e_key (entry_at s x)" "e_value (entry_at s1 x) = e_value (entry_at s x)"
    using assms(1) x unfolding undisturbed_def by blast+
  then have "key_at s1 x \<noteq> K" using keeps_key(2) [OF k dict_inv_entry [OF inv x(1)]] x(2) by simp
  then show "x \<in> set (concat chs2) \<and> e_key (entry_at s2 x) = e_key (entry_at s x) \<and> e_value (entry_at s2 x) = e_value (entry_at s x)"
    using assms(2) a unfolding undisturbed_def by (metis (no_types))
qed

text \<open>The entry of the key afterwards: one that was there, with its key, or a new one.\<close>

definition placed :: "dict_machine \<Rightarrow> nat list list \<Rightarrow> object \<Rightarrow> dict_machine \<Rightarrow> nat list list \<Rightarrow> nat \<Rightarrow> bool" where
  "placed s chs k s' chs' e \<longleftrightarrow>
     e \<in> set (concat chs') \<and> set (concat chs') \<subseteq> insert e (set (concat chs)) \<and> key_at s' e = key_of s k \<and>
     (if e \<in> set (concat chs) then e_key (entry_at s' e) = e_key (entry_at s e)
      else o_type (e_key (entry_at s' e)) = o_type k \<and> (\<forall>x\<in>set (concat chs). key_at s x \<noteq> key_of s k))"

lemma placed_pre:
  assumes p: "placed s1 chs k s' chs' e" and k: "key_of s1 k = key_of s k" "keeps s s1" and snd: "sound s names d chs pool"
    and same: "\<And>x. x \<in> set (concat chs) \<Longrightarrow> e_key (entry_at s1 x) = e_key (entry_at s x)"
  shows "placed s chs k s' chs' e"
proof -
  have "key_at s1 x = key_at s x" if "x \<in> set (concat chs)" for x
    using keeps_key(2) [OF k(2) dict_inv_entry] snd same [OF that] that unfolding sound_def by metis
  then show ?thesis using p same k(1) unfolding placed_def by (simp del: set_concat split: if_splits)
qed

section \<open>The stages of an insertion\<close>

lemma advance_entries_same:
  assumes k: "keeps s s'" and c': "dict_at s' = (dict_at s)(d := h)" "entry_at s' = entry_at s"
    and j: "m_journal s' = (if d_save_level (dict_at s d) = m_curr_save_level s then m_journal s else journalled (UHeader d (dict_at s d)) s)"
  shows "advance d v s X s' X"
proof -
  have g: "grown (UHeader d (dict_at s d)) s s'" using j by (auto simp: grown_def present_intros)
  have "no_cells s'" if "no_cells s" using no_cells_step [OF that g keepsD(5) [OF k]] no_cells_entries [OF that] c'(2) by simp
  then show ?thesis unfolding advance_def using k c' undoable_save [OF _ k _ c' j] by (auto simp: Un_absorb2)
qed

lemma sound_keep:
  assumes snd: "sound s names d chs pool" and k: "keeps s s'"
    and c': "dict_at s' = (dict_at s)(d := (dict_at s d)\<lparr>d_save_level := l\<rparr>)" "entry_at s' = entry_at s"
    and l: "l = d_save_level (dict_at s d) \<or> l = m_curr_save_level s"
  shows "sound s' names d chs pool" "dict_map s' chs = dict_map s chs"
proof -
  have inv: "dict_inv s names d chs pool" and rdy: "ready s d (set (concat chs @ pool))" using snd by (simp_all add: sound_def)
  note keep = dict_inv_keep [OF inv k]
  have inv': "dict_inv s' names d chs pool" by (rule keep(1)) (use c' in \<open>simp_all del: set_concat\<close>)
  moreover have "ready s' d (set (concat chs @ pool))"
    by (rule ready_keep [OF rdy k]) (use c' l readyD(10) [OF rdy] in \<open>auto simp del: set_concat\<close>)
  ultimately show "sound s' names d chs pool" by (simp add: sound_def)
  show "dict_map s' chs = dict_map s chs"
    by (rule same_map [OF inv inv']) (rule keep(2), use c' in \<open>simp_all del: set_concat\<close>)
qed

lemma note_global_ok: "\<exists>b. note_global_into_local svc g ob s = (Value (), s\<lparr>m_localdict_maybe_global := b\<rparr>)"
proof -
  have "s = s\<lparr>m_localdict_maybe_global := m_localdict_maybe_global s\<rparr>" by simp
  then show ?thesis unfolding note_global_into_local_def by metis
qed

lemma note_stage:
  assumes snd: "sound s names d chs pool"
  shows "\<exists>s'. (if barrier_relevant_for_localdict s d
       then seq (note_global_into_local svc False k) (\<lambda>_. note_global_into_local svc False v) s else (Value (), s)) = (Value (), s') \<and>
     sound s' names d chs pool \<and> dict_map s' chs = dict_map s chs \<and> advance d v s X s' X \<and> dict_at s' = dict_at s \<and> entry_at s' = entry_at s \<and>
     m_vm_ptr s' = m_vm_ptr s \<and> m_ext s' = m_ext s \<and> m_wide s' = m_wide s"
proof -
  obtain b where b: "(if barrier_relevant_for_localdict s d
       then seq (note_global_into_local svc False k) (\<lambda>_. note_global_into_local svc False v) s else (Value (), s)) = (Value (), s\<lparr>m_localdict_maybe_global := b\<rparr>)"
  proof (cases "barrier_relevant_for_localdict s d")
    case True
    obtain b1 where b1: "note_global_into_local svc False k s = (Value (), s\<lparr>m_localdict_maybe_global := b1\<rparr>)" using note_global_ok by blast
    obtain b2 where b2: "note_global_into_local svc False v (s\<lparr>m_localdict_maybe_global := b1\<rparr>) = (Value (), s\<lparr>m_localdict_maybe_global := b1, m_localdict_maybe_global := b2\<rparr>)"
      using note_global_ok by blast
    show ?thesis using True b1 b2 that [of b2] by simp
  next
    case False
    then show ?thesis using that [of "m_localdict_maybe_global s"] by simp
  qed
  let ?s = "s\<lparr>m_localdict_maybe_global := b\<rparr>"
  have k: "keeps s ?s" by (simp add: keeps_def)
  have same: "dict_at ?s = (dict_at s)(d := (dict_at s d)\<lparr>d_save_level := d_save_level (dict_at s d)\<rparr>)" "entry_at ?s = entry_at s" by simp_all
  have "advance d v s X ?s X" unfolding advance_def using k by (simp add: undoable_def no_cells_def Un_absorb2)
  then show ?thesis using b sound_keep [OF snd k same] by (intro exI [of _ ?s]) simp
qed

lemma save_stage:
  assumes snd: "sound s names d chs pool" and room: "room s (dict_size (length (d_buckets (dict_at s d))) + 16)"
  shows "\<exists>s'. dict_save d s = (Value (), s') \<and> sound s' names d chs pool \<and> dict_map s' chs = dict_map s chs \<and> advance d v s X s' X \<and>
    dict_at s' d = (dict_at s d)\<lparr>d_save_level := m_curr_save_level s\<rparr> \<and> entry_at s' = entry_at s \<and>
    m_vm_ptr s' \<le> m_vm_ptr s + dict_size (length (d_buckets (dict_at s d))) + 15 \<and> m_ext s' = m_ext s \<and> m_wide s' = m_wide s \<and>
    name_at s' = name_at s"
proof -
  have "ready s d (set (concat chs @ pool))" using snd by (simp add: sound_def)
  from dict_save_ok [OF this room] obtain s' where s': "dict_save d s = (Value (), s')" "keeps s s'" "entry_at s' = entry_at s"
      "dict_at s' = (dict_at s)(d := (dict_at s d)\<lparr>d_save_level := m_curr_save_level s\<rparr>)"
      "m_journal s' = (if d_save_level (dict_at s d) = m_curr_save_level s then m_journal s else journalled (UHeader d (dict_at s d)) s)"
      "m_vm_ptr s' \<le> m_vm_ptr s + dict_size (length (d_buckets (dict_at s d))) + 15" "m_ext s' = m_ext s" "m_wide s' = m_wide s" "name_at s' = name_at s" by blast
  show ?thesis using s' sound_keep [OF snd s'(2,4,3)] advance_entries_same [OF s'(2,4,3,5), of v X] by (intro exI [of _ s']) simp
qed

lemma plain_key_level: "plain_key s names (ob\<lparr>m_object_save_level := l\<rparr>) = plain_key s names ob" "key_of s (ob\<lparr>m_object_save_level := l\<rparr>) = key_of s ob"
  by (auto simp: plain_key_def key_ok_def key_of_def uses_cell_types string_base_def is_eqstring_ref_def cell_number_def heap_cell_valid_def uses_widevalue_def cong: otype.case_cong)

lemma expand_stage:
  assumes snd: "sound s names d chs []" and lvl: "d_save_level (dict_at s d) = m_curr_save_level s"
    and mx: "d_maxlength (dict_at s d) \<noteq> 0" "d_maxlength (dict_at s d) \<noteq> max_length" and room: "room s (20 * d_maxlength (dict_at s d) + 4)"
  shows "\<exists>s' pool. expand_dict svc d s = (Value (), s') \<and> sound s' names d chs pool \<and> pool \<noteq> [] \<and> dict_map s' chs = dict_map s chs \<and>
    advance d v s (set (concat chs)) s' (set (concat chs @ pool)) \<and> d_save_level (dict_at s' d) = m_curr_save_level s \<and>
    d_buckets (dict_at s' d) = d_buckets (dict_at s d) \<and> m_vm_ptr s' \<le> m_vm_ptr s + 20 * d_maxlength (dict_at s d) + 3 \<and> undisturbed s chs K s' chs \<and>
    (\<forall>x\<in>set (concat chs). entry_at s' x = entry_at s x)"
proof -
  have inv: "dict_inv s names d chs []" and rdy: "ready s d (set (concat chs))" using snd by (simp_all add: sound_def)
  obtain s' base n where x: "expand_dict svc d s = (Value (), s')" "keeps s s'" "m_journal s' = m_journal s" "0 < n" "m_vm_ptr s \<le> base" "base + 20 * n \<le> m_vm_ptr s'"
      "m_vm_ptr s' \<le> m_vm_ptr s + 20 * d_maxlength (dict_at s d) + 3"
      "dict_at s' = (dict_at s)(d := (dict_at s d)\<lparr>d_pool := base, d_maxlength := d_maxlength (dict_at s d) + n\<rparr>)"
      "\<forall>x. (\<forall>i<n. x \<noteq> base + 20 * i) \<longrightarrow> entry_at s' x = entry_at s x"
      "\<forall>i<n. entry_at s' (base + 20 * i) = pool_entry (m_curr_save_level s) base n i"
      "dict_inv s' names d chs (map (\<lambda>i. base + 20 * i) [0..<n])" "dict_map s' chs = dict_map s chs"
    using expand_ok [OF inv rdy mx room, of svc] by blast
  let ?pool = "map (\<lambda>i. base + 20 * i) [0..<n]"
  have new: "\<exists>i<n. x = base + 20 * i" if "x \<in> set ?pool" for x using that by auto
  have top: "m_vm_ptr s' < m_vm_temp_ptr s" using x(7) room by (simp add: room_def)
  have range: "m_vm_ptr s \<le> x \<and> x < m_vm_temp_ptr s" if "x \<in> set ?pool" for x using new [OF that] x(5,6) top by auto
  have low: "entry_at s' x = entry_at s x" if "x < m_vm_ptr s \<or> m_vm_temp_ptr s \<le> x" for x
  proof -
    have "x \<noteq> base + 20 * i" if "i < n" for i using that x(5,6) top \<open>x < m_vm_ptr s \<or> m_vm_temp_ptr s \<le> x\<close> by auto
    then show ?thesis using x(9) by blast
  qed
  have old: "entry_at s' x = entry_at s x" if "x \<in> set (concat chs)" for x using low [of x] dict_invD(13) [OF inv, of x] that by auto
  have lv: "m_object_save_level (null_at l) = l" for l by (simp add: null_at_def)
  have "ready s' d (set (concat chs @ ?pool))"
  proof (rule ready_keep [OF rdy x(2)])
    show "m_object_save_level (e_key (entry_at s' e)) = 0 \<and> m_object_save_level (e_value (entry_at s' e)) = 0"
      if l: "m_curr_save_level s = 0" and e: "e \<in> set (concat chs @ ?pool)" for e
    proof (cases "e \<in> set ?pool")
      case True
      then show ?thesis using new [OF True] x(10) l lv by (auto simp: pool_entry_def)
    next
      case False
      then have "e \<in> set (concat chs)" using e by (auto simp del: set_concat)
      then show ?thesis using old readyD(10) [OF rdy l] by simp
    qed
  qed (use x(8) in simp)
  then have "sound s' names d chs ?pool" using x(11) by (simp add: sound_def)
  moreover have "advance d v s (set (concat chs)) s' (set (concat chs @ ?pool))"
    unfolding advance_def
  proof (intro conjI allI impI)
    show "set (concat chs @ ?pool) \<subseteq> set (concat chs) \<union> {x. m_vm_ptr s \<le> x \<and> x < m_vm_temp_ptr s}" using range by (auto simp del: set_concat)
    show "undoable c s' D (E \<union> set (concat chs @ ?pool))" if u: "undoable c s D E \<and> d \<in> D \<and> set (concat chs) \<subseteq> E" for c D E
      by (rule undoable_expand [of c s D E, OF _ x(2) _ lvl x(8) low x(3)]) (use u range in \<open>auto simp del: set_concat\<close>)
    show "no_cells s'" if u: "\<not> uses_heap_cell v \<and> no_cells s"
    proof (rule no_cells_same [OF _ x(3) keepsD(5) [OF x(2)]])
      show "no_cells s" using u by simp
      show "plain_entry (entry_at s' y)" for y
      proof (cases "\<exists>i<n. y = base + 20 * i")
        case True
        then show ?thesis using x(10) by (auto simp: pool_entry_def plain_entry_def null_at_def make_null_def make_object_def uses_cell_types)
      next
        case False
        then show ?thesis using x(9) no_cells_entries [of s y] u by auto
      qed
    qed
  qed (use x(2,8) low in auto)
  moreover have "undisturbed s chs K s' chs" using old by (rule undisturbed_same)
  ultimately show ?thesis using x lvl old by (intro exI [of _ s'] exI [of _ ?pool]) simp
qed

lemma existing_stage:
  assumes snd: "sound s names d chs pool" and lvl: "d_save_level (dict_at s d) = m_curr_save_level s" and e: "e \<in> set (concat chs)"
    and room: "room s 36" and old: "releasable s (e_value (entry_at s e))" and key: "\<not> uses_heap_cell k" and ke: "key_at s e = key_of s k"
  shows "\<exists>s'. put_existing svc d False k v e s = (Value (), s') \<and> sound s' names d chs pool \<and>
    dict_map s' chs = (dict_map s chs)(key_at s e \<mapsto> v\<lparr>m_object_save_level := m_curr_save_level s\<rparr>) \<and>
    advance d v s (set (concat chs @ pool)) s' (set (concat chs @ pool)) \<and> undisturbed s chs (key_at s e) s' chs \<and> placed s chs k s' chs e"
proof -
  have inv: "dict_inv s names d chs pool" and rdy: "ready s d (set (concat chs @ pool))" using snd by (simp_all add: sound_def)
  have es: "e \<in> set (concat chs @ pool)" using e by simp
  let ?v = "v\<lparr>m_object_save_level := m_curr_save_level s\<rparr>"
  obtain s' where x: "put_existing svc d False k v e s = (Value (), s')" "keeps s s'" "dict_at s' = dict_at s"
      "entry_at s' = (entry_at s)(e := (entry_at s e)\<lparr>e_value := ?v\<rparr>)"
      "m_journal s' = (if m_object_save_level (e_value (entry_at s e)) = m_curr_save_level s then m_journal s else journalled (UEntry e (entry_at s e)) s)"
    using put_existing_ok [OF rdy es room old key, of svc v] by blast
  have h: "dict_at s' = (dict_at s)(d := dict_at s d)" using x(3) by simp
  have "ready s' d (set (concat chs @ pool))"
    by (rule ready_keep [OF rdy x(2)]) (use x(3,4) readyD(10) [OF rdy] in \<open>auto simp del: set_concat\<close>)
  then have "sound s' names d chs pool" using dict_overwrite(1) [OF inv x(2) _ _ _ _ e x(4)] x(3) by (simp add: sound_def)
  moreover have "dict_map s' chs = (dict_map s chs)(key_at s e \<mapsto> ?v)" using dict_overwrite(2) [OF inv x(2) _ _ _ _ e x(4)] x(3) by simp
  moreover have "advance d v s (set (concat chs @ pool)) s' (set (concat chs @ pool))"
    unfolding advance_def
  proof (intro conjI allI impI)
    show "undoable c s' D (E \<union> set (concat chs @ pool))" if u: "undoable c s D E \<and> d \<in> D \<and> set (concat chs @ pool) \<subseteq> E" for c D E
    proof -
      have "undoable c s' D E" by (rule undoable_entry [of c s D E, OF _ x(2) _ lvl _ h x(4,5)]) (use u es in auto)
      then show ?thesis using u by (simp add: Un_absorb2)
    qed
    show "no_cells s'" if u: "\<not> uses_heap_cell v \<and> no_cells s"
    proof (rule no_cells_step [OF _ _ keepsD(5) [OF x(2)]])
      show "grown (UEntry e (entry_at s e)) s s'" using x(5) by (auto simp: grown_def present_intros)
      show "plain_entry (entry_at s' y)" for y using no_cells_entries [of s y] u x(4) by (auto simp: plain_entry_def uses_cell_types)
    qed (use u in simp)
  qed (use x(2-4) es in \<open>auto simp del: set_concat\<close>)
  moreover have "undisturbed s chs (key_at s e) s' chs" using x(4) by (auto simp: undisturbed_def simp del: set_concat)
  moreover have "placed s chs k s' chs e" using e x(4) keeps_key(2) [OF x(2) dict_inv_entry [OF inv e]] ke by (auto simp: placed_def simp del: set_concat)
  ultimately show ?thesis using x by (intro exI [of _ s']) simp
qed

lemma new_stage:
  assumes snd: "sound s names d chs (e # pool)" and lvl: "d_save_level (dict_at s d) = m_curr_save_level s"
    and k: "plain_key s names k" "dict_map s chs (key_of s k) = None" and i: "i = dict_home s d (key_of s k)" and room: "room s (m_length k + 40)"
  shows "\<exists>s'. put_new svc d False k v i s = (Value e, s') \<and> sound s' names d (chs[i := e # chs ! i]) pool \<and>
    dict_map s' (chs[i := e # chs ! i]) = (dict_map s chs)(key_of s k \<mapsto> v\<lparr>m_object_save_level := m_curr_save_level s\<rparr>) \<and>
    advance d v s (set (concat chs @ e # pool)) s' (set (concat (chs[i := e # chs ! i]) @ pool)) \<and> e \<in> set (concat (chs[i := e # chs ! i])) \<and>
    undisturbed s chs (key_of s k) s' (chs[i := e # chs ! i]) \<and> placed s chs k s' (chs[i := e # chs ! i]) e"
proof -
  have inv: "dict_inv s names d chs (e # pool)" and rdy: "ready s d (set (concat chs @ e # pool))" using snd by (simp_all add: sound_def)
  have e: "e = d_pool (dict_at s d)" "e \<in> set (concat chs @ e # pool)" "e \<noteq> nulloffset" "e < m_vm_limit s" using dict_invD(4) [OF inv] by auto
  let ?v = "v\<lparr>m_object_save_level := m_curr_save_level s\<rparr>" and ?chs = "chs[i := e # chs ! i]"
  let ?Q = "m_object_save_level (e_key (entry_at s e)) = m_curr_save_level s \<and> m_object_save_level (e_value (entry_at s e)) = m_curr_save_level s"
  obtain k1 s' where x: "put_new svc d False k v i s = (Value e, s')" "keeps s s'" "plain_key s' names k1" "key_of s' k1 = key_of s k"
      "dict_at s' = (dict_at s)(d := (dict_at s d)\<lparr>d_pool := e_next (entry_at s e), d_buckets := (d_buckets (dict_at s d))[i := e], d_length := d_length (dict_at s d) + 1\<rparr>)"
      "entry_at s' = (entry_at s)(e := \<lparr>e_next = d_buckets (dict_at s d) ! i, e_key = k1\<lparr>m_object_save_level := m_curr_save_level s\<rparr>, e_value = ?v\<rparr>)"
      "m_journal s' = (if ?Q then m_journal s else journalled (UEntry e (entry_at s e)) s)" "o_type k1 = o_type k"
    using put_new_ok [OF rdy e k(1) room, of svc v i] by blast
  let ?k = "k1\<lparr>m_object_save_level := m_curr_save_level s\<rparr>"
  have ko: "plain_key s' names ?k" "key_of s' ?k = key_of s k" using x(3,4) by (simp_all add: plain_key_level)
  have i': "i < length chs" using dict_home_less [OF inv] i by simp
  have set': "set (concat ?chs @ pool) = set (concat chs @ e # pool)" "e \<in> set (concat ?chs)"
    unfolding concat_update [OF i'] concat_split [OF i'] by (auto simp del: set_concat)
  note ins = dict_insert [OF inv x(2) _ _ _ _ x(6) ko(1), unfolded ko(2), OF _ _ _ _ i k(2)]
  have inv': "dict_inv s' names d ?chs pool" by (rule ins(1)) (use x(5) in simp_all)
  have map': "dict_map s' ?chs = (dict_map s chs)(key_of s k \<mapsto> ?v)" by (rule ins(2)) (use x(5) in simp_all)
  have "ready s' d (set (concat ?chs @ pool))"
    unfolding set' by (rule ready_keep [OF rdy x(2)]) (use x(5,6) readyD(10) [OF rdy] in \<open>auto simp del: set_concat\<close>)
  then have "sound s' names d ?chs pool" using inv' by (simp add: sound_def)
  moreover have "advance d v s (set (concat chs @ e # pool)) s' (set (concat ?chs @ pool))"
    unfolding advance_def set'
  proof (intro conjI allI impI)
    show "undoable c s' D (E \<union> set (concat chs @ e # pool))" if u: "undoable c s D E \<and> d \<in> D \<and> set (concat chs @ e # pool) \<subseteq> E" for c D E
    proof -
      have "undoable c s' D E" by (rule undoable_entry [of c s D E, OF _ x(2) _ lvl _ x(5-7)]) (use u in auto)
      then show ?thesis using u by (simp add: Un_absorb2 insert_absorb)
    qed
    show "no_cells s'" if u: "\<not> uses_heap_cell v \<and> no_cells s"
    proof (rule no_cells_step [OF _ _ keepsD(5) [OF x(2)]])
      show "grown (UEntry e (entry_at s e)) s s'" using x(7) by (auto simp: grown_def present_intros)
      have "\<not> uses_heap_cell ?k" using ko(1) by (simp add: plain_key_def)
      then show "plain_entry (entry_at s' y)" for y using no_cells_entries [of s y] u x(6) by (auto simp: plain_entry_def uses_cell_types)
    qed (use u in simp)
  qed (use x(2,5,6) in \<open>auto simp del: set_concat\<close>)
  moreover have "undisturbed s chs (key_of s k) s' ?chs"
  proof -
    have "e \<notin> set (concat chs)" using dict_invD(5) [OF inv] by simp
    moreover have "set (concat chs) \<subseteq> set (concat ?chs)" unfolding concat_update [OF i'] concat_split [OF i'] by (auto simp del: set_concat)
    ultimately show ?thesis using x(6) by (auto simp: undisturbed_def simp del: set_concat)
  qed
  moreover have "placed s chs k s' ?chs e"
  proof -
    have "set (concat ?chs) \<subseteq> insert e (set (concat chs))" unfolding concat_update [OF i'] concat_split [OF i'] by (auto simp del: set_concat)
    moreover have "e \<notin> set (concat chs)" using dict_invD(5) [OF inv] by simp
    moreover have "\<forall>x\<in>set (concat chs). key_at s x \<noteq> key_of s k" using k(2) by (auto simp: dict_map_def find_None_iff simp del: set_concat)
    ultimately show ?thesis using set'(2) x(6,8) ko(2) by (simp add: placed_def del: set_concat)
  qed
  ultimately show ?thesis using x(1) map' set'(2) by (intro exI [of _ s']) simp
qed

lemma finish_stage:
  assumes snd: "sound s names d chs pool" and e: "e \<in> set (concat chs)"
  shows "\<exists>s'. finish_put mode e s = (Value e, s') \<and> sound s' names d chs pool \<and> dict_map s' chs = dict_map s chs \<and> advance d v s X s' X \<and>
    entry_at s' = entry_at s"
proof -
  have inv: "dict_inv s names d chs pool" using snd by (simp add: sound_def)
  obtain s' where x: "finish_put mode e s = (Value e, s')" "keeps s s'" "dict_at s' = dict_at s" "entry_at s' = entry_at s" "m_journal s' = m_journal s" "m_vm_ptr s' = m_vm_ptr s"
    using finish_put_ok [OF dict_inv_entry [OF inv e]] by blast
  have same: "dict_at s' = (dict_at s)(d := (dict_at s d)\<lparr>d_save_level := d_save_level (dict_at s d)\<rparr>)" using x(3) by simp
  have "advance d v s X s' X" unfolding advance_def using x keepsD(3,5,6) [OF x(2)] by (simp add: undoable_def no_cells_def Un_absorb2)
  then show ?thesis using x(1,4) sound_keep [OF snd x(2) same x(4)] by (intro exI [of _ s']) simp
qed

lemma placed_keep:
  assumes "placed s0 chs0 k s chs e" "sound s names d chs pool" "keeps s s'" "entry_at s' = entry_at s"
  shows "placed s0 chs0 k s' chs e"
  using assms keeps_key(2) [OF assms(3) dict_inv_entry] unfolding placed_def sound_def by metis

section \<open>Insertion\<close>

definition growable :: "dict \<Rightarrow> bool" where
  "growable h \<longleftrightarrow> is_dynamic h \<and> d_maxlength h \<noteq> 0 \<and> d_maxlength h \<noteq> max_length"

lemma save_again: "d_save_level (dict_at s d) = m_curr_save_level s \<Longrightarrow> dict_save d s = (Value (), s)"
  by (simp add: dict_save_def)

text \<open>From the point where the dictionary has room.\<close>

abbreviation put_tail :: "dict_services \<Rightarrow> nat \<Rightarrow> object \<Rightarrow> object \<Rightarrow> binding_mode \<Rightarrow> nat \<Rightarrow> nat \<Rightarrow> (dict_machine, nat) action" where
  "put_tail svc d k v mode i e \<equiv>
     seq (dict_save d) (\<lambda>_.
     seq (if e \<noteq> nulloffset then seq (put_existing svc d False k v e) (\<lambda>_. ret e) else put_new svc d False k v i) (finish_put mode))"

lemma tail_existing:
  assumes snd: "sound s names d chs pool" and e: "e \<in> set (concat chs)" and key: "plain_key s names k" "key_at s e = key_of s k"
    and room: "room s (dict_size (length (d_buckets (dict_at s d))) + 52)" and old: "releasable s (e_value (entry_at s e))"
  shows "\<exists>s'. put_tail svc d k v mode i e s = (Value e, s') \<and> sound s' names d chs pool \<and>
    dict_map s' chs = (dict_map s chs)(key_at s e \<mapsto> v\<lparr>m_object_save_level := m_curr_save_level s\<rparr>) \<and>
    advance d v s (set (concat chs @ pool)) s' (set (concat chs @ pool)) \<and> undisturbed s chs (key_at s e) s' chs \<and> placed s chs k s' chs e"
proof -
  let ?X = "set (concat chs @ pool)"
  have "room s (dict_size (length (d_buckets (dict_at s d))) + 16)" using room by (simp add: room_def)
  from save_stage [OF snd this, of v ?X] obtain s1 where s1: "dict_save d s = (Value (), s1)" "sound s1 names d chs pool" "dict_map s1 chs = dict_map s chs"
      "advance d v s ?X s1 ?X" "dict_at s1 d = (dict_at s d)\<lparr>d_save_level := m_curr_save_level s\<rparr>" "entry_at s1 = entry_at s"
      "m_vm_ptr s1 \<le> m_vm_ptr s + dict_size (length (d_buckets (dict_at s d))) + 15" "m_ext s1 = m_ext s" "m_wide s1 = m_wide s" by blast
  note k1 = advanceD(1) [OF s1(4)]
  have inv: "dict_inv s names d chs pool" using snd by (simp add: sound_def)
  have lvl: "d_save_level (dict_at s1 d) = m_curr_save_level s1" using s1(5) keepsD(5) [OF k1] by simp
  have r: "room s1 36" using room s1(7) keepsD(2) [OF k1] by (simp add: room_def)
  have old1: "releasable s1 (e_value (entry_at s1 e))" using old releasable_cong [OF k1 s1(8,9)] s1(6) by simp
  note key1 = keeps_key [OF k1 key(1)]
  have kx: "key_at s1 e = key_at s e" using keeps_key(2) [OF k1 dict_inv_entry [OF inv e]] s1(6) by simp
  have "\<not> uses_heap_cell k" "key_at s1 e = key_of s1 k" using key kx key1(2) by (simp_all add: plain_key_def)
  from existing_stage [OF s1(2) lvl e r old1 this, of svc v] obtain s2 where s2: "put_existing svc d False k v e s1 = (Value (), s2)" "sound s2 names d chs pool"
      "dict_map s2 chs = (dict_map s1 chs)(key_at s1 e \<mapsto> v\<lparr>m_object_save_level := m_curr_save_level s1\<rparr>)" "advance d v s1 ?X s2 ?X"
      "undisturbed s1 chs (key_at s1 e) s2 chs" "placed s1 chs k s2 chs e" by blast
  from finish_stage [OF s2(2) e, of mode v ?X] obtain s3 where s3: "finish_put mode e s2 = (Value e, s3)" "sound s3 names d chs pool"
      "dict_map s3 chs = dict_map s2 chs" "advance d v s2 ?X s3 ?X" "entry_at s3 = entry_at s2" by blast
  have nz: "e \<noteq> nulloffset"
  proof -
    obtain j where "j < length chs" "e \<in> set (chs ! j)" using e unfolding in_concat_nth by blast
    then show ?thesis using entry_chain_nz [OF dict_invD(3) [OF inv]] by blast
  qed
  have "put_tail svc d k v mode i e s = (Value e, s3)" using nz by (simp add: s1(1) s2(1) s3(1))
  moreover have "undisturbed s chs (key_at s e) s3 chs"
  proof -
    have "undisturbed s chs (key_at s e) s1 chs" "undisturbed s2 chs (key_at s e) s3 chs" by (rule undisturbed_same; simp add: s1(6) s3(5))+
    moreover have "dict_inv s1 names d chs pool" using s1(2) by (simp add: sound_def)
    ultimately show ?thesis using s2(5) unfolding kx by (metis undisturbed_trans inv k1 advanceD(1) [OF s2(4)])
  qed
  moreover have "placed s chs k s3 chs e"
    by (rule placed_pre [OF placed_keep [OF s2(6,2) advanceD(1) [OF s3(4)] s3(5)] key1(2) k1 snd]) (simp add: s1(6))
  ultimately show ?thesis using s3(2,3) s2(3) s1(3) kx keepsD(5) [OF k1] advance_trans [OF s1(4) advance_trans [OF s2(4) s3(4)]]
    by (intro exI [of _ s3]) simp
qed

lemma tail_new:
  assumes snd: "sound s names d chs (e # pool)" and k: "plain_key s names k" "dict_map s chs (key_of s k) = None" and i: "i = dict_home s d (key_of s k)"
    and room: "room s (if d_save_level (dict_at s d) = m_curr_save_level s then m_length k + 40 else dict_size (length (d_buckets (dict_at s d))) + m_length k + 56)"
  shows "\<exists>s'. put_tail svc d k v mode i nulloffset s = (Value e, s') \<and> sound s' names d (chs[i := e # chs ! i]) pool \<and>
    dict_map s' (chs[i := e # chs ! i]) = (dict_map s chs)(key_of s k \<mapsto> v\<lparr>m_object_save_level := m_curr_save_level s\<rparr>) \<and>
    advance d v s (set (concat chs @ e # pool)) s' (set (concat (chs[i := e # chs ! i]) @ pool)) \<and>
    undisturbed s chs (key_of s k) s' (chs[i := e # chs ! i]) \<and> placed s chs k s' (chs[i := e # chs ! i]) e"
proof -
  let ?X = "set (concat chs @ e # pool)" and ?chs = "chs[i := e # chs ! i]"
  obtain s1 where s1: "dict_save d s = (Value (), s1)" "sound s1 names d chs (e # pool)" "dict_map s1 chs = dict_map s chs"
      "advance d v s ?X s1 ?X" "d_save_level (dict_at s1 d) = m_curr_save_level s" "d_buckets (dict_at s1 d) = d_buckets (dict_at s d)" "room s1 (m_length k + 40)"
      "entry_at s1 = entry_at s"
  proof (cases "d_save_level (dict_at s d) = m_curr_save_level s")
    case True
    have "advance d v s ?X s ?X" by (auto simp: advance_def Un_absorb2 insert_absorb)
    then show ?thesis using that [of s] True snd room save_again by simp
  next
    case False
    then have "room s (dict_size (length (d_buckets (dict_at s d))) + 16)" using room by (simp add: room_def)
    from save_stage [OF snd this, of v ?X] obtain s1 where s1: "dict_save d s = (Value (), s1)" "sound s1 names d chs (e # pool)" "dict_map s1 chs = dict_map s chs"
      "advance d v s ?X s1 ?X" "dict_at s1 d = (dict_at s d)\<lparr>d_save_level := m_curr_save_level s\<rparr>"
      "m_vm_ptr s1 \<le> m_vm_ptr s + dict_size (length (d_buckets (dict_at s d))) + 15" "entry_at s1 = entry_at s" by blast
    have "room s1 (m_length k + 40)" using room False s1(6) keepsD(2) [OF advanceD(1) [OF s1(4)]] by (simp add: room_def)
    then show ?thesis using that [of s1] s1 by simp
  qed
  note k1 = advanceD(1) [OF s1(4)]
  note key = keeps_key [OF k1 k(1)]
  have lvl: "d_save_level (dict_at s1 d) = m_curr_save_level s1" using s1(5) keepsD(5) [OF k1] by simp
  have i1: "i = dict_home s1 d (key_of s1 k)" using i s1(6) key(2) by (simp add: dict_home_def)
  have none: "dict_map s1 chs (key_of s1 k) = None" using k(2) s1(3) key(2) by simp
  from new_stage [OF s1(2) lvl key(1) none i1 s1(7), of svc v] obtain s2 where s2: "put_new svc d False k v i s1 = (Value e, s2)" "sound s2 names d ?chs pool"
      "dict_map s2 ?chs = (dict_map s1 chs)(key_of s1 k \<mapsto> v\<lparr>m_object_save_level := m_curr_save_level s1\<rparr>)"
      "advance d v s1 ?X s2 (set (concat ?chs @ pool))" "e \<in> set (concat ?chs)" "undisturbed s1 chs (key_of s1 k) s2 ?chs" "placed s1 chs k s2 ?chs e" by blast
  from finish_stage [OF s2(2,5), of mode v "set (concat ?chs @ pool)"] obtain s3 where s3: "finish_put mode e s2 = (Value e, s3)" "sound s3 names d ?chs pool"
      "dict_map s3 ?chs = dict_map s2 ?chs" "advance d v s2 (set (concat ?chs @ pool)) s3 (set (concat ?chs @ pool))" "entry_at s3 = entry_at s2" by blast
  have "put_tail svc d k v mode i nulloffset s = (Value e, s3)" by (simp add: s1(1) s2(1) s3(1))
  moreover have "undisturbed s chs (key_of s k) s3 ?chs"
  proof -
    have "undisturbed s chs (key_of s k) s1 chs" "undisturbed s2 ?chs (key_of s k) s3 ?chs" by (rule undisturbed_same; simp add: s1(8) s3(5))+
    moreover have "dict_inv s names d chs (e # pool)" "dict_inv s1 names d chs (e # pool)" using snd s1(2) by (simp_all add: sound_def)
    ultimately show ?thesis using s2(6) unfolding key(2) by (metis undisturbed_trans k1 advanceD(1) [OF s2(4)])
  qed
  moreover have "placed s chs k s3 ?chs e"
    by (rule placed_pre [OF placed_keep [OF s2(7,2) advanceD(1) [OF s3(4)] s3(5)] key(2) k1 snd]) (simp add: s1(8))
  ultimately show ?thesis using s3(2,3) s2(3) s1(3) key(2) keepsD(5) [OF k1] advance_trans [OF s1(4) advance_trans [OF s2(4) s3(4)]]
    by (intro exI [of _ s3]) simp
qed

lemma find_key:
  assumes inv: "dict_inv s names d chs pool"
  shows "dict_map s chs k = None \<Longrightarrow> snd (chain_link (\<lambda>x. key_at s x = k) l (chs ! dict_home s d k)) = nulloffset"
    "dict_map s chs k \<noteq> None \<Longrightarrow> snd (chain_link (\<lambda>x. key_at s x = k) l (chs ! dict_home s d k)) \<in> {e \<in> set (concat chs). key_at s e = k \<and> e \<noteq> nulloffset}"
proof -
  let ?P = "\<lambda>x. key_at s x = k" and ?h = "dict_home s d k"
  have home: "find ?P (concat chs) = find ?P (chs ! ?h)" by (rule dict_find_home [OF inv])
  show "dict_map s chs k = None \<Longrightarrow> snd (chain_link ?P l (chs ! ?h)) = nulloffset" using home by (simp add: dict_map_def chain_link_snd)
  assume "dict_map s chs k \<noteq> None"
  then obtain e where e: "find ?P (concat chs) = Some e" by (auto simp: dict_map_def)
  then have "e \<in> set (concat chs)" "?P e" "e \<in> set (chs ! ?h)" using find_SomeD [OF e] find_SomeD [OF e [unfolded home]] by auto
  moreover from this(3) have "e \<noteq> nulloffset" using entry_chain_nz [OF dict_invD(3) [OF inv dict_home_less [OF inv]]] by blast
  ultimately show "snd (chain_link ?P l (chs ! ?h)) \<in> {e \<in> set (concat chs). key_at s e = k \<and> e \<noteq> nulloffset}"
    using e home by (simp add: chain_link_snd)
qed

text \<open>The insertion up to the search, and from there.\<close>

abbreviation put_rest :: "dict_services \<Rightarrow> nat \<Rightarrow> object \<Rightarrow> object \<Rightarrow> binding_mode \<Rightarrow> nat \<Rightarrow> nat \<Rightarrow> (dict_machine, nat) action" where
  "put_rest svc d k v mode i e \<equiv>
     seq (\<lambda>s. let h = dict_at s d
              in if e = nulloffset \<and> d_length h = d_maxlength h \<and> d_maxlength h \<noteq> 0 \<and> is_dynamic h
                 then seq (dict_save d) (\<lambda>_. expand_dict svc d) s else (Value (), s)) (\<lambda>_.
     seq (gets (\<lambda>s. e \<noteq> nulloffset \<or> d_length (dict_at s d) < d_maxlength (dict_at s d))) (\<lambda>room.
       if room then put_tail svc d k v mode i e else raise DictFull))"

lemma put_unfold:
  assumes snd: "sound s names d chs pool" and key: "plain_key s names k"
  shows "\<exists>s0 i e. put svc d k v mode s = put_rest svc d k v mode i e s0 \<and> i = dict_home s0 d (key_of s0 k) \<and>
    e = snd (chain_link (\<lambda>x. key_at s0 x = key_of s0 k) (Bucket i) (chs ! i)) \<and>
    sound s0 names d chs pool \<and> dict_map s0 chs = dict_map s chs \<and> advance d v s (set (concat chs @ pool)) s0 (set (concat chs @ pool)) \<and>
    dict_at s0 = dict_at s \<and> entry_at s0 = entry_at s \<and> m_vm_ptr s0 = m_vm_ptr s \<and> m_ext s0 = m_ext s \<and> m_wide s0 = m_wide s"
proof -
  let ?X = "set (concat chs @ pool)"
  obtain s0 where s0: "(if barrier_relevant_for_localdict s d
       then seq (note_global_into_local svc False k) (\<lambda>_. note_global_into_local svc False v) s else (Value (), s)) = (Value (), s0)"
     "sound s0 names d chs pool" "dict_map s0 chs = dict_map s chs" "advance d v s ?X s0 ?X" "dict_at s0 = dict_at s" "entry_at s0 = entry_at s"
     "m_vm_ptr s0 = m_vm_ptr s" "m_ext s0 = m_ext s" "m_wide s0 = m_wide s"
    using note_stage [OF snd, where svc = svc and k = k and v = v and X = ?X] by blast
  let ?i = "dict_home s0 d (key_of s0 k)"
  obtain l e where le: "chain_link (\<lambda>x. key_at s0 x = key_of s0 k) (Bucket ?i) (chs ! ?i) = (l, e)" by force
  have loc: "\<not> is_global s d" using snd readyD(4) by (auto simp: sound_def)
  have "find_entry d k s0 = (Value (?i, l, e), s0)"
    using find_entry_ok [of s0 names d chs pool k] s0(2) keeps_key(1) [OF advanceD(1) [OF s0(4)] key] le by (simp add: sound_def)
  then have "put svc d k v mode s = put_rest svc d k v mode ?i e s0"
    unfolding put_def using loc s0(1) by (simp add: reject_fragile_def cong: if_cong split del: if_split)
  then show ?thesis using s0(2-) le by (intro exI [of _ s0] exI [of _ ?i] exI [of _ e]) simp
qed

lemma rest_existing:
  assumes snd: "sound s names d chs pool" and key: "plain_key s names k" and e: "e \<in> set (concat chs)" "key_at s e = key_of s k" "e \<noteq> nulloffset"
    and room: "room s (put_need s d k)" and old: "releasable s (e_value (entry_at s e))"
  shows "\<exists>s'. put_rest svc d k v mode i e s = (Value e, s') \<and> sound s' names d chs pool \<and>
    dict_map s' chs = (dict_map s chs)(key_of s k \<mapsto> v\<lparr>m_object_save_level := m_curr_save_level s\<rparr>) \<and>
    advance d v s (set (concat chs @ pool)) s' (set (concat chs @ pool)) \<and> undisturbed s chs (key_of s k) s' chs \<and> placed s chs k s' chs e"
proof -
  have r: "room s (dict_size (length (d_buckets (dict_at s d))) + 52)" using room by (simp add: room_def put_need_def)
  show ?thesis using tail_existing [OF snd e(1) key e(2) r old, where svc = svc and v = v and mode = mode and i = i] e(2,3) by (simp add: Let_def)
qed

lemma rest_new:
  assumes snd: "sound s names d chs pool" and key: "plain_key s names k" "dict_map s chs (key_of s k) = None" and i: "i = dict_home s d (key_of s k)"
    and room: "room s (put_need s d k)"
  shows "\<exists>r s' chs' pool'. put_rest svc d k v mode i nulloffset s = (r, s') \<and> sound s' names d chs' pool' \<and>
    advance d v s (set (concat chs @ pool)) s' (set (concat chs' @ pool')) \<and>
    (if d_length (dict_at s d) = d_maxlength (dict_at s d) \<and> \<not> growable (dict_at s d)
     then r = Raise DictFull \<and> dict_map s' chs' = dict_map s chs \<and> (\<forall>K. undisturbed s chs K s' chs') \<and> chs' = chs
     else (\<exists>e. r = Value e \<and> placed s chs k s' chs' e) \<and> dict_map s' chs' = (dict_map s chs)(key_of s k \<mapsto> v\<lparr>m_object_save_level := m_curr_save_level s\<rparr>) \<and>
       undisturbed s chs (key_of s k) s' chs')"
proof -
  let ?h = "dict_at s d" and ?X = "set (concat chs @ pool)"
  let ?size = "dict_size (length (d_buckets (dict_at s d)))"
  have inv: "dict_inv s names d chs pool" using snd by (simp add: sound_def)
  have refl: "advance d v s ?X s ?X" by (auto simp: advance_def Un_absorb2)
  have r0: "room s (?size + 16)" using room by (simp add: room_def put_need_def)
  consider (full) "d_length ?h = d_maxlength ?h" "\<not> (d_maxlength ?h \<noteq> 0 \<and> is_dynamic ?h)"
    | (limit) "d_length ?h = d_maxlength ?h" "d_maxlength ?h \<noteq> 0" "is_dynamic ?h" "d_maxlength ?h = max_length"
    | (grow) "d_length ?h = d_maxlength ?h" "growable ?h" | (free) "d_length ?h \<noteq> d_maxlength ?h"
    unfolding growable_def by blast
  then show ?thesis
  proof cases
    case full
    then have "put_rest svc d k v mode i nulloffset s = (Raise DictFull, s)" by (subst seq_Value [of _ s "()" s]) (auto simp: Let_def seq_def raise_def gets_def)
    moreover have "\<forall>K. undisturbed s chs K s chs" by (intro allI undisturbed_same) simp
    ultimately show ?thesis using full snd refl by (auto simp: growable_def simp del: set_concat)
  next
    case limit
    obtain s1 where s1: "dict_save d s = (Value (), s1)" "sound s1 names d chs pool" "dict_map s1 chs = dict_map s chs" "advance d v s ?X s1 ?X"
        "dict_at s1 d = ?h\<lparr>d_save_level := m_curr_save_level s\<rparr>" "entry_at s1 = entry_at s"
      using save_stage [OF snd r0, of v ?X] by blast
    have "\<forall>K. undisturbed s chs K s1 chs" by (intro allI undisturbed_same) (simp add: s1(6))
    moreover have "expand_dict svc d s1 = (Raise DictFull, s1)" using s1(5) limit by (simp add: expand_dict_def Let_def)
    then have "put_rest svc d k v mode i nulloffset s = (Raise DictFull, s1)" using limit s1(1) by (simp add: Let_def)
    ultimately show ?thesis using limit s1(2-4) by (auto simp: growable_def simp del: set_concat)
  next
    case grow
    then have g: "d_maxlength ?h \<noteq> 0" "is_dynamic ?h" "d_maxlength ?h \<noteq> max_length" by (simp_all add: growable_def)
    have nil: "pool = []" using dict_invD(11) [OF inv] grow(1) by simp
    obtain s1 where s1: "dict_save d s = (Value (), s1)" "sound s1 names d chs pool" "dict_map s1 chs = dict_map s chs" "advance d v s ?X s1 ?X"
        "dict_at s1 d = ?h\<lparr>d_save_level := m_curr_save_level s\<rparr>" "m_vm_ptr s1 \<le> m_vm_ptr s + ?size + 15" "entry_at s1 = entry_at s"
      using save_stage [OF snd r0, of v ?X] by blast
    note k1 = advanceD(1) [OF s1(4)]
    have lvl: "d_save_level (dict_at s1 d) = m_curr_save_level s1" using s1(5) keepsD(5) [OF k1] by simp
    have r1: "room s1 (20 * d_maxlength (dict_at s1 d) + 4)" using room s1(5,6) keepsD(2) [OF k1] by (simp add: room_def put_need_def)
    obtain s2 pool2 where s2: "expand_dict svc d s1 = (Value (), s2)" "sound s2 names d chs pool2" "pool2 \<noteq> []" "dict_map s2 chs = dict_map s1 chs"
        "advance d v s1 (set (concat chs)) s2 (set (concat chs @ pool2))" "d_save_level (dict_at s2 d) = m_curr_save_level s1"
        "d_buckets (dict_at s2 d) = d_buckets (dict_at s1 d)" "m_vm_ptr s2 \<le> m_vm_ptr s1 + 20 * d_maxlength (dict_at s1 d) + 3"
        "undisturbed s1 chs (key_of s k) s2 chs" "\<forall>x\<in>set (concat chs). entry_at s2 x = entry_at s1 x"
      using expand_stage [OF s1(2) [unfolded nil] lvl _ _ r1, of svc v "key_of s k"] s1(5) g(1,3) by auto
    note k2 = keeps_trans [OF k1 advanceD(1) [OF s2(5)]]
    obtain e rest where er: "pool2 = e # rest" using s2(3) by (cases pool2) auto
    have inv2: "dict_inv s2 names d chs (e # rest)" using s2(2) er by (simp add: sound_def)
    have lt: "d_length (dict_at s2 d) < d_maxlength (dict_at s2 d)" using dict_invD(11) [OF inv2] by simp
    have r2: "room s2 (if d_save_level (dict_at s2 d) = m_curr_save_level s2 then m_length k + 40 else dict_size (length (d_buckets (dict_at s2 d))) + m_length k + 56)"
      using room s1(5,6) s2(6,8) keepsD(2,5) [OF k1] keepsD(2,5) [OF k2] by (simp add: room_def put_need_def)
    note key2 = keeps_key [OF k2 key(1)]
    have i2: "i = dict_home s2 d (key_of s2 k)" using i key2(2) s2(7) s1(5) by (simp add: dict_home_def)
    have none: "dict_map s2 chs (key_of s2 k) = None" using key(2) key2(2) s2(4) s1(3) by simp
    obtain s3 where s3: "put_tail svc d k v mode i nulloffset s2 = (Value e, s3)" "sound s3 names d (chs[i := e # chs ! i]) rest"
        "dict_map s3 (chs[i := e # chs ! i]) = (dict_map s2 chs)(key_of s2 k \<mapsto> v\<lparr>m_object_save_level := m_curr_save_level s2\<rparr>)"
        "advance d v s2 (set (concat chs @ e # rest)) s3 (set (concat (chs[i := e # chs ! i]) @ rest))" "undisturbed s2 chs (key_of s2 k) s3 (chs[i := e # chs ! i])"
        "placed s2 chs k s3 (chs[i := e # chs ! i]) e"
      using tail_new [OF s2(2) [unfolded er] key2(1) none i2 r2, of svc v mode] by blast
    have "put_rest svc d k v mode i nulloffset s = (Value e, s3)" using grow(1) g s1(1) s2(1) lt s3(1) by (simp add: Let_def)
    moreover have "advance d v s ?X s3 (set (concat (chs[i := e # chs ! i]) @ rest))"
      using advance_trans [OF s1(4) [unfolded nil append_Nil2] advance_trans [OF s2(5) [unfolded er] s3(4)]] nil by simp
    moreover have "undisturbed s chs (key_of s k) s3 (chs[i := e # chs ! i])"
    proof -
      have "undisturbed s chs (key_of s k) s1 chs" by (rule undisturbed_same) (simp add: s1(7))
      moreover have "dict_inv s1 names d chs pool" using s1(2) by (simp add: sound_def)
      ultimately show ?thesis using s2(9) s3(5) unfolding key2(2) by (metis undisturbed_trans inv inv2 k1 advanceD(1) [OF s2(5)])
    qed
    moreover have "placed s chs k s3 (chs[i := e # chs ! i]) e"
      by (rule placed_pre [OF s3(6) key2(2) k2 snd]) (use s2(10) s1(7) in \<open>simp del: set_concat\<close>)
    ultimately show ?thesis using grow s3(2,3) s2(4) s1(3) key2(2) keepsD(5) [OF k2]
      by (intro exI [of _ "Value e"] exI [of _ s3] exI [of _ "chs[i := e # chs ! i]"] exI [of _ rest]) simp
  next
    case free
    then have "pool \<noteq> []" using dict_invD(11) [OF inv] by auto
    then obtain e rest where er: "pool = e # rest" by (cases pool) auto
    have r1: "room s (if d_save_level ?h = m_curr_save_level s then m_length k + 40 else ?size + m_length k + 56)"
      using room by (simp add: room_def put_need_def)
    obtain s3 where s3: "put_tail svc d k v mode i nulloffset s = (Value e, s3)" "sound s3 names d (chs[i := e # chs ! i]) rest"
        "dict_map s3 (chs[i := e # chs ! i]) = (dict_map s chs)(key_of s k \<mapsto> v\<lparr>m_object_save_level := m_curr_save_level s\<rparr>)"
        "advance d v s (set (concat chs @ e # rest)) s3 (set (concat (chs[i := e # chs ! i]) @ rest))" "undisturbed s chs (key_of s k) s3 (chs[i := e # chs ! i])"
        "placed s chs k s3 (chs[i := e # chs ! i]) e"
      using tail_new [OF snd [unfolded er] key i r1, of svc v mode] by blast
    have "d_length ?h < d_maxlength ?h" using dict_invD(11) [OF inv] er by simp
    then have "put_rest svc d k v mode i nulloffset s = (Value e, s3)" using s3(1) by (simp add: Let_def)
    then show ?thesis using free s3(2-6) er
      by (intro exI [of _ "Value e"] exI [of _ s3] exI [of _ "chs[i := e # chs ! i]"] exI [of _ rest]) simp
  qed
qed

lemma put_ok:
  assumes snd: "sound s names d chs pool" and key: "plain_key s names k" and room: "room s (put_need s d k)"
    and rel: "\<forall>e\<in>set (concat chs). key_at s e = key_of s k \<longrightarrow> releasable s (e_value (entry_at s e))"
  shows "\<exists>r s' chs' pool'. put svc d k v mode s = (r, s') \<and> sound s' names d chs' pool' \<and>
    advance d v s (set (concat chs @ pool)) s' (set (concat chs' @ pool')) \<and>
    (if dict_map s chs (key_of s k) = None \<and> d_length (dict_at s d) = d_maxlength (dict_at s d) \<and> \<not> growable (dict_at s d)
     then r = Raise DictFull \<and> dict_map s' chs' = dict_map s chs \<and> (\<forall>K. undisturbed s chs K s' chs') \<and> chs' = chs
     else (\<exists>e. r = Value e \<and> placed s chs k s' chs' e) \<and> dict_map s' chs' = (dict_map s chs)(key_of s k \<mapsto> v\<lparr>m_object_save_level := m_curr_save_level s\<rparr>) \<and>
       undisturbed s chs (key_of s k) s' chs')"
proof -
  have old: "releasable s (e_value (entry_at s e))" if "e \<in> set (concat chs)" "key_at s e = key_of s k" for e using rel that by blast
  let ?X = "set (concat chs @ pool)"
  obtain s0 i e where s0: "put svc d k v mode s = put_rest svc d k v mode i e s0" "i = dict_home s0 d (key_of s0 k)"
      "e = snd (chain_link (\<lambda>x. key_at s0 x = key_of s0 k) (Bucket i) (chs ! i))" "sound s0 names d chs pool" "dict_map s0 chs = dict_map s chs"
      "advance d v s ?X s0 ?X" "dict_at s0 = dict_at s" "entry_at s0 = entry_at s" "m_vm_ptr s0 = m_vm_ptr s" "m_ext s0 = m_ext s" "m_wide s0 = m_wide s"
    using put_unfold [OF snd key, of svc v mode] by blast
  note k0 = advanceD(1) [OF s0(6)]
  note key0 = keeps_key [OF k0 key]
  have inv: "dict_inv s names d chs pool" "dict_inv s0 names d chs pool" using snd s0(4) by (simp_all add: sound_def)
  have room0: "room s0 (put_need s0 d k)" using room s0(7,9) keepsD(2) [OF k0] by (simp add: room_def put_need_def)
  have start: "undisturbed s chs K s0 chs" for K by (rule undisturbed_same) (simp add: s0(8))
  show ?thesis
  proof (cases "dict_map s chs (key_of s k) = None")
    case True
    then have none: "dict_map s0 chs (key_of s0 k) = None" using s0(5) key0(2) by simp
    then have "e = nulloffset" using find_key(1) [OF inv(2) none] s0(2,3) by simp
    then obtain r s' chs' pool' where x: "put_rest svc d k v mode i e s0 = (r, s')" "sound s' names d chs' pool'" "advance d v s0 ?X s' (set (concat chs' @ pool'))"
      "if d_length (dict_at s0 d) = d_maxlength (dict_at s0 d) \<and> \<not> growable (dict_at s0 d)
       then r = Raise DictFull \<and> dict_map s' chs' = dict_map s0 chs \<and> (\<forall>K. undisturbed s0 chs K s' chs') \<and> chs' = chs
       else (\<exists>e. r = Value e \<and> placed s0 chs k s' chs' e) \<and> dict_map s' chs' = (dict_map s0 chs)(key_of s0 k \<mapsto> v\<lparr>m_object_save_level := m_curr_save_level s0\<rparr>) \<and>
         undisturbed s0 chs (key_of s0 k) s' chs'"
      using rest_new [OF s0(4) key0(1) none s0(2) room0, of svc v mode] by blast
    have same: "undisturbed s chs K s' chs'" if "undisturbed s0 chs K s' chs'" for K using start that inv(1) k0 by (rule undisturbed_trans)
    have pl: "placed s chs k s' chs' e" if "placed s0 chs k s' chs' e" for e by (rule placed_pre [OF that key0(2) k0 snd]) (simp add: s0(8))
    let ?full = "d_length (dict_at s d) = d_maxlength (dict_at s d) \<and> \<not> growable (dict_at s d)"
    have res: "if ?full then r = Raise DictFull \<and> dict_map s' chs' = dict_map s chs \<and> (\<forall>K. undisturbed s chs K s' chs') \<and> chs' = chs
      else (\<exists>e. r = Value e \<and> placed s chs k s' chs' e) \<and> dict_map s' chs' = (dict_map s chs)(key_of s k \<mapsto> v\<lparr>m_object_save_level := m_curr_save_level s\<rparr>) \<and>
        undisturbed s chs (key_of s k) s' chs'"
    proof (cases ?full)
      case True
      then show ?thesis using x(4) same s0(5,7) by auto
    next
      case False
      then show ?thesis using x(4) same pl s0(5,7) key0(2) keepsD(5) [OF k0] by auto
    qed
    have run: "put svc d k v mode s = (r, s')" using s0(1) x(1) by simp
    show ?thesis
      by (intro exI [of _ r] exI [of _ s'] exI [of _ chs'] exI [of _ pool']) (simp only: run x(2) advance_trans [OF s0(6) x(3)] True simp_thms, rule res)
  next
    case False
    then have some: "dict_map s0 chs (key_of s0 k) \<noteq> None" using s0(5) key0(2) by simp
    have e: "e \<in> set (concat chs)" "key_at s0 e = key_of s0 k" "e \<noteq> nulloffset" using find_key(2) [OF inv(2) some, of "Bucket i"] s0(2,3) by auto
    have "key_at s0 e = key_at s e" using keeps_key(2) [OF k0 dict_inv_entry [OF inv(1) e(1)]] s0(8) by simp
    then have "releasable s0 (e_value (entry_at s0 e))" using old [OF e(1)] e(2) key0(2) releasable_cong [OF k0 s0(10,11)] s0(8) by simp
    then obtain s' where x: "put_rest svc d k v mode i e s0 = (Value e, s')" "sound s' names d chs pool"
      "dict_map s' chs = (dict_map s0 chs)(key_of s0 k \<mapsto> v\<lparr>m_object_save_level := m_curr_save_level s0\<rparr>)" "advance d v s0 ?X s' ?X"
      "undisturbed s0 chs (key_of s0 k) s' chs" "placed s0 chs k s' chs e"
      using rest_existing [OF s0(4) key0(1) e room0, where svc = svc and v = v and mode = mode and i = i] by blast
    have "placed s chs k s' chs e" by (rule placed_pre [OF x(6) key0(2) k0 snd]) (simp add: s0(8))
    then show ?thesis using x(1-3) undisturbed_trans [OF start x(5) inv(1) k0] False s0(1,5) key0(2) keepsD(5) [OF k0] advance_trans [OF s0(6) x(4)]
      by (intro exI [of _ "Value e"] exI [of _ s'] exI [of _ chs] exI [of _ pool]) simp
  qed
qed

end
