(* ===== verification/Dict_Remove.thy ===== *)
theory Dict_Remove
  imports Dict_Put
begin

text \<open>
  Removal: the key is taken out of the map, and the entry is returned to the pool. As for insertion, other dictionaries keep their maps, and the journal
  leads back.
\<close>

section \<open>Unlinking\<close>

lemma chain_remove:
  assumes "entry_chain s off (ys @ e # zs)" "distinct (ys @ e # zs)" "m_vm_limit s' = m_vm_limit s"
    and "\<And>x. x \<in> set (ys @ zs) \<Longrightarrow> e_next (entry_at s' x) = (if ys \<noteq> [] \<and> x = last ys then e_next (entry_at s e) else e_next (entry_at s x))"
  shows "entry_chain s' (if ys = [] then e_next (entry_at s e) else off) (ys @ zs)"
  using assms
proof (induction ys arbitrary: off)
  case Nil
  then show ?case using entry_chain_cong [OF Nil.prems(3), of zs] by simp
next
  case (Cons y ys)
  have "e_next (entry_at s' x) = (if ys \<noteq> [] \<and> x = last ys then e_next (entry_at s e) else e_next (entry_at s x))" if "x \<in> set (ys @ zs)" for x
    using Cons.prems(4) [of x] Cons.prems(2) that by (cases "ys = []") auto
  then have "entry_chain s' (if ys = [] then e_next (entry_at s e) else e_next (entry_at s y)) (ys @ zs)"
    using Cons.prems(1-3) by (intro Cons.IH) auto
  moreover have "e_next (entry_at s' y) = (if ys = [] then e_next (entry_at s e) else e_next (entry_at s y))"
    using Cons.prems(4) [of y] Cons.prems(2) by (cases "ys = []") auto
  ultimately show ?case using Cons.prems(1,3) by simp
qed

lemma dict_remove:
  assumes inv: "dict_inv s names d chs pool" and k: "keeps s s'" and i: "i < length chs" and ch: "chs ! i = ys @ e # zs"
    and h: "d_buckets (dict_at s' d) = (if ys = [] then (d_buckets (dict_at s d))[i := e_next (entry_at s e)] else d_buckets (dict_at s d))"
      "d_pool (dict_at s' d) = e" "d_length (dict_at s' d) = d_length (dict_at s d) - 1" "d_maxlength (dict_at s' d) = d_maxlength (dict_at s d)"
    and e: "e_next (entry_at s' e) = d_pool (dict_at s d)"
      "\<And>x. x \<noteq> e \<Longrightarrow> entry_at s' x = (if ys \<noteq> [] \<and> x = last ys then (entry_at s x)\<lparr>e_next := e_next (entry_at s e)\<rparr> else entry_at s x)"
  shows "dict_inv s' names d (chs[i := ys @ zs]) (e # pool)" "dict_map s' (chs[i := ys @ zs]) = (dict_map s chs)(key_at s e := None)"
proof -
  note d = keepsD [OF k]
  let ?chs = "chs[i := ys @ zs]"
  have c: "concat chs = concat (take i chs) @ (ys @ e # zs) @ concat (drop (Suc i) chs)" using concat_split [OF i] ch by simp
  have c': "concat ?chs = concat (take i chs) @ (ys @ zs) @ concat (drop (Suc i) chs)" using concat_update [OF i] by simp
  have dist: "distinct (concat chs @ pool)" by (rule dict_invD(5) [OF inv])
  have set': "set (concat ?chs) = set (concat chs) - {e}" "distinct (concat ?chs @ e # pool)"
    using dist unfolding c c' by (auto simp del: set_concat)
  have ine: "e \<in> set (concat chs)" "e \<notin> set pool" using dist unfolding c by (auto simp del: set_concat)
  have sub: "x \<in> set (concat chs)" if "j < length chs" "x \<in> set (chs ! j)" for j x unfolding in_concat_nth using that by blast
  have key: "e_key (entry_at s' x) = e_key (entry_at s x)" "e_value (entry_at s' x) = e_value (entry_at s x)" if "x \<noteq> e" for x using e(2) [OF that] by simp_all
  have nxt: "e_next (entry_at s' x) = e_next (entry_at s x)" if "x \<noteq> e" "\<not> (ys \<noteq> [] \<and> x = last ys)" for x using e(2) [OF that(1)] that(2) by auto
  have kx: "key_at s' x = key_at s x" if "x \<in> set (concat chs)" "x \<noteq> e" for x
    using keeps_key(2) [OF k dict_inv_entry [OF inv that(1)]] key(1) [OF that(2)] by simp
  have len: "length (d_buckets (dict_at s' d)) = length chs" "length (d_buckets (dict_at s d)) = length chs" using h(1) dict_invD(2) [OF inv] by simp_all
  then have home: "dict_home s' d x = dict_home s d x" for x by (simp add: dict_home_def)
  have lastin: "last ys \<in> set (chs ! i)" if "ys \<noteq> []" using that ch by simp
  have apart: "x \<noteq> e \<and> \<not> (ys \<noteq> [] \<and> x = last ys)" if "j < length chs" "j \<noteq> i" "x \<in> set (chs ! j)" for j x
  proof -
    have "x \<notin> set (chs ! i)" using dict_invD(7) [OF inv that(1,3)] dict_invD(7) [OF inv i, of x] that(2) by auto
    then show ?thesis using lastin ch by auto
  qed
  have chains: "entry_chain s' (d_buckets (dict_at s' d) ! j) (?chs ! j)" if j: "j < length ?chs" for j
  proof (cases "j = i")
    case True
    have dy: "distinct (ys @ e # zs)" using dist unfolding c by (auto simp del: set_concat)
    have "e_next (entry_at s' x) = (if ys \<noteq> [] \<and> x = last ys then e_next (entry_at s e) else e_next (entry_at s x))" if "x \<in> set (ys @ zs)" for x
    proof -
      have "x \<noteq> e" using that dy by auto
      then show ?thesis using e(2) [of x] by simp
    qed
    then have "entry_chain s' (if ys = [] then e_next (entry_at s e) else d_buckets (dict_at s d) ! i) (ys @ zs)"
      using dict_invD(3) [OF inv i] dy d(1) unfolding ch by (intro chain_remove)
    then show ?thesis using True i h(1) len by (cases "ys = []") simp_all
  next
    case False
    have "entry_chain s' off (chs ! j) = entry_chain s off (chs ! j)" for off
      by (rule entry_chain_cong [OF d(1)]) (use apart [of j] nxt j False in auto)
    then show ?thesis using dict_invD(3) [OF inv, of j] j h(1) False by simp
  qed
  have "entry_chain s' off pool = entry_chain s off pool" for off
  proof (rule entry_chain_cong [OF d(1)])
    show "e_next (entry_at s' x) = e_next (entry_at s x)" if "x \<in> set pool" for x
    proof (rule nxt)
      have "x \<notin> set (concat chs)" using dist that by (auto simp del: set_concat)
      then show "x \<noteq> e" "\<not> (ys \<noteq> [] \<and> x = last ys)" using ine(1) sub [OF i lastin] by auto
    qed
  qed
  moreover have "\<exists>j<length chs. e \<in> set (chs ! j)" using i ch by auto
  ultimately have "entry_chain s' (d_pool (dict_at s' d)) (e # pool)"
    using dict_invD(4) [OF inv] e(1) h(2) d(1) entry_chain_nz [OF dict_invD(3) [OF inv i], of e] ch by simp
  moreover have "plain_key s' names (e_key (entry_at s' x)) \<and> dict_home s' d (key_at s' x) = j" if j: "j < length ?chs" "x \<in> set (?chs ! j)" for j x
  proof -
    have "x \<in> set (concat ?chs)" unfolding in_concat_nth using j by blast
    then have ne: "x \<noteq> e" unfolding set' by blast
    have x: "x \<in> set (chs ! j)" "j < length chs" using j ch by (cases "j = i"; auto)+
    show ?thesis using keeps_key(1) [OF k dict_invD(6) [OF inv x(2,1)]] dict_invD(7) [OF inv x(2,1)] key(1) [OF ne] kx [OF sub [OF x(2,1)] ne] home by simp
  qed
  moreover have "inj_on (key_at s') (set (concat ?chs))"
  proof -
    have "inj_on (key_at s) (set (concat ?chs))" unfolding set' using inj_on_subset [OF dict_invD(8) [OF inv]] by blast
    moreover have "key_at s' x = key_at s x" if "x \<in> set (concat ?chs)" for x using kx that unfolding set' by blast
    ultimately show ?thesis by (metis (mono_tags, lifting) inj_on_cong)
  qed
  moreover have "x + 20 \<le> m_vm_ptr s' \<or> m_vm_temp_ptr s' \<le> x" if "x \<in> set (concat ?chs @ e # pool)" for x
  proof -
    have "x \<in> set (concat chs @ pool)" using that ine(1) unfolding set_append set' by (auto simp del: set_concat)
    then show ?thesis using dict_invD(13) [OF inv, of x] d(2,4) by auto
  qed
  moreover have "length (concat chs) = Suc (length (concat ?chs))" unfolding c c' by simp
  moreover have "interned s' names" using keeps_interned [OF k] dict_invD(9) [OF inv] by simp
  ultimately show inv': "dict_inv s' names d ?chs (e # pool)"
    using dict_invD(1,10-12) [OF inv] chains h(2-4) len set'(2) unfolding dict_inv_def by simp
  show "dict_map s' ?chs = (dict_map s chs)(key_at s e := None)"
  proof
    fix kk
    show "dict_map s' ?chs kk = ((dict_map s chs)(key_at s e := None)) kk"
    proof (cases "kk \<in> key_at s' ` set (concat ?chs)")
      case True
      then obtain x where x: "x \<in> set (concat ?chs)" "kk = key_at s' x" by blast
      then have y: "x \<in> set (concat chs)" "x \<noteq> e" unfolding set' by blast+
      have "key_at s x \<noteq> key_at s e" using inj_onD [OF dict_invD(8) [OF inv], of x e] y ine(1) by blast
      then show ?thesis using dict_map_at [OF inv' x(1)] dict_map_at [OF inv y(1)] kx [OF y] key(2) [OF y(2)] x(2) by simp
    next
      case False
      have "kk \<notin> key_at s ` set (concat chs) \<or> kk = key_at s e"
      proof (rule ccontr)
        assume "\<not> ?thesis"
        then obtain x where x: "x \<in> set (concat chs)" "kk = key_at s x" "x \<noteq> e" by blast
        then have "x \<in> set (concat ?chs)" unfolding set' by blast
        then show False using False kx [OF x(1,3)] x(2) by (metis imageI)
      qed
      then show ?thesis using dict_map_none [OF False] dict_map_none [of kk s chs] by auto
    qed
  qed
qed

section \<open>The stages of a removal\<close>

lemma undoable_next:
  assumes und: "undoable c s D E" and k: "keeps s s'" and c': "dict_at s' = dict_at s" "entry_at s' = (entry_at s)(p := (entry_at s p)\<lparr>e_next := n\<rparr>)" and p: "p \<in> E"
    and j: "m_journal s' = (if m_object_save_level (e_value (entry_at s p)) = m_curr_save_level s then m_journal s else journalled (UNext p (e_next (entry_at s p))) s)"
  shows "undoable c s' D E"
proof -
  note lv = keepsD(5) [OF k]
  have g: "grown (UNext p (e_next (entry_at s p))) s s'" using j by (auto simp: grown_def present_intros)
  note gu = grown_undo [OF g lv]
  with undoableD(3) [OF und] have sp: "saved_next (level_journal s') p" if "p < level_barrier s"
    using that j undoableD(5) [OF und p that] gu(3) journalled_saved(3) [of s' "UNext p (e_next (entry_at s p))" s p "e_next (entry_at s p)"] lv
    by (auto simp: undo_offset_def saved_next_def split: if_splits)
  have "agree (level_barrier s) (undo_all (level_journal s') (contents_of s')) (undo_all (level_journal s') (contents_of s))"
    unfolding c' by (rule change_next) (rule sp)
  then show ?thesis using undoableD(4,5) [OF und] gu(2,3) c' by (intro undoable_change [OF und k g]) (auto split: if_splits)
qed

lemma forall_update_none: "\<forall>ob\<in>set xs. \<not> operator_is_dictforall ob \<Longrightarrow> forall_update s target xs = Value xs"
  by (induction xs) auto

lemma forall_none_ok:
  assumes "\<forall>ob\<in>set (s_objs (m_exec s)). \<not> operator_is_dictforall ob"
  shows "dict_forall_update e s = (Value (), s)"
  using forall_update_none [OF assms] by (simp add: dict_forall_update_def upd_execs_def lift_outcome_def seq_def)

text \<open>Giving up the objects of the entry: released when they belong to this level, saved otherwise.\<close>

abbreviation give_up :: "nat \<Rightarrow> nat \<Rightarrow> nat \<Rightarrow> (dict_machine, unit) action" where
  "give_up d e level \<equiv>
     (\<lambda>s. if m_object_save_level (e_key (entry_at s e)) = level \<and> m_object_save_level (e_value (entry_at s e)) = level \<or> d = m_eqdict s
          then seq (release_key e) (\<lambda>_. release_value e) s else undo_dict_entry e s)"

abbreviation both_current :: "dict_machine \<Rightarrow> nat \<Rightarrow> bool" where
  "both_current s e \<equiv> m_object_save_level (e_key (entry_at s e)) = m_curr_save_level s \<and> m_object_save_level (e_value (entry_at s e)) = m_curr_save_level s"

lemma give_up_ok:
  assumes rdy: "ready s d es" and e: "e \<in> es" and room: "room s 36" and key: "\<not> uses_heap_cell (e_key (entry_at s e))"
    and old: "releasable s (e_value (entry_at s e))"
  shows "\<exists>s' v. give_up d e (m_curr_save_level s) s = (Value (), s') \<and> keeps s s' \<and> dict_at s' = dict_at s \<and> name_at s' = name_at s \<and>
    entry_at s' = (entry_at s)(e := (entry_at s e)\<lparr>e_value := v\<rparr>) \<and> m_vm_ptr s' \<le> m_vm_ptr s + 35 \<and>
    m_journal s' = (if both_current s e then m_journal s else journalled (UEntry e (entry_at s e)) s)"
proof (cases "both_current s e")
  case True
  have "release (e_key (entry_at s e)) s = (Value (e_key (entry_at s e)), s)" using key by (simp add: release_def maybe_free_extvalue_def lift_trix_def)
  then have k: "release_key e s = (Value (), s)" by (simp add: release_key_def upd_entry_def)
  obtain ob s1 where s1: "release (e_value (entry_at s e)) s = (Value ob, s1)" "keeps s s1" "dict_at s1 = dict_at s" "entry_at s1 = entry_at s"
      "name_at s1 = name_at s" "m_journal s1 = m_journal s" "m_vm_ptr s1 = m_vm_ptr s"
    using release_ok [OF old] by blast
  let ?s = "upd_entry e (\<lambda>x. x\<lparr>e_value := ob\<rparr>) s1"
  have "give_up d e (m_curr_save_level s) s = (Value (), ?s)" using True k s1(1) by (simp add: release_value_def)
  moreover have "keeps s ?s" using s1(2) by (simp add: keeps_def upd_entry_def)
  ultimately show ?thesis using s1 True by (intro exI [of _ ?s] exI [of _ ob]) (simp add: upd_entry_def)
next
  case False
  then have lvl: "m_curr_save_level s \<noteq> 0" using readyD(10) [OF rdy _ e] by metis
  have r: "room s (20 + 16)" using room by simp
  obtain s1 where s1: "undo_dict_entry e s = (Value (), s1)" "keeps s s1" "dict_at s1 = dict_at s" "entry_at s1 = entry_at s"
      "name_at s1 = name_at s" "m_journal s1 = journalled (UEntry e (entry_at s e)) s" "m_vm_ptr s1 \<le> m_vm_ptr s + 20 + 15"
    using journal_undo_ok [OF r lvl readyD(8) [OF rdy lvl]] unfolding undo_dict_entry_def by blast
  have "give_up d e (m_curr_save_level s) s = (Value (), s1)" using False readyD(5) [OF rdy] s1(1) by auto
  then show ?thesis using s1 False by (intro exI [of _ s1] exI [of _ "e_value (entry_at s e)"]) auto
qed

definition unbound :: "object \<Rightarrow> (nat \<Rightarrow> name) \<Rightarrow> nat \<Rightarrow> name" where
  "unbound k nm = (if o_type k = TName then nm(m_offset k := (nm (m_offset k))\<lparr>n_binding := nulloffset\<rparr>) else nm)"

lemma clear_entry_ok:
  assumes "plain_key s names (e_key (entry_at s e))"
  shows "\<exists>s'. clear_entry e l s = (Value (), s') \<and> keeps s s' \<and> dict_at s' = dict_at s \<and> m_journal s' = m_journal s \<and> m_vm_ptr s' = m_vm_ptr s \<and>
    entry_at s' = (entry_at s)(e := (entry_at s e)\<lparr>e_key := null_at l, e_value := null_at l\<rparr>) \<and> name_at s' = unbound (e_key (entry_at s e)) (name_at s)"
proof -
  let ?k = "e_key (entry_at s e)"
  obtain s1 where s1: "(if o_type ?k = TName then clear_name_binding ?k else ret ()) s = (Value (), s1)" "keeps s s1" "dict_at s1 = dict_at s"
      "entry_at s1 = entry_at s" "m_journal s1 = m_journal s" "m_vm_ptr s1 = m_vm_ptr s" "name_at s1 = unbound ?k (name_at s)"
  proof (cases "o_type ?k = TName")
    case True
    then have "offset_to_ptr s (m_offset ?k) = Value (m_offset ?k)" using assms by (simp add: plain_key_def key_ok_def)
    then show ?thesis using True that by (simp add: clear_name_binding_def set_name_binding_def lift_outcome_def seq_def keeps_def unbound_def)
  next
    case False
    then show ?thesis using that [of s] by (simp add: unbound_def)
  qed
  let ?s = "upd_entry e (\<lambda>x. x\<lparr>e_key := null_at l, e_value := null_at l\<rparr>) s1"
  have "clear_entry e l s = (Value (), ?s)" using s1(1) by (simp add: clear_entry_def)
  moreover have "keeps s ?s" using s1(2) by (simp add: keeps_def upd_entry_def)
  ultimately show ?thesis using s1 by (intro exI [of _ ?s]) (simp add: upd_entry_def)
qed

text \<open>The journal entry for the link of the predecessor.\<close>

abbreviation save_link :: "nat \<Rightarrow> link \<Rightarrow> nat \<Rightarrow> (dict_machine, unit) action" where
  "save_link d l level \<equiv>
     (\<lambda>s. case l of
            After p \<Rightarrow> if m_object_save_level (e_value (entry_at s p)) \<noteq> level \<and> d \<noteq> m_eqdict s then undo_dict_entry_next p s else (Value (), s)
          | Bucket _ \<Rightarrow> (Value (), s))"

lemma save_link_ok:
  assumes rdy: "ready s d es" and l: "\<And>p. l = After p \<Longrightarrow> p \<in> es" and room: "room s 20"
  shows "\<exists>s'. save_link d l (m_curr_save_level s) s = (Value (), s') \<and> keeps s s' \<and> dict_at s' = dict_at s \<and> entry_at s' = entry_at s \<and>
    m_journal s' = (case l of Bucket _ \<Rightarrow> m_journal s | After p \<Rightarrow> if m_object_save_level (e_value (entry_at s p)) = m_curr_save_level s then m_journal s
      else journalled (UNext p (e_next (entry_at s p))) s) \<and> name_at s' = name_at s"
proof (cases l)
  case (Bucket i)
  then show ?thesis by auto
next
  case (After p)
  show ?thesis
  proof (cases "m_object_save_level (e_value (entry_at s p)) = m_curr_save_level s")
    case True
    then show ?thesis using After by auto
  next
    case False
    then have lvl: "m_curr_save_level s \<noteq> 0" using readyD(10) [OF rdy _ l [OF After]] by metis
    have r: "room s (4 + 16)" using room by simp
    obtain s1 where "undo_dict_entry_next p s = (Value (), s1)" "keeps s s1" "dict_at s1 = dict_at s" "entry_at s1 = entry_at s"
      "m_journal s1 = journalled (UNext p (e_next (entry_at s p))) s" "name_at s1 = name_at s"
      using journal_undo_ok [OF r lvl readyD(8) [OF rdy lvl]] unfolding undo_dict_entry_next_def by blast
    then show ?thesis using After False readyD(5) [OF rdy] by (intro exI [of _ s1]) simp
  qed
qed

section \<open>Removal\<close>

definition undef_need :: "dict_machine \<Rightarrow> nat \<Rightarrow> nat" where
  "undef_need s d = dict_size (length (d_buckets (dict_at s d))) + 80"

abbreviation undef_rest :: "nat \<Rightarrow> link \<Rightarrow> nat \<Rightarrow> (dict_machine, unit) action" where
  "undef_rest d l e \<equiv>
     seq (gets m_curr_save_level) (\<lambda>level.
     seq (give_up d e level) (\<lambda>_. seq (clear_entry e level) (\<lambda>_. seq (save_link d l level) (\<lambda>_. unlink_entry d l e))))"

text \<open>The end of a removal: the links, with the predecessor's link saved before.\<close>

lemma unlink_ok:
  assumes rdy: "ready s d es" and lvl: "d_save_level (dict_at s d) = m_curr_save_level s" and room: "room s 20"
    and e: "e \<in> es" "m_object_save_level (e_value (entry_at s e)) = m_curr_save_level s" and l: "\<And>p. l = After p \<Longrightarrow> p \<in> es \<and> p \<noteq> e"
    and len: "0 < d_length (dict_at s d)" "d_length (dict_at s d) \<le> max_length"
  shows "\<exists>s'. seq (save_link d l (m_curr_save_level s)) (\<lambda>_. unlink_entry d l e) s = (Value (), s') \<and> keeps s s' \<and>
    dict_at s' = (dict_at s)(d := (dict_at s d)\<lparr>d_buckets := (case l of Bucket i \<Rightarrow> (d_buckets (dict_at s d))[i := e_next (entry_at s e)] | After p \<Rightarrow> d_buckets (dict_at s d)),
      d_pool := e, d_length := d_length (dict_at s d) - 1\<rparr>) \<and>
    entry_at s' = (case l of Bucket i \<Rightarrow> entry_at s | After p \<Rightarrow> (entry_at s)(p := (entry_at s p)\<lparr>e_next := e_next (entry_at s e)\<rparr>))
      (e := (entry_at s e)\<lparr>e_next := d_pool (dict_at s d)\<rparr>) \<and>
    (\<forall>c D E. undoable c s D E \<and> d \<in> D \<and> es \<subseteq> E \<longrightarrow> undoable c s' D E) \<and> (no_cells s \<longrightarrow> no_cells s') \<and> name_at s' = name_at s"
proof -
  have wrap: "(d_length (dict_at s d) + 65535) mod 65536 = d_length (dict_at s d) - 1" using len by (simp add: max_length_def mod_if)
  obtain s1 where s1: "save_link d l (m_curr_save_level s) s = (Value (), s1)" "keeps s s1" "dict_at s1 = dict_at s" "entry_at s1 = entry_at s"
    "m_journal s1 = (case l of Bucket _ \<Rightarrow> m_journal s | After p \<Rightarrow> if m_object_save_level (e_value (entry_at s p)) = m_curr_save_level s then m_journal s
      else journalled (UNext p (e_next (entry_at s p))) s)" "name_at s1 = name_at s"
    using save_link_ok [OF rdy _ room, of l] l by blast
  let ?s2 = "set_dlink d l (e_next (entry_at s e)) s1"
  let ?s3 = "upd_dict d (\<lambda>h. h\<lparr>d_pool := e, d_length := (d_length h + 65535) mod 65536\<rparr>) (upd_entry e (\<lambda>x. x\<lparr>e_next := d_pool (dict_at ?s2 d)\<rparr>) ?s2)"
  have run: "seq (save_link d l (m_curr_save_level s)) (\<lambda>_. unlink_entry d l e) s = (Value (), ?s3)"
    using s1(1,4) by (simp add: unlink_entry_def)
  have k2: "keeps s1 ?s2" by (cases l) (simp_all add: set_dlink_def keeps_def upd_dict_def upd_entry_def)
  have k3: "keeps ?s2 ?s3" by (simp add: keeps_def upd_dict_def upd_entry_def)
  let ?b = "case l of Bucket i \<Rightarrow> (d_buckets (dict_at s d))[i := e_next (entry_at s e)] | After p \<Rightarrow> d_buckets (dict_at s d)"
  let ?es = "case l of Bucket i \<Rightarrow> entry_at s | After p \<Rightarrow> (entry_at s)(p := (entry_at s p)\<lparr>e_next := e_next (entry_at s e)\<rparr>)"
  have f2: "dict_at ?s2 = (dict_at s)(d := (dict_at s d)\<lparr>d_buckets := ?b\<rparr>)" "entry_at ?s2 = ?es" "m_journal ?s2 = m_journal s1"
    using s1(3,4) by (cases l; simp add: set_dlink_def upd_dict_def upd_entry_def)+
  have ee: "?es e = entry_at s e" using l by (cases l) auto
  have f3: "dict_at ?s3 = (dict_at s)(d := (dict_at s d)\<lparr>d_buckets := ?b, d_pool := e, d_length := d_length (dict_at s d) - 1\<rparr>)"
    "dict_at ?s3 = (dict_at ?s2)(d := dict_at ?s3 d)"
    "entry_at ?s3 = (entry_at ?s2)(e := (entry_at s e)\<lparr>e_next := d_pool (dict_at s d)\<rparr>)" "m_journal ?s3 = m_journal ?s2"
    using f2 ee wrap by (simp_all add: upd_dict_def upd_entry_def)
  have "undoable c ?s3 D E" if u: "undoable c s D E" "d \<in> D" "es \<subseteq> E" for c D E
  proof -
    note k = keeps_trans [OF s1(2) k2]
    have u2: "undoable c ?s2 D E"
    proof (cases l)
      case (Bucket i)
      have j: "m_journal ?s2 = (if d_save_level (dict_at s d) = m_curr_save_level s then m_journal s else journalled (UHeader d (dict_at s d)) s)"
        using lvl f2(3) s1(5) Bucket by simp
      show ?thesis by (rule undoable_save [OF u(1) k u(2) f2(1) _ j]) (use f2(2) Bucket in simp)
    next
      case (After p)
      show ?thesis by (rule undoable_next [OF u(1) k, of p]) (use f2 s1(5) After l [OF After] u(3) in auto)
    qed
    show ?thesis
      by (rule undoable_entry [OF u2 k3 u(2) _ _ f3(2,3), of True])
        (use f2(1,2) f3(4) lvl keepsD(5) [OF k] e ee u(3) in auto)
  qed
  moreover have "no_cells ?s3" if nc: "no_cells s"
  proof -
    obtain u where g: "grown u s s1"
    proof (cases l)
      case (Bucket i)
      then show ?thesis using that [of "UHeader d (dict_at s d)"] s1(5) by (simp add: grown_def present_intros)
    next
      case (After p)
      then show ?thesis using that [of "UNext p (e_next (entry_at s p))"] s1(5) by (auto simp: grown_def present_intros)
    qed
    have "no_cells s1" using no_cells_step [OF nc g keepsD(5) [OF s1(2)]] no_cells_entries [OF nc] s1(4) by simp
    then show ?thesis
    proof (rule no_cells_same)
      show "m_journal ?s3 = m_journal s1" using f3(4) f2(3) by simp
      show "m_curr_save_level ?s3 = m_curr_save_level s1" using keepsD(5) [OF keeps_trans [OF k2 k3]] by simp
      have "plain_entry (?es y)" for y using no_cells_entries [OF nc, of y] by (cases l) (auto simp: plain_entry_def)
      then show "plain_entry (entry_at ?s3 y)" for y using no_cells_entries [OF nc, of e] f3(3) f2(2) by (simp add: plain_entry_def)
    qed
  qed
  moreover have "name_at ?s3 = name_at s" using s1(6) by (cases l) (simp_all add: set_dlink_def upd_dict_def upd_entry_def)
  ultimately show ?thesis using run keeps_trans [OF s1(2) keeps_trans [OF k2 k3]] f3(1,3) f2(2) by (intro exI [of _ ?s3]) (simp split: link.split)
qed

lemma undef_present:
  assumes snd: "sound s names d chs pool" and i: "i < length chs" and ch: "chs ! i = ys @ e # zs" and room: "room s (undef_need s d)"
    and old: "releasable s (e_value (entry_at s e))" and l: "l = (if ys = [] then Bucket i else After (last ys))"
  shows "\<exists>s'. seq (dict_save d) (\<lambda>_. undef_rest d l e) s = (Value (), s') \<and> sound s' names d (chs[i := ys @ zs]) (e # pool) \<and>
    dict_map s' (chs[i := ys @ zs]) = (dict_map s chs)(key_at s e := None) \<and>
    advance d v s (set (concat chs @ pool)) s' (set (concat (chs[i := ys @ zs]) @ e # pool)) \<and> undisturbed s chs (key_at s e) s' (chs[i := ys @ zs]) \<and>
    set (concat (chs[i := ys @ zs])) = set (concat chs) - {e} \<and> name_at s' = unbound (e_key (entry_at s e)) (name_at s)"
proof -
  let ?X = "set (concat chs @ pool)" and ?chs = "chs[i := ys @ zs]"
  have r0: "room s (dict_size (length (d_buckets (dict_at s d))) + 16)" using room by (simp add: room_def undef_need_def)
  obtain s1 where s1: "dict_save d s = (Value (), s1)" "sound s1 names d chs pool" "dict_map s1 chs = dict_map s chs" "advance d v s ?X s1 ?X"
      "dict_at s1 d = (dict_at s d)\<lparr>d_save_level := m_curr_save_level s\<rparr>" "entry_at s1 = entry_at s"
      "m_vm_ptr s1 \<le> m_vm_ptr s + dict_size (length (d_buckets (dict_at s d))) + 15" "m_ext s1 = m_ext s" "m_wide s1 = m_wide s" "name_at s1 = name_at s"
    using save_stage [OF snd r0, of v ?X] by blast
  note k1 = advanceD(1) [OF s1(4)]
  have inv: "dict_inv s1 names d chs pool" and rdy: "ready s1 d ?X" using s1(2) by (simp_all add: sound_def)
  have lvl: "d_save_level (dict_at s1 d) = m_curr_save_level s1" using s1(5) keepsD(5) [OF k1] by simp
  have sub: "x \<in> set (concat chs)" if "x \<in> set (chs ! i)" for x unfolding in_concat_nth using that i by blast
  have ce: "e \<in> set (concat chs)" using sub ch by simp
  then have eX: "e \<in> ?X" by simp
  have pX: "p \<in> ?X \<and> p \<noteq> e" if "l = After p" for p
  proof -
    have p: "ys \<noteq> []" "p = last ys" using that l by (simp_all split: if_splits)
    then have "p \<in> set (concat chs)" using sub ch by simp
    moreover have "distinct (chs ! i)" using dict_invD(5) [OF inv] i by (simp add: concat_split [OF i])
    then have "p \<noteq> e" using p ch by auto
    ultimately show ?thesis by simp
  qed
  have key: "plain_key s1 names (e_key (entry_at s1 e))" by (rule dict_inv_entry [OF inv ce])
  have r1: "room s1 36" using room s1(7) keepsD(2) [OF k1] by (simp add: room_def undef_need_def)
  have old1: "releasable s1 (e_value (entry_at s1 e))" using old releasable_cong [OF k1 s1(8,9)] s1(6) by simp
  have nocell: "\<not> uses_heap_cell (e_key (entry_at s1 e))" using key by (simp add: plain_key_def)
  obtain s2 w where s2: "give_up d e (m_curr_save_level s1) s1 = (Value (), s2)" "keeps s1 s2" "dict_at s2 = dict_at s1"
      "entry_at s2 = (entry_at s1)(e := (entry_at s1 e)\<lparr>e_value := w\<rparr>)" "m_vm_ptr s2 \<le> m_vm_ptr s1 + 35"
      "m_journal s2 = (if both_current s1 e then m_journal s1 else journalled (UEntry e (entry_at s1 e)) s1)" "name_at s2 = name_at s1"
    using give_up_ok [OF rdy eX r1 nocell old1] by blast
  have key2: "plain_key s2 names (e_key (entry_at s2 e))" using keeps_key(1) [OF s2(2) key] s2(4) by simp
  let ?lv = "m_curr_save_level s1"
  obtain s3 where s3: "clear_entry e ?lv s2 = (Value (), s3)" "keeps s2 s3" "dict_at s3 = dict_at s2" "m_journal s3 = m_journal s2" "m_vm_ptr s3 = m_vm_ptr s2"
      "entry_at s3 = (entry_at s2)(e := (entry_at s2 e)\<lparr>e_key := null_at ?lv, e_value := null_at ?lv\<rparr>)" "name_at s3 = unbound (e_key (entry_at s2 e)) (name_at s2)"
    using clear_entry_ok [OF key2] by blast
  note k3 = keeps_trans [OF s2(2) s3(2)]
  note d3 = keepsD(2,5) [OF k3]
  have e3: "entry_at s3 = (entry_at s1)(e := (entry_at s1 e)\<lparr>e_key := null_at ?lv, e_value := null_at ?lv\<rparr>)" using s3(6) s2(4) by simp
  have h3: "dict_at s3 = dict_at s1" using s2(3) s3(3) by simp
  have lv: "m_object_save_level (null_at n) = n" for n by (simp add: null_at_def)
  have rdy3: "ready s3 d ?X"
    by (rule ready_keep [OF rdy k3]) (use h3 e3 lv readyD(10) [OF rdy] in \<open>auto simp del: set_concat\<close>)
  have len: "0 < d_length (dict_at s3 d)" "d_length (dict_at s3 d) \<le> max_length"
  proof -
    have "0 < length (concat chs)" using ce by (cases "concat chs") auto
    then show "0 < d_length (dict_at s3 d)" using dict_invD(10) [OF inv] h3 by simp
    show "d_length (dict_at s3 d) \<le> max_length" using dict_invD(11,12) [OF inv] h3 by simp
  qed
  have r3: "room s3 20" using room s1(7) s2(5) s3(5) keepsD(2) [OF k1] d3(1) by (simp add: room_def undef_need_def)
  have lvl3: "d_save_level (dict_at s3 d) = m_curr_save_level s3" using lvl h3 d3(2) by simp
  have elv: "m_object_save_level (e_value (entry_at s3 e)) = m_curr_save_level s3" using e3 lv d3(2) by simp
  obtain s4 where s4: "seq (save_link d l (m_curr_save_level s3)) (\<lambda>_. unlink_entry d l e) s3 = (Value (), s4)" "keeps s3 s4"
      "dict_at s4 = (dict_at s3)(d := (dict_at s3 d)\<lparr>d_buckets := (case l of Bucket i \<Rightarrow> (d_buckets (dict_at s3 d))[i := e_next (entry_at s3 e)] | After p \<Rightarrow> d_buckets (dict_at s3 d)),
        d_pool := e, d_length := d_length (dict_at s3 d) - 1\<rparr>)"
      "entry_at s4 = (case l of Bucket i \<Rightarrow> entry_at s3 | After p \<Rightarrow> (entry_at s3)(p := (entry_at s3 p)\<lparr>e_next := e_next (entry_at s3 e)\<rparr>))
        (e := (entry_at s3 e)\<lparr>e_next := d_pool (dict_at s3 d)\<rparr>)"
      "\<forall>c D E. undoable c s3 D E \<and> d \<in> D \<and> ?X \<subseteq> E \<longrightarrow> undoable c s4 D E" "no_cells s3 \<longrightarrow> no_cells s4" "name_at s4 = name_at s3"
    using unlink_ok [OF rdy3 lvl3 r3 eX elv pX len] by blast
  note k4 = keeps_trans [OF k3 s4(2)]
  have run: "seq (dict_save d) (\<lambda>_. undef_rest d l e) s = (Value (), s4)"
    using s4(1) unfolding d3(2) by (simp add: s1(1) s2(1) s3(1))
  have off: "entry_at s4 x = (if ys \<noteq> [] \<and> x = last ys then (entry_at s1 x)\<lparr>e_next := e_next (entry_at s1 e)\<rparr> else entry_at s1 x)" if "x \<noteq> e" for x
    using that s4(4) e3 l by (simp split: if_splits)
  have "dict_inv s4 names d ?chs (e # pool)" and map4: "dict_map s4 ?chs = (dict_map s1 chs)(key_at s1 e := None)"
    by (rule dict_remove [OF inv k4 i ch _ _ _ _ _ off]; use s4(3,4) h3 e3 l in simp)+
  moreover have "ready s4 d (set (concat ?chs @ e # pool))"
  proof (rule ready_keep [OF rdy3 s4(2)])
    show "m_object_save_level (e_key (entry_at s4 x)) = 0 \<and> m_object_save_level (e_value (entry_at s4 x)) = 0"
      if z: "m_curr_save_level s3 = 0" and x: "x \<in> set (concat ?chs @ e # pool)" for x
    proof -
      have "set (concat ?chs @ e # pool) \<subseteq> ?X"
        using ce unfolding concat_update [OF i] concat_split [OF i] ch by (auto simp del: set_concat)
      then show ?thesis using readyD(10) [OF rdy3 z, of x] x s4(4) readyD(10) [OF rdy3 z eX] pX readyD(10) [OF rdy3 z]
        by (auto simp del: set_concat split: link.splits)
    qed
  qed (use s4(3) in simp)
  ultimately have snd4: "sound s4 names d ?chs (e # pool)" by (simp add: sound_def)
  have X': "set (concat ?chs @ e # pool) = ?X" unfolding concat_update [OF i] concat_split [OF i] ch by (auto simp del: set_concat)
  have "advance d v s1 ?X s4 ?X"
    unfolding advance_def
  proof (intro conjI allI impI)
    show "undoable c s4 D (E \<union> ?X)" if u: "undoable c s1 D E \<and> d \<in> D \<and> ?X \<subseteq> E" for c D E
    proof -
      have "undoable c s3 D E"
        by (rule undoable_entry [of c s1 D E, OF _ k3 _ lvl, where Q = "both_current s1 e" and e = e and h = "dict_at s1 d"])
          (use u eX h3 e3 s2(6) s3(4) in auto)
      then have "undoable c s4 D E" using u s4(5) by blast
      then show ?thesis using u by (simp add: Un_absorb2)
    qed
    show "no_cells s4" if u: "\<not> uses_heap_cell v \<and> no_cells s1"
    proof -
      have g: "grown (UEntry e (entry_at s1 e)) s1 s3" using s2(6) s3(4) by (auto simp: grown_def present_intros)
      have "plain_entry (entry_at s3 y)" for y
        using no_cells_entries [of s1 y] u e3 by (auto simp: plain_entry_def null_at_def make_null_def make_object_def uses_cell_types)
      then have "no_cells s3" using no_cells_step [OF _ g d3(2)] u by blast
      then show ?thesis using s4(6) by blast
    qed
    show "entry_at s4 x = entry_at s1 x" if "x \<notin> ?X \<and> (x < m_vm_ptr s1 \<or> m_vm_temp_ptr s1 \<le> x)" for x
    proof -
      have "x \<noteq> e" "\<not> (ys \<noteq> [] \<and> x = last ys)" using that eX pX l by auto
      then show ?thesis using off [of x] by auto
    qed
  qed (use k4 s4(3) h3 in auto)
  then have adv: "advance d v s ?X s4 (set (concat ?chs @ e # pool))" unfolding X' by (rule advance_trans [OF s1(4)])
  moreover have "undisturbed s chs (key_at s e) s4 ?chs"
    unfolding undisturbed_def
  proof (intro ballI impI)
    fix x assume x: "x \<in> set (concat chs)" "key_at s x \<noteq> key_at s e"
    then have ne: "x \<noteq> e" by blast
    then have "x \<in> set (concat ?chs)" using x(1) unfolding concat_update [OF i] concat_split [OF i] ch by (auto simp del: set_concat)
    then show "x \<in> set (concat ?chs) \<and> e_key (entry_at s4 x) = e_key (entry_at s x) \<and> e_value (entry_at s4 x) = e_value (entry_at s x)"
      using off [OF ne] s1(6) by simp
  qed
  moreover have "set (concat ?chs) = set (concat chs) - {e}"
    using dict_invD(5) [OF inv] unfolding concat_update [OF i] concat_split [OF i] ch by (auto simp del: set_concat)
  moreover have "name_at s4 = unbound (e_key (entry_at s e)) (name_at s)" using s4(7) s3(7) s2(7) s1(10) s2(4) s1(6) by simp
  moreover have "key_at s1 e = key_at s e"
    using keeps_key(2) [OF k1] dict_inv_entry [of s names d chs pool e] snd ce s1(6) by (simp add: sound_def)
  ultimately show ?thesis using run snd4 map4 s1(3) adv by (intro exI [of _ s4]) simp
qed

lemma undef_ok:
  assumes snd: "sound s names d chs pool" and key: "plain_key s names k" and room: "room s (undef_need s d)"
    and loops: "\<forall>ob\<in>set (s_objs (m_exec s)). \<not> operator_is_dictforall ob"
    and rel: "\<forall>e\<in>set (concat chs). key_at s e = key_of s k \<longrightarrow> releasable s (e_value (entry_at s e))"
  shows "\<exists>s' chs' pool'. undef d k s = (Value (), s') \<and> sound s' names d chs' pool' \<and>
    advance d v s (set (concat chs @ pool)) s' (set (concat chs' @ pool')) \<and> dict_map s' chs' = (dict_map s chs)(key_of s k := None) \<and>
    undisturbed s chs (key_of s k) s' chs' \<and> set (concat chs') = {x \<in> set (concat chs). key_at s x \<noteq> key_of s k} \<and>
    (name_at s' = name_at s \<and> (\<forall>e\<in>set (concat chs). key_at s e \<noteq> key_of s k) \<or>
     (\<exists>e\<in>set (concat chs). key_at s e = key_of s k \<and> name_at s' = unbound (e_key (entry_at s e)) (name_at s)))"
proof -
  have old: "releasable s (e_value (entry_at s e))" if "e \<in> set (concat chs)" "key_at s e = key_of s k" for e using rel that by blast
  let ?P = "\<lambda>x. key_at s x = key_of s k" and ?i = "dict_home s d (key_of s k)"
  have inv: "dict_inv s names d chs pool" using snd by (simp add: sound_def)
  obtain l e where le: "chain_link ?P (Bucket ?i) (chs ! ?i) = (l, e)" by force
  have find: "find_entry d k s = (Value (?i, l, e), s)" using find_entry_ok [OF inv key] le by simp
  have ty: "o_type k \<noteq> TNull" using key by (simp add: plain_key_def)
  show ?thesis
  proof (cases "dict_map s chs (key_of s k) = None")
    case True
    then have "e = nulloffset" using find_key(1) [OF inv True, of "Bucket ?i"] le by simp
    then have "undef d k s = (Value (), s)" using find ty by (simp add: undef_def)
    moreover have "advance d v s (set (concat chs @ pool)) s (set (concat chs @ pool))" by (auto simp: advance_def Un_absorb2)
    moreover have "undisturbed s chs (key_of s k) s chs" by (rule undisturbed_same) simp
    moreover have "set (concat chs) = {x \<in> set (concat chs). key_at s x \<noteq> key_of s k}"
      using True by (auto simp: dict_map_def find_None_iff simp del: set_concat)
    moreover have "\<forall>e\<in>set (concat chs). key_at s e \<noteq> key_of s k" using True by (auto simp: dict_map_def find_None_iff simp del: set_concat)
    ultimately show ?thesis using snd True by (intro exI [of _ s] exI [of _ chs] exI [of _ pool]) (simp add: fun_upd_idem del: set_concat)
  next
    case False
    have e: "e \<in> set (concat chs)" "?P e" "e \<noteq> nulloffset" using find_key(2) [OF inv False, of "Bucket ?i"] le by auto
    then have "find ?P (concat chs) = Some e" using inj_onD [OF dict_invD(8) [OF inv]] by (intro find_unique) auto
    then have "find ?P (chs ! ?i) = Some e" using dict_find_home [OF inv, of "key_of s k"] by simp
    then obtain ys zs where ch: "chs ! ?i = ys @ e # zs" "l = (if ys = [] then Bucket ?i else After (last ys))"
      using chain_link_split [of ?P "chs ! ?i" e "Bucket ?i"] le by auto
    obtain s' where x: "seq (dict_save d) (\<lambda>_. undef_rest d l e) s = (Value (), s')" "sound s' names d (chs[?i := ys @ zs]) (e # pool)"
      "dict_map s' (chs[?i := ys @ zs]) = (dict_map s chs)(key_at s e := None)" "advance d v s (set (concat chs @ pool)) s' (set (concat (chs[?i := ys @ zs]) @ e # pool))"
      "undisturbed s chs (key_at s e) s' (chs[?i := ys @ zs])" "set (concat (chs[?i := ys @ zs])) = set (concat chs) - {e}" "name_at s' = unbound (e_key (entry_at s e)) (name_at s)"
      using undef_present [OF snd dict_home_less [OF inv] ch(1) room old [OF e(1,2)] ch(2), of v] by blast
    have "undef d k s = (Value (), s')" using find ty e(3) forall_none_ok [OF loops] x(1) by (simp add: undef_def)
    moreover have "set (concat chs) - {e} = {x \<in> set (concat chs). key_at s x \<noteq> key_of s k}"
      using e(1,2) inj_onD [OF dict_invD(8) [OF inv]] by (auto simp del: set_concat)
    moreover have "\<exists>e\<in>set (concat chs). key_at s e = key_of s k \<and> name_at s' = unbound (e_key (entry_at s e)) (name_at s)" using e(1,2) x(7) by blast
    ultimately show ?thesis using x(2-6) e(2) by (intro exI [of _ s'] exI [of _ "chs[?i := ys @ zs]"] exI [of _ "e # pool"]) (simp del: set_concat)
  qed
qed

end
