(* ===== verification/Dict_Theorems.thy ===== *)
theory Dict_Theorems
  imports Dict_Remove
begin

text \<open>
  What dictionaries promise: lookup, insertion and removal are those of a map, a sequence of updates at a save level is
  undone by replaying the journal of the level, and what the unjournalled insertion does to a dictionary that is full.
\<close>

section \<open>An example\<close>

definition number :: "nat \<Rightarrow> int \<Rightarrow> object" where
  "number level n = (make_object TInteger 0)\<lparr>m_immediate := n, m_object_save_level := level\<rparr>"

text \<open>
  A machine at save level 1 whose barrier is 512, with a dictionary at offset 64 of one bucket and two entries: 7 is mapped to 1, and the other entry
  is free.
\<close>

definition dict_example :: dict_machine where
  "dict_example = (key_machine.extend key_example (dict_machine.fields
     (\<lambda>_. \<lparr>d_pool = 104, d_length = 1, d_maxlength = 2, d_access = ReadWriteAccess OR DynamicFlag, d_save_level = 0, d_buckets = [84]\<rparr>)
     ((\<lambda>_. \<lparr>e_next = 0, e_key = null_at 0, e_value = null_at 0\<rparr>)(84 := \<lparr>e_next = 0, e_key = number 0 7, e_value = number 0 1\<rparr>))
     (\<lambda>_. 512) (\<lambda>_. []) 900 904 908 912 916 920 924 928 0 False [] 8))\<lparr>m_curr_save_level := 1\<rparr>"

definition svc_example :: dict_services where
  "svc_example = \<lparr>ds_gc = Value, ds_reaches_global = (\<lambda>_ _. False)\<rparr>"

lemma dict_example_fields [simp]:
  "m_vm_ptr dict_example = 512" "m_vm_temp_ptr dict_example = 1024" "m_vm_global dict_example = 1024" "m_vm_limit dict_example = 1024"
  "m_curr_save_level dict_example = 1" "m_exec dict_example = empty_stack 8"
  "dict_at dict_example = (\<lambda>_. \<lparr>d_pool = 104, d_length = 1, d_maxlength = 2, d_access = ReadWriteAccess OR DynamicFlag, d_save_level = 0, d_buckets = [84]\<rparr>)"
  "entry_at dict_example = (\<lambda>_. \<lparr>e_next = 0, e_key = null_at 0, e_value = null_at 0\<rparr>)(84 := \<lparr>e_next = 0, e_key = number 0 7, e_value = number 0 1\<rparr>)"
  "m_barrier dict_example = (\<lambda>_. 512)" "m_journal dict_example = (\<lambda>_. [])" "m_eqdict dict_example = 924" "m_eqset dict_example = 928"
  "m_gc_roots dict_example = []" "gc_root_slots dict_example = 8"
  by (simp_all add: dict_example_def key_example_def trix.defs key_machine.defs dict_machine.defs small_machine_def)

lemma number_key [simp]: "plain_key s names (number l n)" "key_of s (number l n) = KImm TInteger n" "\<not> uses_heap_cell (number l n)"
  by (simp_all add: number_def plain_key_def key_ok_def key_of_def make_object_def uses_cell_types is_eqstring_ref_def)

lemma number_level [simp]: "(number l n)\<lparr>m_object_save_level := l'\<rparr> = number l' n" "m_object_save_level (number l n) = l" "m_length (number l n) = 0" "\<not> is_unset_local (number l n)"
  by (simp_all add: number_def make_object_def is_unset_local_def)

lemma dict_example_sound: "sound dict_example {} 64 [[84]] [104]"
proof -
  have "dict_inv dict_example {} 64 [[84]] [104]"
    by (simp add: dict_inv_def bucket_count_is_valid_def dict_bucket_counts_def nulloffset_def dict_home_def interned_def max_length_def)
  moreover have "ready dict_example 64 {84, 104}"
    by (simp add: ready_def is_global_def offset_to_ptr_def nulloffset_def)
  ultimately show ?thesis by (simp add: sound_def)
qed

lemma dict_example_map [simp]: "dict_map dict_example [[84]] = [KImm TInteger 7 \<mapsto> number 0 1]"
  by (auto simp: dict_map_def fun_eq_iff)

lemma dict_example_room: "room dict_example (put_need dict_example 64 (number 0 n))" "room dict_example (undef_need dict_example 64)"
  by (simp_all add: room_def put_need_def undef_need_def dict_size_def)

lemma releasable_number: "releasable s (number l n)"
  by (simp add: releasable_def)

section \<open>Dictionaries as maps\<close>

text \<open>Dictionaries whose entries are apart keep their invariant and their map.\<close>

definition others_kept :: "dict_machine \<Rightarrow> nat set \<Rightarrow> nat \<Rightarrow> nat set \<Rightarrow> dict_machine \<Rightarrow> bool" where
  "others_kept s names d X s' \<longleftrightarrow>
     (\<forall>d2 chs pool. d2 \<noteq> d \<and> dict_inv s names d2 chs pool \<and> set (concat chs @ pool) \<inter> X = {} \<longrightarrow>
        dict_inv s' names d2 chs pool \<and> dict_map s' chs = dict_map s chs)"

lemma advance_others_kept: "advance d v s X s' X' \<Longrightarrow> others_kept s names d X s'"
  unfolding others_kept_def by (intro allI impI conjI) (elim conjE, rule advance_other; assumption)+

text \<open>Creation.\<close>

lemma bit_width_bound: "n < 2 ^ 16 \<Longrightarrow> bit_width n \<le> 16"
proof (rule ccontr)
  let ?ks = "takeWhile (\<lambda>k. 2 ^ k \<le> n) [0..<33]"
  assume n: "n < 2 ^ 16" and "\<not> bit_width n \<le> 16"
  then have l: "16 < length ?ks" by (simp add: bit_width_def)
  have "?ks ! 16 \<in> set ?ks" using l by (rule nth_mem)
  moreover have "?ks ! 16 = 16" using takeWhile_nth [OF l] by simp
  ultimately show False using set_takeWhileD [of "16 :: nat" "\<lambda>k. 2 ^ k \<le> n" "[0..<33]"] n by simp
qed

lemma bucket_count_valid: "n \<le> max_length \<Longrightarrow> bucket_count_is_valid (bucket_count_for_capacity n)"
  using bit_width_bound [of n] unfolding bucket_count_is_valid_def bucket_count_for_capacity_def
  by (auto simp: max_length_def dict_bucket_counts_def intro!: disjI2 nth_mem simp del: list.set)

definition dict_capacity :: "u8 \<Rightarrow> nat \<Rightarrow> nat" where
  "dict_capacity access n = (if access = ReadWriteAccess OR DynamicFlag \<and> n = 0 then MinDynamicDictCapacity else n)"

lemma create_dict_run:
  assumes room: "room s (dict_size (bucket_count_for_capacity m) + 20 * m + 4)" and m: "m = dict_capacity access n"
  shows "\<exists>s' d acc. create_dict n access s = (Value d, s') \<and> keeps s s' \<and> m_vm_ptr s \<le> d \<and> d + dict_size (bucket_count_for_capacity m) + 20 * m \<le> m_vm_ptr s' \<and>
    m_vm_ptr s' \<le> m_vm_temp_ptr s \<and>
    dict_at s' d = \<lparr>d_pool = (if m = 0 then nulloffset else d + dict_size (bucket_count_for_capacity m)), d_length = 0, d_maxlength = m, d_access = acc,
      d_save_level = m_curr_save_level s, d_buckets = replicate (bucket_count_for_capacity m) nulloffset\<rparr> \<and>
    (\<forall>i<m. entry_at s' (d + dict_size (bucket_count_for_capacity m) + 20 * i) = pool_entry (m_curr_save_level s) (d + dict_size (bucket_count_for_capacity m)) m i)"
proof -
  let ?nb = "bucket_count_for_capacity m" and ?b = "align_up 4 (m_vm_ptr s)"
  have "room s (dict_size ?nb + 20 * m + 4)" using room .
  note al = local_alloc_ok [OF this, simplified]
  let ?s1 = "s\<lparr>m_vm_ptr := ?b + (dict_size ?nb + 20 * m)\<rparr>"
  let ?acc = "if access = 0 \<and> \<not> m_curr_alloc_global s then NoGlobalRefs else access"
  let ?s2 = "upd_dict ?b (\<lambda>_. \<lparr>d_pool = nulloffset, d_length = 0, d_maxlength = m, d_access = ?acc, d_save_level = m_curr_save_level s, d_buckets = replicate ?nb nulloffset\<rparr>) ?s1"
  let ?s' = "if m \<noteq> 0 then init_dict_pool ?b m (?b + dict_size ?nb) ?s2 else ?s2"
  have "create_dict n access s = (Value ?b, ?s')"
    unfolding create_dict_def dict_capacity_def [symmetric] m [symmetric] Let_def using al(1) by (simp split del: if_split cong: if_cong)
  moreover have "keeps s ?s'"
  proof -
    have "?b + (dict_size ?nb + 20 * m) \<le> m_vm_temp_ptr s" using al(3) room by (simp add: room_def)
    then show ?thesis using al(2) by (cases "m = 0") (simp_all add: keeps_def upd_dict_def init_dict_pool_def)
  qed
  moreover have "m_vm_ptr ?s' = ?b + (dict_size ?nb + 20 * m)" by (simp add: upd_dict_def init_dict_pool_def)
  moreover have "dict_at ?s' ?b = \<lparr>d_pool = (if m = 0 then nulloffset else ?b + dict_size ?nb), d_length = 0, d_maxlength = m, d_access = ?acc,
      d_save_level = m_curr_save_level s, d_buckets = replicate ?nb nulloffset\<rparr>"
    by (simp add: upd_dict_def init_dict_pool_def)
  moreover have "entry_at ?s' (?b + dict_size ?nb + 20 * i) = pool_entry (m_curr_save_level s) (?b + dict_size ?nb) m i" if "i < m" for i
    using fold_entries(1) [OF that, of "?b + dict_size ?nb"] that by (simp add: upd_dict_def init_dict_pool_def)
  ultimately show ?thesis using al(2,3) room by (intro exI [of _ ?s'] exI [of _ ?b] exI [of _ ?acc]) (simp add: room_def)
qed

text \<open>
  A dictionary that is created is in order and its map is empty, and a dynamic dictionary created with no capacity gets one; the allocation is all that changes.
\<close>

theorem create_dict_empty:
  assumes m: "m = dict_capacity access n" "m \<le> max_length" and room: "room s (dict_size (bucket_count_for_capacity m) + 20 * m + 4)"
    and heap: "0 < m_vm_ptr s" "m_vm_temp_ptr s \<le> m_vm_limit s" and names: "interned s names"
  shows "\<exists>d s' pool. create_dict n access s = (Value d, s') \<and> keeps s s' \<and> m_vm_ptr s \<le> d \<and> d_maxlength (dict_at s' d) = m \<and>
    dict_inv s' names d (replicate (bucket_count_for_capacity m) []) pool \<and> dict_map s' (replicate (bucket_count_for_capacity m) []) = Map.empty"
proof -
  let ?nb = "bucket_count_for_capacity m"
  obtain s' d acc where x: "create_dict n access s = (Value d, s')" "keeps s s'" "m_vm_ptr s \<le> d" "d + dict_size ?nb + 20 * m \<le> m_vm_ptr s'"
      "m_vm_ptr s' \<le> m_vm_temp_ptr s"
      "dict_at s' d = \<lparr>d_pool = (if m = 0 then nulloffset else d + dict_size ?nb), d_length = 0, d_maxlength = m, d_access = acc,
        d_save_level = m_curr_save_level s, d_buckets = replicate ?nb nulloffset\<rparr>"
      "\<forall>i<m. entry_at s' (d + dict_size ?nb + 20 * i) = pool_entry (m_curr_save_level s) (d + dict_size ?nb) m i"
    using create_dict_run [OF room m(1)] by blast
  let ?pool = "map (\<lambda>i. d + dict_size ?nb + 20 * i) [0..<m]"
  have "d + dict_size ?nb + 20 * m \<le> m_vm_limit s'" using x(4,5) heap(2) keepsD(1) [OF x(2)] by simp
  then have chain: "entry_chain s' (d_pool (dict_at s' d)) ?pool"
    using pool_chain [of m s' "d + dict_size ?nb" "m_curr_save_level s" 0] x(3,6,7) heap(1) by (cases "m = 0") simp_all
  have empty: "concat (replicate k []) = ([] :: nat list)" for k by (induction k) auto
  have "distinct ?pool" by (simp add: distinct_map inj_on_def)
  moreover have "interned s' names" using names keeps_interned [OF x(2)] by simp
  moreover have "e + 20 \<le> m_vm_ptr s'" if "e \<in> set ?pool" for e using that x(4) by auto
  ultimately have "dict_inv s' names d (replicate ?nb []) ?pool"
    using chain bucket_count_valid [OF m(2)] m(2) x(6) unfolding dict_inv_def empty by simp
  then show ?thesis using x(1-3,6) empty by (intro exI [of _ d] exI [of _ s'] exI [of _ ?pool]) (simp add: dict_map_def fun_eq_iff)
qed

theorem create_dict_empty_witness:
  "\<exists>d s' pool. create_dict 0 (ReadWriteAccess OR DynamicFlag) dict_example = (Value d, s') \<and> d_maxlength (dict_at s' d) = 4 \<and>
     dict_inv s' {} d (replicate 5 []) pool \<and> dict_map s' (replicate 5 []) = Map.empty"
proof -
  have "bit_width 4 = 3" by (simp add: bit_width_def upt_conv_Cons)
  then have "bucket_count_for_capacity 4 = 5" by (simp add: bucket_count_for_capacity_def dict_bucket_counts_def numeral_3_eq_3)
  then show ?thesis
    using create_dict_empty [of 4 "ReadWriteAccess OR DynamicFlag" 0 dict_example "{}"]
    by (simp add: dict_capacity_def MinDynamicDictCapacity_def max_length_def room_def dict_size_def interned_def) blast
qed

text \<open>
  C27. Lookup of a key in a dictionary that is in order reads the map: it returns the value of the key, unless the key is absent or its slot is
  an unset local, and changes nothing.
\<close>

theorem dict_get_reads_map:
  assumes "sound s names d chs pool" "plain_key s names k"
  shows "dict_get d k s = (Value (case dict_map s chs (key_of s k) of Some v \<Rightarrow> if is_unset_local v then None else Some v | None \<Rightarrow> None), s)"
  by (rule dict_get_ok [of s names d chs pool k, OF _ assms(2)]) (use assms(1) in \<open>simp add: sound_def\<close>)

theorem dict_get_reads_map_witness:
  "dict_get 64 (number 5 7) dict_example = (Value (Some (number 0 1)), dict_example) \<and> dict_get 64 (number 5 8) dict_example = (Value None, dict_example)"
  using dict_get_reads_map [OF dict_example_sound, of "number 5 7"] dict_get_reads_map [OF dict_example_sound, of "number 5 8"]
  by simp

text \<open>
  C2. Insertion into a local dictionary updates its map at the key and nowhere else, keeps the dictionary in order, and leaves every other dictionary
  with disjoint entries as it was. It fails, with \<open>DictFull\<close> and no change to the map, exactly when the key is new, the dictionary is full and it is not
  dynamic or cannot grow.
\<close>

theorem put_updates_map:
  assumes "sound s names d chs pool" "plain_key s names k" "room s (put_need s d k)"
    and "\<forall>e\<in>set (concat chs). key_at s e = key_of s k \<longrightarrow> releasable s (e_value (entry_at s e))"
  shows "\<exists>r s' chs' pool'. put svc d k v mode s = (r, s') \<and> sound s' names d chs' pool' \<and>
    (if dict_map s chs (key_of s k) = None \<and> d_length (dict_at s d) = d_maxlength (dict_at s d) \<and> \<not> growable (dict_at s d)
     then r = Raise DictFull \<and> dict_map s' chs' = dict_map s chs
     else (\<exists>e. r = Value e) \<and> dict_map s' chs' = (dict_map s chs)(key_of s k \<mapsto> v\<lparr>m_object_save_level := m_curr_save_level s\<rparr>)) \<and>
    others_kept s names d (set (concat chs @ pool)) s'"
  using put_ok [OF assms, of svc v mode]
  by (elim exE conjE) (intro exI conjI; (assumption | rule advance_others_kept, assumption | (auto split: if_splits)[1]))

theorem put_updates_map_witness:
  "\<exists>e s' chs' pool'. put svc_example 64 (number 0 8) (number 0 2) NoBinding dict_example = (Value e, s') \<and> sound s' {} 64 chs' pool' \<and>
     dict_map s' chs' = [KImm TInteger 7 \<mapsto> number 0 1, KImm TInteger 8 \<mapsto> number 1 2]"
proof -
  have "\<forall>e\<in>set (concat [[84]]). key_at dict_example e = key_of dict_example (number 0 8) \<longrightarrow> releasable dict_example (e_value (entry_at dict_example e))"
    by simp
  from put_updates_map [OF dict_example_sound number_key(1) dict_example_room(1) this, of svc_example "number 0 2" NoBinding]
  show ?thesis by (auto simp: growable_def)
qed

text \<open>
  C26. Removal from a local dictionary that no loop is traversing takes the key out of its map, keeps the dictionary in order, and leaves every other
  dictionary with disjoint entries as it was. A key that is absent is left absent.
\<close>

theorem undef_removes_key:
  assumes "sound s names d chs pool" "plain_key s names k" "room s (undef_need s d)" "\<forall>ob\<in>set (s_objs (m_exec s)). \<not> operator_is_dictforall ob"
    and "\<forall>e\<in>set (concat chs). key_at s e = key_of s k \<longrightarrow> releasable s (e_value (entry_at s e))"
  shows "\<exists>s' chs' pool'. undef d k s = (Value (), s') \<and> sound s' names d chs' pool' \<and> dict_map s' chs' = (dict_map s chs)(key_of s k := None) \<and>
    others_kept s names d (set (concat chs @ pool)) s'"
  using undef_ok [OF assms, of make_null] by (elim exE conjE) (intro exI conjI; (assumption | rule advance_others_kept))

theorem undef_removes_key_witness:
  "\<exists>s' chs' pool'. undef 64 (number 0 7) dict_example = (Value (), s') \<and> sound s' {} 64 chs' pool' \<and> dict_map s' chs' = Map.empty"
proof -
  have "\<forall>e\<in>set (concat [[84]]). key_at dict_example e = key_of dict_example (number 0 7) \<longrightarrow> releasable dict_example (e_value (entry_at dict_example e))"
    using releasable_number by simp
  from undef_removes_key [OF dict_example_sound number_key(1) dict_example_room(2) _ this]
  show ?thesis by (auto simp: empty_stack_def fun_eq_iff)
qed

section \<open>Rolling back\<close>

text \<open>The states that insertions and removals lead to, with the chains of the dictionary; values that own cells are left out.\<close>

inductive session :: "dict_services \<Rightarrow> nat set \<Rightarrow> nat \<Rightarrow> dict_machine \<Rightarrow> dict_machine \<Rightarrow> nat list list \<Rightarrow> nat list \<Rightarrow> bool"
  for svc names d s0 where
  start: "sound s0 names d chs pool \<Longrightarrow> session svc names d s0 s0 chs pool"
| insertion: "session svc names d s0 s chs pool \<Longrightarrow> plain_key s names k \<Longrightarrow> \<not> uses_heap_cell v \<Longrightarrow> room s (put_need s d k) \<Longrightarrow>
    put svc d k v mode s = (r, s') \<Longrightarrow> sound s' names d chs' pool' \<Longrightarrow> session svc names d s0 s' chs' pool'"
| removal: "session svc names d s0 s chs pool \<Longrightarrow> plain_key s names k \<Longrightarrow> room s (undef_need s d) \<Longrightarrow>
    \<forall>ob\<in>set (s_objs (m_exec s)). \<not> operator_is_dictforall ob \<Longrightarrow>
    undef d k s = (r, s') \<Longrightarrow> sound s' names d chs' pool' \<Longrightarrow> session svc names d s0 s' chs' pool'"

inductive_cases session_cases: "session svc names d s0 s chs pool"

lemma session_sound: "session svc names d s0 s chs pool \<Longrightarrow> sound s names d chs pool"
  by (auto elim: session_cases)

text \<open>The chains are determined by the state.\<close>

lemma entry_chain_unique: "entry_chain s off xs \<Longrightarrow> entry_chain s off ys \<Longrightarrow> xs = ys"
proof (induction xs arbitrary: off ys)
  case Nil
  then show ?case by (cases ys) auto
next
  case (Cons x xs)
  then show ?case by (cases ys) auto
qed

lemma sound_unique:
  assumes "sound s names d chs pool" "sound s names d chs' pool'"
  shows "chs' = chs" "pool' = pool"
proof -
  have inv: "dict_inv s names d chs pool" "dict_inv s names d chs' pool'" using assms by (simp_all add: sound_def)
  show "pool' = pool" using entry_chain_unique dict_invD(4) [OF inv(1)] dict_invD(4) [OF inv(2)] by blast
  show "chs' = chs"
  proof (rule nth_equalityI)
    show len: "length chs' = length chs" using dict_invD(2) [OF inv(1)] dict_invD(2) [OF inv(2)] by simp
    show "chs' ! i = chs ! i" if "i < length chs'" for i
      using entry_chain_unique dict_invD(3) [OF inv(1), of i] dict_invD(3) [OF inv(2) that] that len by auto
  qed
qed

lemma plain_releasable: "no_cells s \<Longrightarrow> releasable s (e_value (entry_at s e))"
  using no_cells_entries [of s e] by (simp add: releasable_def plain_entry_def)

text \<open>A session is undone by the journal.\<close>

definition undone_by :: "dict_machine \<Rightarrow> nat \<Rightarrow> dict_machine \<Rightarrow> nat set \<Rightarrow> bool" where
  "undone_by s0 d s X \<longleftrightarrow> keeps s0 s \<and> no_cells s \<and> undoable (contents_of s0) s {d} X"

lemma undone_step:
  assumes "undone_by s0 d s X" "advance d v s X s' X'" "\<not> uses_heap_cell v"
  shows "undone_by s0 d s' X'"
proof -
  note u = assms(1) [unfolded undone_by_def]
  have "undoable (contents_of s0) s' {d} X'" using undoable_mono [OF advanceD(5) [OF assms(2), of "contents_of s0" "{d}" X]] u by blast
  then show ?thesis
    using u keeps_trans [OF _ advanceD(1) [OF assms(2)]] advanceD(6) [OF assms(2,3)] unfolding undone_by_def by blast
qed

lemma session_undone:
  assumes "session svc names d s0 s chs pool" and start: "\<And>chs0 pool0. sound s0 names d chs0 pool0 \<Longrightarrow> undone_by s0 d s0 (set (concat chs0 @ pool0))"
  shows "undone_by s0 d s (set (concat chs @ pool))"
  using assms(1)
proof (induction rule: session.induct)
  case (start chs pool)
  then show ?case using assms(2) by blast
next
  case (insertion s chs pool k v mode r s' chs' pool')
  have nc: "no_cells s" using insertion.IH by (simp add: undone_by_def)
  obtain r2 s2 c2 p2 where x: "put svc d k v mode s = (r2, s2)" "sound s2 names d c2 p2" "advance d v s (set (concat chs @ pool)) s2 (set (concat c2 @ p2))"
    using put_ok [OF session_sound [OF insertion.hyps(1)] insertion.hyps(2,4) _, of svc v mode] plain_releasable [OF nc] by blast
  then show ?case using insertion.hyps(3,5,6) undone_step [OF insertion.IH x(3)] sound_unique [of s' names d chs' pool' c2 p2] by simp
next
  case (removal s chs pool k r s' chs' pool')
  have nc: "no_cells s" using removal.IH by (simp add: undone_by_def)
  obtain s2 c2 p2 where x: "undef d k s = (Value (), s2)" "sound s2 names d c2 p2" "advance d make_null s (set (concat chs @ pool)) s2 (set (concat c2 @ p2))"
    using undef_ok [OF session_sound [OF removal.hyps(1)] removal.hyps(2-4) _, of make_null] plain_releasable [OF nc] by blast
  have "\<not> uses_heap_cell make_null" by (simp add: make_null_def make_object_def uses_cell_types)
  then show ?case using removal.hyps(5,6) undone_step [OF removal.IH x(3)] sound_unique [of s' names d chs' pool' c2 p2] x by simp
qed

text \<open>
  C4. Restoring undoes what a save level did to a dictionary: after any sequence of insertions and removals, including those that raised and those that made
  the dictionary grow, replaying the journal of the level gives the dictionary that was there when the level was opened.
\<close>

theorem session_rolls_back:
  assumes ses: "session svc names d s0 s chs pool" and start: "sound s0 names d chs0 pool0"
    and fresh: "level_journal s0 = []" "d_save_level (dict_at s0 d) \<noteq> m_curr_save_level s0"
      "\<forall>e\<in>set (concat chs0 @ pool0). e < level_barrier s0 \<and> m_object_save_level (e_value (entry_at s0 e)) \<noteq> m_curr_save_level s0"
    and low: "d < level_barrier s0" "level_barrier s0 \<le> m_vm_ptr s0" "level_barrier s0 \<le> m_vm_global s0" and cells: "no_cells s0"
  shows "\<exists>s'. replay_journal (level_journal s) s = (Value (), s') \<and> dict_inv s' names d chs0 pool0 \<and> dict_map s' chs0 = dict_map s0 chs0"
proof -
  have inv: "dict_inv s0 names d chs0 pool0" using start by (simp add: sound_def)
  have "undoable (contents_of s0) s0 {d} (set (concat chs0 @ pool0))"
    by (rule undoable_open) (use fresh low in \<open>auto simp del: set_concat\<close>)
  then have "undone_by s0 d s0 (set (concat c @ p))" if "sound s0 names d c p" for c p
    using sound_unique [OF start that] cells by (simp add: undone_by_def del: set_concat)
  from session_undone [OF ses this] have u: "keeps s0 s" "no_cells s" "undoable (contents_of s0) s {d} (set (concat chs @ pool))"
    by (simp_all add: undone_by_def)
  let ?p = "undo_all (level_journal s) (contents_of s)"
  let ?s = "s\<lparr>dict_at := fst ?p, entry_at := snd ?p\<rparr>"
  have run: "replay_journal (level_journal s) s = (Value (), ?s)"
    by (rule replay_journal_ok) (use u(2) in \<open>auto simp: no_cells_def\<close>)
  have lv: "level_barrier s = level_barrier s0" using keepsD(5,6) [OF u(1)] by simp
  have same: "dict_at ?s x = dict_at s0 x" "entry_at ?s x = entry_at s0 x" if "x < level_barrier s0" for x
    using undoableD(1) [OF u(3)] that unfolding lv by (simp_all add: agree_def)
  have k: "keeps s0 ?s" using u(1) by (simp add: keeps_def)
  have e: "entry_at ?s x = entry_at s0 x" if "x \<in> set (concat chs0 @ pool0)" for x using same(2) fresh(3) that by blast
  note keep = dict_inv_keep [OF inv k]
  have inv': "dict_inv ?s names d chs0 pool0" by (rule keep(1)) (use same(1) [OF low(1)] e in \<open>simp_all del: set_concat dict_machine.simps\<close>)
  have "dict_map ?s chs0 = dict_map s0 chs0"
  proof (rule same_map [OF inv inv'])
    show "key_at ?s x = key_at s0 x" if "x \<in> set (concat chs0)" for x
      by (rule keep(2)) (use same(1) [OF low(1)] e that in \<open>simp_all del: set_concat dict_machine.simps\<close>)
    show "entry_at ?s x = entry_at s0 x" if "x \<in> set (concat chs0)" for x using e that by (simp del: dict_machine.simps)
  qed
  then show ?thesis using run inv' by blast
qed

theorem session_rolls_back_witness:
  "\<exists>s s' chs pool. session svc_example {} 64 dict_example s chs pool \<and> dict_map s chs = [KImm TInteger 7 \<mapsto> number 0 1, KImm TInteger 8 \<mapsto> number 1 2] \<and>
     replay_journal (level_journal s) s = (Value (), s') \<and> dict_map s' [[84]] = [KImm TInteger 7 \<mapsto> number 0 1]"
proof -
  have "\<not> uses_heap_cell (null_at l)" for l by (simp add: null_at_def make_null_def make_object_def uses_cell_types)
  then have nc: "no_cells dict_example" by (simp add: no_cells_def plain_entry_def)
  have lv: "m_object_save_level (null_at l) = l" for l by (simp add: null_at_def)
  obtain r s chs pool where x: "put svc_example 64 (number 0 8) (number 0 2) NoBinding dict_example = (r, s)" "sound s {} 64 chs pool"
      "dict_map s chs = [KImm TInteger 7 \<mapsto> number 0 1, KImm TInteger 8 \<mapsto> number 1 2]"
    using put_ok [OF dict_example_sound number_key(1) dict_example_room(1) _, of 8 svc_example "number 0 2" NoBinding] plain_releasable [OF nc]
    by (auto simp: growable_def)
  have ses: "session svc_example {} 64 dict_example s chs pool"
    using session.insertion [OF session.start [OF dict_example_sound] number_key(1,3) dict_example_room(1) x(1,2)] .
  then show ?thesis using session_rolls_back [OF ses dict_example_sound] x(3) nc lv by auto
qed

section \<open>A dictionary filled past its capacity\<close>

lemma lift_trix_frame: "lift_trix m s = (r, s') \<Longrightarrow> dict_at s' = dict_at s \<and> m_journal s' = m_journal s"
  by (cases s) (auto simp: lift_trix_def trix.defs split: prod.splits)

lemma seq_inv: "seq m f s = (Value y, s') \<Longrightarrow> \<exists>x s1. m s = (Value x, s1) \<and> f x s1 = (Value y, s')"
  by (auto simp: seq_def split: prod.splits outcome.splits)

text \<open>Actions that leave the headers and the journals alone when they succeed.\<close>

definition headers_kept :: "(dict_machine, 'b) action \<Rightarrow> bool" where
  "headers_kept m \<longleftrightarrow> (\<forall>s x s'. m s = (Value x, s') \<longrightarrow> dict_at s' = dict_at s \<and> m_journal s' = m_journal s)"

lemma headers_kept_intros:
  "headers_kept (lift_trix m)" "headers_kept (ret x)" "headers_kept (lift_outcome g)" "(\<And>s. dict_at (f s) = dict_at s \<and> m_journal (f s) = m_journal s) \<Longrightarrow> headers_kept (modify f)"
  "headers_kept m1 \<Longrightarrow> (\<And>x. headers_kept (f1 x)) \<Longrightarrow> headers_kept (seq m1 f1)"
proof -
  show "headers_kept (lift_trix m)" using lift_trix_frame by (auto simp: headers_kept_def)
  show "headers_kept (lift_outcome g)" by (auto simp: headers_kept_def lift_outcome_def split: outcome.splits)
  show "headers_kept m1 \<Longrightarrow> (\<And>x. headers_kept (f1 x)) \<Longrightarrow> headers_kept (seq m1 f1)"
    unfolding headers_kept_def by (metis seq_inv)
qed (simp_all add: headers_kept_def)

lemma headers_kept_run:
  assumes "seq m1 f1 s = (Value y, s')" "headers_kept m1" "\<And>x s1. f1 x s1 = (Value y, s') \<Longrightarrow> dict_at s1 = dict_at s \<Longrightarrow> m_journal s1 = m_journal s \<Longrightarrow> P"
  shows P
  using seq_inv [OF assms(1)] assms(2,3) unfolding headers_kept_def by blast

lemma headers_kept_parts:
  "headers_kept (clone_into_global svc g ob)" "headers_kept (copy_string_key_into_region svc ob True)" "headers_kept (require_gc_root_capacity_more n)"
  "headers_kept (gc_root_push ob)" "headers_kept (gc_root_pop_n n)" "headers_kept (global_alloc svc n kind)" "headers_kept (sv_value ob)"
proof -
  have gets: "headers_kept (gets g)" for g :: "dict_machine \<Rightarrow> 'b" by (simp add: headers_kept_def)
  show sv: "headers_kept (sv_value ob)" for ob
    unfolding sv_value_def by (rule headers_kept_intros(5)) (auto simp: headers_kept_def string_data_ptr_def)
  show "headers_kept (require_gc_root_capacity_more n)" by (auto simp: headers_kept_def require_gc_root_capacity_more_def)
  show "headers_kept (gc_root_push ob)" "headers_kept (gc_root_pop_n n)" by (simp_all add: headers_kept_def gc_root_push_def gc_root_pop_n_def)
  show "headers_kept (global_alloc svc n kind)" unfolding global_alloc_def by (rule headers_kept_intros)
  show "headers_kept (copy_string_key_into_region svc ob True)"
    unfolding copy_string_key_into_region_def by (auto intro!: headers_kept_intros sv)
  have rel: "headers_kept (release ob)" for ob unfolding release_def by (rule headers_kept_intros)
  have "headers_kept (seq (modify (\<lambda>s. s\<lparr>m_curr_alloc_global := True\<rparr>)) (\<lambda>_.
              seq (lift_trix (make_clone (ds_gc svc) ob)) (\<lambda>global_value.
              seq (modify (\<lambda>s. s\<lparr>m_curr_alloc_global := saved_global\<rparr>)) (\<lambda>_.
              seq (release ob) (\<lambda>_. ret global_value)))))" for saved_global
    by (auto intro!: headers_kept_intros rel)
  then show "headers_kept (clone_into_global svc g ob)" unfolding headers_kept_def clone_into_global_def Let_def by (auto split: if_splits)
qed

lemma create_persist_header:
  assumes "create_persist svc d g k v i s = (Value e, s')"
  shows "d_length (dict_at s' d) = (d_length (dict_at s d) + 1) mod 65536 \<and> d_maxlength (dict_at s' d) = d_maxlength (dict_at s d) \<and>
    d_pool (dict_at s' d) = d_pool (dict_at s d) \<and> d_access (dict_at s' d) = d_access (dict_at s d) \<and>
    (\<exists>h. dict_at s' = (dict_at s)(d := h)) \<and> m_journal s' = m_journal s"
proof -
  have key: "headers_kept (if o_type k = TString then copy_string_key_into_region svc k True else clone_into_global svc g k)"
    by (simp add: headers_kept_parts)
  note step = headers_kept_run [OF _ headers_kept_parts(1)] headers_kept_run [OF _ headers_kept_parts(3)] headers_kept_run [OF _ headers_kept_parts(4)]
    headers_kept_run [OF _ key] headers_kept_run [OF _ headers_kept_parts(6)] headers_kept_run [OF _ headers_kept_parts(5)]
  from assms show ?thesis unfolding create_persist_def by (elim step) (auto simp: upd_dict_def upd_entry_def)
qed

text \<open>The part of the invariant that lookup needs.\<close>

definition dict_table :: "dict_machine \<Rightarrow> nat set \<Rightarrow> nat \<Rightarrow> nat list list \<Rightarrow> bool" where
  "dict_table s names d chs \<longleftrightarrow>
     bucket_count_is_valid (length (d_buckets (dict_at s d))) \<and> length chs = length (d_buckets (dict_at s d)) \<and>
     (\<forall>i<length chs. entry_chain s (d_buckets (dict_at s d) ! i) (chs ! i)) \<and>
     (\<forall>e\<in>set (concat chs). plain_key s names (e_key (entry_at s e))) \<and> interned s names"

lemma dict_table_find:
  assumes tab: "dict_table s names d chs" and key: "plain_key s names k" and absent: "\<forall>e\<in>set (concat chs). key_at s e \<noteq> key_of s k"
  shows "\<exists>i l. find_entry d k s = (Value (i, l, nulloffset), s)"
proof -
  let ?h = "dict_home s d (key_of s k)" and ?P = "\<lambda>x. key_at s x = key_of s k"
  note t = tab [unfolded dict_table_def]
  have i: "?h < length chs" using t bucket_count_bounds [of "length chs"] by (simp add: dict_home_def)
  have sub: "x \<in> set (concat chs)" if "x \<in> set (chs ! ?h)" for x unfolding in_concat_nth using that i by blast
  have "object_hash k s = (Value (hash_of_key (key_of s k)), s)" using key by (intro object_hash_ok) (simp add: plain_key_def)
  moreover have "bucket_index d (hash_of_key (key_of s k)) s = (Value ?h, s)" using bucket_index_ok t by (simp add: dict_home_def)
  moreover have "chain_search s d k (Bucket ?h) = Some (Value (chain_link ?P (Bucket ?h) (chs ! ?h)))"
    using t i sub key by (intro chain_search_ok) (auto simp: get_dlink_def simp del: set_concat)
  moreover have "find ?P (chs ! ?h) = None" using absent sub by (auto simp: find_None_iff simp del: set_concat)
  then have "snd (chain_link ?P (Bucket ?h) (chs ! ?h)) = nulloffset" by (simp add: chain_link_snd)
  ultimately show ?thesis
    by (cases "chain_link ?P (Bucket ?h) (chs ! ?h)") (auto simp: find_entry_def lift_outcome_def from_option_def seq_def)
qed

lemma note_pair_ok:
  "\<exists>b. (if barrier_relevant_for_localdict s d
     then seq (note_global_into_local svc g k) (\<lambda>_. note_global_into_local svc g v) s else (Value (), s)) = (Value (), s\<lparr>m_localdict_maybe_global := b\<rparr>)"
proof (cases "barrier_relevant_for_localdict s d")
  case True
  obtain b1 where b1: "note_global_into_local svc g k s = (Value (), s\<lparr>m_localdict_maybe_global := b1\<rparr>)" using note_global_ok by blast
  obtain b2 where b2: "note_global_into_local svc g v (s\<lparr>m_localdict_maybe_global := b1\<rparr>) = (Value (), s\<lparr>m_localdict_maybe_global := b1, m_localdict_maybe_global := b2\<rparr>)"
    using note_global_ok by blast
  show ?thesis using True b1 b2 by (intro exI [of _ b2]) simp
next
  case False
  then show ?thesis by (intro exI [of _ "m_localdict_maybe_global s"]) simp
qed

lemma dict_table_flag:
  assumes tab: "dict_table s names d chs"
  shows "dict_table (s\<lparr>m_localdict_maybe_global := b\<rparr>) names d chs"
proof -
  let ?s = "s\<lparr>m_localdict_maybe_global := b\<rparr>"
  have k: "keeps s ?s" by (simp add: keeps_def)
  have "entry_chain ?s off xs = entry_chain s off xs" for off xs by (rule entry_chain_cong) simp_all
  then show ?thesis using tab keeps_key(1) [OF k] keeps_interned [OF k] by (auto simp: dict_table_def)
qed

text \<open>
  C30. The unjournalled insertion of a new key does not look at the capacity: it links an entry of its own and counts it, so that a dictionary that was full
  has one entry more than its capacity. From then on every insertion of a new key fails with \<open>DictFull\<close>, also when the dictionary is dynamic: it would grow only if its
  length were equal to its capacity.
\<close>

theorem persist_overfills:
  assumes "d_length (dict_at s d) = d_maxlength (dict_at s d)" "d_maxlength (dict_at s d) < max_length"
    and "create_persist svc d g k v i s = (Value e, s1)"
    and tab: "dict_table s1 names d chs" and loc: "\<not> is_global s1 d"
    and k2: "plain_key s1 names k2" "\<forall>x\<in>set (concat chs). key_at s1 x \<noteq> key_of s1 k2"
  shows "\<exists>s2. put svc d k2 v2 mode s1 = (Raise DictFull, s2)"
proof -
  have over: "d_maxlength (dict_at s1 d) < d_length (dict_at s1 d)"
    using create_persist_header [OF assms(3)] assms(1,2) by (simp add: max_length_def)
  obtain b where b: "(if barrier_relevant_for_localdict s1 d
       then seq (note_global_into_local svc False k2) (\<lambda>_. note_global_into_local svc False v2) s1 else (Value (), s1)) = (Value (), s1\<lparr>m_localdict_maybe_global := b\<rparr>)"
    using note_pair_ok by blast
  let ?s = "s1\<lparr>m_localdict_maybe_global := b\<rparr>"
  have k: "keeps s1 ?s" by (simp add: keeps_def)
  have key: "plain_key ?s names k2" "key_of ?s k2 = key_of s1 k2" using keeps_key [OF k k2(1)] .
  have "\<forall>x\<in>set (concat chs). key_at ?s x \<noteq> key_of ?s k2"
  proof
    fix x assume x: "x \<in> set (concat chs)"
    then have "plain_key s1 names (e_key (entry_at s1 x))" using tab by (simp add: dict_table_def del: set_concat)
    then show "key_at ?s x \<noteq> key_of ?s k2" using k2(2) x keeps_key(2) [OF k] key(2) by (simp del: set_concat)
  qed
  then obtain j l where f: "find_entry d k2 ?s = (Value (j, l, nulloffset), ?s)" using dict_table_find [OF dict_table_flag [OF tab] key(1)] by blast
  have "put svc d k2 v2 mode s1 = (Raise DictFull, ?s)"
    unfolding put_def using loc b f over by (simp add: reject_fragile_def Let_def cong: if_cong split del: if_split)
  then show ?thesis by blast
qed

definition dict_full :: dict_machine where
  "dict_full = (upd_dict 64 (\<lambda>h. h\<lparr>d_maxlength := 1, d_pool := 0\<rparr>) dict_example)\<lparr>m_gc_scratch_offset := 960\<rparr>"

lemmas run_global_alloc = global_alloc_def lift_trix_def lift_gvm_def gvm_alloc_def ensure_gc_scratch_def gvm_alloc_impl_def gvm_total_size_def gvm_search_free_def
  first_fit.simps from_walk_def gvm_bump_fits_def gvm_bump_def vm_alloc_global_ptr_def gvm_write_tail_tag_def live_header_def nulloffset_def gvm_consts align_down_def vm_size_max_def

lemma dict_full_alloc:
  "\<exists>s1. global_alloc svc_example 20 ChunkKind_HashEntry (dict_full\<lparr>m_journal := js, m_gc_roots := rs\<rparr>) = (Value 1000, s1) \<and> m_vm_limit s1 = 1024 \<and> m_vm_global s1 = 984 \<and>
     dict_at s1 = dict_at dict_full \<and> entry_at s1 = entry_at dict_example"
  by (simp add: run_global_alloc ChunkKind_HashEntry_def dict_full_def upd_dict_def dict_example_def key_example_def trix.defs gvm.defs key_machine.defs
    dict_machine.defs small_machine_def Let_def svc_example_def)

lemma dict_full_create:
  "\<exists>s1. create_persist svc_example 64 False (number 0 9) (number 0 3) 0 (dict_full\<lparr>m_journal := js\<rparr>) = (Value 1000, s1) \<and> m_vm_limit s1 = 1024 \<and> m_vm_global s1 = 984 \<and>
     entry_at s1 = (entry_at dict_example)(1000 := \<lparr>e_next = 84, e_key = number 0 9, e_value = number 0 3\<rparr>) \<and> d_buckets (dict_at s1 64) = [1000]"
proof -
  obtain s1 where s1: "global_alloc svc_example 20 ChunkKind_HashEntry (dict_full\<lparr>m_journal := js, m_gc_roots := [number 0 9, number 0 3]\<rparr>) = (Value 1000, s1)"
      "m_vm_limit s1 = 1024" "m_vm_global s1 = 984" "dict_at s1 = dict_at dict_full" "entry_at s1 = entry_at dict_example"
    using dict_full_alloc by blast
  have f: "m_gc_roots dict_full = []" "gc_root_slots dict_full = 8" "d_buckets (dict_at dict_full 64) = [84]" "o_type (number 0 9) \<noteq> TString"
    by (simp_all add: dict_full_def upd_dict_def number_def make_object_def)
  show ?thesis unfolding create_persist_def
    using s1 f by (simp add: require_gc_root_capacity_more_def gc_root_push_def gc_root_pop_n_def upd_entry_def upd_dict_def)
qed

theorem persist_overfills_witness:
  "\<exists>s1 s2. is_dynamic (dict_at dict_full 64) \<and> create_persist svc_example 64 False (number 0 9) (number 0 3) 0 dict_full = (Value 1000, s1) \<and>
     put svc_example 64 (number 0 8) (number 0 2) NoBinding s1 = (Raise DictFull, s2)"
proof -
  obtain s1 where s1: "create_persist svc_example 64 False (number 0 9) (number 0 3) 0 dict_full = (Value 1000, s1)" "m_vm_limit s1 = 1024" "m_vm_global s1 = 984"
     "entry_at s1 = (entry_at dict_example)(1000 := \<lparr>e_next = 84, e_key = number 0 9, e_value = number 0 3\<rparr>)" "d_buckets (dict_at s1 64) = [1000]"
    using dict_full_create [of "m_journal dict_full"] by auto
  have "dict_table s1 {} 64 [[1000, 84]]" using s1(2-5)
    by (simp add: dict_table_def bucket_count_is_valid_def dict_bucket_counts_def nulloffset_def interned_def)
  moreover have "\<forall>x\<in>set (concat [[1000, 84]]). key_at s1 x \<noteq> key_of s1 (number 0 8)" using s1(4) by simp
  moreover have "\<not> is_global s1 64" using s1(3) by (simp add: is_global_def)
  moreover have "d_length (dict_at dict_full 64) = d_maxlength (dict_at dict_full 64)" "d_maxlength (dict_at dict_full 64) < max_length"
    by (simp_all add: dict_full_def upd_dict_def max_length_def)
  ultimately have "\<exists>s2. put svc_example 64 (number 0 8) (number 0 2) NoBinding s1 = (Raise DictFull, s2)"
    using persist_overfills [OF _ _ s1(1)] number_key(1) by blast
  moreover have "is_dynamic (dict_at dict_full 64)" by (simp add: dict_full_def upd_dict_def is_dynamic_def has_flag_def DynamicFlag_def ReadWriteAccess_def)
  ultimately show ?thesis using s1(1) by blast
qed

section \<open>An unjournalled insertion that is lost\<close>

lemma undo_headers: "fst (undo_all j (ds, es)) = fst (undo_all j (ds, es'))"
proof (induction j arbitrary: ds es es')
  case (Cons u j)
  show ?case
  proof (cases u)
    case (UHeader d h)
    show ?thesis unfolding UHeader undo_step by (rule Cons.IH)
  next
    case (UEntry e x)
    show ?thesis unfolding UEntry undo_step by (rule Cons.IH)
  next
    case (UNext e n)
    show ?thesis unfolding UNext undo_step by (rule Cons.IH)
  qed
qed simp

text \<open>
  C31. An unjournalled insertion is undone all the same when the header of the dictionary has been journalled at the level, which any insertion or removal at the level
  does: replaying the journal leaves the headers and so the buckets as if the unjournalled insertion had not been made.
\<close>

theorem persist_lost_on_restore:
  assumes saved: "saved_header (m_journal s l) d" and new: "create_persist svc d g k v i s = (Value e, s1)"
    and plain: "\<forall>x. plain_entry (entry_at s x) \<and> plain_entry (entry_at s1 x)" "\<forall>x y. UEntry x y \<in> set (m_journal s l) \<longrightarrow> plain_entry y"
  shows "\<exists>s2 s3. replay_journal (m_journal s1 l) s1 = (Value (), s2) \<and> replay_journal (m_journal s l) s = (Value (), s3) \<and> dict_at s2 = dict_at s3"
proof -
  let ?j = "m_journal s l"
  obtain h where h: "dict_at s1 = (dict_at s)(d := h)" "m_journal s1 = m_journal s" using create_persist_header [OF new] by blast
  have "fst (undo_all ?j (contents_of s1)) = fst (undo_all ?j (dict_at s, entry_at s1))" unfolding h(1) undo_header [OF saved] ..
  also have "\<dots> = fst (undo_all ?j (contents_of s))" by (rule undo_headers)
  finally have eq: "fst (undo_all ?j (contents_of s1)) = fst (undo_all ?j (contents_of s))" .
  have "replay_journal ?j t = (Value (), t\<lparr>dict_at := fst (undo_all ?j (contents_of t)), entry_at := snd (undo_all ?j (contents_of t))\<rparr>)" if "t = s \<or> t = s1" for t
    by (rule replay_journal_ok) (use that plain in blast)+
  from this [of s] this [of s1] show ?thesis unfolding h(2) using eq by simp
qed

theorem persist_lost_on_restore_witness:
  "\<exists>s1 s2. create_persist svc_example 64 False (number 0 9) (number 0 3) 0 (dict_full\<lparr>m_journal := \<lambda>_. [UHeader 64 (dict_at dict_full 64)]\<rparr>) = (Value 1000, s1) \<and>
     d_buckets (dict_at s1 64) = [1000] \<and> replay_journal (m_journal s1 1) s1 = (Value (), s2) \<and> d_buckets (dict_at s2 64) = [84]"
proof -
  let ?s = "dict_full\<lparr>m_journal := \<lambda>_. [UHeader 64 (dict_at dict_full 64)]\<rparr>"
  obtain s1 where s1: "create_persist svc_example 64 False (number 0 9) (number 0 3) 0 ?s = (Value 1000, s1)"
     "entry_at s1 = (entry_at dict_example)(1000 := \<lparr>e_next = 84, e_key = number 0 9, e_value = number 0 3\<rparr>)" "d_buckets (dict_at s1 64) = [1000]"
    using dict_full_create by blast
  have null: "\<not> uses_heap_cell (null_at l)" for l by (simp add: null_at_def make_null_def make_object_def uses_cell_types)
  have plain: "\<forall>x. plain_entry (entry_at ?s x) \<and> plain_entry (entry_at s1 x)"
    using null s1(2) by (simp add: plain_entry_def dict_full_def upd_dict_def)
  obtain s2 s3 where x: "replay_journal (m_journal s1 1) s1 = (Value (), s2)" "replay_journal (m_journal ?s 1) ?s = (Value (), s3)" "dict_at s2 = dict_at s3"
    using persist_lost_on_restore [OF _ s1(1) plain, of 1] by (auto simp: saved_header_def)
  have "d_buckets (dict_at s3 64) = [84]" using x(2) by (auto simp: upd_dict_def dict_full_def)
  then show ?thesis using s1(1,3) x(1,3) by auto
qed

end
