(* ===== verification/Binding_Cache.thy ===== *)
theory Binding_Cache
  imports Lookup Dict_Theorems
begin

text \<open>
  The cache of name bindings. A binding that is cached is the one that the walk of the dictionary stack finds, and every operation on the
  dictionary stack and on the dictionaries keeps that, as long as no entry has a string as its key; so the cache does not change the result
  of a lookup.
\<close>

section \<open>The walk\<close>

text \<open>The entry of a key that is not an unset local, and the first on the dictionary stack.\<close>

definition bound_entry :: "dict_machine \<Rightarrow> nat list list \<Rightarrow> key \<Rightarrow> nat option" where
  "bound_entry s chs k =
     (case find (\<lambda>e. key_at s e = k) (concat chs) of
        Some e \<Rightarrow> if is_unset_local (e_value (entry_at s e)) then None else Some e
      | None \<Rightarrow> None)"

definition stack_dict :: "dict_machine \<Rightarrow> object \<Rightarrow> nat" where
  "stack_dict s ob = (case dict_value s ob of Value d \<Rightarrow> d | _ \<Rightarrow> 0)"

fun visible :: "dict_machine \<Rightarrow> (nat \<Rightarrow> nat list list) \<Rightarrow> object list \<Rightarrow> key \<Rightarrow> (object \<times> nat) option" where
  "visible s C [] k = None"
| "visible s C (ob # obs) k =
     (case bound_entry s (C (stack_dict s ob)) k of Some e \<Rightarrow> Some (ob, e) | None \<Rightarrow> visible s C obs k)"

lemma name_in_chain_ok:
  assumes "entry_chain s off xs" "\<And>x. x \<in> set xs \<Longrightarrow> plain_key s names (e_key (entry_at s x))"
    and key: "plain_key s names k" "interned s names"
  shows "name_in_chain s k off =
    Some (Value (case find (\<lambda>x. key_at s x = key_of s k \<and> \<not> is_unset_local (e_value (entry_at s x))) xs of Some x \<Rightarrow> x | None \<Rightarrow> nulloffset))"
  using assms(1,2)
proof (induction xs arbitrary: off)
  case Nil
  then show ?case by (subst name_in_chain.simps) simp
next
  case (Cons x xs)
  have m: "match_key s k (e_key (entry_at s x)) = Value (key_of s k = key_at s x)"
    using match_key_ok [OF key(1) Cons.prems(2) key(2)] by simp
  have "name_in_chain s k (e_next (entry_at s x)) =
    Some (Value (case find (\<lambda>x. key_at s x = key_of s k \<and> \<not> is_unset_local (e_value (entry_at s x))) xs of Some x \<Rightarrow> x | None \<Rightarrow> nulloffset))"
    using Cons.prems by (intro Cons.IH) simp_all
  then show ?case using Cons.prems(1) m
    by (subst name_in_chain.simps) (auto simp: offset_to_ptr_def eq_commute [of "key_of s k"])
qed

lemma find_conj:
  assumes "\<And>x y. x \<in> set xs \<Longrightarrow> y \<in> set xs \<Longrightarrow> A x \<Longrightarrow> A y \<Longrightarrow> x = y"
  shows "find (\<lambda>x. A x \<and> B x) xs = (case find A xs of Some x \<Rightarrow> if B x then Some x else None | None \<Rightarrow> None)"
  using assms
proof (induction xs)
  case (Cons x xs)
  show ?case
  proof (cases "A x")
    case True
    then have "\<not> (A y \<and> B y)" if "y \<in> set xs" "y \<noteq> x" for y using Cons.prems [of x y] that by auto
    then have "find (\<lambda>x. A x \<and> B x) xs = None" if "\<not> B x" using that by (auto simp: find_None_iff)
    then show ?thesis using True by simp
  next
    case False
    then show ?thesis using Cons by simp
  qed
qed simp

lemma bound_entryD:
  "bound_entry s chs k = Some e \<Longrightarrow> e \<in> set (concat chs) \<and> key_at s e = k \<and> \<not> is_unset_local (e_value (entry_at s e))"
  using find_SomeD [of "\<lambda>e. key_at s e = k" "concat chs"] by (auto simp: bound_entry_def simp del: set_concat split: option.splits if_splits)

lemma bound_entryI:
  assumes "dict_inv s names d chs pool" "e \<in> set (concat chs)" "key_at s e = k"
  shows "bound_entry s chs k = (if is_unset_local (e_value (entry_at s e)) then None else Some e)"
proof -
  have "find (\<lambda>e. key_at s e = k) (concat chs) = Some e"
    using assms inj_onD [OF dict_invD(8) [OF assms(1)]] by (intro find_unique) auto
  then show ?thesis by (simp add: bound_entry_def)
qed

lemma bound_entry_none: "k \<notin> key_at s ` set (concat chs) \<Longrightarrow> bound_entry s chs k = None"
  by (auto simp: bound_entry_def find_None_iff simp del: set_concat split: option.splits dest!: find_SomeD)

lemma name_in_dict_ok:
  assumes inv: "dict_inv s names d chs pool" and key: "plain_key s names k"
  shows "name_in_dict k d (dict_home s d (key_of s k)) s = (Value (case bound_entry s chs (key_of s k) of Some e \<Rightarrow> e | None \<Rightarrow> nulloffset), s)"
proof -
  let ?h = "dict_home s d (key_of s k)" and ?A = "\<lambda>x. key_at s x = key_of s k" and ?B = "\<lambda>x. \<not> is_unset_local (e_value (entry_at s x))"
  note i = dict_home_less [OF inv]
  have "x = y" if "x \<in> set (chs ! ?h)" "y \<in> set (chs ! ?h)" "?A x" "?A y" for x y
  proof -
    have "x \<in> set (concat chs)" "y \<in> set (concat chs)" unfolding in_concat_nth using that(1,2) i by blast+
    then show ?thesis using inj_onD [OF dict_invD(8) [OF inv]] that(3,4) by metis
  qed
  then have "find (\<lambda>x. ?A x \<and> ?B x) (chs ! ?h) = (case find ?A (chs ! ?h) of Some x \<Rightarrow> if ?B x then Some x else None | None \<Rightarrow> None)"
    by (rule find_conj)
  also have "\<dots> = bound_entry s chs (key_of s k)"
    unfolding bound_entry_def dict_find_home [OF inv] by (simp split: option.splits)
  finally have "find (\<lambda>x. ?A x \<and> ?B x) (chs ! ?h) = bound_entry s chs (key_of s k)" .
  moreover have "name_in_chain s k (d_buckets (dict_at s d) ! ?h) =
    Some (Value (case find (\<lambda>x. ?A x \<and> ?B x) (chs ! ?h) of Some x \<Rightarrow> x | None \<Rightarrow> nulloffset))"
    by (rule name_in_chain_ok [OF dict_invD(3) [OF inv i] dict_invD(6) [OF inv i] key dict_invD(9) [OF inv]])
  ultimately show ?thesis by (simp add: name_in_dict_def lift_outcome_def from_option_def)
qed

section \<open>The dictionaries of a machine\<close>

text \<open>
  The dictionaries \<open>Ds\<close> with their chains and pools: all in order and apart, with local entries and no strings as keys, and the dictionary stack
  made of them.
\<close>

definition world :: "dict_machine \<Rightarrow> nat set \<Rightarrow> nat set \<Rightarrow> (nat \<Rightarrow> nat list list) \<Rightarrow> (nat \<Rightarrow> nat list) \<Rightarrow> bool" where
  "world s names Ds C P \<longleftrightarrow>
     m_vm_ptr s \<le> m_vm_temp_ptr s \<and>
     (\<forall>d\<in>Ds. sound s names d (C d) (P d) \<and> (\<forall>e\<in>set (concat (C d) @ P d). e + 20 \<le> m_vm_ptr s) \<and>
        (\<forall>e\<in>set (concat (C d)). o_type (e_key (entry_at s e)) \<noteq> TString)) \<and>
     (\<forall>d\<in>Ds. \<forall>d'\<in>Ds. d \<noteq> d' \<longrightarrow> set (concat (C d) @ P d) \<inter> set (concat (C d') @ P d') = {}) \<and>
     (\<forall>ob\<in>set (dict_stack s). stack_dict s ob \<in> Ds \<and> dict_value s ob = Value (stack_dict s ob))"

lemma worldD:
  assumes "world s names Ds C P"
  shows "m_vm_ptr s \<le> m_vm_temp_ptr s" "d \<in> Ds \<Longrightarrow> sound s names d (C d) (P d)" "d \<in> Ds \<Longrightarrow> dict_inv s names d (C d) (P d)"
    "d \<in> Ds \<Longrightarrow> e \<in> set (concat (C d) @ P d) \<Longrightarrow> e + 20 \<le> m_vm_ptr s"
    "d \<in> Ds \<Longrightarrow> e \<in> set (concat (C d)) \<Longrightarrow> o_type (e_key (entry_at s e)) \<noteq> TString"
    "d \<in> Ds \<Longrightarrow> d' \<in> Ds \<Longrightarrow> d \<noteq> d' \<Longrightarrow> set (concat (C d) @ P d) \<inter> set (concat (C d') @ P d') = {}"
    "ob \<in> set (dict_stack s) \<Longrightarrow> stack_dict s ob \<in> Ds" "ob \<in> set (dict_stack s) \<Longrightarrow> dict_value s ob = Value (stack_dict s ob)"
  using assms unfolding world_def sound_def by blast+

lemma first_with_ok:
  assumes w: "\<And>ob. ob \<in> set obs \<Longrightarrow> dict_value s ob = Value (stack_dict s ob) \<and> dict_inv s names (stack_dict s ob) (C (stack_dict s ob)) (P (stack_dict s ob))"
    and key: "plain_key s names k"
  shows "first_with (name_in_dict k) (hash_of_key (key_of s k)) obs s = (Value (visible s C obs (key_of s k)), s)"
  using w
proof (induction obs)
  case (Cons ob obs)
  let ?d = "stack_dict s ob"
  have inv: "dict_inv s names ?d (C ?d) (P ?d)" and v: "dict_value s ob = Value ?d" using Cons.prems by auto
  have b: "bucket_index ?d (hash_of_key (key_of s k)) s = (Value (dict_home s ?d (key_of s k)), s)"
    using bucket_index_ok [OF dict_invD(1) [OF inv]] by (simp add: dict_home_def)
  have nz: "e \<noteq> nulloffset" if b: "bound_entry s (C ?d) (key_of s k) = Some e" for e
  proof -
    obtain i where i: "i < length (C ?d)" "e \<in> set (C ?d ! i)" using bound_entryD [OF b] unfolding in_concat_nth by blast
    then show ?thesis using entry_chain_nz [OF dict_invD(3) [OF inv i(1)] i(2)] by simp
  qed
  have rest: "first_with (name_in_dict k) (hash_of_key (key_of s k)) obs s = (Value (visible s C obs (key_of s k)), s)"
    using Cons by simp
  show ?case using v b name_in_dict_ok [OF inv key] nz rest
    by (cases "bound_entry s (C ?d) (key_of s k)") (simp_all add: lift_outcome_def)
qed simp

text \<open>What the cache of a name says, and that it is what the walk finds.\<close>

abbreviation name_key :: "dict_machine \<Rightarrow> nat \<Rightarrow> key" where "name_key s n \<equiv> KText (n_data (name_at s n))"

definition coherent :: "dict_machine \<Rightarrow> nat set \<Rightarrow> (nat \<Rightarrow> nat list list) \<Rightarrow> bool" where
  "coherent s names C \<longleftrightarrow>
     (\<forall>n\<in>names. n_binding (name_at s n) \<noteq> nulloffset \<longrightarrow>
        (\<exists>ob e. visible s C (dict_stack s) (name_key s n) = Some (ob, e) \<and> n_binding (name_at s n) = value_offset e))"

lemma coherentD:
  "coherent s names C \<Longrightarrow> n \<in> names \<Longrightarrow> n_binding (name_at s n) \<noteq> nulloffset \<Longrightarrow>
     \<exists>ob e. visible s C (dict_stack s) (name_key s n) = Some (ob, e) \<and> n_binding (name_at s n) = value_offset e"
  by (simp add: coherent_def)

definition bind_name :: "nat \<Rightarrow> nat \<Rightarrow> dict_machine \<Rightarrow> dict_machine" where
  "bind_name n off s = s\<lparr>name_at := (name_at s)(n := (name_at s n)\<lparr>n_binding := off\<rparr>)\<rparr>"

lemma set_name_binding_ok:
  "plain_key s names k \<Longrightarrow> o_type k = TName \<Longrightarrow> set_name_binding k off s = (Value (), bind_name (m_offset k) off s)"
  by (simp add: set_name_binding_def bind_name_def plain_key_def key_ok_def lift_outcome_def seq_def)

lemma name_lookup_in_stack_ok:
  assumes w: "world s names Ds C P" and key: "plain_key s names k" "o_type k = TName"
  shows "name_lookup_in_stack k s =
    (case visible s C (dict_stack s) (key_of s k) of
       None \<Rightarrow> (Value None, s) | Some (ob, e) \<Rightarrow> (Value (Some (value_offset e)), bind_name (m_offset k) (value_offset e) s))"
proof -
  have h: "n_hash (name_at s (m_offset k)) = hash_of_key (key_of s k)" "name_value k s = (Value (name_at s (m_offset k)), s)"
    using key name_value_ok [of s k] by (simp_all add: plain_key_def key_ok_def key_of_def hash_of_key_def)
  have f: "first_with (name_in_dict k) (n_hash (name_at s (m_offset k))) (dict_stack s) s = (Value (visible s C (dict_stack s) (key_of s k)), s)"
    unfolding h(1)
  proof (rule first_with_ok [OF _ key(1)])
    fix ob assume ob: "ob \<in> set (dict_stack s)"
    show "dict_value s ob = Value (stack_dict s ob) \<and> dict_inv s names (stack_dict s ob) (C (stack_dict s ob)) (P (stack_dict s ob))"
      using worldD(8) [OF w ob] worldD(3) [OF w worldD(7) [OF w ob]] by simp
  qed
  show ?thesis using f h(2) set_name_binding_ok [OF key] by (simp add: name_lookup_in_stack_def split: option.splits)
qed

section \<open>States that differ in the cache or in the stacks\<close>

lemma bound_entry_cong:
  assumes inv: "dict_inv s names d chs pool" and k: "keeps s s'" and e: "\<And>x. x \<in> set (concat chs) \<Longrightarrow> e_key (entry_at s' x) = e_key (entry_at s x)"
    "\<And>x. x \<in> set (concat chs) \<Longrightarrow> e_value (entry_at s' x) = e_value (entry_at s x)"
  shows "bound_entry s' chs K = bound_entry s chs K"
proof -
  have "key_at s' x = key_at s x" if "x \<in> set (concat chs)" for x
    using keeps_key(2) [OF k dict_inv_entry [OF inv that]] e(1) [OF that] by simp
  then have "find (\<lambda>x. key_at s' x = K) (concat chs) = find (\<lambda>x. key_at s x = K) (concat chs)" by (intro find_cong) simp_all
  then show ?thesis using e(2) find_SomeD [of "\<lambda>x. key_at s x = K" "concat chs"] by (auto simp: bound_entry_def simp del: set_concat split: option.splits)
qed

lemma keeps_stack_dict: "keeps s s' \<Longrightarrow> dict_value s' ob = dict_value s ob \<and> stack_dict s' ob = stack_dict s ob"
  using keepsD(7,10,15) [of s s'] by (simp add: stack_dict_def dict_value_def)

lemma visible_cong:
  "(\<And>ob. ob \<in> set obs \<Longrightarrow> bound_entry s' (C' (stack_dict s' ob)) K = bound_entry s (C (stack_dict s ob)) K) \<Longrightarrow> visible s' C' obs K = visible s C obs K"
  by (induction obs) (auto split: option.splits)

lemma world_keep:
  assumes w: "world s names Ds C P" and k: "keeps s s'" and same: "dict_at s' = dict_at s" "entry_at s' = entry_at s"
  shows "world s' names Ds C P" "visible s' C (dict_stack s') K = visible s C (dict_stack s) K"
proof -
  have dict: "sound s' names d (C d) (P d)" if "d \<in> Ds" for d
  proof (rule sound_keep(1) [OF worldD(2) [OF w that] k])
    show "dict_at s' = (dict_at s)(d := (dict_at s d)\<lparr>d_save_level := d_save_level (dict_at s d)\<rparr>)" using same(1) by simp
  qed (use same(2) in simp_all)
  have low: "e + 20 \<le> m_vm_ptr s'" if "d \<in> Ds" "e \<in> set (concat (C d) @ P d)" for d e using worldD(4) [OF w that] keepsD(4) [OF k] by simp
  have ptr: "m_vm_ptr s' \<le> m_vm_temp_ptr s'" using worldD(1) [OF w] k by (simp add: keeps_def)
  show "world s' names Ds C P" unfolding world_def keepsD(14) [OF k] same(2)
  proof (intro conjI ballI impI)
    show "stack_dict s' ob \<in> Ds" "dict_value s' ob = Value (stack_dict s' ob)" if "ob \<in> set (dict_stack s)" for ob
      using worldD(7,8) [OF w that] keeps_stack_dict [OF k] by simp_all
  qed (use ptr dict low worldD(5,6) [OF w] in blast)+
  show "visible s' C (dict_stack s') K = visible s C (dict_stack s) K"
    unfolding keepsD(14) [OF k]
  proof (rule visible_cong)
    fix ob assume "ob \<in> set (dict_stack s)"
    then have "dict_inv s names (stack_dict s ob) (C (stack_dict s ob)) (P (stack_dict s ob))" using worldD(3,7) [OF w] by blast
    from bound_entry_cong [OF this k] show "bound_entry s' (C (stack_dict s' ob)) K = bound_entry s (C (stack_dict s ob)) K"
      using keeps_stack_dict [OF k] same(2) by simp
  qed
qed

text \<open>The cache of a name is set.\<close>

lemma bind_name_simps [simp]:
  "dict_at (bind_name n off s) = dict_at s" "entry_at (bind_name n off s) = entry_at s" "m_dict (bind_name n off s) = m_dict s"
  "n_data (name_at (bind_name n off s) x) = n_data (name_at s x)"
  "n_binding (name_at (bind_name n off s) x) = (if x = n then off else n_binding (name_at s x))"
  by (simp_all add: bind_name_def)

lemma bind_name_keeps: "keeps s (bind_name n off s)"
  by (simp add: keeps_def bind_name_def)

lemma coherent_rebind:
  assumes w: "world s names Ds C P" and coh: "coherent s names C"
    and off: "off = nulloffset \<or> (\<exists>ob e. visible s C (dict_stack s) (name_key s n) = Some (ob, e) \<and> off = value_offset e)"
  shows "coherent (bind_name n off s) names C"
  unfolding coherent_def
proof (intro ballI impI)
  fix x assume x: "x \<in> names" "n_binding (name_at (bind_name n off s) x) \<noteq> nulloffset"
  have v: "visible (bind_name n off s) C (dict_stack (bind_name n off s)) K = visible s C (dict_stack s) K" for K
    by (rule world_keep(2) [OF w bind_name_keeps]) simp_all
  show "\<exists>ob e. visible (bind_name n off s) C (dict_stack (bind_name n off s)) (name_key (bind_name n off s) x) = Some (ob, e) \<and>
      n_binding (name_at (bind_name n off s) x) = value_offset e"
    unfolding v using x off coherentD [OF coh x(1)] by (auto split: if_splits)
qed

text \<open>The operand and dictionary stacks do not matter to a dictionary.\<close>

definition with_stacks :: "stack \<Rightarrow> stack \<Rightarrow> dict_machine \<Rightarrow> dict_machine" where
  "with_stacks os ds s = s\<lparr>m_op := os, m_dict := ds\<rparr>"

lemma with_stacks_fields [simp]:
  "dict_at (with_stacks os ds s) = dict_at s" "entry_at (with_stacks os ds s) = entry_at s" "name_at (with_stacks os ds s) = name_at s"
  "m_dict (with_stacks os ds s) = ds" "m_vm_ptr (with_stacks os ds s) = m_vm_ptr s" "m_vm_temp_ptr (with_stacks os ds s) = m_vm_temp_ptr s"
  "m_vm_limit (with_stacks os ds s) = m_vm_limit s" "m_vm_global (with_stacks os ds s) = m_vm_global s" "m_curr_save_level (with_stacks os ds s) = m_curr_save_level s"
  "dict_value (with_stacks os ds s) ob = dict_value s ob" "offset_to_ptr (with_stacks os ds s) x = offset_to_ptr s x" "is_global (with_stacks os ds s) x = is_global s x"
  "stack_dict (with_stacks os ds s) ob = stack_dict s ob"
  by (simp_all add: with_stacks_def dict_value_def offset_to_ptr_def is_global_def stack_dict_def)

lemma with_stacks_key [simp]: "key_of (with_stacks os ds s) ob = key_of s ob" "plain_key (with_stacks os ds s) names ob = plain_key s names ob"
proof -
  have b: "string_base (with_stacks os ds s) ob = string_base s ob" "string_bytes (with_stacks os ds s) x n = string_bytes s x n" for x n
    by (simp_all add: with_stacks_def string_base_def string_bytes_def)
  have c: "cell_number (with_stacks os ds s) ob = cell_number s ob" by (simp add: cell_number_def with_stacks_def pool_of_def trix.defs)
  show "key_of (with_stacks os ds s) ob = key_of s ob" by (cases "o_type ob") (simp_all add: key_of_def b c)
  have g: "m_eqstring_generation (with_stacks os ds s) = m_eqstring_generation s" by (simp add: with_stacks_def)
  show "plain_key (with_stacks os ds s) names ob = plain_key s names ob" by (auto simp: plain_key_def key_ok_def b c g)
qed

lemma with_stacks_chain [simp]: "entry_chain (with_stacks os ds s) off xs = entry_chain s off xs"
  by (rule entry_chain_cong) simp_all

lemma with_stacks_sound [simp]: "sound (with_stacks os ds s) names d chs pool = sound s names d chs pool"
proof -
  have "ready (with_stacks os ds s) d es = ready s d es" for es
    unfolding ready_def by (simp add: with_stacks_def offset_to_ptr_def is_global_def)
  moreover have "dict_inv (with_stacks os ds s) names d chs pool = dict_inv s names d chs pool"
    by (simp add: dict_inv_def dict_home_def interned_def cong: inj_on_cong)
  ultimately show ?thesis by (simp add: sound_def)
qed

lemma with_stacks_bound [simp]: "bound_entry (with_stacks os ds s) chs K = bound_entry s chs K"
  by (simp add: bound_entry_def split: option.split)

lemma with_stacks_visible [simp]: "visible (with_stacks os ds s) C obs K = visible s C obs K"
  by (rule visible_cong) simp

lemma world_stacks:
  assumes "world s names Ds C P" "\<And>ob. ob \<in> set (s_objs ds) \<Longrightarrow> stack_dict s ob \<in> Ds \<and> dict_value s ob = Value (stack_dict s ob)"
  shows "world (with_stacks os ds s) names Ds C P"
  using assms unfolding world_def by simp

section \<open>Writing the cache for the entries of a dictionary\<close>

definition write_binding :: "(nat \<Rightarrow> (nat \<times> nat) option) \<Rightarrow> nat \<Rightarrow> (nat \<Rightarrow> name) \<Rightarrow> nat \<Rightarrow> name" where
  "write_binding w e nm = (case w e of Some (n, off) \<Rightarrow> nm(n := (nm n)\<lparr>n_binding := off\<rparr>) | None \<Rightarrow> nm)"

lemma write_binding_other: "(\<And>e off. e \<in> set xs \<Longrightarrow> w e \<noteq> Some (n, off)) \<Longrightarrow> fold (write_binding w) xs nm n = nm n"
  by (induction xs arbitrary: nm) (auto simp: write_binding_def split: option.splits)

lemma write_binding_same:
  "e \<in> set xs \<Longrightarrow> w e = Some (n, off) \<Longrightarrow> (\<And>e' off'. e' \<in> set xs \<Longrightarrow> w e' = Some (n, off') \<Longrightarrow> off' = off) \<Longrightarrow>
     n_binding (fold (write_binding w) xs nm n) = off"
proof (induction xs arbitrary: nm e)
  case (Cons x xs)
  show ?case
  proof (cases "\<exists>e'\<in>set xs. \<exists>off'. w e' = Some (n, off')")
    case True
    then obtain e' off' where e': "e' \<in> set xs" "w e' = Some (n, off')" by blast
    then have "off' = off" using Cons.prems(3) by auto
    then show ?thesis using Cons.IH [OF e'(1)] e'(2) Cons.prems(3) by auto
  next
    case False
    then have "e = x" using Cons.prems(1,2) by auto
    moreover have "fold (write_binding w) xs nm' n = nm' n" for nm' using False by (intro write_binding_other) blast
    moreover have "n_binding (write_binding w x nm n) = off" if "w x = Some (n, off)" using that by (simp add: write_binding_def)
    ultimately show ?thesis using Cons.prems(2) by simp
  qed
qed simp

lemma write_binding_text: "n_data (fold (write_binding w) xs nm n) = n_data (nm n) \<and> n_hash (fold (write_binding w) xs nm n) = n_hash (nm n)"
  by (induction xs arbitrary: nm) (auto simp: write_binding_def split: option.splits)

definition with_names :: "(nat \<Rightarrow> name) \<Rightarrow> dict_machine \<Rightarrow> dict_machine" where
  "with_names nm s = s\<lparr>name_at := nm\<rparr>"

lemma with_names_fields [simp]:
  "entry_at (with_names nm s) = entry_at s" "dict_at (with_names nm s) = dict_at s" "name_at (with_names nm s) = nm" "m_dict (with_names nm s) = m_dict s"
  "offset_to_ptr (with_names nm s) x = offset_to_ptr s x" "with_names (name_at s) s = s" "with_names nm' (with_names nm s) = with_names nm' s"
  by (simp_all add: with_names_def offset_to_ptr_def)

lemma chain_each_ok:
  assumes "entry_chain s off xs" "\<And>e nm. e \<in> set xs \<Longrightarrow> f e (with_names nm s) = (Value (), with_names (write_binding w e nm) s)"
  shows "chain_each f off (with_names nm s) = Some (Value (), with_names (fold (write_binding w) xs nm) s)"
  using assms
proof (induction xs arbitrary: off nm)
  case Nil
  then show ?case by (subst chain_each.simps) simp
next
  case (Cons x xs)
  have "chain_each f (e_next (entry_at s x)) (with_names nm' s) = Some (Value (), with_names (fold (write_binding w) xs nm') s)" for nm'
    using Cons.prems by (intro Cons.IH) simp_all
  then show ?case using Cons.prems by (subst chain_each.simps) (simp add: offset_to_ptr_def [of s])
qed

lemma each_entry_ok:
  assumes inv: "dict_inv s names d chs pool" and f: "\<And>e nm. e \<in> set (concat chs) \<Longrightarrow> f e (with_names nm s) = (Value (), with_names (write_binding w e nm) s)"
  shows "each_entry d f s = (Value (), with_names (fold (write_binding w) (concat chs) (name_at s)) s)"
proof -
  let ?bs = "d_buckets (dict_at s d)"
  have step: "from_loop (chain_each f (?bs ! i)) (with_names nm s) = (Value (), with_names (fold (write_binding w) (chs ! i) nm) s)" if "i < length chs" for i nm
  proof -
    have "chain_each f (?bs ! i) (with_names nm s) = Some (Value (), with_names (fold (write_binding w) (chs ! i) nm) s)"
    proof (rule chain_each_ok [OF dict_invD(3) [OF inv that]])
      fix e nm' assume "e \<in> set (chs ! i)"
      then have "e \<in> set (concat chs)" unfolding in_concat_nth using that by blast
      then show "f e (with_names nm' s) = (Value (), with_names (write_binding w e nm') s)" by (rule f)
    qed
    then show ?thesis by (simp add: from_loop_def)
  qed
  have "for_each is (\<lambda>i s. from_loop (chain_each f (d_buckets (dict_at s d) ! i)) s) (with_names nm s) =
      (Value (), with_names (fold (write_binding w) (concat (map (nth chs) is)) nm) s)" if "set is \<subseteq> {..<length chs}" for "is" nm
    using that by (induction "is" arbitrary: nm) (simp_all add: step)
  from this [of "[0..<length chs]" "name_at s"] show ?thesis
    unfolding each_entry_def dict_invD(2) [OF inv, symmetric] map_nth by (simp add: atLeast0LessThan)
qed

definition bind_of :: "dict_machine \<Rightarrow> nat \<Rightarrow> (nat \<times> nat) option" where
  "bind_of s e = (if o_type (e_key (entry_at s e)) = TName \<and> \<not> is_unset_local (e_value (entry_at s e))
     then Some (m_offset (e_key (entry_at s e)), value_offset e) else None)"

definition unbind_of :: "dict_machine \<Rightarrow> nat \<Rightarrow> (nat \<times> nat) option" where
  "unbind_of s e = (if o_type (e_key (entry_at s e)) = TName then Some (m_offset (e_key (entry_at s e)), nulloffset) else None)"

lemma set_binding_names:
  assumes "plain_key s names k" "o_type k = TName"
  shows "set_name_binding k off (with_names nm s) = (Value (), with_names (nm(m_offset k := (nm (m_offset k))\<lparr>n_binding := off\<rparr>)) s)"
proof -
  have "offset_to_ptr s (m_offset k) = Value (m_offset k)" using assms by (simp add: plain_key_def key_ok_def)
  then show ?thesis by (simp add: set_name_binding_def lift_outcome_def) (simp add: with_names_def)
qed

lemma name_bindings_ok:
  assumes inv: "dict_inv s names d chs pool"
  shows "set_name_bindings d s = (Value (), with_names (fold (write_binding (bind_of s)) (concat chs) (name_at s)) s)"
    "clear_name_bindings d s = (Value (), with_names (fold (write_binding (unbind_of s)) (concat chs) (name_at s)) s)"
proof -
  show "set_name_bindings d s = (Value (), with_names (fold (write_binding (bind_of s)) (concat chs) (name_at s)) s)"
    unfolding set_name_bindings_def
  proof (rule each_entry_ok [OF inv])
    fix e nm assume "e \<in> set (concat chs)"
    from dict_inv_entry [OF inv this] show "bind_entry e (with_names nm s) = (Value (), with_names (write_binding (bind_of s) e nm) s)"
      by (simp add: bind_entry_def bind_of_def write_binding_def set_binding_names)
  qed
  show "clear_name_bindings d s = (Value (), with_names (fold (write_binding (unbind_of s)) (concat chs) (name_at s)) s)"
    unfolding clear_name_bindings_def
  proof (rule each_entry_ok [OF inv])
    fix e nm assume "e \<in> set (concat chs)"
    from dict_inv_entry [OF inv this] show "unbind_entry e (with_names nm s) = (Value (), with_names (write_binding (unbind_of s) e nm) s)"
      by (simp add: unbind_entry_def unbind_of_def write_binding_def clear_name_binding_def set_binding_names)
  qed
qed

text \<open>The entry of a name in a dictionary without strings as keys.\<close>

lemma entry_of_name:
  assumes w: "world s names Ds C P" and d: "d \<in> Ds" and n: "n \<in> names" and e: "e \<in> set (concat (C d))"
  shows "key_at s e = name_key s n \<longleftrightarrow> o_type (e_key (entry_at s e)) = TName \<and> m_offset (e_key (entry_at s e)) = n"
proof
  note inv = worldD(3) [OF w d]
  let ?k = "e_key (entry_at s e)"
  have k: "plain_key s names ?k" by (rule dict_inv_entry [OF inv e])
  assume t: "key_at s e = name_key s n"
  have "o_type ?k = TName \<or> o_type ?k = TString" using t by (cases "o_type ?k") (simp_all add: key_of_def)
  then have ty: "o_type ?k = TName" using worldD(5) [OF w d e] by blast
  then have "n_data (name_at s (m_offset ?k)) = n_data (name_at s n)" "m_offset ?k \<in> names" using t k by (simp_all add: key_of_def plain_key_def)
  then show "o_type ?k = TName \<and> m_offset ?k = n" using dict_invD(9) [OF inv] n ty by (auto simp: interned_def dest: inj_onD)
qed (simp add: key_of_def)

section \<open>Pushing and popping\<close>

lemma lift_verify: "lift_trix (verify_operands formals) s = (fst (verify_operands formals (trix.truncate s)), s)"
proof -
  have "trix.extend (trix.truncate s) (trix.more s) = s" by (simp add: trix.defs)
  then show ?thesis using verify_operands_state [of formals "trix.truncate s"]
    by (cases "verify_operands formals (trix.truncate s)") (simp add: lift_trix_def)
qed

lemma lift_dict_capacity:
  "lift_trix (require_dict_capacity count) s = (case reserve DictStackOverflow count (m_dict s) of (r, st) \<Rightarrow> (r, s\<lparr>m_dict := st\<rparr>))"
proof -
  have "trix.extend (trix.truncate s\<lparr>m_dict := st\<rparr>) (trix.more s) = s\<lparr>m_dict := st\<rparr>" for st by (cases s) (simp add: trix.defs)
  moreover have "m_dict (trix.truncate s) = m_dict s" by (simp add: trix.defs)
  ultimately show ?thesis by (simp add: lift_trix_def require_dict_capacity_def split: prod.splits)
qed

lemma begin_op_run:
  assumes "begin_op s = (Value (), s')"
  shows "\<exists>ob os ds. s_objs (m_op s) \<noteq> [] \<and> ob = hd (s_objs (m_op s)) \<and> s_objs ds = ob # dict_stack s \<and> dict_value s ob = Value (stack_dict s ob) \<and>
    set_name_bindings (stack_dict s ob) (with_stacks os ds s) = (Value (), s')"
proof -
  obtain x1 s1 where 1: "lift_trix (require_dict_capacity 1) s = (Value x1, s1)"
      "seq (operand_at 0) (\<lambda>dict_obj. seq (upd_ops (drop 1)) (\<lambda>_. seq (upd_dict_stack (\<lambda>obs. dict_obj # obs)) (\<lambda>_.
         seq (lift_outcome (\<lambda>s. dict_value s dict_obj)) set_name_bindings))) s1 = (Value (), s')"
    using assms unfolding begin_op_def by (auto simp: lift_verify dest!: seq_inv)
  obtain ds0 where ds0: "s1 = s\<lparr>m_dict := ds0\<rparr>" "s_objs ds0 = dict_stack s"
  proof (cases "reserve DictStackOverflow 1 (m_dict s)")
    case (Pair r st)
    then have "s_objs st = dict_stack s" by (auto simp: reserve_def Let_def split: if_splits)
    then show ?thesis using that [of st] 1(1) Pair by (simp add: lift_dict_capacity)
  qed
  obtain ob s2 where 2: "operand_at 0 s1 = (Value ob, s2)"
      "seq (upd_ops (drop 1)) (\<lambda>_. seq (upd_dict_stack (\<lambda>obs. ob # obs)) (\<lambda>_. seq (lift_outcome (\<lambda>s. dict_value s ob)) set_name_bindings)) s2 = (Value (), s')"
    using seq_inv [OF 1(2)] by blast
  have ob: "s2 = s1" "s_objs (m_op s) \<noteq> []" "ob = hd (s_objs (m_op s))"
    using 2(1) ds0(1) by (auto simp: operand_at_def hd_conv_nth split: if_splits)
  let ?os = "(m_op s)\<lparr>s_objs := drop 1 (s_objs (m_op s))\<rparr>" and ?ds = "ds0\<lparr>s_objs := ob # dict_stack s\<rparr>"
  have "seq (upd_ops (drop 1)) (\<lambda>_. seq (upd_dict_stack (\<lambda>obs. ob # obs)) (\<lambda>_. seq (lift_outcome (\<lambda>s. dict_value s ob)) set_name_bindings)) s1 =
      seq (lift_outcome (\<lambda>s. dict_value s ob)) set_name_bindings (with_stacks ?os ?ds s)"
    using ds0 by (simp add: upd_ops_def upd_dict_stack_def with_stacks_def)
  then have run: "seq (lift_outcome (\<lambda>s. dict_value s ob)) set_name_bindings (with_stacks ?os ?ds s) = (Value (), s')" using 2(2) ob(1) by simp
  then obtain d where d: "dict_value s ob = Value d" "set_name_bindings d (with_stacks ?os ?ds s) = (Value (), s')"
    by (auto simp: lift_outcome_def dest!: seq_inv)
  then have "stack_dict s ob = d" by (simp add: stack_dict_def)
  then show ?thesis using d ob(2,3) by (intro exI [of _ ob] exI [of _ ?os] exI [of _ ?ds]) simp
qed

text \<open>States that differ in the cache.\<close>

lemma with_names_keeps:
  "(\<And>n. n_data (nm n) = n_data (name_at s n) \<and> n_hash (nm n) = n_hash (name_at s n)) \<Longrightarrow> keeps s (with_names nm s)"
  by (simp add: keeps_def with_names_def)

lemma begin_coherent:
  assumes w: "world s names Ds C P" and coh: "coherent s names C" and run: "begin_op s = (Value (), s')" and d: "stack_dict s (hd (s_objs (m_op s))) \<in> Ds"
  shows "world s' names Ds C P \<and> coherent s' names C"
proof -
  obtain ob os ds where x: "ob = hd (s_objs (m_op s))" "s_objs ds = ob # dict_stack s" "dict_value s ob = Value (stack_dict s ob)"
      "set_name_bindings (stack_dict s ob) (with_stacks os ds s) = (Value (), s')"
    using begin_op_run [OF run] by blast
  let ?d = "stack_dict s ob" and ?s = "with_stacks os ds s"
  have w1: "world ?s names Ds C P" by (rule world_stacks [OF w]) (use x worldD(7,8) [OF w] d in auto)
  have dd: "?d \<in> Ds" using d x(1) by simp
  note inv = worldD(3) [OF w1 dd]
  let ?nm = "fold (write_binding (bind_of ?s)) (concat (C ?d)) (name_at ?s)"
  have s': "s' = with_names ?nm ?s" using x(4) name_bindings_ok(1) [OF inv] by simp
  have k: "keeps ?s s'" unfolding s' by (rule with_names_keeps) (simp add: write_binding_text)
  have v: "visible s' C (dict_stack s') K = visible ?s C (dict_stack ?s) K" for K by (rule world_keep(2) [OF w1 k]) (simp_all add: s')
  have "\<exists>ob e. visible s' C (dict_stack s') (name_key s' n) = Some (ob, e) \<and> n_binding (name_at s' n) = value_offset e"
    if n: "n \<in> names" "n_binding (name_at s' n) \<noteq> nulloffset" for n
  proof -
    have key: "name_key s' n = name_key ?s n" unfolding s' by (simp add: write_binding_text)
    note is_n = entry_of_name [OF w1 dd n(1)]
    show ?thesis
    proof (cases "bound_entry ?s (C ?d) (name_key ?s n)")
      case None
      have "bind_of ?s e \<noteq> Some (n, off)" if e: "e \<in> set (concat (C ?d))" for e off
      proof
        assume b: "bind_of ?s e = Some (n, off)"
        then have "key_at ?s e = name_key ?s n" using is_n [OF e] by (simp add: bind_of_def split: if_splits)
        from bound_entryI [OF inv e this] show False using None b by (simp add: bind_of_def split: if_splits)
      qed
      then have "name_at s' n = name_at s n" unfolding s' using write_binding_other [of "concat (C ?d)"] by simp
      then obtain ob' e where "visible s C (dict_stack s) (name_key s n) = Some (ob', e)" "n_binding (name_at s' n) = value_offset e"
        using coherentD [OF coh n(1)] n(2) by auto
      then show ?thesis unfolding v key using None x(2) by simp
    next
      case (Some e)
      then have e: "e \<in> set (concat (C ?d))" "key_at ?s e = name_key ?s n" "\<not> is_unset_local (e_value (entry_at ?s e))"
        using bound_entryD by blast+
      have "n_binding (?nm n) = value_offset e"
      proof (rule write_binding_same [OF e(1)])
        show "bind_of ?s e = Some (n, value_offset e)" using is_n [OF e(1)] e(2,3) by (simp add: bind_of_def)
        fix e' off' assume e': "e' \<in> set (concat (C ?d))" "bind_of ?s e' = Some (n, off')"
        then have "key_at ?s e' = name_key ?s n" using is_n [OF e'(1)] by (simp add: bind_of_def split: if_splits)
        then have "e' = e" using inj_onD [OF dict_invD(8) [OF inv]] e' e by simp
        then show "off' = value_offset e" using e'(2) by (simp add: bind_of_def split: if_splits)
      qed
      then show ?thesis unfolding v key using Some x(2) by (simp add: s')
    qed
  qed
  moreover have "world s' names Ds C P" by (rule world_keep(1) [OF w1 k]) (simp_all add: s')
  ultimately show ?thesis by (simp add: coherent_def)
qed

lemma end_op_run:
  assumes "end_op s = (Value (), s')"
  shows "\<exists>ob obs ds. dict_stack s = ob # obs \<and> s_objs ds = obs \<and> clear_name_bindings (stack_dict s ob) (with_stacks (m_op s) ds s) = (Value (), s')"
proof -
  obtain ob obs where ob: "dict_stack s = ob # obs" "length (dict_stack s) > PermanentDictCount"
    using assms by (auto simp: end_op_def split: list.splits if_splits)
  let ?ds = "(m_dict s)\<lparr>s_objs := obs\<rparr>"
  have "seq (lift_outcome (\<lambda>s. dict_value s ob)) (\<lambda>d s. if dict_is_frame (dict_at s d) then (Raise Unsupported, s)
                 else seq (upd_dict_stack (drop 1)) (\<lambda>_. clear_name_bindings d) s) s = (Value (), s')"
    using assms ob by (simp add: end_op_def)
  then obtain d where d: "dict_value s ob = Value d" "seq (upd_dict_stack (drop 1)) (\<lambda>_. clear_name_bindings d) s = (Value (), s')"
    by (auto simp: lift_outcome_def dest!: seq_inv split: if_splits)
  then have "clear_name_bindings d (with_stacks (m_op s) ?ds s) = (Value (), s')" using ob by (simp add: upd_dict_stack_def with_stacks_def)
  moreover have "stack_dict s ob = d" using d(1) by (simp add: stack_dict_def)
  ultimately show ?thesis using ob(1) by (intro exI [of _ ob] exI [of _ obs] exI [of _ ?ds]) simp
qed

lemma end_coherent:
  assumes w: "world s names Ds C P" and coh: "coherent s names C" and run: "end_op s = (Value (), s')"
  shows "world s' names Ds C P \<and> coherent s' names C"
proof -
  obtain ob obs ds where x: "dict_stack s = ob # obs" "s_objs ds = obs" "clear_name_bindings (stack_dict s ob) (with_stacks (m_op s) ds s) = (Value (), s')"
    using end_op_run [OF run] by blast
  let ?d = "stack_dict s ob" and ?s = "with_stacks (m_op s) ds s"
  have w1: "world ?s names Ds C P" by (rule world_stacks [OF w]) (use x worldD(7,8) [OF w] in auto)
  have dd: "?d \<in> Ds" using worldD(7) [OF w] x(1) by simp
  note inv = worldD(3) [OF w1 dd]
  let ?nm = "fold (write_binding (unbind_of ?s)) (concat (C ?d)) (name_at ?s)"
  have s': "s' = with_names ?nm ?s" using x(3) name_bindings_ok(2) [OF inv] by simp
  have k: "keeps ?s s'" unfolding s' by (rule with_names_keeps) (simp add: write_binding_text)
  have v: "visible s' C (dict_stack s') K = visible ?s C (dict_stack ?s) K" for K by (rule world_keep(2) [OF w1 k]) (simp_all add: s')
  have "\<exists>ob e. visible s' C (dict_stack s') (name_key s' n) = Some (ob, e) \<and> n_binding (name_at s' n) = value_offset e"
    if n: "n \<in> names" "n_binding (name_at s' n) \<noteq> nulloffset" for n
  proof -
    have key: "name_key s' n = name_key ?s n" unfolding s' by (simp add: write_binding_text)
    note is_n = entry_of_name [OF w1 dd n(1)]
    have none: "unbind_of ?s e \<noteq> Some (n, off)" if e: "e \<in> set (concat (C ?d))" for e off
    proof
      assume b: "unbind_of ?s e = Some (n, off)"
      have "n_binding (?nm n) = off"
        by (rule write_binding_same [where w = "unbind_of ?s", OF e]) (use b in \<open>auto simp: unbind_of_def split: if_splits\<close>)
      then show False using n(2) b by (simp add: s' unbind_of_def split: if_splits)
    qed
    have "name_key ?s n \<notin> key_at ?s ` set (concat (C ?d))"
    proof
      assume "name_key ?s n \<in> key_at ?s ` set (concat (C ?d))"
      then obtain e where t: "name_key ?s n = key_at ?s e" and e: "e \<in> set (concat (C ?d))" by (rule imageE)
      from t have "key_at ?s e = name_key ?s n" by (rule sym)
      then show False using none [OF e, of nulloffset] is_n [OF e] by (simp add: unbind_of_def)
    qed
    then have b: "bound_entry ?s (C ?d) (name_key ?s n) = None" by (rule bound_entry_none)
    have "name_at s' n = name_at s n" unfolding s' using write_binding_other [of "concat (C ?d)"] none by simp
    then obtain ob' e where "visible s C (dict_stack s) (name_key s n) = Some (ob', e)" "n_binding (name_at s' n) = value_offset e"
      using coherentD [OF coh n(1)] n(2) by auto
    moreover have "bound_entry s (C ?d) (name_key s n) = None" using b by simp
    ultimately show ?thesis unfolding v key using x(1,2) by simp
  qed
  moreover have "world s' names Ds C P" by (rule world_keep(1) [OF w1 k]) (simp_all add: s')
  ultimately show ?thesis by (simp add: coherent_def)
qed

section \<open>Insertion and removal\<close>

text \<open>Only the end of an insertion touches the cache.\<close>

definition names_kept :: "(dict_machine, 'b) action \<Rightarrow> bool" where
  "names_kept m \<longleftrightarrow> (\<forall>s r s'. m s = (r, s') \<longrightarrow> name_at s' = name_at s)"

lemma names_keptD: "names_kept m \<Longrightarrow> m s = (r, s') \<Longrightarrow> name_at s' = name_at s"
  by (simp add: names_kept_def)

lemma names_kept_seq:
  assumes "names_kept m" "\<And>x. names_kept (f x)"
  shows "names_kept (seq m f)"
  unfolding names_kept_def
proof (intro allI impI)
  fix s r s' assume run: "seq m f s = (r, s')"
  obtain x s1 where m: "m s = (x, s1)" by force
  have "name_at s1 = name_at s" using names_keptD [OF assms(1) m] .
  then show "name_at s' = name_at s" using run m names_keptD [OF assms(2)] by (cases x) (auto simp: seq_def)
qed

lemma lift_trix_names: "lift_trix m s = (r, s') \<Longrightarrow> name_at s' = name_at s"
  by (cases s) (auto simp: lift_trix_def trix.defs split: prod.splits)

lemma names_kept_intros:
  "names_kept (ret x)" "names_kept (raise er)" "names_kept (gets g)" "names_kept (lift_outcome h)" "names_kept (lift_trix m)"
  "(\<And>s. name_at (f s) = name_at s) \<Longrightarrow> names_kept (modify f)"
  using lift_trix_names by (auto simp: names_kept_def lift_outcome_def)

lemma names_kept_branch:
  "names_kept m1 \<Longrightarrow> names_kept m2 \<Longrightarrow> names_kept (\<lambda>s. if b s then m1 s else m2 s)"
  "names_kept m1 \<Longrightarrow> names_kept m2 \<Longrightarrow> names_kept (if c then m1 else m2)"
  "names_kept (\<lambda>s. (r, s))"
  by (auto simp: names_kept_def)

lemma names_kept_basic:
  "names_kept (local_alloc al n)" "names_kept (global_alloc svc n kind)" "names_kept (release ob)" "names_kept (sv_value ob)" "names_kept (object_hash ob)"
proof -
  show "names_kept (local_alloc al n)"
    by (auto simp: names_kept_def local_alloc_def vm_alloc_ptr_def align_vm_ptr_def Let_def split: if_splits outcome.splits)
  show "names_kept (global_alloc svc n kind)" "names_kept (release ob)" unfolding global_alloc_def release_def by (rule names_kept_intros)+
  have "snd (sv_value ob s) = s" "snd (name_value ob s) = s" for ob and s :: dict_machine
    by (auto simp: sv_value_def name_value_def string_data_ptr_def seq_def lift_outcome_def gets_def split: outcome.splits prod.splits if_splits)
  then have sv: "names_kept (sv_value ob)" and nv: "names_kept (name_value ob)" for ob by (metis names_kept_def snd_conv)+
  show "names_kept (sv_value ob)" by (rule sv)
  have ext: "names_kept (ext_value ob)" unfolding ext_value_def by (rule names_kept_intros)
  show "names_kept (object_hash ob)" unfolding object_hash_def hash_sv_def
    by (cases "o_type ob") (auto intro!: names_kept_seq names_kept_intros names_kept_branch sv nv ext)
qed

lemma names_kept_copy: "names_kept (copy_string_key_into_region svc ob g)"
  unfolding copy_string_key_into_region_def by (auto intro!: names_kept_seq names_kept_intros names_kept_branch names_kept_basic)

lemma names_kept_clone: "names_kept (clone_into_global svc g ob)"
proof -
  have "names_kept (seq (modify (\<lambda>s. s\<lparr>m_curr_alloc_global := True\<rparr>)) (\<lambda>_.
              seq (lift_trix (make_clone (ds_gc svc) ob)) (\<lambda>global_value.
              seq (modify (\<lambda>s. s\<lparr>m_curr_alloc_global := b\<rparr>)) (\<lambda>_.
              seq (release ob) (\<lambda>_. ret global_value)))))" for b
    by (auto intro!: names_kept_seq names_kept_intros names_kept_basic)
  then show ?thesis unfolding names_kept_def clone_into_global_def Let_def by (auto split: if_splits)
qed

lemma names_kept_journal:
  "names_kept (undo_dict_entry e)" "names_kept (undo_dict_header d)" "names_kept (undo_dict_entry_next e)" "names_kept (dict_save d)"
proof -
  have add: "names_kept (add_undo u n)" for u n unfolding add_undo_def by (auto intro!: names_kept_seq names_kept_intros names_kept_basic)
  have "names_kept (\<lambda>s. case m_journal s (m_curr_save_level s) of h # _ \<Rightarrow> if same_place h u then (Value (), s) else add_undo u n s | [] \<Rightarrow> add_undo u n s)" for u n
    using add unfolding names_kept_def by (auto split: list.splits if_splits)
  then have "names_kept (seq (lift_outcome (\<lambda>s. offset_to_ptr s (m_barrier s (m_curr_save_level s)))) (\<lambda>_ s.
      case m_journal s (m_curr_save_level s) of h # _ \<Rightarrow> if same_place h u then (Value (), s) else add_undo u n s | [] \<Rightarrow> add_undo u n s))" for u n
    by (intro names_kept_seq names_kept_intros)
  then have j: "names_kept (journal_undo u n)" for u n unfolding names_kept_def journal_undo_def by (auto split: if_splits)
  show "names_kept (undo_dict_entry e)" and h: "names_kept (undo_dict_header d)" and "names_kept (undo_dict_entry_next e)"
    using j unfolding names_kept_def undo_dict_entry_def undo_dict_header_def undo_dict_entry_next_def by blast+
  have "names_kept (seq (undo_dict_header d) (\<lambda>_. modify (\<lambda>s. upd_dict d (\<lambda>h. h\<lparr>d_save_level := m_curr_save_level s\<rparr>) s)))"
    by (intro names_kept_seq h names_kept_intros) (simp add: upd_dict_def)
  then show "names_kept (dict_save d)" unfolding names_kept_def dict_save_def by auto
qed

lemma names_kept_release: "names_kept (release_key e)" "names_kept (release_value e)"
proof -
  have "names_kept (seq (release ob) (\<lambda>ob. modify (upd_entry e (\<lambda>x. x\<lparr>e_key := ob\<rparr>))))" "names_kept (seq (release ob) (\<lambda>ob. modify (upd_entry e (\<lambda>x. x\<lparr>e_value := ob\<rparr>))))" for ob
    by (intro names_kept_seq names_kept_basic names_kept_intros; simp add: upd_entry_def)+
  then show "names_kept (release_key e)" "names_kept (release_value e)" unfolding names_kept_def release_key_def release_value_def by blast+
qed

lemma names_kept_expand: "names_kept (expand_dict svc d)"
proof -
  have "names_kept (seq (if g then global_alloc svc n k else local_alloc 4 n) (\<lambda>entries.
      modify (\<lambda>s. upd_dict d (\<lambda>h. h\<lparr>d_maxlength := m\<rparr>) (init_dict_pool d c entries s))))" for g n k m c
    by (intro names_kept_seq names_kept_branch names_kept_basic names_kept_intros) (simp add: upd_dict_def init_dict_pool_def)
  then show ?thesis unfolding names_kept_def expand_dict_def Let_def by (auto split del: if_split split: if_split_asm)
qed

lemma names_kept_existing: "names_kept (put_existing svc d g k v e)"
  unfolding put_existing_def
  by (intro names_kept_seq names_kept_basic names_kept_branch names_kept_release names_kept_journal names_kept_clone names_kept_intros) (simp add: upd_entry_def)

lemma names_kept_new: "names_kept (put_new svc d g k v i)"
proof -
  have pool: "names_kept (save_pool_entry d e)" for e
    using names_kept_journal(1) unfolding names_kept_def save_pool_entry_def by auto
  have roots: "names_kept (require_gc_root_capacity_more n)" "names_kept (gc_root_push ob)" "names_kept (gc_root_pop_n n)" for n ob
    by (auto simp: names_kept_def require_gc_root_capacity_more_def gc_root_push_def gc_root_pop_n_def)
  show ?thesis unfolding put_new_def
    by (intro names_kept_seq names_kept_branch names_kept_copy names_kept_clone pool roots names_kept_intros) (simp_all add: upd_dict_def upd_entry_def)
qed

text \<open>The cache after an insertion: only the name of the entry changes.\<close>

definition rebound :: "binding_mode \<Rightarrow> nat \<Rightarrow> object \<Rightarrow> (nat \<Rightarrow> name) \<Rightarrow> nat \<Rightarrow> name" where
  "rebound mode e k nm =
     (if o_type k = TName
      then nm(m_offset k := (nm (m_offset k))\<lparr>n_binding := (case mode of Bind \<Rightarrow> value_offset e | NoBinding \<Rightarrow> nulloffset)\<rparr>) else nm)"

lemma finish_put_names:
  assumes "finish_put mode e s = (r, s')"
  shows "r = Value e' \<Longrightarrow> e' = e \<and> entry_at s' = entry_at s \<and> name_at s' = rebound mode e (e_key (entry_at s e)) (name_at s)"
    "\<forall>x. r \<noteq> Value x \<Longrightarrow> name_at s' = name_at s"
proof -
  have set: "set_name_binding k off s = (case offset_to_ptr s (m_offset k) of
      Value _ \<Rightarrow> (Value (), s\<lparr>name_at := (name_at s)(m_offset k := (name_at s (m_offset k))\<lparr>n_binding := off\<rparr>)\<rparr>) | Raise er \<Rightarrow> (Raise er, s) | Diverge \<Rightarrow> (Diverge, s) | Fault \<Rightarrow> (Fault, s))" for k off
    by (simp add: set_name_binding_def lift_outcome_def seq_def offset_to_ptr_def)
  show "r = Value e' \<Longrightarrow> e' = e \<and> entry_at s' = entry_at s \<and> name_at s' = rebound mode e (e_key (entry_at s e)) (name_at s)"
    using assms by (auto simp: finish_put_def clear_name_binding_def set seq_def rebound_def value_offset_def
        split: binding_mode.splits outcome.splits if_splits prod.splits)
  show "\<forall>x. r \<noteq> Value x \<Longrightarrow> name_at s' = name_at s"
    using assms by (auto simp: finish_put_def clear_name_binding_def set seq_def split: binding_mode.splits outcome.splits if_splits prod.splits)
qed

definition put_prefix :: "dict_services \<Rightarrow> nat \<Rightarrow> object \<Rightarrow> object \<Rightarrow> (dict_machine, nat) action" where
  "put_prefix svc d key_obj val_obj =
     seq (gets (\<lambda>s. is_global s d)) (\<lambda>container_is_global.
     seq (reject_fragile container_is_global key_obj) (\<lambda>_.
     seq (reject_fragile container_is_global val_obj) (\<lambda>_.
     seq (\<lambda>s. if barrier_relevant_for_localdict s d
              then seq (note_global_into_local svc container_is_global key_obj) (\<lambda>_. note_global_into_local svc container_is_global val_obj) s
              else (Value (), s)) (\<lambda>_.
     seq (find_entry d key_obj) (\<lambda>(i, _, e).
     seq (\<lambda>s. let h = dict_at s d
              in if e = nulloffset \<and> d_length h = d_maxlength h \<and> d_maxlength h \<noteq> 0 \<and> is_dynamic h
                 then seq (dict_save d) (\<lambda>_. expand_dict svc d) s else (Value (), s)) (\<lambda>_.
     seq (gets (\<lambda>s. e \<noteq> nulloffset \<or> d_length (dict_at s d) < d_maxlength (dict_at s d))) (\<lambda>room.
       if room
       then seq (dict_save d) (\<lambda>_.
            if e \<noteq> nulloffset then seq (put_existing svc d container_is_global key_obj val_obj e) (\<lambda>_. ret e)
            else put_new svc d container_is_global key_obj val_obj i)
       else raise DictFull)))))))"

lemma seq_assoc: "seq (seq m f) g = seq m (\<lambda>x. seq (f x) g)"
  by (rule ext) (auto simp: seq_def split: prod.splits outcome.splits)

lemma seq_cong: "(\<And>x. f x = g x) \<Longrightarrow> seq m f = seq m g"
  by (simp add: seq_def cong: outcome.case_cong)

lemma put_split: "put svc d k v mode = seq (put_prefix svc d k v) (finish_put mode)"
proof -
  let ?A = "\<lambda>g e i. if e \<noteq> nulloffset then seq (put_existing svc d g k v e) (\<lambda>_. ret e) else put_new svc d g k v i"
  have tail: "(if room then seq (dict_save d) (\<lambda>_. seq (?A g e i) (\<lambda>e1. finish_put mode e1)) else raise DictFull) =
      seq (if room then seq (dict_save d) (\<lambda>_. ?A g e i) else raise DictFull) (finish_put mode)" for room g e i
    by (cases room) (simp_all only: if_True if_False seq_assoc, simp add: seq_def raise_def)
  show ?thesis unfolding put_def put_prefix_def seq_assoc tail
    by (intro seq_cong) (simp only: split_beta seq_assoc)
qed

lemma names_kept_prefix: "names_kept (put_prefix svc d k v)"
proof -
  have rej: "names_kept (reject_fragile g ob)" for g ob by (auto simp: names_kept_def reject_fragile_def)
  have noted: "names_kept (note_global_into_local svc g ob)" for g ob by (auto simp: names_kept_def note_global_into_local_def split: if_splits)
  have bucket: "names_kept (bucket_index d h)" for h unfolding bucket_index_def by (intro names_kept_seq names_kept_intros)
  have find: "names_kept (find_entry d k)"
    unfolding find_entry_def by (intro names_kept_seq names_kept_basic bucket names_kept_intros) (auto simp: names_kept_def)
  have grow: "names_kept (\<lambda>s. let h = dict_at s d in if e = nulloffset \<and> d_length h = d_maxlength h \<and> d_maxlength h \<noteq> 0 \<and> is_dynamic h
                 then seq (dict_save d) (\<lambda>_. expand_dict svc d) s else (Value (), s))" for e
    unfolding Let_def by (intro names_kept_branch names_kept_seq names_kept_journal names_kept_expand)
  show ?thesis unfolding put_prefix_def split_beta
    by (intro names_kept_seq names_kept_branch names_kept_intros rej noted find grow names_kept_journal names_kept_existing names_kept_new)
qed

lemma put_names:
  assumes "put svc d k v mode s = (r, s')"
  shows "r = Value e \<Longrightarrow> name_at s' = rebound mode e (e_key (entry_at s' e)) (name_at s)" "r = Raise er \<Longrightarrow> name_at s' = name_at s"
proof -
  obtain x s1 where 1: "put_prefix svc d k v s = (x, s1)" by force
  note n1 = names_keptD [OF names_kept_prefix 1]
  have run: "seq (put_prefix svc d k v) (finish_put mode) s = (r, s')" using assms unfolding put_split .
  show "name_at s' = rebound mode e (e_key (entry_at s' e)) (name_at s)" if v: "r = Value e"
  proof -
    obtain y where "x = Value y" "finish_put mode y s1 = (Value e, s')" using run 1 v by (cases x) (auto simp: seq_def)
    from finish_put_names(1) [OF this(2), of e] n1 show ?thesis by simp
  qed
  show "name_at s' = name_at s" if v: "r = Raise er"
  proof (cases x)
    case (Value y)
    then have "finish_put mode y s1 = (Raise er, s')" using run 1 v by (simp add: seq_def)
    from finish_put_names(2) [OF this] n1 show ?thesis by simp
  qed (use run 1 n1 in \<open>auto simp: seq_def\<close>)
qed

text \<open>An update of one dictionary at one key: the entries of other names are what they were.\<close>

definition updated_at :: "dict_machine \<Rightarrow> nat list list \<Rightarrow> key \<Rightarrow> dict_machine \<Rightarrow> nat list list \<Rightarrow> bool" where
  "updated_at s chs K s' chs' \<longleftrightarrow>
     undisturbed s chs K s' chs' \<and> (\<forall>x\<in>set (concat chs'). key_at s' x = K \<or> x \<in> set (concat chs) \<and> key_at s x \<noteq> K) \<and>
     (\<forall>x\<in>set (concat chs'). o_type (e_key (entry_at s' x)) \<noteq> TString)"

lemma bound_entry_updated:
  assumes inv: "dict_inv s names d chs pool" and inv': "dict_inv s' names d chs' pool'" and k: "keeps s s'"
    and upd: "updated_at s chs K s' chs'" and N: "N \<noteq> K"
  shows "bound_entry s' chs' N = bound_entry s chs N"
proof -
  have same: "x \<in> set (concat chs') \<and> key_at s' x = key_at s x \<and> e_value (entry_at s' x) = e_value (entry_at s x)" if x: "x \<in> set (concat chs)" "key_at s x \<noteq> K" for x
    using upd x keeps_key(2) [OF k dict_inv_entry [OF inv x(1)]] unfolding updated_at_def undisturbed_def by metis
  show ?thesis
  proof (cases "N \<in> key_at s ` set (concat chs)")
    case True
    then obtain x where x: "N = key_at s x" "x \<in> set (concat chs)" by (rule imageE)
    then have y: "x \<in> set (concat chs')" "key_at s' x = N" "e_value (entry_at s' x) = e_value (entry_at s x)" using same [of x] N by auto
    show ?thesis using bound_entryI [OF inv x(2)] bound_entryI [OF inv' y(1,2)] x(1) y(3) by simp
  next
    case False
    have "key_at s' x \<noteq> N" if x: "x \<in> set (concat chs')" for x
    proof
      assume n: "key_at s' x = N"
      then have c: "x \<in> set (concat chs)" "key_at s x \<noteq> K" using upd x N unfolding updated_at_def by blast+
      then have "key_at s x = N" using same [OF c] n by simp
      then show False using False c(1) by (metis imageI)
    qed
    then have "N \<notin> key_at s' ` set (concat chs')" by (auto simp del: set_concat)
    then show ?thesis using bound_entry_none False by metis
  qed
qed

lemma world_update:
  assumes w: "world s names Ds C P" and d: "d \<in> Ds" and snd: "sound s' names d chs' pool'"
    and adv: "advance d v s (set (concat (C d) @ P d)) s' (set (concat chs' @ pool'))" and upd: "updated_at s (C d) K s' chs'"
  shows "world s' names Ds (C(d := chs')) (P(d := pool'))"
    "N \<noteq> K \<Longrightarrow> visible s' (C(d := chs')) (dict_stack s') N = visible s C (dict_stack s) N"
proof -
  let ?C = "C(d := chs')" and ?P = "P(d := pool')"
  note k = advanceD(1) [OF adv]
  have inv': "dict_inv s' names d chs' pool'" using snd by (simp add: sound_def)
  have other: "dict_inv s' names x (C x) (P x)" "ready s' x (set (concat (C x) @ P x))" "e \<in> set (concat (C x) @ P x) \<Longrightarrow> entry_at s' e = entry_at s e"
    if x: "x \<in> Ds" "x \<noteq> d" for x e
  proof -
    note ap = worldD(6) [OF w x(1) d x(2)]
    show "dict_inv s' names x (C x) (P x)" by (rule advance_other(1) [OF adv worldD(3) [OF w x(1)] x(2) ap])
    have same: "entry_at s' e = entry_at s e" if e: "e \<in> set (concat (C x) @ P x)" for e
    proof (rule advanceD(4) [OF adv])
      show "e \<notin> set (concat (C d) @ P d)" using ap e by blast
      show "e < m_vm_ptr s \<or> m_vm_temp_ptr s \<le> e" using worldD(4) [OF w x(1) e] by simp
    qed
    then show "e \<in> set (concat (C x) @ P x) \<Longrightarrow> entry_at s' e = entry_at s e" by blast
    have rdy: "ready s x (set (concat (C x) @ P x))" using worldD(2) [OF w x(1)] by (simp add: sound_def)
    show "ready s' x (set (concat (C x) @ P x))"
    proof (rule ready_keep [OF rdy k])
      show "d_save_level (dict_at s' x) = d_save_level (dict_at s x) \<or> d_save_level (dict_at s' x) = m_curr_save_level s"
        using advanceD(3) [OF adv x(2)] by simp
      show "m_object_save_level (e_key (entry_at s' e)) = 0 \<and> m_object_save_level (e_value (entry_at s' e)) = 0"
        if "m_curr_save_level s = 0" "e \<in> set (concat (C x) @ P x)" for e
        using readyD(10) [OF rdy that] same [OF that(2)] by simp
    qed
  qed
  have fresh: "e \<in> set (concat (C d) @ P d) \<or> m_vm_ptr s \<le> e \<and> e < m_vm_temp_ptr s" if "e \<in> set (concat chs' @ pool')" for e
    using advanceD(2) [OF adv] that by blast
  have low: "e + 20 \<le> m_vm_ptr s'" if "e \<in> set (concat chs' @ pool')" for e
  proof (cases "e \<in> set (concat (C d) @ P d)")
    case True
    then show ?thesis using worldD(4) [OF w d True] keepsD(4) [OF k] by simp
  next
    case False
    then show ?thesis using fresh [OF that] dict_invD(13) [OF inv' that] keepsD(2) [OF k] by auto
  qed
  have apart: "set (concat (C x) @ P x) \<inter> set (concat chs' @ pool') = {}" if x: "x \<in> Ds" "x \<noteq> d" for x
    using fresh worldD(6) [OF w x(1) d x(2)] worldD(4) [OF w x(1)] by fastforce
  have ptr: "m_vm_ptr s' \<le> m_vm_temp_ptr s'" using worldD(1) [OF w] k by (simp add: keeps_def)
  show "world s' names Ds ?C ?P" unfolding world_def keepsD(14) [OF k]
  proof (intro conjI ballI impI)
    fix x assume x: "x \<in> Ds"
    show "sound s' names x (?C x) (?P x)" using snd other(1,2) [OF x] by (simp add: sound_def)
    show "e + 20 \<le> m_vm_ptr s'" if "e \<in> set (concat (?C x) @ ?P x)" for e
      using low [of e] worldD(4) [OF w x, of e] keepsD(4) [OF k] that by (simp split: if_splits)
    show "o_type (e_key (entry_at s' e)) \<noteq> TString" if e: "e \<in> set (concat (?C x))" for e
    proof (cases "x = d")
      case True
      then show ?thesis using upd e unfolding updated_at_def by (simp del: set_concat)
    next
      case False
      then show ?thesis using worldD(5) [OF w x, of e] other(3) [OF x False, of e] e by simp
    qed
    show "set (concat (?C x) @ ?P x) \<inter> set (concat (?C y) @ ?P y) = {}" if y: "y \<in> Ds" "x \<noteq> y" for y
      using apart [OF x] apart [OF y(1)] worldD(6) [OF w x y] y(2) by (auto simp del: set_concat)
  next
    show "stack_dict s' ob \<in> Ds" "dict_value s' ob = Value (stack_dict s' ob)" if "ob \<in> set (dict_stack s)" for ob
      using worldD(7,8) [OF w that] keeps_stack_dict [OF k] by simp_all
  qed (rule ptr)
  show "visible s' ?C (dict_stack s') N = visible s C (dict_stack s) N" if N: "N \<noteq> K"
    unfolding keepsD(14) [OF k]
  proof (rule visible_cong)
    fix ob assume ob: "ob \<in> set (dict_stack s)"
    let ?x = "stack_dict s ob"
    note x = worldD(7) [OF w ob]
    have "bound_entry s' (?C ?x) N = bound_entry s (C ?x) N"
    proof (cases "?x = d")
      case True
      then show ?thesis using bound_entry_updated [OF worldD(3) [OF w d] inv' k upd N] by simp
    next
      case False
      then show ?thesis using bound_entry_cong [OF worldD(3) [OF w x] k, of N] other(3) [OF x False] by simp
    qed
    then show "bound_entry s' (?C (stack_dict s' ob)) N = bound_entry s (C ?x) N" using keeps_stack_dict [OF k] by simp
  qed
qed

text \<open>What an update has to do to the cache of the name of the key.\<close>

lemma coherent_update:
  assumes w: "world s names Ds C P" and coh: "coherent s names C" and d: "d \<in> Ds" and snd: "sound s' names d chs' pool'"
    and adv: "advance d v s (set (concat (C d) @ P d)) s' (set (concat chs' @ pool'))" and upd: "updated_at s (C d) K s' chs'"
    and other: "\<And>n. n \<in> names \<Longrightarrow> name_key s n \<noteq> K \<Longrightarrow> name_at s' n = name_at s n"
    and at: "\<And>n. n \<in> names \<Longrightarrow> name_key s n = K \<Longrightarrow> n_binding (name_at s' n) = nulloffset \<or>
      (\<exists>ob e. visible s' (C(d := chs')) (dict_stack s') K = Some (ob, e) \<and> n_binding (name_at s' n) = value_offset e)"
  shows "world s' names Ds (C(d := chs')) (P(d := pool')) \<and> coherent s' names (C(d := chs'))"
proof -
  note up = world_update [OF w d snd adv upd]
  have dat: "name_key s' n = name_key s n" for n using advanceD(1) [OF adv] by (simp add: keeps_def)
  have "\<exists>ob e. visible s' (C(d := chs')) (dict_stack s') (name_key s' n) = Some (ob, e) \<and> n_binding (name_at s' n) = value_offset e"
    if n: "n \<in> names" "n_binding (name_at s' n) \<noteq> nulloffset" for n
  proof (cases "name_key s n = K")
    case True
    then show ?thesis using at [OF n(1)] n(2) dat by simp
  next
    case False
    then show ?thesis using up(2) [OF False] coherentD [OF coh n(1)] other [OF n(1) False] n(2) dat by simp
  qed
  then show ?thesis using up(1) by (simp add: coherent_def)
qed

lemma no_null_key:
  assumes "dict_inv s names d chs pool" "e \<in> set (concat chs)"
  shows "key_at s e \<noteq> KImm TNull 0"
  using dict_inv_entry [OF assms] by (cases "o_type (e_key (entry_at s e))") (simp_all add: plain_key_def key_of_def)

text \<open>Insertion, into any dictionary without binding the name, or into the dictionary on the top of the stack with binding it.\<close>

lemma put_coherent:
  assumes w: "world s names Ds C P" and coh: "coherent s names C" and d: "d \<in> Ds"
    and key: "plain_key s names k" "o_type k \<noteq> TString" and room: "room s (put_need s d k)"
    and rel: "\<forall>e\<in>set (concat (C d)). key_at s e = key_of s k \<longrightarrow> releasable s (e_value (entry_at s e))"
    and mode: "mode = Bind \<Longrightarrow> dict_stack s \<noteq> [] \<and> stack_dict s (hd (dict_stack s)) = d \<and> \<not> is_unset_local v"
    and run: "put svc d k v mode s = (r, s')"
  shows "\<exists>C' P'. world s' names Ds C' P' \<and> coherent s' names C'"
proof -
  let ?K = "key_of s k"
  note inv = worldD(3) [OF w d]
  let ?full = "dict_map s (C d) ?K = None \<and> d_length (dict_at s d) = d_maxlength (dict_at s d) \<and> \<not> growable (dict_at s d)"
  obtain chs' pool' where x: "sound s' names d chs' pool'" "advance d v s (set (concat (C d) @ P d)) s' (set (concat chs' @ pool'))"
      "if ?full then r = Raise DictFull \<and> dict_map s' chs' = dict_map s (C d) \<and> (\<forall>K. undisturbed s (C d) K s' chs') \<and> chs' = C d
       else (\<exists>e. r = Value e \<and> placed s (C d) k s' chs' e) \<and> dict_map s' chs' = (dict_map s (C d))(?K \<mapsto> v\<lparr>m_object_save_level := m_curr_save_level s\<rparr>) \<and>
         undisturbed s (C d) ?K s' chs'"
    using put_ok [OF worldD(2) [OF w d] key(1) room rel, of svc v mode] run by auto
  have "world s' names Ds (C(d := chs')) (P(d := pool')) \<and> coherent s' names (C(d := chs'))"
  proof (cases ?full)
    case True
    let ?N = "KImm TNull 0"
    have y: "r = Raise DictFull" "undisturbed s (C d) ?N s' chs'" "chs' = C d" using x(3) True by auto
    note no = no_null_key [OF inv]
    have "updated_at s (C d) ?N s' chs'"
      using y(2,3) no worldD(5) [OF w d] unfolding updated_at_def undisturbed_def by (metis (no_types, lifting))
    moreover have "name_at s' = name_at s" using put_names(2) [OF run] y(1) by simp
    ultimately show ?thesis by (intro coherent_update [OF w coh d x(1,2)]) auto
  next
    case False
    then obtain e where y: "r = Value e" "placed s (C d) k s' chs' e" "dict_map s' chs' = (dict_map s (C d))(?K \<mapsto> v\<lparr>m_object_save_level := m_curr_save_level s\<rparr>)"
        "undisturbed s (C d) ?K s' chs'"
      using x(3) by auto
    have e: "e \<in> set (concat chs')" "key_at s' e = ?K" "x \<in> set (concat chs') \<Longrightarrow> x = e \<or> x \<in> set (concat (C d))" for x
      using y(2) unfolding placed_def by blast+
    have keep: "key_at s x \<noteq> ?K" if "x \<in> set (concat (C d))" "x \<noteq> e" for x
    proof (cases "e \<in> set (concat (C d))")
      case True
      then have "e_key (entry_at s' e) = e_key (entry_at s e)" using y(2) unfolding placed_def by (simp del: set_concat)
      then have "key_at s e = ?K" using keeps_key(2) [OF advanceD(1) [OF x(2)] dict_inv_entry [OF inv True]] e(2) by simp
      then show ?thesis using inj_onD [OF dict_invD(8) [OF inv], of x e] that True by metis
    next
      case False
      then show ?thesis using y(2) that(1) unfolding placed_def by (simp del: set_concat)
    qed
    have str: "o_type (e_key (entry_at s' e)) \<noteq> TString"
      using y(2) key(2) worldD(5) [OF w d, of e] unfolding placed_def by (auto simp del: set_concat split: if_splits)
    have upd: "updated_at s (C d) ?K s' chs'"
      unfolding updated_at_def
    proof (intro conjI ballI)
      fix x assume "x \<in> set (concat chs')"
      then consider "x = e" | "x \<noteq> e" "x \<in> set (concat (C d))" using e(3) by blast
      then show "key_at s' x = ?K \<or> x \<in> set (concat (C d)) \<and> key_at s x \<noteq> ?K" "o_type (e_key (entry_at s' x)) \<noteq> TString"
        by (cases; use e(2) keep str y(4) worldD(5) [OF w d] in \<open>auto simp: undisturbed_def simp del: set_concat\<close>)+
    qed (rule y(4))
    note up = world_update [OF w d x(1,2) upd]
    have names: "name_at s' = rebound mode e (e_key (entry_at s' e)) (name_at s)" by (rule put_names(1) [OF run y(1)])
    have dat: "name_key s' n = name_key s n" for n using advanceD(1) [OF x(2)] by (simp add: keeps_def)
    have is_n: "?K = name_key s n \<longleftrightarrow> o_type (e_key (entry_at s' e)) = TName \<and> m_offset (e_key (entry_at s' e)) = n" if "n \<in> names" for n
      using entry_of_name [OF up(1) d that, of e] e(1,2) dat by simp
    show ?thesis
    proof (rule coherent_update [OF w coh d x(1,2) upd])
      fix n assume n: "n \<in> names"
      show "name_at s' n = name_at s n" if "name_key s n \<noteq> ?K" using is_n [OF n] that unfolding names rebound_def by auto
      assume K: "name_key s n = ?K"
      then have b: "n_binding (name_at s' n) = (case mode of Bind \<Rightarrow> value_offset e | NoBinding \<Rightarrow> nulloffset)"
        using is_n [OF n] unfolding names rebound_def by simp
      show "n_binding (name_at s' n) = nulloffset \<or>
          (\<exists>ob e. visible s' (C(d := chs')) (dict_stack s') ?K = Some (ob, e) \<and> n_binding (name_at s' n) = value_offset e)"
      proof (cases mode)
        case Bind
        have inv': "dict_inv s' names d chs' pool'" using x(1) by (simp add: sound_def)
        have "dict_map s' chs' ?K = Some (e_value (entry_at s' e))" using dict_map_at [OF inv' e(1)] e(2) by simp
        then have "e_value (entry_at s' e) = v\<lparr>m_object_save_level := m_curr_save_level s\<rparr>" using y(3) by simp
        then have "\<not> is_unset_local (e_value (entry_at s' e))" using mode [OF Bind] by (simp add: is_unset_local_def)
        then have be: "bound_entry s' chs' ?K = Some e" using bound_entryI [OF inv' e(1,2)] by simp
        obtain ob obs where "dict_stack s = ob # obs" "stack_dict s ob = d" using mode [OF Bind] by (cases "dict_stack s") auto
        then have "dict_stack s' = ob # obs" "stack_dict s' ob = d" using keepsD(14) keeps_stack_dict advanceD(1) [OF x(2)] by simp_all
        then show ?thesis using be b Bind by simp
      qed (use b in simp)
    qed
  qed
  then show ?thesis by blast
qed

lemma undef_coherent:
  assumes w: "world s names Ds C P" and coh: "coherent s names C" and d: "d \<in> Ds"
    and key: "plain_key s names k" and room: "room s (undef_need s d)" and loops: "\<forall>ob\<in>set (s_objs (m_exec s)). \<not> operator_is_dictforall ob"
    and rel: "\<forall>e\<in>set (concat (C d)). key_at s e = key_of s k \<longrightarrow> releasable s (e_value (entry_at s e))"
    and run: "undef d k s = (r, s')"
  shows "\<exists>C' P'. world s' names Ds C' P' \<and> coherent s' names C'"
proof -
  let ?K = "key_of s k"
  note inv = worldD(3) [OF w d]
  obtain s1 chs' pool' where "undef d k s = (Value (), s1)" and x: "sound s1 names d chs' pool'" "advance d make_null s (set (concat (C d) @ P d)) s1 (set (concat chs' @ pool'))"
      "undisturbed s (C d) ?K s1 chs'" "set (concat chs') = {x \<in> set (concat (C d)). key_at s x \<noteq> ?K}"
      "name_at s1 = name_at s \<and> (\<forall>e\<in>set (concat (C d)). key_at s e \<noteq> ?K) \<or>
       (\<exists>e\<in>set (concat (C d)). key_at s e = ?K \<and> name_at s1 = unbound (e_key (entry_at s e)) (name_at s))"
    using undef_ok [OF worldD(2) [OF w d] key room loops rel, of make_null] by blast
  then have s1: "s1 = s'" using run by simp
  have sub: "x \<in> set (concat (C d))" "key_at s x \<noteq> ?K" "o_type (e_key (entry_at s' x)) \<noteq> TString" if "x \<in> set (concat chs')" for x
    using that x(3,4) worldD(5) [OF w d, of x] unfolding s1 undisturbed_def by (simp_all del: set_concat)
  have "world s' names Ds (C(d := chs')) (P(d := pool')) \<and> coherent s' names (C(d := chs'))"
    using x(5)
  proof
    assume none: "name_at s1 = name_at s \<and> (\<forall>e\<in>set (concat (C d)). key_at s e \<noteq> ?K)"
    have "updated_at s (C d) (KImm TNull 0) s' chs'"
      using x(3,4) none no_null_key [OF inv] sub unfolding updated_at_def undisturbed_def s1 by blast
    then show ?thesis by (intro coherent_update [OF w coh d x(1,2) [unfolded s1]]) (use none s1 in auto)
  next
    assume "\<exists>e\<in>set (concat (C d)). key_at s e = ?K \<and> name_at s1 = unbound (e_key (entry_at s e)) (name_at s)"
    then obtain e where e: "e \<in> set (concat (C d))" "key_at s e = ?K" "name_at s' = unbound (e_key (entry_at s e)) (name_at s)" unfolding s1 by blast
    have upd: "updated_at s (C d) ?K s' chs'" using x(3) sub unfolding updated_at_def s1 by blast
    have is_n: "?K = name_key s n \<longleftrightarrow> o_type (e_key (entry_at s e)) = TName \<and> m_offset (e_key (entry_at s e)) = n" if "n \<in> names" for n
      using entry_of_name [OF w d that e(1)] e(2) by simp
    show ?thesis
    proof (rule coherent_update [OF w coh d x(1,2) [unfolded s1] upd])
      fix n assume n: "n \<in> names"
      show "name_at s' n = name_at s n" if "name_key s n \<noteq> ?K" using is_n [OF n] that unfolding e(3) unbound_def by auto
      assume K: "name_key s n = ?K"
      then have "n_binding (name_at s' n) = nulloffset" using is_n [OF n] unfolding e(3) unbound_def by simp
      then show "n_binding (name_at s' n) = nulloffset \<or>
          (\<exists>ob e. visible s' (C(d := chs')) (dict_stack s') ?K = Some (ob, e) \<and> n_binding (name_at s' n) = value_offset e)" ..
    qed
  qed
  then show ?thesis by blast
qed

section \<open>Lookup\<close>

lemma lookup_coherent:
  assumes w: "world s names Ds C P" and coh: "coherent s names C" and key: "plain_key s names k" "o_type k = TName"
    and run: "name_lookup_in_stack k s = (r, s')"
  shows "world s' names Ds C P \<and> coherent s' names C"
proof (cases "visible s C (dict_stack s) (key_of s k)")
  case None
  then show ?thesis using name_lookup_in_stack_ok [OF w key] run w coh by simp
next
  case (Some p)
  then obtain ob e where p: "visible s C (dict_stack s) (key_of s k) = Some (ob, e)" by (cases p) simp
  then have s': "s' = bind_name (m_offset k) (value_offset e) s" using name_lookup_in_stack_ok [OF w key] run by simp
  have "key_of s k = name_key s (m_offset k)" using key(2) by (simp add: key_of_def)
  then have "coherent s' names C" unfolding s' using p by (intro coherent_rebind [OF w coh]) simp
  then show ?thesis using world_keep(1) [OF w bind_name_keeps] unfolding s' by simp
qed

lemma visible_entry:
  assumes w: "world s names Ds C P" and obs: "set obs \<subseteq> set (dict_stack s)" and v: "visible s C obs K = Some (ob, e)"
  shows "\<exists>d\<in>Ds. e \<in> set (concat (C d))"
  using obs v
proof (induction obs)
  case (Cons x obs)
  show ?case
  proof (cases "bound_entry s (C (stack_dict s x)) K")
    case None
    then show ?thesis using Cons by simp
  next
    case (Some y)
    then have "y = e" using Cons.prems(2) by simp
    then show ?thesis using bound_entryD [OF Some] worldD(7) [OF w, of x] Cons.prems(1) by auto
  qed
qed simp

text \<open>The search with the cache gives the result of the walk without it, for names that are not paths.\<close>

lemma name_search_ok:
  assumes w: "world s names Ds C P" and coh: "coherent s names C" and key: "plain_key s names k" "o_type k = TName"
    and nopath: "n_data (name_at s (m_offset k)) = [] \<or> hd (n_data (name_at s (m_offset k))) \<noteq> 58"
  shows "fst (name_search paths k s) = Value (map_option (value_offset \<circ> snd) (visible s C (dict_stack s) (key_of s k)))"
    "name_search paths k s = (r, s') \<Longrightarrow> world s' names Ds C P \<and> coherent s' names C"
proof -
  let ?n = "name_at s (m_offset k)"
  have nv: "name_value k s = (Value ?n, s)" using key by (simp add: plain_key_def name_value_ok)
  have K: "key_of s k = name_key s (m_offset k)" "m_offset k \<in> names" using key by (simp_all add: key_of_def plain_key_def)
  have "fst (name_search paths k s) = Value (map_option (value_offset \<circ> snd) (visible s C (dict_stack s) (key_of s k))) \<and>
    (name_search paths k s = (r, s') \<longrightarrow> world s' names Ds C P \<and> coherent s' names C)"
  proof (cases "n_binding ?n = nulloffset")
    case True
    then have "name_search paths k s = name_lookup_in_stack k s" using nv nopath by (auto simp: name_search_def cached_binding_def)
    then show ?thesis using name_lookup_in_stack_ok [OF w key] lookup_coherent [OF w coh key] by (auto split: option.splits)
  next
    case False
    obtain ob e where v: "visible s C (dict_stack s) (key_of s k) = Some (ob, e)" "n_binding ?n = value_offset e"
      using coherentD [OF coh K(2) False] K(1) by auto
    then obtain d where d: "d \<in> Ds" "e \<in> set (concat (C d))" using visible_entry [OF w _ v(1)] by blast
    have "value_offset e < m_vm_limit s"
      using worldD(4) [OF w d(1), of e] d(2) worldD(1) [OF w] worldD(2) [OF w d(1)] readyD(2,3) [of s d] by (fastforce simp: value_offset_def sound_def)
    then have "name_search paths k s = (Value (Some (value_offset e)), s)"
      using nv False v(2) by (simp add: name_search_def cached_binding_def lift_outcome_def seq_def offset_to_ptr_def value_offset_def nulloffset_def)
    then show ?thesis using v(1) w coh by auto
  qed
  then show "fst (name_search paths k s) = Value (map_option (value_offset \<circ> snd) (visible s C (dict_stack s) (key_of s k)))"
    "name_search paths k s = (r, s') \<Longrightarrow> world s' names Ds C P \<and> coherent s' names C" by blast+
qed

section \<open>Programs that use the dictionary stack\<close>

text \<open>
  The operations that change the dictionaries, the dictionary stack or the cache, each with what it needs: the names and dictionaries
  are known, there is room in the heap, and no string is used as a key.
\<close>

inductive dict_step :: "dict_services \<Rightarrow> nat set \<Rightarrow> nat set \<Rightarrow> dict_machine \<Rightarrow> dict_machine \<Rightarrow> bool"
  for svc :: dict_services and names :: "nat set" and Ds :: "nat set" where
  step_begin: "begin_op s = (Value (), s') \<Longrightarrow> stack_dict s (hd (s_objs (m_op s))) \<in> Ds \<Longrightarrow> dict_step svc names Ds s s'"
| step_end: "end_op s = (Value (), s') \<Longrightarrow> dict_step svc names Ds s s'"
| step_put: "put svc d k v NoBinding s = (r, s') \<Longrightarrow> d \<in> Ds \<Longrightarrow> plain_key s names k \<Longrightarrow> o_type k \<noteq> TString \<Longrightarrow> room s (put_need s d k) \<Longrightarrow>
    (\<And>e. releasable s (e_value (entry_at s e))) \<Longrightarrow> dict_step svc names Ds s s'"
| step_bind: "put svc d k v Bind s = (r, s') \<Longrightarrow> d \<in> Ds \<Longrightarrow> plain_key s names k \<Longrightarrow> o_type k \<noteq> TString \<Longrightarrow> room s (put_need s d k) \<Longrightarrow>
    (\<And>e. releasable s (e_value (entry_at s e))) \<Longrightarrow> dict_stack s \<noteq> [] \<Longrightarrow> stack_dict s (hd (dict_stack s)) = d \<Longrightarrow> \<not> is_unset_local v \<Longrightarrow>
    dict_step svc names Ds s s'"
| step_undef: "undef d k s = (r, s') \<Longrightarrow> d \<in> Ds \<Longrightarrow> plain_key s names k \<Longrightarrow> room s (undef_need s d) \<Longrightarrow>
    (\<And>e. releasable s (e_value (entry_at s e))) \<Longrightarrow> \<forall>ob\<in>set (s_objs (m_exec s)). \<not> operator_is_dictforall ob \<Longrightarrow> dict_step svc names Ds s s'"
| step_cached: "name_search paths k s = (r, s') \<Longrightarrow> plain_key s names k \<Longrightarrow> o_type k = TName \<Longrightarrow>
    n_data (name_at s (m_offset k)) = [] \<or> hd (n_data (name_at s (m_offset k))) \<noteq> 58 \<Longrightarrow> dict_step svc names Ds s s'"
| step_search: "name_lookup_in_stack k s = (r, s') \<Longrightarrow> plain_key s names k \<Longrightarrow> o_type k = TName \<Longrightarrow> dict_step svc names Ds s s'"

lemma dict_step_coherent:
  assumes "dict_step svc names Ds s s'" "world s names Ds C P" "coherent s names C"
  shows "\<exists>C P. world s' names Ds C P \<and> coherent s' names C"
  using assms(1)
proof cases
  case step_begin
  then show ?thesis using begin_coherent [OF assms(2,3)] by blast
next
  case step_end
  then show ?thesis using end_coherent [OF assms(2,3)] by blast
next
  case (step_put d k v r)
  then show ?thesis using put_coherent [OF assms(2,3) step_put(2-5) _ _ step_put(1)] by simp
next
  case (step_bind d k v r)
  then show ?thesis using put_coherent [OF assms(2,3) step_bind(2-5) _ _ step_bind(1)] by simp
next
  case (step_undef d k r)
  then show ?thesis using undef_coherent [OF assms(2,3) step_undef(2-4) step_undef(6) _ step_undef(1)] by simp
next
  case (step_cached paths k r)
  then show ?thesis using name_search_ok(2) [OF assms(2,3) step_cached(2,3,4,1)] by blast
next
  case (step_search k r)
  then show ?thesis using lookup_coherent [OF assms(2,3) step_search(2,3,1)] by blast
qed

lemma dict_steps_coherent:
  assumes "(dict_step svc names Ds)\<^sup>*\<^sup>* s s'" "world s names Ds C P" "coherent s names C"
  shows "\<exists>C P. world s' names Ds C P \<and> coherent s' names C"
  using assms(1)
proof (induction rule: rtranclp_induct)
  case base
  then show ?case using assms(2,3) by blast
next
  case (step t u)
  then show ?case using dict_step_coherent by blast
qed

end
