(* ===== verification/Lookup_Theorems.thy ===== *)
theory Lookup_Theorems
  imports Binding_Cache
begin

text \<open>
  What lookup with the cache promises, and where the cache and the definitions that persist go wrong.
\<close>

section \<open>An example\<close>

text \<open>
  A machine at the base level whose dictionary stack has a dictionary at 64 above four times an empty one at 200; the dictionary at 64 has one entry, with the
  key \<open>k\<close>. The name \<open>A\<close> is at offset 16.
\<close>

definition dict_ref :: "nat \<Rightarrow> object" where "dict_ref d = (make_object TDict 0)\<lparr>m_offset := d\<rparr>"
definition text_A :: object where "text_A = (make_object TString 0)\<lparr>m_offset := 64, m_length := 1\<rparr>"

definition lookup_example :: "object \<Rightarrow> dict_machine" where
  "lookup_example k = dict_example\<lparr>m_curr_save_level := 0,
     dict_at := (\<lambda>_. \<lparr>d_pool = 0, d_length = 0, d_maxlength = 0, d_access = ReadWriteAccess, d_save_level = 0, d_buckets = [0]\<rparr>)
       (64 := \<lparr>d_pool = 0, d_length = 1, d_maxlength = 1, d_access = ReadWriteAccess, d_save_level = 0, d_buckets = [84]\<rparr>),
     entry_at := (\<lambda>_. \<lparr>e_next = 0, e_key = null_at 0, e_value = null_at 0\<rparr>)(84 := \<lparr>e_next = 0, e_key = k, e_value = number 0 1\<rparr>),
     m_dict := (empty_stack 8)\<lparr>s_objs := [dict_ref 64, dict_ref 200, dict_ref 200, dict_ref 200, dict_ref 200]\<rparr>\<rparr>"

definition example_chains :: "nat \<Rightarrow> nat list list" where "example_chains = (\<lambda>_. [[]])(64 := [[84]])"

lemma lookup_example_fields [simp]:
  "m_vm_ptr (lookup_example k) = 512" "m_vm_temp_ptr (lookup_example k) = 1024" "m_vm_global (lookup_example k) = 1024" "m_vm_limit (lookup_example k) = 1024"
  "m_curr_save_level (lookup_example k) = 0" "m_eqdict (lookup_example k) = 924" "m_eqset (lookup_example k) = 928"
  "m_gc_roots (lookup_example k) = []" "gc_root_slots (lookup_example k) = 8"
  "dict_at (lookup_example k) = (\<lambda>_. \<lparr>d_pool = 0, d_length = 0, d_maxlength = 0, d_access = ReadWriteAccess, d_save_level = 0, d_buckets = [0]\<rparr>)
       (64 := \<lparr>d_pool = 0, d_length = 1, d_maxlength = 1, d_access = ReadWriteAccess, d_save_level = 0, d_buckets = [84]\<rparr>)"
  "entry_at (lookup_example k) = (\<lambda>_. \<lparr>e_next = 0, e_key = null_at 0, e_value = null_at 0\<rparr>)(84 := \<lparr>e_next = 0, e_key = k, e_value = number 0 1\<rparr>)"
  "dict_stack (lookup_example k) = [dict_ref 64, dict_ref 200, dict_ref 200, dict_ref 200, dict_ref 200]"
  "n_data (name_at (lookup_example k) 16) = [65]" "n_binding (name_at (lookup_example k) 16) = 0" "n_hash (name_at (lookup_example k) 16) = (case wyhash32_sv [65] of Value h \<Rightarrow> h | _ \<Rightarrow> 0)"
  "string_mem (lookup_example k) = (\<lambda>_. 0)(64 := 65)"
  by (simp_all add: lookup_example_def dict_example_def key_example_def trix.defs key_machine.defs dict_machine.defs small_machine_def empty_stack_def)

lemma dict_ref_fields [simp]: "dict_value s (dict_ref d) = offset_to_ptr s d" "offset_to_ptr s d = Value d \<Longrightarrow> stack_dict s (dict_ref d) = d"
  by (simp_all add: dict_ref_def dict_value_def make_object_def stack_dict_def)

lemma example_keys:
  "plain_key (lookup_example k) {16} name_A" "plain_key (lookup_example k) {16} text_A" "key_of (lookup_example k) name_A = KText [65]" "key_of (lookup_example k) text_A = KText [65]"
  "o_type name_A = TName" "o_type text_A = TString" "m_offset name_A = 16"
proof -
  show "plain_key (lookup_example k) {16} name_A" using wyhash_inside [of "[65]"]
    by (auto simp: plain_key_def key_ok_def name_A_def make_object_def uses_cell_types offset_to_ptr_def nulloffset_def is_eqstring_ref_def)
  show "plain_key (lookup_example k) {16} text_A"
    by (simp add: plain_key_def key_ok_def text_A_def make_object_def uses_cell_types offset_to_ptr_def nulloffset_def is_eqstring_ref_def string_base_def)
  show "key_of (lookup_example k) name_A = KText [65]" "key_of (lookup_example k) text_A = KText [65]"
    by (simp_all add: key_of_def name_A_def text_A_def make_object_def string_bytes_def string_base_def is_eqstring_ref_def)
qed (simp_all add: name_A_def text_A_def make_object_def)

lemma example_dicts:
  assumes "plain_key (lookup_example k) {16} k" "m_object_save_level k = 0"
  shows "sound (lookup_example k) {16} 64 [[84]] []" "d \<noteq> 64 \<Longrightarrow> d < 900 \<Longrightarrow> sound (lookup_example k) {16} d [[]] []"
proof -
  have valid: "bucket_count_is_valid (Suc 0)" by (simp add: bucket_count_is_valid_def dict_bucket_counts_def)
  show "sound (lookup_example k) {16} 64 [[84]] []"
    using assms valid by (simp add: sound_def dict_inv_def ready_def dict_home_def interned_def max_length_def nulloffset_def is_global_def)
  show "sound (lookup_example k) {16} d [[]] []" if "d \<noteq> 64" "d < 900"
    using valid that by (simp add: sound_def dict_inv_def ready_def dict_home_def interned_def max_length_def nulloffset_def is_global_def)
qed

lemma example_world: "world (lookup_example name_A) {16} {64, 200} example_chains (\<lambda>_. [])" "coherent (lookup_example name_A) {16} C"
proof -
  have lv: "m_object_save_level name_A = 0" by (simp add: name_A_def make_object_def)
  have st: "stack_dict (lookup_example k) (dict_ref d) = d \<and> dict_value (lookup_example k) (dict_ref d) = Value d" if "0 < d" "d < 1024" for k d
    using that by (simp add: offset_to_ptr_def nulloffset_def)
  show "world (lookup_example name_A) {16} {64, 200} example_chains (\<lambda>_. [])"
    using example_dicts [OF example_keys(1) lv] st [of 64 name_A] st [of 200 name_A] example_keys(5) by (simp add: world_def example_chains_def)
  show "coherent (lookup_example name_A) {16} C" by (simp add: coherent_def nulloffset_def)
qed

section \<open>Lookup with the cache\<close>

text \<open>
  C3. The cache never changes what a name means: after any sequence of pushing and popping dictionaries, defining names, removing them and looking them
  up, the search that uses the cache returns what a walk of the dictionary stack returns, as long as no string is a key and the name is not a path.
\<close>

theorem cached_lookup_exact:
  assumes start: "world s0 names Ds C P" "coherent s0 names C" and steps: "(dict_step svc names Ds)\<^sup>*\<^sup>* s0 s"
    and key: "plain_key s names k" "o_type k = TName" and nopath: "n_data (name_at s (m_offset k)) = [] \<or> hd (n_data (name_at s (m_offset k))) \<noteq> 58"
  shows "fst (name_search paths k s) = fst (name_lookup_in_stack k s)"
proof -
  obtain C' P' where w: "world s names Ds C' P'" "coherent s names C'" using dict_steps_coherent [OF steps start] by blast
  show ?thesis using name_search_ok(1) [OF w key nopath] name_lookup_in_stack_ok [OF w(1) key] by (auto split: option.splits)
qed

theorem cached_lookup_exact_witness:
  "\<exists>s. name_lookup_in_stack name_A (lookup_example name_A) = (Value (Some 96), s) \<and> fst (name_search (\<lambda>_. ret None) name_A s) = fst (name_lookup_in_stack name_A s)"
proof -
  let ?s = "lookup_example name_A"
  have "visible ?s example_chains (dict_stack ?s) (KText [65]) = Some (dict_ref 64, 84)"
    using example_keys(3) by (simp add: bound_entry_def example_chains_def offset_to_ptr_def nulloffset_def)
  then have run: "name_lookup_in_stack name_A ?s = (Value (Some 96), bind_name 16 96 ?s)" (is "_ = (_, ?t)")
    using name_lookup_in_stack_ok [OF example_world(1) example_keys(1,5)] example_keys(3,7) by (simp add: value_offset_def)
  have "dict_step svc_example {16} {64, 200} ?s ?t" using run example_keys(1,5) by (rule step_search)
  then have step: "(dict_step svc_example {16} {64, 200})\<^sup>*\<^sup>* ?s ?t" by (rule r_into_rtranclp [where r = "dict_step svc_example {16} {64, 200}"])
  have key: "plain_key ?t {16} name_A" using keeps_key(1) [OF bind_name_keeps example_keys(1)] .
  have "fst (name_search (\<lambda>_. ret None) name_A ?t) = fst (name_lookup_in_stack name_A ?t)"
    by (rule cached_lookup_exact [OF example_world step key example_keys(5)]) (simp add: example_keys(7))
  then show ?thesis using run by blast
qed

section \<open>Strings as keys\<close>

text \<open>
  C32. A binding to an entry whose key is a string survives the dictionary: looking a name up caches the entry of the dictionary on the top of the stack, \<open>end\<close> pops the
  dictionary but clears only the cache of names that are keys, and the next lookup returns the value in the dictionary that was popped, although no dictionary on the stack has the name.
\<close>

theorem popped_string_binding:
  assumes stack: "\<forall>ob\<in>set (dict_stack s). dict_value s ob = Value (stack_dict s ob) \<and> dict_inv s names (stack_dict s ob) (C (stack_dict s ob)) (P (stack_dict s ob))"
    and top: "dict_stack s = ob # obs" "PermanentDictCount < length (dict_stack s)" "\<not> dict_is_frame (dict_at s (stack_dict s ob))"
    and key: "plain_key s names k" "o_type k = TName" and limit: "value_offset e < m_vm_limit s"
    and found: "bound_entry s (C (stack_dict s ob)) (key_of s k) = Some e" "o_type (e_key (entry_at s e)) = TString" "visible s C obs (key_of s k) = None"
  shows "\<exists>s1 s2. name_lookup_in_stack k s = (Value (Some (value_offset e)), s1) \<and> end_op s1 = (Value (), s2) \<and>
    fst (name_search paths k s2) = Value (Some (value_offset e)) \<and> fst (name_lookup_in_stack k s2) = Value None"
proof -
  let ?d = "stack_dict s ob" and ?n = "m_offset k" and ?b = "value_offset e"
  have inv: "dict_inv s names ?d (C ?d) (P ?d)" and dv: "dict_value s ob = Value ?d" using stack top(1) by auto
  have h: "n_hash (name_at s ?n) = hash_of_key (key_of s k)" "name_value k s = (Value (name_at s ?n), s)"
    using key name_value_ok [of s k] by (simp_all add: plain_key_def key_ok_def key_of_def hash_of_key_def)
  have f: "first_with (name_in_dict k) (hash_of_key (key_of s k)) (dict_stack s) s = (Value (visible s C (dict_stack s) (key_of s k)), s)"
    by (rule first_with_ok [where P = P, OF _ key(1)]) (use stack in blast)
  define s1 where "s1 = bind_name ?n ?b s"
  have run1: "name_lookup_in_stack k s = (Value (Some ?b), s1)"
    using f h set_name_binding_ok [OF key] found(1) top(1) by (simp add: name_lookup_in_stack_def s1_def)
  have k1: "keeps s s1" by (simp add: s1_def bind_name_keeps)
  have inv1: "dict_inv s1 names ?d (C ?d) (P ?d)"
    using dict_inv_keep(1) [OF inv k1] by (simp add: s1_def)
  let ?ds = "(m_dict s)\<lparr>s_objs := obs\<rparr>"
  define s1' where "s1' = with_stacks (m_op s1) ?ds s1"
  have inv1': "dict_inv s1' names ?d (C ?d) (P ?d)"
    using inv1 by (simp add: s1'_def dict_inv_def dict_home_def interned_def cong: inj_on_cong)
  let ?nm = "fold (write_binding (unbind_of s1')) (concat (C ?d)) (name_at s1')"
  define s2 where "s2 = with_names ?nm s1'"
  have clear: "clear_name_bindings ?d s1' = (Value (), s2)" using name_bindings_ok(2) [OF inv1'] by (simp add: s2_def)
  have pop: "upd_dict_stack (drop 1) s1 = (Value (), s1')" using top(1) by (simp add: upd_dict_stack_def s1'_def with_stacks_def s1_def bind_name_def)
  have "dict_value s1 ob = Value ?d" "dict_stack s1 = ob # obs" "dict_at s1 = dict_at s" using dv top(1) keeps_stack_dict [OF k1] by (simp_all add: s1_def)
  then have run2: "end_op s1 = (Value (), s2)" using top pop clear by (simp add: end_op_def lift_outcome_def)
  have nobody: "unbind_of s1' x \<noteq> Some (?n, off)" if x: "x \<in> set (concat (C ?d))" for x off
  proof
    assume "unbind_of s1' x = Some (?n, off)"
    then have ty: "o_type (e_key (entry_at s x)) = TName" "m_offset (e_key (entry_at s x)) = ?n" by (auto simp: unbind_of_def s1'_def s1_def split: if_splits)
    then have "key_at s x = key_of s k" using key(2) by (simp add: key_of_def)
    then have "x = e" using inj_onD [OF dict_invD(8) [OF inv], of x e] x bound_entryD [OF found(1)] by simp
    then show False using ty(1) found(2) by simp
  qed
  have n2: "name_at s2 ?n = (name_at s ?n)\<lparr>n_binding := ?b\<rparr>"
    using write_binding_other [of "concat (C ?d)", OF nobody] by (simp add: s2_def s1'_def s1_def bind_name_def)
  have k2: "keeps s1' s2" unfolding s2_def by (rule with_names_keeps) (simp add: write_binding_text)
  have key1: "plain_key s1' names k" "key_of s1' k = key_of s k" using keeps_key [OF k1 key(1)] by (simp_all add: s1'_def)
  note key2 = keeps_key [OF k2 key1(1)]
  have nv2: "name_value k s2 = (Value (name_at s2 ?n), s2)" using name_value_ok [of s2 k] key2(1) key(2) by (simp add: plain_key_def)
  have "fst (name_search paths k s2) = Value (Some ?b)"
    using nv2 n2 limit by (simp add: name_search_def cached_binding_def lift_outcome_def seq_def offset_to_ptr_def value_offset_def nulloffset_def s2_def s1'_def s1_def bind_name_def with_names_def)
  moreover have "fst (name_lookup_in_stack k s2) = Value None"
  proof -
    have st: "dict_stack s2 = obs" by (simp add: s2_def s1'_def)
    have same: "stack_dict s2 x = stack_dict s x" "dict_value s2 x = dict_value s x" for x
      using keeps_stack_dict [OF k2, of x] keeps_stack_dict [OF k1, of x] by (simp_all add: s1'_def)
    have d2: "dict_inv s2 names (stack_dict s x) (C (stack_dict s x)) (P (stack_dict s x)) \<and>
        bound_entry s2 (C (stack_dict s x)) K = bound_entry s (C (stack_dict s x)) K" if x: "x \<in> set obs" for x K
    proof -
      have i: "dict_inv s names (stack_dict s x) (C (stack_dict s x)) (P (stack_dict s x))" using stack top(1) x by simp
      have i1: "dict_inv s1 names (stack_dict s x) (C (stack_dict s x)) (P (stack_dict s x))" using dict_inv_keep(1) [OF i k1] by (simp add: s1_def)
      then have i1': "dict_inv s1' names (stack_dict s x) (C (stack_dict s x)) (P (stack_dict s x))"
        by (simp add: s1'_def dict_inv_def dict_home_def interned_def cong: inj_on_cong)
      have "bound_entry s2 (C (stack_dict s x)) K = bound_entry s1' (C (stack_dict s x)) K" by (rule bound_entry_cong [OF i1' k2]) (simp_all add: s2_def)
      moreover have "bound_entry s1 (C (stack_dict s x)) K = bound_entry s (C (stack_dict s x)) K" by (rule bound_entry_cong [OF i k1]) (simp_all add: s1_def)
      ultimately show ?thesis using dict_inv_keep(1) [OF i1' k2] by (simp add: s2_def s1'_def)
    qed
    have "first_with (name_in_dict k) (hash_of_key (key_of s2 k)) obs s2 = (Value (visible s2 C obs (key_of s2 k)), s2)"
      by (rule first_with_ok [where P = P, OF _ key2(1)]) (use stack top(1) same d2 in simp)
    moreover have "visible s2 C obs (key_of s2 k) = None"
      using found(3) visible_cong [of obs s2 C "key_of s k" s C] d2 same key1(2) key2(2) by simp
    moreover have "n_hash (name_at s2 ?n) = hash_of_key (key_of s2 k)" using n2 h(1) key1(2) key2(2) by simp
    ultimately show ?thesis using nv2 st by (simp add: name_lookup_in_stack_def)
  qed
  ultimately show ?thesis using run1 run2 by blast
qed

theorem popped_string_binding_witness:
  "\<exists>s1 s2. name_lookup_in_stack name_A (lookup_example text_A) = (Value (Some 96), s1) \<and> end_op s1 = (Value (), s2) \<and>
     fst (name_search (\<lambda>_. ret None) name_A s2) = Value (Some 96) \<and> fst (name_lookup_in_stack name_A s2) = Value None"
proof -
  let ?s = "lookup_example text_A"
  have lv: "m_object_save_level text_A = 0" by (simp add: text_A_def make_object_def)
  have st: "stack_dict ?s (dict_ref d) = d \<and> dict_value ?s (dict_ref d) = Value d" if "0 < d" "d < 1024" for d
    using that by (simp add: offset_to_ptr_def nulloffset_def)
  note d = example_dicts [OF example_keys(2) lv]
  have stack: "\<forall>ob\<in>set (dict_stack ?s). dict_value ?s ob = Value (stack_dict ?s ob) \<and>
      dict_inv ?s {16} (stack_dict ?s ob) (example_chains (stack_dict ?s ob)) ((\<lambda>_. []) (stack_dict ?s ob))"
    using d(1) d(2) [of 200] st [of 64] st [of 200] by (simp add: sound_def example_chains_def)
  have b: "bound_entry ?s (example_chains (stack_dict ?s (dict_ref 64))) (key_of ?s name_A) = Some 84"
    using st [of 64] example_keys(3,4) by (simp add: bound_entry_def example_chains_def)
  have v: "visible ?s example_chains [dict_ref 200, dict_ref 200, dict_ref 200, dict_ref 200] (key_of ?s name_A) = None"
    using st [of 200] by (simp add: bound_entry_def example_chains_def)
  have frame: "\<not> dict_is_frame (dict_at ?s (stack_dict ?s (dict_ref 64)))"
    using st [of 64] by (simp add: dict_is_frame_def has_flag_def IsFrame_def ReadWriteAccess_def)
  show ?thesis
    using popped_string_binding [OF stack _ _ frame example_keys(1,5) _ b _ v, of "\<lambda>_. ret None"]
    by (simp add: PermanentDictCount_def value_offset_def example_keys(6))
qed

section \<open>Definitions that persist\<close>

text \<open>A new key in a local dictionary: the entry goes to the head of its chain, and the cache is left alone.\<close>

lemma find_entry_bucket:
  assumes "find_entry d k s = (Value (i, l, e), s')" "object_hash k s = (Value h, s)" "bucket_index d h s = (Value j, s)"
  shows "i = j"
  using assms unfolding find_entry_def by (auto simp: lift_outcome_def dest!: seq_inv)

lemma persist_new_run:
  assumes tab: "dict_table s names d chs" and key: "plain_key s names k" "\<forall>x\<in>set (concat chs). key_at s x \<noteq> key_of s k"
    and loc: "\<not> is_global s d" "d \<noteq> m_globaldict s"
  shows "\<exists>b. put_persist_or_create svc d k v s = create_persist svc d False k v (dict_home s d (key_of s k)) (s\<lparr>m_localdict_maybe_global := b\<rparr>)"
proof -
  obtain b where b: "(if barrier_relevant_for_localdict s d
       then seq (note_global_into_local svc False k) (\<lambda>_. note_global_into_local svc False v) s else (Value (), s)) = (Value (), s\<lparr>m_localdict_maybe_global := b\<rparr>)"
    using note_pair_ok by blast
  let ?s = "s\<lparr>m_localdict_maybe_global := b\<rparr>"
  have kp: "keeps s ?s" by (simp add: keeps_def)
  note k = keeps_key [OF kp key(1)]
  have "\<forall>x\<in>set (concat chs). key_at ?s x \<noteq> key_of ?s k"
  proof
    fix x assume x: "x \<in> set (concat chs)"
    then have "plain_key s names (e_key (entry_at s x))" using tab by (simp add: dict_table_def del: set_concat)
    then show "key_at ?s x \<noteq> key_of ?s k" using key(2) x keeps_key(2) [OF kp] k(2) by (simp del: set_concat)
  qed
  then obtain i l where f: "find_entry d k ?s = (Value (i, l, nulloffset), ?s)" using dict_table_find [OF dict_table_flag [OF tab] k(1)] by blast
  have "object_hash k ?s = (Value (hash_of_key (key_of ?s k)), ?s)" using k(1) by (intro object_hash_ok) (simp add: plain_key_def)
  moreover have "bucket_index d (hash_of_key (key_of ?s k)) ?s = (Value (dict_home ?s d (key_of ?s k)), ?s)"
    using tab bucket_index_ok [of ?s d] by (simp add: dict_table_def dict_home_def)
  ultimately have "i = dict_home ?s d (key_of ?s k)" using find_entry_bucket [OF f] by blast
  then have "i = dict_home s d (key_of s k)" using k(2) by (simp add: dict_home_def)
  then have "put_persist_or_create svc d k v s = create_persist svc d False k v (dict_home s d (key_of s k)) ?s"
    unfolding put_persist_or_create_def using loc b f by (simp add: reject_fragile_def cong: if_cong split del: if_split)
  then show ?thesis ..
qed

lemma global_alloc_frame:
  assumes "global_alloc svc n kind s = (r, s')"
  shows "dict_at s' = dict_at s" "name_at s' = name_at s" "m_dict s' = m_dict s" "m_eqdict_generation s' = m_eqdict_generation s" "m_eqdict s' = m_eqdict s"
proof -
  obtain t where t: "lift_gvm (\<lambda>g. gvm_alloc (ds_gc svc) g n kind) (trix.truncate s) = (r, t)" "s' = trix.extend t (trix.more s)"
    using assms by (auto simp: global_alloc_def lift_trix_def split: prod.splits)
  have "m_dict t = m_dict s"
    using t(1) by (auto simp: lift_gvm_def gvm.defs trix.defs split: outcome.splits prod.splits)
  then show "dict_at s' = dict_at s" "name_at s' = name_at s" "m_dict s' = m_dict s" "m_eqdict_generation s' = m_eqdict_generation s" "m_eqdict s' = m_eqdict s"
    unfolding t(2) by (cases s, simp add: trix.defs)+
qed

lemma create_persist_local:
  assumes run: "create_persist svc d False k v i s = (Value e, s')" and k: "o_type k \<noteq> TString"
  shows "e_key (entry_at s' e) = k\<lparr>m_object_save_level := 0\<rparr>" "e_value (entry_at s' e) = v\<lparr>m_object_save_level := 0\<rparr>"
    "d_buckets (dict_at s' d) = (d_buckets (dict_at s d))[i := e]" "name_at s' = name_at s"
    "m_dict s' = m_dict s" "m_eqdict_generation s' = m_eqdict_generation s" "m_eqdict s' = m_eqdict s"
proof -
  have clone: "clone_into_global svc False ob = ret ob" for ob by (rule ext) (simp add: clone_into_global_def)
  obtain s2 where s2: "global_alloc svc 20 ChunkKind_HashEntry (s\<lparr>m_gc_roots := k # v # m_gc_roots s\<rparr>) = (Value e, s2)"
      "s' = (let s3 = upd_dict d (\<lambda>h. h\<lparr>d_buckets := (d_buckets h)[i := e], d_length := (d_length h + 1) mod 65536\<rparr>)
        (upd_entry e (\<lambda>_. \<lparr>e_next = d_buckets (dict_at s2 d) ! i, e_key = k\<lparr>m_object_save_level := 0\<rparr>, e_value = v\<lparr>m_object_save_level := 0\<rparr>\<rparr>)
          (s2\<lparr>m_gc_roots := drop 2 (m_gc_roots s2)\<rparr>))
       in if barrier_relevant_for_localdict s3 d then s3\<lparr>m_localdict_maybe_global := True\<rparr> else s3)"
    using run k unfolding create_persist_def clone
    by (auto simp: require_gc_root_capacity_more_def gc_root_push_def gc_root_pop_n_def Let_def upd_dict_def upd_entry_def dest!: seq_inv split: if_splits)
  have frame: "dict_at s2 = dict_at s" "name_at s2 = name_at s" "m_dict s2 = m_dict s" "m_eqdict_generation s2 = m_eqdict_generation s" "m_eqdict s2 = m_eqdict s"
    using global_alloc_frame [OF s2(1)] by simp_all
  show "e_key (entry_at s' e) = k\<lparr>m_object_save_level := 0\<rparr>" "e_value (entry_at s' e) = v\<lparr>m_object_save_level := 0\<rparr>"
    "d_buckets (dict_at s' d) = (d_buckets (dict_at s d))[i := e]" "name_at s' = name_at s"
    "m_dict s' = m_dict s" "m_eqdict_generation s' = m_eqdict_generation s" "m_eqdict s' = m_eqdict s"
    using frame unfolding s2(2) Let_def by (simp_all add: upd_dict_def upd_entry_def)
qed

text \<open>
  C33. A definition that persists does not reach the cache when it makes a new entry: a name whose cache holds a binding further down keeps it after \<open>def-persist\<close> has
  put the name into the dictionary on the top of the stack, so a lookup returns the old value, while a walk of the dictionary stack finds the new one.
\<close>

theorem persist_hidden_by_cache:
  assumes stack: "dict_stack s = ob # obs" "dict_value s ob = Value d" "\<not> is_global s d" "d \<noteq> m_globaldict s"
    and tab: "dict_table s names d chs" and key: "plain_key s names k" "o_type k = TName" "\<forall>x\<in>set (concat chs). key_at s x \<noteq> key_of s k"
    and cached: "n_binding (name_at s (m_offset k)) = old" "0 < old" "old < m_vm_limit s"
    and run: "put_persist_or_create svc d k v s = (Value e, s')" "m_vm_limit s' = m_vm_limit s" "0 < e" "e < m_vm_limit s" "\<not> is_unset_local v"
  shows "fst (name_search paths k s') = Value (Some old) \<and> fst (name_lookup_in_stack k s') = Value (Some (value_offset e))"
proof -
  let ?n = "m_offset k" and ?i = "dict_home s d (key_of s k)"
  obtain b where b: "create_persist svc d False k v ?i (s\<lparr>m_localdict_maybe_global := b\<rparr>) = (Value e, s')"
    using persist_new_run [OF tab key(1,3) stack(3,4), of svc v] run(1) by metis
  have "o_type k \<noteq> TString" using key(2) by simp
  note x = create_persist_local [OF b this, simplified]
  have ptr: "offset_to_ptr s' y = offset_to_ptr s y" for y using run(2) by (simp add: offset_to_ptr_def)
  have kok: "offset_to_ptr s ?n = Value ?n" "n_hash (name_at s ?n) = hash_of_key (key_of s k)"
    using key(1,2) by (simp_all add: plain_key_def key_ok_def key_of_def hash_of_key_def)
  have nv: "name_value k s' = (Value (name_at s ?n), s')" using kok(1) x(4) ptr by (simp add: name_value_def lift_outcome_def)
  have "offset_to_ptr s' old = Value old" using cached run(2) by (simp add: offset_to_ptr_def nulloffset_def)
  then have search: "fst (name_search paths k s') = Value (Some old)"
    using nv cached(1,2) by (simp add: name_search_def cached_binding_def lift_outcome_def nulloffset_def)
  have dv: "dict_value s' ob = Value d" using stack(2) unfolding dict_value_def x(6,7) ptr .
  have valid: "bucket_count_is_valid (length (d_buckets (dict_at s d)))" using tab by (simp add: dict_table_def)
  then have "0 < length (d_buckets (dict_at s d))" using bucket_count_bounds by blast
  then have i: "?i < length (d_buckets (dict_at s d))" by (simp add: dict_home_def)
  have bi: "bucket_index d (n_hash (name_at s ?n)) s' = (Value ?i, s')"
    using bucket_index_ok [of s' d "n_hash (name_at s ?n)"] valid x(3) kok(2) by (simp add: dict_home_def)
  have "match_key s' k (e_key (entry_at s' e)) = Value True" using key(2) x(1) by (simp add: match_key_def)
  moreover have "\<not> is_unset_local (e_value (entry_at s' e))" using x(2) run(5) by (simp add: is_unset_local_def)
  moreover have "offset_to_ptr s' e = Value e" "e \<noteq> nulloffset" using run(2-4) by (simp_all add: offset_to_ptr_def nulloffset_def)
  ultimately have "name_in_chain s' k e = Some (Value e)" by (subst name_in_chain.simps) simp
  then have found: "name_in_dict k d ?i s' = (Value e, s')" using x(3) i by (simp add: name_in_dict_def lift_outcome_def from_option_def)
  have "set_name_binding k (value_offset e) s' = (Value (), bind_name ?n (value_offset e) s')"
    using kok(1) ptr by (simp add: set_name_binding_def lift_outcome_def bind_name_def)
  then have "fst (name_lookup_in_stack k s') = Value (Some (value_offset e))"
    using nv dv bi found x(5) stack(1) run(3) by (simp add: name_lookup_in_stack_def lift_outcome_def nulloffset_def)
  then show ?thesis using search by simp
qed

text \<open>The example with a number as the key of the dictionary, and the name \<open>A\<close> bound to the value of an entry at 212.\<close>

definition persist_example :: dict_machine where
  "persist_example = (lookup_example (number 0 7))\<lparr>m_gc_scratch_offset := 960, name_at := (name_at (lookup_example (number 0 7)))
     (16 := (name_at (lookup_example (number 0 7)) 16)\<lparr>n_binding := 212\<rparr>)\<rparr>"

lemma persist_example_alloc:
  "\<exists>s1. global_alloc svc_example 20 ChunkKind_HashEntry (persist_example\<lparr>m_localdict_maybe_global := b, m_gc_roots := rs\<rparr>) = (Value 1000, s1) \<and> m_vm_limit s1 = 1024"
  by (simp add: run_global_alloc ChunkKind_HashEntry_def persist_example_def lookup_example_def dict_example_def key_example_def trix.defs gvm.defs key_machine.defs
    dict_machine.defs small_machine_def Let_def svc_example_def)

lemma persist_example_table:
  "dict_table persist_example {16} 64 [[84]]" "plain_key persist_example {16} name_A" "key_of persist_example name_A = KText [65]" "key_at persist_example 84 \<noteq> KText [65]"
proof -
  let ?s = "lookup_example (number 0 7)"
  have kp: "keeps ?s persist_example" by (simp add: keeps_def persist_example_def)
  show k: "plain_key persist_example {16} name_A" "key_of persist_example name_A = KText [65]"
    using keeps_key [OF kp example_keys(1)] example_keys(3) by simp_all
  show "key_at persist_example 84 \<noteq> KText [65]" by (simp add: persist_example_def number_def make_object_def key_of_def)
  show "dict_table persist_example {16} 64 [[84]]"
    by (simp add: persist_example_def dict_table_def bucket_count_is_valid_def dict_bucket_counts_def nulloffset_def interned_def)
qed

theorem persist_hidden_by_cache_witness:
  "\<exists>s. put_persist_or_create svc_example 64 name_A (number 0 1) persist_example = (Value 1000, s) \<and>
     fst (name_search (\<lambda>_. ret None) name_A s) = Value (Some 212) \<and> fst (name_lookup_in_stack name_A s) = Value (Some 1012)"
proof -
  note t = persist_example_table
  have f: "m_gc_roots persist_example = []" "gc_root_slots persist_example = 8" "m_vm_limit persist_example = 1024"
      "dict_stack persist_example = dict_ref 64 # [dict_ref 200, dict_ref 200, dict_ref 200, dict_ref 200]" "n_binding (name_at persist_example (m_offset name_A)) = 212"
    by (simp_all add: persist_example_def example_keys(7))
  have dv: "dict_value persist_example (dict_ref 64) = Value 64" by (simp add: offset_to_ptr_def nulloffset_def f(3))
  have loc: "\<not> is_global persist_example 64" "64 \<noteq> m_globaldict persist_example"
    by (simp_all add: is_global_def persist_example_def lookup_example_def dict_example_def key_example_def trix.defs key_machine.defs dict_machine.defs small_machine_def)
  have fresh: "\<forall>x\<in>set (concat [[84]]). key_at persist_example x \<noteq> key_of persist_example name_A" using t(3,4) by simp
  obtain b where b: "put_persist_or_create svc_example 64 name_A (number 0 1) persist_example =
      create_persist svc_example 64 False name_A (number 0 1) (dict_home persist_example 64 (KText [65])) (persist_example\<lparr>m_localdict_maybe_global := b\<rparr>)"
    using persist_new_run [OF t(1,2) fresh loc] t(3) by metis
  obtain s1 where s1: "global_alloc svc_example 20 ChunkKind_HashEntry (persist_example\<lparr>m_localdict_maybe_global := b, m_gc_roots := [name_A, number 0 1]\<rparr>) = (Value 1000, s1)"
      "m_vm_limit s1 = 1024" using persist_example_alloc by blast
  obtain s where s: "put_persist_or_create svc_example 64 name_A (number 0 1) persist_example = (Value 1000, s)" "m_vm_limit s = 1024"
    unfolding b create_persist_def using s1 f(1,2) example_keys(5)
    by (simp add: require_gc_root_capacity_more_def gc_root_push_def gc_root_pop_n_def upd_entry_def upd_dict_def)
  have "fst (name_search (\<lambda>_. ret None) name_A s) = Value (Some 212) \<and> fst (name_lookup_in_stack name_A s) = Value (Some (value_offset 1000))"
    by (rule persist_hidden_by_cache [OF f(4) dv loc t(1,2) example_keys(5) fresh f(5) _ _ s(1)])
      (simp_all add: s(2) f(3) number_def make_object_def is_unset_local_def)
  then show ?thesis using s(1) by (auto simp: value_offset_def)
qed

end
