(* ===== verification/Spec2Isabelle.thy ===== *)
theory Spec2Isabelle
  imports Gc_Scratch Chip8_Theorems Tetrix_Theorems Host_Args Ops_Flow Save_Relocate Lookup_Theorems
begin

text \<open>
  A verification development for Trix, a stack-language virtual machine written as a single
  C++23 class (\<^verbatim>\<open>src/trix.h\<close> and the \<^verbatim>\<open>src/src/*.inl\<close> files it includes), and for the two host
  programs that embed it with operators of their own (\<^verbatim>\<open>src/chip8.cpp\<close>, \<^verbatim>\<open>src/tetrix.cpp\<close>).

  \<^bold>\<open>The program.\<close> One heap, addressed by 32-bit offsets, holds everything. Its low end is a bump
  allocator with a save stack (\<^verbatim>\<open>vm_heap.inl\<close>), its high end the global region, a boundary-tag allocator
  with free lists (\<^verbatim>\<open>gvm_heap.inl\<close>) and a mark-sweep collector (\<^verbatim>\<open>gc.inl\<close>). Values are eight-byte objects
  with a type tag (\<^verbatim>\<open>object.inl\<close>); numbers wider than 32 bits live in cells of the heap that every copy
  clones and every pop releases. Operators check their operands against descriptors
  (\<^verbatim>\<open>verify.inl\<close>), work on four bounded stacks (operands, execution, dictionaries, error companions), and
  leave control operators on the execution stack as frames. \<open>exit\<close>, \<open>stop\<close> and errors unwind that stack
  by tables of flags, pop counts and unwind actions (\<^verbatim>\<open>object.inl\<close>, \<^verbatim>\<open>op_descriptor.inl\<close>,
  \<^verbatim>\<open>ops_flow.inl\<close>, \<^verbatim>\<open>ops_system.inl\<close>). Names are interned in a hash table (\<^verbatim>\<open>name.inl\<close>, \<^verbatim>\<open>hash.inl\<close>). \<open>save\<close> opens a level
  whose changes to the local heap are journalled, and \<open>restore\<close> undoes them and rolls the heap
  back, moving the wide numbers that are still on the stacks (\<^verbatim>\<open>save.inl\<close>, \<^verbatim>\<open>object.inl\<close>).

  \<^bold>\<open>Outcomes.\<close> \<open>Prelude\<close> has the result type all operations share: a value, a raised error of the enumeration
  of \<^verbatim>\<open>types.inl\<close>, divergence, or \<open>Fault\<close> for an access the C++ code makes outside its memory or against an
  internal assumption. \<open>Actions\<close> has the state-passing actions \<open>ret\<close>, \<open>seq\<close>, \<open>raise\<close>, \<open>gets\<close>, \<open>modify\<close>.

  \<^bold>\<open>Theories.\<close>

  \<^item> \<open>Vm_Heap\<close>: the local heap: pointers as offsets from the base, permanent, streaming and temporary
    allocation, the bump of the global region. An allocation succeeds exactly when it fits.

  \<^item> \<open>Gvm_Heap\<close>: the global allocator, headers and free links as maps from offsets; \<open>Gvm_Links\<close>,
    \<open>Gvm_Inv\<close>, \<open>Gvm_Correct\<close>, \<open>Gvm_Alloc\<close>, \<open>Gvm_Free\<close> and \<open>Gvm_Public\<close> prove the invariant (the region is tiled by
    blocks, free blocks are on exactly one list and never adjacent, the counter is exact) and that
    every operation keeps it; an allocation fails only when the region is exhausted. \<open>Gc\<close> is the
    collector, with what the walkers of blocks and roots hand over (references to mark, local containers to
    visit) as an argument, and with the array of visited containers in the scratch block, which
    grows in the middle of a pass; \<open>Gc_Mark\<close> and \<open>Gc_Correct\<close> show that marking computes
    reachability when a pass meets no more local containers than the array has entries.
    \<open>Gvm_Theorems\<close> states the results: allocation, release and collection refine operations on a
    finite map of live blocks. \<open>Gc_Scratch\<close> is what the growth of the scratch block does to the pointers.

  \<^item> \<open>Objects\<close>: types, attribute table, the object record, conversion to 32 bits with saturation.
    \<open>Cells\<close>: the pools of 8- and 16-byte cells, one model for the two classes of the code; the
    locale \<open>cell_allocator\<close> states what the users of a pool rely on, with a free list per save level, and
    is interpreted on both.
    \<open>Machine\<close>: the record \<open>trix\<close> of the machine, the stacks with their capacity checks, cloning and
    release of objects in either region.

  \<^item> \<open>Verify\<close>: operand descriptors as 64-bit words, the five checks, the fast path (equal to
    running all checks), the description text (never past its buffer).
    Binary floating-point numbers are words with the comparisons of IEEE 754 on their bits.

  \<^item> \<open>Control_Ops\<close>: the control-operator numbers, flags, pop counts and unwind descriptors, row by
    row, and what the two tables must agree on.

  \<^item> \<open>Ops_Stack\<close>: the operand-stack operators; \<open>Unwind\<close>: \<open>unwind_exec_to\<close> and the error handler;
    \<open>Scopes\<close>: what a running procedure may have open above a frame (barriers, allocation scopes, local
    variables, values with cells), and how \<open>exit\<close> and errors close each of these; \<open>Ops_Flow\<close>: conditionals, loops, \<open>exit\<close>, \<open>stop\<close>, the \<open>try\<close> family, contracts and allocation scopes. The
    theorems follow whole runs: a loop left by \<open>exit\<close>, an error inside \<open>try\<close> caught
    and rolled back.

  \<^item> \<open>Hash\<close>: the hash functions and the remainder by multiplication, which is exact. \<open>Names\<close>: the name table;
    interning refines a set of strings, and the rollback removes exactly the names above the barrier.

  \<^item> \<open>Store\<close>: the bytes of the heap. \<open>Save\<close>: levels, tokens, the journal, its replay, the rollback and the relocation of
    cells, for one coroutine; closing streams, emptying the scratch containers and resetting the error stacks are
    the record \<open>restore_services\<close>. \<open>Save_Tokens\<close>: which tokens are accepted. \<open>Save_Relocate\<close>: extended numbers
    on the stacks survive a restore; mixed with 128-bit numbers they need not.

  \<^item> \<open>Keys\<close>: hash and equality of objects; objects that are equal as keys hash alike. \<open>Dict\<close>: dictionaries, headers and entries as maps from
    offsets, with the journal of a level as a list of what was saved. \<open>Dict_Map\<close>: the invariant (chains hold each key once,
    in the bucket of its hash; the pool has the other entries) and the finite map a dictionary stands for. \<open>Dict_Undo\<close>: the
    journal as a way back. \<open>Dict_Put\<close>, \<open>Dict_Remove\<close>: insertion with growth, and removal, stage by stage. \<open>Dict_Theorems\<close>:
    the operations refine those of a map, what a level did is rolled back, and where the unjournalled insertion
    breaks the rules. Keys that own cells are outside the invariant.

  \<^item> \<open>Lookup\<close>: the search for a name along the dictionary stack with its cache in the name table, and the operators on that
    stack (\<^verbatim>\<open>name.inl\<close>, \<^verbatim>\<open>dict.inl\<close>, \<^verbatim>\<open>ops_dict.inl\<close>): \<open>begin\<close> and \<open>end\<close>, the family of \<open>def\<close>, \<open>load\<close>, \<open>store\<close>, \<open>where\<close>, \<open>undef\<close> and the rest.
    \<open>Binding_Cache\<close>: the invariant of the cache (a binding is the entry a walk of the stack finds first) and that pushing,
    popping, defining, removing and searching keep it. \<open>Lookup_Theorems\<close>: lookup with the cache is lookup without it along any
    such sequence, and the two cases where it is not: keys that are strings, and definitions that persist.

  \<^item> \<open>Pcg32\<close>: the random generator with its bounded draws. \<open>Chip8\<close>, \<open>Chip8_Proofs\<close>, \<open>Chip8_Theorems\<close>: the
    CHIP-8 interpreter operator. \<open>Tetrix\<close>, \<open>Tetrix_Proofs\<close>, \<open>Tetrix_Theorems\<close>: the six game kernels on an
    explicit store, aliasing included. \<open>Host_Args\<close>: the rewriting of the command line by the two hosts.

  \<^bold>\<open>Conventions.\<close> A stack is a list with the top first; a slot \<open>ptr - k\<close> of the code is the element at index
  \<open>k\<close>. A control operator dispatched by the interpreter has been popped before its operator
  function runs. Machine integers keep their width: words in the heap, descriptors, random generator
  and kernels; where the code computes with checked ranges, integers with the range test written out.
  Parts that are called but not modelled are arguments: \<open>services\<close> has the collector, closing a
  stream, clearing name bindings and recycling a dictionary; the tracing of a block's contents is the
  argument of the collector.

  \<^bold>\<open>Loops.\<close> Walks of the global heap, of the free lists and of the cell free lists recurse with a decreasing measure
  or a fuel taken from the heap size: every step moves at least one block or meets a new cell, so
  the fuel is never used up on a sound heap, which the theorems prove; running out is the outcome
  \<open>Diverge\<close>. The rejection loop of the random generator may run for ever; it is a partial function, and the theorem
  about it says for which sources it returns. So are the drain loops of the collector, which are shown
  to end.

  \<^bold>\<open>What is not modelled.\<close> The wording of error messages, debug assertions and the build options for heap tracking
  and debugging. The floating-point operators and the formatters that call the C++ library. Streams, the
  clock and the terminal. The scanner, arrays and the other containers, the
  interpreter loop, coroutines and what is built on them: they need the layouts of the other containers in
  the heap, the next parts to be added, in the order number syntax, binary tokens, interpreter loop. Of
  dictionaries, sets, the recycling of frames and the operators on them (\<open>begin-locals\<close>, \<open>bind-locals\<close>), \<open>reset\<close> and \<open>copy\<close>, \<open>update\<close>,
  \<open>dictstack\<close>, the display and the binding tables of coroutines; the search for a path (\<open>:systemdict:name\<close>) is an argument of the lookup. Of save and restore, the stacks of
  suspended coroutines and the collector's walk of the journal.
\<close>

end
